(* ===== verification/Victauri_Prelude.thy ===== *)
theory Victauri_Prelude
  imports Main "HOL-Library.Sublist" "HOL-Library.List_Lexorder" "HOL-Library.Char_ord"
begin

text \<open>
  The prelude of the Victauri development.  It fixes how Rust's basic types are read
  (\<^verbatim>\<open>u64\<close>/\<^verbatim>\<open>usize\<close> as natural numbers with their width written out where it
  matters, \<^verbatim>\<open>DateTime<Utc>\<close> as an integer count of nanoseconds, \<^verbatim>\<open>String\<close> as the
  list of its UTF-8 bytes), the list operations several components share, and the two
  interfaces several components implement:
  \<^item> \<open>bounded_log\<close>: a log that evicts its oldest entry when it is full
    (the event log, the recorder's events, the screencast's frames);
  \<^item> \<open>generation_owner\<close>: ownership of the current session by a generation number that is
    never handed out twice (the event recorder, the screencast).
\<close>

section \<open>Names for the model's types\<close>

type_synonym u64 = nat
type_synonym usize = nat
type_synonym timestamp = int

definition u64_max :: nat where
  "u64_max = 2 ^ 64 - 1"

definition sat_add :: "nat \<Rightarrow> nat \<Rightarrow> nat" where
  "sat_add a b = min (a + b) u64_max"

definition sat_sub :: "nat \<Rightarrow> nat \<Rightarrow> nat" where
  "sat_sub a b = (if a < b then 0 else a - b)"

lemma sat_sub_eq [simp]: "sat_sub a b = a - b"
  by (simp add: sat_sub_def)

lemma sat_add_le_max [simp]: "sat_add a b \<le> u64_max"
  by (simp add: sat_add_def)

lemma sat_add_exact: "a + b \<le> u64_max \<Longrightarrow> sat_add a b = a + b"
  by (simp add: sat_add_def)

lemma sat_add_ge: "a \<le> u64_max \<Longrightarrow> a \<le> sat_add a b"
  by (simp add: sat_add_def)

section \<open>The newest entries of a list\<close>

definition take_last :: "nat \<Rightarrow> 'a list \<Rightarrow> 'a list" where
  "take_last n xs = drop (length xs - n) xs"

lemma length_take_last [simp]: "length (take_last n xs) = min n (length xs)"
  by (simp add: take_last_def)

lemma take_last_all [simp]: "length xs \<le> n \<Longrightarrow> take_last n xs = xs"
  by (simp add: take_last_def)

lemma take_last_zero [simp]: "take_last 0 xs = []"
  by (simp add: take_last_def)

lemma suffix_take_last [simp]: "suffix (take_last n xs) xs"
  by (simp add: take_last_def suffix_drop)

lemma set_take_last_subset: "set (take_last n xs) \<subseteq> set xs"
  by (simp add: take_last_def set_drop_subset)

lemma take_last_snoc:
  "0 < n \<Longrightarrow> take_last n (xs @ [x]) = (if n \<le> length xs then drop (length xs + 1 - n) xs else xs) @ [x]"
  by (simp add: take_last_def)

lemma take_last_Suc_drop:
  "0 < n \<Longrightarrow> n \<le> length xs \<Longrightarrow> drop (length xs + 1 - n) xs = tl (take_last n xs)"
  by (simp add: take_last_def tl_drop Suc_diff_le drop_Suc)

lemma take_last_push:
  "0 < n \<Longrightarrow> take_last n (xs @ [x]) = (if n \<le> length xs then tl (take_last n xs) else xs) @ [x]"
  using take_last_snoc [of n xs x] take_last_Suc_drop [of n xs] by simp

lemma take_last_take_last [simp]: "take_last m (take_last n xs) = take_last (min m n) xs"
proof (cases "m \<le> n")
  case True
  then have "length xs - n + (length xs - (m + (length xs - n))) = length xs - m" by arith
  with True show ?thesis by (simp add: take_last_def add.commute)
next
  case False
  then show ?thesis by (simp add: take_last_def)
qed

lemma rev_take_rev: "rev (take n (rev xs)) = take_last n xs"
  by (simp add: take_last_def rev_take)

lemma fold_max_ge: "(x :: nat) \<in> set xs \<Longrightarrow> x \<le> fold max xs a"
  using Max.set_eq_fold [of a xs] by (metis List.finite_set Max_ge insert_iff list.set(2))

lemma fold_max_le: "(\<And>x. x \<in> set xs \<Longrightarrow> x \<le> b) \<Longrightarrow> a \<le> b \<Longrightarrow> fold max xs (a :: nat) \<le> b"
  by (induction xs arbitrary: a) simp_all

lemma list_all2_imp_eq:
  "list_all2 R xs ys \<Longrightarrow> (\<And>x y. x \<in> set xs \<Longrightarrow> R x y \<Longrightarrow> x = y) \<Longrightarrow> xs = ys"
  by (induction rule: list_all2_induct) auto

section \<open>Bounded logs\<close>

text \<open>
  \<^verbatim>\<open>VecDeque\<close> as a list, oldest entry first.  Pushing on a full deque first pops the
  front: this is the code shape of \<^verbatim>\<open>EventLog::push\<close>, \<^verbatim>\<open>EventRecorder::append\<close> and
  \<^verbatim>\<open>EventRecorder::checkpoint\<close>.  \<^verbatim>\<open>pop_front\<close> of an empty deque does nothing, so a
  capacity of 0 still leaves one entry.
\<close>

definition push_evict :: "nat \<Rightarrow> 'a list \<Rightarrow> 'a \<Rightarrow> 'a list" where
  "push_evict cap xs x = (if cap \<le> length xs then tl xs else xs) @ [x]"

lemma last_push_evict [simp]: "last (push_evict cap xs x) = x"
  by (simp add: push_evict_def)

lemma push_evict_neq_Nil [simp]: "push_evict cap xs x \<noteq> []"
  by (simp add: push_evict_def)

lemma length_push_evict: "length xs \<le> max 1 cap \<Longrightarrow> length (push_evict cap xs x) \<le> max 1 cap"
  by (auto simp: push_evict_def)

lemma map_push_evict: "map f (push_evict cap xs x) = push_evict cap (map f xs) (f x)"
  by (simp add: push_evict_def map_tl)

lemma set_push_evict_subset: "set (push_evict cap xs x) \<subseteq> insert x (set xs)"
  by (cases xs) (auto simp: push_evict_def)

lemma push_evict_take_last:
  "push_evict cap (take_last (max 1 cap) xs) x = take_last (max 1 cap) (xs @ [x])"
proof (cases "max 1 cap \<le> length xs")
  case True
  then have "cap \<le> length (take_last (max 1 cap) xs)"
    by simp
  with True show ?thesis
    by (simp add: push_evict_def take_last_push)
next
  case False
  have "cap \<noteq> 0 \<or> xs = []"
    using False by (cases xs) auto
  then show ?thesis
    using False by (auto simp: push_evict_def take_last_push max_def split: if_splits)
qed

lemmas push_evict_take_last_Suc = push_evict_take_last [unfolded One_nat_def]

locale bounded_log =
  fixes items :: "'s \<Rightarrow> 'a list"
    and cap :: "'s \<Rightarrow> nat"
    and push :: "'a \<Rightarrow> 's \<Rightarrow> 's"
  assumes items_push: "items (push x s) = push_evict (cap s) (items s) x"
    and cap_push: "cap (push x s) = cap s"
begin

lemma cap_pushes: "cap (fold push xs s) = cap s"
  by (induction xs arbitrary: s) (simp_all add: cap_push)

lemma newest_kept: "items (push x s) \<noteq> [] \<and> last (items (push x s)) = x"
  by (simp add: items_push)

lemma bounded_push:
  "length (items s) \<le> max 1 (cap s) \<Longrightarrow> length (items (push x s)) \<le> max 1 (cap (push x s))"
  by (simp only: items_push cap_push length_push_evict)

lemma pushes_gen:
  "items s = take_last (max 1 (cap s)) ys \<Longrightarrow>
   items (fold push xs s) = take_last (max 1 (cap s)) (ys @ xs)"
proof (induction xs arbitrary: s ys)
  case Nil
  then show ?case by simp
next
  case (Cons x xs)
  have "items (push x s) = take_last (max 1 (cap (push x s))) (ys @ [x])"
    by (simp only: items_push cap_push Cons.prems push_evict_take_last)
  from Cons.IH [OF this] show ?case
    by (simp add: cap_push)
qed

text \<open>The log after any number of pushes is the newest \<open>cap\<close> entries of all that was there.\<close>

lemma pushes:
  "length (items s) \<le> max 1 (cap s) \<Longrightarrow>
   items (fold push xs s) = take_last (max 1 (cap s)) (items s @ xs)"
  by (rule pushes_gen) simp

end

section \<open>Generations\<close>

text \<open>
  A component that runs at most one session at a time hands out a number per session.
  \<open>live s\<close> are the numbers that are or can still become current; the laws say that no
  step revives a number and that a number which stops being current is not live any more.
\<close>

locale generation_owner =
  fixes inv :: "'s \<Rightarrow> bool"
    and step :: "'s \<Rightarrow> 's \<Rightarrow> bool"
    and current :: "'s \<Rightarrow> nat option"
    and live :: "'s \<Rightarrow> nat set"
  assumes inv_step: "inv s \<Longrightarrow> step s t \<Longrightarrow> inv t"
    and current_live: "inv s \<Longrightarrow> current s = Some g \<Longrightarrow> g \<in> live s"
    and live_step: "inv s \<Longrightarrow> step s t \<Longrightarrow> live t \<subseteq> live s"
    and retire: "inv s \<Longrightarrow> step s t \<Longrightarrow> current s = Some g \<Longrightarrow> current t \<noteq> Some g \<Longrightarrow> g \<notin> live t"
begin

lemma inv_steps: "step\<^sup>*\<^sup>* s t \<Longrightarrow> inv s \<Longrightarrow> inv t"
  by (induction rule: rtranclp_induct) (auto intro: inv_step)

lemma live_steps: "step\<^sup>*\<^sup>* s t \<Longrightarrow> inv s \<Longrightarrow> live t \<subseteq> live s"
  by (induction rule: rtranclp_induct) (auto dest: inv_steps live_step)

lemma never_current_again:
  assumes "inv s" "step s t" "current s = Some g" "current t \<noteq> Some g" "step\<^sup>*\<^sup>* t u"
  shows "current u \<noteq> Some g"
proof
  assume u: "current u = Some g"
  have t: "inv t" using assms(1,2) by (rule inv_step)
  then have "inv u" using assms(5) by (blast intro: inv_steps)
  then have "g \<in> live u" using u by (rule current_live)
  then have "g \<in> live t" using live_steps [OF assms(5) t] by blast
  moreover have "g \<notin> live t" using assms(1-4) by (rule retire)
  ultimately show False by blast
qed

end

section \<open>Strings\<close>

text \<open>
  A Rust \<^verbatim>\<open>str\<close> is the list of its UTF-8 bytes; equality, prefixes, substrings and splitting
  at an ASCII character are the same on bytes and on characters.
\<close>

definition strip_prefix :: "string \<Rightarrow> string \<Rightarrow> string option" where
  "strip_prefix p s = (if prefix p s then Some (drop (length p) s) else None)"

lemma strip_prefix_Some_iff: "strip_prefix p s = Some r \<longleftrightarrow> s = p @ r"
  by (auto simp: strip_prefix_def prefix_def)

lemma strip_prefix_append [simp]: "strip_prefix p (p @ r) = Some r"
  by (simp add: strip_prefix_Some_iff)

text \<open>\<^verbatim>\<open>str::split_once\<close> at a character: the text before and after its first occurrence.\<close>

fun split_once :: "char \<Rightarrow> string \<Rightarrow> (string \<times> string) option" where
  "split_once c [] = None"
| "split_once c (x # xs) =
     (if x = c then Some ([], xs)
      else map_option (\<lambda>(a, b). (x # a, b)) (split_once c xs))"

lemma split_once_Some: "split_once c s = Some (a, b) \<longleftrightarrow> s = a @ c # b \<and> c \<notin> set a"
proof (induction s arbitrary: a)
  case Nil
  then show ?case by simp
next
  case (Cons x xs)
  then show ?case by (cases a) auto
qed

lemma split_once_None: "split_once c s = None \<longleftrightarrow> c \<notin> set s"
  by (induction s) auto

text \<open>\<^verbatim>\<open>str::split\<close> at every character satisfying \<open>p\<close>: never an empty list.\<close>

fun split_on :: "(char \<Rightarrow> bool) \<Rightarrow> string \<Rightarrow> string list" where
  "split_on p [] = [[]]"
| "split_on p (x # xs) =
     (if p x then [] # split_on p xs
      else (case split_on p xs of [] \<Rightarrow> [[x]] | w # ws \<Rightarrow> (x # w) # ws))"

lemma split_on_neq_Nil [simp]: "split_on p s \<noteq> []"
  by (induction s) (auto split: list.splits)

lemma split_on_no_sep: "w \<in> set (split_on p s) \<Longrightarrow> c \<in> set w \<Longrightarrow> \<not> p c"
proof (induction s arbitrary: w)
  case Nil
  then show ?case by simp
next
  case (Cons x xs)
  show ?case
  proof (cases "p x")
    case True
    with Cons show ?thesis by auto
  next
    case False
    obtain v vs where v: "split_on p xs = v # vs"
      by (cases "split_on p xs") auto
    with False Cons.prems(1) have "w = x # v \<or> w \<in> set vs" by auto
    with Cons.IH [of v] Cons.IH [of w] Cons.prems(2) False v show ?thesis by auto
  qed
qed

text \<open>\<^verbatim>\<open>str::contains\<close> of a substring.\<close>

definition contains_str :: "string \<Rightarrow> string \<Rightarrow> bool" where
  "contains_str s w = sublist w s"

lemma contains_str_self [simp]: "contains_str s s" "contains_str s []"
  by (simp_all add: contains_str_def)

lemma contains_str_code [code]:
  "contains_str s w = (prefix w s \<or> (case s of [] \<Rightarrow> False | _ # t \<Rightarrow> contains_str t w))"
  by (cases s) (simp_all add: contains_str_def sublist_Cons_right)

definition to_ascii_lower :: "char \<Rightarrow> char" where
  "to_ascii_lower c =
     (if of_char c \<ge> (65 :: nat) \<and> of_char c \<le> (90 :: nat) then char_of (of_char c + 32 :: nat) else c)"

definition eq_ignore_ascii_case :: "string \<Rightarrow> string \<Rightarrow> bool" where
  "eq_ignore_ascii_case a b = (map to_ascii_lower a = map to_ascii_lower b)"

definition is_ascii_digit :: "char \<Rightarrow> bool" where
  "is_ascii_digit c = (of_char c \<ge> (48 :: nat) \<and> of_char c \<le> (57 :: nat))"

definition is_ascii_alphanumeric :: "char \<Rightarrow> bool" where
  "is_ascii_alphanumeric c = (is_ascii_digit c \<or>
     (let n = of_char c :: nat in (65 \<le> n \<and> n \<le> 90) \<or> (97 \<le> n \<and> n \<le> 122)))"

text \<open>
  \<^verbatim>\<open>str::trim\<close> removes every character with the Unicode \<^verbatim>\<open>White_Space\<close> property at both
  ends; these are their UTF-8 encodings.
\<close>

definition white_space :: "string list" where
  "white_space =
     [[CHR 0x09], [CHR 0x0A], [CHR 0x0B], [CHR 0x0C], [CHR 0x0D], [CHR 0x20],
      [CHR 0xC2, CHR 0x85], [CHR 0xC2, CHR 0xA0], [CHR 0xE1, CHR 0x9A, CHR 0x80],
      [CHR 0xE2, CHR 0x80, CHR 0x80], [CHR 0xE2, CHR 0x80, CHR 0x81], [CHR 0xE2, CHR 0x80, CHR 0x82],
      [CHR 0xE2, CHR 0x80, CHR 0x83], [CHR 0xE2, CHR 0x80, CHR 0x84], [CHR 0xE2, CHR 0x80, CHR 0x85],
      [CHR 0xE2, CHR 0x80, CHR 0x86], [CHR 0xE2, CHR 0x80, CHR 0x87], [CHR 0xE2, CHR 0x80, CHR 0x88],
      [CHR 0xE2, CHR 0x80, CHR 0x89], [CHR 0xE2, CHR 0x80, CHR 0x8A], [CHR 0xE2, CHR 0x80, CHR 0xA8],
      [CHR 0xE2, CHR 0x80, CHR 0xA9], [CHR 0xE2, CHR 0x80, CHR 0xAF], [CHR 0xE2, CHR 0x81, CHR 0x9F],
      [CHR 0xE3, CHR 0x80, CHR 0x80]]"

text \<open>Remove the words of \<open>ws\<close> from the front as long as one is a prefix.\<close>

function strip_words :: "string list \<Rightarrow> string \<Rightarrow> string" where
  "strip_words ws s =
     (case find (\<lambda>w. w \<noteq> [] \<and> prefix w s) ws of
        None \<Rightarrow> s
      | Some w \<Rightarrow> strip_words ws (drop (length w) s))"
  by pat_completeness auto
termination
proof (relation "measure (length \<circ> snd)")
  fix ws s w
  assume "find (\<lambda>w. w \<noteq> [] \<and> prefix w s) ws = Some w"
  then have "w \<noteq> []" "prefix w s" by (auto simp: find_Some_iff)
  then show "((ws, drop (length w) s), (ws, s)) \<in> measure (length \<circ> snd)"
    by (auto simp: prefix_def)
qed simp

declare strip_words.simps [simp del]

definition str_trim :: "string \<Rightarrow> string" where
  "str_trim s = rev (strip_words (map rev white_space) (rev (strip_words white_space s)))"

lemma strip_words_Nil [simp]: "strip_words ws [] = []"
  by (subst strip_words.simps) (auto split: option.splits simp: find_Some_iff)

text \<open>What is removed is a sequence of the words.\<close>

lemma strip_words_splits: "\<exists>vs. set vs \<subseteq> set ws \<and> s = concat vs @ strip_words ws s"
proof (induction ws s rule: strip_words.induct)
  case (1 ws s)
  show ?case
  proof (cases "find (\<lambda>w. w \<noteq> [] \<and> prefix w s) ws")
    case None
    then have "strip_words ws s = s" by (subst strip_words.simps) simp
    then show ?thesis by (intro exI [of _ "[]"]) simp
  next
    case (Some w)
    then have strip: "strip_words ws s = strip_words ws (drop (length w) s)"
      by (subst strip_words.simps) simp
    obtain vs where vs: "set vs \<subseteq> set ws" "drop (length w) s = concat vs @ strip_words ws s"
      using 1 [OF Some] strip by auto
    have "w \<in> set ws" "prefix w s" using Some by (auto simp: find_Some_iff)
    then have "s = concat (w # vs) @ strip_words ws s" using vs(2) by (auto simp: prefix_def)
    then show ?thesis using vs(1) \<open>w \<in> set ws\<close> by (intro exI [of _ "w # vs"]) simp
  qed
qed

lemma strip_words_all: "strip_words ws s = [] \<Longrightarrow> \<exists>vs. set vs \<subseteq> set ws \<and> s = concat vs"
  using strip_words_splits [of ws s] by simp

lemma str_trim_Nil:
  assumes "str_trim s = []" "c \<in> set s"
  shows "\<exists>w \<in> set white_space. c \<in> set w"
proof -
  obtain us where us: "set us \<subseteq> set white_space" "s = concat us @ strip_words white_space s"
    using strip_words_splits by blast
  obtain vs where vs: "set vs \<subseteq> set (map rev white_space)" "rev (strip_words white_space s) = concat vs"
    using strip_words_all assms(1) unfolding str_trim_def rev_is_Nil_conv by blast
  have "set (strip_words white_space s) = set (concat vs)" using vs(2) by (metis set_rev)
  then have "c \<in> set (concat us) \<union> set (concat vs)" using us(2) assms(2) by (metis Un_iff set_append)
  then obtain w where "w \<in> set us \<union> set vs" "c \<in> set w" by auto
  then show ?thesis using us(1) vs(1) by fastforce
qed

text \<open>\<^verbatim>\<open>str::get(..n)\<close>: the first \<open>n\<close> bytes when they end at a character boundary.\<close>

definition is_continuation_byte :: "char \<Rightarrow> bool" where
  "is_continuation_byte c = (of_char c \<ge> (128 :: nat) \<and> of_char c < (192 :: nat))"

definition str_get_to :: "nat \<Rightarrow> string \<Rightarrow> string option" where
  "str_get_to n s =
     (if n = 0 \<or> n = length s \<or> (n < length s \<and> \<not> is_continuation_byte (s ! n)) then Some (take n s)
      else None)"

text \<open>\<^verbatim>\<open>Display\<close> of an unsigned and of a signed integer.\<close>

fun decimal :: "nat \<Rightarrow> string" where
  "decimal n =
     (if n < 10 then [char_of (48 + n)] else decimal (n div 10) @ [char_of (48 + n mod 10)])"

declare decimal.simps [simp del]

definition decimal_int :: "int \<Rightarrow> string" where
  "decimal_int i = (if i < 0 then CHR ''-'' # decimal (nat (- i)) else decimal (nat i))"

lemma decimal_digits: "c \<in> set (decimal n) \<Longrightarrow> is_ascii_digit c"
proof (induction n rule: decimal.induct)
  case (1 n)
  show ?case
  proof (cases "n < 10")
    case True
    then have "c = char_of (48 + n)" using 1(2) by (subst (asm) decimal.simps) simp
    then show ?thesis using True by (simp add: is_ascii_digit_def)
  next
    case False
    then have "c \<in> set (decimal (n div 10)) \<or> c = char_of (48 + n mod 10)"
      using 1(2) by (subst (asm) decimal.simps) auto
    moreover have "is_ascii_digit (char_of (48 + n mod 10))"
    proof -
      have "n mod 10 < 10" by simp
      then show ?thesis by (simp add: is_ascii_digit_def)
    qed
    ultimately show ?thesis using 1(1) [OF False] by blast
  qed
qed

lemma decimal_neq_Nil [simp]: "decimal n \<noteq> []"
  by (subst decimal.simps) simp

text \<open>The number a string of decimal digits denotes (what \<^verbatim>\<open>str::parse\<close> of an integer computes).\<close>

definition digits_value :: "string \<Rightarrow> nat" where
  "digits_value s = fold (\<lambda>c n. 10 * n + (of_char c - 48)) s 0"

text \<open>\<^verbatim>\<open>join\<close> of a slice of strings.\<close>

fun join :: "string \<Rightarrow> string list \<Rightarrow> string" where
  "join sep [] = []"
| "join sep [w] = w"
| "join sep (w # ws) = w @ sep @ join sep ws"

text \<open>Different numbers have different decimal texts.\<close>

lemma digits_value_snoc: "digits_value (s @ [c]) = 10 * digits_value s + (of_char c - 48)"
  by (simp add: digits_value_def)

lemma digits_value_decimal: "digits_value (decimal n) = n"
proof (induction n rule: decimal.induct)
  case (1 n)
  show ?case
  proof (cases "n < 10")
    case True
    then show ?thesis by (subst decimal.simps) (simp add: digits_value_def)
  next
    case False
    have "n mod 10 < 10" by simp
    then have "of_char (char_of (48 + n mod 10) :: char) - 48 = n mod 10" by simp
    with 1 [OF False] False show ?thesis
      by (subst decimal.simps) (simp add: digits_value_snoc)
  qed
qed

lemma decimal_inj: "decimal m = decimal n \<longleftrightarrow> m = n"
  by (metis digits_value_decimal)

text \<open>\<^verbatim>\<open>chars().take(n)\<close>: the bytes of the first \<open>n\<close> characters.\<close>

fun chars_take :: "nat \<Rightarrow> string \<Rightarrow> string" where
  "chars_take n [] = []"
| "chars_take n (c # cs) =
     (if is_continuation_byte c then c # chars_take n cs
      else if n = 0 then [] else c # chars_take (n - 1) cs)"

end
