(* ===== verification/Float64.thy ===== *)
theory Float64
  imports Complex_Main Victauri_Prelude
begin

text \<open>
  Rust's \<^verbatim>\<open>f64\<close>, as far as the modelled code uses it: IEEE 754 binary64 values with
  round-to-nearest-even arithmetic, written out executably over rational numbers.
  A finite non-zero value (or \<open>+0\<close>) is \<open>F_Fin r\<close> with the rational it denotes; negative
  zero, the infinities and NaN have constructors of their own.
  The lemmas shown are those the clients need: the rounding function is odd, keeps the
  sign, maps whole numbers up to \<open>2 ^ 53\<close> to themselves and never drops below a power of
  two its argument reaches.
\<close>

section \<open>Values and rounding\<close>

datatype f64 = F_NaN | F_PInf | F_NInf | F_NZero | F_Fin rat

definition pow2 :: "int \<Rightarrow> rat" where
  "pow2 k = (if 0 \<le> k then 2 ^ nat k else 1 / 2 ^ nat (- k))"

fun ilog2 :: "nat \<Rightarrow> nat" where
  "ilog2 n = (if n \<le> 1 then 0 else Suc (ilog2 (n div 2)))"

declare ilog2.simps [simp del]

text \<open>The exponent \<open>e\<close> of a positive rational: \<open>pow2 e \<le> r < pow2 (e + 1)\<close>.\<close>

definition rexp :: "rat \<Rightarrow> int" where
  "rexp r = (let (p, q) = quotient_of r;
                 k = int (ilog2 (nat p)) - int (ilog2 (nat q))
             in if pow2 k \<le> r then k else k - 1)"

definition round_half_even :: "rat \<Rightarrow> int" where
  "round_half_even x =
     (let f = \<lfloor>x\<rfloor>; d = x - of_int f
      in if d < 1 / 2 then f else if d > 1 / 2 then f + 1 else if even f then f else f + 1)"

text \<open>The magnitude a positive rational rounds to: 53 significant bits, subnormals included.\<close>

definition round_mag :: "rat \<Rightarrow> rat" where
  "round_mag a = (let u = pow2 (max (rexp a) (-1022) - 52) in of_int (round_half_even (a / u)) * u)"

definition round_f64 :: "rat \<Rightarrow> f64" where
  "round_f64 r =
     (if r = 0 then F_Fin 0
      else let v = round_mag \<bar>r\<bar>
           in if pow2 1024 \<le> v then (if 0 < r then F_PInf else F_NInf)
              else if v = 0 \<and> r < 0 then F_NZero
              else F_Fin (if 0 < r then v else - v))"

section \<open>Operations\<close>

fun f64_neg :: "f64 \<Rightarrow> bool" where
  "f64_neg F_NInf = True"
| "f64_neg F_NZero = True"
| "f64_neg (F_Fin r) = (r < 0)"
| "f64_neg _ = False"

fun f64_fin :: "f64 \<Rightarrow> rat option" where
  "f64_fin (F_Fin r) = Some r"
| "f64_fin F_NZero = Some 0"
| "f64_fin _ = None"

definition f64_of_int :: "int \<Rightarrow> f64" where
  "f64_of_int i = round_f64 (of_int i)"

fun f64_add :: "f64 \<Rightarrow> f64 \<Rightarrow> f64" where
  "f64_add F_NaN _ = F_NaN"
| "f64_add _ F_NaN = F_NaN"
| "f64_add F_PInf F_NInf = F_NaN"
| "f64_add F_NInf F_PInf = F_NaN"
| "f64_add F_PInf _ = F_PInf"
| "f64_add _ F_PInf = F_PInf"
| "f64_add F_NInf _ = F_NInf"
| "f64_add _ F_NInf = F_NInf"
| "f64_add F_NZero F_NZero = F_NZero"
| "f64_add F_NZero (F_Fin y) = round_f64 y"
| "f64_add (F_Fin x) F_NZero = round_f64 x"
| "f64_add (F_Fin x) (F_Fin y) = round_f64 (x + y)"

fun f64_minus :: "f64 \<Rightarrow> f64" where
  "f64_minus F_NaN = F_NaN"
| "f64_minus F_PInf = F_NInf"
| "f64_minus F_NInf = F_PInf"
| "f64_minus F_NZero = F_Fin 0"
| "f64_minus (F_Fin r) = (if r = 0 then F_NZero else F_Fin (- r))"

definition f64_sub :: "f64 \<Rightarrow> f64 \<Rightarrow> f64" where
  "f64_sub x y = f64_add x (f64_minus y)"

fun f64_abs :: "f64 \<Rightarrow> f64" where
  "f64_abs F_NInf = F_PInf"
| "f64_abs F_NZero = F_Fin 0"
| "f64_abs (F_Fin r) = F_Fin \<bar>r\<bar>"
| "f64_abs x = x"

definition f64_is_zero :: "f64 \<Rightarrow> bool" where
  "f64_is_zero x = (x = F_NZero \<or> x = F_Fin 0)"

definition f64_is_inf :: "f64 \<Rightarrow> bool" where
  "f64_is_inf x = (x = F_PInf \<or> x = F_NInf)"

definition f64_mul :: "f64 \<Rightarrow> f64 \<Rightarrow> f64" where
  "f64_mul x y =
     (if x = F_NaN \<or> y = F_NaN then F_NaN
      else if f64_is_inf x \<or> f64_is_inf y then
        (if f64_is_zero x \<or> f64_is_zero y then F_NaN
         else if f64_neg x = f64_neg y then F_PInf else F_NInf)
      else (case (f64_fin x, f64_fin y) of
              (Some a, Some b) \<Rightarrow>
                (if a * b = 0 then (if f64_neg x = f64_neg y then F_Fin 0 else F_NZero)
                 else round_f64 (a * b))
            | _ \<Rightarrow> F_NaN))"

definition f64_div :: "f64 \<Rightarrow> f64 \<Rightarrow> f64" where
  "f64_div x y =
     (if x = F_NaN \<or> y = F_NaN then F_NaN
      else if f64_is_inf x then
        (if f64_is_inf y then F_NaN else if f64_neg x = f64_neg y then F_PInf else F_NInf)
      else if f64_is_inf y then (if f64_neg x = f64_neg y then F_Fin 0 else F_NZero)
      else (case (f64_fin x, f64_fin y) of
              (Some a, Some b) \<Rightarrow>
                (if b = 0 then
                   (if a = 0 then F_NaN else if f64_neg x = f64_neg y then F_PInf else F_NInf)
                 else if a = 0 then (if f64_neg x = f64_neg y then F_Fin 0 else F_NZero)
                 else round_f64 (a / b))
            | _ \<Rightarrow> F_NaN))"

text \<open>The partial order of \<^verbatim>\<open>==\<close>, \<^verbatim>\<open><\<close> and \<^verbatim>\<open><=\<close>: false whenever a NaN is involved.\<close>

fun f64_eq :: "f64 \<Rightarrow> f64 \<Rightarrow> bool" where
  "f64_eq F_PInf F_PInf = True"
| "f64_eq F_NInf F_NInf = True"
| "f64_eq x y = (case (f64_fin x, f64_fin y) of (Some a, Some b) \<Rightarrow> a = b | _ \<Rightarrow> False)"

fun f64_lt :: "f64 \<Rightarrow> f64 \<Rightarrow> bool" where
  "f64_lt F_NaN _ = False"
| "f64_lt _ F_NaN = False"
| "f64_lt F_NInf y = (y \<noteq> F_NInf)"
| "f64_lt _ F_NInf = False"
| "f64_lt F_PInf _ = False"
| "f64_lt _ F_PInf = True"
| "f64_lt x y = (case (f64_fin x, f64_fin y) of (Some a, Some b) \<Rightarrow> a < b | _ \<Rightarrow> False)"

definition f64_le :: "f64 \<Rightarrow> f64 \<Rightarrow> bool" where
  "f64_le x y = (f64_lt x y \<or> f64_eq x y)"

text \<open>\<^verbatim>\<open>f64::max\<close> (a NaN operand is ignored).\<close>

definition f64_max :: "f64 \<Rightarrow> f64 \<Rightarrow> f64" where
  "f64_max x y = (if x = F_NaN then y else if y = F_NaN then x else if f64_lt x y then y else x)"

text \<open>\<^verbatim>\<open>f64::ceil\<close>, \<^verbatim>\<open>f64::round\<close> (half away from zero) and the saturating cast \<^verbatim>\<open>as usize\<close>.\<close>

fun f64_ceil :: "f64 \<Rightarrow> f64" where
  "f64_ceil (F_Fin r) = (if r < 0 \<and> \<lceil>r\<rceil> = 0 then F_NZero else F_Fin (of_int \<lceil>r\<rceil>))"
| "f64_ceil x = x"

fun f64_round :: "f64 \<Rightarrow> f64" where
  "f64_round (F_Fin r) =
     (let n = \<lfloor>\<bar>r\<bar> + 1 / 2\<rfloor>
      in if r < 0 then (if n = 0 then F_NZero else F_Fin (- of_int n)) else F_Fin (of_int n))"
| "f64_round x = x"

fun f64_to_usize :: "f64 \<Rightarrow> nat" where
  "f64_to_usize (F_Fin r) = min (nat \<lfloor>r\<rfloor>) u64_max"
| "f64_to_usize F_PInf = u64_max"
| "f64_to_usize x = 0"

text \<open>\<^verbatim>\<open>f64::total_cmp\<close>: the order of the representations, negative zero below zero.\<close>

fun f64_total_key :: "f64 \<Rightarrow> nat \<times> rat \<times> nat" where
  "f64_total_key F_NInf = (0, 0, 0)"
| "f64_total_key F_NZero = (1, 0, 0)"
| "f64_total_key (F_Fin r) = (1, r, 1)"
| "f64_total_key F_PInf = (2, 0, 0)"
| "f64_total_key F_NaN = (3, 0, 0)"

definition f64_total_lt :: "f64 \<Rightarrow> f64 \<Rightarrow> bool" where
  "f64_total_lt x y =
     (let (a, r, b) = f64_total_key x; (a', r', b') = f64_total_key y
      in a < a' \<or> (a = a' \<and> (r < r' \<or> (r = r' \<and> b < b'))))"

section \<open>Rounding lemmas\<close>

lemma pow2_pos [simp]: "0 < pow2 k"
  by (simp add: pow2_def)

lemma pow2_nonneg [simp]: "0 \<le> pow2 k" "pow2 k \<noteq> 0"
  using pow2_pos [of k] by linarith+

lemma pow2_of_nat [simp]: "pow2 (int n) = 2 ^ n"
  by (simp add: pow2_def)

lemma pow2_zero [simp]: "pow2 0 = 1"
  by (simp add: pow2_def)

lemma pow2_Suc: "pow2 (k + 1) = 2 * pow2 k"
proof (cases "0 \<le> k")
  case True
  then have "nat (k + 1) = Suc (nat k)" by linarith
  with True show ?thesis by (simp add: pow2_def)
next
  case False
  show ?thesis
  proof (cases "k = -1")
    case True
    then show ?thesis by (simp add: pow2_def)
  next
    case f: False
    then have "nat (- k) = Suc (nat (- (k + 1)))" using False by linarith
    with f False show ?thesis by (simp add: pow2_def)
  qed
qed

lemma pow2_add_nat: "pow2 (k + int n) = pow2 k * 2 ^ n"
proof (induction n)
  case 0
  then show ?case by simp
next
  case (Suc n)
  have "pow2 (k + int (Suc n)) = pow2 (k + int n + 1)" by (simp add: algebra_simps)
  then show ?case by (simp only: pow2_Suc Suc) simp
qed

lemma pow2_mono: "j \<le> k \<Longrightarrow> pow2 j \<le> pow2 k"
proof -
  assume "j \<le> k"
  then obtain n where k: "k = j + int n" using zle_iff_zadd by auto
  have "1 \<le> (2 :: rat) ^ n" by simp
  then have "pow2 j * 1 \<le> pow2 j * 2 ^ n" by (intro mult_left_mono) simp_all
  then show ?thesis by (simp add: k pow2_add_nat)
qed

lemma ilog2_bounds: "0 < n \<Longrightarrow> 2 ^ ilog2 n \<le> n \<and> n < 2 ^ (ilog2 n + 1)"
proof (induction n rule: ilog2.induct)
  case (1 n)
  show ?case
  proof (cases "n \<le> 1")
    case True
    with 1 show ?thesis by (simp add: ilog2.simps [of n])
  next
    case False
    then have "2 ^ ilog2 (n div 2) \<le> n div 2 \<and> n div 2 < 2 ^ (ilog2 (n div 2) + 1)"
      using 1 by simp
    with False show ?thesis by (auto simp: ilog2.simps [of n])
  qed
qed

lemma pow2_diff: "pow2 (int a - int b) = 2 ^ a / 2 ^ b"
proof -
  have "pow2 (int a - int b + int b) = pow2 (int a - int b) * 2 ^ b" by (rule pow2_add_nat)
  then have "(2 :: rat) ^ a = pow2 (int a - int b) * 2 ^ b" by simp
  then show ?thesis by (simp add: field_simps)
qed

lemma rexp_lower:
  assumes "0 < r"
  shows "pow2 (rexp r) \<le> r"
proof -
  obtain p q where pq: "quotient_of r = (p, q)" by fastforce
  have q: "0 < q" using quotient_of_denom_pos [OF pq] .
  have r: "r = of_int p / of_int q" using quotient_of_div [OF pq] .
  with assms q have p: "0 < p" by (simp add: zero_less_divide_iff)
  let ?a = "ilog2 (nat p)" and ?b = "ilog2 (nat q)"
  have lp: "(2 :: int) ^ ?a \<le> p"
    using ilog2_bounds [of "nat p"] p by (simp flip: zle_int)
  have uq: "q < (2 :: int) ^ (?b + 1)"
    using ilog2_bounds [of "nat q"] q by (simp add: nat_less_iff)
  have lp': "(2 :: rat) ^ ?a \<le> of_int p"
    using lp by (metis of_int_le_iff of_int_power of_int_numeral)
  have uq': "of_int q \<le> (2 :: rat) ^ (?b + 1)"
    using uq by (metis less_imp_le of_int_le_iff of_int_power of_int_numeral)
  have "pow2 (int ?a - int ?b - 1) = 2 ^ ?a / 2 ^ (?b + 1)"
    using pow2_diff [of ?a "?b + 1"] by (simp add: algebra_simps)
  also have "\<dots> \<le> of_int p / of_int q"
    using lp' uq' p q by (intro frac_le) simp_all
  finally have "pow2 (int ?a - int ?b - 1) \<le> r" using r by simp
  then show ?thesis by (simp add: rexp_def pq Let_def)
qed

lemma round_half_even_ge: "of_int n \<le> x \<Longrightarrow> n \<le> round_half_even x"
proof -
  assume "of_int n \<le> x"
  then have "n \<le> \<lfloor>x\<rfloor>" by (simp add: le_floor_iff)
  then show ?thesis by (simp add: round_half_even_def Let_def)
qed

lemma round_half_even_of_int [simp]: "round_half_even (of_int n) = n"
  by (simp add: round_half_even_def)

lemma round_mag_ge:
  assumes "pow2 k \<le> a" "-1022 \<le> k"
  shows "pow2 k \<le> round_mag a"
proof -
  define e where "e = max (rexp a) (-1022)"
  define u where "u = pow2 (e - 52)"
  have a: "0 < a" using assms(1) pow2_pos [of k] by linarith
  have u: "0 < u" by (simp add: u_def)
  have ma: "round_mag a = of_int (round_half_even (a / u)) * u"
    by (simp add: round_mag_def u_def e_def Let_def)
  show ?thesis
  proof (cases "e - 52 \<le> k")
    case True
    then obtain n where k: "k = (e - 52) + int n" using zle_iff_zadd by auto
    have pk: "pow2 k = 2 ^ n * u" by (simp only: k pow2_add_nat u_def mult.commute)
    have "of_int (2 ^ n) \<le> a / u" using assms(1) u by (simp add: pk pos_le_divide_eq)
    then have "2 ^ n \<le> round_half_even (a / u)" by (rule round_half_even_ge)
    then have "(of_int (2 ^ n) :: rat) \<le> of_int (round_half_even (a / u))"
      by (simp only: of_int_le_iff)
    then have "2 ^ n * u \<le> of_int (round_half_even (a / u)) * u"
      using u by (intro mult_right_mono) simp_all
    then show ?thesis by (simp only: ma pk)
  next
    case False
    have "pow2 e \<le> a"
      using rexp_lower [OF a] assms False pow2_mono [of "-1022" k]
      by (cases "rexp a \<le> -1022") (auto simp: e_def max_def)
    moreover have "pow2 e = 2 ^ 52 * u"
      using pow2_add_nat [of "e - 52" 52] by (simp add: u_def)
    ultimately have "of_int (2 ^ 52) \<le> a / u" using u by (simp add: pos_le_divide_eq)
    then have "2 ^ 52 \<le> round_half_even (a / u)" by (rule round_half_even_ge)
    then have "(of_int (2 ^ 52) :: rat) \<le> of_int (round_half_even (a / u))"
      by (simp only: of_int_le_iff)
    then have "2 ^ 52 * u \<le> of_int (round_half_even (a / u)) * u"
      using u by (intro mult_right_mono) simp_all
    moreover have "pow2 k \<le> 2 ^ 52 * u"
      using False pow2_mono [of k "e - 52 + int 52"] pow2_add_nat [of "e - 52" 52]
      by (simp add: u_def)
    ultimately show ?thesis by (simp add: ma)
  qed
qed

lemma round_f64_zero [simp]: "round_f64 0 = F_Fin 0"
  by (simp add: round_f64_def)

text \<open>Rounding is odd: the rounded difference of two values does not depend on their order.\<close>

lemma f64_abs_round_minus: "f64_abs (round_f64 (- r)) = f64_abs (round_f64 r)"
  by (simp add: round_f64_def Let_def abs_if)

section \<open>Positive values\<close>

text \<open>\<open>f64_ge x c\<close>: \<open>x\<close> is plus infinity or a finite value of at least \<open>c\<close>.\<close>

definition f64_ge :: "f64 \<Rightarrow> rat \<Rightarrow> bool" where
  "f64_ge x c = (x = F_PInf \<or> (\<exists>r. x = F_Fin r \<and> c \<le> r))"

lemma f64_ge_simps [simp]:
  "f64_ge F_PInf c" "f64_ge (F_Fin r) c \<longleftrightarrow> c \<le> r" "\<not> f64_ge F_NaN c" "\<not> f64_ge F_NInf c"
  "\<not> f64_ge F_NZero c"
  by (simp_all add: f64_ge_def)

lemma f64_ge_trans: "f64_ge x c \<Longrightarrow> d \<le> c \<Longrightarrow> f64_ge x d"
  by (auto simp: f64_ge_def)

lemma round_f64_ge_pow2:
  assumes "pow2 k \<le> r" "-1022 \<le> k"
  shows "f64_ge (round_f64 r) (pow2 k)"
proof -
  have "0 < r" using assms(1) pow2_pos [of k] by linarith
  moreover have "pow2 k \<le> round_mag \<bar>r\<bar>" using assms \<open>0 < r\<close> by (intro round_mag_ge) simp_all
  ultimately show ?thesis by (simp add: round_f64_def Let_def)
qed

lemma round_f64_ge_0: "0 \<le> r \<Longrightarrow> f64_ge (round_f64 r) 0"
proof -
  assume "0 \<le> r"
  have "0 \<le> round_half_even x" if "0 \<le> x" for x
    using round_half_even_ge [of 0 x] that by simp
  then have "0 \<le> round_mag \<bar>r\<bar>"
    by (simp add: round_mag_def Let_def)
  with \<open>0 \<le> r\<close> show ?thesis by (simp add: round_f64_def Let_def)
qed

lemma f64_add_ge_0: "f64_ge x 0 \<Longrightarrow> f64_ge y 0 \<Longrightarrow> f64_ge (f64_add x y) 0"
  by (cases x; cases y) (simp_all add: round_f64_ge_0)

lemma f64_add_ge_pow2:
  assumes "f64_ge x 0" "f64_ge y 0" "f64_ge x (pow2 k) \<or> f64_ge y (pow2 k)" "-1022 \<le> k"
  shows "f64_ge (f64_add x y) (pow2 k)"
proof (cases "\<exists>a b. x = F_Fin a \<and> y = F_Fin b")
  case True
  then obtain a b where ab: "x = F_Fin a" "y = F_Fin b" by blast
  with assms(1-3) have "pow2 k \<le> a + b" by auto
  then show ?thesis using assms(4) by (simp add: ab round_f64_ge_pow2)
next
  case False
  with assms(1,2) show ?thesis by (cases x; cases y) simp_all
qed

lemma f64_lt_zero_iff: "f64_ge x 0 \<Longrightarrow> f64_lt (F_Fin 0) x \<longleftrightarrow> x \<noteq> F_Fin 0"
  by (cases x) auto

section \<open>Upper bounds and quotients\<close>

lemma round_half_even_le: "x \<le> of_int n \<Longrightarrow> round_half_even x \<le> n"
proof -
  assume "x \<le> of_int n"
  show ?thesis
  proof (cases "x = of_int n")
    case True
    then show ?thesis by simp
  next
    case False
    then have "\<lfloor>x\<rfloor> < n" using \<open>x \<le> of_int n\<close> by (simp add: floor_less_iff)
    then show ?thesis by (simp add: round_half_even_def Let_def)
  qed
qed

lemma rexp_upper: "0 < a \<Longrightarrow> a \<le> pow2 k \<Longrightarrow> rexp a \<le> k"
proof (rule ccontr)
  assume *: "0 < a" "a \<le> pow2 k" "\<not> rexp a \<le> k"
  then have "2 * pow2 k \<le> pow2 (rexp a)" using pow2_mono [of "k + 1" "rexp a"] by (simp add: pow2_Suc)
  also have "\<dots> \<le> a" using * by (simp add: rexp_lower)
  finally show False using * pow2_pos [of k] by linarith
qed

lemma round_mag_le:
  assumes "0 < a" "a \<le> pow2 k" "-1022 \<le> k"
  shows "round_mag a \<le> pow2 k"
proof -
  define e where "e = max (rexp a) (-1022)"
  define u where "u = pow2 (e - 52)"
  have u: "0 < u" by (simp add: u_def)
  have "e - 52 \<le> k" using rexp_upper [OF assms(1,2)] assms(3) by (simp add: e_def)
  then obtain n where k: "k = (e - 52) + int n" using zle_iff_zadd by auto
  have pk: "pow2 k = 2 ^ n * u" by (simp only: k pow2_add_nat u_def mult.commute)
  have "a / u \<le> of_int (2 ^ n)" using assms(2) u by (simp add: pk pos_divide_le_eq)
  then have "round_half_even (a / u) \<le> 2 ^ n" by (rule round_half_even_le)
  then have "(of_int (round_half_even (a / u)) :: rat) \<le> of_int (2 ^ n)" by (simp only: of_int_le_iff)
  then have "of_int (round_half_even (a / u)) * u \<le> 2 ^ n * u"
    using u by (intro mult_right_mono) simp_all
  then show ?thesis by (simp only: round_mag_def u_def e_def Let_def pk)
qed

text \<open>A positive \<^verbatim>\<open>usize\<close> as \<^verbatim>\<open>f64\<close> is finite, at least 1 and at most \<open>2 ^ 64\<close>.\<close>

lemma f64_of_usize:
  assumes "0 < n" "n \<le> 2 ^ 64"
  obtains r where "f64_of_int (int n) = F_Fin r" "1 \<le> r" "r \<le> 2 ^ 64"
proof -
  have n1: "pow2 0 \<le> (of_nat n :: rat)" using assms(1) by (simp add: Suc_le_eq)
  have "(of_nat n :: rat) \<le> of_nat (2 ^ 64)" using assms(2) by (simp only: of_nat_le_iff)
  then have n2: "(of_nat n :: rat) \<le> pow2 64" using pow2_of_nat [of 64] by simp
  have "1 \<le> round_mag (of_nat n)" using round_mag_ge [OF n1] by simp
  moreover have le: "round_mag (of_nat n) \<le> pow2 64" using round_mag_le [OF _ n2] assms(1) by simp
  moreover have "pow2 64 < pow2 1024" using pow2_of_nat [of 64] pow2_of_nat [of 1024] by simp
  ultimately have "f64_of_int (int n) = F_Fin (round_mag (of_nat n))"
    using assms(1) by (auto simp: f64_of_int_def round_f64_def Let_def)
  then show ?thesis using that \<open>1 \<le> round_mag (of_nat n)\<close> le pow2_of_nat [of 64] by simp
qed

lemma f64_div_nonneg:
  assumes "f64_ge x 0" "1 \<le> r"
  shows "f64_ge (f64_div x (F_Fin r)) 0"
proof (cases x)
  case (F_Fin a)
  then have "0 \<le> a / r" using assms by simp
  then show ?thesis using F_Fin assms round_f64_ge_0
    by (auto simp: f64_div_def f64_is_inf_def)
qed (use assms in \<open>auto simp: f64_div_def f64_is_inf_def\<close>)

lemma f64_div_ge_half:
  assumes "f64_ge x (pow2 (-1))" "1 \<le> r" "r \<le> 2 ^ 64"
  shows "f64_ge (f64_div x (F_Fin r)) (pow2 (-65))"
proof (cases x)
  case (F_Fin a)
  have "pow2 (-1) / 2 ^ 64 \<le> a / r"
    using assms F_Fin by (intro frac_le) (auto simp: pow2_def)
  then have "pow2 (-65) \<le> a / r" by (simp add: pow2_def)
  moreover have "a \<noteq> 0" using assms(1) F_Fin by (auto simp: pow2_def)
  ultimately show ?thesis using F_Fin assms(2) round_f64_ge_pow2 [of "-65" "a / r"]
    by (auto simp: f64_div_def f64_is_inf_def)
qed (use assms in \<open>auto simp: f64_div_def f64_is_inf_def\<close>)

lemma f64_div_zero: "1 \<le> r \<Longrightarrow> f64_div (F_Fin 0) (F_Fin r) = F_Fin 0"
  by (auto simp: f64_div_def f64_is_inf_def)

lemma f64_mul_one_nonneg: "f64_ge x 0 \<Longrightarrow> f64_ge (f64_mul (F_Fin 1) x) 0"
  by (cases x) (auto simp: f64_mul_def f64_is_inf_def f64_is_zero_def round_f64_ge_0)

section \<open>Rounding and binary grids\<close>

text \<open>A multiple of a power of two the result can represent is never crossed by rounding.\<close>

lemma round_mag_grid:
  assumes "0 < a" "a \<le> pow2 K" "-1022 \<le> K" "K - 52 \<le> k"
  shows "of_int z * pow2 k \<le> a \<Longrightarrow> of_int z * pow2 k \<le> round_mag a"
    and "a \<le> of_int z * pow2 k \<Longrightarrow> round_mag a \<le> of_int z * pow2 k"
proof -
  define e where "e = max (rexp a) (-1022)"
  define u where "u = pow2 (e - 52)"
  have u: "0 < u" by (simp add: u_def)
  have ma: "round_mag a = of_int (round_half_even (a / u)) * u"
    by (simp add: round_mag_def u_def e_def Let_def)
  have "e - 52 \<le> k" using rexp_upper [OF assms(1,2)] assms(3,4) by (simp add: e_def)
  then obtain n where k: "k = (e - 52) + int n" using zle_iff_zadd by auto
  have x: "of_int z * pow2 k = of_int (z * 2 ^ n) * u"
    by (simp add: k pow2_add_nat u_def)
  show "of_int z * pow2 k \<le> round_mag a" if "of_int z * pow2 k \<le> a"
  proof -
    have "of_int (z * 2 ^ n) \<le> a / u" using that u unfolding x by (simp only: pos_le_divide_eq)
    then have "z * 2 ^ n \<le> round_half_even (a / u)" by (rule round_half_even_ge)
    then have "of_int (z * 2 ^ n) * u \<le> of_int (round_half_even (a / u)) * u"
      using u by (intro mult_right_mono) (simp_all only: of_int_le_iff less_imp_le)
    then show ?thesis by (simp only: x ma)
  qed
  show "round_mag a \<le> of_int z * pow2 k" if "a \<le> of_int z * pow2 k"
  proof -
    have "a / u \<le> of_int (z * 2 ^ n)" using that u unfolding x by (simp only: pos_divide_le_eq)
    then have "round_half_even (a / u) \<le> z * 2 ^ n" by (rule round_half_even_le)
    then have "of_int (round_half_even (a / u)) * u \<le> of_int (z * 2 ^ n) * u"
      using u by (intro mult_right_mono) (simp_all only: of_int_le_iff less_imp_le)
    then show ?thesis by (simp only: x ma)
  qed
qed

lemma round_f64_small:
  assumes "0 < a" "a \<le> pow2 K" "-1022 \<le> K" "K < 1024"
  shows "round_f64 a = F_Fin (round_mag a)"
proof -
  have "pow2 K < pow2 1024"
    using pow2_mono [of "K + 1" 1024] assms(4) pow2_pos [of K] unfolding pow2_Suc by linarith
  then show ?thesis using assms(1) round_mag_le [OF assms(1-3)] by (auto simp: round_f64_def Let_def)
qed

lemma f64_of_small_nat:
  assumes "0 < n" "n \<le> 2 ^ 52"
  shows "f64_of_int (int n) = F_Fin (of_nat n)"
proof -
  have a: "0 < (of_nat n :: rat)" "(of_nat n :: rat) \<le> pow2 52"
    using assms pow2_of_nat [of 52] of_nat_mono [OF assms(2), where 'a = rat] by simp_all
  have "round_mag (of_nat n) = of_nat n"
    using round_mag_grid [OF a, of 0 "int n"] by simp
  then show ?thesis using round_f64_small [OF a] by (simp add: f64_of_int_def)
qed

lemma f64_mul_nonneg:
  assumes "f64_ge x 0" "0 < r"
  shows "f64_ge (f64_mul x (F_Fin r)) 0"
proof (cases x)
  case (F_Fin a)
  then show ?thesis using assms round_f64_ge_0 [of "a * r"]
    by (auto simp: f64_mul_def f64_is_inf_def f64_is_zero_def mult_nonneg_nonneg)
qed (use assms in \<open>auto simp: f64_mul_def f64_is_inf_def f64_is_zero_def\<close>)

text \<open>On values that are not NaN the order is total and transitive.\<close>

lemma f64_lt_total: "f64_ge x 0 \<Longrightarrow> f64_ge y 0 \<Longrightarrow> \<not> f64_lt y x \<or> \<not> f64_lt x y"
  by (cases x; cases y) auto

lemma f64_lt_trans: "f64_ge x 0 \<Longrightarrow> f64_ge y 0 \<Longrightarrow> f64_ge z 0 \<Longrightarrow> \<not> f64_lt y x \<Longrightarrow> \<not> f64_lt z y \<Longrightarrow> \<not> f64_lt z x"
  by (cases x; cases y; cases z) auto

end
