(* ===== verification/Json.thy ===== *)
theory Json
  imports Float64
begin

text \<open>
  The part of \<^verbatim>\<open>serde_json\<close>'s data model the code relies on: \<^verbatim>\<open>Value\<close> with its six
  variants, \<^verbatim>\<open>Number\<close> as an unsigned, a negative or a floating-point number, and
  \<^verbatim>\<open>Map\<close> (a \<^verbatim>\<open>BTreeMap\<close> unless the application enables \<^verbatim>\<open>preserve_order\<close>, which the workspace does not) as an
  association list in strictly increasing key order.  Only the accessors the source calls
  are defined; parsing and printing of JSON text are parameters of the definitions that
  use them.
\<close>

datatype number = PosInt nat | NegInt int | Float f64

datatype json =
    JNull
  | JBool bool
  | JNumber number
  | JString string
  | JArray "json list"
  | JObject "(string \<times> json) list"

text \<open>
  What a \<^verbatim>\<open>Number\<close> can hold: a \<^verbatim>\<open>u64\<close>, a negative \<^verbatim>\<open>i64\<close>, or a finite \<^verbatim>\<open>f64\<close>
  (JSON has no NaN or infinity).
\<close>

fun wf_number :: "number \<Rightarrow> bool" where
  "wf_number (PosInt n) = (n < 2 ^ 64)"
| "wf_number (NegInt i) = (- (2 ^ 63) \<le> i \<and> i < 0)"
| "wf_number (Float x) = (x \<noteq> F_NaN \<and> x \<noteq> F_PInf \<and> x \<noteq> F_NInf)"

fun wf_json :: "json \<Rightarrow> bool" where
  "wf_json (JNumber n) = wf_number n"
| "wf_json (JArray xs) = (\<forall>x \<in> set xs. wf_json x)"
| "wf_json (JObject m) = (sorted_wrt (<) (map fst m) \<and> (\<forall>kv \<in> set m. wf_json (snd kv)))"
| "wf_json _ = True"

text \<open>\<^verbatim>\<open>PartialEq\<close> of \<^verbatim>\<open>Number\<close> and \<^verbatim>\<open>Value\<close> (floats compare by value).\<close>

fun number_eq :: "number \<Rightarrow> number \<Rightarrow> bool" where
  "number_eq (PosInt a) (PosInt b) = (a = b)"
| "number_eq (NegInt a) (NegInt b) = (a = b)"
| "number_eq (Float a) (Float b) = f64_eq a b"
| "number_eq _ _ = False"

fun json_eq :: "json \<Rightarrow> json \<Rightarrow> bool" where
  "json_eq JNull JNull = True"
| "json_eq (JBool a) (JBool b) = (a = b)"
| "json_eq (JNumber a) (JNumber b) = number_eq a b"
| "json_eq (JString a) (JString b) = (a = b)"
| "json_eq (JArray xs) (JArray ys) = list_all2 json_eq xs ys"
| "json_eq (JObject xs) (JObject ys) =
     list_all2 (\<lambda>p q. fst p = fst q \<and> json_eq (snd p) (snd q)) xs ys"
| "json_eq _ _ = False"

text \<open>\<^verbatim>\<open>Number::as_i64\<close>, \<^verbatim>\<open>as_u64\<close>, \<^verbatim>\<open>as_f64\<close>.\<close>

fun number_as_i64 :: "number \<Rightarrow> int option" where
  "number_as_i64 (PosInt n) = (if n < 2 ^ 63 then Some (int n) else None)"
| "number_as_i64 (NegInt i) = Some i"
| "number_as_i64 (Float _) = None"

fun number_as_u64 :: "number \<Rightarrow> nat option" where
  "number_as_u64 (PosInt n) = Some n"
| "number_as_u64 _ = None"

fun number_as_f64 :: "number \<Rightarrow> f64 option" where
  "number_as_f64 (PosInt n) = Some (f64_of_int (int n))"
| "number_as_f64 (NegInt i) = Some (f64_of_int i)"
| "number_as_f64 (Float x) = Some x"

text \<open>Accessors of \<^verbatim>\<open>Value\<close>.\<close>

fun json_as_str :: "json \<Rightarrow> string option" where
  "json_as_str (JString s) = Some s"
| "json_as_str _ = None"

fun json_as_f64 :: "json \<Rightarrow> f64 option" where
  "json_as_f64 (JNumber n) = number_as_f64 n"
| "json_as_f64 _ = None"

fun json_get :: "json \<Rightarrow> string \<Rightarrow> json option" where
  "json_get (JObject m) k = map_of m k"
| "json_get _ _ = None"

fun json_is_object :: "json \<Rightarrow> bool" where
  "json_is_object (JObject _) = True"
| "json_is_object _ = False"

fun json_is_null :: "json \<Rightarrow> bool" where
  "json_is_null JNull = True"
| "json_is_null _ = False"

text \<open>\<^verbatim>\<open>value["key"]\<close>: null for anything but an object that has the key.\<close>

definition json_index :: "json \<Rightarrow> string \<Rightarrow> json" where
  "json_index v k = (case json_get v k of Some x \<Rightarrow> x | None \<Rightarrow> JNull)"

text \<open>How deep arrays and objects nest.\<close>

fun json_depth :: "json \<Rightarrow> nat" where
  "json_depth (JArray xs) = Suc (fold max (map json_depth xs) 0)"
| "json_depth (JObject m) = Suc (fold max (map (\<lambda>kv. json_depth (snd kv)) m) 0)"
| "json_depth _ = 0"

section \<open>Lemmas\<close>

lemma json_depth_array: "x \<in> set xs \<Longrightarrow> json_depth x < json_depth (JArray xs)"
  using fold_max_ge [of "json_depth x" "map json_depth xs" 0] by simp

lemma json_depth_object: "kv \<in> set m \<Longrightarrow> json_depth (snd kv) < json_depth (JObject m)"
  using fold_max_ge [of "json_depth (snd kv)" "map (\<lambda>kv. json_depth (snd kv)) m" 0] by auto

lemma sorted_wrt_less_distinct: "sorted_wrt (<) (xs :: 'a :: linorder list) \<Longrightarrow> distinct xs"
  by (induction xs) auto

lemma wf_object_distinct: "wf_json (JObject m) \<Longrightarrow> distinct (map fst m)"
  by (simp add: sorted_wrt_less_distinct)

lemma f64_eq_refl: "x \<noteq> F_NaN \<Longrightarrow> f64_eq x x"
  by (cases x) simp_all

lemma f64_eq_sym: "f64_eq x y = f64_eq y x"
  by (cases x; cases y) auto

lemma number_eq_refl: "wf_number n \<Longrightarrow> number_eq n n"
  by (cases n) (auto simp: f64_eq_refl)

lemma json_eq_refl: "wf_json x \<Longrightarrow> json_eq x x"
proof (induction x)
  case (JArray xs)
  then show ?case by (simp add: list_all2_same)
next
  case (JObject m)
  then show ?case by (auto simp: list_all2_same intro: snds.intros)
qed (simp_all add: number_eq_refl)

lemma json_size_array: "x \<in> set xs \<Longrightarrow> size x < size (JArray xs)"
  by (induction xs) auto

lemma json_size_object: "kv \<in> set m \<Longrightarrow> size (snd kv) < size (JObject m)"
  by (induction m) (auto simp: less_Suc_eq)

end
