(* ===== verification/Utf8.thy ===== *)
theory Utf8
  imports Victauri_Prelude
begin

text \<open>
  UTF-8 as Rust's \<^verbatim>\<open>str\<close> requires it: \<^verbatim>\<open>String::from_utf8\<close> accepts exactly the byte strings that are
  sequences of well-formed characters (no overlong forms, no surrogates, nothing above U+10FFFF).
  The components that edit text byte by byte (the JSONC editor, the terminal output of the command
  line) rest on the facts shown here: a well-formed text may be cut before and after any ASCII byte.
  Also the text operations of \<^verbatim>\<open>std\<close> several of them use: \<^verbatim>\<open>lines\<close>, \<^verbatim>\<open>trim_end\<close>, ASCII white space.
\<close>

section \<open>Characters\<close>

abbreviation "quote \<equiv> CHR 0x22"
abbreviation "backslash \<equiv> CHR 0x5C"
abbreviation "newline \<equiv> CHR 0x0A"

definition byte_in :: "nat \<Rightarrow> nat \<Rightarrow> char \<Rightarrow> bool" where
  "byte_in lo hi c = (lo \<le> of_char c \<and> of_char c \<le> hi)"

definition is_ascii :: "char \<Rightarrow> bool" where
  "is_ascii c = (of_char c < (128 :: nat))"

lemma is_ascii_quote [simp]: "is_ascii quote"
  by (simp add: is_ascii_def)

text \<open>The well-formed byte sequences of one character (the table of the Unicode standard).\<close>

fun utf8_char :: "string \<Rightarrow> bool" where
  "utf8_char [a] = is_ascii a"
| "utf8_char [a, b] = (byte_in 0xC2 0xDF a \<and> byte_in 0x80 0xBF b)"
| "utf8_char [a, b, c] =
     (byte_in 0x80 0xBF c \<and>
      (a = CHR 0xE0 \<and> byte_in 0xA0 0xBF b \<or>
       a = CHR 0xED \<and> byte_in 0x80 0x9F b \<or>
       byte_in 0xE1 0xEF a \<and> a \<noteq> CHR 0xED \<and> byte_in 0x80 0xBF b))"
| "utf8_char [a, b, c, d] =
     (byte_in 0x80 0xBF c \<and> byte_in 0x80 0xBF d \<and>
      (a = CHR 0xF0 \<and> byte_in 0x90 0xBF b \<or>
       a = CHR 0xF4 \<and> byte_in 0x80 0x8F b \<or>
       byte_in 0xF1 0xF3 a \<and> byte_in 0x80 0xBF b))"
| "utf8_char _ = False"

text \<open>How many bytes the first character has; 0 when the text does not start with one.\<close>

definition utf8_width :: "string \<Rightarrow> nat" where
  "utf8_width s = (case find (\<lambda>n. utf8_char (take n s)) [1, 2, 3, 4] of Some n \<Rightarrow> n | None \<Rightarrow> 0)"

function valid_utf8 :: "string \<Rightarrow> bool" where
  "valid_utf8 s =
     (if s = [] then True else if utf8_width s = 0 then False else valid_utf8 (drop (utf8_width s) s))"
  by pat_completeness auto
termination
proof (relation "measure length")
  fix s assume "s \<noteq> []" "utf8_width s \<noteq> 0"
  then show "(drop (utf8_width s) s, s) \<in> measure length" by simp
qed simp

declare valid_utf8.simps [simp del]

lemma utf8_char_neq_Nil: "utf8_char ch \<Longrightarrow> ch \<noteq> []"
  by (cases ch) auto

text \<open>A character is one ASCII byte or consists of other bytes only.\<close>

lemma utf8_char_multi:
  assumes "utf8_char ch" "length ch \<noteq> 1"
  shows "\<forall>c \<in> set ch. \<not> is_ascii c"
proof (cases ch rule: utf8_char.cases)
  case (2 a b)
  then show ?thesis using assms by (auto simp: byte_in_def is_ascii_def)
next
  case (3 a b c)
  then show ?thesis using assms by (auto simp: byte_in_def is_ascii_def)
next
  case (4 a b c d)
  then show ?thesis using assms by (auto simp: byte_in_def is_ascii_def)
qed (use assms in auto)

lemma utf8_char_cases:
  assumes "utf8_char ch"
  obtains (ascii) a where "ch = [a]" "is_ascii a"
    | (multi) "ch \<noteq> []" "\<forall>c \<in> set ch. \<not> is_ascii c"
proof (cases "length ch = 1")
  case True
  then obtain a where "ch = [a]" by (cases ch) auto
  then show ?thesis using assms ascii by simp
next
  case False
  then show ?thesis using utf8_char_multi [OF assms] utf8_char_neq_Nil [OF assms] multi by blast
qed

text \<open>No character is the beginning of another one.\<close>

lemma utf8_char_prefix_free: "utf8_char ch \<Longrightarrow> n < length ch \<Longrightarrow> \<not> utf8_char (take n ch)"
  by (cases ch rule: utf8_char.cases)
     (auto simp: less_Suc_eq byte_in_def is_ascii_def)

lemma utf8_char_length: "utf8_char ch \<Longrightarrow> length ch \<in> {1, 2, 3, 4}"
  by (cases ch rule: utf8_char.cases) auto

lemma utf8_width_char:
  assumes "utf8_char ch"
  shows "utf8_width (ch @ s) = length ch"
proof -
  have short: "n < length ch \<Longrightarrow> \<not> utf8_char (take n (ch @ s))" for n
    using utf8_char_prefix_free [OF assms] by simp
  have len: "length ch \<in> {1, 2, 3, 4}" by (rule utf8_char_length [OF assms])
  have hit: "utf8_char (take (length ch) (ch @ s))" using assms by simp
  show ?thesis
    using len hit short [of 1] short [of 2] short [of 3]
    by (auto simp: utf8_width_def)
qed

lemma utf8_width_splits:
  assumes "utf8_width s \<noteq> 0"
  shows "utf8_char (take (utf8_width s) s)"
  using assms by (auto simp: utf8_width_def find_Some_iff simp del: find.simps split: option.splits)

section \<open>Texts\<close>

lemma valid_utf8_Nil [simp]: "valid_utf8 []"
  by (simp add: valid_utf8.simps)

lemma valid_utf8_char: "utf8_char ch \<Longrightarrow> valid_utf8 (ch @ s) = valid_utf8 s"
  by (subst valid_utf8.simps) (auto simp: utf8_width_char dest: utf8_char_neq_Nil)

lemma valid_utf8_ascii [simp]: "is_ascii c \<Longrightarrow> valid_utf8 (c # s) = valid_utf8 s"
  using valid_utf8_char [of "[c]" s] by simp

lemma valid_utf8_ascii_prefix: "\<forall>c \<in> set w. is_ascii c \<Longrightarrow> valid_utf8 (w @ s) = valid_utf8 s"
  by (induction w) simp_all

lemma valid_utf8_cases [consumes 1, case_names Nil char]:
  assumes "valid_utf8 s"
  obtains "s = []" | ch t where "s = ch @ t" "utf8_char ch" "valid_utf8 t"
proof (cases "s = []")
  case False
  then have "utf8_width s \<noteq> 0" "valid_utf8 (drop (utf8_width s) s)"
    using assms by (subst (asm) valid_utf8.simps; simp split: if_splits)+
  then show ?thesis
    using that(2) [of "take (utf8_width s) s" "drop (utf8_width s) s"] utf8_width_splits [of s] by simp
qed (use that in simp)

lemma valid_utf8_induct [consumes 1, case_names Nil char]:
  assumes "valid_utf8 s"
    and "P []"
    and step: "\<And>ch t. utf8_char ch \<Longrightarrow> valid_utf8 t \<Longrightarrow> P t \<Longrightarrow> P (ch @ t)"
  shows "P s"
  using assms(1)
proof (induction s rule: measure_induct_rule [of length])
  case (less s)
  from less.prems show ?case
  proof (cases rule: valid_utf8_cases)
    case Nil
    then show ?thesis using assms(2) by simp
  next
    case (char ch t)
    then have "length t < length s" using utf8_char_neq_Nil by simp
    then show ?thesis using less.IH char step by blast
  qed
qed

text \<open>A well-formed text may be cut at every ASCII byte.\<close>

lemma valid_utf8_from_ascii: "valid_utf8 (a @ c # b) \<Longrightarrow> is_ascii c \<Longrightarrow> valid_utf8 b"
proof (induction "a @ c # b" arbitrary: a rule: valid_utf8_induct)
  case (char ch t)
  show ?case
  proof (cases "length ch \<le> length a")
    case True
    then obtain a' where "a = ch @ a'" using char(4) by (metis append_eq_append_conv_if append_take_drop_id)
    then show ?thesis using char by auto
  next
    case False
    then obtain d ds where ch: "ch = a @ d # ds" "d # ds @ t = c # b"
      using char(4) by (auto simp: append_eq_append_conv2 append_eq_Cons_conv Cons_eq_append_conv)
    from char(1) show ?thesis
    proof (cases rule: utf8_char_cases)
      case (ascii x)
      then show ?thesis using ch char(2) by (cases a) auto
    next
      case multi
      then show ?thesis using ch char(5) by auto
    qed
  qed
qed simp

lemma valid_utf8_dropWhile:
  assumes "valid_utf8 s" "is_ascii c"
  shows "valid_utf8 (dropWhile (\<lambda>x. x \<noteq> c) s)"
proof (cases "dropWhile (\<lambda>x. x \<noteq> c) s")
  case (Cons d t)
  then have "d = c" using hd_dropWhile [of "\<lambda>x. x \<noteq> c" s] by simp
  then have "s = takeWhile (\<lambda>x. x \<noteq> c) s @ c # t" using Cons takeWhile_dropWhile_id [of "\<lambda>x. x \<noteq> c" s] by simp
  then have "valid_utf8 t" using valid_utf8_from_ascii assms by metis
  then show ?thesis using Cons \<open>d = c\<close> assms(2) by simp
next
  case Nil
  then show ?thesis by (simp only: valid_utf8_Nil)
qed

text \<open>Replacing ASCII bytes by ASCII bytes keeps a text well-formed.\<close>

definition ascii_edit :: "string \<Rightarrow> string \<Rightarrow> bool" where
  "ascii_edit = list_all2 (\<lambda>x y. x = y \<or> is_ascii x \<and> is_ascii y)"

lemma valid_utf8_edit: "valid_utf8 s \<Longrightarrow> ascii_edit s t \<Longrightarrow> valid_utf8 t"
proof (induction s arbitrary: t rule: valid_utf8_induct)
  case Nil
  then show ?case by (simp add: ascii_edit_def)
next
  case (char ch s)
  obtain ch' t' where t: "t = ch' @ t'" "ascii_edit ch ch'" "ascii_edit s t'"
    using char(4) unfolding ascii_edit_def list_all2_append1 by blast
  have "utf8_char ch'"
    using char(1)
  proof (cases rule: utf8_char_cases)
    case (ascii a)
    then show ?thesis using t(2) by (auto simp: ascii_edit_def list_all2_Cons1)
  next
    case multi
    then have "ch = ch'"
      using list_all2_imp_eq [OF t(2) [unfolded ascii_edit_def]] by blast
    then show ?thesis using char(1) by simp
  qed
  then show ?case using t char(3) by (simp add: valid_utf8_char)
qed

section \<open>Cutting\<close>

text \<open>\<^verbatim>\<open>str::is_char_boundary\<close>, and the loop that moves an index back to a boundary.\<close>

definition is_char_boundary :: "string \<Rightarrow> nat \<Rightarrow> bool" where
  "is_char_boundary s n = (n = 0 \<or> n = length s \<or> (n < length s \<and> \<not> is_continuation_byte (s ! n)))"

fun char_cut :: "string \<Rightarrow> nat \<Rightarrow> nat" where
  "char_cut s 0 = 0"
| "char_cut s (Suc n) = (if is_char_boundary s (Suc n) then Suc n else char_cut s n)"

lemma char_cut_le: "char_cut s n \<le> n"
  by (induction n) auto

lemma char_cut_boundary: "is_char_boundary s (char_cut s n)"
  by (induction n) (auto simp: is_char_boundary_def)

lemma utf8_char_continuation:
  assumes "utf8_char ch" "i < length ch"
  shows "is_continuation_byte (ch ! i) = (i \<noteq> 0)"
  using assms
  by (cases ch rule: utf8_char.cases)
     (auto simp: less_Suc_eq is_continuation_byte_def byte_in_def is_ascii_def)

text \<open>A well-formed text cut at a boundary is two well-formed texts.\<close>

lemma valid_utf8_cut:
  "valid_utf8 s \<Longrightarrow> is_char_boundary s n \<Longrightarrow> valid_utf8 (take n s) \<and> valid_utf8 (drop n s)"
proof (induction s arbitrary: n rule: valid_utf8_induct)
  case (char ch t)
  show ?case
  proof (cases "n < length ch")
    case True
    then have "n = 0"
      using char(4) utf8_char_continuation [OF char(1), of n]
      by (auto simp: is_char_boundary_def nth_append)
    then show ?thesis using char by (simp add: valid_utf8_char)
  next
    case False
    then have "is_char_boundary t (n - length ch)"
      using char(4) by (auto simp: is_char_boundary_def nth_append)
    from char(3) [OF this] show ?thesis using False char(1) by (simp add: valid_utf8_char)
  qed
qed simp

lemma valid_utf8_hd:
  assumes "valid_utf8 (c # s)"
  shows "\<not> is_continuation_byte c"
  using assms
proof (cases rule: valid_utf8_cases)
  case (char ch t)
  then show ?thesis
    using utf8_char_continuation [of ch 0] utf8_char_neq_Nil by (cases ch) auto
qed simp

text \<open>Where a cut falls in a sequence of well-formed texts.\<close>

lemma char_cut_append:
  assumes "valid_utf8 w" "w \<noteq> []" "n < length w"
  shows "char_cut (u @ w @ r) (length u + n) = length u + char_cut w n"
  using assms(3)
proof (induction n)
  case 0
  obtain c w' where w: "w = c # w'" using assms(2) by (cases w) auto
  then have "\<not> is_continuation_byte c" using assms(1) valid_utf8_hd by simp
  then have "is_char_boundary (u @ w @ r) (length u)" using w by (simp add: is_char_boundary_def)
  then show ?case by (cases "length u") simp_all
next
  case (Suc n)
  have "is_char_boundary (u @ w @ r) (length u + Suc n) = is_char_boundary w (Suc n)"
    using Suc.prems by (auto simp: is_char_boundary_def nth_append)
  then show ?case using Suc by simp
qed

lemma valid_utf8_append: "valid_utf8 s \<Longrightarrow> valid_utf8 t \<Longrightarrow> valid_utf8 (s @ t)"
  by (induction s rule: valid_utf8_induct) (simp_all add: valid_utf8_char)

lemma valid_utf8_skip: "valid_utf8 s \<Longrightarrow> valid_utf8 (s @ t) = valid_utf8 t"
  by (induction s rule: valid_utf8_induct) (simp_all add: valid_utf8_char)

section \<open>Text operations\<close>

definition is_ascii_whitespace :: "char \<Rightarrow> bool" where
  "is_ascii_whitespace c = (c \<in> {CHR 0x20, CHR 0x09, CHR 0x0A, CHR 0x0C, CHR 0x0D})"

definition str_trim_end :: "string \<Rightarrow> string" where
  "str_trim_end s = rev (strip_words (map rev white_space) (rev s))"

text \<open>
  \<^verbatim>\<open>str::lines\<close>: the text between line ends; a CR before the LF belongs to the line end, and a
  final line end starts no further line.
\<close>

definition strip_cr :: "string \<Rightarrow> string" where
  "strip_cr s = (if s \<noteq> [] \<and> last s = CHR 0x0D then butlast s else s)"

definition str_lines :: "string \<Rightarrow> string list" where
  "str_lines s =
     (let ws = split_on (\<lambda>c. c = CHR 0x0A) s
      in map strip_cr (butlast ws) @ (if last ws = [] then [] else [last ws]))"

lemma str_trim_end_splits: "\<exists>vs. set vs \<subseteq> set white_space \<and> s = str_trim_end s @ concat vs"
proof -
  obtain vs where vs: "set vs \<subseteq> set (map rev white_space)"
      "rev s = concat vs @ strip_words (map rev white_space) (rev s)"
    using strip_words_splits by blast
  have "s = rev (concat vs @ strip_words (map rev white_space) (rev s))"
    using vs(2) by (metis rev_rev_ident)
  then have "s = str_trim_end s @ concat (rev (map rev vs))"
    by (simp add: str_trim_end_def rev_concat rev_map)
  moreover have "set (rev (map rev vs)) \<subseteq> set white_space" using vs(1) by auto
  ultimately show ?thesis by blast
qed

end
