(* ===== verification/Watchdog.thy ===== *)
theory Watchdog
  imports Json Utf8
begin

text \<open>
  The crash watchdog (\<^verbatim>\<open>crates/victauri-watchdog/src/main.rs\<close>): its configuration, the discovery of the
  app to watch, the pinning of that app's identity, and the polling loop.  The environment and the
  file system are read through arguments: the entries of a discovery root with what the code reads
  of each (name, trust, port file, parsed metadata), a function for the liveness of a process, and
  the status \<^verbatim>\<open>GET /health\<close> answers on a port.  Sleeping and running the recovery command are effects;
  a poll reports whether the command is run.
\<close>

section \<open>Configuration\<close>

definition MIN_INTERVAL_SECS :: nat where "MIN_INTERVAL_SECS = 1"
definition DEFAULT_INTERVAL_SECS :: nat where "DEFAULT_INTERVAL_SECS = 5"
definition MIN_MAX_FAILURES :: nat where "MIN_MAX_FAILURES = 1"
definition DEFAULT_MAX_FAILURES :: nat where "DEFAULT_MAX_FAILURES = 3"
definition DEFAULT_PORT :: nat where "DEFAULT_PORT = 7373"

text \<open>\<^verbatim>\<open>str::parse\<close> of an unsigned integer of \<open>w\<close> bits: an optional plus sign and decimal digits.\<close>

definition parse_unsigned :: "nat \<Rightarrow> string \<Rightarrow> nat option" where
  "parse_unsigned w s =
     (let ds = (if prefix ''+'' s then tl s else s)
      in if ds \<noteq> [] \<and> list_all is_ascii_digit ds \<and> digits_value ds < 2 ^ w then Some (digits_value ds) else None)"

definition explicit_port :: "string option \<Rightarrow> nat option \<Rightarrow> nat option" where
  "explicit_port env arg =
     (case Option.bind env (\<lambda>s. Option.bind (parse_unsigned 16 (str_trim s)) (\<lambda>p. if p \<noteq> 0 then Some p else None)) of
        Some p \<Rightarrow> Some p
      | None \<Rightarrow> Option.bind arg (\<lambda>p. if p \<noteq> 0 then Some p else None))"

text \<open>The loop of \<^verbatim>\<open>parse_args\<close>, with what it has found so far.\<close>

fun parse_args_from :: "nat option \<Rightarrow> string option \<Rightarrow> string list \<Rightarrow> nat option \<times> string option" where
  "parse_args_from port app [] = (port, app)"
| "parse_args_from port app (arg # args) =
     (if arg = ''--app'' then
        (case args of [] \<Rightarrow> (port, None) | v # rest \<Rightarrow> parse_args_from port (Some v) rest)
      else (case strip_prefix ''--app='' arg of
              Some v \<Rightarrow> parse_args_from port (Some v) args
            | None \<Rightarrow> parse_args_from (if port = None then parse_unsigned 16 arg else port) app args))"

definition parse_args :: "string list \<Rightarrow> nat option \<times> string option" where
  "parse_args args =
     (let (port, app) = parse_args_from None None args
      in (port, Option.bind app (\<lambda>a. if a = [] then None else Some a)))"

definition clamp_interval :: "string option \<Rightarrow> nat" where
  "clamp_interval raw =
     (let secs = (case raw of
                    Some s \<Rightarrow> (case parse_unsigned 64 (str_trim s) of Some v \<Rightarrow> v | None \<Rightarrow> DEFAULT_INTERVAL_SECS)
                  | None \<Rightarrow> DEFAULT_INTERVAL_SECS)
      in if secs < MIN_INTERVAL_SECS then MIN_INTERVAL_SECS else secs)"

definition clamp_max_failures :: "string option \<Rightarrow> nat" where
  "clamp_max_failures raw =
     (let v = (case raw of
                 Some s \<Rightarrow> (case parse_unsigned 32 (str_trim s) of Some v \<Rightarrow> v | None \<Rightarrow> DEFAULT_MAX_FAILURES)
               | None \<Rightarrow> DEFAULT_MAX_FAILURES)
      in if v < MIN_MAX_FAILURES then MIN_MAX_FAILURES else v)"

record watch_config =
  wc_port :: nat
  wc_port_explicit :: bool
  wc_app :: "string option"
  wc_interval :: nat
  wc_max_failures :: nat
  wc_on_failure_cmd :: "string option"

text \<open>\<open>env\<close> reads an environment variable; \<open>args\<close> are the arguments after the program name.\<close>

definition config_from_env :: "(string \<Rightarrow> string option) \<Rightarrow> string list \<Rightarrow> watch_config" where
  "config_from_env env args =
     (let (arg_port, arg_app) = parse_args args;
          port = explicit_port (env ''VICTAURI_PORT'') arg_port
      in \<lparr> wc_port = (case port of Some p \<Rightarrow> p | None \<Rightarrow> DEFAULT_PORT),
           wc_port_explicit = (port \<noteq> None),
           wc_app = (case arg_app of
                       Some a \<Rightarrow> Some a
                     | None \<Rightarrow> Option.bind (map_option str_trim (env ''VICTAURI_APP''))
                                 (\<lambda>s. if s = [] then None else Some s)),
           wc_interval = clamp_interval (env ''VICTAURI_INTERVAL''),
           wc_max_failures = clamp_max_failures (env ''VICTAURI_MAX_FAILURES''),
           wc_on_failure_cmd = env ''VICTAURI_ON_FAILURE'' \<rparr>)"

section \<open>Discovery\<close>

datatype liveness = Own | OtherUser | Unverified | Dead | Unknown

definition is_gone :: "liveness \<Rightarrow> bool" where
  "is_gone l = (l = Dead \<or> l = OtherUser)"

definition may_be_alive :: "(nat \<Rightarrow> liveness) \<Rightarrow> nat \<Rightarrow> bool" where
  "may_be_alive live pid = (\<not> is_gone (live pid))"

datatype app_selector = Any_App | App_Named string | Pinned string | Pid nat

definition meta_field :: "json \<Rightarrow> string \<Rightarrow> string option" where
  "meta_field meta k =
     Option.bind (Option.bind (json_get meta k) json_as_str) (\<lambda>s. if s = [] then None else Some s)"

definition same_name :: "string option \<Rightarrow> string \<Rightarrow> bool" where
  "same_name v want = (case v of Some w \<Rightarrow> eq_ignore_ascii_case w want | None \<Rightarrow> False)"

fun selector_matches :: "app_selector \<Rightarrow> nat \<Rightarrow> json \<Rightarrow> bool" where
  "selector_matches Any_App pid meta = True"
| "selector_matches (App_Named want) pid meta =
     (same_name (meta_field meta ''identifier'') want \<or> same_name (meta_field meta ''product_name'') want)"
| "selector_matches (Pinned i) pid meta =
     (case meta_field meta ''identifier'' of
        Some identifier \<Rightarrow> eq_ignore_ascii_case identifier i
      | None \<Rightarrow> same_name (meta_field meta ''product_name'') i)"
| "selector_matches (Pid p) pid meta = (p = pid)"

record discovered_app =
  da_pid :: nat
  da_port :: nat
  da_identity :: "string option"

definition pin :: "app_selector \<Rightarrow> discovered_app \<Rightarrow> app_selector" where
  "pin sel app =
     (case sel of
        Pinned _ \<Rightarrow> sel
      | _ \<Rightarrow> (case da_identity app of Some i \<Rightarrow> Pinned i | None \<Rightarrow> Pid (da_pid app)))"

datatype discovery = Found discovered_app | No_App | Ambiguous "(nat \<times> nat) list"

text \<open>One entry of a discovery root, with the metadata already parsed (\<^verbatim>\<open>Null\<close> when there is none).\<close>

record root_entry =
  en_name :: string
  en_trusted :: bool
  en_port_text :: "string option"
  en_meta :: json

record root_dir =
  rd_trusted :: bool
  rd_entries :: "root_entry list option"

definition entry_identity :: "json \<Rightarrow> string option" where
  "entry_identity meta =
     (case meta_field meta ''identifier'' of Some i \<Rightarrow> Some i | None \<Rightarrow> meta_field meta ''product_name'')"

text \<open>What the loop pushes for an entry.\<close>

definition entry_app :: "app_selector \<Rightarrow> (nat \<Rightarrow> bool) \<Rightarrow> root_entry \<Rightarrow> discovered_app option" where
  "entry_app sel is_alive e =
     (case parse_unsigned 32 (en_name e) of
        None \<Rightarrow> None
      | Some pid \<Rightarrow>
          if \<not> en_trusted e then None
          else (case Option.bind (en_port_text e) (\<lambda>s. parse_unsigned 16 (str_trim s)) of
                  None \<Rightarrow> None
                | Some port \<Rightarrow>
                    if port = 0 then None
                    else if \<not> selector_matches sel pid (en_meta e) then None
                    else if \<not> is_alive pid then None
                    else Some \<lparr> da_pid = pid, da_port = port, da_identity = entry_identity (en_meta e) \<rparr>))"

definition app_pair :: "discovered_app \<Rightarrow> nat \<times> nat" where
  "app_pair a = (da_pid a, da_port a)"

definition pair_less :: "nat \<times> nat \<Rightarrow> nat \<times> nat \<Rightarrow> bool" where
  "pair_less a b = (fst a < fst b \<or> fst a = fst b \<and> snd a \<le> snd b)"

fun insert_pair :: "nat \<times> nat \<Rightarrow> (nat \<times> nat) list \<Rightarrow> (nat \<times> nat) list" where
  "insert_pair x [] = [x]"
| "insert_pair x (y # ys) = (if pair_less x y then x # y # ys else y # insert_pair x ys)"

definition sort_pairs :: "(nat \<times> nat) list \<Rightarrow> (nat \<times> nat) list" where
  "sort_pairs xs = foldr insert_pair xs []"

definition discover_in :: "root_dir \<Rightarrow> app_selector \<Rightarrow> (nat \<Rightarrow> bool) \<Rightarrow> discovery" where
  "discover_in base sel is_alive =
     (if \<not> rd_trusted base then No_App
      else (case rd_entries base of
              None \<Rightarrow> No_App
            | Some entries \<Rightarrow>
                (case List.map_filter (entry_app sel is_alive) entries of
                   [] \<Rightarrow> No_App
                 | [a] \<Rightarrow> Found a
                 | apps \<Rightarrow> Ambiguous (sort_pairs (map app_pair apps)))))"

text \<open>The loop of \<^verbatim>\<open>discover_in_roots\<close> over the roots, with \<^verbatim>\<open>found\<close> and \<^verbatim>\<open>apps\<close>.\<close>

fun add_pairs :: "(nat \<times> nat) list \<Rightarrow> (nat \<times> nat) list \<Rightarrow> (nat \<times> nat) list" where
  "add_pairs apps [] = apps"
| "add_pairs apps (a # others) = add_pairs (if fst a \<in> fst ` set apps then apps else apps @ [a]) others"

fun roots_loop :: "app_selector \<Rightarrow> (nat \<Rightarrow> bool) \<Rightarrow> discovered_app list \<Rightarrow> (nat \<times> nat) list \<Rightarrow> root_dir list \<Rightarrow>
    discovered_app list \<times> (nat \<times> nat) list" where
  "roots_loop sel is_alive found apps [] = (found, apps)"
| "roots_loop sel is_alive found apps (dir # roots) =
     (case discover_in dir sel is_alive of
        Found a \<Rightarrow> (if da_pid a \<in> fst ` set apps then roots_loop sel is_alive found apps roots
                    else roots_loop sel is_alive (found @ [a]) (apps @ [app_pair a]) roots)
      | Ambiguous others \<Rightarrow> roots_loop sel is_alive found (add_pairs apps others) roots
      | No_App \<Rightarrow> roots_loop sel is_alive found apps roots)"

definition discover_in_roots :: "root_dir list \<Rightarrow> app_selector \<Rightarrow> (nat \<Rightarrow> bool) \<Rightarrow> discovery" where
  "discover_in_roots roots sel is_alive =
     (let (found, apps) = roots_loop sel is_alive [] [] roots
      in if apps = [] then No_App
         else if length apps = 1 \<and> length found = 1 then Found (hd found)
         else Ambiguous (sort_pairs apps))"

definition discover_app :: "root_dir list \<Rightarrow> (nat \<Rightarrow> liveness) \<Rightarrow> app_selector \<Rightarrow> discovered_app option" where
  "discover_app roots live sel =
     (case discover_in_roots roots sel (may_be_alive live) of Found a \<Rightarrow> Some a | _ \<Rightarrow> None)"

section \<open>The target\<close>

record target =
  tg_port :: nat
  tg_pid :: "nat option"

definition initial_target :: "watch_config \<Rightarrow> app_selector \<Rightarrow> discovered_app option \<Rightarrow> target option \<times> app_selector" where
  "initial_target config sel discovered =
     (if wc_port_explicit config then (Some \<lparr> tg_port = wc_port config, tg_pid = None \<rparr>, sel)
      else (case discovered of
              Some app \<Rightarrow> (Some \<lparr> tg_port = da_port app, tg_pid = Some (da_pid app) \<rparr>, pin sel app)
            | None \<Rightarrow> if wc_app config \<noteq> None then (None, sel)
                      else (Some \<lparr> tg_port = DEFAULT_PORT, tg_pid = None \<rparr>, sel)))"

text \<open>The new target, if it changed, and the selector to use from now on.\<close>

definition follow_target :: "target option \<Rightarrow> app_selector \<Rightarrow> discovered_app option \<Rightarrow> target option \<times> app_selector" where
  "follow_target current sel discovered =
     (case discovered of
        None \<Rightarrow> (None, sel)
      | Some app \<Rightarrow>
          (let t = \<lparr> tg_port = da_port app, tg_pid = Some (da_pid app) \<rparr>
           in if current = Some t then (None, sel) else (Some t, pin sel app)))"

section \<open>The loop\<close>

definition health_status_means_alive :: "nat \<Rightarrow> bool" where
  "health_status_means_alive status = (200 \<le> status \<and> status < 300 \<or> status = 429)"

text \<open>What the world answers during one iteration.\<close>

record watch_world =
  ww_liveness :: "nat \<Rightarrow> liveness"
  ww_health :: "nat \<Rightarrow> nat option"
  ww_roots :: "root_dir list"

definition poll_health :: "watch_world \<Rightarrow> target option \<Rightarrow> bool" where
  "poll_health w t =
     (case t of
        None \<Rightarrow> False
      | Some t \<Rightarrow>
          if (case tg_pid t of Some pid \<Rightarrow> is_gone (ww_liveness w pid) | None \<Rightarrow> False) then False
          else (case ww_health w (tg_port t) of Some status \<Rightarrow> health_status_means_alive status | None \<Rightarrow> False))"

record watch_state =
  ws_target :: "target option"
  ws_selector :: app_selector
  ws_failures :: nat
  ws_fired :: bool

text \<open>One iteration: the new state, whether the poll failed, and whether the recovery action fires.\<close>

definition watch_poll :: "watch_config \<Rightarrow> watch_world \<Rightarrow> watch_state \<Rightarrow> watch_state \<times> bool \<times> bool" where
  "watch_poll config w s =
     (let up = poll_health w (ws_target s);
          s = (if up then (if 0 < ws_failures s then s\<lparr>ws_failures := 0, ws_fired := False\<rparr> else s)
               else s\<lparr>ws_failures := ws_failures s + 1\<rparr>);
          s = (if 0 < ws_failures s \<and> \<not> wc_port_explicit config then
                 (case follow_target (ws_target s) (ws_selector s)
                         (discover_app (ww_roots w) (ww_liveness w) (ws_selector s)) of
                    (Some t, sel) \<Rightarrow> s\<lparr>ws_target := Some t, ws_selector := sel\<rparr>
                  | (None, sel) \<Rightarrow> s\<lparr>ws_selector := sel\<rparr>)
               else s);
          fires = (wc_max_failures config \<le> ws_failures s \<and> \<not> ws_fired s)
      in (s\<lparr>ws_fired := ws_fired s \<or> fires\<rparr>, \<not> up, fires))"

definition watch_start :: "watch_config \<Rightarrow> root_dir list \<Rightarrow> (nat \<Rightarrow> liveness) \<Rightarrow> watch_state" where
  "watch_start config roots live =
     (let sel = (case wc_app config of Some a \<Rightarrow> App_Named a | None \<Rightarrow> Any_App);
          (t, sel) = initial_target config sel
                       (if wc_port_explicit config then None else discover_app roots live sel)
      in \<lparr> ws_target = t, ws_selector = sel, ws_failures = 0, ws_fired = False \<rparr>)"

text \<open>A run: the states after each poll, with whether it failed and whether it fired.\<close>

fun watch_run :: "watch_config \<Rightarrow> watch_state \<Rightarrow> watch_world list \<Rightarrow> (watch_state \<times> bool \<times> bool) list" where
  "watch_run config s [] = []"
| "watch_run config s (w # ws) = (let r = watch_poll config w s in r # watch_run config (fst r) ws)"

section \<open>Failures and recovery\<close>

text \<open>The lengths of the runs of failed polls, poll by poll.\<close>

fun outage_lengths :: "nat \<Rightarrow> bool list \<Rightarrow> nat list" where
  "outage_lengths k [] = []"
| "outage_lengths k (down # ds) = (let k = (if down then k + 1 else 0) in k # outage_lengths k ds)"

lemma clamp_max_failures_ge: "1 \<le> clamp_max_failures raw"
  by (auto simp: clamp_max_failures_def MIN_MAX_FAILURES_def Let_def)

definition outage_inv :: "watch_config \<Rightarrow> watch_state \<Rightarrow> bool" where
  "outage_inv config s = (ws_fired s = (wc_max_failures config \<le> ws_failures s))"

lemma watch_poll_fields:
  assumes "watch_poll config w s = (s', down, fires)"
  shows "down = (\<not> poll_health w (ws_target s))"
    "ws_failures s' = (if down then ws_failures s + 1 else 0)"
    "fires = (wc_max_failures config \<le> ws_failures s' \<and> \<not> (ws_fired s \<and> (down \<or> ws_failures s = 0)))"
    "ws_fired s' = (ws_fired s \<and> (down \<or> ws_failures s = 0) \<or> fires)"
  using assms by (auto simp: watch_poll_def Let_def split: prod.splits option.splits if_splits)

lemma outage_inv_poll:
  assumes "outage_inv config s" "1 \<le> wc_max_failures config" "watch_poll config w s = (s', down, fires)"
  shows "outage_inv config s' \<and> fires = (ws_failures s' = wc_max_failures config)"
  using watch_poll_fields [OF assms(3)] assms(1,2) by (auto simp: outage_inv_def)

lemma watch_run_fires:
  assumes "outage_inv config s" "1 \<le> wc_max_failures config"
  shows "map (snd \<circ> snd) (watch_run config s ws) =
         map (\<lambda>k. k = wc_max_failures config)
           (outage_lengths (ws_failures s) (map (fst \<circ> snd) (watch_run config s ws)))"
  using assms(1)
proof (induction ws arbitrary: s)
  case (Cons w ws)
  obtain s' down fires where r: "watch_poll config w s = (s', down, fires)" by (cases "watch_poll config w s")
  from outage_inv_poll [OF Cons.prems assms(2) r] Cons.IH [of s'] watch_poll_fields(2) [OF r]
  show ?case by (simp add: r Let_def)
qed simp

lemma outage_inv_start: "1 \<le> wc_max_failures config \<Longrightarrow> outage_inv config (watch_start config roots live)"
  by (auto simp: outage_inv_def watch_start_def Let_def split: prod.splits)

lemma ws_failures_start [simp]: "ws_failures (watch_start config roots live) = 0"
  by (simp add: watch_start_def Let_def split: prod.splits)

text \<open>
  (C18) The recovery command runs exactly once per outage, after exactly the configured number of failed
  polls in a row: whatever the environment, the file system and the server do, a poll fires it if and
  only if it is the \<^verbatim>\<open>max_failures\<close>-th failure since the last successful poll (or the start).
\<close>

theorem recovery_fires_once_per_outage:
  fixes env args
  defines "config \<equiv> config_from_env env args"
  shows "map (snd \<circ> snd) (watch_run config (watch_start config roots live) ws) =
         map (\<lambda>k. k = wc_max_failures config)
           (outage_lengths 0 (map (fst \<circ> snd) (watch_run config (watch_start config roots live) ws)))
         \<and> 1 \<le> wc_max_failures config"
proof -
  have m: "1 \<le> wc_max_failures config"
    using clamp_max_failures_ge unfolding config_def config_from_env_def by (simp add: Let_def split: prod.splits)
  show ?thesis using watch_run_fires [OF outage_inv_start [OF m] m] m by simp
qed

section \<open>Identity\<close>

text \<open>A target the entry of a trusted root stands for.\<close>

definition entry_of_target :: "app_selector \<Rightarrow> watch_world \<Rightarrow> target option \<Rightarrow> bool" where
  "entry_of_target sel w t =
     (\<exists>dir \<in> set (ww_roots w). \<exists>entries. \<exists>e \<in> set entries. \<exists>a.
        rd_trusted dir \<and> rd_entries dir = Some entries \<and> en_trusted e \<and>
        entry_app sel (may_be_alive (ww_liveness w)) e = Some a \<and>
        t = Some \<lparr> tg_port = da_port a, tg_pid = Some (da_pid a) \<rparr>)"

definition root_apps :: "app_selector \<Rightarrow> (nat \<Rightarrow> bool) \<Rightarrow> root_dir \<Rightarrow> discovered_app list" where
  "root_apps sel is_alive dir =
     (if rd_trusted dir then List.map_filter (entry_app sel is_alive) (case rd_entries dir of Some es \<Rightarrow> es | None \<Rightarrow> []) else [])"

lemma discover_in_cases:
  "discover_in dir sel is_alive =
     (case root_apps sel is_alive dir of
        [] \<Rightarrow> No_App | [a] \<Rightarrow> Found a | apps \<Rightarrow> Ambiguous (sort_pairs (map app_pair apps)))"
  by (auto simp: discover_in_def root_apps_def List.map_filter_simps split: option.splits)

lemma set_insert_pair: "set (insert_pair x ys) = insert x (set ys)"
  by (induction ys) auto

lemma set_sort_pairs [simp]: "set (sort_pairs xs) = set xs"
  by (induction xs) (simp_all add: sort_pairs_def set_insert_pair)

lemma set_add_pairs: "fst ` set (add_pairs apps others) = fst ` set apps \<union> fst ` set others"
  by (induction apps others rule: add_pairs.induct) (auto simp: image_iff)

text \<open>The loop over the roots collects every process a matching entry names, each once.\<close>

lemma roots_loop_pids:
  assumes "roots_loop sel is_alive found apps roots = (found', apps')"
  shows "fst ` set apps' = fst ` set apps \<union> (\<Union>dir \<in> set roots. da_pid ` set (root_apps sel is_alive dir))
    \<and> set found' \<subseteq> set found \<union> (\<Union>dir \<in> set roots. set (root_apps sel is_alive dir))"
  using assms
proof (induction roots arbitrary: found apps)
  case (Cons dir roots)
  let ?as = "root_apps sel is_alive dir"
  have pairs: "fst ` set (map app_pair as) = da_pid ` set as" for as by (force simp: app_pair_def)
  show ?case
  proof (cases "discover_in dir sel is_alive")
    case (Found a)
    then have as: "?as = [a]" by (auto simp: discover_in_cases split: list.splits)
    show ?thesis
    proof (cases "da_pid a \<in> fst ` set apps")
      case True
      then have "roots_loop sel is_alive found apps roots = (found', apps')" using Cons.prems Found by simp
      from Cons.IH [OF this] show ?thesis using as True by auto
    next
      case False
      then have "roots_loop sel is_alive (found @ [a]) (apps @ [app_pair a]) roots = (found', apps')"
        using Cons.prems Found by simp
      from Cons.IH [OF this] show ?thesis using as by (auto simp: app_pair_def)
    qed
  next
    case No_App
    then have "?as = []" by (auto simp: discover_in_cases split: list.splits)
    then show ?thesis using Cons No_App by simp
  next
    case (Ambiguous others)
    then have "set others = set (map app_pair ?as)" by (auto simp: discover_in_cases split: list.splits)
    then have "fst ` set others = da_pid ` set ?as" using pairs by metis
    moreover have "roots_loop sel is_alive found (add_pairs apps others) roots = (found', apps')"
      using Cons.prems Ambiguous by simp
    ultimately show ?thesis using Cons.IH [of found "add_pairs apps others"] set_add_pairs [of apps others] by auto
  qed
qed simp

lemma discovered_unique:
  assumes "discover_in_roots roots sel is_alive = Found a"
  shows "(\<exists>dir \<in> set roots. a \<in> set (root_apps sel is_alive dir)) \<and>
         (\<forall>dir \<in> set roots. \<forall>b \<in> set (root_apps sel is_alive dir). da_pid b = da_pid a)"
proof -
  obtain found apps where l: "roots_loop sel is_alive [] [] roots = (found, apps)"
    by (cases "roots_loop sel is_alive [] [] roots")
  then have len: "length apps = 1" "length found = 1" "a = hd found"
    using assms by (auto simp: discover_in_roots_def split: if_splits)
  then have f: "found = [a]" by (cases found) auto
  obtain x where x: "apps = [x]" using len(1) by (cases apps) auto
  have pids: "{fst x} = (\<Union>dir \<in> set roots. da_pid ` set (root_apps sel is_alive dir))"
    and mem: "a \<in> (\<Union>dir \<in> set roots. set (root_apps sel is_alive dir))"
    using roots_loop_pids [OF l] x f by auto
  then have "\<forall>dir \<in> set roots. \<forall>b \<in> set (root_apps sel is_alive dir). da_pid b = fst x" by blast
  then show ?thesis using mem by auto
qed

lemma discover_app_entry:
  assumes "discover_app (ww_roots w) (ww_liveness w) sel = Some a"
  shows "entry_of_target sel w (Some \<lparr> tg_port = da_port a, tg_pid = Some (da_pid a) \<rparr>)"
proof -
  have "discover_in_roots (ww_roots w) sel (may_be_alive (ww_liveness w)) = Found a"
    using assms by (auto simp: discover_app_def split: discovery.splits)
  then obtain dir where "dir \<in> set (ww_roots w)" "a \<in> set (root_apps sel (may_be_alive (ww_liveness w)) dir)"
    using discovered_unique by blast
  then obtain entries e where e: "rd_trusted dir" "rd_entries dir = Some entries" "e \<in> set entries"
      "entry_app sel (may_be_alive (ww_liveness w)) e = Some a"
    by (cases "rd_entries dir") (auto simp: root_apps_def List.map_filter_def split: if_splits)
  then have "en_trusted e" by (auto simp: entry_app_def split: option.splits if_splits)
  then show ?thesis unfolding entry_of_target_def using e \<open>dir \<in> set (ww_roots w)\<close> by blast
qed

lemma watch_poll_pinned:
  assumes "ws_selector s = Pinned i" "watch_poll config w s = (s', down, fires)"
  shows "ws_selector s' = Pinned i \<and> (ws_target s' = ws_target s \<or> entry_of_target (Pinned i) w (ws_target s'))"
proof (cases "discover_app (ww_roots w) (ww_liveness w) (Pinned i)")
  case None
  then show ?thesis
    using assms by (auto simp: watch_poll_def Let_def follow_target_def split: if_splits)
next
  case (Some a)
  then show ?thesis
    using assms discover_app_entry [OF Some]
    by (auto simp: watch_poll_def Let_def follow_target_def pin_def split: if_splits)
qed

lemma watch_run_pinned:
  assumes "ws_selector s = Pinned i" "r \<in> set (watch_run config s ws)"
  shows "ws_selector (fst r) = Pinned i \<and>
         (ws_target (fst r) = ws_target s \<or> (\<exists>w \<in> set ws. entry_of_target (Pinned i) w (ws_target (fst r))))"
  using assms
proof (induction ws arbitrary: s)
  case (Cons w ws)
  obtain s' down fires where p: "watch_poll config w s = (s', down, fires)" by (cases "watch_poll config w s")
  note first = watch_poll_pinned [OF Cons.prems(1) p]
  show ?case
  proof (cases "r = (s', down, fires)")
    case True
    then show ?thesis using first by auto
  next
    case False
    then have "r \<in> set (watch_run config s' ws)" using Cons.prems(2) by (auto simp: p Let_def)
    then show ?thesis using Cons.IH [of s'] first by auto
  qed
qed simp


definition app_meta :: "string \<Rightarrow> json" where
  "app_meta i = JObject [(''identifier'', JString i)]"

definition app_root :: "(string \<times> string \<times> string) list \<Rightarrow> root_dir" where
  "app_root es = \<lparr> rd_trusted = True, rd_entries =
     Some (map (\<lambda>(pid, port, i). \<lparr> en_name = pid, en_trusted = True, en_port_text = Some port, en_meta = app_meta i \<rparr>) es) \<rparr>"

definition quiet_world :: "(string \<times> string \<times> string) list \<Rightarrow> watch_world" where
  "quiet_world es = \<lparr> ww_liveness = (\<lambda>_. Own), ww_health = (\<lambda>_. None), ww_roots = [app_root es] \<rparr>"

definition sample_state :: watch_state where
  "sample_state = \<lparr> ws_target = Some \<lparr> tg_port = 5, tg_pid = Some 7 \<rparr>, ws_selector = Pinned ''a'', ws_failures = 0, ws_fired = False \<rparr>"

lemma sample_numbers:
  "parse_unsigned 32 ''8'' = Some 8" "parse_unsigned 32 ''9'' = Some 9"
  "parse_unsigned 16 (str_trim ''6'') = Some 6" "parse_unsigned 16 (str_trim ''7'') = Some 7"
proof -
  have "str_trim ''6'' = ''6''" "str_trim ''7'' = ''7''" by code_simp+
  then show "parse_unsigned 32 ''8'' = Some 8" "parse_unsigned 32 ''9'' = Some 9"
    "parse_unsigned 16 (str_trim ''6'') = Some 6" "parse_unsigned 16 (str_trim ''7'') = Some 7"
    by (simp_all add: parse_unsigned_def digits_value_def is_ascii_digit_def)
qed

lemma sample_entries:
  "entry_app sel is_alive \<lparr> en_name = ''8'', en_trusted = True, en_port_text = Some ''6'', en_meta = app_meta i \<rparr> =
     (if selector_matches sel 8 (app_meta i) \<and> is_alive 8
      then Some \<lparr> da_pid = 8, da_port = 6, da_identity = entry_identity (app_meta i) \<rparr> else None)"
  "entry_app sel is_alive \<lparr> en_name = ''9'', en_trusted = True, en_port_text = Some ''7'', en_meta = app_meta i \<rparr> =
     (if selector_matches sel 9 (app_meta i) \<and> is_alive 9
      then Some \<lparr> da_pid = 9, da_port = 7, da_identity = entry_identity (app_meta i) \<rparr> else None)"
  by (simp_all add: entry_app_def sample_numbers)

lemma sample_meta [simp]: "i \<noteq> [] \<Longrightarrow> meta_field (app_meta i) ''identifier'' = Some i"
  by (simp add: meta_field_def app_meta_def)

lemma sample_identity [simp]: "i \<noteq> [] \<Longrightarrow> entry_identity (app_meta i) = Some i"
  by (simp add: entry_identity_def)

lemma discover_app_sample:
  "discover_app [app_root [(''8'', ''6'', ''b'')]] (\<lambda>_. Own) (Pinned ''a'') = None"
  "discover_app [app_root [(''8'', ''6'', ''b''), (''9'', ''7'', ''A'')]] (\<lambda>_. Own) (Pinned ''a'') =
     Some \<lparr> da_pid = 9, da_port = 7, da_identity = Some ''A'' \<rparr>"
proof -
  have "\<not> eq_ignore_ascii_case ''b'' ''a''" "eq_ignore_ascii_case ''A'' ''a''" by code_simp+
  then show "discover_app [app_root [(''8'', ''6'', ''b'')]] (\<lambda>_. Own) (Pinned ''a'') = None"
    "discover_app [app_root [(''8'', ''6'', ''b''), (''9'', ''7'', ''A'')]] (\<lambda>_. Own) (Pinned ''a'') =
     Some \<lparr> da_pid = 9, da_port = 7, da_identity = Some ''A'' \<rparr>"
    by (simp_all add: discover_app_def discover_in_roots_def discover_in_def app_root_def sample_entries
        List.map_filter_simps Let_def may_be_alive_def is_gone_def app_pair_def)
qed

lemma sample_poll:
  assumes "\<not> wc_port_explicit c" "wc_max_failures c = 3"
  shows "watch_poll c (quiet_world [(''8'', ''6'', ''b'')]) sample_state = (sample_state\<lparr>ws_failures := 1\<rparr>, True, False)"
    "watch_poll c (quiet_world [(''8'', ''6'', ''b''), (''9'', ''7'', ''A'')]) (sample_state\<lparr>ws_failures := 1\<rparr>) =
       (sample_state\<lparr>ws_failures := 2, ws_target := Some \<lparr> tg_port = 7, tg_pid = Some 9 \<rparr>\<rparr>, True, False)"
proof -
  have down: "\<not> poll_health (quiet_world es) t" for es t
    by (simp add: poll_health_def quiet_world_def split: option.splits)
  have world: "ww_roots (quiet_world es) = [app_root es]" "ww_liveness (quiet_world es) = (\<lambda>_. Own)" for es
    by (simp_all add: quiet_world_def)
  have sel: "ws_selector sample_state = Pinned ''a''" by (simp add: sample_state_def)
  show "watch_poll c (quiet_world [(''8'', ''6'', ''b'')]) sample_state = (sample_state\<lparr>ws_failures := 1\<rparr>, True, False)"
    unfolding watch_poll_def world using assms
    by (simp add: down sel discover_app_sample(1) follow_target_def Let_def) (simp add: sample_state_def)
  show "watch_poll c (quiet_world [(''8'', ''6'', ''b''), (''9'', ''7'', ''A'')]) (sample_state\<lparr>ws_failures := 1\<rparr>) =
       (sample_state\<lparr>ws_failures := 2, ws_target := Some \<lparr> tg_port = 7, tg_pid = Some 9 \<rparr>\<rparr>, True, False)"
    unfolding watch_poll_def world using assms
    by (simp add: down sel discover_app_sample(2) follow_target_def pin_def Let_def)
qed


text \<open>
  Discovery never picks one of several apps: when it names an app, that app's entry matches in some
  root, and every matching live entry of every trusted root belongs to the same process.
\<close>

theorem discovery_never_guesses:
  assumes "discover_app roots live sel = Some a"
  shows "(\<exists>dir \<in> set roots. a \<in> set (root_apps sel (may_be_alive live) dir)) \<and>
         (\<forall>dir \<in> set roots. \<forall>b \<in> set (root_apps sel (may_be_alive live) dir). da_pid b = da_pid a)"
proof -
  have "discover_in_roots roots sel (may_be_alive live) = Found a"
    using assms by (cases "discover_in_roots roots sel (may_be_alive live)") (auto simp: discover_app_def)
  then show ?thesis by (rule discovered_unique)
qed

lemma sample_discovery:
  "discover_in (app_root [(''8'', ''6'', ''b'')]) Any_App (may_be_alive (\<lambda>_. Unknown)) =
     Found \<lparr> da_pid = 8, da_port = 6, da_identity = Some ''b'' \<rparr>"
  by (simp add: discover_in_def app_root_def sample_entries List.map_filter_simps may_be_alive_def is_gone_def)

theorem discovery_never_guesses_witness:
  "discover_app [app_root [(''8'', ''6'', ''b'')], app_root [(''8'', ''6'', ''b'')]] (\<lambda>_. Unknown) Any_App =
     Some \<lparr> da_pid = 8, da_port = 6, da_identity = Some ''b'' \<rparr> \<and>
   list_all (\<lambda>b. da_pid b = 8) (root_apps Any_App (may_be_alive (\<lambda>_. Unknown)) (app_root [(''8'', ''6'', ''b'')]))"
proof -
  have "discover_app [app_root [(''8'', ''6'', ''b'')], app_root [(''8'', ''6'', ''b'')]] (\<lambda>_. Unknown) Any_App =
     Some \<lparr> da_pid = 8, da_port = 6, da_identity = Some ''b'' \<rparr>"
    by (simp add: discover_app_def discover_in_roots_def sample_discovery app_pair_def)
  from discovery_never_guesses [OF this] this show ?thesis by (simp add: list_all_iff)
qed

end
