(* ===== verification/Unicode.thy ===== *)
theory Unicode
  imports Utf8
begin

text \<open>
  Rust's \<^verbatim>\<open>char\<close>: the characters of a text, their scalar values, UTF-8 and UTF-16 encodings, and the
  hexadecimal numbers the escapes of generated code and of CSS are written in.  A character is the
  list of its UTF-8 bytes, as it stands in a \<^verbatim>\<open>str\<close>; a JavaScript string is the list of its UTF-16
  code units.
\<close>

section \<open>The characters of a text\<close>

text \<open>\<^verbatim>\<open>str::chars\<close>; on bytes that are no text, a byte that starts no character stands alone.\<close>

function utf8_chars :: "string \<Rightarrow> string list" where
  "utf8_chars s =
     (if s = [] then [] else let n = max 1 (utf8_width s) in take n s # utf8_chars (drop n s))"
  by pat_completeness auto
termination
  by (relation "measure length") auto

declare utf8_chars.simps [simp del]

lemma utf8_chars_Nil [simp]: "utf8_chars [] = []"
  by (simp add: utf8_chars.simps)

lemma utf8_chars_char: "utf8_char ch \<Longrightarrow> utf8_chars (ch @ s) = ch # utf8_chars s"
  using utf8_char_neq_Nil [of ch] utf8_char_length [of ch]
  by (subst utf8_chars.simps) (auto simp: utf8_width_char Let_def max_def)

lemma utf8_chars_ascii [simp]: "is_ascii c \<Longrightarrow> utf8_chars (c # s) = [c] # utf8_chars s"
  using utf8_chars_char [of "[c]" s] by simp

lemma concat_utf8_chars: "concat (utf8_chars s) = s"
proof (induction s rule: utf8_chars.induct)
  case (1 s)
  then show ?case by (cases "s = []") (simp_all add: utf8_chars.simps [of s] Let_def)
qed

lemma utf8_chars_of_text: "valid_utf8 s \<Longrightarrow> ch \<in> set (utf8_chars s) \<Longrightarrow> utf8_char ch"
  by (induction s rule: valid_utf8_induct) (auto simp: utf8_chars_char)

lemma utf8_chars_concat:
  "list_all utf8_char chs \<Longrightarrow> utf8_chars (concat chs @ s) = chs @ utf8_chars s"
  by (induction chs) (simp_all add: utf8_chars_char)

lemma valid_utf8_concat_chars: "list_all utf8_char chs \<Longrightarrow> valid_utf8 (concat chs @ s) = valid_utf8 s"
  by (induction chs) (simp_all add: valid_utf8_char)

lemma utf8_chars_append: "valid_utf8 s \<Longrightarrow> utf8_chars (s @ t) = utf8_chars s @ utf8_chars t"
  by (induction s rule: valid_utf8_induct) (simp_all add: utf8_chars_char)

section \<open>Scalar values\<close>

text \<open>A Unicode scalar value: a code point that is no surrogate (what \<^verbatim>\<open>char::from_u32\<close> accepts).\<close>

definition is_scalar :: "nat \<Rightarrow> bool" where
  "is_scalar n = (n < 0xD800 \<or> 0xDFFF < n \<and> n \<le> 0x10FFFF)"

fun code_point :: "string \<Rightarrow> nat" where
  "code_point [a] = of_char a"
| "code_point [a, b] = (of_char a - 0xC0) * 64 + (of_char b - 0x80)"
| "code_point [a, b, c] = (of_char a - 0xE0) * 4096 + (of_char b - 0x80) * 64 + (of_char c - 0x80)"
| "code_point [a, b, c, d] =
     (of_char a - 0xF0) * 262144 + (of_char b - 0x80) * 4096 + (of_char c - 0x80) * 64 + (of_char d - 0x80)"
| "code_point _ = 0"

text \<open>\<^verbatim>\<open>char::encode_utf8\<close>\<close>

definition char_bytes :: "nat \<Rightarrow> string" where
  "char_bytes n =
     (if n < 0x80 then [char_of n]
      else if n < 0x800 then [char_of (0xC0 + n div 64), char_of (0x80 + n mod 64)]
      else if n < 0x10000 then
        [char_of (0xE0 + n div 4096), char_of (0x80 + n div 64 mod 64), char_of (0x80 + n mod 64)]
      else
        [char_of (0xF0 + n div 262144), char_of (0x80 + n div 4096 mod 64),
         char_of (0x80 + n div 64 mod 64), char_of (0x80 + n mod 64)])"

text \<open>The digits of a scalar value to the base 64.\<close>

lemma of_char_byte: "m < 256 \<Longrightarrow> of_char (char_of m :: char) = (m :: nat)"
  by simp

lemma tail_byte: "of_char (char_of (128 + m mod 64) :: char) = (128 + m mod 64 :: nat)"
proof -
  have "m mod 64 < 64" by simp
  then show ?thesis by (intro of_char_byte) linarith
qed

lemma base64_2: "(n :: nat) div 64 * 64 + n mod 64 = n"
  by (rule div_mult_mod_eq)

lemma base64_3: "(n :: nat) div 4096 * 4096 + n div 64 mod 64 * 64 + n mod 64 = n"
proof -
  have "n div 4096 = n div 64 div 64" by (simp flip: div_mult2_eq)
  then show ?thesis using base64_2 [of n] base64_2 [of "n div 64"] by linarith
qed

lemma base64_4:
  "(n :: nat) div 262144 * 262144 + n div 4096 mod 64 * 4096 + n div 64 mod 64 * 64 + n mod 64 = n"
proof -
  have "n div 262144 = n div 4096 div 64" by (simp flip: div_mult2_eq)
  then show ?thesis using base64_3 [of n] base64_2 [of "n div 4096"] by linarith
qed

lemma char_bytes_4:
  "0x10000 \<le> n \<Longrightarrow> char_bytes n =
     [char_of (0xF0 + n div 262144), char_of (0x80 + n div 4096 mod 64),
      char_of (0x80 + n div 64 mod 64), char_of (0x80 + n mod 64)]"
  by (simp add: char_bytes_def)

lemma code_point_bytes:
  assumes "is_scalar n"
  shows "code_point (char_bytes n) = n"
proof -
  consider "n < 0x80" | "0x80 \<le> n" "n < 0x800" | "0x800 \<le> n" "n < 0x10000" | "0x10000 \<le> n" by linarith
  then show ?thesis
  proof cases
    case 2
    then have "0xC0 + n div 64 < 256" by linarith
    then show ?thesis using 2 base64_2 [of n] by (simp add: char_bytes_def tail_byte of_char_byte)
  next
    case 3
    then have "0xE0 + n div 4096 < 256" by linarith
    then show ?thesis using 3 base64_3 [of n] by (simp add: char_bytes_def tail_byte of_char_byte)
  next
    case 4
    have "n \<le> 0x10FFFF" using assms 4 by (auto simp: is_scalar_def)
    then have "0xF0 + n div 262144 < 256" by linarith
    then show ?thesis using base64_4 [of n]
      by (simp only: char_bytes_4 [OF 4] code_point.simps tail_byte of_char_byte add_diff_cancel_left')
  qed (simp add: char_bytes_def)
qed

lemma lead_ED: "(a = CHR 0xED) = (of_char a = (0xED :: nat))"
  using of_char_eq_iff [of a "CHR 0xED", where 'a = nat] by simp

lemma lead_E0: "(a = CHR 0xE0) = (of_char a = (0xE0 :: nat))"
  using of_char_eq_iff [of a "CHR 0xE0", where 'a = nat] by simp

lemma lead_F0: "(a = CHR 0xF0) = (of_char a = (0xF0 :: nat))"
  using of_char_eq_iff [of a "CHR 0xF0", where 'a = nat] by simp

lemma lead_F4: "(a = CHR 0xF4) = (of_char a = (0xF4 :: nat))"
  using of_char_eq_iff [of a "CHR 0xF4", where 'a = nat] by simp

lemma digits64:
  assumes "r < (64 :: nat)"
  shows "(m * 64 + r) div 64 = m" "(m * 64 + r) mod 64 = r"
  using assms by auto

lemma digits_2: "q < 64 \<Longrightarrow> r < (64 :: nat) \<Longrightarrow> (p * 4096 + q * 64 + r) div 4096 = p"
  using digits64(1) [of r "p * 64 + q"] digits64(1) [of q p]
  by (simp add: div_mult2_eq [of _ 64 64, simplified] algebra_simps)

lemma digits_3:
  "s < 64 \<Longrightarrow> q < 64 \<Longrightarrow> r < (64 :: nat) \<Longrightarrow>
   (p * 262144 + s * 4096 + q * 64 + r) div 262144 = p"
  using digits_2 [of q r "p * 64 + s"] digits64(1) [of s p]
  by (simp add: div_mult2_eq [of _ 4096 64, simplified] algebra_simps)

lemma code_point_char:
  assumes "utf8_char ch"
  shows "is_scalar (code_point ch) \<and> char_bytes (code_point ch) = ch"
  using assms
proof (cases ch rule: utf8_char.cases)
  case (1 a)
  then show ?thesis using assms by (simp add: is_ascii_def is_scalar_def char_bytes_def)
next
  case (2 a b)
  define p r where pr: "p = (of_char a - 0xC0 :: nat)" "r = (of_char b - 0x80 :: nat)"
  have b: "of_char a = 0xC0 + p" "of_char b = 0x80 + r" "2 \<le> p" "p < 32" "r < 64"
    using 2 assms by (auto simp: pr byte_in_def)
  then have "a = char_of (0xC0 + p)" "b = char_of (0x80 + r)" by (metis char_of_char)+
  then show ?thesis
    using 2 b digits64 [of r p] by (simp add: is_scalar_def char_bytes_def)
next
  case (3 a b c)
  define p q r where pr: "p = (of_char a - 0xE0 :: nat)" "q = (of_char b - 0x80 :: nat)"
    "r = (of_char c - 0x80 :: nat)"
  have b: "of_char a = 0xE0 + p" "of_char b = 0x80 + q" "of_char c = 0x80 + r"
      "p < 16" "q < 64" "r < 64" "p = 0 \<Longrightarrow> 32 \<le> q" "p = 13 \<Longrightarrow> q < 32"
    using 3 assms by (auto simp: pr byte_in_def lead_ED)
  then have abc: "a = char_of (0xE0 + p)" "b = char_of (0x80 + q)" "c = char_of (0x80 + r)"
    by (metis char_of_char)+
  let ?n = "p * 4096 + q * 64 + r"
  have n: "code_point ch = ?n" using 3 b by simp
  have "?n div 4096 = p" "?n div 64 = p * 64 + q" "?n mod 64 = r"
    using b digits_2 [of q r p] digits64 [of r "p * 64 + q"] by (simp_all add: algebra_simps)
  moreover have "0x800 \<le> ?n" using b by (cases "p = 0") auto
  moreover have "?n < 0xD800 \<or> 0xDFFF < ?n" using b by (cases "p = 13") auto
  ultimately show ?thesis
    unfolding n using 3 b abc digits64(2) [of q p] by (auto simp: is_scalar_def char_bytes_def)
next
  case (4 a b c d)
  define p s q r where pr: "p = (of_char a - 0xF0 :: nat)" "s = (of_char b - 0x80 :: nat)"
    "q = (of_char c - 0x80 :: nat)" "r = (of_char d - 0x80 :: nat)"
  have b: "of_char a = 0xF0 + p" "of_char b = 0x80 + s" "of_char c = 0x80 + q" "of_char d = 0x80 + r"
      "p < 5" "s < 64" "q < 64" "r < 64" "p = 0 \<Longrightarrow> 16 \<le> s" "p = 4 \<Longrightarrow> s < 16"
    using 4 assms by (auto simp: pr byte_in_def)
  then have abc: "a = char_of (0xF0 + p)" "b = char_of (0x80 + s)" "c = char_of (0x80 + q)"
      "d = char_of (0x80 + r)"
    by (metis char_of_char)+
  let ?n = "p * 262144 + s * 4096 + q * 64 + r"
  have n: "code_point ch = ?n" using 4 b by simp
  have "?n div 262144 = p" "?n div 4096 = p * 64 + s" "?n div 64 = (p * 64 + s) * 64 + q" "?n mod 64 = r"
    using b digits_3 [of s q r p] digits_2 [of q r "p * 64 + s"] digits64 [of r "(p * 64 + s) * 64 + q"]
    by (simp_all add: algebra_simps)
  moreover have "0x10000 \<le> ?n" using b by (cases "p = 0") auto
  moreover have "?n \<le> 0x10FFFF" using b by (cases "p = 4") auto
  moreover have "(p * 64 + s) mod 64 = s" "((p * 64 + s) * 64 + q) mod 64 = q"
    using digits64(2) b by blast+
  moreover have "is_scalar ?n" using calculation(5,6) unfolding is_scalar_def by linarith
  ultimately show ?thesis
    unfolding n using 4 abc by (simp only: char_bytes_4 simp_thms)
qed auto

lemma utf8_char_bytes:
  assumes "is_scalar n"
  shows "utf8_char (char_bytes n)"
proof -
  have m: "m mod 64 < 64" for m :: nat by simp
  have tails: "128 + m mod 64 \<in> {128..191}" for m :: nat using m [of m] by simp
  consider "n < 0x80" | "0x80 \<le> n" "n < 0x800" | "0x800 \<le> n" "n < 0x10000" | "0x10000 \<le> n" by linarith
  then show ?thesis
  proof cases
    case 3
    then have "224 + n div 4096 < 256" by linarith
    moreover have "n div 4096 = 0 \<Longrightarrow> 32 \<le> n div 64 mod 64" "n div 4096 = 13 \<Longrightarrow> n div 64 mod 64 < 32"
      using 3 base64_3 [of n] m [of n] assms unfolding is_scalar_def by linarith+
    moreover have "n div 4096 < 16" using 3 by linarith
    ultimately have "224 + n div 4096 = 224 \<and> 160 \<le> 128 + n div 64 mod 64 \<or>
        224 + n div 4096 = 237 \<and> 128 + n div 64 mod 64 \<le> 159 \<or>
        225 \<le> 224 + n div 4096 \<and> 224 + n div 4096 \<le> 239 \<and> 224 + n div 4096 \<noteq> 237"
      by linarith
    moreover have "char_bytes n = [char_of (224 + n div 4096), char_of (128 + n div 64 mod 64), char_of (128 + n mod 64)]"
      using 3 by (simp add: char_bytes_def)
    ultimately show ?thesis
      using tails [of n] tails [of "n div 64"] of_char_byte [OF \<open>224 + n div 4096 < 256\<close>]
      by (simp only: utf8_char.simps byte_in_def lead_E0 lead_ED tail_byte atLeastAtMost_iff) blast
  next
    case 4
    have le: "n \<le> 0x10FFFF" using assms 4 by (auto simp: is_scalar_def)
    then have p: "n div 262144 < 5" by linarith
    have s: "n div 262144 = 0 \<Longrightarrow> 16 \<le> n div 4096 mod 64" "n div 262144 = 4 \<Longrightarrow> n div 4096 mod 64 < 16"
      using 4 le base64_4 [of n] m [of n] m [of "n div 64"] by linarith+
    have lead: "of_char (char_of (240 + n div 262144) :: char) = 240 + n div 262144"
      using p by (intro of_char_byte) linarith
    have "240 + n div 262144 = 240 \<and> 144 \<le> 128 + n div 4096 mod 64 \<or>
        240 + n div 262144 = 244 \<and> 128 + n div 4096 mod 64 \<le> 143 \<or>
        241 \<le> 240 + n div 262144 \<and> 240 + n div 262144 \<le> 243"
      using p s by linarith
    then show ?thesis
      using tails [of n] tails [of "n div 64"] tails [of "n div 4096"]
      unfolding char_bytes_4 [OF 4] utf8_char.simps byte_in_def lead_F0 lead_F4 lead tail_byte atLeastAtMost_iff
      by blast
  qed (use assms in \<open>auto simp: char_bytes_def tail_byte of_char_byte byte_in_def is_ascii_def is_scalar_def\<close>)
qed

lemma code_point_multi:
  assumes "utf8_char ch" "length ch \<noteq> 1"
  shows "128 \<le> code_point ch"
proof (rule ccontr)
  assume "\<not> 128 \<le> code_point ch"
  then have "length (char_bytes (code_point ch)) = 1" by (simp add: char_bytes_def)
  then show False using assms code_point_char [OF assms(1)] by simp
qed

section \<open>UTF-16\<close>

text \<open>\<^verbatim>\<open>char::encode_utf16\<close>: a scalar value above U+FFFF is a surrogate pair.\<close>

definition utf16_units :: "nat \<Rightarrow> nat list" where
  "utf16_units n =
     (if n < 0x10000 then [n]
      else [0xD800 + (n - 0x10000) div 1024, 0xDC00 + (n - 0x10000) mod 1024])"

definition utf16_of :: "nat list \<Rightarrow> nat list" where
  "utf16_of cps = concat (map utf16_units cps)"

definition utf8_of :: "nat list \<Rightarrow> string" where
  "utf8_of cps = concat (map char_bytes cps)"

lemma utf8_of_simps [simp]:
  "utf8_of [] = []" "utf8_of (n # cps) = char_bytes n @ utf8_of cps"
  "utf8_of (cps @ cps') = utf8_of cps @ utf8_of cps'"
  by (simp_all add: utf8_of_def)

lemma utf16_of_simps [simp]:
  "utf16_of [] = []" "utf16_of (n # cps) = utf16_units n @ utf16_of cps"
  "utf16_of (cps @ cps') = utf16_of cps @ utf16_of cps'"
  by (simp_all add: utf16_of_def)

lemma char_bytes_ascii [simp]: "n < 0x80 \<Longrightarrow> char_bytes n = [char_of n]"
  by (simp add: char_bytes_def)

lemma valid_utf8_of: "list_all is_scalar cps \<Longrightarrow> valid_utf8 (utf8_of cps)"
  by (induction cps) (simp_all add: valid_utf8_char utf8_char_bytes)

lemma utf8_chars_of: "list_all is_scalar cps \<Longrightarrow> utf8_chars (utf8_of cps) = map char_bytes cps"
  by (induction cps) (simp_all add: utf8_chars_char utf8_char_bytes)

section \<open>Hexadecimal numbers\<close>

text \<open>The lower-case digits \<^verbatim>\<open>{:x}\<close> and JavaScript's \<^verbatim>\<open>toString(16)\<close> write.\<close>

definition hex_digit :: "nat \<Rightarrow> char" where
  "hex_digit d = (if d < 10 then char_of (48 + d) else char_of (87 + d))"

fun hex :: "nat \<Rightarrow> string" where
  "hex n = (if n < 16 then [hex_digit n] else hex (n div 16) @ [hex_digit (n mod 16)])"

declare hex.simps [simp del]

text \<open>\<^verbatim>\<open>char::to_digit(16)\<close>\<close>

definition to_digit_16 :: "char \<Rightarrow> nat option" where
  "to_digit_16 c =
     (let n = of_char c :: nat in
      if 48 \<le> n \<and> n \<le> 57 then Some (n - 48)
      else if 97 \<le> n \<and> n \<le> 102 then Some (n - 87)
      else if 65 \<le> n \<and> n \<le> 70 then Some (n - 55) else None)"

definition is_hex :: "char \<Rightarrow> bool" where
  "is_hex c = (to_digit_16 c \<noteq> None)"

definition hex_value :: "string \<Rightarrow> nat" where
  "hex_value s = foldl (\<lambda>v c. 16 * v + the (to_digit_16 c)) 0 s"

lemma to_digit_hex_digit [simp]: "d < 16 \<Longrightarrow> to_digit_16 (hex_digit d) = Some d"
  by (auto simp: to_digit_16_def hex_digit_def Let_def)

lemma is_hex_ascii: "is_hex c \<Longrightarrow> is_ascii c"
  by (auto simp: is_hex_def to_digit_16_def is_ascii_def Let_def split: if_splits)

lemma hex_neq_Nil [simp]: "hex n \<noteq> []"
  by (subst hex.simps) simp

lemma hex_digits: "\<forall>c \<in> set (hex n). is_hex c"
proof (induction n rule: hex.induct)
  case (1 n)
  then show ?case by (subst hex.simps) (auto simp: is_hex_def)
qed

lemma hex_value_hex: "hex_value (hex n) = n"
proof (induction n rule: hex.induct)
  case (1 n)
  have "n mod 16 < 16" by simp
  then show ?case using 1 by (subst hex.simps) (auto simp: hex_value_def)
qed

lemma length_hex: "n < 16 ^ k \<Longrightarrow> 0 < k \<Longrightarrow> length (hex n) \<le> k"
proof (induction k arbitrary: n)
  case (Suc k)
  show ?case
  proof (cases "n < 16")
    case True
    then show ?thesis by (subst hex.simps) simp
  next
    case False
    then have k: "0 < k" using Suc.prems by (cases k) auto
    have "n div 16 < 16 ^ k" using Suc.prems by (simp add: less_mult_imp_div_less mult.commute)
    then show ?thesis using False Suc.IH k by (subst hex.simps) simp
  qed
qed simp

end
