(* ===== verification/Terminal.thy ===== *)
theory Terminal
  imports Unicode
begin

text \<open>
  Untrusted text on its way to a terminal or a CI log (\<^verbatim>\<open>victauri-test/src/terminal.rs\<close>): control
  and bidirectional characters become visible escapes, and a line that a CI system would read as a
  command is defused.
\<close>

section \<open>The code\<close>

definition is_bidi_control :: "nat \<Rightarrow> bool" where
  "is_bidi_control n \<longleftrightarrow> n = 0x061C \<or> n = 0x200E \<or> n = 0x200F \<or> (0x202A \<le> n \<and> n \<le> 0x202E) \<or> (0x2066 \<le> n \<and> n \<le> 0x2069)"

text \<open>\<^verbatim>\<open>char::is_control\<close>: the general category \<^verbatim>\<open>Cc\<close>.\<close>

definition is_control :: "nat \<Rightarrow> bool" where
  "is_control n \<longleftrightarrow> n < 0x20 \<or> 0x7F \<le> n \<and> n < 0xA0"

definition push_escaped :: "string \<Rightarrow> string" where
  "push_escaped ch = backslash # ''u{'' @ hex (code_point ch) @ ''}''"

definition escape_char :: "string \<Rightarrow> string" where
  "escape_char ch = (if is_control (code_point ch) \<or> is_bidi_control (code_point ch) then push_escaped ch else ch)"

definition single_line_char :: "string \<Rightarrow> string" where
  "single_line_char ch =
     (if ch = [newline] then backslash # ''n''
      else if ch = [CHR 0x0D] then backslash # ''r''
      else if ch = [CHR 0x09] then backslash # ''t''
      else escape_char ch)"

definition single_line :: "string \<Rightarrow> string" where
  "single_line s = concat (map single_line_char (utf8_chars s))"

text \<open>\<^verbatim>\<open>replace\<close> of CR LF by LF.\<close>

fun replace_crlf :: "string \<Rightarrow> string" where
  "replace_crlf (a # b # s) =
     (if a = CHR 0x0D \<and> b = newline then newline # replace_crlf s else a # replace_crlf (b # s))"
| "replace_crlf s = s"

definition multi_line_char :: "string \<Rightarrow> string" where
  "multi_line_char ch =
     (if ch = [newline] \<or> ch = [CHR 0x09] then ch
      else if ch = [CHR 0x0D] then backslash # ''r''
      else escape_char ch)"

definition multi_line :: "string \<Rightarrow> string" where
  "multi_line s = concat (map multi_line_char (utf8_chars (replace_crlf s)))"

definition workflow_prefix :: "string \<Rightarrow> bool" where
  "workflow_prefix body \<longleftrightarrow> prefix ''::'' body \<or> prefix ''##['' body"

definition untrusted_line :: "string \<Rightarrow> string" where
  "untrusted_line line =
     (let body = strip_words white_space line in
      if workflow_prefix body
      then take (length line - length body) line @ push_escaped [hd body] @ tl body
      else line)"

definition untrusted_multi_line :: "string \<Rightarrow> string" where
  "untrusted_multi_line s = join [newline] (map untrusted_line (split_on (\<lambda>c. c = newline) (multi_line s)))"

section \<open>What may be displayed\<close>

text \<open>Every character is printed as it is, except for the ones of \<open>allowed\<close>.\<close>

definition displayable :: "string list \<Rightarrow> string \<Rightarrow> bool" where
  "displayable allowed s \<longleftrightarrow>
     list_all (\<lambda>ch. ch \<in> set allowed \<or> \<not> is_control (code_point ch) \<and> \<not> is_bidi_control (code_point ch)) (utf8_chars s)"

text \<open>A line a CI system runs as a command, after any indentation.\<close>

definition workflow_command :: "string \<Rightarrow> bool" where
  "workflow_command line \<longleftrightarrow> workflow_prefix (strip_words white_space line)"

lemma displayable_Nil [simp]: "displayable allowed []"
  by (simp add: displayable_def)

lemma displayable_append:
  "valid_utf8 s \<Longrightarrow> displayable allowed (s @ t) \<longleftrightarrow> displayable allowed s \<and> displayable allowed t"
  by (simp add: displayable_def utf8_chars_append)

lemma displayable_char:
  "utf8_char ch \<Longrightarrow> displayable allowed ch \<longleftrightarrow>
     ch \<in> set allowed \<or> \<not> is_control (code_point ch) \<and> \<not> is_bidi_control (code_point ch)"
  using utf8_chars_char [of ch "[]"] by (simp add: displayable_def)

text \<open>Printing ASCII.\<close>

lemma displayable_ascii: "\<forall>c \<in> set s. 0x20 \<le> (of_char c :: nat) \<and> (of_char c :: nat) < 0x7F \<Longrightarrow> valid_utf8 s \<and> displayable allowed s"
proof (induction s)
  case (Cons c s)
  then have c: "is_ascii c" by (simp add: is_ascii_def)
  then show ?case using Cons by (simp add: displayable_def is_control_def is_bidi_control_def)
qed simp

lemma is_hex_printing: "is_hex c \<Longrightarrow> 0x20 \<le> (of_char c :: nat) \<and> (of_char c :: nat) < 0x7F"
  by (auto simp: is_hex_def to_digit_16_def Let_def split: if_splits)

lemma push_escaped_displayable: "valid_utf8 (push_escaped ch) \<and> displayable allowed (push_escaped ch)"
  using hex_digits [of "code_point ch"] is_hex_printing
  by (intro displayable_ascii) (auto simp: push_escaped_def)

lemma escape_char_displayable:
  assumes "utf8_char ch"
  shows "valid_utf8 (escape_char ch) \<and> displayable allowed (escape_char ch)"
proof (cases "is_control (code_point ch) \<or> is_bidi_control (code_point ch)")
  case True
  then show ?thesis using push_escaped_displayable by (simp add: escape_char_def)
next
  case False
  then show ?thesis using assms valid_utf8_char [OF assms, of "[]"] by (simp add: escape_char_def displayable_char)
qed

lemma short_escape_displayable:
  assumes "s \<in> {backslash # ''n'', backslash # ''r'', backslash # ''t''}"
  shows "valid_utf8 s \<and> displayable allowed s"
  using assms by (intro displayable_ascii) auto

lemma single_line_char_displayable:
  "utf8_char ch \<Longrightarrow> valid_utf8 (single_line_char ch) \<and> displayable allowed (single_line_char ch)"
  using escape_char_displayable [of ch allowed] short_escape_displayable [of _ allowed] by (simp add: single_line_char_def)

lemma multi_line_char_displayable:
  assumes "utf8_char ch" "{[newline], [CHR 0x09]} \<subseteq> set allowed"
  shows "valid_utf8 (multi_line_char ch) \<and> displayable allowed (multi_line_char ch)"
proof -
  have "valid_utf8 ch" using valid_utf8_char [OF assms(1), of "[]"] by simp
  moreover have "ch = [newline] \<or> ch = [CHR 0x09] \<Longrightarrow> displayable allowed ch"
    using assms by (auto simp: displayable_char)
  ultimately show ?thesis
    using escape_char_displayable [OF assms(1), of allowed] short_escape_displayable [of _ allowed]
    by (simp add: multi_line_char_def)
qed

lemma concat_displayable:
  "\<forall>ch \<in> set chs. valid_utf8 (f ch) \<and> displayable allowed (f ch) \<Longrightarrow>
   valid_utf8 (concat (map f chs)) \<and> displayable allowed (concat (map f chs))"
  by (induction chs) (auto simp: displayable_append valid_utf8_append)

lemma replace_crlf_newline [simp]: "replace_crlf (newline # s) = newline # replace_crlf s"
  by (cases s) simp_all

lemma replace_crlf_multi: "\<forall>c \<in> set ch. \<not> is_ascii c \<Longrightarrow> replace_crlf (ch @ t) = ch @ replace_crlf t"
proof (induction ch)
  case (Cons c ch)
  then show ?case by (cases "ch @ t") (auto simp: is_ascii_def)
qed simp

lemma valid_replace_crlf: "valid_utf8 s \<Longrightarrow> valid_utf8 (replace_crlf s)"
proof (induction s rule: valid_utf8_induct)
  case (char ch t)
  from char(1) show ?case
  proof (cases rule: utf8_char_cases)
    case (ascii a)
    then show ?thesis using char by (cases t) (auto simp: is_ascii_def split: if_splits)
  next
    case multi
    have "replace_crlf (ch @ t) = ch @ replace_crlf t"
      using multi(2) by (rule replace_crlf_multi)
    then show ?thesis using char valid_utf8_char by simp
  qed
qed simp

section \<open>Lines\<close>

lemma newline_in_char: "utf8_char ch \<Longrightarrow> newline \<in> set ch \<Longrightarrow> ch = [newline]"
  by (erule utf8_char_cases) (auto simp: is_ascii_def)

lemma split_on_char:
  "\<forall>c \<in> set w. \<not> p c \<Longrightarrow> split_on p (w @ s) = (w @ hd (split_on p s)) # tl (split_on p s)"
  by (induction w) (auto split: list.splits)

lemma lines_displayable:
  "valid_utf8 s \<Longrightarrow> displayable allowed s \<Longrightarrow> l \<in> set (split_on (\<lambda>c. c = newline) s) \<Longrightarrow>
   valid_utf8 l \<and> displayable allowed l"
proof (induction s arbitrary: l rule: valid_utf8_induct)
  case (char ch t)
  obtain w ws where t: "split_on (\<lambda>c. c = newline) t = w # ws" by (cases "split_on (\<lambda>c. c = newline) t") auto
  have dt: "displayable allowed ch" "displayable allowed t"
    using char valid_utf8_char [of ch "[]"] by (simp_all add: displayable_append)
  show ?case
  proof (cases "ch = [newline]")
    case True
    then show ?thesis using char(3) [OF dt(2), of l] char(5) by auto
  next
    case False
    have "\<forall>c \<in> set ch. c \<noteq> newline" using newline_in_char [OF char(1)] False by blast
    then have "split_on (\<lambda>c. c = newline) (ch @ t) = (ch @ w) # ws" using split_on_char [of ch] t by simp
    moreover have "valid_utf8 w \<and> displayable allowed w" using char(3) [OF dt(2), of w] t by simp
    moreover have "valid_utf8 (ch @ w) \<and> displayable allowed (ch @ w)"
      using calculation(2) dt(1) valid_utf8_char [OF char(1), of w] valid_utf8_char [OF char(1), of "[]"]
      by (simp add: displayable_append)
    moreover have "valid_utf8 l \<and> displayable allowed l" if "l \<in> set ws" using char(3) [OF dt(2), of l] t that by simp
    ultimately show ?thesis using char(5) by (simp only: list.set insert_iff) blast
  qed
qed simp

lemma white_space_char: "w \<in> set white_space \<Longrightarrow> utf8_char w"
  by (auto simp: white_space_def is_ascii_def byte_in_def)

lemma strip_white_space: "w \<in> set white_space \<Longrightarrow> strip_words white_space (w @ s) = strip_words white_space s"
proof -
  assume w: "w \<in> set white_space"
  have same: "v = w" if v: "v \<in> set white_space" "prefix v (w @ s)" for v
  proof -
    obtain r where "w @ s = v @ r" using v(2) by (auto simp: prefix_def)
    then have "length v = length w"
      using utf8_width_char [OF white_space_char [OF w], of s] utf8_width_char [OF white_space_char [OF v(1)], of r] by simp
    then show ?thesis using \<open>w @ s = v @ r\<close> by simp
  qed
  have "find (\<lambda>v. v \<noteq> [] \<and> prefix v (w @ s)) white_space = Some w"
  proof (cases "find (\<lambda>v. v \<noteq> [] \<and> prefix v (w @ s)) white_space")
    case None
    then show ?thesis using w utf8_char_neq_Nil [OF white_space_char [OF w]] by (auto simp: find_None_iff)
  next
    case (Some v)
    then have "v \<in> set white_space" "prefix v (w @ s)" by (auto simp: find_Some_iff)
    then show ?thesis using same Some by blast
  qed
  then show ?thesis by (subst strip_words.simps) simp
qed

lemma strip_white_spaces: "set ws \<subseteq> set white_space \<Longrightarrow> strip_words white_space (concat ws @ s) = strip_words white_space s"
  by (induction ws) (simp_all add: strip_white_space)

lemma split_join:
  "ls \<noteq> [] \<Longrightarrow> \<forall>l \<in> set ls. newline \<notin> set l \<Longrightarrow> split_on (\<lambda>c. c = newline) (join [newline] ls) = ls"
proof (induction ls rule: induct_list012)
  case (2 l)
  then show ?case using split_on_char [of l "\<lambda>c. c = newline" "[]"] by auto
next
  case (3 l m ls)
  then show ?case using split_on_char [of l "\<lambda>c. c = newline" "newline # join [newline] (m # ls)"] by auto
qed simp

lemma join_displayable:
  "\<forall>l \<in> set ls. valid_utf8 l \<and> displayable allowed l \<Longrightarrow> [newline] \<in> set allowed \<Longrightarrow>
   valid_utf8 (join [newline] ls) \<and> displayable allowed (join [newline] ls)"
proof (induction ls rule: induct_list012)
  case (3 l m ls)
  have "utf8_char [newline]" by (simp add: is_ascii_def)
  then have "displayable allowed [newline]" using 3(4) by (simp only: displayable_char simp_thms)
  moreover have "valid_utf8 [newline]" by (simp add: is_ascii_def)
  ultimately show ?case using 3 by (simp add: displayable_append valid_utf8_append valid_utf8_skip is_ascii_def flip: append_Cons)
qed simp_all

text \<open>One line: the indentation is kept, and what follows starts with an escape.\<close>

lemma untrusted_line_safe:
  assumes "valid_utf8 line" "displayable allowed line"
  shows "valid_utf8 (untrusted_line line) \<and> displayable allowed (untrusted_line line) \<and>
    \<not> workflow_command (untrusted_line line)"
proof (cases "workflow_prefix (strip_words white_space line)")
  case False
  then show ?thesis using assms by (simp add: untrusted_line_def workflow_command_def)
next
  case True
  define body where "body = strip_words white_space line"
  obtain ws where ws: "set ws \<subseteq> set white_space" "line = concat ws @ body"
    using strip_words_splits [of white_space line] by (auto simp: body_def)
  obtain c r where body: "body = c # r" "c = CHR '':'' \<or> c = CHR ''#''"
    using True by (auto simp: body_def workflow_prefix_def prefix_def)
  then have c: "is_ascii c" by (auto simp: is_ascii_def)
  have "list_all utf8_char ws" using ws(1) white_space_char by (auto simp: list_all_iff)
  then have v: "valid_utf8 (concat ws)" using valid_utf8_concat_chars [of ws "[]"] by simp
  then have "valid_utf8 r" "displayable allowed (concat ws)" "displayable allowed r"
    using assms ws(2) body c displayable_append [of "[c]" allowed r]
    by (simp_all add: displayable_append valid_utf8_skip)
  moreover have u: "untrusted_line line = concat ws @ push_escaped [c] @ r"
  proof -
    have "strip_words white_space line = c # r" "take (length line - length (c # r)) line = concat ws"
      using ws(2) body by (simp_all add: body_def)
    then show ?thesis using True by (simp only: untrusted_line_def Let_def if_True list.sel)
  qed
  moreover have "strip_words white_space (untrusted_line line) = push_escaped [c] @ r"
  proof -
    have "find (\<lambda>w. w \<noteq> [] \<and> prefix w (push_escaped [c] @ r)) white_space = None"
      by (auto simp: find_None_iff white_space_def push_escaped_def)
    then show ?thesis unfolding u strip_white_spaces [OF ws(1)] by (subst strip_words.simps) simp
  qed
  moreover have "\<not> workflow_prefix (push_escaped [c] @ r)" by (simp add: workflow_prefix_def push_escaped_def)
  ultimately show ?thesis
    using v push_escaped_displayable [of "[c]" allowed]
    by (simp add: workflow_command_def displayable_append valid_utf8_append)
qed


lemma push_escaped_chars: "newline \<notin> set (push_escaped ch)"
  using hex_digits [of "code_point ch"] is_hex_printing [of newline] by (auto simp: push_escaped_def)

lemma untrusted_line_chars: "newline \<in> set (untrusted_line line) \<Longrightarrow> newline \<in> set line"
proof -
  assume n: "newline \<in> set (untrusted_line line)"
  obtain ws where "line = concat ws @ strip_words white_space line" using strip_words_splits by blast
  then have "set (strip_words white_space line) \<subseteq> set line" by (metis Un_upper2 set_append)
  moreover have "set (tl (strip_words white_space line)) \<subseteq> set (strip_words white_space line)"
    by (cases "strip_words white_space line") auto
  ultimately show ?thesis
    using n push_escaped_chars by (auto simp: untrusted_line_def Let_def dest: in_set_takeD split: if_splits)
qed

lemma displayable_newline: "valid_utf8 s \<Longrightarrow> displayable [] s \<Longrightarrow> newline \<notin> set s"
proof (induction s rule: valid_utf8_induct)
  case (char ch t)
  have "displayable [] ch" "displayable [] t"
    using char valid_utf8_char [of ch "[]"] by (simp_all add: displayable_append)
  then have "ch \<noteq> [newline]" "newline \<notin> set t" using char by (auto simp: displayable_char is_control_def)
  then show ?case using newline_in_char [OF char(1)] by auto
qed simp

section \<open>Correctness\<close>



end
