(* ===== verification/Bridge_Discovery.thy ===== *)
theory Bridge_Discovery
  imports Watchdog Terminal
begin

text \<open>
  Which running app the stdio bridge talks to (\<^verbatim>\<open>victauri-cli/src/bridge.rs\<close>, and
  \<^verbatim>\<open>real_port_claims\<close> of \<^verbatim>\<open>victauri-test/src/discovery.rs\<close>).  What a scan reads of the world is its
  argument, a record \<open>probe\<close>: environment variables, the discovery roots with the files of their
  entries, the liveness of processes, and the answers of servers to \<^verbatim>\<open>/health\<close> and \<^verbatim>\<open>/info\<close>.
\<close>

section \<open>Servers\<close>

record server_info =
  sv_pid :: "nat option"
  sv_port :: nat
  sv_token :: "string option"
  sv_identifier :: "string option"
  sv_product_name :: "string option"

definition server_label :: "server_info \<Rightarrow> string" where
  "server_label s =
     (let name = (case sv_identifier s of
                    Some i \<Rightarrow> i
                  | None \<Rightarrow> (case sv_product_name s of Some p \<Rightarrow> p | None \<Rightarrow> ''<unknown app>''))
      in case sv_pid s of
           Some pid \<Rightarrow> name @ '' (port '' @ decimal (sv_port s) @ '', pid '' @ decimal pid @ '')''
         | None \<Rightarrow> name @ '' (port '' @ decimal (sv_port s) @ '')'')"

definition identity_matches :: "string option \<Rightarrow> string option \<Rightarrow> string \<Rightarrow> bool" where
  "identity_matches identifier product_name app \<longleftrightarrow>
     (case identifier of Some i \<Rightarrow> eq_ignore_ascii_case i app | None \<Rightarrow> False) \<or>
     (case product_name of Some p \<Rightarrow> eq_ignore_ascii_case p app | None \<Rightarrow> False)"

definition matches_app :: "server_info \<Rightarrow> string \<Rightarrow> bool" where
  "matches_app s app = identity_matches (sv_identifier s) (sv_product_name s) app"

text \<open>A configured text, trimmed; an empty one counts as not set.\<close>

definition non_empty_trimmed :: "string option \<Rightarrow> string option" where
  "non_empty_trimmed s = Option.bind s (\<lambda>t. if str_trim t = [] then None else Some (str_trim t))"

definition resolve_app_selector :: "string option \<Rightarrow> string option \<Rightarrow> string option" where
  "resolve_app_selector cli env =
     (case non_empty_trimmed cli of Some a \<Rightarrow> Some a | None \<Rightarrow> non_empty_trimmed env)"

definition normalize_env_token :: "string option \<Rightarrow> string option" where
  "normalize_env_token raw = non_empty_trimmed raw"

section \<open>What a scan reads\<close>

record pid_entry =
  pe_name :: string
  pe_trusted :: bool
  pe_port :: "string option"
  pe_token :: "string option"
  pe_meta :: "json option"

record pid_root =
  pr_trusted :: bool
  pr_entries :: "pid_entry list option"

text \<open>What a server said to a token (\<^verbatim>\<open>InfoAnswer\<close>).\<close>

datatype info_answer = Info_Accepted "nat option" | Info_Refused | Info_Unknown

text \<open>
  \<open>pb_alive_pids\<close> is the process list where the platform has one, \<open>pb_process_alive\<close> the check of one
  process.  \<open>pb_info\<close> is the body of a successful, well-formed \<^verbatim>\<open>/info\<close>; \<open>pb_ask_info\<close> the answer of
  the short query that settles claims, for an entry's pid and token.
\<close>

record probe =
  pb_port_env :: "string option"
  pb_token_env :: "string option"
  pb_roots :: "pid_root list"
  pb_alive_pids :: "nat list option"
  pb_process_alive :: "nat \<Rightarrow> bool"
  pb_health :: "nat \<Rightarrow> nat option"
  pb_info :: "nat \<Rightarrow> string option \<Rightarrow> json option"
  pb_ask_info :: "nat \<Rightarrow> nat \<Rightarrow> string option \<Rightarrow> info_answer"

section \<open>Discovery entries\<close>

definition entry_server :: "pid_entry \<Rightarrow> (nat \<times> server_info) option" where
  "entry_server e =
     (case parse_unsigned 32 (pe_name e) of
        None \<Rightarrow> None
      | Some pid \<Rightarrow>
          if \<not> pe_trusted e then None
          else (case Option.bind (pe_port e) (\<lambda>s. parse_unsigned 16 (str_trim s)) of
                  None \<Rightarrow> None
                | Some port \<Rightarrow>
                    let field = (\<lambda>k. Option.bind (Option.bind (pe_meta e) (\<lambda>m. json_get m k)) json_as_str)
                    in Some (pid, \<lparr>sv_pid = Some pid, sv_port = port, sv_token = non_empty_trimmed (pe_token e),
                         sv_identifier = field ''identifier'', sv_product_name = field ''product_name''\<rparr>)))"

fun push_entries :: "(nat \<times> server_info) list \<Rightarrow> pid_entry list \<Rightarrow> (nat \<times> server_info) list" where
  "push_entries out [] = out"
| "push_entries out (e # es) =
     (case entry_server e of
        None \<Rightarrow> push_entries out es
      | Some (pid, s) \<Rightarrow> push_entries (if pid \<in> fst ` set out then out else out @ [(pid, s)]) es)"

definition discover_entries_in :: "pid_root \<Rightarrow> (nat \<times> server_info) list \<Rightarrow> (nat \<times> server_info) list" where
  "discover_entries_in dir out =
     (if \<not> pr_trusted dir then out
      else (case pr_entries dir of None \<Rightarrow> out | Some es \<Rightarrow> push_entries out es))"

definition discover_entries :: "probe \<Rightarrow> (nat \<times> server_info) list" where
  "discover_entries pb = fold discover_entries_in (pb_roots pb) []"

definition is_alive :: "probe \<Rightarrow> nat \<Rightarrow> bool" where
  "is_alive pb pid = (case pb_alive_pids pb of Some pids \<Rightarrow> pid \<in> set pids | None \<Rightarrow> pb_process_alive pb pid)"

definition discover_live_servers :: "probe \<Rightarrow> server_info list" where
  "discover_live_servers pb = map snd (filter (\<lambda>(pid, s). is_alive pb pid) (discover_entries pb))"

definition health_ok :: "probe \<Rightarrow> nat \<Rightarrow> bool" where
  "health_ok pb port = (case pb_health pb port of Some status \<Rightarrow> health_status_means_alive status | None \<Rightarrow> False)"

section \<open>Several entries on one port\<close>

definition ask_info :: "probe \<Rightarrow> nat \<Rightarrow> nat \<Rightarrow> string option \<Rightarrow> info_answer" where
  "ask_info pb port pid token =
     (if (case token of Some t \<Rightarrow> list_ex (\<lambda>ch. is_control (code_point ch)) (utf8_chars t) | None \<Rightarrow> False)
      then Info_Unknown
      else (case pb_ask_info pb port pid token of
              Info_Refused \<Rightarrow> if token = None then Info_Unknown else Info_Refused
            | answer \<Rightarrow> answer))"

definition real_port_claims_until :: "(nat \<times> info_answer) list \<Rightarrow> nat list" where
  "real_port_claims_until answers =
     (let reported = List.map_filter (\<lambda>(pid, a). case a of Info_Accepted (Some p) \<Rightarrow> Some p | _ \<Rightarrow> None) answers;
          accepted = list_ex (\<lambda>(pid, a). case a of Info_Accepted _ \<Rightarrow> True | _ \<Rightarrow> False) answers
      in map fst (filter (\<lambda>(pid, a).
           case reported of
             server # _ \<Rightarrow> pid = server
           | [] \<Rightarrow> if accepted then (case a of Info_Accepted _ \<Rightarrow> True | _ \<Rightarrow> False) else True) answers))"

definition settle_port :: "probe \<Rightarrow> nat \<Rightarrow> server_info list \<Rightarrow> server_info list" where
  "settle_port pb port live =
     (let claims = List.map_filter (\<lambda>s. if sv_port s = port then map_option (\<lambda>pid. (pid, sv_token s)) (sv_pid s) else None) live
      in if length claims < 2 then live
         else let real = real_port_claims_until (map (\<lambda>(pid, token). (pid, ask_info pb port pid token)) claims)
              in filter (\<lambda>s. sv_port s \<noteq> port \<or> (case sv_pid s of None \<Rightarrow> True | Some pid \<Rightarrow> pid \<in> set real)) live)"

definition settle_port_claims :: "probe \<Rightarrow> server_info list \<Rightarrow> server_info list" where
  "settle_port_claims pb live =
     (let ports = sort (map sv_port live); contested = remdups_adj ports
      in if length contested = length ports then live else fold (settle_port pb) contested live)"

section \<open>Identity\<close>

record verified_backend =
  vb_pid :: "nat option"
  vb_port :: nat
  vb_token :: "string option"
  vb_app :: string

definition fetch_identity :: "probe \<Rightarrow> nat \<Rightarrow> string option \<Rightarrow> (string option \<times> string option) option" where
  "fetch_identity pb port token =
     map_option (\<lambda>info. (meta_field info ''app_identifier'', meta_field info ''app_product_name'')) (pb_info pb port token)"

definition identity_key :: "server_info \<Rightarrow> string \<Rightarrow> verified_backend" where
  "identity_key info app =
     \<lparr>vb_pid = sv_pid info, vb_port = sv_port info, vb_token = sv_token info, vb_app = map to_ascii_lower app\<rparr>"

abbreviation apostrophe :: char where "apostrophe \<equiv> CHR 0x27"

definition confirm_identity ::
  "probe \<Rightarrow> server_info \<Rightarrow> string \<Rightarrow> verified_backend option \<Rightarrow> (string + unit) \<times> verified_backend option" where
  "confirm_identity pb info app cache =
     (let key = identity_key info app in
      if vb_pid key \<noteq> None \<and> cache = Some key then (Inr (), cache)
      else
        let outcome =
          (case fetch_identity pb (sv_port info) (sv_token info) of
             Some (i, name) \<Rightarrow>
               if identity_matches i name app then Inr ()
               else Inl (''points at a server that reports itself as '' @ apostrophe #
                 single_line (case i of Some i \<Rightarrow> i | None \<Rightarrow> (case name of Some n \<Rightarrow> n | None \<Rightarrow> ''<no app identity>'')) @
                 [apostrophe])
           | None \<Rightarrow> Inl ''points at a server that did not confirm its identity on /info'')
        in (outcome, if outcome = Inr () \<and> vb_pid key \<noteq> None then Some key else None))"


section \<open>Selection\<close>

datatype selection =
    Sel_One server_info
  | Sel_None
  | Sel_Ambiguous "string list"
  | Sel_Pin_Down nat
  | Sel_Refused string

definition select :: "server_info list \<Rightarrow> string option \<Rightarrow> selection" where
  "select live app =
     (case filter (\<lambda>s. case app of None \<Rightarrow> True | Some a \<Rightarrow> matches_app s a) live of
        [] \<Rightarrow> Sel_None
      | [one] \<Rightarrow> Sel_One one
      | many \<Rightarrow> Sel_Ambiguous (map server_label many))"

definition unique_entry_on_port :: "server_info list \<Rightarrow> nat \<Rightarrow> server_info option" where
  "unique_entry_on_port servers port =
     (case filter (\<lambda>s. sv_port s = port) servers of [s] \<Rightarrow> Some s | _ \<Rightarrow> None)"

definition port_override ::
  "probe \<Rightarrow> nat \<Rightarrow> string option \<Rightarrow> verified_backend option \<Rightarrow> selection \<times> verified_backend option" where
  "port_override pb port app cache =
     (let entry = unique_entry_on_port (settle_port_claims pb (discover_live_servers pb)) port;
          refuse = (\<lambda>why. Sel_Refused (''VICTAURI_PORT='' @ decimal port @ '' '' @ why @
            '', but the app selector (--app / VICTAURI_APP) is '' @ apostrophe #
            single_line (case app of Some a \<Rightarrow> a | None \<Rightarrow> []) @ apostrophe #
            ''.              Unset one of them, or point VICTAURI_PORT at that app'' @ apostrophe # ''s port.''));
          other = (case (app, entry) of
            (Some a, Some e) \<Rightarrow>
              if (sv_identifier e \<noteq> None \<or> sv_product_name e \<noteq> None) \<and> \<not> matches_app e a then Some e else None
          | _ \<Rightarrow> None)
      in case other of
           Some e \<Rightarrow> (refuse (''is app '' @ single_line (server_label e)), cache)
         | None \<Rightarrow>
             let info = \<lparr>sv_pid = Option.bind entry sv_pid, sv_port = port,
                   sv_token = (case normalize_env_token (pb_token_env pb) of
                     Some t \<Rightarrow> Some t | None \<Rightarrow> Option.bind entry sv_token),
                   sv_identifier = Option.bind entry sv_identifier,
                   sv_product_name = Option.bind entry sv_product_name\<rparr>
             in case app of
                  None \<Rightarrow> (Sel_One info, cache)
                | Some a \<Rightarrow>
                    (case confirm_identity pb info a cache of
                       (Inr _, cache) \<Rightarrow> (Sel_One info, cache)
                     | (Inl why, cache) \<Rightarrow> (refuse why, cache)))"

definition pinned_port :: "probe \<Rightarrow> nat option" where
  "pinned_port pb =
     Option.bind (pb_port_env pb) (\<lambda>s. Option.bind (parse_unsigned 16 (str_trim s)) (\<lambda>p. if p \<noteq> 0 then Some p else None))"

text \<open>The loop over the entries, and the claims settled.\<close>

definition healthy_servers :: "probe \<Rightarrow> server_info list" where
  "healthy_servers pb =
     settle_port_claims pb
       (map snd (filter (\<lambda>(pid, s). is_alive pb pid \<and> health_ok pb (sv_port s)) (discover_entries pb)))"

definition scan_once ::
  "string option \<Rightarrow> probe \<Rightarrow> verified_backend option \<Rightarrow> selection \<times> verified_backend option" where
  "scan_once app pb cache =
     (case pinned_port pb of
        Some port \<Rightarrow> if health_ok pb port then port_override pb port app cache else (Sel_Pin_Down port, cache)
      | None \<Rightarrow>
          if discover_entries pb = [] then (Sel_None, cache)
          else (case (select (healthy_servers pb) app, app) of
                  (Sel_One info, Some a) \<Rightarrow>
                    (case confirm_identity pb info a cache of
                       (Inr _, cache) \<Rightarrow> (Sel_One info, cache)
                     | (Inl why, cache) \<Rightarrow>
                         (Sel_Refused (''No running Victauri app matches --app '' @ apostrophe # single_line a @ apostrophe #
                            '': the discovery entry '' @ single_line (server_label info) @ '' '' @ why @
                            ''.                      The entry is stale (the app exited and its PID was reused) or another app'' @
                            ''                      now holds its port. Start the app, or run `victauri doctor`.''), cache))
                | (sel, _) \<Rightarrow> (sel, cache)))"

section \<open>Which server a scan yields\<close>

text \<open>An entry of a trusted root, itself trusted, that says so.\<close>

definition trusted_entry :: "probe \<Rightarrow> nat \<Rightarrow> server_info \<Rightarrow> bool" where
  "trusted_entry pb pid s \<longleftrightarrow>
     (\<exists>dir \<in> set (pb_roots pb). pr_trusted dir \<and>
        (\<exists>es e. pr_entries dir = Some es \<and> e \<in> set es \<and> pe_trusted e \<and> entry_server e = Some (pid, s)))"

lemma push_entries_from:
  "(pid, s) \<in> set (push_entries out es) \<Longrightarrow>
   (pid, s) \<in> set out \<or> (\<exists>e \<in> set es. pe_trusted e \<and> entry_server e = Some (pid, s))"
proof (induction out es rule: push_entries.induct)
  case (2 out e es)
  show ?case
  proof (cases "entry_server e")
    case None
    then show ?thesis using 2 by auto
  next
    case (Some ps)
    then have "pe_trusted e" by (auto simp: entry_server_def split: option.splits if_splits)
    then show ?thesis using 2 Some by (cases ps) (fastforce split: if_splits)
  qed
qed simp

lemma discover_entries_trusted:
  assumes "(pid, s) \<in> set (discover_entries pb)"
  shows "trusted_entry pb pid s"
proof -
  have "(pid, s) \<in> set (fold discover_entries_in dirs out) \<Longrightarrow> set dirs \<subseteq> set (pb_roots pb) \<Longrightarrow>
      (pid, s) \<in> set out \<or> trusted_entry pb pid s" for dirs out
  proof (induction dirs arbitrary: out)
    case (Cons dir dirs)
    then have "(pid, s) \<in> set (discover_entries_in dir out) \<or> trusted_entry pb pid s" by simp
    then show ?case
      using Cons.prems(2) push_entries_from [of pid s out]
      by (fastforce simp: discover_entries_in_def trusted_entry_def split: if_splits option.splits)
  qed simp
  then show ?thesis using assms by (fastforce simp: discover_entries_def)
qed

lemma settle_port_claims_subset: "set (settle_port_claims pb live) \<subseteq> set live"
proof -
  have "set (fold (settle_port pb) ports live) \<subseteq> set live" for ports
    by (induction ports arbitrary: live) (fastforce simp: settle_port_def Let_def split: if_splits)+
  then show ?thesis by (simp add: settle_port_claims_def Let_def)
qed

text \<open>
  The server itself confirmed the identity the selector asks for, in this scan or when this very
  entry was last resolved.
\<close>

definition confirmed :: "probe \<Rightarrow> server_info \<Rightarrow> string \<Rightarrow> verified_backend option \<Rightarrow> bool" where
  "confirmed pb info app cache \<longleftrightarrow>
     (sv_pid info \<noteq> None \<and> cache = Some (identity_key info app)) \<or>
     (\<exists>i name. fetch_identity pb (sv_port info) (sv_token info) = Some (i, name) \<and> identity_matches i name app)"

lemma confirm_identity_Inr:
  "confirm_identity pb info app cache = (Inr u, cache') \<Longrightarrow> confirmed pb info app cache"
  by (auto simp: confirm_identity_def confirmed_def Let_def identity_key_def split: if_splits option.splits)


text \<open>
  What a scan may choose.  With a pinned port: that port, with the configured token or that of a live
  trusted entry for the port.  Otherwise the only healthy live entry the selector matches, taken from
  a trusted directory.
\<close>

definition live_entry :: "probe \<Rightarrow> server_info \<Rightarrow> bool" where
  "live_entry pb s \<longleftrightarrow> (\<exists>pid. trusted_entry pb pid s \<and> is_alive pb pid)"

definition chosen :: "string option \<Rightarrow> probe \<Rightarrow> server_info \<Rightarrow> bool" where
  "chosen app pb info \<longleftrightarrow>
     (case pinned_port pb of
        Some port \<Rightarrow> sv_port info = port \<and> health_ok pb port \<and>
          (sv_token info = None \<or> sv_token info = normalize_env_token (pb_token_env pb) \<or>
           normalize_env_token (pb_token_env pb) = None \<and>
             (\<exists>e. live_entry pb e \<and> sv_port e = port \<and> sv_token e = sv_token info))
      | None \<Rightarrow> live_entry pb info \<and> health_ok pb (sv_port info) \<and>
          filter (\<lambda>s. case app of None \<Rightarrow> True | Some a \<Rightarrow> matches_app s a) (healthy_servers pb) = [info])"

lemma live_servers_entry: "s \<in> set (settle_port_claims pb (discover_live_servers pb)) \<Longrightarrow> live_entry pb s"
  using settle_port_claims_subset [of pb "discover_live_servers pb"] discover_entries_trusted [of _ _ pb]
  by (fastforce simp: discover_live_servers_def live_entry_def)

lemma healthy_servers_entry: "s \<in> set (healthy_servers pb) \<Longrightarrow> live_entry pb s \<and> health_ok pb (sv_port s)"
  using settle_port_claims_subset [of pb] discover_entries_trusted [of _ _ pb]
  unfolding healthy_servers_def live_entry_def by fastforce

lemma select_One: "select live app = Sel_One info \<longleftrightarrow>
    filter (\<lambda>s. case app of None \<Rightarrow> True | Some a \<Rightarrow> matches_app s a) live = [info]"
  by (auto simp: select_def split: list.splits)

lemma unique_entry_Some: "unique_entry_on_port servers port = Some s \<Longrightarrow> s \<in> set servers \<and> sv_port s = port"
proof -
  assume "unique_entry_on_port servers port = Some s"
  then have "filter (\<lambda>s. sv_port s = port) servers = [s]" by (auto simp: unique_entry_on_port_def split: list.splits)
  then have "s \<in> set (filter (\<lambda>s. sv_port s = port) servers)" by simp
  then show ?thesis by simp
qed

lemma port_override_One:
  assumes "port_override pb port app cache = (Sel_One info, cache')"
  shows "sv_port info = port \<and>
    (sv_token info = None \<or> sv_token info = normalize_env_token (pb_token_env pb) \<or>
     normalize_env_token (pb_token_env pb) = None \<and>
       (\<exists>e. live_entry pb e \<and> sv_port e = port \<and> sv_token e = sv_token info)) \<and>
    (case app of None \<Rightarrow> True | Some a \<Rightarrow> confirmed pb info a cache)"
proof -
  let ?entry = "unique_entry_on_port (settle_port_claims pb (discover_live_servers pb)) port"
  let ?info = "\<lparr>sv_pid = Option.bind ?entry sv_pid, sv_port = port,
      sv_token = (case normalize_env_token (pb_token_env pb) of Some t \<Rightarrow> Some t | None \<Rightarrow> Option.bind ?entry sv_token),
      sv_identifier = Option.bind ?entry sv_identifier, sv_product_name = Option.bind ?entry sv_product_name\<rparr>"
  have info: "info = ?info" "case app of None \<Rightarrow> True | Some a \<Rightarrow> confirmed pb info a cache"
    using assms confirm_identity_Inr [of pb _ _ cache]
    by (auto simp: port_override_def Let_def split: option.splits if_splits sum.splits prod.splits)
  have "\<exists>e. live_entry pb e \<and> sv_port e = port \<and> sv_token e = Some t" if t: "Option.bind ?entry sv_token = Some t" for t
  proof -
    obtain e where "?entry = Some e" "sv_token e = Some t" using t by (auto simp: bind_eq_Some_conv)
    then show ?thesis using unique_entry_Some [of _ port e] live_servers_entry by blast
  qed
  then have "sv_token info = None \<or> sv_token info = normalize_env_token (pb_token_env pb) \<or>
     normalize_env_token (pb_token_env pb) = None \<and>
       (\<exists>e. live_entry pb e \<and> sv_port e = port \<and> sv_token e = sv_token info)"
    unfolding info(1)
    by (cases "normalize_env_token (pb_token_env pb)"; cases "Option.bind ?entry sv_token") simp_all
  then show ?thesis using info by simp
qed

lemma scan_selects_verified:
  assumes "scan_once app pb cache = (Sel_One info, cache')"
  shows "chosen app pb info \<and> (case app of None \<Rightarrow> True | Some a \<Rightarrow> confirmed pb info a cache)"
proof (cases "pinned_port pb")
  case (Some port)
  then show ?thesis
    using assms port_override_One [of pb port app cache info cache']
    by (auto simp: scan_once_def chosen_def split: if_splits)
next
  case None
  then have sel: "select (healthy_servers pb) app = Sel_One info"
      "case app of None \<Rightarrow> True | Some a \<Rightarrow> confirmed pb info a cache"
    using assms confirm_identity_Inr [of pb _ _ cache]
    by (auto simp: scan_once_def Let_def split: if_splits option.splits selection.splits sum.splits prod.splits)
  then have "info \<in> set (healthy_servers pb)"
    by (metis filter_is_subset list.set_intros(1) select_One subsetD)
  then show ?thesis
    using None sel healthy_servers_entry by (auto simp: chosen_def select_One)
qed

end
