(* ===== verification/Json_Codec.thy ===== *)
theory Json_Codec
  imports Json
begin

text \<open>
  A text format for JSON values with its reader.  The theories that leave \<^verbatim>\<open>serde_json\<close>'s printer and
  parser open assume that what was printed reads back; the format here is an instance of that law.
  Numbers and lengths are decimal, ended by a semicolon; items of arrays and objects are announced by a
  plus sign.
\<close>

fun enc :: "json \<Rightarrow> string" where
  "enc JNull = ''n''"
| "enc (JBool b) = (if b then ''t'' else ''f'')"
| "enc (JNumber (PosInt n)) = CHR ''p'' # decimal n @ '';''"
| "enc (JNumber (NegInt i)) = CHR ''m'' # decimal (nat (- i)) @ '';''"
| "enc (JNumber (Float x)) = ''x''"
| "enc (JString s) = CHR ''s'' # decimal (length s) @ CHR '';'' # s"
| "enc (JArray xs) = CHR ''['' # concat (map (\<lambda>x. CHR ''+'' # enc x) xs) @ '']''"
| "enc (JObject m) = CHR ''{'' # concat (map (\<lambda>kv. CHR ''+'' # decimal (length (fst kv)) @ CHR '';'' # fst kv @ enc (snd kv)) m) @ ''}''"

definition take_number :: "string \<Rightarrow> nat \<times> string" where
  "take_number s = (digits_value (takeWhile is_ascii_digit s), tl (dropWhile is_ascii_digit s))"

definition take_string :: "string \<Rightarrow> string \<times> string" where
  "take_string s = (let (n, r) = take_number s in (take n r, drop n r))"

text \<open>With fuel for the depth of nesting and the length of lists.\<close>

fun dec :: "nat \<Rightarrow> string \<Rightarrow> (json \<times> string) option"
  and dec_items :: "nat \<Rightarrow> string \<Rightarrow> (json list \<times> string) option"
  and dec_members :: "nat \<Rightarrow> string \<Rightarrow> ((string \<times> json) list \<times> string) option" where
  "dec (Suc n) (c # s) =
     (if c = CHR ''n'' then Some (JNull, s)
      else if c = CHR ''t'' then Some (JBool True, s)
      else if c = CHR ''f'' then Some (JBool False, s)
      else if c = CHR ''p'' then (let (k, r) = take_number s in Some (JNumber (PosInt k), r))
      else if c = CHR ''m'' then (let (k, r) = take_number s in Some (JNumber (NegInt (- int k)), r))
      else if c = CHR ''s'' then (let (t, r) = take_string s in Some (JString t, r))
      else if c = CHR ''['' then map_option (\<lambda>(xs, r). (JArray xs, r)) (dec_items n s)
      else if c = CHR ''{'' then map_option (\<lambda>(m, r). (JObject m, r)) (dec_members n s)
      else None)"
| "dec _ _ = None"
| "dec_items (Suc n) (c # s) =
     (if c = CHR ''+'' then
        (case dec n s of None \<Rightarrow> None
         | Some (x, r) \<Rightarrow> map_option (\<lambda>(xs, r). (x # xs, r)) (dec_items n r))
      else Some ([], s))"
| "dec_items _ _ = None"
| "dec_members (Suc n) (c # s) =
     (if c = CHR ''+'' then
        (let (k, t) = take_string s in
         case dec n t of None \<Rightarrow> None
         | Some (x, r) \<Rightarrow> map_option (\<lambda>(m, r). ((k, x) # m, r)) (dec_members n r))
      else Some ([], s))"
| "dec_members _ _ = None"

definition decode :: "string \<Rightarrow> json option" where
  "decode s = map_option fst (dec (Suc (length s)) s)"

lemma take_number_decimal: "take_number (decimal n @ CHR '';'' # r) = (n, r)"
proof -
  have d: "\<forall>c \<in> set (decimal n). is_ascii_digit c" "\<not> is_ascii_digit CHR '';''"
    using decimal_digits by (auto simp: is_ascii_digit_def)
  then show ?thesis
    by (simp add: take_number_def takeWhile_append2 dropWhile_append2 digits_value_decimal)
qed

lemma take_string_counted: "take_string (decimal (length s) @ CHR '';'' # s @ r) = (s, r)"
  by (simp add: take_string_def take_number_decimal)

lemma dec_items_enc:
  assumes "\<And>x n r. x \<in> set xs \<Longrightarrow> length (enc x) < n \<Longrightarrow> dec n (enc x @ r) = Some (x, r)"
  shows "length (concat (map (\<lambda>x. CHR ''+'' # enc x) xs)) < n \<Longrightarrow>
    dec_items n (concat (map (\<lambda>x. CHR ''+'' # enc x) xs) @ CHR '']'' # r) = Some (xs, r)"
  using assms
proof (induction xs arbitrary: n)
  case Nil
  then show ?case by (cases n) simp_all
next
  case (Cons x xs)
  then obtain k where n: "n = Suc k" by (cases n) auto
  have "dec k (enc x @ concat (map (\<lambda>x. CHR ''+'' # enc x) xs) @ CHR '']'' # r) =
      Some (x, concat (map (\<lambda>x. CHR ''+'' # enc x) xs) @ CHR '']'' # r)"
    using Cons.prems n by simp
  moreover have "dec_items k (concat (map (\<lambda>x. CHR ''+'' # enc x) xs) @ CHR '']'' # r) = Some (xs, r)"
    using Cons.prems n by (intro Cons.IH) auto
  ultimately show ?case by (simp add: n)
qed

lemma dec_members_enc:
  assumes "\<And>kv n r. kv \<in> set m \<Longrightarrow> length (enc (snd kv)) < n \<Longrightarrow> dec n (enc (snd kv) @ r) = Some (snd kv, r)"
  shows "length (concat (map (\<lambda>kv. CHR ''+'' # decimal (length (fst kv)) @ CHR '';'' # fst kv @ enc (snd kv)) m)) < n \<Longrightarrow>
    dec_members n (concat (map (\<lambda>kv. CHR ''+'' # decimal (length (fst kv)) @ CHR '';'' # fst kv @ enc (snd kv)) m) @ CHR ''}'' # r) =
      Some (m, r)"
  using assms
proof (induction m arbitrary: n)
  case Nil
  then show ?case by (cases n) simp_all
next
  case (Cons kv m)
  let ?rest = "concat (map (\<lambda>kv. CHR ''+'' # decimal (length (fst kv)) @ CHR '';'' # fst kv @ enc (snd kv)) m) @ CHR ''}'' # r"
  obtain k where n: "n = Suc k" using Cons.prems by (cases n) auto
  have "dec k (enc (snd kv) @ ?rest) = Some (snd kv, ?rest)"
    using Cons.prems n by simp
  moreover have "dec_members k ?rest = Some (m, r)"
    using Cons.prems n by (intro Cons.IH) auto
  ultimately show ?case using take_string_counted [of "fst kv"] by (simp add: n)
qed

fun codable :: "json \<Rightarrow> bool" where
  "codable (JNumber n) \<longleftrightarrow> (case n of PosInt _ \<Rightarrow> True | NegInt i \<Rightarrow> i < 0 | Float _ \<Rightarrow> False)"
| "codable (JArray xs) \<longleftrightarrow> list_all codable xs"
| "codable (JObject m) \<longleftrightarrow> list_all (\<lambda>kv. codable (snd kv)) m"
| "codable _ \<longleftrightarrow> True"

lemma dec_enc: "codable v \<Longrightarrow> length (enc v) < n \<Longrightarrow> dec n (enc v @ r) = Some (v, r)"
proof (induction v arbitrary: n r rule: enc.induct)
  case (7 xs)
  then obtain k where n: "n = Suc k" by (cases n) auto
  have "dec_items k (concat (map (\<lambda>x. CHR ''+'' # enc x) xs) @ CHR '']'' # r) = Some (xs, r)"
    using 7 n by (intro dec_items_enc) (auto simp: list_all_iff)
  then show ?case by (simp add: n)
next
  case (8 m)
  then obtain k where n: "n = Suc k" by (cases n) auto
  have "dec_members k (concat (map (\<lambda>kv. CHR ''+'' # decimal (length (fst kv)) @ CHR '';'' # fst kv @ enc (snd kv)) m) @ CHR ''}'' # r) = Some (m, r)"
    using 8 n by (intro dec_members_enc) (auto simp: list_all_iff)
  then show ?case by (simp add: n)
next
  case (3 k)
  then show ?case by (cases n) (simp_all add: take_number_decimal)
next
  case (4 i)
  then show ?case by (cases n) (simp_all add: take_number_decimal)
next
  case (6 s)
  then show ?case by (cases n) (simp_all add: take_string_counted)
next
  case (2 b)
  then show ?case by (cases n; cases b) simp_all
next
  case 1
  then show ?case by (cases n) simp_all
qed simp

lemma decode_enc: "codable v \<Longrightarrow> decode (enc v) = Some v"
  using dec_enc [of v "Suc (length (enc v))" "[]"] by (simp add: decode_def)

end
