(* ===== verification/Stdio_Bridge.thy ===== *)
theory Stdio_Bridge
  imports Bridge_Discovery Json_Codec
begin

text \<open>
  The stdio bridge (\<^verbatim>\<open>victauri-cli/src/bridge.rs\<close>): an MCP client's JSON-RPC messages come in on
  stdin, are answered locally or forwarded to the running app over HTTP, and the answers go out on
  stdout.  The world is an argument: what a discovery scan reads, what a \<^verbatim>\<open>POST\<close> answers, and what
  the bridge's other tasks do to its shared state while a task waits, each a function of the
  world's own state.
\<close>

section \<open>JSON-RPC messages\<close>

text \<open>\<^verbatim>\<open>serde_json::from_str\<close> and \<^verbatim>\<open>Value::to_string\<close>\<close>

record json_text =
  jt_from_str :: "string \<Rightarrow> json option"
  jt_to_string :: "json \<Rightarrow> string"

definition get_str :: "json \<Rightarrow> string \<Rightarrow> string option" where
  "get_str v k = Option.bind (json_get v k) json_as_str"

definition message_method :: "json \<Rightarrow> string" where
  "message_method msg = (case get_str msg ''method'' of Some m \<Rightarrow> m | None \<Rightarrow> [])"

definition id_or_null :: "json \<Rightarrow> json" where
  "id_or_null msg = (case json_get msg ''id'' of Some i \<Rightarrow> i | None \<Rightarrow> JNull)"

definition expects_reply :: "json \<Rightarrow> bool" where
  "expects_reply msg \<longleftrightarrow> json_get msg ''method'' \<noteq> None \<and> json_get msg ''id'' \<noteq> None"

definition is_client_response :: "json \<Rightarrow> bool" where
  "is_client_response msg \<longleftrightarrow>
     json_get msg ''method'' = None \<and> (json_get msg ''result'' \<noteq> None \<or> json_get msg ''error'' \<noteq> None)"

text \<open>Objects are written in the key order of \<^verbatim>\<open>serde_json\<close>'s map.\<close>

definition error_reply :: "json \<Rightarrow> int \<Rightarrow> string \<Rightarrow> json" where
  "error_reply i code message =
     JObject [(''error'', JObject [(''code'', JNumber (NegInt code)), (''message'', JString message)]),
              (''id'', i), (''jsonrpc'', JString ''2.0'')]"

definition result_reply :: "json \<Rightarrow> json \<Rightarrow> json" where
  "result_reply i r = JObject [(''id'', i), (''jsonrpc'', JString ''2.0''), (''result'', r)]"

definition INVALID_REQUEST :: int where "INVALID_REQUEST = - 32600"

definition BATCH_UNSUPPORTED :: string where
  "BATCH_UNSUPPORTED = ''batch requests are not supported: MCP removed JSON-RPC '' @
     ''batching in protocol revision 2025-06-18; send each message as its own line''"

definition batch_entry :: "json \<Rightarrow> json option" where
  "batch_entry item =
     (let error = (\<lambda>i. error_reply i INVALID_REQUEST BATCH_UNSUPPORTED) in
      case item of
        JObject obj \<Rightarrow>
          if map_of obj ''method'' \<noteq> None \<and> map_of obj ''id'' = None \<or> is_client_response item then None
          else Some (error (id_or_null item))
      | _ \<Rightarrow> Some (error JNull))"

definition batch_rejection :: "json list \<Rightarrow> json option" where
  "batch_rejection items =
     (if items = [] then Some (error_reply JNull INVALID_REQUEST BATCH_UNSUPPORTED)
      else let replies = List.map_filter batch_entry items
           in if replies = [] then None else Some (JArray replies))"

definition error_for_request :: "json_text \<Rightarrow> json \<Rightarrow> int \<Rightarrow> string \<Rightarrow> string" where
  "error_for_request lib msg code message = jt_to_string lib (error_reply (id_or_null msg) code message)"

definition same_id :: "json option \<Rightarrow> json option \<Rightarrow> bool" where
  "same_id a b = (case (a, b) of (Some x, Some y) \<Rightarrow> json_eq x y | (None, None) \<Rightarrow> True | _ \<Rightarrow> False)"

definition answers :: "json_text \<Rightarrow> json \<Rightarrow> string \<Rightarrow> bool" where
  "answers lib msg p =
     (case jt_from_str lib p of
        None \<Rightarrow> False
      | Some v \<Rightarrow> json_get v ''method'' = None \<and> same_id (json_get v ''id'') (json_get msg ''id''))"

definition answers_request :: "json_text \<Rightarrow> string list \<Rightarrow> json \<Rightarrow> bool" where
  "answers_request lib payloads msg = list_ex (answers lib msg) payloads"

section \<open>Local answers\<close>

definition DEFAULT_PROTOCOL_VERSION :: string where
  "DEFAULT_PROTOCOL_VERSION = ''2025-06-18''"

text \<open>\<open>server_version\<close> is \<^verbatim>\<open>CARGO_PKG_VERSION\<close>, \<open>instructions\<close> the fixed text \<^verbatim>\<open>LOCAL_INIT_INSTRUCTIONS\<close>.\<close>

definition local_initialize_response :: "string \<Rightarrow> string \<Rightarrow> json \<Rightarrow> json" where
  "local_initialize_response server_version instructions msg =
     (let version = (case Option.bind (Option.bind (json_get msg ''params'') (\<lambda>p. json_get p ''protocolVersion'')) json_as_str of
            Some v \<Rightarrow> v | None \<Rightarrow> DEFAULT_PROTOCOL_VERSION);
          changed = JObject [(''listChanged'', JBool True)]
      in result_reply (id_or_null msg)
           (JObject [(''capabilities'', JObject [(''resources'', changed), (''tools'', changed)]),
                     (''instructions'', JString instructions),
                     (''protocolVersion'', JString version),
                     (''serverInfo'', JObject [(''name'', JString ''victauri-bridge''), (''version'', JString server_version)])]))"

text \<open>\<open>parsed\<close> is what the baked tool list parses to (empty when it does not).\<close>

definition fallback_tool :: "json \<Rightarrow> json option" where
  "fallback_tool t =
     map_option (\<lambda>name. JObject [(''description'', JString (case get_str t ''description'' of Some d \<Rightarrow> d | None \<Rightarrow> [])),
                                (''inputSchema'', JObject [(''type'', JString ''object'')]),
                                (''name'', JString name)]) (get_str t ''name'')"

definition fallback_tools :: "json list \<Rightarrow> json list" where
  "fallback_tools parsed = List.map_filter fallback_tool parsed"

definition fallback_tools_response :: "json list \<Rightarrow> json \<Rightarrow> json" where
  "fallback_tools_response parsed i = result_reply i (JObject [(''tools'', JArray (fallback_tools parsed))])"

definition empty_list_response :: "string \<Rightarrow> json \<Rightarrow> json" where
  "empty_list_response method i =
     (let key = (if method = ''resources/list'' then ''resources''
                 else if method = ''resources/templates/list'' then ''resourceTemplates''
                 else if method = ''prompts/list'' then ''prompts''
                 else ''items'')
      in result_reply i (JObject [(key, JArray [])]))"


section \<open>Messages about the backend\<close>

definition pin_down_message :: "nat \<Rightarrow> string" where
  "pin_down_message port =
     ''Victauri backend not reachable: no running Victauri app answers on VICTAURI_PORT='' @ decimal port @
     ''. The pin is honoured, so no other running app was used. Start or restart that app, or '' @
     ''unset VICTAURI_PORT.''"

abbreviation em_dash :: string where "em_dash \<equiv> [CHR 0xE2, CHR 0x80, CHR 0x94]"

definition unreachable_message :: string where
  "unreachable_message =
     ''Victauri backend not reachable: no running Tauri app with the Victauri plugin (debug '' @
     ''build) was found. Start the app (e.g. `npm run tauri dev` / `pnpm tauri dev`); the bridge '' @
     ''connects automatically when it comes up '' @ em_dash @ '' no reconnect needed. If the app gates Victauri '' @
     ''behind a Cargo feature (`victauri init --optional`), start it with that feature '' @
     ''(`npm run tauri dev -- --features victauri` / `pnpm tauri dev --features victauri`). If several Victauri apps run, select one with '' @
     ''`--app <bundle-identifier>` or the VICTAURI_APP env var.''"

definition ambiguous_message :: "string list \<Rightarrow> string" where
  "ambiguous_message labels =
     ''Multiple Victauri apps are running:'' @ newline # ''  '' @ join (newline # ''  '') labels @ newline #
     ''Select one with `--app <bundle-identifier>` '' @
     ''or the VICTAURI_APP env var (an exact bundle identifier or product name). If two apps '' @
     ''share that identifier, stop one or pin the port with VICTAURI_PORT.''"

section \<open>One HTTP exchange\<close>

text \<open>
  A transport error with what \<^verbatim>\<open>reqwest\<close> says of it (\<^verbatim>\<open>is_connect\<close>, \<^verbatim>\<open>is_timeout\<close>), and a response; its
  body is read last and may fail.
\<close>

record transport_error =
  te_connect :: bool
  te_timeout :: bool
  te_text :: string

record http_reply =
  hr_status :: nat
  hr_session :: "string option"
  hr_content_type :: "string option"
  hr_body :: "transport_error + string"

record post_outcome =
  po_status :: nat
  po_session :: "string option"
  po_stale :: bool
  po_accepted :: bool
  po_payloads :: "string list"

definition is_tool_call :: "json \<Rightarrow> bool" where
  "is_tool_call msg \<longleftrightarrow> get_str msg ''method'' = Some ''tools/call''"

definition may_replay :: "json \<Rightarrow> transport_error \<Rightarrow> bool" where
  "may_replay msg e \<longleftrightarrow> message_method msg \<noteq> ''tools/call'' \<or> te_connect e"

text \<open>Durations are in milliseconds.\<close>

definition DEFAULT_REQUEST_TIMEOUT :: nat where "DEFAULT_REQUEST_TIMEOUT = 120000"
definition TOOL_CALL_DEFAULT_TIMEOUT :: nat where "TOOL_CALL_DEFAULT_TIMEOUT = 330000"
definition TOOL_TIMEOUT_HEADROOM :: nat where "TOOL_TIMEOUT_HEADROOM = 40000"
definition MAX_TOOL_TIMEOUT_MS :: nat where "MAX_TOOL_TIMEOUT_MS = 300000"

definition request_timeout_for :: "json \<Rightarrow> nat" where
  "request_timeout_for msg =
     (let fallback = (if is_tool_call msg then TOOL_CALL_DEFAULT_TIMEOUT else DEFAULT_REQUEST_TIMEOUT);
          timeout_ms = Option.bind (json_get msg ''params'') (\<lambda>p. Option.bind (json_get p ''arguments'')
            (\<lambda>a. Option.bind (json_get a ''timeout_ms'')
              (\<lambda>t. case t of JNumber n \<Rightarrow> number_as_u64 n | _ \<Rightarrow> None)))
      in case timeout_ms of
           None \<Rightarrow> fallback
         | Some ms \<Rightarrow> max DEFAULT_REQUEST_TIMEOUT (min ms MAX_TOOL_TIMEOUT_MS + TOOL_TIMEOUT_HEADROOM))"

definition undelivered_response_message :: "json \<Rightarrow> transport_error \<Rightarrow> bool \<Rightarrow> string" where
  "undelivered_response_message msg e app_still_up =
     (let what =
        (if te_timeout e then
           ''the tool call was sent to the app but no response arrived before the bridge'' @ apostrophe # ''s '' @
           decimal (request_timeout_for msg div 1000) @ ''s timeout''
         else if app_still_up then
           ''the tool call was sent to the app but the connection closed before a response '' @
           ''arrived (the app is still running '' @ em_dash @ '' it may have restarted or reloaded while handling '' @
           ''the call)''
         else
           ''the tool call was sent to the app, and the app exited before responding. This is the '' @
           ''expected outcome for a command that quits or restarts the app (e.g. a `quit_app` '' @
           ''command) '' @ em_dash @ '' it most likely ran'')
      in what @ ''. It was NOT retried, because it may already have taken effect and replaying '' @
         ''it could run it twice. Check the app'' @ apostrophe # ''s state (or its log) before calling it again. '' @
         ''(transport error: '' @ te_text e @ '')'')"

definition is_stale :: "nat \<Rightarrow> bool" where
  "is_stale status \<longleftrightarrow> status = 404 \<or> status = 409 \<or> status = 422"

text \<open>The payload of a line of an event stream.\<close>

definition sse_payload :: "json_text \<Rightarrow> string \<Rightarrow> string option" where
  "sse_payload lib line =
     Option.bind (strip_prefix ''data: '' line) (\<lambda>data.
       if str_trim data \<noteq> [] \<and> jt_from_str lib (str_trim data) \<noteq> None then Some (str_trim data) else None)"

definition reply_payloads :: "json_text \<Rightarrow> json \<Rightarrow> http_reply \<Rightarrow> string \<Rightarrow> string list" where
  "reply_payloads lib msg reply body =
     (if \<not> (200 \<le> hr_status reply \<and> hr_status reply < 300) then
        [error_for_request lib msg (- 32000) (''Victauri returned '' @ decimal (hr_status reply) @ '': '' @ body)]
      else if contains_str (case hr_content_type reply of Some t \<Rightarrow> t | None \<Rightarrow> []) ''text/event-stream'' then
        List.map_filter (sse_payload lib) (str_lines body)
      else (case jt_from_str lib (str_trim body) of Some v \<Rightarrow> [jt_to_string lib v] | None \<Rightarrow> []))"

definition post_result :: "json_text \<Rightarrow> json \<Rightarrow> transport_error + http_reply \<Rightarrow> transport_error + post_outcome" where
  "post_result lib msg r =
     (case r of
        Inl e \<Rightarrow> Inl e
      | Inr reply \<Rightarrow>
          let outcome = (\<lambda>payloads. \<lparr>po_status = hr_status reply, po_session = hr_session reply,
                po_stale = is_stale (hr_status reply), po_accepted = (hr_status reply = 202), po_payloads = payloads\<rparr>)
          in if is_stale (hr_status reply) \<or> hr_status reply = 202 then Inr (outcome [])
             else (case hr_body reply of
                     Inl e \<Rightarrow> Inl e
                   | Inr body \<Rightarrow> Inr (outcome (reply_payloads lib msg reply body))))"

section \<open>The world and the shared state\<close>

record shared =
  sh_session :: "string option"
  sh_init :: "json option"
  sh_stateless :: bool
  sh_verified :: "verified_backend option"

record 'w world =
  wd_probe :: "shared \<times> 'w \<Rightarrow> probe \<times> shared \<times> 'w"
  wd_post :: "nat \<Rightarrow> string option \<Rightarrow> string option \<Rightarrow> json \<Rightarrow> shared \<times> 'w \<Rightarrow> (transport_error + http_reply) \<times> shared \<times> 'w"
  wd_wait :: "shared \<times> 'w \<Rightarrow> shared \<times> 'w"

definition on_shared :: "(shared \<Rightarrow> shared) \<Rightarrow> shared \<times> 'w \<Rightarrow> shared \<times> 'w" where
  "on_shared f s = (f (fst s), snd s)"

definition post_message ::
  "json_text \<Rightarrow> 'w world \<Rightarrow> nat \<Rightarrow> string option \<Rightarrow> string option \<Rightarrow> json \<Rightarrow> shared \<times> 'w \<Rightarrow>
   (transport_error + post_outcome) \<times> shared \<times> 'w" where
  "post_message lib wd port token session_id msg s =
     (let (r, s) = wd_post wd port token session_id msg s in (post_result lib msg r, s))"

definition scan :: "'w world \<Rightarrow> string option \<Rightarrow> shared \<times> 'w \<Rightarrow> selection \<times> shared \<times> 'w" where
  "scan wd app s =
     (let (pb, s) = wd_probe wd s;
          (sel, cache) = scan_once app pb (sh_verified (fst s))
      in (sel, on_shared (\<lambda>sh. sh\<lparr>sh_verified := cache\<rparr>) s))"

text \<open>\<^verbatim>\<open>discover_and_select\<close> with \<^verbatim>\<open>wait\<close> false: \<open>k\<close> more attempts.\<close>

fun discover_and_select :: "'w world \<Rightarrow> string option \<Rightarrow> nat \<Rightarrow> shared \<times> 'w \<Rightarrow> (string + server_info) \<times> shared \<times> 'w" where
  "discover_and_select wd app 0 s = (Inl ''Could not connect to a matching Victauri server'', s)"
| "discover_and_select wd app (Suc k) s =
     (let (sel, s) = scan wd app s in
      case sel of
        Sel_One info \<Rightarrow> (Inr info, s)
      | Sel_None \<Rightarrow>
          if 0 < k then discover_and_select wd app k (wd_wait wd s)
          else (Inl (''Could not connect to Victauri server.'' @ newline #
            ''Is your Tauri app running (debug build)? Start it with e.g. '' @
            ''`npm run tauri dev` / `pnpm tauri dev`''), s)
      | Sel_Pin_Down port \<Rightarrow>
          if 0 < k then discover_and_select wd app k (wd_wait wd s) else (Inl (pin_down_message port), s)
      | Sel_Ambiguous labels \<Rightarrow> (Inl (ambiguous_message labels), s)
      | Sel_Refused why \<Rightarrow> (Inl why, s))"

definition clear_session_if :: "string option \<Rightarrow> shared \<Rightarrow> shared" where
  "clear_session_if used sh = (if sh_session sh = used then sh\<lparr>sh_session := None\<rparr> else sh)"

definition needs_session :: "shared \<Rightarrow> bool" where
  "needs_session sh \<longleftrightarrow> \<not> sh_stateless sh \<and> sh_session sh = None"

definition initialized_note :: json where
  "initialized_note = JObject [(''jsonrpc'', JString ''2.0''), (''method'', JString ''notifications/initialized'')]"

definition ensure_backend_session :: "json_text \<Rightarrow> 'w world \<Rightarrow> server_info \<Rightarrow> shared \<times> 'w \<Rightarrow> shared \<times> 'w" where
  "ensure_backend_session lib wd info s =
     (if \<not> needs_session (fst s) then s
      else
        let s = wd_wait wd s in
        if \<not> needs_session (fst s) then s
        else (case sh_init (fst s) of
          None \<Rightarrow> s
        | Some init \<Rightarrow>
            let (r, s) = post_message lib wd (sv_port info) (sv_token info) None init s in
            case r of
              Inl e \<Rightarrow> s
            | Inr out \<Rightarrow>
                let s = (case po_session out of
                      Some sid \<Rightarrow> on_shared (\<lambda>sh. sh\<lparr>sh_session := Some sid\<rparr>) s
                    | None \<Rightarrow> if \<not> po_stale out then on_shared (\<lambda>sh. sh\<lparr>sh_stateless := True\<rparr>) s else s)
                in snd (post_message lib wd (sv_port info) (sv_token info) (po_session out) initialized_note s)))"


section \<open>Forwarding\<close>

datatype forward_result = Payloads "string list" | Accepted | Unreachable string

definition MAX_RETRIES :: nat where "MAX_RETRIES = 4"

text \<open>What a response that is no stale session becomes.\<close>

definition relayed :: "json_text \<Rightarrow> json \<Rightarrow> post_outcome \<Rightarrow> forward_result" where
  "relayed lib msg out =
     (if po_accepted out then
        if \<not> expects_reply msg then Accepted
        else Payloads [error_for_request lib msg (- 32603) ''backend accepted the request with no response (HTTP 202)'']
      else if expects_reply msg \<and> po_payloads out = [] then
        Payloads [error_for_request lib msg (- 32603) ''backend returned an empty or non-JSON response'']
      else if expects_reply msg \<and> \<not> answers_request lib (po_payloads out) msg then
        Payloads (po_payloads out @ [error_for_request lib msg (- 32603)
          (''backend ended the response without answering this request; a tool call '' @ ''may already have taken effect'')])
      else Payloads (po_payloads out))"

text \<open>The body of the loop: return (\<open>Inl\<close>), or another attempt with a server (\<open>Inr\<close>).\<close>

definition forward_attempt ::
  "json_text \<Rightarrow> 'w world \<Rightarrow> string option \<Rightarrow> json \<Rightarrow> nat \<Rightarrow> server_info \<Rightarrow> shared \<times> 'w \<Rightarrow>
   (forward_result + server_info) \<times> shared \<times> 'w" where
  "forward_attempt lib wd app msg attempt info s =
     (let s = ensure_backend_session lib wd info s;
          sid = sh_session (fst s);
          (r, s) = post_message lib wd (sv_port info) (sv_token info) sid msg s
      in case r of
           Inr out \<Rightarrow>
             if po_stale out then
               let s = on_shared (clear_session_if sid) s
               in if attempt + 1 < MAX_RETRIES then
                    (case discover_and_select wd app 3 (wd_wait wd s) of
                       (Inr new_info, s) \<Rightarrow> (Inr new_info, s)
                     | (Inl _, s) \<Rightarrow> (Inr info, s))
                  else (Inr info, s)
             else
               (Inl (relayed lib msg out),
                (case po_session out of Some sid \<Rightarrow> on_shared (\<lambda>sh. sh\<lparr>sh_session := Some sid\<rparr>) s | None \<Rightarrow> s))
         | Inl e \<Rightarrow>
             let s = on_shared (clear_session_if sid) s in
             if \<not> may_replay msg e then
               let (sel, s) = scan wd app s;
                   still_up = (case sel of Sel_One _ \<Rightarrow> True | _ \<Rightarrow> False)
               in (Inl (Payloads [error_for_request lib msg (- 32000) (undelivered_response_message msg e still_up)]), s)
             else if attempt + 1 < MAX_RETRIES then
               (case discover_and_select wd app 3 (wd_wait wd s) of
                  (Inr new_info, s) \<Rightarrow> (Inr new_info, s)
                | (Inl _, s) \<Rightarrow> (Inl (Unreachable unreachable_message), s))
             else (Inr info, s))"

function forward_loop ::
  "json_text \<Rightarrow> 'w world \<Rightarrow> string option \<Rightarrow> json \<Rightarrow> nat \<Rightarrow> server_info \<Rightarrow> shared \<times> 'w \<Rightarrow> forward_result \<times> shared \<times> 'w" where
  "forward_loop lib wd app msg attempt info s =
     (if MAX_RETRIES \<le> attempt then (Unreachable unreachable_message, s)
      else (case forward_attempt lib wd app msg attempt info s of
              (Inl r, s) \<Rightarrow> (r, s)
            | (Inr info, s) \<Rightarrow> forward_loop lib wd app msg (attempt + 1) info s))"
  by pat_completeness auto
termination
  by (relation "measure (\<lambda>(lib, wd, app, msg, attempt, info, s). MAX_RETRIES - attempt)") auto

declare forward_loop.simps [simp del]

definition forward_with_retries ::
  "json_text \<Rightarrow> 'w world \<Rightarrow> string option \<Rightarrow> json \<Rightarrow> shared \<times> 'w \<Rightarrow> forward_result \<times> shared \<times> 'w" where
  "forward_with_retries lib wd app msg s =
     (let (sel, s) = scan wd app s in
      case sel of
        Sel_One info \<Rightarrow> forward_loop lib wd app msg 0 info s
      | Sel_Ambiguous labels \<Rightarrow> (Unreachable (ambiguous_message labels), s)
      | Sel_None \<Rightarrow> (Unreachable unreachable_message, s)
      | Sel_Pin_Down port \<Rightarrow> (Unreachable (pin_down_message port), s)
      | Sel_Refused why \<Rightarrow> (Unreachable why, s))"

definition forward_when_up ::
  "json_text \<Rightarrow> 'w world \<Rightarrow> string option \<Rightarrow> json \<Rightarrow> shared \<times> 'w \<Rightarrow> string list option \<times> shared \<times> 'w" where
  "forward_when_up lib wd app msg s =
     (let (r, s) = forward_with_retries lib wd app msg s
      in (case r of Payloads ps \<Rightarrow> Some ps | _ \<Rightarrow> None, s))"

text \<open>\<open>tools\<close> is the baked tool list.\<close>

definition handle_request ::
  "json_text \<Rightarrow> json list \<Rightarrow> 'w world \<Rightarrow> string option \<Rightarrow> json \<Rightarrow> shared \<times> 'w \<Rightarrow> string list \<times> shared \<times> 'w" where
  "handle_request lib tools wd app msg s =
     (let method = message_method msg; i = id_or_null msg in
      if method = ''tools/list'' then
        let (ps, s) = forward_when_up lib wd app msg s
        in (case ps of Some ps \<Rightarrow> ps | None \<Rightarrow> [jt_to_string lib (fallback_tools_response tools i)], s)
      else if method = ''resources/list'' \<or> method = ''resources/templates/list'' \<or> method = ''prompts/list'' then
        let (ps, s) = forward_when_up lib wd app msg s
        in (case ps of Some ps \<Rightarrow> ps | None \<Rightarrow> [jt_to_string lib (empty_list_response method i)], s)
      else
        let (r, s) = forward_with_retries lib wd app msg s
        in (case r of
              Payloads ps \<Rightarrow> ps
            | Accepted \<Rightarrow> [error_for_request lib msg (- 32603) ''backend accepted the request with no response (HTTP 202)'']
            | Unreachable why \<Rightarrow> [error_for_request lib msg (- 32000) why], s))"

section \<open>Every request is answered\<close>

text \<open>
  JSON without floating-point numbers is what \<^verbatim>\<open>serde_json\<close> reads back exactly (its parser does not
  promise to round a float correctly).
\<close>

fun float_free :: "json \<Rightarrow> bool" where
  "float_free (JNumber n) \<longleftrightarrow> (case n of Float _ \<Rightarrow> False | _ \<Rightarrow> True)"
| "float_free (JArray xs) \<longleftrightarrow> list_all float_free xs"
| "float_free (JObject m) \<longleftrightarrow> list_all (\<lambda>kv. float_free (snd kv)) m"
| "float_free _ \<longleftrightarrow> True"

definition reads_back :: "json_text \<Rightarrow> bool" where
  "reads_back lib \<longleftrightarrow> (\<forall>v. wf_json v \<longrightarrow> float_free v \<longrightarrow> jt_from_str lib (jt_to_string lib v) = Some v)"

text \<open>A request with an id as JSON-RPC has it.\<close>

definition proper_request :: "json \<Rightarrow> bool" where
  "proper_request msg \<longleftrightarrow> expects_reply msg \<and> wf_json (id_or_null msg) \<and> float_free (id_or_null msg)"

lemma same_id_request: "proper_request msg \<Longrightarrow> same_id (Some (id_or_null msg)) (json_get msg ''id'')"
  by (auto simp: proper_request_def expects_reply_def id_or_null_def same_id_def json_eq_refl)

lemma error_for_request_answers:
  assumes "reads_back lib" "proper_request msg" "- (2 ^ 63) \<le> code" "code < 0"
  shows "answers lib msg (error_for_request lib msg code message)"
proof -
  have "wf_json (error_reply (id_or_null msg) code message)" "float_free (error_reply (id_or_null msg) code message)"
    using assms by (simp_all add: error_reply_def proper_request_def)
  then show ?thesis
    using assms(1) same_id_request [OF assms(2)]
    by (simp add: answers_def error_for_request_def reads_back_def) (simp add: error_reply_def)
qed


lemma result_reply_answers:
  assumes "reads_back lib" "proper_request msg" "wf_json r" "float_free r"
  shows "answers lib msg (jt_to_string lib (result_reply (id_or_null msg) r))"
proof -
  have "wf_json (result_reply (id_or_null msg) r)" "float_free (result_reply (id_or_null msg) r)"
    using assms by (simp_all add: result_reply_def proper_request_def)
  then show ?thesis
    using assms(1) same_id_request [OF assms(2)]
    by (simp add: answers_def reads_back_def) (simp add: result_reply_def)
qed

lemma fallback_tools_exact: "wf_json (JArray (fallback_tools parsed)) \<and> float_free (JArray (fallback_tools parsed))"
proof -
  have "wf_json t \<and> float_free t" if "t \<in> set (fallback_tools parsed)" for t
    using that by (auto simp: fallback_tools_def List.map_filter_def fallback_tool_def)
  then show ?thesis by (simp add: list_all_iff)
qed

lemma relayed_answers:
  assumes "reads_back lib" "proper_request msg"
  shows "\<exists>ps. relayed lib msg out = Payloads ps \<and> answers_request lib ps msg"
  using error_for_request_answers [OF assms, of "- 32603"] assms(2)
  by (auto simp: relayed_def proper_request_def answers_request_def list_ex_iff)

lemma forward_attempt_answers:
  assumes "reads_back lib" "proper_request msg"
    and "forward_attempt lib wd app msg attempt info s = (Inl (Payloads ps), s')"
  shows "answers_request lib ps msg"
proof -
  have "answers_request lib [error_for_request lib msg (- 32000) m] msg" for m
    using error_for_request_answers [OF assms(1,2), of "- 32000"] by (simp add: answers_request_def)
  moreover have "answers_request lib ps' msg" if "relayed lib msg out = Payloads ps'" for out ps'
    using relayed_answers [OF assms(1,2), of out] that by auto
  ultimately show ?thesis
    using assms(3) by (auto simp: forward_attempt_def Let_def split: prod.splits sum.splits if_splits)
qed

lemma forward_loop_answers:
  assumes "reads_back lib" "proper_request msg"
  shows "forward_loop lib wd app msg attempt info s = (Payloads ps, s') \<Longrightarrow> answers_request lib ps msg"
proof (induction "MAX_RETRIES - attempt" arbitrary: attempt info s rule: less_induct)
  case less
  show ?case
  proof (cases "MAX_RETRIES \<le> attempt")
    case True
    then show ?thesis using less.prems by (simp add: forward_loop.simps)
  next
    case False
    obtain r t where r: "forward_attempt lib wd app msg attempt info s = (r, t)" by (cases "forward_attempt lib wd app msg attempt info s")
    show ?thesis
    proof (cases r)
      case (Inl out)
      then show ?thesis
        using less.prems False r forward_attempt_answers [OF assms, of wd app attempt info s ps s']
        by (simp add: forward_loop.simps [of lib wd app msg attempt])
    next
      case (Inr new_info)
      then show ?thesis
        using less.hyps [of "attempt + 1" new_info t] less.prems False r
        by (simp add: forward_loop.simps [of lib wd app msg attempt])
    qed
  qed
qed

lemma forward_with_retries_answers:
  assumes "reads_back lib" "proper_request msg"
    and "forward_with_retries lib wd app msg s = (Payloads ps, s')"
  shows "answers_request lib ps msg"
  using assms(3)
  by (auto simp: forward_with_retries_def Let_def split: prod.splits selection.splits
      intro: forward_loop_answers [OF assms(1,2)])

text \<open>
  No request of the client is left hanging.  Whatever the world does, the reply lines the bridge
  writes for a request include an answer to its id: the backend's own, a placeholder list, or an
  error, also when the backend accepts without a body, ends a stream early, or is away.
\<close>

theorem every_request_is_answered:
  assumes "reads_back lib" "proper_request msg"
  shows "answers_request lib (fst (handle_request lib tools wd app msg s)) msg"
proof -
  obtain r s' where r: "forward_with_retries lib wd app msg s = (r, s')"
    by (cases "forward_with_retries lib wd app msg s")
  have tools_reply: "answers lib msg (jt_to_string lib (fallback_tools_response tools (id_or_null msg)))"
    using assms fallback_tools_exact [of tools]
    unfolding fallback_tools_response_def by (intro result_reply_answers) simp_all
  have empty_reply: "answers lib msg (jt_to_string lib (empty_list_response m (id_or_null msg)))" for m
    using assms unfolding empty_list_response_def Let_def by (intro result_reply_answers) simp_all
  show ?thesis
    using error_for_request_answers [OF assms, of "- 32603"] error_for_request_answers [OF assms, of "- 32000"]
      tools_reply empty_reply forward_with_retries_answers [OF assms, of wd app s _ s']
    by (cases r) (simp_all add: handle_request_def forward_when_up_def Let_def r answers_request_def)
qed


text \<open>An instance of the law, and a tool call while no app is running.\<close>

definition codec :: json_text where
  "codec = \<lparr>jt_from_str = decode, jt_to_string = enc\<rparr>"

lemma codable_exact: "wf_json v \<Longrightarrow> float_free v \<Longrightarrow> codable v"
proof (induction v rule: codable.induct)
  case (1 n)
  then show ?case by (cases n) simp_all
qed (auto simp: list_all_iff)

lemma codec_reads_back: "reads_back codec"
  by (simp add: reads_back_def codec_def decode_enc codable_exact)

definition quiet_probe :: probe where
  "quiet_probe = \<lparr>pb_port_env = Some ''7'', pb_token_env = None, pb_roots = [], pb_alive_pids = None,
     pb_process_alive = (\<lambda>_. False), pb_health = (\<lambda>_. Some 200), pb_info = (\<lambda>_ _. None), pb_ask_info = (\<lambda>_ _ _. Info_Unknown)\<rparr>"

text \<open>A world whose app drops the connection after it got the message.\<close>

definition dropping_world :: "unit world" where
  "dropping_world = \<lparr>wd_probe = (\<lambda>s. (quiet_probe, s)),
     wd_post = (\<lambda>_ _ _ _ s. (Inl \<lparr>te_connect = False, te_timeout = False, te_text = ''closed''\<rparr>, s)), wd_wait = (\<lambda>s. s)\<rparr>"

definition fresh_bridge :: shared where
  "fresh_bridge = \<lparr>sh_session = None, sh_init = None, sh_stateless = False, sh_verified = None\<rparr>"

definition sample_call :: json where
  "sample_call = JObject [(''id'', JNumber (PosInt 1)), (''method'', JString ''tools/call'')]"

theorem every_request_is_answered_witness:
  "answers_request codec (fst (handle_request codec [] dropping_world None sample_call (fresh_bridge, ()))) sample_call"
proof -
  have "proper_request sample_call"
    by (simp add: proper_request_def expects_reply_def id_or_null_def sample_call_def)
  then show ?thesis by (rule every_request_is_answered [OF codec_reads_back])
qed

section \<open>What a forward does to the world\<close>

text \<open>A world that also records what was read and sent.\<close>

datatype event =
    Probed probe
  | Posted nat "string option" json "transport_error + http_reply"

type_synonym 'w log_state = "shared \<times> 'w \<times> event list"

definition event_log :: "'w log_state \<Rightarrow> event list" where
  "event_log s = snd (snd s)"

definition logged :: "'w world \<Rightarrow> ('w \<times> event list) world" where
  "logged wd =
     \<lparr>wd_probe = (\<lambda>(sh, w, es). let (pb, sh', w') = wd_probe wd (sh, w) in (pb, sh', w', es @ [Probed pb])),
      wd_post = (\<lambda>port token sid msg (sh, w, es).
        let (r, sh', w') = wd_post wd port token sid msg (sh, w) in (r, sh', w', es @ [Posted port token msg r])),
      wd_wait = (\<lambda>(sh, w, es). let (sh', w') = wd_wait wd (sh, w) in (sh', w', es))\<rparr>"

text \<open>
  What the bridge's other tasks may do to the shared state meanwhile: mint and drop sessions at will;
  store an identity only once its server confirmed it (\<open>known\<close> holds such keys); cache only the client's
  \<^verbatim>\<open>initialize\<close>.
\<close>

definition init_ok :: "shared \<Rightarrow> bool" where
  "init_ok sh \<longleftrightarrow> (case sh_init sh of None \<Rightarrow> True | Some i \<Rightarrow> \<not> is_tool_call i)"

definition others_ok :: "(verified_backend \<Rightarrow> bool) \<Rightarrow> shared \<Rightarrow> shared \<Rightarrow> bool" where
  "others_ok known sh sh' \<longleftrightarrow>
     (sh_verified sh' = sh_verified sh \<or> (case sh_verified sh' of None \<Rightarrow> True | Some key \<Rightarrow> known key)) \<and>
     (sh_init sh' = sh_init sh \<or> init_ok sh')"

text \<open>
  An error while a body is read is none of the connection: \<^verbatim>\<open>is_connect\<close> is about establishing one.
\<close>

definition sane_result :: "transport_error + http_reply \<Rightarrow> bool" where
  "sane_result r \<longleftrightarrow>
     (case r of Inl _ \<Rightarrow> True | Inr reply \<Rightarrow> (case hr_body reply of Inl e \<Rightarrow> \<not> te_connect e | Inr _ \<Rightarrow> True))"

definition fair_world :: "(verified_backend \<Rightarrow> bool) \<Rightarrow> 'w world \<Rightarrow> bool" where
  "fair_world known wd \<longleftrightarrow>
     (\<forall>s. others_ok known (fst s) (fst (snd (wd_probe wd s)))) \<and>
     (\<forall>s. others_ok known (fst s) (fst (wd_wait wd s))) \<and>
     (\<forall>port token sid msg s. others_ok known (fst s) (fst (snd (wd_post wd port token sid msg s))) \<and>
        sane_result (fst (wd_post wd port token sid msg s)))"

text \<open>The server of \<open>info\<close> said on \<^verbatim>\<open>/info\<close> that it is the app.\<close>

definition says_it_is :: "probe \<Rightarrow> server_info \<Rightarrow> string \<Rightarrow> bool" where
  "says_it_is pb info app \<longleftrightarrow>
     (\<exists>i name. fetch_identity pb (sv_port info) (sv_token info) = Some (i, name) \<and> identity_matches i name app)"

definition selected :: "(verified_backend \<Rightarrow> bool) \<Rightarrow> string option \<Rightarrow> server_info \<Rightarrow> event list \<Rightarrow> bool" where
  "selected known app info es \<longleftrightarrow>
     (\<exists>pb. Probed pb \<in> set es \<and> chosen app pb info) \<and>
     (case app of None \<Rightarrow> True
      | Some a \<Rightarrow> known (identity_key info a) \<or> (\<exists>pb. Probed pb \<in> set es \<and> says_it_is pb info a))"

text \<open>Every message went to a server selected before.\<close>

definition posts_selected :: "(verified_backend \<Rightarrow> bool) \<Rightarrow> string option \<Rightarrow> event list \<Rightarrow> bool" where
  "posts_selected known app es \<longleftrightarrow>
     (\<forall>es1 port token msg r es2. es = es1 @ Posted port token msg r # es2 \<longrightarrow>
        (\<exists>info. selected known app info es1 \<and> sv_port info = port \<and> sv_token info = token))"

definition cache_ok :: "(verified_backend \<Rightarrow> bool) \<Rightarrow> shared \<Rightarrow> event list \<Rightarrow> bool" where
  "cache_ok known sh es \<longleftrightarrow>
     (case sh_verified sh of None \<Rightarrow> True
      | Some key \<Rightarrow> known key \<or> (\<exists>pb info a. Probed pb \<in> set es \<and> key = identity_key info a \<and> says_it_is pb info a))"

definition bridge_inv :: "(verified_backend \<Rightarrow> bool) \<Rightarrow> string option \<Rightarrow> 'w log_state \<Rightarrow> bool" where
  "bridge_inv known app s \<longleftrightarrow>
     posts_selected known app (event_log s) \<and> cache_ok known (fst s) (event_log s) \<and> init_ok (fst s)"

text \<open>The message reached the app: neither the connection failed nor was the session refused.\<close>

definition delivered :: "json \<Rightarrow> event \<Rightarrow> bool" where
  "delivered msg ev \<longleftrightarrow>
     (case ev of Probed _ \<Rightarrow> False
      | Posted _ _ m r \<Rightarrow> m = msg \<and> (case r of Inl e \<Rightarrow> \<not> te_connect e | Inr reply \<Rightarrow> \<not> is_stale (hr_status reply)))"

definition deliveries :: "json \<Rightarrow> 'w log_state \<Rightarrow> nat" where
  "deliveries msg s = length (filter (delivered msg) (event_log s))"

lemma selected_mono: "selected known app info es \<Longrightarrow> set es \<subseteq> set es' \<Longrightarrow> selected known app info es'"
  by (auto simp: selected_def split: option.splits)

lemma posts_selected_snoc:
  "posts_selected known app (es @ [ev]) \<longleftrightarrow> posts_selected known app es \<and>
     (case ev of Probed _ \<Rightarrow> True
      | Posted port token _ _ \<Rightarrow> \<exists>info. selected known app info es \<and> sv_port info = port \<and> sv_token info = token)"
  (is "?l \<longleftrightarrow> ?r")
proof
  assume ?l
  then have all: "\<exists>info. selected known app info es1 \<and> sv_port info = port \<and> sv_token info = token"
    if "es @ [ev] = es1 @ Posted port token msg r # es2" for es1 port token msg r es2
    using that unfolding posts_selected_def by blast
  have "posts_selected known app es"
    unfolding posts_selected_def using all [of _ _ _ _ _ "_ @ [ev]"] by simp
  then show ?r using all [of es _ _ _ _ "[]"] by (auto split: event.splits)
next
  assume r: ?r
  show ?l
    unfolding posts_selected_def
  proof (intro allI impI)
    fix es1 port token msg r es2
    assume "es @ [ev] = es1 @ Posted port token msg r # es2"
    then show "\<exists>info. selected known app info es1 \<and> sv_port info = port \<and> sv_token info = token"
      using r by (cases es2 rule: rev_cases) (auto simp: posts_selected_def)
  qed
qed

lemma cache_ok_mono:
  "cache_ok known sh es \<Longrightarrow> set es \<subseteq> set es' \<Longrightarrow> others_ok known sh sh' \<Longrightarrow> cache_ok known sh' es'"
  unfolding cache_ok_def others_ok_def by (auto split: option.splits; blast)

lemma init_ok_others: "init_ok sh \<Longrightarrow> others_ok known sh sh' \<Longrightarrow> init_ok sh'"
  by (auto simp: others_ok_def init_ok_def)

lemma fair_worldD:
  assumes "fair_world known wd"
  shows "wd_probe wd s = (pb, s') \<Longrightarrow> others_ok known (fst s) (fst s')"
    "wd_wait wd s = s' \<Longrightarrow> others_ok known (fst s) (fst s')"
    "wd_post wd port token sid msg s = (r, s') \<Longrightarrow> others_ok known (fst s) (fst s') \<and> sane_result r"
  using assms by (metis fair_world_def fst_conv snd_conv)+

text \<open>One step of the world.\<close>

lemma logged_probe:
  assumes "fair_world known wd" "bridge_inv known app s" "wd_probe (logged wd) s = (pb, s')"
  shows "bridge_inv known app s' \<and> event_log s' = event_log s @ [Probed pb]"
proof -
  obtain sh w es where s: "s = (sh, w, es)" by (cases s)
  obtain sh' w' where p: "wd_probe wd (sh, w) = (pb, sh', w')" "s' = (sh', w', es @ [Probed pb])"
    using assms(3) by (auto simp: s logged_def split: prod.splits)
  have "others_ok known sh sh'" using fair_worldD(1) [OF assms(1) p(1)] by simp
  then show ?thesis
    using assms(2) p(2) cache_ok_mono [of known sh es "es @ [Probed pb]" sh'] init_ok_others [of sh known sh']
    by (auto simp: s bridge_inv_def event_log_def posts_selected_snoc)
qed

lemma logged_wait:
  assumes "fair_world known wd" "bridge_inv known app s"
  shows "bridge_inv known app (wd_wait (logged wd) s) \<and> event_log (wd_wait (logged wd) s) = event_log s"
proof -
  obtain sh w es where s: "s = (sh, w, es)" by (cases s)
  obtain sh' w' where p: "wd_wait wd (sh, w) = (sh', w')" by fastforce
  have "others_ok known sh sh'" using fair_worldD(2) [OF assms(1) p] by simp
  then show ?thesis
    using assms(2) p cache_ok_mono [of known sh es es sh'] init_ok_others [of sh known sh']
    by (auto simp: s logged_def bridge_inv_def event_log_def)
qed

lemma logged_post:
  assumes "fair_world known wd" "bridge_inv known app s" "selected known app info (event_log s)"
    and "wd_post (logged wd) (sv_port info) (sv_token info) sid msg s = (r, s')"
  shows "bridge_inv known app s' \<and>
    event_log s' = event_log s @ [Posted (sv_port info) (sv_token info) msg r] \<and> sane_result r"
proof -
  obtain sh w es where s: "s = (sh, w, es)" by (cases s)
  let ?ev = "Posted (sv_port info) (sv_token info) msg r"
  obtain sh' w' where p: "wd_post wd (sv_port info) (sv_token info) sid msg (sh, w) = (r, sh', w')" "s' = (sh', w', es @ [?ev])"
    using assms(4) by (auto simp: s logged_def split: prod.splits)
  have "others_ok known sh sh'" "sane_result r" using fair_worldD(3) [OF assms(1) p(1)] by simp_all
  then show ?thesis
    using assms(2,3) p(2) cache_ok_mono [of known sh es "es @ [?ev]" sh'] init_ok_others [of sh known sh']
    by (auto simp: s bridge_inv_def event_log_def posts_selected_snoc)
qed

text \<open>An update of the session state.\<close>

lemma bridge_inv_on_shared:
  assumes "bridge_inv known app s" "sh_verified (f (fst s)) = sh_verified (fst s)" "sh_init (f (fst s)) = sh_init (fst s)"
  shows "bridge_inv known app (on_shared f s) \<and> event_log (on_shared f s) = event_log s"
  using assms by (simp add: bridge_inv_def on_shared_def event_log_def cache_ok_def init_ok_def)

lemma clear_session_keeps [simp]:
  "sh_verified (clear_session_if sid sh) = sh_verified sh" "sh_init (clear_session_if sid sh) = sh_init sh"
  by (simp_all add: clear_session_if_def)


text \<open>A scan.\<close>

lemma confirm_identity_cache:
  "confirm_identity pb info app cache = (r, cache') \<Longrightarrow>
   cache' = cache \<or> cache' = None \<or> cache' = Some (identity_key info app) \<and> says_it_is pb info app"
  by (auto simp: confirm_identity_def says_it_is_def Let_def split: if_splits option.splits)

lemma scan_once_cache:
  assumes "scan_once app pb cache = (sel, cache')"
  shows "cache' = cache \<or> cache' = None \<or>
    (\<exists>info a. cache' = Some (identity_key info a) \<and> says_it_is pb info a)"
  using assms confirm_identity_cache [of pb _ _ cache]
  by (auto simp: scan_once_def port_override_def Let_def
      split: if_splits option.splits selection.splits sum.splits prod.splits) metis+

lemma identity_key_says:
  assumes "identity_key info a = identity_key info' a'" "says_it_is pb info' a'"
  shows "says_it_is pb info a"
proof -
  have "map to_ascii_lower a = map to_ascii_lower a'" "sv_port info = sv_port info'" "sv_token info = sv_token info'"
    using assms(1) by (simp_all add: identity_key_def)
  moreover have eq: "eq_ignore_ascii_case x a = eq_ignore_ascii_case x a'" for x
    by (simp only: eq_ignore_ascii_case_def calculation(1))
  have "identity_matches i name a = identity_matches i name a'" for i name
    unfolding identity_matches_def eq [symmetric] ..
  with calculation show ?thesis using assms(2) by (simp add: says_it_is_def)
qed

lemma scan_step:
  assumes "fair_world known wd" "bridge_inv known app s" "scan (logged wd) app s = (sel, s')"
  shows "bridge_inv known app s' \<and> (\<exists>pb. event_log s' = event_log s @ [Probed pb]) \<and>
    (\<forall>info. sel = Sel_One info \<longrightarrow> selected known app info (event_log s'))"
proof -
  obtain pb t where pb: "wd_probe (logged wd) s = (pb, t)" by (cases "wd_probe (logged wd) s")
  obtain cache where sel: "scan_once app pb (sh_verified (fst t)) = (sel, cache)"
      "s' = on_shared (\<lambda>sh. sh\<lparr>sh_verified := cache\<rparr>) t"
    using assms(3) pb by (auto simp: scan_def split: prod.splits)
  note t = logged_probe [OF assms(1,2) pb]
  then have log: "event_log s' = event_log s @ [Probed pb]" by (simp add: sel(2) on_shared_def event_log_def)
  have probed: "Probed pb \<in> set (event_log t)" using t by simp
  have before: "cache_ok known (fst t) (event_log t)" using t unfolding bridge_inv_def by blast
  have cache: "cache_ok known (fst s') (event_log t)"
  proof (cases cache)
    case (Some key)
    then consider "sh_verified (fst t) = Some key" | info a where "key = identity_key info a" "says_it_is pb info a"
      using scan_once_cache [OF sel(1)] by auto
    then show ?thesis
    proof cases
      case 1
      then show ?thesis using before Some by (simp add: sel(2) on_shared_def cache_ok_def)
    next
      case 2
      then have "\<exists>pb info a. Probed pb \<in> set (event_log t) \<and> key = identity_key info a \<and> says_it_is pb info a"
        using probed by blast
      then show ?thesis using Some by (simp add: sel(2) on_shared_def cache_ok_def)
    qed
  qed (simp add: sel(2) on_shared_def cache_ok_def)
  have "selected known app info (event_log t)" if One: "sel = Sel_One info" for info
  proof -
    have c: "chosen app pb info" "case app of None \<Rightarrow> True | Some a \<Rightarrow> confirmed pb info a (sh_verified (fst t))"
      using scan_selects_verified sel(1) One by blast+
    have "known (identity_key info a) \<or> (\<exists>pb. Probed pb \<in> set (event_log t) \<and> says_it_is pb info a)" if "app = Some a" for a
    proof (cases "says_it_is pb info a")
      case False
      then have "sh_verified (fst t) = Some (identity_key info a)"
        using c(2) that by (auto simp: confirmed_def says_it_is_def)
      then have "known (identity_key info a) \<or> (\<exists>pb info' a'. Probed pb \<in> set (event_log t) \<and>
          identity_key info a = identity_key info' a' \<and> says_it_is pb info' a')"
        using before by (simp add: cache_ok_def)
      then show ?thesis using identity_key_says by blast
    qed (use probed in blast)
    then show ?thesis using c(1) probed by (auto simp: selected_def split: option.splits)
  qed
  then show ?thesis
    using t cache log by (auto simp: bridge_inv_def sel(2) on_shared_def init_ok_def event_log_def)
qed

lemma deliveries_probed: "event_log s' = event_log s @ [Probed pb] \<Longrightarrow> deliveries msg s' = deliveries msg s"
  by (simp add: deliveries_def delivered_def)

text \<open>
  The relation of two states of a forward: the invariant is kept, nothing is forgotten, and the
  message was delivered at most \<open>n\<close> times meanwhile.
\<close>

definition steps_to :: "(verified_backend \<Rightarrow> bool) \<Rightarrow> string option \<Rightarrow> json \<Rightarrow> nat \<Rightarrow> 'w log_state \<Rightarrow> 'w log_state \<Rightarrow> bool" where
  "steps_to known app msg n s s' \<longleftrightarrow>
     bridge_inv known app s' \<and> set (event_log s) \<subseteq> set (event_log s') \<and> deliveries msg s' \<le> deliveries msg s + n"

lemma steps_to_refl: "bridge_inv known app s \<Longrightarrow> steps_to known app msg 0 s s"
  by (simp add: steps_to_def)

lemma steps_to_trans:
  "steps_to known app msg m s t \<Longrightarrow> steps_to known app msg n t u \<Longrightarrow> steps_to known app msg (m + n) s u"
  by (auto simp: steps_to_def)

lemma steps_to_inv: "steps_to known app msg n s t \<Longrightarrow> bridge_inv known app t"
  by (simp add: steps_to_def)

lemma steps_to_selected:
  "selected known app info (event_log s) \<Longrightarrow> steps_to known app msg n s t \<Longrightarrow> selected known app info (event_log t)"
  by (auto simp: steps_to_def intro: selected_mono)

lemma steps_to_same_log:
  "bridge_inv known app t \<and> event_log t = event_log s \<Longrightarrow> steps_to known app msg 0 s t"
  by (simp add: steps_to_def deliveries_def)

lemma scan_steps:
  assumes "fair_world known wd" "bridge_inv known app s" "scan (logged wd) app s = (sel, s')"
  shows "steps_to known app msg 0 s s' \<and> (\<forall>info. sel = Sel_One info \<longrightarrow> selected known app info (event_log s'))"
  using scan_step [OF assms] by (auto simp: steps_to_def deliveries_probed)

lemma wait_steps:
  "fair_world known wd \<Longrightarrow> bridge_inv known app s \<Longrightarrow> steps_to known app msg 0 s (wd_wait (logged wd) s)"
  by (rule steps_to_same_log [OF logged_wait])

lemma discover_steps:
  assumes "fair_world known wd"
  shows "bridge_inv known app s \<Longrightarrow> discover_and_select (logged wd) app k s = (r, s') \<Longrightarrow>
    steps_to known app msg 0 s s' \<and> (\<forall>info. r = Inr info \<longrightarrow> selected known app info (event_log s'))"
proof (induction k arbitrary: s)
  case 0
  then show ?case by (auto intro: steps_to_refl)
next
  case (Suc k)
  obtain sel t where sel: "scan (logged wd) app s = (sel, t)" by (cases "scan (logged wd) app s")
  note t = scan_steps [OF assms Suc.prems(1) sel, of msg]
  then have w: "steps_to known app msg 0 t (wd_wait (logged wd) t)"
    using wait_steps [OF assms] steps_to_inv by blast
  have IH: "discover_and_select (logged wd) app k (wd_wait (logged wd) t) = (r, s') \<Longrightarrow>
      steps_to known app msg 0 s s' \<and> (\<forall>info. r = Inr info \<longrightarrow> selected known app info (event_log s'))"
    using Suc.IH [OF steps_to_inv [OF w]] steps_to_trans [OF conjunct1 [OF t] w] steps_to_trans
    by (metis add.right_neutral)
  show ?case
    using Suc.prems(2) t IH sel by (cases sel) (auto split: if_splits)
qed


text \<open>A message sent, a session established, an attempt.\<close>

definition result_delivered :: "transport_error + http_reply \<Rightarrow> bool" where
  "result_delivered r \<longleftrightarrow> (case r of Inl e \<Rightarrow> \<not> te_connect e | Inr reply \<Rightarrow> \<not> is_stale (hr_status reply))"

lemma post_steps:
  assumes "fair_world known wd" "bridge_inv known app s" "selected known app info (event_log s)"
    and "post_message lib (logged wd) (sv_port info) (sv_token info) sid m s = (out, s')"
  shows "\<exists>r. out = post_result lib m r \<and> sane_result r \<and>
    steps_to known app msg (if m = msg \<and> result_delivered r then 1 else 0) s s'"
proof -
  obtain r where r: "wd_post (logged wd) (sv_port info) (sv_token info) sid m s = (r, s')" "out = post_result lib m r"
    using assms(4) by (auto simp: post_message_def split: prod.splits)
  then show ?thesis
    using logged_post [OF assms(1,2,3) r(1)]
    by (intro exI [of _ r]) (auto simp: steps_to_def deliveries_def delivered_def result_delivered_def)
qed

lemma note_is_no_call: "\<not> is_tool_call initialized_note"
  by (simp add: is_tool_call_def get_str_def initialized_note_def)

lemma shared_steps:
  assumes "bridge_inv known app s" "\<And>sh. sh_verified (f sh) = sh_verified sh" "\<And>sh. sh_init (f sh) = sh_init sh"
  shows "steps_to known app msg 0 s (on_shared f s)"
  using bridge_inv_on_shared [of known app s f] assms by (intro steps_to_same_log) blast

lemma ensure_steps:
  assumes "fair_world known wd" "bridge_inv known app s" "selected known app info (event_log s)" "is_tool_call msg"
  shows "steps_to known app msg 0 s (ensure_backend_session lib (logged wd) info s)"
proof -
  let ?s1 = "wd_wait (logged wd) s"
  have s1: "steps_to known app msg 0 s ?s1" by (rule wait_steps [OF assms(1,2)])
  show ?thesis
  proof (cases "needs_session (fst s) \<and> needs_session (fst ?s1)")
    case False
    then show ?thesis
      using s1 steps_to_refl [OF assms(2)] by (auto simp: ensure_backend_session_def Let_def)
  next
    case needs: True
    show ?thesis
    proof (cases "sh_init (fst ?s1)")
      case None
      then show ?thesis using s1 needs by (simp add: ensure_backend_session_def Let_def)
    next
      case (Some init)
      have init: "init \<noteq> msg"
        using steps_to_inv [OF s1] Some assms(4) by (auto simp: bridge_inv_def init_ok_def)
      obtain out s2 where post: "post_message lib (logged wd) (sv_port info) (sv_token info) None init ?s1 = (out, s2)"
        by (cases "post_message lib (logged wd) (sv_port info) (sv_token info) None init ?s1")
      have s2: "steps_to known app msg 0 s s2"
        using post_steps [OF assms(1) steps_to_inv [OF s1] steps_to_selected [OF assms(3) s1] post, of msg] init
          steps_to_trans [OF s1] by fastforce
      show ?thesis
      proof (cases out)
        case (Inl e)
        then show ?thesis using needs Some post s2 by (simp add: ensure_backend_session_def Let_def)
      next
        case (Inr o1)
        let ?s3 = "case po_session o1 of
            Some sid \<Rightarrow> on_shared (\<lambda>sh. sh\<lparr>sh_session := Some sid\<rparr>) s2
          | None \<Rightarrow> if \<not> po_stale o1 then on_shared (\<lambda>sh. sh\<lparr>sh_stateless := True\<rparr>) s2 else s2"
        have s3: "steps_to known app msg 0 s ?s3"
          using steps_to_trans [OF s2 shared_steps [OF steps_to_inv [OF s2]]] s2 by (simp split: option.splits)
        obtain out' s4 where post': "post_message lib (logged wd) (sv_port info) (sv_token info) (po_session o1) initialized_note ?s3 = (out', s4)"
          by (cases "post_message lib (logged wd) (sv_port info) (sv_token info) (po_session o1) initialized_note ?s3")
        have "initialized_note \<noteq> msg" using note_is_no_call assms(4) by blast
        then have "steps_to known app msg 0 s s4"
          using post_steps [OF assms(1) steps_to_inv [OF s3] steps_to_selected [OF assms(3) s3] post', of msg]
            steps_to_trans [OF s3] by fastforce
        then show ?thesis using needs Some post post' Inr by (simp add: ensure_backend_session_def Let_def)
      qed
    qed
  qed
qed


text \<open>A tool call that was delivered is not replayed.\<close>

lemma tool_call_method: "is_tool_call msg \<Longrightarrow> message_method msg = ''tools/call''"
  by (simp add: is_tool_call_def message_method_def)

lemma undelivered_error:
  assumes "is_tool_call msg" "sane_result r" "post_result lib msg r = Inl e" "may_replay msg e"
  shows "\<not> result_delivered r"
  using assms
  by (auto simp: may_replay_def tool_call_method post_result_def sane_result_def result_delivered_def Let_def
      split: sum.splits if_splits)

lemma undelivered_stale:
  "post_result lib msg r = Inr out \<Longrightarrow> po_stale out \<Longrightarrow> \<not> result_delivered r"
  by (auto simp: post_result_def result_delivered_def Let_def split: sum.splits if_splits)

lemma attempt_steps:
  assumes "fair_world known wd" "bridge_inv known app s" "selected known app info (event_log s)" "is_tool_call msg"
    and "forward_attempt lib (logged wd) app m attempt info s = (res, s')"
  shows "(\<forall>r. res = Inl r \<longrightarrow> steps_to known app msg 1 s s') \<and>
    (\<forall>i. res = Inr i \<longrightarrow> steps_to known app msg 0 s s' \<and> selected known app i (event_log s'))"
proof -
  let ?s1 = "ensure_backend_session lib (logged wd) info s"
  let ?sid = "sh_session (fst ?s1)"
  have s1: "steps_to known app msg 0 s ?s1" by (rule ensure_steps [OF assms(1-4)])
  obtain out s2 where post: "post_message lib (logged wd) (sv_port info) (sv_token info) ?sid m ?s1 = (out, s2)"
    by (cases "post_message lib (logged wd) (sv_port info) (sv_token info) ?sid m ?s1")
  obtain r where r: "out = post_result lib m r" "sane_result r"
      "steps_to known app msg (if m = msg \<and> result_delivered r then 1 else 0) ?s1 s2"
    using post_steps [OF assms(1) steps_to_inv [OF s1] steps_to_selected [OF assms(3) s1] post, of msg] by auto
  have s2: "steps_to known app msg (if m = msg \<and> result_delivered r then 1 else 0) s s2"
    using steps_to_trans [OF s1 r(3)] by simp
  let ?s3 = "on_shared (clear_session_if ?sid) s2"
  have s3: "steps_to known app msg (if m = msg \<and> result_delivered r then 1 else 0) s ?s3"
    using steps_to_trans [OF s2 shared_steps [OF steps_to_inv [OF s2]]] by simp
  have sel3: "selected known app info (event_log ?s3)" by (rule steps_to_selected [OF assms(3) s3])
  have le: "steps_to known app msg 1 s t" if "steps_to known app msg (if m = msg \<and> result_delivered r then 1 else 0) s t" for t
    using that by (auto simp: steps_to_def split: if_splits)
  obtain d s4 where disc: "discover_and_select (logged wd) app 3 (wd_wait (logged wd) ?s3) = (d, s4)"
    by (cases "discover_and_select (logged wd) app 3 (wd_wait (logged wd) ?s3)")
  note w = wait_steps [OF assms(1) steps_to_inv [OF s3], of msg]
  note ds = discover_steps [OF assms(1) steps_to_inv [OF w] disc, of msg]
  have s4: "steps_to known app msg (if m = msg \<and> result_delivered r then 1 else 0) s s4"
    using steps_to_trans [OF s3 steps_to_trans [OF w conjunct1 [OF ds]]] by simp
  have sel4: "selected known app info (event_log s4)" by (rule steps_to_selected [OF assms(3) s4])
  have undelivered: "steps_to known app msg 0 s t" if "steps_to known app msg (if m = msg \<and> result_delivered r then 1 else 0) s t"
      "\<not> (m = msg \<and> result_delivered r)" for t
    using that by simp
  show ?thesis
  proof (cases out)
    case (Inl e)
    obtain sel s5 where scan: "scan (logged wd) app ?s3 = (sel, s5)" by (cases "scan (logged wd) app ?s3")
    have s5: "steps_to known app msg (if m = msg \<and> result_delivered r then 1 else 0) s s5"
      using steps_to_trans [OF s3 conjunct1 [OF scan_steps [OF assms(1) steps_to_inv [OF s3] scan, of msg]]] by simp
    show ?thesis
    proof (cases "may_replay m e")
      case True
      then have nd: "\<not> (m = msg \<and> result_delivered r)" using undelivered_error [OF assms(4) r(2), of lib e] r(1) Inl by auto
      have res: "(res, s') = (if attempt + 1 < MAX_RETRIES then
          (case d of Inr i \<Rightarrow> (Inr i, s4) | Inl _ \<Rightarrow> (Inl (Unreachable unreachable_message), s4)) else (Inr info, ?s3))"
        using assms(5) post Inl True disc by (cases d) (auto simp: forward_attempt_def Let_def split: if_splits)
      show ?thesis
        using res undelivered [OF s3 nd] undelivered [OF s4 nd] le [OF s4] sel3 ds
        by (cases d) (auto split: if_splits)
    next
      case False
      then have "s' = s5" "\<exists>o1. res = Inl o1"
        using assms(5) post Inl scan by (auto simp: forward_attempt_def Let_def)
      then show ?thesis using le [OF s5] by auto
    qed
  next
    case (Inr o1)
    show ?thesis
    proof (cases "po_stale o1")
      case True
      then have nd: "\<not> (m = msg \<and> result_delivered r)" using undelivered_stale r(1) Inr by metis
      have res: "(res, s') = (if attempt + 1 < MAX_RETRIES then
          (case d of Inr i \<Rightarrow> (Inr i, s4) | Inl _ \<Rightarrow> (Inr info, s4)) else (Inr info, ?s3))"
        using assms(5) post Inr True disc by (cases d) (auto simp: forward_attempt_def Let_def split: if_splits)
      show ?thesis
        using res undelivered [OF s3 nd] undelivered [OF s4 nd] sel3 sel4 ds
        by (cases d) (auto split: if_splits)
    next
      case False
      have "steps_to known app msg (if m = msg \<and> result_delivered r then 1 else 0) s (on_shared (\<lambda>sh. sh\<lparr>sh_session := sid\<rparr>) s2)" for sid
        using steps_to_trans [OF s2 shared_steps [OF steps_to_inv [OF s2]]] by simp
      then have "steps_to known app msg (if m = msg \<and> result_delivered r then 1 else 0) s s'"
        using assms(5) post Inr False s2 by (auto simp: forward_attempt_def Let_def split: option.splits)
      moreover have "\<exists>o2. res = Inl o2" using assms(5) post Inr False by (auto simp: forward_attempt_def Let_def)
      ultimately show ?thesis using le by auto
    qed
  qed
qed

lemma loop_steps:
  assumes "fair_world known wd" "is_tool_call msg"
  shows "bridge_inv known app s \<Longrightarrow> selected known app info (event_log s) \<Longrightarrow>
    forward_loop lib (logged wd) app m attempt info s = (res, s') \<Longrightarrow> steps_to known app msg 1 s s'"
proof (induction "MAX_RETRIES - attempt" arbitrary: attempt info s rule: less_induct)
  case less
  show ?case
  proof (cases "MAX_RETRIES \<le> attempt")
    case True
    then show ?thesis using less.prems by (simp add: forward_loop.simps steps_to_def)
  next
    case False
    obtain r t where r: "forward_attempt lib (logged wd) app m attempt info s = (r, t)"
      by (cases "forward_attempt lib (logged wd) app m attempt info s")
    note t = attempt_steps [OF assms(1) less.prems(1,2) assms(2) r]
    show ?thesis
    proof (cases r)
      case (Inl out)
      then show ?thesis using less.prems(3) False r t by (simp add: forward_loop.simps [of lib "logged wd" app m attempt])
    next
      case (Inr i)
      then have t0: "steps_to known app msg 0 s t" "selected known app i (event_log t)" using t by auto
      have "steps_to known app msg 1 t s'"
        using less.hyps [of "attempt + 1" t i] less.prems(3) False r Inr t0 steps_to_inv [OF t0(1)]
        by (simp add: forward_loop.simps [of lib "logged wd" app m attempt])
      then show ?thesis using steps_to_trans [OF t0(1)] by fastforce
    qed
  qed
qed

lemma forward_steps:
  assumes "fair_world known wd" "is_tool_call msg" "bridge_inv known app s"
    and "forward_with_retries lib (logged wd) app m s = (res, s')"
  shows "steps_to known app msg 1 s s'"
proof -
  obtain sel t where sel: "scan (logged wd) app s = (sel, t)" by (cases "scan (logged wd) app s")
  note t = scan_steps [OF assms(1,3) sel, of msg]
  have le: "steps_to known app msg 1 s u" if "steps_to known app msg 0 s u" for u
    using that by (simp add: steps_to_def)
  show ?thesis
  proof (cases sel)
    case (Sel_One info)
    then have "forward_loop lib (logged wd) app m 0 info t = (res, s')"
      using assms(4) sel by (simp add: forward_with_retries_def)
    then have "steps_to known app msg 1 t s'"
      using loop_steps [OF assms(1,2) steps_to_inv [OF conjunct1 [OF t]]] t Sel_One by blast
    then show ?thesis using steps_to_trans [OF conjunct1 [OF t]] by fastforce
  qed (use assms(4) sel t le in \<open>auto simp: forward_with_retries_def\<close>)
qed


section \<open>Correctness of forwarding\<close>

lemma dropping_fair: "fair_world (\<lambda>_. False) dropping_world"
  by (simp add: fair_world_def dropping_world_def others_ok_def sane_result_def)

lemma fresh_ok: "init_ok fresh_bridge \<and> cache_ok known fresh_bridge []"
  by (simp add: init_ok_def cache_ok_def fresh_bridge_def)

lemma quiet_scan:
  "scan_once None quiet_probe None =
     (Sel_One \<lparr>sv_pid = None, sv_port = 7, sv_token = None, sv_identifier = None, sv_product_name = None\<rparr>, None)"
proof -
  have "str_trim ''7'' = ''7''" "list_all is_ascii_digit ''7''" "digits_value ''7'' = 7" by code_simp+
  then have "pinned_port quiet_probe = Some 7"
    by (simp add: pinned_port_def quiet_probe_def parse_unsigned_def Let_def)
  then show ?thesis
    by (simp add: scan_once_def port_override_def discover_live_servers_def discover_entries_def settle_port_claims_def
        unique_entry_on_port_def normalize_env_token_def non_empty_trimmed_def health_ok_def health_status_means_alive_def
        quiet_probe_def Let_def)
qed

text \<open>What the sample call does there: one scan, the call, and a scan to see whether the app is still up.\<close>

lemma dropped_call:
  "\<exists>res e. forward_with_retries codec (logged dropping_world) None sample_call (fresh_bridge, (), []) =
     (res, fresh_bridge, (), [Probed quiet_probe, Posted 7 None sample_call (Inl e), Probed quiet_probe])"
  by (simp add: forward_with_retries_def scan_def logged_def dropping_world_def quiet_scan fresh_bridge_def
      on_shared_def forward_loop.simps MAX_RETRIES_def forward_attempt_def ensure_backend_session_def needs_session_def
      post_message_def post_result_def may_replay_def message_method_def get_str_def sample_call_def clear_session_if_def Let_def)

text \<open>
  (C15) A tool call never runs twice.  Whatever the app, the other tasks and the network do, one forward
  delivers a \<^verbatim>\<open>tools/call\<close> to an app at most once: it is sent again only after a connection that was
  never established or a session the server refused.
\<close>

theorem tool_call_delivered_at_most_once:
  assumes "fair_world known wd" "is_tool_call msg" "init_ok sh" "cache_ok known sh []"
    and "forward_with_retries lib (logged wd) app msg (sh, w, []) = (res, sh', w', es)"
  shows "length (filter (delivered msg) es) \<le> 1"
proof -
  have "bridge_inv known app (sh, w, [])"
    using assms(3,4) by (simp add: bridge_inv_def event_log_def posts_selected_def)
  then have "steps_to known app msg 1 (sh, w, []) (sh', w', es)"
    using forward_steps [OF assms(1,2)] assms(5) by blast
  then show ?thesis by (simp add: steps_to_def deliveries_def event_log_def)
qed

theorem tool_call_delivered_at_most_once_witness:
  "\<exists>res sh' w' es. forward_with_retries codec (logged dropping_world) None sample_call (fresh_bridge, (), []) = (res, sh', w', es) \<and>
     length (filter (delivered sample_call) es) \<le> 1 \<and> es \<noteq> []"
proof -
  obtain res e where r: "forward_with_retries codec (logged dropping_world) None sample_call (fresh_bridge, (), []) =
     (res, fresh_bridge, (), [Probed quiet_probe, Posted 7 None sample_call (Inl e), Probed quiet_probe])"
    using dropped_call by blast
  have "is_tool_call sample_call" by (simp add: is_tool_call_def get_str_def sample_call_def)
  from tool_call_delivered_at_most_once [OF dropping_fair this conjunct1 [OF fresh_ok] conjunct2 [OF fresh_ok] r]
  show ?thesis using r by blast
qed



end
