(* ===== verification/Bridge_Loop.thy ===== *)
theory Bridge_Loop
  imports Stdio_Bridge
begin

text \<open>
  The main loop of the stdio bridge (\<^verbatim>\<open>run\<close>, \<^verbatim>\<open>handle_line\<close> and the availability poller of
  \<^verbatim>\<open>victauri-cli/src/bridge.rs\<close>): lines from stdin are handled one after the other without waiting;
  requests become tasks that hold a permit, notifications queue for one forwarder, and everything
  written to stdout is a list of lines.  The tasks, the forwarder and the poller run concurrently,
  as steps of a relation.
\<close>

section \<open>One line of stdin\<close>

definition MAX_IN_FLIGHT :: nat where "MAX_IN_FLIGHT = 32"
definition ONE_WAY_QUEUE :: nat where "ONE_WAY_QUEUE = 1024"

text \<open>\<open>br_tasks\<close> are the requests being handled, \<open>br_held\<close> the permits taken.\<close>

record bridge_state =
  br_init :: "json option"
  br_ready :: bool
  br_up :: bool
  br_queue :: "json list"
  br_tasks :: "json list"
  br_held :: nat
  br_out :: "string list"

definition bridge_new :: bridge_state where
  "bridge_new = \<lparr>br_init = None, br_ready = False, br_up = False, br_queue = [], br_tasks = [], br_held = 0, br_out = []\<rparr>"

definition write_payloads :: "string list \<Rightarrow> bridge_state \<Rightarrow> bridge_state" where
  "write_payloads ps s = s\<lparr>br_out := br_out s @ ps\<rparr>"

definition write_value :: "json_text \<Rightarrow> json \<Rightarrow> bridge_state \<Rightarrow> bridge_state" where
  "write_value lib v = write_payloads [jt_to_string lib v]"

definition notification :: "string \<Rightarrow> json" where
  "notification method = JObject [(''jsonrpc'', JString ''2.0''), (''method'', JString method)]"

definition write_notification :: "json_text \<Rightarrow> string \<Rightarrow> bridge_state \<Rightarrow> bridge_state" where
  "write_notification lib method = write_value lib (notification method)"

definition announce_lists :: "json_text \<Rightarrow> bridge_state \<Rightarrow> bridge_state" where
  "announce_lists lib s =
     write_notification lib ''notifications/resources/list_changed''
       (write_notification lib ''notifications/tools/list_changed'' s)"

text \<open>A full queue drops the message.\<close>

definition enqueue_one_way :: "json \<Rightarrow> bridge_state \<Rightarrow> bridge_state" where
  "enqueue_one_way msg s =
     (if length (br_queue s) < ONE_WAY_QUEUE then s\<lparr>br_queue := br_queue s @ [msg]\<rparr> else s)"

text \<open>\<open>info\<close> is the version and the instructions of the local \<^verbatim>\<open>initialize\<close> answer.\<close>

definition handle_message :: "json_text \<Rightarrow> string \<times> string \<Rightarrow> json \<Rightarrow> bridge_state \<Rightarrow> bridge_state" where
  "handle_message lib info msg s =
     (case msg of
        JArray items \<Rightarrow> (case batch_rejection items of Some reply \<Rightarrow> write_value lib reply s | None \<Rightarrow> s)
      | _ \<Rightarrow>
          if json_get msg ''method'' = None then
            if is_client_response msg then enqueue_one_way msg s
            else write_value lib (error_reply (id_or_null msg) INVALID_REQUEST
                   ''invalid request: a JSON-RPC request needs a `method`'') s
          else
            let method = message_method msg; i = id_or_null msg in
            if (method = ''initialize'' \<or> method = ''ping'') \<and> \<not> expects_reply msg then s
            else if method = ''initialize'' then
              write_value lib (local_initialize_response (fst info) (snd info) msg) (s\<lparr>br_init := Some msg\<rparr>)
            else if method = ''notifications/initialized'' then
              let s = s\<lparr>br_ready := True\<rparr> in if br_up s then announce_lists lib s else s
            else if method = ''ping'' then write_value lib (result_reply i (JObject [])) s
            else if \<not> expects_reply msg then enqueue_one_way msg s
            else if br_held s < MAX_IN_FLIGHT then
              s\<lparr>br_tasks := br_tasks s @ [msg], br_held := br_held s + 1\<rparr>
            else write_value lib (error_reply i (- 32000)
                   (''victauri bridge: '' @ decimal MAX_IN_FLIGHT @ '' requests are already in flight; '' @
                    ''retry when one completes'')) s)"

definition handle_line :: "json_text \<Rightarrow> string \<times> string \<Rightarrow> string \<Rightarrow> bridge_state \<Rightarrow> bridge_state" where
  "handle_line lib info line s =
     (if line = [] then s
      else (case jt_from_str lib line of None \<Rightarrow> s | Some msg \<Rightarrow> handle_message lib info msg s))"

section \<open>The running bridge\<close>

text \<open>
  Steps with the line read, if one is: \<open>tools\<close>, \<open>wd\<close> and \<open>app\<close> are those of \<open>handle_request\<close>, whose
  reply a task writes before it gives its permit back; the poller swaps \<^verbatim>\<open>backend_up\<close>.
\<close>

inductive bridge_step ::
  "json_text \<Rightarrow> string \<times> string \<Rightarrow> json list \<Rightarrow> 'w world \<Rightarrow> string option \<Rightarrow>
   bridge_state \<Rightarrow> string option \<Rightarrow> bridge_state \<Rightarrow> bool"
  for lib info tools wd app where
  Line: "bridge_step lib info tools wd app s (Some line) (handle_line lib info (str_trim line) s)"
| Finish: "msg \<in> set (br_tasks s) \<Longrightarrow>
    bridge_step lib info tools wd app s None
      (write_payloads (fst (handle_request lib tools wd app msg sw)) (s\<lparr>br_tasks := remove1 msg (br_tasks s)\<rparr>))"
| Release: "length (br_tasks s) < br_held s \<Longrightarrow>
    bridge_step lib info tools wd app s None (s\<lparr>br_held := br_held s - 1\<rparr>)"
| Forward: "br_queue s = msg # queue \<Longrightarrow> bridge_step lib info tools wd app s None (s\<lparr>br_queue := queue\<rparr>)"
| Poll: "bridge_step lib info tools wd app s None
    ((if up \<and> \<not> br_up s \<and> br_ready s then announce_lists lib else id) (s\<lparr>br_up := up\<rparr>))"

text \<open>A run, with the lines read so far.\<close>

inductive bridge_run ::
  "json_text \<Rightarrow> string \<times> string \<Rightarrow> json list \<Rightarrow> 'w world \<Rightarrow> string option \<Rightarrow> string list \<Rightarrow> bridge_state \<Rightarrow> bool"
  for lib info tools wd app where
  Start: "bridge_run lib info tools wd app [] bridge_new"
| Step: "bridge_run lib info tools wd app lines s \<Longrightarrow> bridge_step lib info tools wd app s l s' \<Longrightarrow>
    bridge_run lib info tools wd app (lines @ (case l of None \<Rightarrow> [] | Some line \<Rightarrow> [line])) s'"

section \<open>Bounds\<close>

definition bridge_bounds :: "bridge_state \<Rightarrow> bool" where
  "bridge_bounds s \<longleftrightarrow> length (br_tasks s) \<le> br_held s \<and> br_held s \<le> MAX_IN_FLIGHT \<and> length (br_queue s) \<le> ONE_WAY_QUEUE"

lemmas bridge_writes = write_payloads_def write_value_def write_notification_def announce_lists_def

lemma handle_message_bounds: "bridge_bounds s \<Longrightarrow> bridge_bounds (handle_message lib info msg s)"
  by (cases msg)
    (auto simp: handle_message_def bridge_bounds_def bridge_writes enqueue_one_way_def Let_def split: option.splits)

lemma handle_line_bounds: "bridge_bounds s \<Longrightarrow> bridge_bounds (handle_line lib info line s)"
  by (simp add: handle_line_def handle_message_bounds split: option.splits)

lemma bridge_step_bounds: "bridge_step lib info tools wd app s l s' \<Longrightarrow> bridge_bounds s \<Longrightarrow> bridge_bounds s'"
proof (induction rule: bridge_step.induct)
  case (Finish msg s sw)
  then show ?case by (auto simp: bridge_bounds_def bridge_writes length_remove1)
next
  case (Release s)
  then show ?case by (auto simp: bridge_bounds_def)
next
  case (Line s line)
  then show ?case by (intro handle_line_bounds)
qed (auto simp: bridge_bounds_def bridge_writes)

section \<open>Requests\<close>

text \<open>A request is accounted for while it is handled or once its answer is written.\<close>

definition accounted :: "json_text \<Rightarrow> json \<Rightarrow> bridge_state \<Rightarrow> bool" where
  "accounted lib msg s \<longleftrightarrow> msg \<in> set (br_tasks s) \<or> answers_request lib (br_out s) msg"

text \<open>\<^verbatim>\<open>notifications/initialized\<close> is never answered, not even with an id.\<close>

definition client_request :: "json \<Rightarrow> bool" where
  "client_request msg \<longleftrightarrow> proper_request msg \<and> message_method msg \<noteq> ''notifications/initialized''"

lemma local_initialize_answers:
  assumes "reads_back lib" "proper_request msg"
  shows "answers lib msg (jt_to_string lib (local_initialize_response v t msg))"
  using assms unfolding local_initialize_response_def Let_def by (intro result_reply_answers) simp_all

lemma answers_request_append [simp]:
  "answers_request lib (ps @ qs) msg \<longleftrightarrow> answers_request lib ps msg \<or> answers_request lib qs msg"
  by (simp add: answers_request_def)

lemma answers_request_one [simp]: "answers_request lib [p] msg \<longleftrightarrow> answers lib msg p"
  by (simp add: answers_request_def)

lemma handle_message_accounts:
  assumes "reads_back lib" "client_request msg"
  shows "accounted lib msg (handle_message lib info msg s)"
proof -
  have p: "proper_request msg" "message_method msg \<noteq> ''notifications/initialized''" "expects_reply msg"
    using assms(2) by (auto simp: client_request_def proper_request_def)
  then obtain obj y where obj: "msg = JObject obj" "json_get (JObject obj) ''method'' = Some y"
    by (cases msg) (auto simp: expects_reply_def)
  have "answers lib msg (jt_to_string lib (result_reply (id_or_null msg) (JObject [])))"
    using assms(1) p(1) by (intro result_reply_answers) simp_all
  moreover have "answers lib msg (jt_to_string lib (error_reply (id_or_null msg) (- 32000) m))" for m
    using error_for_request_answers [OF assms(1) p(1), of "- 32000" m] by (simp add: error_for_request_def)
  moreover have "answers lib msg (jt_to_string lib (local_initialize_response (fst info) (snd info) msg))"
    by (rule local_initialize_answers [OF assms(1) p(1)])
  ultimately show ?thesis
    using p obj by (simp add: handle_message_def accounted_def bridge_writes Let_def del: json_get.simps)
qed

text \<open>Nothing written is taken back, and a task ends only with its answer.\<close>

lemma handle_message_keeps: "accounted lib m s \<Longrightarrow> accounted lib m (handle_message lib info msg s)"
  by (cases msg)
    (auto simp: handle_message_def accounted_def bridge_writes enqueue_one_way_def Let_def split: option.splits)

lemma bridge_step_keeps:
  assumes "bridge_step lib info tools wd app s l s'" "reads_back lib" "proper_request m" "accounted lib m s"
  shows "accounted lib m s'"
  using assms(1,4)
proof (induction rule: bridge_step.induct)
  case (Line s line)
  then show ?case by (simp add: handle_line_def handle_message_keeps split: option.splits)
next
  case (Finish msg s sw)
  show ?case
  proof (cases "msg = m")
    case True
    then show ?thesis
      using every_request_is_answered [OF assms(2,3), of tools wd app sw] by (simp add: accounted_def bridge_writes)
  next
    case False
    then show ?thesis using Finish by (auto simp: accounted_def bridge_writes)
  qed
qed (auto simp: accounted_def bridge_writes)


lemma bridge_run_accounts:
  assumes "bridge_run lib info tools wd app lines s" "reads_back lib" "client_request msg"
    and "line \<in> set lines" "jt_from_str lib (str_trim line) = Some msg" "str_trim line \<noteq> []"
  shows "accounted lib msg s"
  using assms(1,4)
proof (induction rule: bridge_run.induct)
  case (Step lines s l s')
  show ?case
  proof (cases "line \<in> set lines")
    case True
    then show ?thesis
      using bridge_step_keeps [OF Step(2) assms(2)] Step.IH assms(3) by (simp add: client_request_def)
  next
    case False
    then have "l = Some line" using Step.prems by (auto split: option.splits)
    then have "s' = handle_line lib info (str_trim line) s" using Step(2) by (auto elim: bridge_step.cases)
    then show ?thesis
      using handle_message_accounts [OF assms(2,3)] assms(5,6) by (simp add: handle_line_def)
  qed
qed simp

lemma bridge_run_bounds: "bridge_run lib info tools wd app lines s \<Longrightarrow> bridge_bounds s"
proof (induction rule: bridge_run.induct)
  case Start
  then show ?case by (simp add: bridge_bounds_def bridge_new_def)
next
  case (Step lines s l s')
  then show ?case using bridge_step_bounds by blast
qed

text \<open>
  (C17) The bridge loses no request and stays bounded.  In every interleaving of stdin lines, tasks, the
  forwarder and the poller, each request read so far is being handled or has its answer on stdout;
  at most 32 requests are in flight and at most 1024 notifications queued.
\<close>

theorem bridge_accounts_for_requests:
  assumes "bridge_run lib info tools wd app lines s" "reads_back lib"
    and "line \<in> set lines" "jt_from_str lib (str_trim line) = Some msg" "str_trim line \<noteq> []" "client_request msg"
  shows "(msg \<in> set (br_tasks s) \<or> answers_request lib (br_out s) msg) \<and>
    length (br_tasks s) \<le> 32 \<and> length (br_queue s) \<le> 1024"
  using bridge_run_accounts [OF assms(1,2,6,3,4,5)] bridge_run_bounds [OF assms(1)]
  by (auto simp: accounted_def bridge_bounds_def MAX_IN_FLIGHT_def ONE_WAY_QUEUE_def)

definition sample_ping :: json where
  "sample_ping = JObject [(''id'', JNumber (PosInt 1)), (''method'', JString ''ping'')]"

theorem bridge_accounts_for_requests_witness:
  "(sample_ping \<in> set (br_tasks (handle_line codec ([], []) (enc sample_ping) bridge_new)) \<or>
    answers_request codec (br_out (handle_line codec ([], []) (enc sample_ping) bridge_new)) sample_ping) \<and>
   length (br_tasks (handle_line codec ([], []) (enc sample_ping) bridge_new)) \<le> 32 \<and>
   length (br_queue (handle_line codec ([], []) (enc sample_ping) bridge_new)) \<le> 1024"
proof -
  have trim: "str_trim (enc sample_ping) = enc sample_ping" "enc sample_ping \<noteq> []" by code_simp+
  have run: "bridge_run codec ([], []) [] dropping_world None [enc sample_ping]
      (handle_line codec ([], []) (enc sample_ping) bridge_new)"
    using bridge_run.Step [OF bridge_run.Start bridge_step.Line [of codec "([], [])" "[]" dropping_world None bridge_new "enc sample_ping"]]
    by (simp add: trim)
  have read: "jt_from_str codec (str_trim (enc sample_ping)) = Some sample_ping"
  proof -
    have "codable sample_ping" by (simp add: sample_ping_def)
    then show ?thesis unfolding trim codec_def by (simp only: json_text.select_convs decode_enc)
  qed
  have "client_request sample_ping"
    by (simp add: client_request_def proper_request_def expects_reply_def id_or_null_def message_method_def get_str_def sample_ping_def)
  from bridge_accounts_for_requests [OF run codec_reads_back _ read _ this] trim show ?thesis by simp
qed

section \<open>Announcing the live tool list\<close>

text \<open>
  Two tasks may tell the client to fetch the live lists: the poller, when the backend came up and the
  client is ready, and \<open>handle_message\<close>, when the client becomes ready and the backend is up.  Each
  writes its own flag and reads the other's; here these are single steps.  \<open>an_told\<close> says whether the
  client was told since the backend last came up.  A store with \<^verbatim>\<open>Ordering::Release\<close> may become visible
  after a later load (\<open>an_buffered\<close>); \<open>ordered\<close> excludes that.
\<close>

datatype client_at = Client_Before | Client_Stored | Client_After
datatype poller_at = Poller_Idle | Poller_Swapped bool bool

record announce_state =
  an_ready :: bool
  an_buffered :: bool
  an_up :: bool
  an_client :: client_at
  an_poller :: poller_at
  an_told :: bool

inductive announce_step :: "bool \<Rightarrow> announce_state \<Rightarrow> announce_state \<Rightarrow> bool" for ordered where
  store: "an_client s = Client_Before \<Longrightarrow>
    announce_step ordered s (if ordered then s\<lparr>an_client := Client_Stored, an_ready := True\<rparr>
      else s\<lparr>an_client := Client_Stored, an_buffered := True\<rparr>)"
| flush: "an_buffered s \<Longrightarrow> announce_step ordered s (s\<lparr>an_buffered := False, an_ready := True\<rparr>)"
| load: "an_client s = Client_Stored \<Longrightarrow>
    announce_step ordered s (s\<lparr>an_client := Client_After, an_told := an_told s \<or> an_up s\<rparr>)"
| swap: "an_poller s = Poller_Idle \<Longrightarrow>
    announce_step ordered s (s\<lparr>an_poller := Poller_Swapped up (an_up s), an_up := up,
      an_told := (if up \<and> \<not> an_up s then False else an_told s)\<rparr>)"
| announce: "an_poller s = Poller_Swapped up was \<Longrightarrow>
    announce_step ordered s (s\<lparr>an_poller := Poller_Idle, an_told := an_told s \<or> up \<and> \<not> was \<and> an_ready s\<rparr>)"

definition announce_start :: announce_state where
  "announce_start = \<lparr>an_ready = False, an_buffered = False, an_up = False, an_client = Client_Before,
     an_poller = Poller_Idle, an_told = False\<rparr>"

definition announce_reachable :: "bool \<Rightarrow> announce_state \<Rightarrow> bool" where
  "announce_reachable ordered s \<longleftrightarrow> (announce_step ordered)\<^sup>*\<^sup>* announce_start s"

definition announce_inv :: "announce_state \<Rightarrow> bool" where
  "announce_inv s \<longleftrightarrow>
     \<not> an_buffered s \<and> (an_ready s \<longleftrightarrow> an_client s \<noteq> Client_Before) \<and>
     (an_client s = Client_After \<longrightarrow> an_up s \<longrightarrow> an_told s \<or> an_poller s = Poller_Swapped True False)"

lemma announce_step_inv: "announce_step True s s' \<Longrightarrow> announce_inv s \<Longrightarrow> announce_inv s'"
  by (induction rule: announce_step.induct) (auto simp: announce_inv_def)

text \<open>
  With the accesses in program order no refresh is lost: once the client is ready, the backend up and
  the poller idle, the client was told since the backend came up.
\<close>

theorem refresh_announced:
  assumes "announce_reachable True s" "an_client s = Client_After" "an_up s" "an_poller s = Poller_Idle"
  shows "an_told s"
proof -
  have "(announce_step True)\<^sup>*\<^sup>* announce_start s" using assms(1) by (simp add: announce_reachable_def)
  then have "announce_inv s"
  proof (induction rule: rtranclp_induct)
    case base
    then show ?case by (simp add: announce_inv_def announce_start_def)
  next
    case (step s s')
    then show ?case using announce_step_inv by blast
  qed
  then show ?thesis using assms by (simp add: announce_inv_def)
qed


end
