(* ===== verification/Dom_Snapshot.thy ===== *)
theory Dom_Snapshot
  imports Utf8 Float64
begin

text \<open>
  Snapshots of a page and of its windows (\<^verbatim>\<open>victauri-core/src/snapshot.rs\<close>): the tree of accessible
  elements, its rendering as indented text, and the state of a window with its setters.
\<close>

section \<open>Windows\<close>

record window_state =
  ws_label :: string
  ws_title :: string
  ws_url :: string
  ws_visible :: bool
  ws_focused :: bool
  ws_maximized :: bool
  ws_minimized :: bool
  ws_fullscreen :: bool
  ws_position :: "int \<times> int"
  ws_size :: "nat \<times> nat"

definition window_state_new :: "string \<Rightarrow> window_state" where
  "window_state_new label = \<lparr>ws_label = label, ws_title = [], ws_url = [], ws_visible = False, ws_focused = False,
     ws_maximized = False, ws_minimized = False, ws_fullscreen = False, ws_position = (0, 0), ws_size = (0, 0)\<rparr>"

definition with_title :: "string \<Rightarrow> window_state \<Rightarrow> window_state" where
  "with_title t w = w\<lparr>ws_title := t\<rparr>"

definition with_url :: "string \<Rightarrow> window_state \<Rightarrow> window_state" where
  "with_url u w = w\<lparr>ws_url := u\<rparr>"

definition with_visible :: "bool \<Rightarrow> window_state \<Rightarrow> window_state" where
  "with_visible b w = w\<lparr>ws_visible := b\<rparr>"

definition with_focused :: "bool \<Rightarrow> window_state \<Rightarrow> window_state" where
  "with_focused b w = w\<lparr>ws_focused := b\<rparr>"

definition with_maximized :: "bool \<Rightarrow> window_state \<Rightarrow> window_state" where
  "with_maximized b w = w\<lparr>ws_maximized := b\<rparr>"

definition with_minimized :: "bool \<Rightarrow> window_state \<Rightarrow> window_state" where
  "with_minimized b w = w\<lparr>ws_minimized := b\<rparr>"

definition with_fullscreen :: "bool \<Rightarrow> window_state \<Rightarrow> window_state" where
  "with_fullscreen b w = w\<lparr>ws_fullscreen := b\<rparr>"

definition with_position :: "int \<Rightarrow> int \<Rightarrow> window_state \<Rightarrow> window_state" where
  "with_position x y w = w\<lparr>ws_position := (x, y)\<rparr>"

definition with_size :: "nat \<Rightarrow> nat \<Rightarrow> window_state \<Rightarrow> window_state" where
  "with_size x y w = w\<lparr>ws_size := (x, y)\<rparr>"

section \<open>Elements\<close>

record element_bounds =
  eb_x :: f64
  eb_y :: f64
  eb_width :: f64
  eb_height :: f64

record element_data =
  ed_ref_id :: string
  ed_tag :: string
  ed_role :: "string option"
  ed_name :: "string option"
  ed_text :: "string option"
  ed_value :: "string option"
  ed_enabled :: bool
  ed_visible :: bool
  ed_focusable :: bool
  ed_bounds :: "element_bounds option"
  ed_attributes :: "(string \<times> string) list"

datatype dom_element = Dom_Element (element_data: element_data) (element_children: "dom_element list")

record dom_snapshot =
  ds_webview_label :: string
  ds_elements :: "dom_element list"
  ds_ref_map :: "(string \<times> string) list"

definition MAX_DOM_DEPTH :: nat where
  "MAX_DOM_DEPTH = 256"

definition indentation :: "nat \<Rightarrow> string" where
  "indentation n = concat (replicate n ''  '')"

definition element_line :: "nat \<Rightarrow> element_data \<Rightarrow> string" where
  "element_line indent d =
     (let role_str = (case ed_role d of Some r \<Rightarrow> r | None \<Rightarrow> ed_tag d);
          name_str = (case ed_name d of Some n \<Rightarrow> '' '' @ [quote] @ n @ [quote] | None \<Rightarrow> []);
          ref_str = (if ed_focusable d \<or> ed_tag d = ''button'' \<or> ed_tag d = ''input''
                     then '' [ref='' @ ed_ref_id d @ '']'' else [])
      in indentation indent @ ''- '' @ role_str @ name_str @ ref_str @ [newline])"

fun format_element :: "nat \<Rightarrow> nat \<Rightarrow> dom_element \<Rightarrow> string" where
  "format_element indent depth (Dom_Element d children) =
     (if \<not> ed_visible d then []
      else if depth \<ge> MAX_DOM_DEPTH
      then indentation indent @ ''- <max DOM depth '' @ decimal MAX_DOM_DEPTH @ '' exceeded>'' @ [newline]
      else element_line indent d @ concat (map (format_element (indent + 1) (depth + 1)) children))"

definition to_accessible_text :: "dom_snapshot \<Rightarrow> nat \<Rightarrow> string" where
  "to_accessible_text s indent = concat (map (format_element indent 0) (ds_elements s))"

section \<open>What the text depends on\<close>

text \<open>
  The part of a tree the text may show: no hidden element with anything below it, nothing below the
  depth limit, and of an element only what its line names.
\<close>

definition shown_data :: "element_data \<Rightarrow> string \<times> string option \<times> string option" where
  "shown_data d =
     ((case ed_role d of Some r \<Rightarrow> r | None \<Rightarrow> ed_tag d), ed_name d,
      if ed_focusable d \<or> ed_tag d \<in> {''button'', ''input''} then Some (ed_ref_id d) else None)"

datatype shown = Cut | Shown "string \<times> string option \<times> string option" "shown list"

fun shown_part :: "nat \<Rightarrow> dom_element \<Rightarrow> shown list" where
  "shown_part levels (Dom_Element d children) =
     (if \<not> ed_visible d then []
      else case levels of
        0 \<Rightarrow> [Cut]
      | Suc n \<Rightarrow> [Shown (shown_data d) (concat (map (shown_part n) children))])"

fun render :: "nat \<Rightarrow> shown \<Rightarrow> string" where
  "render indent Cut = indentation indent @ ''- <max DOM depth 256 exceeded>'' @ [newline]"
| "render indent (Shown (role, name, ref) children) =
     indentation indent @ ''- '' @ role @ (case name of Some n \<Rightarrow> '' '' @ [quote] @ n @ [quote] | None \<Rightarrow> []) @
       (case ref of Some r \<Rightarrow> '' [ref='' @ r @ '']'' | None \<Rightarrow> []) @ [newline] @
       concat (map (render (indent + 1)) children)"

lemma format_element_shown:
  "depth \<le> MAX_DOM_DEPTH \<Longrightarrow> format_element indent depth e = concat (map (render indent) (shown_part (MAX_DOM_DEPTH - depth) e))"
proof (induction indent depth e rule: format_element.induct)
  case (1 indent depth d children)
  show ?case
  proof (cases "ed_visible d \<and> depth < MAX_DOM_DEPTH")
    case True
    then obtain n where n: "MAX_DOM_DEPTH - depth = Suc n" "n = MAX_DOM_DEPTH - (depth + 1)" by (metis Suc_diff_Suc Suc_eq_plus1)
    have "map (format_element (indent + 1) (depth + 1)) children =
        map (\<lambda>c. concat (map (render (indent + 1)) (shown_part n c))) children"
      using 1 True n(2) by (intro map_cong) auto
    then have "concat (map (format_element (indent + 1) (depth + 1)) children) =
        concat (map (render (indent + 1)) (concat (map (shown_part n) children)))"
      by (simp add: map_concat comp_def) (induction children; simp)
    then show ?thesis using True n(1)
      by (auto simp: element_line_def shown_data_def Let_def split: option.split)
  next
    case False
    have "decimal 256 = ''256''" by code_simp
    then show ?thesis using False 1(2) by (auto simp: MAX_DOM_DEPTH_def)
  qed
qed

text \<open>The text is a function of that part, so hidden elements, values and attributes never reach it.\<close>

theorem snapshot_text_shows_only:
  assumes "map (shown_part MAX_DOM_DEPTH) (ds_elements s) = map (shown_part MAX_DOM_DEPTH) (ds_elements s')"
  shows "to_accessible_text s indent = to_accessible_text s' indent"
proof -
  have f: "format_element indent 0 = (\<lambda>e. concat (map (render indent) (shown_part MAX_DOM_DEPTH e)))"
    using format_element_shown [of 0 indent] by (intro ext) simp
  have "to_accessible_text s indent = concat (map (concat \<circ> map (render indent)) (map (shown_part MAX_DOM_DEPTH) (ds_elements s)))" for s
    unfolding to_accessible_text_def f by (simp add: comp_def)
  then show ?thesis using assms by (simp only:)
qed

definition sample_element :: "string option \<Rightarrow> dom_element list \<Rightarrow> dom_element" where
  "sample_element v children = Dom_Element \<lparr>ed_ref_id = ''k1'', ed_tag = ''input'', ed_role = None, ed_name = Some ''Password'',
     ed_text = None, ed_value = v, ed_enabled = True, ed_visible = True, ed_focusable = True, ed_bounds = None, ed_attributes = []\<rparr> children"

theorem snapshot_text_shows_only_witness:
  "to_accessible_text \<lparr>ds_webview_label = ''main'', ds_elements = [sample_element (Some ''hunter2'') []], ds_ref_map = []\<rparr> 0 =
   to_accessible_text \<lparr>ds_webview_label = ''main'', ds_elements = [sample_element None []], ds_ref_map = []\<rparr> 0"
  by (rule snapshot_text_shows_only) (simp add: sample_element_def shown_data_def MAX_DOM_DEPTH_def split: nat.split)

end
