(* ===== verification/Test_Client.thy ===== *)
theory Test_Client
  imports Terminal Json
begin

text \<open>
  What the checks of \<^verbatim>\<open>victauri-test\<close> know of their client (\<^verbatim>\<open>client.rs\<close>, \<^verbatim>\<open>error.rs\<close>): its errors and how
  they are shown, and the calls of a few tools.  A tool call is a function of a world; what the app
  answers, and what changes in between, is the world's.
\<close>

section \<open>Errors\<close>

datatype test_error =
    Test_Connection string nat string
  | Test_Request string
  | Test_Mcp int string
  | Tool_Error string
  | Test_Assertion string
  | Test_Timeout string
  | Element_Not_Found string
  | Test_Visual_Regression string
  | Test_Other string

definition em_dash :: string where
  "em_dash = [CHR 0xE2, CHR 0x80, CHR 0x94]"

definition mcp_hint :: "int \<Rightarrow> string" where
  "mcp_hint code =
     (if code = -32600 then newline # ''  Hint: invalid request '' @ em_dash @ '' check your MCP protocol version''
      else if code = -32601 then newline # ''  Hint: method not found '' @ em_dash @ '' the tool may be disabled by privacy profile''
      else if code = -32602 then newline # ''  Hint: invalid params '' @ em_dash @ '' check the tool'' @ [CHR 0x27] @ ''s expected arguments''
      else if code = -32603 then newline # ''  Hint: internal error '' @ em_dash @ '' check the Tauri app'' @ [CHR 0x27] @ ''s stderr for details''
      else [])"

definition text_lines :: "string list \<Rightarrow> string" where
  "text_lines ls = join [newline] ls"

text \<open>\<^verbatim>\<open>Display\<close>\<close>

fun show_test_error :: "test_error \<Rightarrow> string" where
  "show_test_error (Test_Connection host port reason) = text_lines
     [''connection failed ('' @ host @ '':'' @ decimal port @ ''): '' @ reason,
      [],
      ''  Possible fixes:'',
      ''  - Is your Tauri app running (a debug build)? e.g. `npm run tauri dev` /'',
      ''    `pnpm tauri dev` (add `--features victauri` if `victauri init --optional`'',
      ''    set it up)'',
      ''  - Check that victauri-plugin is wired in your Tauri builder'',
      ''  - If the app runs on another port, set VICTAURI_PORT to that port'',
      ''  - Run `victauri doctor` for full diagnostics'']"
| "show_test_error (Test_Request e) = ''MCP request failed: '' @ e"
| "show_test_error (Test_Mcp code message) =
     ''MCP error '' @ decimal_int code @ '': '' @ untrusted_multi_line message @ mcp_hint code"
| "show_test_error (Tool_Error msg) = ''tool call failed: '' @ untrusted_multi_line msg"
| "show_test_error (Test_Assertion msg) = ''assertion failed: '' @ msg"
| "show_test_error (Test_Timeout msg) = text_lines
     [''timeout: '' @ msg,
      [],
      ''  Possible fixes:'',
      ''  - Increase timeout: .timeout_ms(10_000) or wait_for(..., Some(15_000), ...)'',
      ''  - Check that the expected condition can actually be met'',
      ''  - Look for JS errors: client.get_console_logs().await'']"
| "show_test_error (Element_Not_Found msg) = text_lines
     [''element not found: '' @ msg,
      [],
      ''  Possible fixes:'',
      ''  - Take a DOM snapshot to see what'' @ [CHR 0x27] @ ''s on the page: client.dom_snapshot().await'',
      ''  - The element may not have rendered yet '' @ em_dash @ '' use expect().to_be_visible().await'',
      ''  - Check for typos in the locator query'']"
| "show_test_error (Test_Visual_Regression msg) = text_lines
     [''visual regression: '' @ msg,
      [],
      ''  If the change is intentional, delete the baseline image to regenerate it.'',
      ''  Use ThresholdPreset::Relaxed for cross-platform tolerance.'']"
| "show_test_error (Test_Other msg) = msg"

section \<open>Calls\<close>

type_synonym ('w, 'a) action = "'w \<Rightarrow> (test_error + 'a) \<times> 'w"
type_synonym 'w tool_caller = "string \<Rightarrow> json \<Rightarrow> ('w, json) action"

text \<open>An error of the first action is the result (\<^verbatim>\<open>?\<close>).\<close>

definition and_then :: "('w, 'a) action \<Rightarrow> ('a \<Rightarrow> ('w, 'b) action) \<Rightarrow> ('w, 'b) action" where
  "and_then m f w = (case m w of (Inl e, w') \<Rightarrow> (Inl e, w') | (Inr x, w') \<Rightarrow> f x w')"

definition give :: "'a \<Rightarrow> ('w, 'a) action" where
  "give x w = (Inr x, w)"

definition fail :: "test_error \<Rightarrow> ('w, 'a) action" where
  "fail e w = (Inl e, w)"

text \<open>\<^verbatim>\<open>match call.await { Ok(v) => .., Err(e) => .. }\<close>\<close>

definition either_way :: "('w, 'a) action \<Rightarrow> ('a \<Rightarrow> ('w, 'b) action) \<Rightarrow> (test_error \<Rightarrow> ('w, 'b) action) \<Rightarrow> ('w, 'b) action" where
  "either_way m f h w = (case m w of (Inl e, w') \<Rightarrow> h e w' | (Inr x, w') \<Rightarrow> f x w')"

definition eval_js :: "'w tool_caller \<Rightarrow> string \<Rightarrow> ('w, json) action" where
  "eval_js call code = call ''eval_js'' (JObject [(''code'', JString code)])"

definition get_ipc_log :: "'w tool_caller \<Rightarrow> nat option \<Rightarrow> ('w, json) action" where
  "get_ipc_log call limit =
     call ''logs'' (JObject ((''action'', JString ''ipc'') #
       (case limit of Some n \<Rightarrow> [(''limit'', JNumber (PosInt n))] | None \<Rightarrow> [])))"

definition logs_without_bodies :: "'w tool_caller \<Rightarrow> string \<Rightarrow> nat \<Rightarrow> ('w, json) action" where
  "logs_without_bodies call what limit =
     call ''logs'' (JObject [(''action'', JString what), (''bodies'', JBool False), (''limit'', JNumber (PosInt limit))])"

definition client_logs :: "'w tool_caller \<Rightarrow> string \<Rightarrow> nat option \<Rightarrow> ('w, json) action" where
  "client_logs call what limit =
     call ''logs'' (JObject [(''action'', JString what),
       (''limit'', case limit of Some n \<Rightarrow> JNumber (PosInt n) | None \<Rightarrow> JNull)])"

definition client_verify_state :: "'w tool_caller \<Rightarrow> string \<Rightarrow> json \<Rightarrow> ('w, json) action" where
  "client_verify_state call frontend_expr backend_state =
     call ''verify_state'' (JObject [(''backend_state'', backend_state), (''frontend_expr'', JString frontend_expr)])"

definition detect_ghost_commands :: "'w tool_caller \<Rightarrow> ('w, json) action" where
  "detect_ghost_commands call = call ''detect_ghost_commands'' (JObject [])"

definition check_ipc_integrity :: "'w tool_caller \<Rightarrow> ('w, json) action" where
  "check_ipc_integrity call = call ''check_ipc_integrity'' (JObject [])"

definition get_registry :: "'w tool_caller \<Rightarrow> ('w, json) action" where
  "get_registry call = call ''get_registry'' (JObject [])"

section \<open>Reading answers\<close>

fun json_as_array :: "json \<Rightarrow> json list option" where
  "json_as_array (JArray xs) = Some xs"
| "json_as_array _ = None"

fun json_as_bool :: "json \<Rightarrow> bool option" where
  "json_as_bool (JBool b) = Some b"
| "json_as_bool _ = None"

fun json_as_u64 :: "json \<Rightarrow> nat option" where
  "json_as_u64 (JNumber n) = number_as_u64 n"
| "json_as_u64 _ = None"

definition get_array :: "json \<Rightarrow> string \<Rightarrow> json list option" where
  "get_array v k = Option.bind (json_get v k) json_as_array"

definition get_string :: "json \<Rightarrow> string \<Rightarrow> string option" where
  "get_string v k = Option.bind (json_get v k) json_as_str"

definition get_bool :: "json \<Rightarrow> string \<Rightarrow> bool option" where
  "get_bool v k = Option.bind (json_get v k) json_as_bool"

text \<open>\<^verbatim>\<open>pointer("/ipc_capture/..")\<close>\<close>

definition ipc_capture :: "json \<Rightarrow> string \<Rightarrow> string option" where
  "ipc_capture v k = Option.bind (json_get v ''ipc_capture'') (\<lambda>c. get_string c k)"

definition ipc_integrity_is_healthy :: "json \<Rightarrow> bool" where
  "ipc_integrity_is_healthy integrity \<longleftrightarrow>
     get_bool integrity ''healthy'' = Some True \<and> ipc_capture integrity ''capture'' \<noteq> Some ''none''"

end
