(* ===== verification/Float_Text.thy ===== *)
theory Float_Text
  imports Float64
begin

text \<open>
  How Rust prints a binary64 value with a fixed number of decimals (\<^verbatim>\<open>{:.1}\<close>, \<^verbatim>\<open>{:.3}\<close>): the exact
  value rounded to the nearest decimal, ties to the even digit; and the rounding of percentages.
\<close>

definition pad_zeros :: "nat \<Rightarrow> string \<Rightarrow> string" where
  "pad_zeros n s = replicate (n - length s) (CHR ''0'') @ s"

definition fixed_digits :: "nat \<Rightarrow> rat \<Rightarrow> string" where
  "fixed_digits d r =
     (let n = nat (round_half_even (r * 10 ^ d)); whole = decimal (n div 10 ^ d)
      in if d = 0 then whole else whole @ ''.'' @ pad_zeros d (decimal (n mod 10 ^ d)))"

fun fixed :: "nat \<Rightarrow> f64 \<Rightarrow> string" where
  "fixed d F_NaN = ''NaN''"
| "fixed d F_PInf = ''inf''"
| "fixed d F_NInf = ''-inf''"
| "fixed d F_NZero = ''-'' @ fixed_digits d 0"
| "fixed d (F_Fin r) = (if r < 0 then ''-'' else []) @ fixed_digits d \<bar>r\<bar>"

text \<open>Only digits, a point, a sign and the letters of the special values.\<close>

definition number_char :: "char \<Rightarrow> bool" where
  "number_char c \<longleftrightarrow> is_ascii_digit c \<or> c \<in> set ''.-NaNinf''"

lemma decimal_number_char: "c \<in> set (decimal n) \<Longrightarrow> number_char c"
  using decimal_digits by (simp add: number_char_def)

lemma fixed_digits_char: "c \<in> set (fixed_digits d r) \<Longrightarrow> number_char c"
proof -
  have dot: "number_char (CHR ''.'')" "number_char (CHR ''0'')" by (simp_all add: number_char_def is_ascii_digit_def)
  show "c \<in> set (fixed_digits d r) \<Longrightarrow> number_char c"
    unfolding fixed_digits_def Let_def pad_zeros_def using decimal_number_char dot
    by (auto split: if_splits)
qed

lemma fixed_char: "c \<in> set (fixed d x) \<Longrightarrow> number_char c"
proof -
  have sign: "number_char (CHR ''-'')" by (simp add: number_char_def)
  show "c \<in> set (fixed d x) \<Longrightarrow> number_char c"
    using fixed_digits_char [of c] sign by (cases x) (auto simp: number_char_def split: if_splits)
qed

section \<open>Percentages\<close>

lemma round_f64_hundred: "round_f64 100 = F_Fin 100"
  using f64_of_small_nat [of 100] by (simp add: f64_of_int_def)

text \<open>The quotient of two counts, a rounded value.\<close>

lemma rounded_ratio:
  assumes "0 < d" "d \<le> n" "n \<le> 2 ^ 32"
  obtains q where "f64_div (f64_of_int (int d)) (f64_of_int (int n)) = F_Fin q" "pow2 (-32) \<le> q" "q \<le> 1"
    and "d < n \<Longrightarrow> q \<le> of_int (2 ^ 32 - 1) * pow2 (-32)"
proof -
  have fin: "f64_of_int (int d) = F_Fin (of_nat d)" "f64_of_int (int n) = F_Fin (of_nat n)"
    using assms by (intro f64_of_small_nat; simp)+
  let ?q = "of_nat d / of_nat n :: rat"
  have "(of_nat n :: rat) \<le> of_nat (2 ^ 32)" using assms(3) by (simp only: of_nat_le_iff)
  then have le: "(of_nat n :: rat) \<le> 2 ^ 32" by simp
  have "1 / 2 ^ 32 \<le> ?q" using assms le by (intro frac_le) simp_all
  then have low: "pow2 (-32) \<le> ?q" by (simp add: pow2_def)
  have pos: "0 < ?q" using assms by simp
  have high: "?q \<le> pow2 0" using assms by (simp add: pos_divide_le_eq)
  have "f64_div (f64_of_int (int d)) (f64_of_int (int n)) = F_Fin (round_mag ?q)"
    using assms round_f64_small [OF pos high] by (simp add: fin f64_div_def f64_is_inf_def)
  moreover have "pow2 (-32) \<le> round_mag ?q" using low by (intro round_mag_ge) simp_all
  moreover have "round_mag ?q \<le> 1" using round_mag_le [OF pos high] by simp
  moreover have "round_mag ?q \<le> of_int (2 ^ 32 - 1) * pow2 (-32)" if "d < n"
  proof -
    have "of_nat (d + 1) \<le> (of_nat n :: rat)" using that by (simp only: of_nat_le_iff Suc_eq_plus1 [symmetric] Suc_le_eq)
    then have "?q \<le> (of_nat n - 1) / of_nat n" using assms by (intro divide_right_mono) simp_all
    also have "\<dots> = 1 - 1 / of_nat n" using assms by (simp add: diff_divide_distrib)
    also have "\<dots> \<le> 1 - 1 / 2 ^ 32" using assms le by (intro diff_left_mono frac_le) simp_all
    finally have "?q \<le> of_int (2 ^ 32 - 1) * pow2 (-32)" by (simp add: pow2_def)
    then show ?thesis by (rule round_mag_grid(2) [OF pos high, rotated 2]) simp_all
  qed
  ultimately show ?thesis by (rule that)
qed

text \<open>A fraction below 1 by one part in \<open>2 ^ 32\<close> stays below 100 as a percentage.\<close>

lemma percent_below:
  assumes "0 \<le> s" "s \<le> of_int (2 ^ 32 - 1) * pow2 (-32)"
  shows "\<exists>r. f64_mul (F_Fin s) (F_Fin 100) = F_Fin r \<and> r < 100"
proof (cases "s * 100 = 0")
  case True
  then show ?thesis using assms(1) by (simp add: f64_mul_def f64_is_inf_def f64_is_zero_def)
next
  case False
  then have p: "0 < s * 100" using assms(1) by linarith
  have g: "s * 100 \<le> of_int (100 * (2 ^ 32 - 1)) * pow2 (-32)" using assms(2) by (simp add: pow2_def)
  have t: "s * 100 \<le> pow2 7" using assms(2) by (simp add: pow2_def)
  have "round_mag (s * 100) \<le> of_int (100 * (2 ^ 32 - 1)) * pow2 (-32)"
    by (rule round_mag_grid(2) [OF p t _ _ g]) simp_all
  then have "round_mag (s * 100) < 100" by (simp add: pow2_def)
  then show ?thesis using False round_f64_small [OF p t] by (simp add: f64_mul_def f64_is_inf_def f64_is_zero_def)
qed

end
