(* ===== verification/Collections.thy ===== *)
theory Collections
  imports Victauri_Prelude "HOL-Library.Multiset"
begin

text \<open>
  The containers of Rust's standard library the components use: sorted maps (\<^verbatim>\<open>BTreeMap\<close>), hash
  maps, stable sorting, \<^verbatim>\<open>min_by_key\<close>; and the interface \<open>recency_store\<close> of a capped store that
  forgets the least recently written key.
\<close>

section \<open>Ordered maps\<close>

text \<open>\<^verbatim>\<open>BTreeMap\<close> as an association list in strictly increasing key order.\<close>

fun bt_insert :: "'k :: linorder \<Rightarrow> 'v \<Rightarrow> ('k \<times> 'v) list \<Rightarrow> ('k \<times> 'v) list" where
  "bt_insert k v [] = [(k, v)]"
| "bt_insert k v ((k', v') # m) =
     (if k < k' then (k, v) # (k', v') # m
      else if k = k' then (k, v) # m
      else (k', v') # bt_insert k v m)"

lemma bt_insert_keys: "fst ` set (bt_insert k v m) = insert k (fst ` set m)"
  by (induction k v m rule: bt_insert.induct) auto

lemma bt_insert_sorted: "sorted_wrt (<) (map fst m) \<Longrightarrow> sorted_wrt (<) (map fst (bt_insert k v m))"
proof (induction m)
  case Nil
  then show ?case by simp
next
  case (Cons kv m)
  obtain k' v' where kv: "kv = (k', v')" by (cases kv)
  have IH: "sorted_wrt (<) (map fst (bt_insert k v m))" using Cons by simp
  have ge: "\<forall>x \<in> fst ` set (bt_insert k v m). k' < x" if "k' < k"
    unfolding bt_insert_keys using Cons.prems that by (auto simp: kv)
  consider "k < k'" | "k = k'" | "k' < k" by (metis linorder_neqE)
  then show ?case
  proof cases
    case 1
    then show ?thesis using Cons.prems by (auto simp: kv)
  next
    case 2
    then show ?thesis using Cons.prems by (auto simp: kv)
  next
    case 3
    then show ?thesis using ge [OF 3] IH by (auto simp: kv)
  qed
qed

lemma bt_insert_lookup: "map_of (bt_insert k v m) = (map_of m)(k \<mapsto> v)"
  by (induction m) auto

lemma bt_insert_set: "set (bt_insert k v m) \<subseteq> insert (k, v) (set m)"
  by (induction k v m rule: bt_insert.induct) auto

lemma bt_insert_fresh_mset:
  "k \<notin> fst ` set m \<Longrightarrow> mset (bt_insert k v m) = add_mset (k, v) (mset m)"
  by (induction k v m rule: bt_insert.induct) auto

section \<open>Sorting\<close>

text \<open>\<^verbatim>\<open>sort_by\<close> is a stable sort; inserting from the right is one.\<close>

fun insert_by :: "('x \<Rightarrow> 'x \<Rightarrow> bool) \<Rightarrow> 'x \<Rightarrow> 'x list \<Rightarrow> 'x list" where
  "insert_by le x [] = [x]"
| "insert_by le x (y # ys) = (if le x y then x # y # ys else y # insert_by le x ys)"

definition sort_by :: "('x \<Rightarrow> 'x \<Rightarrow> bool) \<Rightarrow> 'x list \<Rightarrow> 'x list" where
  "sort_by le xs = foldr (insert_by le) xs []"

lemma insert_by_mset: "mset (insert_by le x ys) = add_mset x (mset ys)"
  by (induction ys) auto

lemma sort_by_mset: "mset (sort_by le xs) = mset xs"
  by (induction xs) (simp_all add: sort_by_def insert_by_mset)

lemma sort_by_map_mset: "mset (map f (sort_by le xs)) = mset (map f xs)"
  by (simp add: sort_by_mset)

lemma sort_by_set [simp]: "set (sort_by le xs) = set xs"
  by (metis set_mset_mset sort_by_mset)

lemma insert_by_sorted:
  assumes "\<And>a b. le a b \<or> le b a" "\<And>a b c. le a b \<Longrightarrow> le b c \<Longrightarrow> le a c" "sorted_wrt le ys"
  shows "sorted_wrt le (insert_by le x ys)"
  using assms(3)
proof (induction ys)
  case Nil
  then show ?case by simp
next
  case (Cons y ys)
  have s: "set (insert_by le x ys) = insert x (set ys)"
    using arg_cong [OF insert_by_mset [of le x ys], of set_mset] by simp
  show ?case
  proof (cases "le x y")
    case True
    then show ?thesis using Cons.prems assms(2) by auto
  next
    case False
    then have "le y x" using assms(1) by blast
    then show ?thesis using Cons False by (auto simp: s)
  qed
qed

lemma sort_by_sorted:
  assumes "\<And>a b. le a b \<or> le b a" "\<And>a b c. le a b \<Longrightarrow> le b c \<Longrightarrow> le a c"
  shows "sorted_wrt le (sort_by le xs)"
proof (induction xs)
  case (Cons x xs)
  then show ?case using insert_by_sorted [OF assms Cons] by (simp add: sort_by_def)
qed (simp add: sort_by_def)

text \<open>An order that is total and transitive on the elements sorted is enough.\<close>

lemma insert_by_sorted_on:
  assumes "x \<in> S" "set ys \<subseteq> S" "\<And>a b. a \<in> S \<Longrightarrow> b \<in> S \<Longrightarrow> le a b \<or> le b a"
    and "\<And>a b c. a \<in> S \<Longrightarrow> b \<in> S \<Longrightarrow> c \<in> S \<Longrightarrow> le a b \<Longrightarrow> le b c \<Longrightarrow> le a c" "sorted_wrt le ys"
  shows "sorted_wrt le (insert_by le x ys)"
  using assms(2,5)
proof (induction ys)
  case (Cons y ys)
  have s: "set (insert_by le x ys) = insert x (set ys)"
    using arg_cong [OF insert_by_mset [of le x ys], of set_mset] by simp
  have S: "y \<in> S" "\<And>z. z \<in> set ys \<Longrightarrow> z \<in> S" using Cons.prems(1) by auto
  show ?case
  proof (cases "le x y")
    case True
    have "le x z" if "z \<in> set ys" for z
      using assms(4) [OF assms(1) S(1) S(2) [OF that] True] Cons.prems(2) that by simp
    then show ?thesis using Cons.prems(2) True by simp
  next
    case False
    then have "le y x" using assms(3) [OF assms(1) S(1)] by blast
    then show ?thesis using Cons False by (auto simp: s)
  qed
qed simp

lemma sort_by_sorted_on:
  assumes "\<And>a b. a \<in> set xs \<Longrightarrow> b \<in> set xs \<Longrightarrow> le a b \<or> le b a"
    and "\<And>a b c. a \<in> set xs \<Longrightarrow> b \<in> set xs \<Longrightarrow> c \<in> set xs \<Longrightarrow> le a b \<Longrightarrow> le b c \<Longrightarrow> le a c"
  shows "sorted_wrt le (sort_by le xs)"
proof -
  have "sorted_wrt le (sort_by le ys)" if "set ys \<subseteq> set xs" for ys
    using that
  proof (induction ys)
    case (Cons y ys)
    then have "sorted_wrt le (sort_by le ys)" "y \<in> set xs" "set (sort_by le ys) \<subseteq> set xs" by auto
    then have "sorted_wrt le (insert_by le y (sort_by le ys))"
    proof (intro insert_by_sorted_on [where S = "set xs" and le = le])
      show "le a b \<or> le b a" if "a \<in> set xs" "b \<in> set xs" for a b using that by (rule assms(1))
      show "le a c" if "a \<in> set xs" "b \<in> set xs" "c \<in> set xs" "le a b" "le b c" for a b c
        using that by (rule assms(2))
    qed assumption+
    then show ?case by (simp add: sort_by_def)
  qed (simp add: sort_by_def)
  then show ?thesis by blast
qed

section \<open>Hash maps\<close>

text \<open>
  A \<^verbatim>\<open>HashMap\<close> is an association list with distinct keys.  The list is in the order of the last
  insertion of each key; Rust leaves the iteration order open, so statements about what iteration
  yields are about sets or multisets.
\<close>

definition hm_insert :: "'k \<Rightarrow> 'v \<Rightarrow> ('k \<times> 'v) list \<Rightarrow> ('k \<times> 'v) list" where
  "hm_insert k v m = filter (\<lambda>e. fst e \<noteq> k) m @ [(k, v)]"

definition hm_remove :: "'k \<Rightarrow> ('k \<times> 'v) list \<Rightarrow> ('k \<times> 'v) list" where
  "hm_remove k m = filter (\<lambda>e. fst e \<noteq> k) m"

text \<open>Changing the value in place (\<^verbatim>\<open>get_mut\<close>).\<close>

definition hm_alter :: "'k \<Rightarrow> ('v \<Rightarrow> 'v) \<Rightarrow> ('k \<times> 'v) list \<Rightarrow> ('k \<times> 'v) list" where
  "hm_alter k f m = map (\<lambda>e. if fst e = k then (k, f (snd e)) else e) m"

fun min_by_key :: "('a \<Rightarrow> nat) \<Rightarrow> 'a list \<Rightarrow> 'a option" where
  "min_by_key f [] = None"
| "min_by_key f (x # xs) =
     (case min_by_key f xs of None \<Rightarrow> Some x | Some y \<Rightarrow> if f y < f x then Some y else Some x)"

lemma map_fst_filter: "map fst (filter (\<lambda>e. fst e \<noteq> k) m) = removeAll k (map fst m)"
  by (induction m) auto

lemma hm_insert_keys: "map fst (hm_insert k v m) = removeAll k (map fst m) @ [k]"
  by (simp add: hm_insert_def map_fst_filter)

lemma hm_remove_keys: "map fst (hm_remove k m) = removeAll k (map fst m)"
  by (simp add: hm_remove_def map_fst_filter)

lemma hm_alter_keys [simp]: "map fst (hm_alter k f m) = map fst m"
  by (simp add: hm_alter_def)

lemma map_of_filter_key: "map_of (filter (\<lambda>e. fst e \<noteq> k) m) = (map_of m)(k := None)"
  by (induction m) (auto simp: fun_eq_iff)

lemma hm_insert_lookup: "map_of (hm_insert k v m) = (map_of m)(k \<mapsto> v)"
  by (auto simp: hm_insert_def map_of_filter_key map_add_def fun_eq_iff split: option.splits)

lemma hm_remove_lookup: "map_of (hm_remove k m) = (map_of m)(k := None)"
  by (simp add: hm_remove_def map_of_filter_key)

lemma hm_alter_lookup: "map_of (hm_alter k f m) = (map_of m)(k := map_option f (map_of m k))"
  by (induction m) (auto simp: hm_alter_def fun_eq_iff)

lemma map_of_filter_distinct:
  "distinct (map fst m) \<Longrightarrow>
   map_of (filter P m) k = (case map_of m k of Some v \<Rightarrow> if P (k, v) then Some v else None | None \<Rightarrow> None)"
proof (induction m)
  case (Cons e m)
  have "map_of (filter P m) (fst e) = None" "map_of m (fst e) = None"
    using Cons.prems by (auto simp: map_of_eq_None_iff)
  then show ?case using Cons by (cases e) (auto split: option.splits)
qed simp

lemma distinct_removeAll_snoc: "distinct xs \<Longrightarrow> distinct (removeAll k xs @ [k])"
  by (simp add: distinct_removeAll)

lemma min_by_key_None [simp]: "min_by_key f xs = None \<longleftrightarrow> xs = []"
  by (cases xs) (auto split: option.splits)

lemma min_by_key_least: "min_by_key f xs = Some x \<Longrightarrow> x \<in> set xs \<and> (\<forall>y \<in> set xs. f x \<le> f y)"
  by (induction xs arbitrary: x) (fastforce split: option.splits if_splits)+

lemma min_by_key_sorted: "sorted_wrt (\<lambda>a b. f a < f b) (x # xs) \<Longrightarrow> min_by_key f (x # xs) = Some x"
proof -
  assume s: "sorted_wrt (\<lambda>a b. f a < f b) (x # xs)"
  show ?thesis
  proof (cases "min_by_key f xs")
    case (Some y)
    then have "y \<in> set xs" by (blast dest: min_by_key_least)
    then show ?thesis using s Some by auto
  qed simp
qed

section \<open>Budgets\<close>

text \<open>The longest run of newest elements that is within a budget.\<close>

fun longest_keep :: "('a list \<Rightarrow> bool) \<Rightarrow> 'a list \<Rightarrow> 'a list" where
  "longest_keep ok [] = []"
| "longest_keep ok (x # xs) = (if ok (x # xs) then x # xs else longest_keep ok xs)"

lemma longest_keep_suffix: "suffix (longest_keep ok xs) xs"
  by (induction xs) (auto intro: suffix_ConsI)

lemma longest_keep_ok: "ok [] \<Longrightarrow> ok (longest_keep ok xs)"
  by (induction xs) auto

lemma longest_keep_longest: "suffix ys xs \<Longrightarrow> ok ys \<Longrightarrow> length ys \<le> length (longest_keep ok xs)"
  by (induction xs) (auto simp: suffix_Cons dest: suffix_length_le)

lemma longest_keep_id: "ok xs \<Longrightarrow> longest_keep ok xs = xs"
  by (cases xs) auto

text \<open>
  A log that evicts its oldest entries until the rest is within its budget.  What \<open>push e\<close> appends is
  \<open>stamp s e\<close>.
\<close>

locale budget_log =
  fixes inv :: "'s \<Rightarrow> bool"
    and items :: "'s \<Rightarrow> 'a list"
    and ok :: "'s \<Rightarrow> 'a list \<Rightarrow> bool"
    and stamp :: "'s \<Rightarrow> 'e \<Rightarrow> 'a"
    and push :: "'e \<Rightarrow> 's \<Rightarrow> 's"
  assumes inv_push: "inv s \<Longrightarrow> inv (push e s)"
    and items_push: "inv s \<Longrightarrow> items (push e s) = longest_keep (ok s) (items s @ [stamp s e])"
    and ok_push: "inv s \<Longrightarrow> ok (push e s) = ok s"
    and ok_Nil: "ok s []"
    and ok_butlast: "ok s (xs @ [x]) \<Longrightarrow> ok s xs"
begin

lemma keep_snoc: "longest_keep (ok s) (longest_keep (ok s) xs @ [x]) = longest_keep (ok s) (xs @ [x])"
proof (induction xs)
  case (Cons y xs)
  have "\<not> ok s (y # xs @ [x])" if "\<not> ok s (y # xs)"
    using that ok_butlast [of s "y # xs" x] by auto
  then show ?case using Cons by auto
qed simp

text \<open>The log is the longest run of the newest entries of its history, one push after the other.\<close>

lemma push_history:
  "inv s \<Longrightarrow> items s = longest_keep (ok s) h \<Longrightarrow>
   items (push e s) = longest_keep (ok (push e s)) (h @ [stamp s e])"
  by (simp add: items_push ok_push keep_snoc)

lemma within_budget: "inv s \<Longrightarrow> ok (push e s) (items (push e s))"
  by (simp add: items_push ok_push longest_keep_ok ok_Nil)

lemma newest_last: "inv s \<Longrightarrow> ok s [stamp s e] \<Longrightarrow> items (push e s) \<noteq> [] \<and> last (items (push e s)) = stamp s e"
proof -
  assume "inv s" "ok s [stamp s e]"
  moreover have "suffix [stamp s e] (items s @ [stamp s e])" by (simp add: suffix_def)
  ultimately have len: "0 < length (items (push e s))"
    using longest_keep_longest [of "[stamp s e]" "items s @ [stamp s e]" "ok s"]
    by (fastforce simp: items_push)
  then have ne: "items (push e s) \<noteq> []" by simp
  have "suffix (items (push e s)) (items s @ [stamp s e])"
    using longest_keep_suffix [of "ok s" "items s @ [stamp s e]"] \<open>inv s\<close> by (simp only: items_push)
  then show ?thesis using ne by (auto simp: suffix_def) (metis last_appendR last_snoc)
qed

end

section \<open>Recency\<close>

text \<open>The keys of a history of writes, most recently written first, each once.\<close>

definition recency :: "'k list \<Rightarrow> 'k list" where
  "recency h = fold (\<lambda>k r. k # removeAll k r) h []"

lemma recency_snoc: "recency (h @ [k]) = k # removeAll k (recency h)"
  by (simp add: recency_def)

lemma removeAll_rev: "removeAll k (rev xs) = rev (removeAll k xs)"
  by (simp add: removeAll_filter_not_eq rev_filter)

lemma take_removeAll:
  "distinct xs \<Longrightarrow> take n (removeAll k (take (Suc n) xs)) = take n (removeAll k xs)"
proof (induction xs arbitrary: n)
  case (Cons x xs)
  show ?case
  proof (cases "x = k")
    case True
    then have "k \<notin> set xs" using Cons.prems by simp
    then have "k \<notin> set (take n xs)" using set_take_subset [of n xs] by blast
    then show ?thesis using True \<open>k \<notin> set xs\<close> by (simp add: removeAll_id)
  next
    case False
    then show ?thesis using Cons by (cases n) simp_all
  qed
qed simp

text \<open>
  A store with room for \<open>cap\<close> keys: writing a key makes it the newest; writing a new key into a full
  store drops the oldest.
\<close>

locale recency_store =
  fixes inv :: "'s \<Rightarrow> bool"
    and keys :: "'s \<Rightarrow> 'k list"
    and cap :: nat
    and put :: "'k \<Rightarrow> 'v \<Rightarrow> 's \<Rightarrow> 's"
  assumes cap_pos: "0 < cap"
    and inv_put: "inv s \<Longrightarrow> inv (put k v s)"
    and keys_distinct: "inv s \<Longrightarrow> distinct (keys s)"
    and keys_put: "inv s \<Longrightarrow> keys (put k v s) =
      (if k \<notin> set (keys s) \<and> cap \<le> length (keys s) then tl (keys s) else removeAll k (keys s)) @ [k]"
begin

lemma newest: "inv s \<Longrightarrow> keys (put k v s) \<noteq> [] \<and> last (keys (put k v s)) = k"
  by (simp add: keys_put)

lemma bounded_put: "inv s \<Longrightarrow> length (keys s) \<le> cap \<Longrightarrow> length (keys (put k v s)) \<le> cap"
proof -
  assume s: "inv s" "length (keys s) \<le> cap"
  show ?thesis
  proof (cases "k \<in> set (keys s)")
    case True
    then have "length (removeAll k (keys s)) < length (keys s)" by (rule length_removeAll_less)
    then show ?thesis using True s by (simp add: keys_put)
  next
    case False
    then show ?thesis using s cap_pos by (auto simp: keys_put removeAll_id)
  qed
qed

lemma put_recency:
  assumes "inv s" "length (keys s) \<le> cap" "rev (keys s) = take cap r" "distinct r"
  shows "rev (keys (put k v s)) = take cap (k # removeAll k r)"
proof -
  obtain n where n: "cap = Suc n" using cap_pos by (cases cap) auto
  have tr: "take n (removeAll k r) = take n (removeAll k (rev (keys s)))"
    unfolding assms(3) n using take_removeAll [OF assms(4), of n k] by simp
  show ?thesis
  proof (cases "k \<in> set (keys s)")
    case True
    then have "length (removeAll k (keys s)) < length (keys s)" by (rule length_removeAll_less)
    then show ?thesis using True assms(1,2) n by (simp add: keys_put tr removeAll_rev)
  next
    case False
    then have "removeAll k (rev (keys s)) = rev (keys s)" by (simp add: removeAll_id)
    moreover have "rev (tl (keys s)) = take n (rev (keys s))" if "cap \<le> length (keys s)"
      using that assms(2) n by (cases "keys s") simp_all
    ultimately show ?thesis using False assms(1,2) n by (auto simp: keys_put tr removeAll_id not_le)
  qed
qed

lemma recency_distinct: "distinct (recency h)"
proof (induction h rule: rev_induct)
  case (snoc k h)
  then show ?case by (simp add: recency_snoc distinct_removeAll)
qed (simp add: recency_def)

text \<open>After any history of writes the store holds the \<open>cap\<close> most recently written keys.\<close>

lemma history:
  assumes "inv s" "keys s = []"
  shows "inv (fold (\<lambda>(k, v). put k v) h s) \<and> length (keys (fold (\<lambda>(k, v). put k v) h s)) \<le> cap \<and>
         rev (keys (fold (\<lambda>(k, v). put k v) h s)) = take cap (recency (map fst h))"
proof (induction h rule: rev_induct)
  case Nil
  then show ?case using assms by (simp add: recency_def)
next
  case (snoc kv h)
  then show ?case
    using put_recency [OF _ _ _ recency_distinct] inv_put bounded_put
    by (auto simp: recency_snoc split: prod.split)
qed

end

section \<open>Numbered variants of a key\<close>

text \<open>
  The first number after \<open>n\<close> whose variant \<open>key<sep>number\<close> is not taken.  The search ends because the
  variants of a key are distinct and finitely many keys are taken.
\<close>

definition suffixed :: "string \<Rightarrow> string \<Rightarrow> nat \<Rightarrow> string" where
  "suffixed sep k n = k @ sep @ decimal n"

lemma suffixed_inj: "suffixed sep k m = suffixed sep k n \<longleftrightarrow> m = n"
  by (simp add: suffixed_def decimal_inj)

lemma finite_suffixes: "finite {i. n < i \<and> suffixed sep k i \<in> set ks}"
proof (rule finite_subset)
  show "{i. n < i \<and> suffixed sep k i \<in> set ks} \<subseteq> suffixed sep k -` set ks" by auto
  show "finite (suffixed sep k -` set ks)"
    by (rule finite_vimageI) (auto simp: inj_def suffixed_inj)
qed

function next_suffix :: "string \<Rightarrow> string list \<Rightarrow> string \<Rightarrow> nat \<Rightarrow> nat" where
  "next_suffix sep ks k n = (if suffixed sep k (n + 1) \<in> set ks then next_suffix sep ks k (n + 1) else n + 1)"
  by pat_completeness auto
termination
proof (relation "measure (\<lambda>(sep, ks, k, n). card {i. n < i \<and> suffixed sep k i \<in> set ks})")
  fix sep ks k and n :: nat
  assume "suffixed sep k (n + 1) \<in> set ks"
  then have "{i. n + 1 < i \<and> suffixed sep k i \<in> set ks} \<subset> {i. n < i \<and> suffixed sep k i \<in> set ks}"
    by auto
  then show "((sep, ks, k, n + 1), sep, ks, k, n) \<in> measure (\<lambda>(sep, ks, k, n). card {i. n < i \<and> suffixed sep k i \<in> set ks})"
    by (simp add: psubset_card_mono finite_suffixes)
qed simp

declare next_suffix.simps [simp del]

lemma next_suffix_fresh: "suffixed sep k (next_suffix sep ks k n) \<notin> set ks"
proof (induction sep ks k n rule: next_suffix.induct)
  case (1 sep ks k n)
  then show ?case by (subst next_suffix.simps) auto
qed

lemma next_suffix_least:
  "n < next_suffix sep ks k n \<and> (\<forall>i. n < i \<longrightarrow> i < next_suffix sep ks k n \<longrightarrow> suffixed sep k i \<in> set ks)"
proof (induction sep ks k n rule: next_suffix.induct)
  case (1 sep ks k n)
  show ?case
  proof (cases "suffixed sep k (n + 1) \<in> set ks")
    case True
    then have step: "next_suffix sep ks k n = next_suffix sep ks k (n + 1)" by (subst next_suffix.simps) simp
    have "suffixed sep k i \<in> set ks" if "n < i" "i < next_suffix sep ks k (n + 1)" for i
      using that True 1 [OF True] by (cases "i = n + 1") auto
    then show ?thesis using 1 [OF True] unfolding step by auto
  next
    case False
    then show ?thesis by (subst (1 2) next_suffix.simps) simp
  qed
qed

end
