(* ===== verification/Coverage_Report.thy ===== *)
theory Coverage_Report
  imports Test_Client Float_Text Collections
begin

text \<open>
  IPC coverage (\<^verbatim>\<open>victauri-test/src/coverage.rs\<close>): which registered commands a test run has called,
  from the plugin's own answer or, for a plugin without it, from the log.
\<close>

section \<open>The report\<close>

record command_calls =
  cc_name :: string
  cc_calls :: nat

record cov_report =
  cov_total_commands :: nat
  cov_tested_commands :: nat
  cov_percentage :: f64
  cov_untested :: "string list"
  cov_most_called :: "command_calls list"
  cov_note :: "string option"

definition meets_threshold :: "cov_report \<Rightarrow> f64 \<Rightarrow> bool" where
  "meets_threshold r threshold = f64_le threshold (cov_percentage r)"

text \<open>\<^verbatim>\<open>{:>4}\<close>\<close>

definition right_align :: "nat \<Rightarrow> string \<Rightarrow> string" where
  "right_align n s = replicate (n - length s) (CHR '' '') @ s"

definition to_summary :: "cov_report \<Rightarrow> string" where
  "to_summary r =
     ''IPC Coverage: '' @ fixed 1 (cov_percentage r) @ ''% ('' @ decimal (cov_tested_commands r) @ ''/'' @
       decimal (cov_total_commands r) @ '' commands tested)'' @ [newline] @
     (case cov_note r of Some note \<Rightarrow> ''Note: '' @ single_line note @ [newline] | None \<Rightarrow> []) @
     (if cov_most_called r \<noteq> [] then
        [newline] @ ''Most called:'' @ [newline] @
        concat (map (\<lambda>c. ''  '' @ right_align 4 (decimal (cc_calls c)) @ ''x  '' @ single_line (cc_name c) @ [newline])
                 (take 10 (cov_most_called r)))
      else []) @
     (if cov_untested r \<noteq> [] then
        [newline] @ ''Untested ('' @ decimal (length (cov_untested r)) @ ''):'' @ [newline] @
        concat (map (\<lambda>n. ''  - '' @ single_line n @ [newline]) (take 20 (cov_untested r))) @
        (if length (cov_untested r) > 20 then ''  ... and '' @ decimal (length (cov_untested r) - 20) @ '' more'' @ [newline] else [])
      else [])"

section \<open>Reading the answers\<close>

text \<open>\<^verbatim>\<open>collect\<close> into a map keeps the last entry of a key.\<close>

definition call_counts :: "json \<Rightarrow> string \<Rightarrow> nat option" where
  "call_counts timings =
     map_of (rev (List.map_filter (\<lambda>entry.
       Option.bind (get_string entry ''command'') (\<lambda>name.
       Option.bind (Option.bind (json_get entry ''call_count'') json_as_u64) (\<lambda>n. Some (name, n))))
       (case get_array timings ''ipc_traffic'' of Some xs \<Rightarrow> xs | None \<Rightarrow> [])))"

definition extract_strings :: "json \<Rightarrow> string list" where
  "extract_strings list = (case json_as_array list of Some xs \<Rightarrow> List.map_filter json_as_str xs | None \<Rightarrow> [])"

definition coverage_note :: "json \<Rightarrow> string option" where
  "coverage_note coverage =
     (case ipc_capture coverage ''capture'' of
        Some capture \<Rightarrow>
          if capture = ''none'' \<or> capture = ''requests_only''
          then Some (''IPC capture on this page is `'' @ capture @ ''`, so calls may be missing'')
          else if Option.bind (json_get coverage ''ipc_calls_observed'') json_as_u64 = Some 0
          then Some ''no IPC calls were observed on the live log'' else None
      | None \<Rightarrow>
          if Option.bind (json_get coverage ''ipc_calls_observed'') json_as_u64 = Some 0
          then Some ''no IPC calls were observed on the live log'' else None)"

definition extract_command_names :: "json \<Rightarrow> string list" where
  "extract_command_names registry =
     (case json_as_array registry of
        Some xs \<Rightarrow> List.map_filter (\<lambda>v. get_string v ''name'') xs
      | None \<Rightarrow>
          (case get_array registry ''commands'' of
             Some xs \<Rightarrow> List.map_filter (\<lambda>v. get_string v ''name'') xs
           | None \<Rightarrow> []))"

definition extract_ipc_commands :: "json \<Rightarrow> string list" where
  "extract_ipc_commands ipc_log =
     (case json_as_array ipc_log of
        Some xs \<Rightarrow>
          List.map_filter (\<lambda>v. get_string v ''command'')
            (filter (\<lambda>v. json_get v ''mocked'' \<noteq> Some (JBool True) \<and> json_get v ''blocked'' \<noteq> Some (JBool True)) xs)
      | None \<Rightarrow> [])"

section \<open>Building the report\<close>

text \<open>The name of a command without the plugin it belongs to.\<close>

definition clean_name :: "string \<Rightarrow> string" where
  "clean_name cmd =
     (case strip_prefix ''plugin:'' cmd of
        Some s \<Rightarrow> (let parts = split_on (\<lambda>c. c = CHR ''|'') s in if 1 < length parts then parts ! 1 else cmd)
      | None \<Rightarrow> cmd)"

fun count_calls :: "string list \<Rightarrow> (string \<Rightarrow> nat option) \<Rightarrow> (string \<Rightarrow> nat option)" where
  "count_calls [] counts = counts"
| "count_calls (cmd # called) counts =
     (let name = clean_name cmd
      in count_calls called (counts(name \<mapsto> (case counts name of Some n \<Rightarrow> n | None \<Rightarrow> 0) + 1)))"

fun sort_out :: "(string \<Rightarrow> nat option) \<Rightarrow> string list \<Rightarrow> nat \<times> string list \<times> command_calls list \<Rightarrow> nat \<times> string list \<times> command_calls list" where
  "sort_out counts [] acc = acc"
| "sort_out counts (name # registered) (tested, untested, most_called) =
     (let clean = clean_name name
      in case counts clean of
           Some n \<Rightarrow> sort_out counts registered (tested + 1, untested, most_called @ [\<lparr>cc_name = clean, cc_calls = n\<rparr>])
         | None \<Rightarrow> sort_out counts registered (tested, untested @ [clean], most_called))"

definition build_report :: "string list \<Rightarrow> string list \<Rightarrow> cov_report" where
  "build_report registered called =
     (let counts = count_calls called (\<lambda>_. None);
          total_commands = length registered;
          (tested, untested, most_called) = sort_out counts registered (0, [], [])
      in \<lparr>cov_total_commands = total_commands, cov_tested_commands = tested,
          cov_percentage =
            (if total_commands = 0 then F_Fin 0
             else f64_mul (f64_div (f64_of_int (int tested)) (f64_of_int (int total_commands))) (F_Fin 100)),
          cov_untested = sort_by (\<lambda>a b. a \<le> b) untested,
          cov_most_called = sort_by (\<lambda>a b. cc_calls b \<le> cc_calls a) most_called,
          cov_note = None\<rparr>)"

definition LOG_WINDOW :: nat where
  "LOG_WINDOW = 1000"

definition old_plugin_note :: string where
  "old_plugin_note = ''this plugin has no usable `introspect coverage`; computed from the newest 1000 IPC log entries''"

text \<open>The plugin's answer, or \<open>None\<close> where it has no usable one.\<close>

definition plugin_coverage :: "'w tool_caller \<Rightarrow> ('w, json option) action" where
  "plugin_coverage call =
     either_way (call ''introspect'' (JObject [(''action'', JString ''coverage'')]))
       (\<lambda>result. give (if get_array result ''uncovered'' \<noteq> None then Some result else None))
       (\<lambda>e. case e of Tool_Error _ \<Rightarrow> give None | Test_Mcp _ _ \<Rightarrow> give None | other \<Rightarrow> fail other)"

definition called_commands :: "string list \<Rightarrow> string list \<Rightarrow> (string \<Rightarrow> nat option) \<Rightarrow> string list" where
  "called_commands registered uncovered counts =
     concat (map (\<lambda>name. replicate (max (case counts name of Some n \<Rightarrow> n | None \<Rightarrow> 0) 1) name)
       (filter (\<lambda>name. name \<notin> set uncovered) registered))"

definition coverage_report :: "'w tool_caller \<Rightarrow> ('w, cov_report) action" where
  "coverage_report call =
     and_then (get_registry call) (\<lambda>registry.
       let registered = extract_command_names registry
       in and_then (plugin_coverage call) (\<lambda>plugin.
            case plugin of
              None \<Rightarrow>
                and_then (logs_without_bodies call ''ipc'' LOG_WINDOW) (\<lambda>ipc_log.
                  give (build_report registered (extract_ipc_commands ipc_log)\<lparr>cov_note := Some old_plugin_note\<rparr>))
            | Some coverage \<Rightarrow>
                and_then
                  (either_way (call ''introspect'' (JObject [(''action'', JString ''command_timings'')]))
                    (\<lambda>timings. give (call_counts timings))
                    (\<lambda>e. case e of Tool_Error _ \<Rightarrow> give (\<lambda>_. None) | Test_Mcp _ _ \<Rightarrow> give (\<lambda>_. None) | other \<Rightarrow> fail other))
                  (\<lambda>counts.
                    give (build_report registered
                      (called_commands registered (extract_strings (json_index coverage ''uncovered'')) counts)
                      \<lparr>cov_note := coverage_note coverage\<rparr>))))"

section \<open>What the report says\<close>

lemma count_calls_exact:
  "count_calls called counts name =
     (let n = count_list (map clean_name called) name + (case counts name of Some n \<Rightarrow> n | None \<Rightarrow> 0)
      in if counts name = None \<and> name \<notin> clean_name ` set called then None else Some n)"
proof (induction called arbitrary: counts)
  case Nil
  then show ?case by (auto split: option.splits)
next
  case (Cons cmd called)
  then show ?case by (cases "clean_name cmd = name") (auto simp: Let_def split: option.splits)
qed

lemma counted_calls:
  "count_calls called (\<lambda>_. None) name = (if name \<in> clean_name ` set called then Some (count_list (map clean_name called) name) else None)"
  by (simp add: count_calls_exact Let_def)

lemma sort_out_exact:
  "sort_out counts registered (tested, untested, most_called) =
     (tested + length (filter (\<lambda>n. counts (clean_name n) \<noteq> None) registered),
      untested @ filter (\<lambda>n. counts n = None) (map clean_name registered),
      most_called @ map (\<lambda>n. \<lparr>cc_name = n, cc_calls = the (counts n)\<rparr>) (filter (\<lambda>n. counts n \<noteq> None) (map clean_name registered)))"
  by (induction registered arbitrary: tested untested most_called) (auto simp: Let_def split: option.splits)

lemma filter_counts: "length (filter P xs) + length (filter (\<lambda>x. \<not> P x) xs) = length xs"
  by (induction xs) auto

lemma tested_fraction:
  assumes "t \<le> n" "0 < n" "n \<le> 2 ^ 32"
  shows "f64_le (F_Fin 100) (f64_mul (f64_div (f64_of_int (int t)) (f64_of_int (int n))) (F_Fin 100)) \<longleftrightarrow> t = n"
proof (cases "t = 0")
  case True
  have "f64_of_int (int n) = F_Fin (of_nat n)" using assms by (intro f64_of_small_nat) simp_all
  moreover have "f64_div (F_Fin 0) (F_Fin (of_nat n)) = F_Fin 0" using assms(2) by (intro f64_div_zero) simp
  ultimately show ?thesis using True assms(2)
    by (simp add: f64_of_int_def [of 0] f64_mul_def f64_is_inf_def f64_is_zero_def f64_le_def)
next
  case False
  then obtain q where q: "f64_div (f64_of_int (int t)) (f64_of_int (int n)) = F_Fin q" "pow2 (-32) \<le> q"
      "t < n \<Longrightarrow> q \<le> of_int (2 ^ 32 - 1) * pow2 (-32)"
    using rounded_ratio [of t n] assms by (metis bot_nat_0.not_eq_extremum)
  show ?thesis
  proof (cases "t = n")
    case True
    have "f64_of_int (int n) = F_Fin (of_nat n)" using assms by (intro f64_of_small_nat) simp_all
    moreover have "round_f64 1 = F_Fin 1" using f64_of_small_nat [of 1] by (simp add: f64_of_int_def)
    ultimately have "f64_div (f64_of_int (int t)) (f64_of_int (int n)) = F_Fin 1"
      using True assms(2) by (simp add: f64_div_def f64_is_inf_def)
    then show ?thesis using True by (simp add: f64_mul_def f64_is_inf_def f64_is_zero_def f64_le_def round_f64_hundred)
  next
    case less: False
    have "0 \<le> q" using q(2) pow2_pos [of "-32"] by linarith
    then obtain r where "f64_mul (F_Fin q) (F_Fin 100) = F_Fin r" "r < 100"
      using percent_below q(3) less assms(1) by (metis le_neq_implies_less)
    then show ?thesis using less by (simp add: q(1) f64_le_def)
  qed
qed



end
