(* ===== verification/Junit_Report.thy ===== *)
theory Junit_Report
  imports Unicode Float_Text
begin

text \<open>
  Reports for CI systems (\<^verbatim>\<open>victauri-test/src/reporting.rs\<close>, and the results of checks it is built from in
  \<^verbatim>\<open>assertions.rs\<close>): check results become a JUnit XML document.  A duration is a number of nanoseconds.
  A reader of XML tags, written from the XML 1.0 grammar and not from the code, says what a CI system
  finds in the document.
\<close>

section \<open>Results of checks\<close>

record check_result =
  cr_description :: string
  cr_passed :: bool
  cr_detail :: string
  cr_skipped :: bool

definition check_result_new :: "string \<Rightarrow> bool \<Rightarrow> string \<Rightarrow> check_result" where
  "check_result_new description passed detail =
     \<lparr>cr_description = description, cr_passed = passed, cr_detail = detail, cr_skipped = False\<rparr>"

definition all_passed :: "check_result list \<Rightarrow> bool" where
  "all_passed results \<longleftrightarrow> list_all cr_passed results"

definition report_failures :: "check_result list \<Rightarrow> check_result list" where
  "report_failures results = filter (\<lambda>r. \<not> cr_passed r) results"

section \<open>The report\<close>

record junit_failure =
  jf_type :: string
  jf_message :: string

record junit_test_case =
  tc_name :: string
  tc_classname :: string
  tc_duration :: nat
  tc_failure :: "junit_failure option"

record junit_report =
  jr_name :: string
  jr_duration :: nat
  jr_test_cases :: "junit_test_case list"

definition SKIPPED_TYPE :: string where
  "SKIPPED_TYPE = ''skipped''"

definition from_check_result :: "check_result \<Rightarrow> string \<Rightarrow> nat \<Rightarrow> junit_test_case" where
  "from_check_result result classname duration =
     (let failure = (if cr_skipped result then Some \<lparr>jf_type = SKIPPED_TYPE, jf_message = cr_detail result\<rparr>
                     else if cr_passed result then None
                     else Some \<lparr>jf_type = ''AssertionError'', jf_message = cr_detail result\<rparr>)
      in \<lparr>tc_name = cr_description result, tc_classname = classname, tc_duration = duration, tc_failure = failure\<rparr>)"

text \<open>\<^verbatim>\<open>Duration / u32\<close> rounds down; the count is a \<^verbatim>\<open>usize\<close> cut to 32 bits.\<close>

definition from_verify_report :: "check_result list \<Rightarrow> string \<Rightarrow> nat \<Rightarrow> junit_report" where
  "from_verify_report results suite_name duration =
     (let per_case = (if results = [] then 0 else duration div (length results mod 2 ^ 32))
      in \<lparr>jr_name = suite_name, jr_duration = duration,
          jr_test_cases = map (\<lambda>r. from_check_result r suite_name per_case) results\<rparr>)"

definition format_duration :: "nat \<Rightarrow> string" where
  "format_duration d =
     fixed 3 (f64_add (f64_of_int (int (d div 10 ^ 9)))
       (f64_div (f64_of_int (int (d mod 10 ^ 9))) (f64_of_int (10 ^ 9))))"

definition xml_escape_char :: "string \<Rightarrow> string" where
  "xml_escape_char ch =
     (if ch = ''&'' then ''&amp;''
      else if ch = ''<'' then ''&lt;''
      else if ch = ''>'' then ''&gt;''
      else if ch = [quote] then ''&quot;''
      else if ch = [CHR 0x27] then ''&apos;''
      else if ch = [CHR 0x09] then ''&#9;''
      else if ch = [newline] then ''&#10;''
      else if ch = [CHR 0x0D] then ''&#13;''
      else if code_point ch < 0x20 \<or> code_point ch = 0xFFFE \<or> code_point ch = 0xFFFF then char_bytes 0xFFFD
      else ch)"

definition xml_escape :: "string \<Rightarrow> string" where
  "xml_escape s = concat (map xml_escape_char (utf8_chars s))"

definition is_skipped :: "junit_test_case \<Rightarrow> bool" where
  "is_skipped t = (case tc_failure t of Some f \<Rightarrow> jf_type f = SKIPPED_TYPE | None \<Rightarrow> False)"

text \<open>One attribute of a format string, its value put between double quotes.\<close>

definition attr :: "string \<Rightarrow> string \<Rightarrow> string" where
  "attr name v = '' '' @ name @ ''='' @ [quote] @ v @ [quote]"

definition test_case_xml :: "junit_test_case \<Rightarrow> string" where
  "test_case_xml tc =
     (let head = ''  <testcase'' @ attr ''name'' (xml_escape (tc_name tc)) @
            attr ''classname'' (xml_escape (tc_classname tc)) @ attr ''time'' (format_duration (tc_duration tc))
      in case tc_failure tc of
           Some failure \<Rightarrow>
             (let ftype = xml_escape (jf_type failure); msg = xml_escape (jf_message failure)
              in head @ ''>'' @ [newline] @
                 (if jf_type failure = SKIPPED_TYPE
                  then ''    <skipped'' @ attr ''message'' msg @ '' />'' @ [newline]
                  else ''    <failure'' @ attr ''type'' ftype @ attr ''message'' msg @ '' />'' @ [newline]) @
                 ''  </testcase>'' @ [newline])
         | None \<Rightarrow> head @ '' />'' @ [newline])"

definition xml_declaration :: string where
  "xml_declaration = ''<?xml'' @ attr ''version'' ''1.0'' @ attr ''encoding'' ''UTF-8'' @ ''?>'' @ [newline]"

definition to_xml :: "junit_report \<Rightarrow> string" where
  "to_xml r =
     (let tests = length (jr_test_cases r);
          skipped = length (filter is_skipped (jr_test_cases r));
          failures = length (filter (\<lambda>t. tc_failure t \<noteq> None) (jr_test_cases r)) - skipped
      in xml_declaration @
         ''<testsuite'' @ attr ''name'' (xml_escape (jr_name r)) @ attr ''tests'' (decimal tests) @
           attr ''failures'' (decimal failures) @ attr ''errors'' ''0'' @ attr ''skipped'' (decimal skipped) @
           attr ''time'' (format_duration (jr_duration r)) @ ''>'' @ [newline] @
         concat (map test_case_xml (jr_test_cases r)) @ ''</testsuite>'' @ [newline])"

section \<open>Reading XML\<close>

datatype xml_item =
    Start_Tag string "(string \<times> string) list"
  | Empty_Tag string "(string \<times> string) list"
  | End_Tag string

definition xml_space :: "char \<Rightarrow> bool" where
  "xml_space c \<longleftrightarrow> c = CHR '' '' \<or> c = CHR 0x09 \<or> c = newline \<or> c = CHR 0x0D"

definition name_char :: "char \<Rightarrow> bool" where
  "name_char c \<longleftrightarrow> is_ascii_alphanumeric c"

definition xml_references :: "(string \<times> char) list" where
  "xml_references = [(''amp;'', CHR ''&''), (''lt;'', CHR ''<''), (''gt;'', CHR ''>''), (''quot;'', quote),
     (''apos;'', CHR 0x27), (''#9;'', CHR 0x09), (''#10;'', newline), (''#13;'', CHR 0x0D)]"

text \<open>The normalised value of an attribute: references replaced, literal white space turned into spaces.\<close>

function attr_value :: "string \<Rightarrow> string option" where
  "attr_value [] = Some []"
| "attr_value (c # s) =
     (if c = CHR ''<'' then None
      else if c = CHR ''&'' then
        (case find (\<lambda>(w, _). prefix w s) xml_references of
           None \<Rightarrow> None
         | Some (w, d) \<Rightarrow> map_option (Cons d) (attr_value (drop (length w) s)))
      else map_option (Cons (if xml_space c then CHR '' '' else c)) (attr_value s))"
  by pat_completeness auto
termination
  by (relation "measure length") auto

lemma length_dropWhile_drop: "length (dropWhile P (drop n (dropWhile Q (dropWhile R s)))) \<le> length s"
proof -
  have "length (dropWhile P (drop n (dropWhile Q (dropWhile R s)))) \<le> length (drop n (dropWhile Q (dropWhile R s)))"
    by (rule length_dropWhile_le)
  also have "\<dots> \<le> length (dropWhile Q (dropWhile R s))" by simp
  also have "\<dots> \<le> length s" using length_dropWhile_le [of Q "dropWhile R s"] length_dropWhile_le [of R s] by linarith
  finally show ?thesis .
qed

lemma length_after_quote:
  "dropWhile P (drop n (dropWhile Q (dropWhile R s))) \<noteq> [] \<Longrightarrow>
   length (tl (dropWhile P (drop n (dropWhile Q (dropWhile R s))))) < length s"
  using length_dropWhile_drop [of P n Q R s]
  by (cases "dropWhile P (drop n (dropWhile Q (dropWhile R s)))") simp_all

text \<open>The attributes of a tag, whether it closes itself, and what follows it.\<close>

function read_attrs :: "string \<Rightarrow> ((string \<times> string) list \<times> bool \<times> string) option" where
  "read_attrs s =
     (let t = dropWhile xml_space s
      in if prefix ''/>'' t then Some ([], True, drop 2 t)
         else if prefix ''>'' t then Some ([], False, drop 1 t)
         else
           let name = takeWhile name_char t; u = dropWhile name_char t; v = drop 2 u;
               raw = takeWhile (\<lambda>c. c \<noteq> quote) v; w = dropWhile (\<lambda>c. c \<noteq> quote) v
           in if t = s \<or> name = [] \<or> take 2 u \<noteq> [CHR ''='', quote] \<or> w = [] then None
              else case (attr_value raw, read_attrs (tl w)) of
                (Some x, Some (as, e, r)) \<Rightarrow> Some ((name, x) # as, e, r)
              | _ \<Rightarrow> None)"
  by pat_completeness auto
termination
proof (relation "measure length")
  fix s t name u v raw w :: string
  assume a: "t = dropWhile xml_space s" "u = dropWhile name_char t" "v = drop 2 u" "w = dropWhile (\<lambda>c. c \<noteq> quote) v"
    "\<not> (t = s \<or> name = [] \<or> take 2 u \<noteq> [CHR ''='', quote] \<or> w = [])"
  then have "length (tl w) < length s" using length_after_quote by metis
  then show "(tl w, s) \<in> measure length" by simp
qed simp

declare read_attrs.simps [simp del] attr_value.simps(2) [simp del]

lemma read_attrs_shorter: "read_attrs s = Some (as, e, r) \<Longrightarrow> length r < length s"
proof (induction s arbitrary: as rule: read_attrs.induct)
  case (1 s)
  let ?t = "dropWhile xml_space s"
  let ?w = "dropWhile (\<lambda>c. c \<noteq> quote) (drop 2 (dropWhile name_char ?t))"
  have t: "length ?t \<le> length s" by (rule length_dropWhile_le)
  consider "prefix ''/>'' ?t" | "\<not> prefix ''/>'' ?t" "prefix ''>'' ?t" | "\<not> prefix ''/>'' ?t" "\<not> prefix ''>'' ?t" by blast
  then show ?case
  proof cases
    case 1
    then have "r = drop 2 ?t" using "1.prems" by (auto simp: read_attrs.simps [of s] Let_def)
    moreover have "?t \<noteq> []" using 1 by (metis list.distinct(1) prefix_Nil)
    ultimately show ?thesis using t by (cases ?t) auto
  next
    case 2
    then have "r = drop 1 ?t" using "1.prems" by (auto simp: read_attrs.simps [of s] Let_def)
    moreover have "?t \<noteq> []" using 2(2) by (metis list.distinct(1) prefix_Nil)
    ultimately show ?thesis using t by (cases ?t) auto
  next
    case 3
    then obtain bs where "read_attrs (tl ?w) = Some (bs, e, r)" "?w \<noteq> []"
      and c: "\<not> (?t = s \<or> takeWhile name_char ?t = [] \<or> take 2 (dropWhile name_char ?t) \<noteq> [CHR ''='', quote] \<or> ?w = [])"
      using "1.prems" by (subst (asm) read_attrs.simps) (auto simp: Let_def split: if_splits option.splits)
    then show ?thesis
      using "1.IH" [OF refl 3 refl refl refl refl refl c] length_after_quote [of "\<lambda>c. c \<noteq> quote" 2 name_char xml_space s] by simp
  qed
qed

text \<open>The tags of a document; text between them that is no white space is refused.\<close>

function read_items :: "string \<Rightarrow> xml_item list option" where
  "read_items s =
     (let t = dropWhile xml_space s
      in if t = [] then Some []
         else if prefix ''</'' t then
           (let u = drop 2 t; name = takeWhile name_char u; v = dropWhile name_char u
            in if name = [] \<or> take 1 v \<noteq> ''>'' then None else map_option (Cons (End_Tag name)) (read_items (drop 1 v)))
         else if prefix ''<'' t then
           (let u = drop 1 t; name = takeWhile name_char u
            in if name = [] then None
               else case read_attrs (dropWhile name_char u) of
                 None \<Rightarrow> None
               | Some (as, e, r) \<Rightarrow>
                   map_option (Cons ((if e then Empty_Tag else Start_Tag) name as)) (read_items r))
         else None)"
  by pat_completeness auto
termination
proof (relation "measure length")
  fix s t u v :: string and name
  assume a: "t = dropWhile xml_space s" "t \<noteq> []" "u = drop 2 t" "v = dropWhile name_char u"
  have "length v \<le> length u" using length_dropWhile_le a(4) by blast
  moreover have "length t \<le> length s" using length_dropWhile_le a(1) by blast
  ultimately show "(drop 1 v, s) \<in> measure length" using a(2,3) by (cases t) auto
next
  fix s t u name x as y e r
  assume a: "t = dropWhile xml_space s" "t \<noteq> []" "u = drop 1 t" "read_attrs (dropWhile name_char u) = Some x" "(as, y) = x" "(e, r) = y"
  have "length r < length (dropWhile name_char u)" using read_attrs_shorter a(4-6) by metis
  moreover have "length (dropWhile name_char u) \<le> length u" by (rule length_dropWhile_le)
  moreover have "length t \<le> length s" using length_dropWhile_le a(1) by blast
  ultimately show "(r, s) \<in> measure length" using a(2,3) by (cases t) auto
qed simp

declare read_items.simps [simp del]

definition read_xml :: "string \<Rightarrow> xml_item list option" where
  "read_xml s =
     (if prefix (''<?xml'' @ attr ''version'' ''1.0'' @ attr ''encoding'' ''UTF-8'' @ ''?>'') s
      then read_items (drop 38 s) else None)"

text \<open>The characters an XML 1.0 document may contain.\<close>

definition xml_char :: "nat \<Rightarrow> bool" where
  "xml_char n \<longleftrightarrow> n = 0x09 \<or> n = 0x0A \<or> n = 0x0D \<or> 0x20 \<le> n \<and> n \<le> 0xD7FF \<or> 0xE000 \<le> n \<and> n \<le> 0xFFFD \<or>
     0x10000 \<le> n \<and> n \<le> 0x10FFFF"

definition xml_document :: "string \<Rightarrow> bool" where
  "xml_document s \<longleftrightarrow> valid_utf8 s \<and> list_all (\<lambda>ch. xml_char (code_point ch)) (utf8_chars s)"

text \<open>A text as XML can show it: a character outside its range becomes U+FFFD.\<close>

definition xml_text_char :: "string \<Rightarrow> string" where
  "xml_text_char ch = (if xml_char (code_point ch) then ch else char_bytes 0xFFFD)"

definition xml_text :: "string \<Rightarrow> string" where
  "xml_text s = concat (map xml_text_char (utf8_chars s))"

section \<open>Values of attributes\<close>

definition plain_value_char :: "char \<Rightarrow> bool" where
  "plain_value_char c \<longleftrightarrow> c \<notin> {CHR ''<'', CHR ''&'', quote} \<and> (xml_space c \<longrightarrow> c = CHR '' '')"

lemma attr_value_plain: "list_all plain_value_char w \<Longrightarrow> attr_value (w @ r) = map_option (append w) (attr_value r)"
proof (induction w)
  case (Cons c w)
  then show ?case by (cases "attr_value r") (auto simp: attr_value.simps(2) plain_value_char_def)
qed (cases "attr_value r"; simp)

lemma attr_value_only_plain: "list_all plain_value_char w \<Longrightarrow> attr_value w = Some w"
  using attr_value_plain [of w "[]"] by simp

lemma replacement_char: "char_bytes 0xFFFD = [CHR 0xEF, CHR 0xBF, CHR 0xBD]"
proof -
  have "(of_char (char_of (239 :: nat) :: char) :: nat) = of_char (CHR 0xEF)"
    "(of_char (char_of (191 :: nat) :: char) :: nat) = of_char (CHR 0xBF)"
    "(of_char (char_of (189 :: nat) :: char) :: nat) = of_char (CHR 0xBD)" by simp_all
  then have "char_of (239 :: nat) = CHR 0xEF" "char_of (191 :: nat) = CHR 0xBF" "char_of (189 :: nat) = CHR 0xBD"
    by (simp_all only: of_char_eq_iff)
  then show ?thesis by (simp add: char_bytes_def)
qed

lemma not_ascii_plain: "\<not> is_ascii c \<Longrightarrow> plain_value_char c"
  by (auto simp: plain_value_char_def xml_space_def is_ascii_def)

lemma ascii_byte: "is_ascii a \<Longrightarrow> of_char a < (128 :: nat)"
  by (simp add: is_ascii_def)

lemma xml_char_ascii: "is_ascii a \<Longrightarrow> xml_char (of_char a) \<longleftrightarrow> a = CHR 0x09 \<or> a = newline \<or> a = CHR 0x0D \<or> 0x20 \<le> (of_char a :: nat)"
  using ascii_byte [of a] of_char_eq_iff [of a "CHR 0x09", where 'a = nat] of_char_eq_iff [of a newline, where 'a = nat]
    of_char_eq_iff [of a "CHR 0x0D", where 'a = nat]
  by (auto simp: xml_char_def)

lemma xml_char_multi: "utf8_char ch \<Longrightarrow> length ch \<noteq> 1 \<Longrightarrow>
  xml_char (code_point ch) \<longleftrightarrow> code_point ch \<noteq> 0xFFFE \<and> code_point ch \<noteq> 0xFFFF"
  using code_point_char [of ch] code_point_multi [of ch] by (auto simp: xml_char_def is_scalar_def)

text \<open>One escaped character reads as the character, or as U+FFFD.\<close>

lemma escape_char_ascii:
  assumes "is_ascii a"
  shows "attr_value (xml_escape_char [a] @ r) = map_option (append (xml_text_char [a])) (attr_value r) \<and>
    list_all (\<lambda>c. c \<noteq> quote) (xml_escape_char [a])"
proof -
  consider "a = CHR ''&''" | "a = CHR ''<''" | "a = CHR ''>''" | "a = quote" | "a = CHR 0x27" | "a = CHR 0x09"
    | "a = newline" | "a = CHR 0x0D"
    | (other) "a \<notin> {CHR ''&'', CHR ''<'', CHR ''>'', quote, CHR 0x27, CHR 0x09, newline, CHR 0x0D}"
    by blast
  then show ?thesis
  proof cases
    case other
    show ?thesis
    proof (cases "(of_char a :: nat) < 0x20")
      case True
      then have "xml_escape_char [a] = char_bytes 0xFFFD" "xml_text_char [a] = char_bytes 0xFFFD"
        using other xml_char_ascii [OF assms] by (simp_all add: xml_escape_char_def xml_text_char_def)
      moreover have "list_all plain_value_char (char_bytes 0xFFFD)"
        by (simp add: replacement_char plain_value_char_def xml_space_def)
      ultimately show ?thesis using attr_value_plain [of "char_bytes 0xFFFD" r] by (simp add: replacement_char)
    next
      case False
      then have "xml_escape_char [a] = [a]" "xml_text_char [a] = [a]"
        using other xml_char_ascii [OF assms] ascii_byte [OF assms] by (auto simp: xml_escape_char_def xml_text_char_def)
      moreover have "plain_value_char a" using other by (auto simp: plain_value_char_def xml_space_def)
      ultimately show ?thesis using attr_value_plain [of "[a]" r] other by simp
    qed
  qed (cases "attr_value r"; simp add: xml_escape_char_def xml_text_char_def xml_char_def xml_references_def attr_value.simps(2))+
qed

lemma escape_char_value:
  assumes "utf8_char ch"
  shows "attr_value (xml_escape_char ch @ r) = map_option (append (xml_text_char ch)) (attr_value r) \<and>
    list_all (\<lambda>c. c \<noteq> quote) (xml_escape_char ch)"
proof (cases "length ch = 1")
  case True
  then obtain a where "ch = [a]" by (cases ch) auto
  then show ?thesis using escape_char_ascii assms by simp
next
  case len: False
  have multi: "\<forall>c \<in> set ch. \<not> is_ascii c" using utf8_char_multi [OF assms len] .
  have "ch \<noteq> [c]" for c using len by auto
  moreover have "\<not> code_point ch < 0x20" using code_point_multi [OF assms len] by linarith
  ultimately have esc: "xml_escape_char ch = (if code_point ch = 0xFFFE \<or> code_point ch = 0xFFFF then char_bytes 0xFFFD else ch)"
    by (simp add: xml_escape_char_def)
  have "list_all plain_value_char ch" using multi not_ascii_plain by (auto simp: list_all_iff)
  moreover have "list_all plain_value_char (char_bytes 0xFFFD)"
    by (simp add: replacement_char plain_value_char_def xml_space_def)
  ultimately have p: "list_all plain_value_char (xml_escape_char ch)" by (simp add: esc)
  moreover have "xml_text_char ch = xml_escape_char ch" using xml_char_multi [OF assms len] by (auto simp: esc xml_text_char_def)
  moreover have "list_all (\<lambda>c. c \<noteq> quote) (xml_escape_char ch)" using p by (auto simp: list_all_iff plain_value_char_def)
  ultimately show ?thesis using attr_value_plain [OF p, of r] by simp
qed

text \<open>A value a tag may hold between double quotes.\<close>

definition value_reads :: "string \<Rightarrow> string \<Rightarrow> bool" where
  "value_reads v x \<longleftrightarrow> attr_value v = Some x \<and> quote \<notin> set v"

lemma xml_escape_reads: "valid_utf8 s \<Longrightarrow> value_reads (xml_escape s) (xml_text s)"
proof (induction s rule: valid_utf8_induct)
  case Nil
  then show ?case by (simp add: value_reads_def xml_escape_def xml_text_def)
next
  case (char ch t)
  then show ?case using escape_char_value [OF char(1), of "xml_escape t"]
    by (auto simp: value_reads_def xml_escape_def xml_text_def utf8_chars_char list_all_iff)
qed

lemma plain_reads: "list_all plain_value_char v \<Longrightarrow> value_reads v v"
  using attr_value_only_plain by (auto simp: value_reads_def list_all_iff plain_value_char_def)

lemma number_char_plain: "number_char c \<Longrightarrow> plain_value_char c"
  by (auto simp: number_char_def plain_value_char_def xml_space_def is_ascii_digit_def)

lemma number_reads: "value_reads (decimal n) (decimal n)" "value_reads (fixed d x) (fixed d x)"
  using decimal_number_char fixed_char number_char_plain by (auto intro!: plain_reads simp: list_all_iff)

section \<open>Tags\<close>

text \<open>\<open>w\<close> reads as the attributes \<open>as\<close> whatever follows it.\<close>

definition attrs_read :: "string \<Rightarrow> (string \<times> string) list \<Rightarrow> bool" where
  "attrs_read w as \<longleftrightarrow> (w = [] \<or> hd w = CHR '' '') \<and>
     (\<forall>r. read_attrs (w @ r) = map_option (\<lambda>(bs, e, t). (as @ bs, e, t)) (read_attrs r))"

lemma attrs_read_Nil: "attrs_read [] []"
proof -
  have "(\<lambda>(bs, e, t). (bs, e, t)) = (id :: (string \<times> string) list \<times> bool \<times> string \<Rightarrow> _)" by auto
  then show ?thesis by (simp add: attrs_read_def option.map_id)
qed

lemma attrs_read_append:
  assumes "attrs_read w as" "attrs_read v bs"
  shows "attrs_read (w @ v) (as @ bs)"
proof -
  have "read_attrs (w @ v @ r) = map_option (\<lambda>(cs, e, t). ((as @ bs) @ cs, e, t)) (read_attrs r)" for r
    using assms by (simp add: attrs_read_def option.map_comp comp_def case_prod_unfold)
  then show ?thesis using assms by (auto simp: attrs_read_def hd_append)
qed

lemma name_char_other: "name_char c \<Longrightarrow> \<not> xml_space c \<and> c \<noteq> CHR ''/'' \<and> c \<noteq> CHR ''>'' \<and> c \<noteq> CHR ''=''"
  by (auto simp: name_char_def is_ascii_alphanumeric_def is_ascii_digit_def xml_space_def Let_def)

lemma special_chars [simp]:
  "\<not> name_char (CHR ''='')" "\<not> name_char (CHR ''>'')" "\<not> name_char (CHR '' '')" "xml_space (CHR '' '')" "xml_space newline"
  "\<not> xml_space (CHR ''/'')" "\<not> xml_space (CHR ''>'')" "\<not> xml_space (CHR ''<'')"
  using name_char_other by (auto simp: name_char_def is_ascii_alphanumeric_def is_ascii_digit_def xml_space_def)

definition tag_name :: "string \<Rightarrow> bool" where
  "tag_name n \<longleftrightarrow> n \<noteq> [] \<and> list_all name_char n"

lemma takeWhile_name: "tag_name n \<Longrightarrow> r = [] \<or> \<not> name_char (hd r) \<Longrightarrow> takeWhile name_char (n @ r) = n \<and> dropWhile name_char (n @ r) = r"
  by (cases r) (auto simp: tag_name_def list_all_iff takeWhile_append dropWhile_append)

lemma takeWhile_value:
  "quote \<notin> set v \<Longrightarrow> takeWhile (\<lambda>c. c \<noteq> quote) (v @ quote # r) = v \<and> dropWhile (\<lambda>c. c \<noteq> quote) (v @ quote # r) = quote # r"
  by (induction v) auto

lemma attr_read:
  assumes "tag_name n" "value_reads v x"
  shows "attrs_read (attr n v) [(n, x)]"
proof -
  have "read_attrs (attr n v @ r) = map_option (\<lambda>(bs, e, t). ((n, x) # bs, e, t)) (read_attrs r)" for r
  proof -
    let ?u = "CHR ''='' # quote # v @ quote # r"
    have a: "attr n v @ r = CHR '' '' # n @ ?u" by (simp add: attr_def)
    obtain c m where n: "n = c # m" "name_char c" using assms(1) by (cases n) (auto simp: tag_name_def)
    have t: "dropWhile xml_space (CHR '' '' # n @ ?u) = n @ ?u"
      using n name_char_other [of c] by simp
    have p: "\<not> prefix ''/>'' (n @ ?u)" "\<not> prefix ''>'' (n @ ?u)" "n @ ?u \<noteq> CHR '' '' # n @ ?u"
      using n name_char_other [of c] by auto
    have w: "takeWhile name_char (n @ ?u) = n" "dropWhile name_char (n @ ?u) = ?u"
      using takeWhile_name [OF assms(1), of ?u] by simp_all
    have v: "takeWhile (\<lambda>c. c \<noteq> quote) (v @ quote # r) = v" "dropWhile (\<lambda>c. c \<noteq> quote) (v @ quote # r) = quote # r"
      using assms(2) takeWhile_value [of v r] by (simp_all add: value_reads_def)
    have u: "drop 2 ?u = v @ quote # r" "take 2 ?u = [CHR ''='', quote]" by (simp_all add: numeral_2_eq_2)
    have nz: "n \<noteq> []" "quote # r \<noteq> []" using n by simp_all
    have "read_attrs (CHR '' '' # n @ ?u) =
        (case (attr_value v, read_attrs (tl (quote # r))) of (Some y, Some (bs, e, t)) \<Rightarrow> Some ((n, y) # bs, e, t) | _ \<Rightarrow> None)"
      by (subst read_attrs.simps) (simp only: t Let_def p w u v nz if_False simp_thms)
    then show ?thesis
      using assms(2) unfolding a by (simp add: value_reads_def case_prod_unfold split: option.split)
  qed
  then show ?thesis by (simp add: attrs_read_def attr_def)
qed

text \<open>\<open>w\<close> reads as the tags \<open>is\<close> whatever follows it.\<close>

definition items_read :: "string \<Rightarrow> xml_item list \<Rightarrow> bool" where
  "items_read w is \<longleftrightarrow> (\<forall>r. read_items (w @ r) = map_option (append is) (read_items r))"

lemma items_read_append: "items_read w is \<Longrightarrow> items_read v js \<Longrightarrow> items_read (w @ v) (is @ js)"
proof -
  have "append (is @ js) = (\<lambda>x. is @ js @ x)" by auto
  then show "items_read w is \<Longrightarrow> items_read v js \<Longrightarrow> items_read (w @ v) (is @ js)"
    by (simp add: items_read_def option.map_comp comp_def)
qed

lemma append_single: "append [x] = Cons x"
  by auto

lemma items_read_concat: "(\<And>x. x \<in> set xs \<Longrightarrow> items_read (f x) (g x)) \<Longrightarrow> items_read (concat (map f xs)) (concat (map g xs))"
proof (induction xs)
  case Nil
  have "append [] = (id :: xml_item list \<Rightarrow> _)" by auto
  then show ?case by (simp add: items_read_def option.map_id)
next
  case (Cons x xs)
  then show ?case by (simp add: items_read_append)
qed

lemma items_read_space: "list_all xml_space w \<Longrightarrow> items_read w []"
proof -
  assume "list_all xml_space w"
  then have "dropWhile xml_space (w @ r) = dropWhile xml_space r" for r by (induction w) auto
  then have "read_items (w @ r) = read_items r" for r
    unfolding read_items.simps [of "w @ r"] read_items.simps [of r] by simp
  moreover have "append [] = (id :: xml_item list \<Rightarrow> _)" by auto
  ultimately show ?thesis by (simp add: items_read_def option.map_id)
qed

lemma tag_read:
  assumes "tag_name n" "attrs_read w as" "close = ''>'' \<and> tag = Start_Tag n as \<or> close = '' />'' \<and> tag = Empty_Tag n as"
  shows "items_read (CHR ''<'' # n @ w @ close) [tag]"
proof -
  have "read_items (CHR ''<'' # n @ w @ close @ r) = map_option (Cons tag) (read_items r)" for r
  proof -
    obtain c m where n: "n = c # m" "name_char c" using assms(1) by (cases n) (auto simp: tag_name_def)
    have p: "\<not> prefix ''</'' (CHR ''<'' # n @ w @ close @ r)" "prefix ''<'' (CHR ''<'' # n @ w @ close @ r)"
      using n name_char_other [of c] by auto
    have "w @ close @ r \<noteq> [] \<and> \<not> name_char (hd (w @ close @ r))"
      using assms(2,3) by (cases w) (auto simp: attrs_read_def)
    then have nm: "takeWhile name_char (n @ w @ close @ r) = n" "dropWhile name_char (n @ w @ close @ r) = w @ close @ r"
      using takeWhile_name [OF assms(1)] by blast+
    have "read_attrs (''>'' @ r) = Some ([], False, r)" "read_attrs ('' />'' @ r) = Some ([], True, r)"
      by (subst read_attrs.simps; simp add: Let_def numeral_2_eq_2)+
    then have "read_attrs (close @ r) = Some ([], close = '' />'', r)" using assms(3) by auto
    then have ra: "read_attrs (w @ close @ r) = Some (as, close = '' />'', r)" using assms(2) by (simp add: attrs_read_def)
    have "(if close = '' />'' then Empty_Tag else Start_Tag) n as = tag" using assms(3) by auto
    moreover have d: "dropWhile xml_space (CHR ''<'' # z) = CHR ''<'' # z" "drop 1 (CHR ''<'' # z) = z" "CHR ''<'' # z \<noteq> []" for z
      by simp_all
    moreover have nz: "n \<noteq> []" using n by simp
    ultimately show ?thesis
      by (subst read_items.simps) (simp only: Let_def p nm ra if_False if_True simp_thms option.case prod.case)
  qed
  then show ?thesis by (simp add: items_read_def append_single)
qed

lemma start_read: "tag_name n \<Longrightarrow> attrs_read w as \<Longrightarrow> items_read (CHR ''<'' # n @ w @ ''>'') [Start_Tag n as]"
  by (rule tag_read) simp_all

lemma empty_read: "tag_name n \<Longrightarrow> attrs_read w as \<Longrightarrow> items_read (CHR ''<'' # n @ w @ '' />'') [Empty_Tag n as]"
  by (rule tag_read) simp_all

lemma end_read: "tag_name n \<Longrightarrow> items_read (''</'' @ n @ ''>'') [End_Tag n]"
proof -
  assume n: "tag_name n"
  have "read_items (''</'' @ n @ ''>'' @ r) = map_option (Cons (End_Tag n)) (read_items r)" for r
  proof -
    have "takeWhile name_char (n @ ''>'' @ r) = n" "dropWhile name_char (n @ ''>'' @ r) = ''>'' @ r"
      using takeWhile_name [OF n, of "''>'' @ r"] by simp_all
    then show ?thesis using n by (subst read_items.simps) (simp add: Let_def numeral_2_eq_2 tag_name_def)
  qed
  then show ?thesis by (simp add: items_read_def append_single)
qed

section \<open>The document\<close>

text \<open>What a reader is to find: one element for the suite, one for each test case.\<close>

definition case_items :: "junit_test_case \<Rightarrow> xml_item list" where
  "case_items tc =
     (let as = [(''name'', xml_text (tc_name tc)), (''classname'', xml_text (tc_classname tc)),
                (''time'', format_duration (tc_duration tc))]
      in case tc_failure tc of
           None \<Rightarrow> [Empty_Tag ''testcase'' as]
         | Some f \<Rightarrow>
             [Start_Tag ''testcase'' as,
              if jf_type f = ''skipped'' then Empty_Tag ''skipped'' [(''message'', xml_text (jf_message f))]
              else Empty_Tag ''failure'' [(''type'', xml_text (jf_type f)), (''message'', xml_text (jf_message f))],
              End_Tag ''testcase''])"

definition count_cases :: "(string option \<Rightarrow> bool) \<Rightarrow> junit_report \<Rightarrow> nat" where
  "count_cases p r = length (filter (\<lambda>t. p (map_option jf_type (tc_failure t))) (jr_test_cases r))"

definition report_items :: "junit_report \<Rightarrow> xml_item list" where
  "report_items r =
     Start_Tag ''testsuite''
       [(''name'', xml_text (jr_name r)), (''tests'', decimal (count_cases (\<lambda>_. True) r)),
        (''failures'', decimal (count_cases (\<lambda>f. f \<noteq> None \<and> f \<noteq> Some ''skipped'') r)), (''errors'', ''0''),
        (''skipped'', decimal (count_cases (\<lambda>f. f = Some ''skipped'') r)), (''time'', format_duration (jr_duration r))] #
     concat (map case_items (jr_test_cases r)) @ [End_Tag ''testsuite'']"

definition text_case :: "junit_test_case \<Rightarrow> bool" where
  "text_case tc \<longleftrightarrow> valid_utf8 (tc_name tc) \<and> valid_utf8 (tc_classname tc) \<and>
     (case tc_failure tc of None \<Rightarrow> True | Some f \<Rightarrow> valid_utf8 (jf_type f) \<and> valid_utf8 (jf_message f))"

definition text_report :: "junit_report \<Rightarrow> bool" where
  "text_report r \<longleftrightarrow> valid_utf8 (jr_name r) \<and> list_all text_case (jr_test_cases r)"

lemma tag_names:
  "tag_name ''testcase''" "tag_name ''testsuite''" "tag_name ''skipped''" "tag_name ''failure''" "tag_name ''name''"
  "tag_name ''classname''" "tag_name ''time''" "tag_name ''message''" "tag_name ''type''" "tag_name ''tests''"
  "tag_name ''failures''" "tag_name ''errors''"
  by (simp_all add: tag_name_def name_char_def is_ascii_alphanumeric_def is_ascii_digit_def)

lemma indented:
  assumes "items_read w is" "list_all xml_space a"
  shows "items_read (a @ w @ [newline]) is"
  using items_read_append [OF items_read_space [OF assms(2)] items_read_append [OF assms(1) items_read_space [of "[newline]"]]]
  by simp

lemma case_attrs_read:
  "text_case tc \<Longrightarrow> attrs_read (attr ''name'' (xml_escape (tc_name tc)) @ attr ''classname'' (xml_escape (tc_classname tc)) @
     attr ''time'' (format_duration (tc_duration tc)))
   [(''name'', xml_text (tc_name tc)), (''classname'', xml_text (tc_classname tc)), (''time'', format_duration (tc_duration tc))]"
  (is "_ \<Longrightarrow> ?goal")
proof -
  assume "text_case tc"
  then have v: "value_reads (xml_escape (tc_name tc)) (xml_text (tc_name tc))"
    "value_reads (xml_escape (tc_classname tc)) (xml_text (tc_classname tc))"
    "value_reads (format_duration (tc_duration tc)) (format_duration (tc_duration tc))"
    using xml_escape_reads number_reads(2) by (simp_all add: text_case_def format_duration_def)
  show ?goal
    using attrs_read_append [OF attr_read [OF tag_names(5) v(1)]
        attrs_read_append [OF attr_read [OF tag_names(6) v(2)] attr_read [OF tag_names(7) v(3)]]]
    by simp
qed

lemma case_read: "text_case tc \<Longrightarrow> items_read (test_case_xml tc) (case_items tc)"
proof -
  assume tc: "text_case tc"
  let ?w = "attr ''name'' (xml_escape (tc_name tc)) @ attr ''classname'' (xml_escape (tc_classname tc)) @
     attr ''time'' (format_duration (tc_duration tc))"
  let ?as = "[(''name'', xml_text (tc_name tc)), (''classname'', xml_text (tc_classname tc)), (''time'', format_duration (tc_duration tc))]"
  have sp: "list_all xml_space ''  ''" "list_all xml_space ''    ''" by simp_all
  show ?thesis
  proof (cases "tc_failure tc")
    case None
    then have "test_case_xml tc = ''  '' @ (CHR ''<'' # ''testcase'' @ ?w @ '' />'') @ [newline]"
      by (simp add: test_case_xml_def)
    moreover have "case_items tc = [Empty_Tag ''testcase'' ?as]" using None by (simp add: case_items_def)
    ultimately show ?thesis
      using indented [OF empty_read [OF tag_names(1) case_attrs_read [OF tc]] sp(1)] by (simp only:)
  next
    case (Some f)
    let ?v = "if jf_type f = ''skipped'' then attr ''message'' (xml_escape (jf_message f))
      else attr ''type'' (xml_escape (jf_type f)) @ attr ''message'' (xml_escape (jf_message f))"
    let ?n = "if jf_type f = ''skipped'' then ''skipped'' else ''failure''"
    let ?bs = "if jf_type f = ''skipped'' then [(''message'', xml_text (jf_message f))]
      else [(''type'', xml_text (jf_type f)), (''message'', xml_text (jf_message f))]"
    have u: "valid_utf8 (jf_type f)" "valid_utf8 (jf_message f)" using tc Some by (simp_all add: text_case_def)
    have v: "attrs_read ?v ?bs"
      using attr_read [OF tag_names(8) xml_escape_reads [OF u(2)]]
        attrs_read_append [OF attr_read [OF tag_names(9) xml_escape_reads [OF u(1)]] attr_read [OF tag_names(8) xml_escape_reads [OF u(2)]]]
      by simp
    have "tag_name ?n" using tag_names by simp
    then have inner: "items_read (''    '' @ (CHR ''<'' # ?n @ ?v @ '' />'') @ [newline]) [Empty_Tag ?n ?bs]"
      using sp(2) v by (intro indented empty_read)
    have start: "items_read (''  '' @ (CHR ''<'' # ''testcase'' @ ?w @ ''>'') @ [newline]) [Start_Tag ''testcase'' ?as]"
      using sp(1) by (intro indented start_read tag_names(1) case_attrs_read tc)
    have fin: "items_read (''  '' @ (''</'' @ ''testcase'' @ ''>'') @ [newline]) [End_Tag ''testcase'']"
      using end_read [OF tag_names(1)] by (intro indented sp)
    have "test_case_xml tc = (''  '' @ (CHR ''<'' # ''testcase'' @ ?w @ ''>'') @ [newline]) @
        (''    '' @ (CHR ''<'' # ?n @ ?v @ '' />'') @ [newline]) @ (''  '' @ (''</'' @ ''testcase'' @ ''>'') @ [newline])"
      using Some by (simp add: test_case_xml_def SKIPPED_TYPE_def Let_def)
    moreover have "case_items tc = [Start_Tag ''testcase'' ?as] @ [Empty_Tag ?n ?bs] @ [End_Tag ''testcase'']"
      using Some by (simp add: case_items_def Let_def)
    ultimately show ?thesis using items_read_append [OF start items_read_append [OF inner fin]] by (simp only:)
  qed
qed

lemma counted:
  "length (filter is_skipped tcs) = length (filter (\<lambda>t. map_option jf_type (tc_failure t) = Some ''skipped'') tcs)"
  "length (filter (\<lambda>t. tc_failure t \<noteq> None) tcs) - length (filter is_skipped tcs) =
   length (filter (\<lambda>t. map_option jf_type (tc_failure t) \<noteq> None \<and> map_option jf_type (tc_failure t) \<noteq> Some ''skipped'') tcs)"
proof -
  have sk: "is_skipped = (\<lambda>t. map_option jf_type (tc_failure t) = Some ''skipped'')"
    by (rule ext) (auto simp: is_skipped_def SKIPPED_TYPE_def split: option.splits)
  show "length (filter is_skipped tcs) = length (filter (\<lambda>t. map_option jf_type (tc_failure t) = Some ''skipped'') tcs)"
    by (simp only: sk)
  have "length (filter (\<lambda>t. tc_failure t \<noteq> None) tcs) = length (filter is_skipped tcs) +
      length (filter (\<lambda>t. map_option jf_type (tc_failure t) \<noteq> None \<and> map_option jf_type (tc_failure t) \<noteq> Some ''skipped'') tcs)"
    by (induction tcs) (auto simp: sk)
  then show "length (filter (\<lambda>t. tc_failure t \<noteq> None) tcs) - length (filter is_skipped tcs) =
      length (filter (\<lambda>t. map_option jf_type (tc_failure t) \<noteq> None \<and> map_option jf_type (tc_failure t) \<noteq> Some ''skipped'') tcs)"
    by simp
qed

lemma read_items_Nil: "read_items [] = Some []"
  by (subst read_items.simps) simp

lemma report_read:
  assumes "text_report r"
  shows "read_xml (to_xml r) = Some (report_items r)"
proof -
  let ?c = "\<lambda>p. decimal (count_cases p r)"
  let ?failed = "\<lambda>f. f \<noteq> None \<and> f \<noteq> Some ''skipped''" and ?skipped = "\<lambda>f. f = Some ''skipped''"
  let ?w = "attr ''name'' (xml_escape (jr_name r)) @ attr ''tests'' (?c (\<lambda>_. True)) @ attr ''failures'' (?c ?failed) @
    attr ''errors'' ''0'' @ attr ''skipped'' (?c ?skipped) @ attr ''time'' (format_duration (jr_duration r))"
  let ?as = "[(''name'', xml_text (jr_name r)), (''tests'', ?c (\<lambda>_. True)), (''failures'', ?c ?failed), (''errors'', ''0''),
    (''skipped'', ?c ?skipped), (''time'', format_duration (jr_duration r))]"
  have v: "value_reads (xml_escape (jr_name r)) (xml_text (jr_name r))" "value_reads ''0'' ''0''"
      "value_reads (format_duration (jr_duration r)) (format_duration (jr_duration r))"
    using assms number_reads(2) xml_escape_reads
    by (auto simp: text_report_def format_duration_def intro!: plain_reads simp: plain_value_char_def xml_space_def)
  have w: "attrs_read ?w ?as"
    using attrs_read_append [OF attr_read [OF tag_names(5) v(1)]
        attrs_read_append [OF attr_read [OF tag_names(10) number_reads(1) [of "count_cases (\<lambda>_. True) r"]]
        attrs_read_append [OF attr_read [OF tag_names(11) number_reads(1) [of "count_cases ?failed r"]]
        attrs_read_append [OF attr_read [OF tag_names(12) v(2)]
        attrs_read_append [OF attr_read [OF tag_names(3) number_reads(1) [of "count_cases ?skipped r"]]
        attr_read [OF tag_names(7) v(3)]]]]]]
    by (simp only: append_Cons append_Nil)
  have suite: "items_read ([newline] @ (CHR ''<'' # ''testsuite'' @ ?w @ ''>'') @ [newline]) [Start_Tag ''testsuite'' ?as]"
    by (intro indented start_read tag_names(2) w) simp
  have cases_read: "items_read (concat (map test_case_xml (jr_test_cases r))) (concat (map case_items (jr_test_cases r)))"
    using assms case_read by (intro items_read_concat) (auto simp: text_report_def list_all_iff)
  have fin: "items_read ([] @ (''</'' @ ''testsuite'' @ ''>'') @ [newline]) [End_Tag ''testsuite'']"
    by (intro indented end_read tag_names(2)) simp
  let ?doc = "([newline] @ (CHR ''<'' # ''testsuite'' @ ?w @ ''>'') @ [newline]) @
    concat (map test_case_xml (jr_test_cases r)) @ ([] @ (''</'' @ ''testsuite'' @ ''>'') @ [newline])"
  let ?decl = "''<?xml'' @ attr ''version'' ''1.0'' @ attr ''encoding'' ''UTF-8'' @ ''?>''"
  have doc: "to_xml r = ?decl @ ?doc"
  proof -
    have c: "length (jr_test_cases r) = count_cases (\<lambda>_. True) r" "length (filter is_skipped (jr_test_cases r)) = count_cases ?skipped r"
      "length (filter (\<lambda>t. tc_failure t \<noteq> None) (jr_test_cases r)) - count_cases ?skipped r = count_cases ?failed r"
      unfolding count_cases_def counted(2) [symmetric] counted(1) [symmetric] by (simp_all only: refl filter_True ball_triv simp_thms)
    show ?thesis unfolding to_xml_def Let_def c xml_declaration_def by simp
  qed
  have "items_read ?doc (report_items r)"
    using items_read_append [OF suite items_read_append [OF cases_read fin]] by (simp add: report_items_def)
  then have "read_items (?doc @ []) = map_option (append (report_items r)) (read_items [])"
    unfolding items_read_def by blast
  then have ok: "read_items ?doc = Some (report_items r)" by (simp only: read_items_Nil append_Nil2 option.map)
  have len: "length ?decl = 38" by (simp add: attr_def)
  have "drop (length w) (w @ v) = v" for w v :: string by simp
  then have "drop 38 (?decl @ ?doc) = ?doc" unfolding len [symmetric] .
  moreover have "prefix ?decl (?decl @ ?doc)" by (rule prefixI) (rule refl)
  ultimately show ?thesis unfolding read_xml_def doc by (simp only: ok if_True)
qed

text \<open>Which characters are in the document.\<close>

lemma xml_document_append: "xml_document s \<Longrightarrow> xml_document t \<Longrightarrow> xml_document (s @ t)"
  by (simp add: xml_document_def utf8_chars_append valid_utf8_append)

lemma xml_document_concat: "(\<And>x. x \<in> set xs \<Longrightarrow> xml_document (f x)) \<Longrightarrow> xml_document (concat (map f xs))"
  by (induction xs) (simp_all add: xml_document_append, simp add: xml_document_def)

definition printing :: "char \<Rightarrow> bool" where
  "printing c \<longleftrightarrow> is_ascii c \<and> (c = newline \<or> 0x20 \<le> (of_char c :: nat))"

lemma xml_document_printing: "list_all printing s \<Longrightarrow> xml_document s"
proof (induction s)
  case (Cons c s)
  then have c: "is_ascii c" "xml_char (of_char c)" using xml_char_ascii [of c] by (auto simp: printing_def)
  then show ?case using Cons by (simp add: xml_document_def)
qed (simp add: xml_document_def)

lemma xml_document_char: "utf8_char ch \<Longrightarrow> xml_document ch \<longleftrightarrow> xml_char (code_point ch)"
  using utf8_chars_char [of ch "[]"] valid_utf8_char [of ch "[]"] by (simp add: xml_document_def)

lemma escape_char_document:
  assumes "utf8_char ch"
  shows "xml_document (xml_escape_char ch)"
proof -
  have r: "xml_document (char_bytes 0xFFFD)"
    using xml_document_char [OF utf8_char_bytes [of "0xFFFD"]] code_point_bytes [of "0xFFFD"] by (simp add: is_scalar_def xml_char_def)
  have p: "list_all printing s \<Longrightarrow> xml_document s" for s by (rule xml_document_printing)
  have k: "xml_document ch" if "\<not> (code_point ch < 0x20 \<or> code_point ch = 0xFFFE \<or> code_point ch = 0xFFFF)"
    using that code_point_char [OF assms] by (auto simp: xml_document_char [OF assms] xml_char_def is_scalar_def)
  show ?thesis
    unfolding xml_escape_char_def using r k by (simp add: p printing_def is_ascii_def)
qed

lemma escape_document: "valid_utf8 s \<Longrightarrow> xml_document (xml_escape s)"
  unfolding xml_escape_def by (rule xml_document_concat) (blast dest: utf8_chars_of_text intro: escape_char_document)

lemma number_document: "xml_document (decimal n)" "xml_document (fixed d x)"
proof -
  have "number_char c \<Longrightarrow> printing c" for c
    by (auto simp: number_char_def printing_def is_ascii_def is_ascii_digit_def)
  then show "xml_document (decimal n)" "xml_document (fixed d x)"
    using decimal_number_char fixed_char by (auto intro!: xml_document_printing simp: list_all_iff)
qed

lemma attr_document: "list_all printing n \<Longrightarrow> xml_document v \<Longrightarrow> xml_document (attr n v)"
  unfolding attr_def by (intro xml_document_append) (auto intro: xml_document_printing simp: printing_def is_ascii_def)

lemma case_document: "text_case tc \<Longrightarrow> xml_document (test_case_xml tc)"
proof -
  assume tc: "text_case tc"
  have d: "xml_document (format_duration n)" for n by (simp add: format_duration_def number_document)
  note parts = xml_document_append attr_document escape_document d xml_document_printing
  show ?thesis
  proof (cases "tc_failure tc")
    case None
    show ?thesis unfolding test_case_xml_def Let_def None option.case
      by (intro parts) (use tc in \<open>simp_all add: text_case_def printing_def is_ascii_def\<close>)
  next
    case (Some f)
    have t: "valid_utf8 (jf_type f)" "valid_utf8 (jf_message f)" "valid_utf8 (tc_name tc)" "valid_utf8 (tc_classname tc)"
      using tc Some by (simp_all add: text_case_def)
    have skipped: "xml_document (''    <skipped'' @ attr ''message'' (xml_escape (jf_message f)) @ '' />'' @ [newline])"
      by (intro parts t) (simp_all add: printing_def is_ascii_def)
    have failure: "xml_document (''    <failure'' @ attr ''type'' (xml_escape (jf_type f)) @
        attr ''message'' (xml_escape (jf_message f)) @ '' />'' @ [newline])"
      by (intro parts t) (simp_all add: printing_def is_ascii_def)
    have inner: "xml_document (if b then ''    <skipped'' @ attr ''message'' (xml_escape (jf_message f)) @ '' />'' @ [newline]
        else ''    <failure'' @ attr ''type'' (xml_escape (jf_type f)) @ attr ''message'' (xml_escape (jf_message f)) @ '' />'' @ [newline])" for b
      using skipped failure by (simp only: if_split simp_thms)
    show ?thesis unfolding test_case_xml_def Let_def Some option.case
      by (intro inner parts t) (simp_all add: printing_def is_ascii_def)
  qed
qed

text \<open>(C31) C? (round trip of the report): the JUnit document of a report is legal XML, and a reader finds in it
exactly the report: one element for each test case with its name, class name and time, a failure or
skipped element with the message where there is one, and the true counts.  Whatever text a page puts
into a message stays the value of its attribute; only characters XML cannot hold are replaced.\<close>

theorem junit_report_read_back:
  assumes "text_report r"
  shows "xml_document (to_xml r) \<and> read_xml (to_xml r) = Some (report_items r)"
proof -
  have d: "xml_document (format_duration n)" for n by (simp add: format_duration_def number_document)
  have t: "valid_utf8 (jr_name r)" using assms by (simp add: text_report_def)
  have c: "xml_document (concat (map test_case_xml (jr_test_cases r)))"
    using assms by (intro xml_document_concat case_document) (auto simp: text_report_def list_all_iff)
  have "xml_document (to_xml r)"
    unfolding to_xml_def Let_def xml_declaration_def
    by (intro xml_document_append attr_document escape_document number_document c d t xml_document_printing)
      (simp_all add: printing_def is_ascii_def)
  then show ?thesis using report_read [OF assms] by blast
qed

definition sample_results :: "check_result list" where
  "sample_results = [check_result_new ''ok'' True [],
     check_result_new ''no console errors'' False ([CHR 0x1B] @ [quote] @ ''/><failure x='' @ [quote, newline])]"

theorem junit_report_read_back_witness:
  "text_report (from_verify_report sample_results ''smoke'' 3000000) \<and>
   read_xml (to_xml (from_verify_report sample_results ''smoke'' 3000000)) =
     Some (report_items (from_verify_report sample_results ''smoke'' 3000000)) \<and>
   count_cases (\<lambda>f. f = Some ''AssertionError'') (from_verify_report sample_results ''smoke'' 3000000) = 1"
proof -
  have "text_report (from_verify_report sample_results ''smoke'' 3000000)"
    by (simp add: text_report_def from_verify_report_def sample_results_def from_check_result_def check_result_new_def
        text_case_def is_ascii_def Let_def)
  moreover have "count_cases (\<lambda>f. f = Some ''AssertionError'') (from_verify_report sample_results ''smoke'' 3000000) = 1"
    by (simp add: count_cases_def from_verify_report_def sample_results_def from_check_result_def check_result_new_def Let_def)
  ultimately show ?thesis using junit_report_read_back by blast
qed

end
