(* ===== verification/Verify_Checks.thy ===== *)
theory Verify_Checks
  imports Coverage_Report Junit_Report
begin

text \<open>
  The checks of a \<^verbatim>\<open>verify()\<close> run (\<^verbatim>\<open>victauri-test/src/assertions.rs\<close>): each asks the app through the
  client and passes or fails with a reason; one that cannot run fails.  How a JSON value is printed is
  an argument.
\<close>

section \<open>Checks\<close>

datatype check =
    Has_Text string
  | Has_No_Text string
  | Ipc_Was_Called string
  | Ipc_Was_Called_With string json
  | Ipc_Was_Not_Called string
  | Network_Request "string option" string
  | No_Network_Request string
  | No_Console_Errors
  | State_Matches string json
  | Ipc_Healthy
  | No_Ghost_Commands
  | Coverage_Above f64

definition quoted :: "string \<Rightarrow> string" where
  "quoted s = [quote] @ s @ [quote]"

fun description :: "(json \<Rightarrow> string) \<Rightarrow> check \<Rightarrow> string" where
  "description show (Has_Text t) = ''page contains '' @ quoted t"
| "description show (Has_No_Text t) = ''page does NOT contain '' @ quoted t"
| "description show (Ipc_Was_Called command) = ''IPC command '' @ quoted command @ '' was called''"
| "description show (Ipc_Was_Called_With command args) = ''IPC '' @ quoted command @ '' called with '' @ show args"
| "description show (Ipc_Was_Not_Called command) = ''IPC command '' @ quoted command @ '' was NOT called''"
| "description show (Network_Request (Some m) url) = ''network '' @ m @ '' request to '' @ quoted (''*'' @ url @ ''*'')"
| "description show (Network_Request None url) = ''network request to '' @ quoted (''*'' @ url @ ''*'')"
| "description show (No_Network_Request url) = ''NO network request to '' @ quoted (''*'' @ url @ ''*'')"
| "description show No_Console_Errors = ''no console errors''"
| "description show (State_Matches frontend_expr _) = ''state matches ('' @ frontend_expr @ '')''"
| "description show Ipc_Healthy = ''IPC integrity healthy''"
| "description show No_Ghost_Commands = ''no ghost commands''"
| "description show (Coverage_Above threshold) = ''IPC coverage >= '' @ fixed 1 threshold @ ''%''"

text \<open>\<^verbatim>\<open>assert_all_passed\<close>: the message it panics with, if it does.\<close>

definition assert_all_passed :: "check_result list \<Rightarrow> string option" where
  "assert_all_passed results =
     (if all_passed results then None
      else
        let failures = map (\<lambda>(i, f). ''  '' @ decimal (i + 1) @ ''. '' @ single_line (cr_description f) @ '' '' @ em_dash @ '' '' @
              single_line (cr_detail f)) (enumerate 0 (report_failures results))
        in Some (''verify() failed ('' @ decimal (length results - length failures) @ ''/'' @ decimal (length results) @
             '' checks passed):'' @ [newline] @ join [newline] failures))"

section \<open>Reading logs\<close>

text \<open>A log is an array, or an object with an array of entries.\<close>

definition log_entries :: "json \<Rightarrow> json list option" where
  "log_entries lg = (case json_as_array lg of Some xs \<Rightarrow> Some xs | None \<Rightarrow> get_array lg ''entries'')"

definition log_entry_count :: "json \<Rightarrow> nat" where
  "log_entry_count lg = (case log_entries lg of Some xs \<Rightarrow> length xs | None \<Rightarrow> 0)"

definition ipc_log_contains_command :: "json \<Rightarrow> string \<Rightarrow> bool" where
  "ipc_log_contains_command lg command =
     (case log_entries lg of
        Some xs \<Rightarrow> list_ex (\<lambda>entry. get_string entry ''command'' = Some command) xs
      | None \<Rightarrow> False)"

definition args_match :: "json \<Rightarrow> json \<Rightarrow> bool" where
  "args_match actual expected =
     (case expected of
        JObject exp_map \<Rightarrow>
          (case actual of
             JObject actual_map \<Rightarrow>
               list_all (\<lambda>(k, v). case map_of actual_map k of Some av \<Rightarrow> json_eq av v | None \<Rightarrow> False) exp_map
           | _ \<Rightarrow> False)
      | _ \<Rightarrow> json_eq actual expected)"

fun find_with_args :: "string \<Rightarrow> json \<Rightarrow> json list \<Rightarrow> json option \<Rightarrow> bool \<times> json option" where
  "find_with_args command expected_args [] last_args = (False, last_args)"
| "find_with_args command expected_args (entry # entries) last_args =
     (if (case get_string entry ''command'' of Some c \<Rightarrow> c | None \<Rightarrow> []) \<noteq> command
      then find_with_args command expected_args entries last_args
      else
        case (case json_get entry ''args'' of Some a \<Rightarrow> Some a | None \<Rightarrow> json_get entry ''request_body'') of
          Some args \<Rightarrow>
            if args_match args expected_args then (True, None)
            else find_with_args command expected_args entries (Some args)
        | None \<Rightarrow>
            if expected_args = JNull \<or> expected_args = JObject [] then (True, None)
            else find_with_args command expected_args entries last_args)"

definition ipc_log_find_with_args :: "json \<Rightarrow> string \<Rightarrow> json \<Rightarrow> bool \<times> json option" where
  "ipc_log_find_with_args lg command expected_args =
     (case log_entries lg of
        Some entries \<Rightarrow> find_with_args command expected_args entries None
      | None \<Rightarrow> (False, None))"

definition ipc_log_args_truncated :: "json \<Rightarrow> string \<Rightarrow> bool" where
  "ipc_log_args_truncated lg command =
     list_ex (\<lambda>entry. get_string entry ''command'' = Some command \<and>
         (get_bool entry ''args_truncated'' = Some True \<or>
          (case get_string entry ''args'' of Some args \<Rightarrow> prefix ''[truncated '' args | None \<Rightarrow> False)))
       (case log_entries lg of Some xs \<Rightarrow> xs | None \<Rightarrow> [])"

definition network_log_matches :: "json \<Rightarrow> string option \<Rightarrow> string \<Rightarrow> bool" where
  "network_log_matches lg wanted url_contains =
     (case log_entries lg of
        None \<Rightarrow> False
      | Some entries \<Rightarrow>
          list_ex (\<lambda>entry.
            let url = (case get_string entry ''url'' of Some u \<Rightarrow> u | None \<Rightarrow> [])
            in if \<not> contains_str url url_contains then False
               else case wanted of
                 Some m \<Rightarrow> eq_ignore_ascii_case (case get_string entry ''method'' of Some s \<Rightarrow> s | None \<Rightarrow> []) m
               | None \<Rightarrow> True) entries)"

definition console_log_errors :: "json \<Rightarrow> string list" where
  "console_log_errors lg =
     List.map_filter (\<lambda>entry.
         if get_string entry ''level'' = Some ''error''
         then Some (single_line (case get_string entry ''message'' of Some m \<Rightarrow> m | None \<Rightarrow> ''(no message)''))
         else None)
       (case log_entries lg of Some xs \<Rightarrow> xs | None \<Rightarrow> [])"

definition command_names :: "json option \<Rightarrow> string list" where
  "command_names xs =
     List.map_filter (\<lambda>entry. map_option single_line (get_string entry ''name''))
       (case Option.bind xs json_as_array of Some es \<Rightarrow> es | None \<Rightarrow> [])"

definition capture_note :: "json \<Rightarrow> string" where
  "capture_note report =
     ''inconclusive: Victauri cannot observe this page'' @ [CHR 0x27] @ ''s IPC (capture: none). '' @
       single_line (case ipc_capture report ''note'' of Some n \<Rightarrow> n | None \<Rightarrow> [])"

definition log_full_detail :: "string \<Rightarrow> string" where
  "log_full_detail which =
     ''inconclusive: the '' @ which @ '' log holds its maximum of '' @ decimal LOG_WINDOW @
       '' entries, so an older match may have rolled off. On a busy app, take a checkpoint first (create_ipc_checkpoint / get_ipc_calls_since)''"

definition console_log_full_detail :: string where
  "console_log_full_detail =
     ''inconclusive: the console log holds its maximum of '' @ decimal LOG_WINDOW @
       '' entries, so an older error may have rolled off. On a chatty app, clear the log first (logs {action:'' @ quoted ''clear'' @ ''})''"

section \<open>Asking the app\<close>

text \<open>The script that reads the page's text.\<close>

definition PAGE_TEXT_JS :: string where
  "PAGE_TEXT_JS =
     (let q = [CHR 0x27]
      in join '' ''
        [''(function() {'', ''if (!document.body) return null;'', ''var bridge = window.__VICTAURI__;'',
         ''if (bridge && bridge.getPageText) return bridge.getPageText();'',
         ''function read(root) {'',
         ''var text = (typeof root.innerText === '' @ q @ ''string'' @ q @ '' ? root.innerText : root.textContent) || '' @ q @ q @ '';'',
         ''var els = root.querySelectorAll('' @ q @ ''*'' @ q @ '');'',
         ''for (var i = 0; i < els.length; i++) {'',
         ''if (els[i].shadowRoot) text += '' @ q @ '' '' @ q @ '' + read(els[i].shadowRoot);'',
         ''if (els[i].tagName === '' @ q @ ''IFRAME'' @ q @ '' || els[i].tagName === '' @ q @ ''FRAME'' @ q @ '') {'',
         ''try { var doc = els[i].contentDocument;'',
         ''if (doc && doc.body) text += '' @ q @ '' '' @ q @ '' + read(doc.body); } catch (e) {}'',
         ''}'', ''}'', ''return text;'', ''}'', ''return read(document.body); })()''])"

definition COUNT_JS :: string where
  "COUNT_JS = ''(window.__VICTAURI__?.getNetworkLog(null, 0, { bodies: false }) || []).length''"

definition page_text :: "(json \<Rightarrow> string) \<Rightarrow> 'w tool_caller \<Rightarrow> ('w, string) action" where
  "page_text show call =
     and_then (eval_js call PAGE_TEXT_JS) (\<lambda>v.
       case v of
         JString t \<Rightarrow> give t
       | other \<Rightarrow> fail (Test_Other (''could not read the page'' @ [CHR 0x27] @ ''s text (is the page loaded?): '' @ single_line (show other))))"

fun plugin_will_not_answer :: "test_error \<Rightarrow> bool" where
  "plugin_will_not_answer (Tool_Error message) = contains_str message ''is disabled by privacy configuration''"
| "plugin_will_not_answer (Test_Mcp code _) = (code = -32601 \<or> code = -32602)"
| "plugin_will_not_answer _ = False"

definition ipc_blind_note :: "'w tool_caller \<Rightarrow> ('w, string option) action" where
  "ipc_blind_note call =
     either_way (check_ipc_integrity call)
       (\<lambda>integrity. give (if ipc_capture integrity ''capture'' = Some ''none'' then Some (capture_note integrity) else None))
       (\<lambda>e. if plugin_will_not_answer e then give None else fail e)"

definition network_log_is_full :: "'w tool_caller \<Rightarrow> json \<Rightarrow> ('w, bool) action" where
  "network_log_is_full call ipc_log =
     (if log_entry_count ipc_log \<ge> LOG_WINDOW then give True
      else either_way (eval_js call COUNT_JS)
        (\<lambda>v. give (case json_as_u64 v of Some n \<Rightarrow> n \<ge> LOG_WINDOW | None \<Rightarrow> False))
        (\<lambda>e. if plugin_will_not_answer e then give False else fail e))"

section \<open>Running a check\<close>

definition outcome :: "(json \<Rightarrow> string) \<Rightarrow> check \<Rightarrow> bool \<Rightarrow> string \<Rightarrow> check_result" where
  "outcome show c passed detail = check_result_new (description show c) passed detail"

definition run_ghosts :: "(json \<Rightarrow> string) \<Rightarrow> json \<Rightarrow> check_result" where
  "run_ghosts show result =
     (case get_array result ''confirmed_ghosts'' of
        None \<Rightarrow> outcome show No_Ghost_Commands False
          (''the plugin'' @ [CHR 0x27] @ ''s report has no `confirmed_ghosts`; upgrade victauri-plugin to run this check'')
      | Some confirmed \<Rightarrow>
          let candidates = command_names (json_get result ''frontend_only''); capture = ipc_capture result ''capture''
          in outcome show No_Ghost_Commands (confirmed = [] \<and> capture \<noteq> Some ''none'')
            (if confirmed \<noteq> [] then
               decimal (length confirmed) @ '' confirmed ghost command(s): '' @ join '', '' (command_names (Some (JArray confirmed)))
             else if capture = Some ''none'' then capture_note result
             else if capture = Some ''requests_only'' then
               ''IPC capture on this page is `requests_only`: calls are seen but not their outcomes, so a ghost cannot be confirmed''
             else if candidates \<noteq> [] then
               decimal (length candidates) @ '' unconfirmed candidate(s), not treated as ghosts: '' @ join '', '' candidates
             else []))"

fun run_check :: "(json \<Rightarrow> string) \<Rightarrow> 'w tool_caller \<Rightarrow> check \<Rightarrow> ('w, check_result) action" where
  "run_check show call (Has_Text t) =
     and_then (page_text show call) (\<lambda>page.
       let found = contains_str page t
       in give (outcome show (Has_Text t) found (if found then [] else ''text '' @ quoted t @ '' not found on the page'')))"
| "run_check show call (Has_No_Text t) =
     and_then (page_text show call) (\<lambda>page.
       let found = contains_str page t
       in give (outcome show (Has_No_Text t) (\<not> found)
         (if found then ''text '' @ quoted t @ '' was found on the page but shouldn'' @ [CHR 0x27] @ ''t be'' else [])))"
| "run_check show call (Ipc_Was_Called command) =
     and_then (logs_without_bodies call ''ipc'' LOG_WINDOW) (\<lambda>lg.
       let found = ipc_log_contains_command lg command
       in give (outcome show (Ipc_Was_Called command) found
         (if found then [] else ''command '' @ quoted command @ '' not found in IPC log'')))"
| "run_check show call (Ipc_Was_Called_With command expected_args) =
     and_then (get_ipc_log call (Some LOG_WINDOW)) (\<lambda>lg.
       let (found, actual_args) = ipc_log_find_with_args lg command expected_args
       in give (outcome show (Ipc_Was_Called_With command expected_args) found
         (if found then []
          else if ipc_log_args_truncated lg command then
            ''command '' @ quoted command @ '' was called, but the log truncated its args, so they could not be compared''
          else case actual_args of
            Some actual \<Rightarrow> ''command called but with args: '' @ show actual
          | None \<Rightarrow> ''command '' @ quoted command @ '' not found in IPC log'')))"
| "run_check show call (Ipc_Was_Not_Called command) =
     and_then (logs_without_bodies call ''ipc'' LOG_WINDOW) (\<lambda>lg.
       let found = ipc_log_contains_command lg command
       in and_then (if found then give None else ipc_blind_note call) (\<lambda>blind.
          and_then (if \<not> found \<and> blind = None then network_log_is_full call lg else give False) (\<lambda>inconclusive.
            give (outcome show (Ipc_Was_Not_Called command) (\<not> found \<and> blind = None \<and> \<not> inconclusive)
              (if found then ''command '' @ quoted command @ '' WAS called but shouldn'' @ [CHR 0x27] @ ''t have been''
               else case blind of
                 Some note \<Rightarrow> note
               | None \<Rightarrow> if inconclusive then log_full_detail ''IPC'' else [])))))"
| "run_check show call (Network_Request wanted url_contains) =
     and_then (logs_without_bodies call ''network'' LOG_WINDOW) (\<lambda>lg.
       let found = network_log_matches lg wanted url_contains
       in give (outcome show (Network_Request wanted url_contains) found
         (if found then [] else ''no matching network request found'')))"
| "run_check show call (No_Network_Request url_contains) =
     and_then (logs_without_bodies call ''network'' LOG_WINDOW) (\<lambda>lg.
       let found = network_log_matches lg None url_contains;
           inconclusive = (\<not> found \<and> log_entry_count lg \<ge> LOG_WINDOW)
       in give (outcome show (No_Network_Request url_contains) (\<not> found \<and> \<not> inconclusive)
         (if found then ''found network request matching '' @ quoted url_contains @ '' but shouldn'' @ [CHR 0x27] @ ''t have''
          else if inconclusive then log_full_detail ''network'' else [])))"
| "run_check show call No_Console_Errors =
     and_then (client_logs call ''console'' (Some LOG_WINDOW)) (\<lambda>lg.
       let errors = console_log_errors lg; inconclusive = (errors = [] \<and> log_entry_count lg \<ge> LOG_WINDOW)
       in give (outcome show No_Console_Errors (errors = [] \<and> \<not> inconclusive)
         (if inconclusive then console_log_full_detail
          else if errors = [] then []
          else decimal (length errors) @ '' error(s): '' @ join ''; '' errors)))"
| "run_check show call (State_Matches frontend_expr backend_state) =
     and_then (client_verify_state call frontend_expr backend_state) (\<lambda>result.
       let passed = (case get_bool result ''passed'' of Some b \<Rightarrow> b | None \<Rightarrow> False)
       in give (outcome show (State_Matches frontend_expr backend_state) passed
         (if passed then [] else ''divergences: '' @ show (json_index result ''divergences''))))"
| "run_check show call Ipc_Healthy =
     and_then (check_ipc_integrity call) (\<lambda>result.
       let healthy = ipc_integrity_is_healthy result
       in give (outcome show Ipc_Healthy healthy (if healthy then [] else show result)))"
| "run_check show call No_Ghost_Commands =
     and_then (detect_ghost_commands call) (\<lambda>result. give (run_ghosts show result))"
| "run_check show call (Coverage_Above threshold) =
     and_then (coverage_report call) (\<lambda>report.
       let passed = meets_threshold report threshold
       in give (check_result_new
         (''IPC coverage >= '' @ fixed 1 threshold @ ''% (actual: '' @ fixed 1 (cov_percentage report) @ ''%)'') passed
         (if passed then []
          else ''coverage '' @ fixed 1 (cov_percentage report) @ ''% is below threshold '' @ fixed 1 threshold @ ''%'')))"

text \<open>\<^verbatim>\<open>VerifyBuilder::run\<close>: only a lost connection ends the run.\<close>

fun verify_run :: "(json \<Rightarrow> string) \<Rightarrow> 'w tool_caller \<Rightarrow> check list \<Rightarrow> ('w, check_result list) action" where
  "verify_run show call [] = give []"
| "verify_run show call (c # checks) =
     and_then
       (either_way (run_check show call c) give
         (\<lambda>e. case e of
            Test_Connection h p r \<Rightarrow> fail (Test_Connection h p r)
          | Test_Request r \<Rightarrow> fail (Test_Request r)
          | other \<Rightarrow> give (check_result_new (description show c) False
              (''the check could not run: '' @ single_line (show_test_error other)))))
       (\<lambda>result. and_then (verify_run show call checks) (\<lambda>results. give (result # results)))"

text \<open>The assertions on a log the caller has read: the message they panic with, if they do.\<close>

definition assert_ipc_called :: "json \<Rightarrow> string \<Rightarrow> string option" where
  "assert_ipc_called lg command =
     (if ipc_log_contains_command lg command then None
      else Some (''expected IPC command '' @ quoted command @ '' to have been called, but it was not found in the log''))"

definition assert_ipc_called_with :: "(json \<Rightarrow> string) \<Rightarrow> json \<Rightarrow> string \<Rightarrow> json \<Rightarrow> string option" where
  "assert_ipc_called_with show lg command expected_args =
     (let (found, actual_args) = ipc_log_find_with_args lg command expected_args
      in if found then None
         else if ipc_log_args_truncated lg command then
           Some (''IPC command '' @ quoted command @ '' was called, but the log truncated its args, so they could not be compared (expected: '' @
             show expected_args @ '')'')
         else case actual_args of
           Some actual \<Rightarrow> Some (join [newline]
             [''IPC command '' @ quoted command @ '' was called but with different args:'',
              ''  expected: '' @ show expected_args, ''  actual:   '' @ show actual])
         | None \<Rightarrow> Some (''IPC command '' @ quoted command @ '' was never called (expected args: '' @ show expected_args @ '')''))"

definition assert_ipc_not_called :: "json \<Rightarrow> string \<Rightarrow> string option" where
  "assert_ipc_not_called lg command =
     (if \<not> ipc_log_contains_command lg command then None
      else Some (''expected IPC command '' @ quoted command @ '' to NOT have been called, but it was''))"

section \<open>What a passing check means\<close>

lemma and_then_Inr: "and_then m f w = (Inr y, w') \<longleftrightarrow> (\<exists>x v. m w = (Inr x, v) \<and> f x v = (Inr y, w'))"
  by (auto simp: and_then_def split: prod.splits sum.splits)

lemma give_Inr: "give x w = (Inr y, w') \<longleftrightarrow> x = y \<and> w = w'"
  by (simp add: give_def)

lemma either_way_Inr: "either_way m f h w = (Inr y, w') \<longleftrightarrow>
    (\<exists>x v. m w = (Inr x, v) \<and> f x v = (Inr y, w')) \<or> (\<exists>e v. m w = (Inl e, v) \<and> h e v = (Inr y, w'))"
  by (auto simp: either_way_def split: prod.splits sum.splits)

lemma fail_Inr: "fail e w \<noteq> (Inr y, w')"
  by (simp add: fail_def)

lemmas ran = and_then_Inr give_Inr either_way_Inr fail_Inr

text \<open>A run that ends has a result for every check.\<close>

lemma verify_run_length: "verify_run show call checks w = (Inr results, w') \<Longrightarrow> length results = length checks"
  by (induction checks arbitrary: w results) (auto simp: ran)

text \<open>
  The app as the bridge in its page observes it: \<open>hist w\<close> are the requests of the page so far, of which
  the bridge keeps the newest 1000; \<open>view\<close> is the entry of the IPC log a request becomes, if it is a
  call.  Requests may arrive before and after the instant an answer describes.
\<close>

definition between :: "('w \<Rightarrow> json list) \<Rightarrow> 'w \<Rightarrow> 'w \<Rightarrow> json list \<Rightarrow> bool" where
  "between hist w w' h \<longleftrightarrow> prefix (hist w) h \<and> prefix h (hist w')"

definition only_grows :: "'w tool_caller \<Rightarrow> ('w \<Rightarrow> json list) \<Rightarrow> bool" where
  "only_grows call hist \<longleftrightarrow> (\<forall>tool args w. prefix (hist w) (hist (snd (call tool args w))))"

definition serves_ipc_log :: "'w tool_caller \<Rightarrow> ('w \<Rightarrow> json list) \<Rightarrow> (json \<Rightarrow> json option) \<Rightarrow> bool" where
  "serves_ipc_log call hist view \<longleftrightarrow>
     (\<forall>w v w'. logs_without_bodies call ''ipc'' LOG_WINDOW w = (Inr v, w') \<longrightarrow>
        (\<exists>h. between hist w w' h \<and> v = JArray (List.map_filter view (take_last LOG_WINDOW h))))"

definition counts_requests :: "'w tool_caller \<Rightarrow> ('w \<Rightarrow> json list) \<Rightarrow> bool" where
  "counts_requests call hist \<longleftrightarrow>
     (\<forall>w a w'. eval_js call COUNT_JS w = (a, w') \<longrightarrow>
        (case a of
           Inl e \<Rightarrow> \<not> plugin_will_not_answer e
         | Inr v \<Rightarrow> \<exists>h. between hist w w' h \<and> v = JNumber (PosInt (length (take_last LOG_WINDOW h)))))"

definition calls_command :: "(json \<Rightarrow> json option) \<Rightarrow> string \<Rightarrow> json \<Rightarrow> bool" where
  "calls_command view command request \<longleftrightarrow> Option.bind (view request) (\<lambda>x. get_string x ''command'') = Some command"

lemma contains_viewed:
  "ipc_log_contains_command (JArray (List.map_filter view h)) command \<longleftrightarrow> list_ex (calls_command view command) h"
proof -
  have "list_ex (\<lambda>e. get_string e ''command'' = Some command) (List.map_filter view h) \<longleftrightarrow> list_ex (calls_command view command) h"
    by (induction h) (auto simp: List.map_filter_simps calls_command_def split: option.splits)
  then show ?thesis by (simp add: ipc_log_contains_command_def log_entries_def)
qed

lemma ipc_blind_note_grows:
  assumes "only_grows call hist" "ipc_blind_note call w = (Inr x, w')"
  shows "prefix (hist w) (hist w')"
proof -
  have "w' = snd (check_ipc_integrity call w)"
    using assms(2) by (auto simp: ipc_blind_note_def ran split: if_splits)
  then show ?thesis using assms(1) by (simp add: only_grows_def check_ipc_integrity_def)
qed

text \<open>A log that is not full has lost nothing.\<close>

lemma not_full_complete:
  assumes "counts_requests call hist" "network_log_is_full call lg w = (Inr False, w')" "prefix h (hist w)"
  shows "length h < LOG_WINDOW"
proof -
  obtain a v where a: "eval_js call COUNT_JS w = (a, v)" by (cases "eval_js call COUNT_JS w")
  have answer: "case a of Inl e \<Rightarrow> \<not> plugin_will_not_answer e
      | Inr v' \<Rightarrow> \<exists>h. between hist w v h \<and> v' = JNumber (PosInt (length (take_last LOG_WINDOW h)))"
    using assms(1) a unfolding counts_requests_def by blast
  have "log_entry_count lg < LOG_WINDOW" using assms(2) by (auto simp: network_log_is_full_def ran split: if_splits)
  then obtain x where x: "a = Inr x" "\<not> (case json_as_u64 x of Some n \<Rightarrow> n \<ge> LOG_WINDOW | None \<Rightarrow> False)"
    using assms(2) a answer by (auto simp: network_log_is_full_def ran split: if_splits)
  then obtain g where g: "between hist w v g" "x = JNumber (PosInt (length (take_last LOG_WINDOW g)))"
    using answer by auto
  then have "length g < LOG_WINDOW" using x(2) by (auto simp: min_def split: if_splits)
  moreover have "prefix h g" using assms(3) g(1) prefix_order.trans by (auto simp: between_def)
  ultimately show ?thesis using prefix_length_le by fastforce
qed


definition sample_app :: "json list tool_caller" where
  "sample_app tool args h =
     (Inr (if tool = ''logs'' then JArray (List.map_filter Some (take_last LOG_WINDOW h))
           else if tool = ''eval_js'' then JNumber (PosInt (length (take_last LOG_WINDOW h))) else JObject []), h)"

definition sample_requests :: "json list" where
  "sample_requests = [JObject [(''command'', JString ''save'')], JObject [(''url'', JString ''http://localhost/'')]]"


end
