(* ===== verification/Visual_Diff.thy ===== *)
theory Visual_Diff
  imports Float_Text "HOL-Library.Word"
begin

text \<open>
  Visual regression checks (\<^verbatim>\<open>victauri-test/src/visual.rs\<close>): masks, tolerances, the conversion of a
  PNG frame to RGBA, the comparison of a screenshot with its baseline file and its verdict in binary64.
  Base64, the PNG codec and the failures of the disk are arguments; the files of the snapshot directory
  are a map.  A product of two \<^verbatim>\<open>u32\<close> wraps here; a debug build panics on it.
\<close>

section \<open>Options\<close>

record mask_region =
  mr_x :: nat
  mr_y :: nat
  mr_width :: nat
  mr_height :: nat

definition u32_saturating_add :: "nat \<Rightarrow> nat \<Rightarrow> nat" where
  "u32_saturating_add a b = min (a + b) (2 ^ 32 - 1)"

definition mask_contains :: "mask_region \<Rightarrow> nat \<Rightarrow> nat \<Rightarrow> bool" where
  "mask_contains m px py \<longleftrightarrow>
     mr_x m \<le> px \<and> px < u32_saturating_add (mr_x m) (mr_width m) \<and>
     mr_y m \<le> py \<and> py < u32_saturating_add (mr_y m) (mr_height m)"

datatype threshold_preset = Strict | Standard | Anti_Alias | Relaxed

fun channel_tolerance :: "threshold_preset \<Rightarrow> 8 word" where
  "channel_tolerance Strict = 0"
| "channel_tolerance Standard = 2"
| "channel_tolerance Anti_Alias = 5"
| "channel_tolerance Relaxed = 10"

fun threshold_percent :: "threshold_preset \<Rightarrow> f64" where
  "threshold_percent Strict = F_Fin 0"
| "threshold_percent Standard = round_f64 (1 / 10)"
| "threshold_percent Anti_Alias = F_Fin (1 / 2)"
| "threshold_percent Relaxed = F_Fin 2"

record visual_options =
  vo_channel_tolerance :: "8 word"
  vo_threshold_percent :: f64
  vo_generate_diff_image :: bool
  vo_update_baselines :: bool
  vo_mask_regions :: "mask_region list"

definition visual_options_default :: visual_options where
  "visual_options_default = \<lparr>vo_channel_tolerance = 2, vo_threshold_percent = round_f64 (1 / 10),
     vo_generate_diff_image = True, vo_update_baselines = False, vo_mask_regions = []\<rparr>"

definition with_preset :: "visual_options \<Rightarrow> threshold_preset \<Rightarrow> visual_options" where
  "with_preset opts p = opts\<lparr>vo_channel_tolerance := channel_tolerance p, vo_threshold_percent := threshold_percent p\<rparr>"

definition with_mask :: "visual_options \<Rightarrow> mask_region \<Rightarrow> visual_options" where
  "with_mask opts m = opts\<lparr>vo_mask_regions := vo_mask_regions opts @ [m]\<rparr>"

section \<open>Comparing two images\<close>

record decoded_image =
  di_width :: nat
  di_height :: nat
  di_rgba :: "8 word list"

definition abs_diff :: "8 word \<Rightarrow> 8 word \<Rightarrow> 8 word" where
  "abs_diff a b = (if a < b then b - a else a - b)"

definition pixel_count :: "decoded_image \<Rightarrow> nat" where
  "pixel_count d = (di_width d * di_height d) mod 2 ^ 32"

definition pixel_differs :: "decoded_image \<Rightarrow> decoded_image \<Rightarrow> 8 word \<Rightarrow> nat \<Rightarrow> bool" where
  "pixel_differs current baseline tolerance i \<longleftrightarrow>
     (let d = (\<lambda>c. abs_diff (di_rgba current ! (i * 4 + c)) (di_rgba baseline ! (i * 4 + c)))
      in d 0 > tolerance \<or> d 1 > tolerance \<or> d 2 > tolerance \<or> d 3 > tolerance)"

definition pixel_masked :: "decoded_image \<Rightarrow> mask_region list \<Rightarrow> nat \<Rightarrow> bool" where
  "pixel_masked current masks i \<longleftrightarrow>
     masks \<noteq> [] \<and> list_ex (\<lambda>m. mask_contains m (i mod di_width current) (i div di_width current)) masks"

text \<open>The loop over the pixels, from the indices left; it stops where a buffer ends.\<close>

fun diff_loop ::
  "decoded_image \<Rightarrow> decoded_image \<Rightarrow> 8 word \<Rightarrow> mask_region list \<Rightarrow> nat list \<Rightarrow> nat list \<times> nat \<Rightarrow> nat list \<times> nat" where
  "diff_loop current baseline tolerance masks [] (positions, masked) = (positions, masked)"
| "diff_loop current baseline tolerance masks (i # is) (positions, masked) =
     (if length (di_rgba current) \<le> i * 4 + 3 \<or> length (di_rgba baseline) \<le> i * 4 + 3 then (positions, masked)
      else if pixel_masked current masks i then diff_loop current baseline tolerance masks is (positions, masked + 1)
      else if pixel_differs current baseline tolerance i
      then diff_loop current baseline tolerance masks is (positions @ [i], masked)
      else diff_loop current baseline tolerance masks is (positions, masked))"

definition compute_diff :: "decoded_image \<Rightarrow> decoded_image \<Rightarrow> 8 word \<Rightarrow> mask_region list \<Rightarrow> nat list \<times> nat" where
  "compute_diff current baseline tolerance masks =
     diff_loop current baseline tolerance masks [0..<pixel_count current] ([], 0)"

text \<open>The pixels of the diff image: differing ones in red.\<close>

definition paint_diff :: "8 word list \<Rightarrow> nat list \<Rightarrow> 8 word list" where
  "paint_diff rgba positions =
     fold (\<lambda>pos out. let offset = pos * 4 in
       if offset + 3 < length out
       then out[offset := 255, offset + 1 := 0, offset + 2 := 0, offset + 3 := 255] else out) positions rgba"

record visual_diff =
  vd_match_percentage :: f64
  vd_diff_pixel_count :: nat
  vd_total_pixels :: nat
  vd_masked_pixels :: nat
  vd_diff_image_path :: "string option"
  vd_baseline_created :: bool

definition is_match :: "visual_diff \<Rightarrow> f64 \<Rightarrow> bool" where
  "is_match d threshold = f64_le (f64_sub (F_Fin 100) threshold) (vd_match_percentage d)"

definition match_percentage :: "nat \<Rightarrow> nat \<Rightarrow> f64" where
  "match_percentage differing total_pixels =
     (if total_pixels = 0 then F_Fin 100
      else f64_mul (f64_sub (F_Fin 1) (f64_div (f64_of_int (int differing)) (f64_of_int (int total_pixels)))) (F_Fin 100))"

section \<open>Decoding\<close>

datatype color_type = Rgba | Rgb | Grayscale | Grayscale_Alpha | Indexed

record png_frame =
  pf_color :: color_type
  pf_width :: nat
  pf_height :: nat
  pf_buffer :: "8 word list"

fun rgb_to_rgba :: "8 word list \<Rightarrow> 8 word list" where
  "rgb_to_rgba (r # g # b # rest) = r # g # b # 255 # rgb_to_rgba rest"
| "rgb_to_rgba _ = []"

definition gray_to_rgba :: "8 word list \<Rightarrow> 8 word list" where
  "gray_to_rgba gray = concat (map (\<lambda>g. [g, g, g, 255]) gray)"

fun gray_alpha_to_rgba :: "8 word list \<Rightarrow> 8 word list" where
  "gray_alpha_to_rgba (g # a # rest) = g # g # g # a # gray_alpha_to_rgba rest"
| "gray_alpha_to_rgba _ = []"

definition decode_frame :: "png_frame \<Rightarrow> decoded_image option" where
  "decode_frame f =
     (let decoded = (\<lambda>rgba. Some \<lparr>di_width = pf_width f, di_height = pf_height f, di_rgba = rgba\<rparr>)
      in case pf_color f of
           Rgba \<Rightarrow> decoded (pf_buffer f)
         | Rgb \<Rightarrow> decoded (rgb_to_rgba (pf_buffer f))
         | Grayscale \<Rightarrow> decoded (gray_to_rgba (pf_buffer f))
         | Grayscale_Alpha \<Rightarrow> decoded (gray_alpha_to_rgba (pf_buffer f))
         | Indexed \<Rightarrow> None)"

text \<open>
  The codecs: \<open>vl_read_png\<close> is the first frame normalised to 8-bit samples, \<open>vl_write_png\<close> the bytes
  the encoder has written and whether it succeeded.
\<close>

record visual_lib =
  vl_base64 :: "string \<Rightarrow> 8 word list option"
  vl_read_png :: "8 word list \<Rightarrow> png_frame option"
  vl_write_png :: "nat \<Rightarrow> nat \<Rightarrow> 8 word list \<Rightarrow> 8 word list \<times> bool"

definition decode_png :: "visual_lib \<Rightarrow> 8 word list \<Rightarrow> decoded_image option" where
  "decode_png lib bytes = (case vl_read_png lib bytes of None \<Rightarrow> None | Some f \<Rightarrow> decode_frame f)"

section \<open>The comparison with a baseline\<close>

text \<open>The snapshot directory, by file name, and which calls of the system succeed.\<close>

record snapshot_dir =
  sd_created :: bool
  sd_readable :: "string \<Rightarrow> bool"
  sd_writable :: "string \<Rightarrow> bool"
  sd_files :: "string \<Rightarrow> 8 word list option"

datatype visual_error =
    Bad_Name | Bad_Base64 | No_Directory | Bad_Png | Write_Failed | Read_Failed | No_Baseline string
  | Size_Mismatch nat nat nat nat
  | Visual_Regression f64 f64

text \<open>A baseline name is a plain file name (\<^verbatim>\<open>Path::is_absolute\<close> needs one of the excluded characters).\<close>

definition check_baseline_name :: "string \<Rightarrow> bool" where
  "check_baseline_name name \<longleftrightarrow>
     name \<noteq> [] \<and> name \<noteq> ''..'' \<and> \<not> list_ex (\<lambda>c. c = CHR ''/'' \<or> c = CHR 0x5C \<or> c = CHR '':'') name"

definition write_diff_image ::
  "visual_lib \<Rightarrow> string \<Rightarrow> decoded_image \<Rightarrow> nat list \<Rightarrow> snapshot_dir \<Rightarrow> bool \<times> snapshot_dir" where
  "write_diff_image lib path src positions d =
     (if \<not> sd_writable d path then (False, d)
      else let (bytes, ok) = vl_write_png lib (di_width src) (di_height src) (paint_diff (di_rgba src) positions)
           in (ok, d\<lparr>sd_files := (sd_files d)(path \<mapsto> bytes)\<rparr>))"

text \<open>The tail of \<^verbatim>\<open>compare_in\<close>, once both images are decoded.\<close>

definition compare_images ::
  "visual_lib \<Rightarrow> string \<Rightarrow> decoded_image \<Rightarrow> decoded_image \<Rightarrow> visual_options \<Rightarrow> snapshot_dir \<Rightarrow>
   (visual_error + visual_diff) \<times> snapshot_dir" where
  "compare_images lib name current baseline opts d =
     (if di_width current \<noteq> di_width baseline \<or> di_height current \<noteq> di_height baseline
      then (Inl (Size_Mismatch (di_width current) (di_height current) (di_width baseline) (di_height baseline)), d)
      else
        let (diff, masked) = compute_diff current baseline (vo_channel_tolerance opts) (vo_mask_regions opts);
            total_pixels = pixel_count current - masked;
            percentage = match_percentage (length diff) total_pixels;
            drawn = diff \<noteq> [] \<and> vo_generate_diff_image opts;
            diff_path = name @ ''.diff.png'';
            (ok, d) = (if drawn then write_diff_image lib diff_path current diff d else (True, d));
            result = \<lparr>vd_match_percentage = percentage, vd_diff_pixel_count = length diff,
              vd_total_pixels = total_pixels, vd_masked_pixels = masked,
              vd_diff_image_path = (if drawn then Some diff_path else None), vd_baseline_created = False\<rparr>
        in (if \<not> ok then Inl Write_Failed
            else if is_match result (vo_threshold_percent opts) then Inr result
            else Inl (Visual_Regression (f64_sub (F_Fin 100) percentage) (vo_threshold_percent opts)), d))"

definition compare_in ::
  "visual_lib \<Rightarrow> string \<Rightarrow> string \<Rightarrow> visual_options \<Rightarrow> bool \<Rightarrow> snapshot_dir \<Rightarrow>
   (visual_error + visual_diff) \<times> snapshot_dir" where
  "compare_in lib name screenshot opts ci d =
     (if \<not> check_baseline_name name then (Inl Bad_Name, d)
      else case vl_base64 lib screenshot of
        None \<Rightarrow> (Inl Bad_Base64, d)
      | Some bytes \<Rightarrow>
          if \<not> sd_created d then (Inl No_Directory, d)
          else
            let path = name @ ''.png''
            in if vo_update_baselines opts \<or> sd_files d path = None then
                 (case decode_png lib bytes of
                    None \<Rightarrow> (Inl Bad_Png, d)
                  | Some decoded \<Rightarrow>
                      if \<not> sd_writable d path then (Inl Write_Failed, d)
                      else
                        (if ci \<and> \<not> vo_update_baselines opts then Inl (No_Baseline name)
                         else Inr \<lparr>vd_match_percentage = F_Fin 100, vd_diff_pixel_count = 0,
                           vd_total_pixels = di_width decoded * di_height decoded, vd_masked_pixels = 0,
                           vd_diff_image_path = None, vd_baseline_created = True\<rparr>,
                         d\<lparr>sd_files := (sd_files d)(path \<mapsto> bytes)\<rparr>))
               else case (if sd_readable d path then sd_files d path else None) of
                 None \<Rightarrow> (Inl Read_Failed, d)
               | Some old \<Rightarrow>
                   (case (decode_png lib bytes, decode_png lib old) of
                      (Some current, Some baseline) \<Rightarrow> compare_images lib name current baseline opts d
                    | _ \<Rightarrow> (Inl Bad_Png, d)))"

section \<open>What is counted\<close>

definition full_image :: "decoded_image \<Rightarrow> bool" where
  "full_image d \<longleftrightarrow> length (di_rgba d) = di_width d * di_height d * 4 \<and> di_width d * di_height d < 2 ^ 32"

lemma diff_loop_exact:
  "\<forall>i \<in> set is. i * 4 + 3 < length (di_rgba current) \<and> i * 4 + 3 < length (di_rgba baseline) \<Longrightarrow>
   diff_loop current baseline tolerance masks is (positions, masked) =
     (positions @ filter (\<lambda>i. \<not> pixel_masked current masks i \<and> pixel_differs current baseline tolerance i) is,
      masked + length (filter (pixel_masked current masks) is))"
  by (induction "is" arbitrary: positions masked) auto

lemma compute_diff_exact:
  assumes "full_image current" "full_image baseline" "di_width current = di_width baseline"
    "di_height current = di_height baseline"
  shows "compute_diff current baseline tolerance masks =
    (filter (\<lambda>i. \<not> pixel_masked current masks i \<and> pixel_differs current baseline tolerance i) [0..<di_width current * di_height current],
     length (filter (pixel_masked current masks) [0..<di_width current * di_height current]))"
proof -
  have "pixel_count current = di_width current * di_height current"
    using assms(1) by (simp add: pixel_count_def full_image_def)
  moreover have "\<forall>i \<in> set [0..<di_width current * di_height current].
      i * 4 + 3 < length (di_rgba current) \<and> i * 4 + 3 < length (di_rgba baseline)"
    using assms by (auto simp: full_image_def)
  ultimately show ?thesis by (simp only: compute_diff_def diff_loop_exact append_Nil add_0)
qed

section \<open>The verdict\<close>

lemma round_f64_one: "round_f64 1 = F_Fin 1"
  using f64_of_small_nat [of 1] by (simp add: f64_of_int_def)

lemma match_percentage_zero:
  assumes "0 < n" "n \<le> 2 ^ 32"
  shows "match_percentage 0 n = F_Fin 100"
proof -
  have "f64_of_int (int n) = F_Fin (of_nat n)" using assms by (intro f64_of_small_nat) simp_all
  moreover have "f64_div (F_Fin 0) (F_Fin (of_nat n)) = F_Fin 0" using assms(1) by (intro f64_div_zero) simp
  ultimately show ?thesis using assms(1)
    by (simp add: match_percentage_def f64_of_int_def [of 0] f64_sub_def round_f64_one f64_mul_def f64_is_inf_def
        f64_is_zero_def round_f64_hundred)
qed

lemma match_percentage_less:
  assumes "0 < d" "d \<le> n" "n \<le> 2 ^ 32"
  shows "\<exists>r. match_percentage d n = F_Fin r \<and> r < 100"
proof -
  obtain q where q: "f64_div (f64_of_int (int d)) (f64_of_int (int n)) = F_Fin q" "pow2 (-32) \<le> q" "q \<le> 1"
    by (rule rounded_ratio [OF assms])
  have q0: "q \<noteq> 0" using q(2) pow2_pos [of "-32"] by linarith
  have mp: "match_percentage d n = f64_mul (round_f64 (1 - q)) (F_Fin 100)"
    using assms q0 by (simp add: match_percentage_def q(1) f64_sub_def)
  show ?thesis
  proof (cases "q = 1")
    case True
    then show ?thesis by (simp add: mp f64_mul_def f64_is_inf_def f64_is_zero_def)
  next
    case False
    define s where "s = round_mag (1 - q)"
    have "0 < q" using q(2) pow2_pos [of "-32"] by linarith
    then have pos: "0 < 1 - q" and top: "1 - q \<le> pow2 0" using q(3) False by simp_all
    have g: "1 - q \<le> of_int (2 ^ 32 - 1) * pow2 (-32)" using q(2) by (simp add: pow2_def)
    have s: "s \<le> of_int (2 ^ 32 - 1) * pow2 (-32)"
      unfolding s_def by (rule round_mag_grid(2) [OF pos top _ _ g]) simp_all
    have r: "round_f64 (1 - q) = F_Fin s" using round_f64_small [OF pos top] by (simp add: s_def)
    have "0 \<le> s" using round_f64_ge_0 [of "1 - q"] pos r by simp
    then show ?thesis using percent_below s by (simp only: mp r)
  qed
qed

section \<open>A strict comparison\<close>

definition pixel_at :: "decoded_image \<Rightarrow> nat \<Rightarrow> 8 word list" where
  "pixel_at d i = map (\<lambda>c. di_rgba d ! (i * 4 + c)) [0, 1, 2, 3]"

lemma abs_diff_zero: "abs_diff a b = 0 \<longleftrightarrow> a = b"
  by (auto simp: abs_diff_def)

lemma pixel_differs_strict: "pixel_differs current baseline 0 i \<longleftrightarrow> pixel_at current i \<noteq> pixel_at baseline i"
  using abs_diff_zero by (auto simp: pixel_differs_def pixel_at_def word_neq_0_conv [symmetric] Let_def)

lemma pixel_differs_self: "\<not> pixel_differs current current tolerance i"
  by (simp add: pixel_differs_def abs_diff_def Let_def)

text \<open>The percentage of a comparison reaches 100 exactly when no pixel differs.\<close>

lemma percentage_full:
  assumes "d + m \<le> n" "n \<le> 2 ^ 32"
  shows "f64_le (F_Fin 100) (match_percentage d (n - m)) \<longleftrightarrow> d = 0"
proof (cases "d = 0")
  case True
  then show ?thesis using match_percentage_zero [of "n - m"] assms
    by (cases "n - m = 0") (auto simp: match_percentage_def f64_le_def)
next
  case False
  have "d \<le> n - m" "n - m \<le> 2 ^ 32" using assms by linarith+
  then obtain r where "match_percentage d (n - m) = F_Fin r" "r < 100"
    using match_percentage_less [of d "n - m"] False by blast
  with False show ?thesis by (simp add: f64_le_def)
qed

lemma length_filter_disjoint:
  "length (filter (\<lambda>i. \<not> P i \<and> Q i) xs) + length (filter P xs) \<le> length xs"
  by (induction xs) auto

lemma f64_sub_zero_hundred: "f64_sub (F_Fin 100) (F_Fin 0) = F_Fin 100"
  by (simp add: f64_sub_def round_f64_hundred)

lemma filter_none: "filter P [0..<n] = [] \<longleftrightarrow> (\<forall>i < n. \<not> P i)"
  by (auto simp: filter_empty_conv)

lemma compare_images_strict:
  assumes "full_image current" "full_image baseline"
  shows "\<not> isl (fst (compare_images lib name current baseline (with_preset opts Strict) d)) \<longleftrightarrow>
    di_width current = di_width baseline \<and> di_height current = di_height baseline \<and>
    (\<forall>i < di_width current * di_height current.
       pixel_masked current (vo_mask_regions opts) i \<or> pixel_at current i = pixel_at baseline i)"
proof (cases "di_width current = di_width baseline \<and> di_height current = di_height baseline")
  case True
  let ?n = "di_width current * di_height current"
  let ?m = "pixel_masked current (vo_mask_regions opts)"
  let ?diff = "filter (\<lambda>i. \<not> ?m i \<and> pixel_differs current baseline 0 i) [0..<?n]"
  have c: "compute_diff current baseline 0 (vo_mask_regions opts) = (?diff, length (filter ?m [0..<?n]))"
    using compute_diff_exact [OF assms] True by blast
  have n: "pixel_count current = ?n" "?n \<le> 2 ^ 32" using assms(1) by (simp_all add: pixel_count_def full_image_def)
  have full: "f64_le (F_Fin 100) (match_percentage (length ?diff) (?n - length (filter ?m [0..<?n]))) \<longleftrightarrow> ?diff = []"
    using percentage_full [OF _ n(2), of "length ?diff" "length (filter ?m [0..<?n])"]
      length_filter_disjoint [of ?m "pixel_differs current baseline 0" "[0..<?n]"] by (simp del: filter_empty_conv)
  have e: "?diff = [] \<longleftrightarrow> (\<forall>i < ?n. ?m i \<or> pixel_at current i = pixel_at baseline i)"
    unfolding filter_none pixel_differs_strict by blast
  show ?thesis
  proof (cases "?diff = []")
    case empty: True
    then show ?thesis using True full e
      by (simp add: compare_images_def with_preset_def c n Let_def is_match_def f64_sub_zero_hundred del: filter_empty_conv)
  next
    case False
    then show ?thesis using True full e
      by (simp add: compare_images_def with_preset_def c n Let_def is_match_def f64_sub_zero_hundred
          split: prod.split del: filter_empty_conv)
  qed
qed (auto simp: compare_images_def)

lemma compare_images_keeps:
  "sd_files (snd (compare_images lib name current baseline opts d)) (name @ ''.png'') = sd_files d (name @ ''.png'')"
proof -
  have "name @ ''.diff.png'' \<noteq> name @ ''.png''" by simp
  then show ?thesis
    by (auto simp: compare_images_def write_diff_image_def Let_def split: prod.splits)
qed

text \<open>(C33) C? (exactness of a strict check): with the preset Strict, a screenshot passes against an existing
baseline exactly when both images have the same size and every pixel outside the masks has the same
four bytes, whatever the rounding of the percentage; and the check never changes the baseline.\<close>

theorem strict_is_pixel_perfect:
  assumes "check_baseline_name name" "vl_base64 lib screenshot = Some bytes" "sd_created d"
    and "sd_readable d (name @ ''.png'')" "sd_files d (name @ ''.png'') = Some old" "\<not> vo_update_baselines opts"
    and "decode_png lib bytes = Some current" "decode_png lib old = Some baseline"
    and "full_image current" "full_image baseline"
  shows "let (verdict, d') = compare_in lib name screenshot (with_preset opts Strict) ci d
    in (\<not> isl verdict \<longleftrightarrow>
          di_width current = di_width baseline \<and> di_height current = di_height baseline \<and>
          (\<forall>i < di_width current * di_height current.
             pixel_masked current (vo_mask_regions opts) i \<or> pixel_at current i = pixel_at baseline i)) \<and>
       sd_files d' (name @ ''.png'') = Some old"
proof -
  have "compare_in lib name screenshot (with_preset opts Strict) ci d =
      compare_images lib name current baseline (with_preset opts Strict) d"
    using assms(1-8) by (simp add: compare_in_def with_preset_def Let_def)
  then show ?thesis
    by (simp only: case_prod_unfold Let_def compare_images_strict [OF assms(9,10)] compare_images_keeps assms(5) simp_thms)
qed

definition sample_visual_lib :: visual_lib where
  "sample_visual_lib = \<lparr>vl_base64 = (\<lambda>s. if s = ''CgsM'' then Some [10, 11, 12] else None),
     vl_read_png = (\<lambda>b. Some \<lparr>pf_color = Grayscale, pf_width = length b, pf_height = 1, pf_buffer = b\<rparr>),
     vl_write_png = (\<lambda>w h rgba. (rgba, True))\<rparr>"

definition sample_dir :: snapshot_dir where
  "sample_dir = \<lparr>sd_created = True, sd_readable = (\<lambda>_. True), sd_writable = (\<lambda>_. True),
     sd_files = [''home.png'' \<mapsto> [10, 99, 12]]\<rparr>"

lemma below_three: "(\<forall>i < 3 * 1. P i) \<longleftrightarrow> P 0 \<and> P 1 \<and> P (2 :: nat)"
  by (auto simp: numeral_3_eq_3 less_Suc_eq numeral_2_eq_2)

theorem strict_is_pixel_perfect_witness:
  "isl (fst (compare_in sample_visual_lib ''home'' ''CgsM'' (with_preset visual_options_default Strict) True sample_dir)) \<and>
   \<not> isl (fst (compare_in sample_visual_lib ''home'' ''CgsM''
     (with_preset (with_mask visual_options_default \<lparr>mr_x = 1, mr_y = 0, mr_width = 1, mr_height = 1\<rparr>) Strict)
     True sample_dir))"
proof -
  let ?mask = "\<lparr>mr_x = 1, mr_y = 0, mr_width = 1, mr_height = 1\<rparr>"
  let ?a = "\<lparr>di_width = 3, di_height = 1, di_rgba = [10, 10, 10, 255, 11, 11, 11, 255, 12, 12, 12, 255]\<rparr>"
  let ?b = "\<lparr>di_width = 3, di_height = 1, di_rgba = [10, 10, 10, 255, 99, 99, 99, 255, 12, 12, 12, 255]\<rparr>"
  have d: "decode_png sample_visual_lib [10, 11, 12] = Some ?a" "decode_png sample_visual_lib [10, 99, 12] = Some ?b"
    by (simp_all add: decode_png_def sample_visual_lib_def decode_frame_def gray_to_rgba_def)
  have files: "sd_files sample_dir (''home'' @ ''.png'') = Some [10, 99, 12]" "sd_created sample_dir"
    "sd_readable sample_dir (''home'' @ ''.png'')" "vl_base64 sample_visual_lib ''CgsM'' = Some [10, 11, 12]"
    by (simp_all add: sample_dir_def sample_visual_lib_def)
  have ok: "check_baseline_name ''home''" "full_image ?a" "full_image ?b"
    by (simp_all add: check_baseline_name_def full_image_def)
  have opts: "\<not> vo_update_baselines visual_options_default" "\<not> vo_update_baselines (with_mask visual_options_default ?mask)"
    "vo_mask_regions visual_options_default = []" "vo_mask_regions (with_mask visual_options_default ?mask) = [?mask]"
    by (simp_all add: visual_options_default_def with_mask_def)
  have px: "\<not> (\<forall>i < 3 * 1. pixel_masked ?a [] i \<or> pixel_at ?a i = pixel_at ?b i)"
    "\<forall>i < 3 * 1. pixel_masked ?a [?mask] i \<or> pixel_at ?a i = pixel_at ?b i"
    unfolding below_three by (simp_all add: pixel_masked_def pixel_at_def mask_contains_def u32_saturating_add_def)
  note plain = strict_is_pixel_perfect [OF ok(1) files(4,2,3,1) opts(1) d ok(2,3), of True]
  note masked = strict_is_pixel_perfect [OF ok(1) files(4,2,3,1) opts(2) d ok(2,3), of True]
  show ?thesis
    using plain [unfolded case_prod_unfold Let_def opts decoded_image.select_convs] px(1)
      masked [unfolded case_prod_unfold Let_def opts decoded_image.select_convs] px(2) by blast
qed

lemma hundred_minus: "0 \<le> t \<Longrightarrow> t < 100 \<Longrightarrow> f64_le (f64_sub (F_Fin 100) (F_Fin t)) (F_Fin 100)"
proof -
  assume t: "0 \<le> t" "t < 100"
  then have a: "0 < 100 - t" "100 - t \<le> pow2 7" "100 - t \<le> of_int 100 * pow2 0" by (simp_all add: pow2_def)
  have "round_mag (100 - t) \<le> of_int 100 * pow2 0" by (rule round_mag_grid(2) [OF a(1,2) _ _ a(3)]) simp_all
  then show ?thesis using round_f64_small [OF a(1,2)] t
    by (auto simp: f64_sub_def f64_le_def round_f64_hundred)
qed

lemma preset_threshold: "f64_le (f64_sub (F_Fin 100) (threshold_percent p)) (F_Fin 100)"
proof (cases p)
  case Standard
  have a: "0 < (1 / 10 :: rat)" "(1 / 10 :: rat) \<le> pow2 0" by simp_all
  have "0 \<le> round_mag (1 / 10)" using round_f64_ge_0 [of "1 / 10"] round_f64_small [OF a] by simp
  moreover have "round_mag (1 / 10) < 100" using round_mag_le [OF a] by simp
  ultimately show ?thesis using hundred_minus [of "round_mag (1 / 10)"] round_f64_small [OF a] by (simp add: Standard)
qed (simp_all add: hundred_minus)

lemma compare_images_result:
  "fst (compare_images lib name current baseline opts d) = Inr r \<Longrightarrow> \<not> vd_baseline_created r"
  by (auto simp: compare_images_def Let_def case_prod_unfold split: if_splits)

lemma compare_in_stores:
  assumes "fst (compare_in lib name screenshot opts ci d) = Inr r" "vd_baseline_created r"
    and "vl_base64 lib screenshot = Some bytes"
  shows "check_baseline_name name \<and> sd_created d \<and>
    snd (compare_in lib name screenshot opts ci d) = d\<lparr>sd_files := (sd_files d)(name @ ''.png'' \<mapsto> bytes)\<rparr>"
proof -
  let ?path = "name @ ''.png''"
  have pre: "check_baseline_name name" "sd_created d"
    using assms(1) by (auto simp: compare_in_def split: if_splits option.splits)
  have new: "vo_update_baselines opts \<or> sd_files d ?path = None"
  proof (rule ccontr)
    assume "\<not> (vo_update_baselines opts \<or> sd_files d ?path = None)"
    then show False using assms pre
      by (auto simp: compare_in_def Let_def dest: compare_images_result split: if_splits option.splits)
  qed
  have "decode_png lib bytes \<noteq> None" "sd_writable d ?path"
    using assms(1,3) pre new by (auto simp: compare_in_def Let_def split: if_splits option.splits)
  then show ?thesis using assms(3) pre new by (auto simp: compare_in_def Let_def)
qed

text \<open>A check of the screenshot a run has just stored passes with every preset.\<close>

theorem created_baseline_passes:
  assumes "vl_base64 lib screenshot = Some bytes" "decode_png lib bytes = Some image_now" "full_image image_now"
    and "fst (compare_in lib name screenshot opts ci d) = Inr r" "vd_baseline_created r"
    and "sd_readable d (name @ ''.png'')"
  shows "\<exists>r'. fst (compare_in lib name screenshot (with_preset opts p\<lparr>vo_update_baselines := False\<rparr>) ci'
    (snd (compare_in lib name screenshot opts ci d))) = Inr r' \<and> vd_diff_pixel_count r' = 0"
proof -
  let ?n = "di_width image_now * di_height image_now"
  note stored = compare_in_stores [OF assms(4,5,1)]
  have c: "compute_diff image_now image_now tol masks = ([], length (filter (pixel_masked image_now masks) [0..<?n]))" for tol masks
    using compute_diff_exact [OF assms(3,3)] by (simp add: pixel_differs_self)
  have "pixel_count image_now \<le> 2 ^ 32" by (simp add: pixel_count_def less_imp_le)
  then have m: "match_percentage 0 (pixel_count image_now - k) = F_Fin 100" for k
    using match_percentage_zero [of "pixel_count image_now - k"]
    by (cases "pixel_count image_now - k = 0") (auto simp: match_percentage_def)
  show ?thesis
    unfolding stored [THEN conjunct2, THEN conjunct2]
    using stored [THEN conjunct1] stored [THEN conjunct2, THEN conjunct1] assms(1,2,6) m preset_threshold [of p]
    by (simp add: compare_in_def compare_images_def with_preset_def c Let_def is_match_def)
qed

end
