(* ===== verification/Filmstrip.thy ===== *)
theory Filmstrip
  imports Victauri_Prelude "HOL-Library.Word"
begin

text \<open>
  The contact sheet of captured animation frames (\<^verbatim>\<open>victauri-plugin/src/filmstrip.rs\<close>): the size of
  a sheet in checked 64-bit arithmetic, and its composition byte by byte.  Pixels are four bytes of
  \<^verbatim>\<open>8 word\<close>, lengths and coordinates natural numbers.  The reference is the sheet as a function of
  the coordinates of a pixel.
\<close>

section \<open>Sizes\<close>

definition checked_add :: "nat \<Rightarrow> nat \<Rightarrow> nat option" where
  "checked_add a b = (if a + b < 2 ^ 64 then Some (a + b) else None)"

definition checked_mul :: "nat \<Rightarrow> nat \<Rightarrow> nat option" where
  "checked_mul a b = (if a * b < 2 ^ 64 then Some (a * b) else None)"

definition u32_try_from :: "nat \<Rightarrow> nat option" where
  "u32_try_from n = (if n < 2 ^ 32 then Some n else None)"

definition div_ceil :: "nat \<Rightarrow> nat \<Rightarrow> nat" where
  "div_ceil a b = (if a mod b = 0 then a div b else a div b + 1)"

type_synonym pixels = "8 word list"

record frame =
  fr_rgba :: pixels
  fr_w :: nat
  fr_h :: nat

definition frame_new :: "pixels \<Rightarrow> nat \<Rightarrow> nat \<Rightarrow> frame option" where
  "frame_new rgba w h =
     Option.bind (checked_mul w h) (\<lambda>area. Option.bind (checked_mul area 4) (\<lambda>expected.
       if length rgba = expected \<and> w > 0 \<and> h > 0 then Some \<lparr>fr_rgba = rgba, fr_w = w, fr_h = h\<rparr> else None))"

definition MAX_SHEET_BYTES :: nat where
  "MAX_SHEET_BYTES = 512 * 1024 * 1024"

definition clamp_cols :: "nat \<Rightarrow> nat \<Rightarrow> nat" where
  "clamp_cols cols n = min (max cols 1) n"

text \<open>One side of the sheet: \<open>k\<close> cells of \<open>cell\<close> pixels with a gap around each.\<close>

definition side :: "nat \<Rightarrow> nat \<Rightarrow> nat \<Rightarrow> nat option" where
  "side k cell gap =
     Option.bind (checked_mul k cell) (\<lambda>cells.
     Option.bind (checked_add k 1) (\<lambda>k1. Option.bind (checked_mul k1 gap) (\<lambda>gaps. checked_add cells gaps)))"

definition sheet_size :: "nat \<Rightarrow> nat \<Rightarrow> nat \<Rightarrow> nat \<Rightarrow> nat \<Rightarrow> (nat \<times> nat \<times> nat) option" where
  "sheet_size cell_w cell_h n cols gap =
     (if n = 0 then None
      else
        let cols = clamp_cols cols n; rows = div_ceil n cols in
        Option.bind (side cols cell_w gap) (\<lambda>out_w.
        Option.bind (side rows cell_h gap) (\<lambda>out_h.
        Option.bind (Option.bind (checked_mul out_w out_h) (\<lambda>area. checked_mul area 4)) (\<lambda>total_bytes.
        Option.bind (u32_try_from out_w) (\<lambda>w.
        Option.bind (u32_try_from out_h) (\<lambda>h. Some (w, h, total_bytes)))))))"

definition check_sheet :: "nat \<Rightarrow> nat \<Rightarrow> nat \<Rightarrow> nat \<Rightarrow> nat \<Rightarrow> string + nat \<times> nat \<times> nat" where
  "check_sheet cell_w cell_h n cols gap =
     (let what = ''a filmstrip of '' @ decimal n @ '' frames of '' @ decimal cell_w @ ''x'' @ decimal cell_h in
      case sheet_size cell_w cell_h n cols gap of
        Some (w, h, total_bytes) \<Rightarrow>
          if total_bytes \<le> MAX_SHEET_BYTES then Inr (w, h, total_bytes)
          else Inl (what @ '' would be a '' @ decimal w @ ''x'' @ decimal h @ '' sheet              ('' @
            decimal (total_bytes div (1024 * 1024)) @ '' MiB), over the '' @
            decimal (MAX_SHEET_BYTES div (1024 * 1024)) @ '' MiB limit'')
      | None \<Rightarrow> Inl (what @ '' is too large to build''))"

section \<open>Composition\<close>

definition max_of :: "nat list \<Rightarrow> nat option" where
  "max_of xs = (case xs of [] \<Rightarrow> None | x # ys \<Rightarrow> Some (fold max ys x))"

text \<open>\<^verbatim>\<open>out[dst..dst + len].copy_from_slice(&src[start..start + len])\<close>, when both ranges exist.\<close>

definition copy_row :: "pixels \<Rightarrow> nat \<Rightarrow> nat \<Rightarrow> nat \<Rightarrow> pixels \<Rightarrow> pixels" where
  "copy_row src start len dst out =
     (if dst + len \<le> length out \<and> start + len \<le> length src
      then take dst out @ take len (drop start src) @ drop (dst + len) out else out)"

definition place_frame :: "frame \<Rightarrow> nat \<Rightarrow> nat \<Rightarrow> nat \<Rightarrow> pixels \<Rightarrow> pixels" where
  "place_frame frame x0 y0 out_row_bytes out =
     (let frame_row_bytes = fr_w frame * 4 in
      fold (\<lambda>y. copy_row (fr_rgba frame) (y * frame_row_bytes) frame_row_bytes ((y0 + y) * out_row_bytes + x0 * 4))
        [0..<fr_h frame] out)"

definition compose :: "frame list \<Rightarrow> nat \<Rightarrow> nat \<Rightarrow> pixels \<Rightarrow> string + pixels \<times> nat \<times> nat" where
  "compose frames cols gap bg =
     (let n = length frames in
      case (max_of (map fr_w frames), max_of (map fr_h frames)) of
        (Some cell_w, Some cell_h) \<Rightarrow>
          (case check_sheet cell_w cell_h n cols gap of
             Inl e \<Rightarrow> Inl e
           | Inr (sheet_w, sheet_h, total_bytes) \<Rightarrow>
               let cols = clamp_cols cols n; out_row_bytes = sheet_w * 4 in
               Inr (fold (\<lambda>(i, frame). place_frame frame (gap + i mod cols * (cell_w + gap))
                       (gap + i div cols * (cell_h + gap)) out_row_bytes)
                     (enumerate 0 frames) (concat (replicate (total_bytes div 4) bg)),
                   sheet_w, sheet_h))
      | _ \<Rightarrow> Inl ''no frames to compose'')"

section \<open>The reference: a sheet as a function of coordinates\<close>

definition frame_ok :: "frame \<Rightarrow> bool" where
  "frame_ok f \<longleftrightarrow> length (fr_rgba f) = fr_w f * fr_h f * 4 \<and> 0 < fr_w f \<and> 0 < fr_h f"

text \<open>Byte \<open>c\<close> of the pixel in column \<open>x\<close> of row \<open>y\<close>.\<close>

definition pixel_byte :: "pixels \<Rightarrow> nat \<Rightarrow> nat \<Rightarrow> nat \<Rightarrow> nat \<Rightarrow> 8 word" where
  "pixel_byte rgba w x y c = rgba ! ((y * w + x) * 4 + c)"

definition sheet_byte ::
  "frame list \<Rightarrow> nat \<Rightarrow> nat \<Rightarrow> nat \<Rightarrow> nat \<Rightarrow> pixels \<Rightarrow> nat \<Rightarrow> nat \<Rightarrow> nat \<Rightarrow> 8 word" where
  "sheet_byte frames cols cell_w cell_h gap bg x y c =
     (let col = (x - gap) div (cell_w + gap); dx = (x - gap) mod (cell_w + gap);
          row = (y - gap) div (cell_h + gap); dy = (y - gap) mod (cell_h + gap);
          i = row * cols + col
      in if gap \<le> x \<and> gap \<le> y \<and> i < length frames \<and> dx < fr_w (frames ! i) \<and> dy < fr_h (frames ! i)
         then pixel_byte (fr_rgba (frames ! i)) (fr_w (frames ! i)) dx dy c
         else bg ! c)"

lemma frame_new_ok: "frame_new rgba w h = Some f \<Longrightarrow> frame_ok f"
  by (auto simp: frame_new_def frame_ok_def checked_mul_def split: if_splits option.splits bind_splits)

lemma div_ceil_le:
  assumes "0 < b"
  shows "a \<le> div_ceil a b * b"
proof (cases "a mod b = 0")
  case True
  then show ?thesis by (auto simp: div_ceil_def)
next
  case False
  have "a = a div b * b + a mod b" "a mod b < b" using assms by (simp_all add: div_mult_mod_eq)
  then have "a \<le> a div b * b + b" by linarith
  then show ?thesis using False by (simp add: div_ceil_def)
qed

lemma max_of_bounds: "max_of xs = Some m \<Longrightarrow> x \<in> set xs \<Longrightarrow> x \<le> m"
  by (cases xs) (auto simp: max_of_def simp flip: Max.set_eq_fold)

section \<open>One frame\<close>

lemma length_copy_row [simp]: "length (copy_row src start len dst out) = length out"
  by (auto simp: copy_row_def)

lemma nth_copy_row:
  "dst + len \<le> length out \<Longrightarrow> start + len \<le> length src \<Longrightarrow> k < length out \<Longrightarrow>
   copy_row src start len dst out ! k =
     (if dst \<le> k \<and> k < dst + len then src ! (start + (k - dst)) else out ! k)"
  by (auto simp: copy_row_def nth_append)


text \<open>A run of bytes within a row of the sheet.\<close>

lemma row_range:
  assumes "b < row_bytes" "x + len \<le> (row_bytes :: nat)"
  shows "r * row_bytes + x \<le> y * row_bytes + b \<and> y * row_bytes + b < r * row_bytes + x + len \<longleftrightarrow>
    y = r \<and> x \<le> b \<and> b < x + len"
proof -
  consider "y = r" | "y < r" | "r < y" by linarith
  then show ?thesis
  proof cases
    case 2
    then have "(y + 1) * row_bytes \<le> r * row_bytes" by (intro mult_le_mono1) simp
    then show ?thesis using assms 2 by auto
  next
    case 3
    then have "(r + 1) * row_bytes \<le> y * row_bytes" by (intro mult_le_mono1) simp
    then show ?thesis using assms 3 by auto
  qed auto
qed

lemma length_place_frame [simp]: "length (place_frame f x0 y0 row_bytes out) = length out"
proof -
  have "length (fold (\<lambda>y. copy_row src (g y) len (d y)) ys out) = length out" for src g len d ys
    by (induction ys arbitrary: out) simp_all
  then show ?thesis by (simp add: place_frame_def Let_def)
qed

lemma nth_place_rows:
  assumes "x + len \<le> row_bytes" "(y0 + m) * row_bytes \<le> length out" "m * len \<le> length src"
    and "b < row_bytes" "y * row_bytes + b < length out"
  shows "fold (\<lambda>y. copy_row src (y * len) len ((y0 + y) * row_bytes + x)) [0..<m] out ! (y * row_bytes + b) =
    (if y0 \<le> y \<and> y < y0 + m \<and> x \<le> b \<and> b < x + len then src ! ((y - y0) * len + (b - x))
     else out ! (y * row_bytes + b))"
  using assms(2,3)
proof (induction m)
  case (Suc m)
  let ?out = "fold (\<lambda>y. copy_row src (y * len) len ((y0 + y) * row_bytes + x)) [0..<m] out"
  have len: "length (fold (\<lambda>y. copy_row src (y * len) len ((y0 + y) * row_bytes + x)) ys out) = length out" for ys
    by (induction ys arbitrary: out) simp_all
  have fits: "(y0 + m) * row_bytes + x + len \<le> length ?out" using Suc.prems(1) assms(1) len [of "[0..<m]"] by simp
  have "m * len + len \<le> length src" using Suc.prems(2) by simp
  from nth_copy_row [OF fits this, of "y * row_bytes + b"]
  show ?case
    using Suc.IH Suc.prems row_range [OF assms(4,1), of "y0 + m" y] assms(5) len [of "[0..<m]"]
    by (auto simp: add.assoc)
qed auto

lemma nth_place_frame:
  assumes "frame_ok f" "x0 + fr_w f \<le> w" "(y0 + fr_h f) * (w * 4) \<le> length out"
    and "x < w" "(y * w + x) * 4 + c < length out" "c < 4"
  shows "place_frame f x0 y0 (w * 4) out ! ((y * w + x) * 4 + c) =
    (if y0 \<le> y \<and> y < y0 + fr_h f \<and> x0 \<le> x \<and> x < x0 + fr_w f
     then pixel_byte (fr_rgba f) (fr_w f) (x - x0) (y - y0) c else out ! ((y * w + x) * 4 + c))"
proof -
  have idx: "(y * w + x) * 4 + c = y * (w * 4) + (x * 4 + c)" by (simp add: algebra_simps)
  have "x0 * 4 \<le> x * 4 + c \<and> x * 4 + c < x0 * 4 + fr_w f * 4 \<longleftrightarrow> x0 \<le> x \<and> x < x0 + fr_w f"
    using assms(6) by linarith
  moreover have "fr_rgba f ! ((y - y0) * (fr_w f * 4) + (x * 4 + c - x0 * 4)) =
      pixel_byte (fr_rgba f) (fr_w f) (x - x0) (y - y0) c" if "x0 \<le> x"
  proof -
    have "(y - y0) * (fr_w f * 4) + (x * 4 + c - x0 * 4) = ((y - y0) * fr_w f + (x - x0)) * 4 + c"
      using that by (simp add: algebra_simps)
    then show ?thesis unfolding pixel_byte_def by (rule arg_cong)
  qed
  moreover have "place_frame f x0 y0 (w * 4) out ! (y * (w * 4) + (x * 4 + c)) =
      (if y0 \<le> y \<and> y < y0 + fr_h f \<and> x0 * 4 \<le> x * 4 + c \<and> x * 4 + c < x0 * 4 + fr_w f * 4
       then fr_rgba f ! ((y - y0) * (fr_w f * 4) + (x * 4 + c - x0 * 4)) else out ! (y * (w * 4) + (x * 4 + c)))"
    unfolding place_frame_def Let_def
    using assms(1,2,4,6) assms(3) assms(5) [unfolded idx]
    by (intro nth_place_rows) (simp_all add: frame_ok_def mult.commute)
  ultimately show ?thesis unfolding idx by presburger
qed

section \<open>All frames\<close>

text \<open>The cell a coordinate lies in.\<close>

lemma cell_hit:
  assumes "0 < f" "f \<le> (cell :: nat)"
  shows "gap + k * (cell + gap) \<le> x \<and> x < gap + k * (cell + gap) + f \<longleftrightarrow>
    gap \<le> x \<and> (x - gap) div (cell + gap) = k \<and> (x - gap) mod (cell + gap) < f"
proof (cases "gap \<le> x")
  case True
  define p where "p = cell + gap"
  have p: "f \<le> p" "0 < p" using assms by (simp_all add: p_def)
  have "k * p \<le> x - gap \<and> x - gap < k * p + f \<longleftrightarrow> (x - gap) div p = k \<and> (x - gap) mod p < f"
  proof
    assume r: "k * p \<le> x - gap \<and> x - gap < k * p + f"
    then have "(x - gap) div p = k" using p by (intro div_nat_eqI) (auto simp: mult.commute)
    then show "(x - gap) div p = k \<and> (x - gap) mod p < f"
      using r div_mult_mod_eq [of "x - gap" p] by auto
  next
    assume "(x - gap) div p = k \<and> (x - gap) mod p < f"
    then show "k * p \<le> x - gap \<and> x - gap < k * p + f" using div_mult_mod_eq [of "x - gap" p] by auto
  qed
  then show ?thesis using True unfolding p_def by linarith
qed auto

lemma cell_offset:
  "gap \<le> x \<Longrightarrow> (x - gap) div (cell + gap) = k \<Longrightarrow> x - (gap + k * (cell + gap)) = (x - gap) mod (cell + (gap :: nat))"
  using div_mult_mod_eq [of "x - gap" "cell + gap"] by auto

lemma nth_place_all:
  assumes "\<forall>f \<in> set fs. frame_ok f \<and> fr_w f \<le> cell_w \<and> fr_h f \<le> cell_h" "0 < cols"
    and "w = cols * cell_w + (cols + 1) * gap" "length out = w * h * 4"
    and "\<forall>i < length fs. gap + i div cols * (cell_h + gap) + cell_h \<le> h"
    and "x < w" "y < h" "c < 4" "length bg = 4" "out ! ((y * w + x) * 4 + c) = bg ! c"
  shows "fold (\<lambda>(i, frame). place_frame frame (gap + i mod cols * (cell_w + gap))
      (gap + i div cols * (cell_h + gap)) (w * 4)) (enumerate 0 fs) out ! ((y * w + x) * 4 + c) =
    sheet_byte fs cols cell_w cell_h gap bg x y c"
  using assms(1,5)
proof (induction fs rule: rev_induct)
  case Nil
  then show ?case using assms(10) by (simp add: sheet_byte_def Let_def)
next
  case (snoc f fs)
  let ?place = "\<lambda>(i, frame). place_frame frame (gap + i mod cols * (cell_w + gap)) (gap + i div cols * (cell_h + gap)) (w * 4)"
  let ?m = "length fs" and ?out = "fold ?place (enumerate 0 fs) out"
  let ?x0 = "gap + ?m mod cols * (cell_w + gap)" and ?y0 = "gap + ?m div cols * (cell_h + gap)"
  let ?col = "(x - gap) div (cell_w + gap)" and ?row = "(y - gap) div (cell_h + gap)"
  have f: "frame_ok f" "fr_w f \<le> cell_w" "fr_h f \<le> cell_h" "0 < fr_w f" "0 < fr_h f"
    using snoc.prems(1) by (auto simp: frame_ok_def)
  have len: "length (fold ?place es out) = length out" for es
    by (induction es arbitrary: out) (simp_all add: split_beta)
  have IH: "?out ! ((y * w + x) * 4 + c) = sheet_byte fs cols cell_w cell_h gap bg x y c"
    using snoc.prems by (intro snoc.IH) auto
  have "?m mod cols + 1 \<le> cols" using assms(2) by (simp add: Suc_leI)
  then have "(?m mod cols + 1) * (cell_w + gap) \<le> cols * (cell_w + gap)" by (rule mult_le_mono1)
  then have x0: "?x0 + fr_w f \<le> w" using f(2) by (simp add: assms(3) algebra_simps)
  have "?y0 + fr_h f \<le> h" using snoc.prems(2) f(3) by (fastforce dest: spec [of _ ?m])
  then have y0: "(?y0 + fr_h f) * (w * 4) \<le> length ?out"
    using mult_le_mono1 [of "?y0 + fr_h f" h "w * 4"] by (simp only: len assms(4)) (simp add: ac_simps)
  have "(y + 1) * w \<le> h * w" using assms(7) by (intro mult_le_mono1) simp
  then have "y * w + x < h * w" using assms(6) by simp
  then have k: "(y * w + x) * 4 + c < length ?out" using assms(8) by (simp only: len assms(4)) (simp add: ac_simps)
  have col: "?col < cols"
  proof (cases "gap \<le> x")
    case True
    then have "x - gap < cols * (cell_w + gap)" using assms(6) by (simp add: assms(3) algebra_simps)
    then show ?thesis by (rule less_mult_imp_div_less)
  qed (use assms(2) in simp)
  have i: "?col = ?m mod cols \<and> ?row = ?m div cols \<longleftrightarrow> ?row * cols + ?col = ?m"
  proof
    assume "?col = ?m mod cols \<and> ?row = ?m div cols"
    then show "?row * cols + ?col = ?m" using div_mult_mod_eq [of ?m cols] by simp
  next
    assume "?row * cols + ?col = ?m"
    then show "?col = ?m mod cols \<and> ?row = ?m div cols" using col by (metis add.right_neutral div_less div_mult_self3 less_nat_zero_code mod_less mod_mult_self3)
  qed
  have hit: "?y0 \<le> y \<and> y < ?y0 + fr_h f \<and> ?x0 \<le> x \<and> x < ?x0 + fr_w f \<longleftrightarrow>
      gap \<le> x \<and> gap \<le> y \<and> ?row * cols + ?col = ?m \<and>
      (x - gap) mod (cell_w + gap) < fr_w f \<and> (y - gap) mod (cell_h + gap) < fr_h f"
    using cell_hit [OF f(4,2), of gap "?m mod cols" x] cell_hit [OF f(5,3), of gap "?m div cols" y] i by blast
  have offsets: "x - ?x0 = (x - gap) mod (cell_w + gap)" "y - ?y0 = (y - gap) mod (cell_h + gap)"
    if "gap \<le> x" "gap \<le> y" "?row * cols + ?col = ?m"
    using that i cell_offset [of gap x cell_w "?m mod cols"] cell_offset [of gap y cell_h "?m div cols"] by blast+
  have all: "fold ?place (enumerate 0 (fs @ [f])) out = place_frame f ?x0 ?y0 (w * 4) ?out"
    by (simp add: enumerate_append_eq)
  have result: "fold ?place (enumerate 0 (fs @ [f])) out ! ((y * w + x) * 4 + c) =
    (if gap \<le> x \<and> gap \<le> y \<and> ?row * cols + ?col = ?m \<and>
        (x - gap) mod (cell_w + gap) < fr_w f \<and> (y - gap) mod (cell_h + gap) < fr_h f
     then pixel_byte (fr_rgba f) (fr_w f) ((x - gap) mod (cell_w + gap)) ((y - gap) mod (cell_h + gap)) c
     else sheet_byte fs cols cell_w cell_h gap bg x y c)"
    unfolding all nth_place_frame [OF f(1) x0 y0 assms(6) k assms(8)] IH hit
    by (rule if_cong [OF refl _ refl]) (simp only: offsets)
  consider "?row * cols + ?col < ?m" | "?row * cols + ?col = ?m" | "?m < ?row * cols + ?col" by linarith
  then show ?case
    by cases (simp_all only: result sheet_byte_def Let_def, auto simp: nth_append)
qed


section \<open>The sheet\<close>

lemma checked_side:
  "side k cell gap = Some n \<Longrightarrow> n = k * cell + (k + 1) * gap"
  by (auto simp: side_def checked_mul_def checked_add_def split: if_splits bind_splits)

lemma sheet_size_Some:
  assumes "sheet_size cell_w cell_h n cols gap = Some (w, h, total_bytes)"
  shows "0 < n" "total_bytes = w * h * 4"
    "w = clamp_cols cols n * cell_w + (clamp_cols cols n + 1) * gap"
    "h = div_ceil n (clamp_cols cols n) * cell_h + (div_ceil n (clamp_cols cols n) + 1) * gap"
proof -
  show "0 < n" using assms by (auto simp: sheet_size_def split: if_splits)
  then obtain out_w out_h where o: "side (clamp_cols cols n) cell_w gap = Some out_w"
      "side (div_ceil n (clamp_cols cols n)) cell_h gap = Some out_h"
      "w = out_w" "h = out_h" "total_bytes = out_w * out_h * 4"
    using assms
    by (auto simp: sheet_size_def Let_def checked_mul_def u32_try_from_def split: if_splits bind_splits)
  then show "total_bytes = w * h * 4"
    "w = clamp_cols cols n * cell_w + (clamp_cols cols n + 1) * gap"
    "h = div_ceil n (clamp_cols cols n) * cell_h + (div_ceil n (clamp_cols cols n) + 1) * gap"
    using checked_side by blast+
qed

lemma clamp_cols_pos: "0 < n \<Longrightarrow> 0 < clamp_cols cols n"
  by (simp add: clamp_cols_def)

text \<open>Every cell lies in the sheet.\<close>

lemma cells_fit:
  assumes "0 < cols" "i < n" "h = div_ceil n cols * cell_h + (div_ceil n cols + 1) * gap"
  shows "gap + i div cols * (cell_h + gap) + cell_h \<le> h"
proof -
  have "i < div_ceil n cols * cols" using div_ceil_le [OF assms(1), of n] assms(2) by simp
  then have "i div cols + 1 \<le> div_ceil n cols" by (simp add: less_mult_imp_div_less Suc_leI)
  then have "(i div cols + 1) * (cell_h + gap) \<le> div_ceil n cols * (cell_h + gap)" by (rule mult_le_mono1)
  then show ?thesis by (simp add: assms(3) algebra_simps)
qed

lemma nth_background:
  "length bg = 4 \<Longrightarrow> k < n \<Longrightarrow> c < 4 \<Longrightarrow> concat (replicate n bg) ! (k * 4 + c) = bg ! c"
proof (induction n arbitrary: k)
  case (Suc n)
  then show ?case by (cases k) (simp_all add: nth_append)
qed simp

lemma max_of_Max: "max_of xs = Some m \<Longrightarrow> Max (set xs) = m"
  by (cases xs) (auto simp: max_of_def simp del: list.set simp flip: Max.set_eq_fold)

lemma length_background: "length (concat (replicate n bg)) = n * length bg"
  by (induction n) simp_all

text \<open>
  (C29) The filmstrip is exact to the byte.  When the composition of well-formed frames succeeds, every
  byte of every pixel of the sheet is the one the reference gives for its coordinates: the
  pixel of the frame whose cell covers it, at its place from the cell's top left corner, or the
  background in gaps, beside smaller frames and in cells without a frame.  The sheet's buffer has
  the size its sides promise and is within the limit.
\<close>

theorem filmstrip_exact:
  assumes "list_all frame_ok frames" "length bg = 4" "compose frames cols gap bg = Inr (out, w, h)"
    and "x < w" "y < h" "c < 4"
  shows "pixel_byte out w x y c =
      sheet_byte frames (clamp_cols cols (length frames)) (Max (set (map fr_w frames)))
        (Max (set (map fr_h frames))) gap bg x y c \<and>
    length out = w * h * 4 \<and> length out \<le> MAX_SHEET_BYTES"
proof -
  let ?cols = "clamp_cols cols (length frames)"
  obtain cw ch total_bytes where m: "max_of (map fr_w frames) = Some cw" "max_of (map fr_h frames) = Some ch"
      and size: "sheet_size cw ch (length frames) cols gap = Some (w, h, total_bytes)" "total_bytes \<le> MAX_SHEET_BYTES"
      and out: "out = fold (\<lambda>(i, frame). place_frame frame (gap + i mod ?cols * (cw + gap))
          (gap + i div ?cols * (ch + gap)) (w * 4)) (enumerate 0 frames) (concat (replicate (total_bytes div 4) bg))"
    using assms(3)
    by (auto simp: compose_def check_sheet_def Let_def split: option.splits sum.splits if_splits prod.splits)
  note s = sheet_size_Some [OF size(1)]
  have n: "0 < ?cols" by (rule clamp_cols_pos [OF s(1)])
  let ?bg = "concat (replicate (total_bytes div 4) bg)"
  have len: "length ?bg = w * h * 4" using assms(2) by (simp add: length_background s(2))
  have "(y + 1) * w \<le> h * w" using assms(5) by (intro mult_le_mono1) simp
  then have "y * w + x < total_bytes div 4" using assms(4) by (simp add: s(2) mult.commute)
  then have fill: "?bg ! ((y * w + x) * 4 + c) = bg ! c" using assms(2,6) by (intro nth_background) simp_all
  have "\<forall>f \<in> set frames. frame_ok f \<and> fr_w f \<le> cw \<and> fr_h f \<le> ch"
    using assms(1) max_of_bounds [OF m(1)] max_of_bounds [OF m(2)] by (auto simp: list_all_iff)
  moreover have "\<forall>i < length frames. gap + i div ?cols * (ch + gap) + ch \<le> h"
    using cells_fit [OF n _ s(4)] by blast
  moreover have "length (fold (\<lambda>(i, frame). place_frame frame (gap + i mod ?cols * (cw + gap))
          (gap + i div ?cols * (ch + gap)) (w * 4)) es ys) = length ys" for es ys
    by (induction es arbitrary: ys) (simp_all add: split_beta)
  ultimately show ?thesis
    using nth_place_all [OF _ n s(3) len _ assms(4,5,6,2) fill] max_of_Max [OF m(1)] max_of_Max [OF m(2)] len size(2) s(2)
    by (simp only: out pixel_byte_def [of "fold _ _ _"] simp_thms)
qed

text \<open>Two frames of one pixel, side by side with a gap of one pixel.\<close>

theorem filmstrip_exact_witness:
  "\<exists>out. compose [\<lparr>fr_rgba = [1, 2, 3, 4], fr_w = 1, fr_h = 1\<rparr>, \<lparr>fr_rgba = [5, 6, 7, 8], fr_w = 1, fr_h = 1\<rparr>]
       2 1 [9, 9, 9, 255] = Inr (out, 5, 3) \<and>
     pixel_byte out 5 3 1 2 = 7 \<and> length out = 60"
proof -
  let ?frames = "[\<lparr>fr_rgba = [1, 2, 3, 4], fr_w = 1, fr_h = 1\<rparr>, \<lparr>fr_rgba = [5, 6, 7, 8], fr_w = 1, fr_h = 1\<rparr>]"
  obtain out where "compose ?frames 2 1 [9, 9, 9, 255] = Inr (out, 5, 3)"
    by (simp add: compose_def max_of_def check_sheet_def sheet_size_def side_def checked_mul_def checked_add_def
        clamp_cols_def div_ceil_def u32_try_from_def MAX_SHEET_BYTES_def Let_def)
  moreover have "list_all frame_ok ?frames" by (simp add: frame_ok_def)
  moreover have "sheet_byte ?frames (clamp_cols 2 (length ?frames)) (Max (set (map fr_w ?frames)))
      (Max (set (map fr_h ?frames))) 1 [9, 9, 9, 255] 3 1 2 = 7"
    by code_simp
  ultimately show ?thesis using filmstrip_exact [of ?frames "[9, 9, 9, 255]" 2 1 out 5 3 3 1 2] by auto
qed

end
