(* ===== verification/Page_Json.thy ===== *)
theory Page_Json
  imports Unicode
begin

text \<open>
  JSON written by page JavaScript (\<^verbatim>\<open>victauri-plugin/src/mcp/page_json.rs\<close>).  A JavaScript string may
  hold a surrogate that is no half of a pair; \<^verbatim>\<open>JSON.stringify\<close> writes it as a \<^verbatim>\<open>\u\<close> escape, which
  \<^verbatim>\<open>serde_json\<close> refuses.  The code rewrites such escapes.  The reference is JavaScript's own
  \<^verbatim>\<open>String.prototype.toWellFormed\<close> on the code units the text stands for.
\<close>

section \<open>The code\<close>

text \<open>\<^verbatim>\<open>u32::from_str_radix(_, 16)\<close> on at most eight digits: an optional plus sign, then digits.\<close>

definition from_str_radix_16 :: "string \<Rightarrow> nat option" where
  "from_str_radix_16 s =
     (let ds = (if prefix ''+'' s then tl s else s)
      in if ds \<noteq> [] \<and> list_all is_hex ds then Some (hex_value ds) else None)"

definition unicode_escape_at :: "string \<Rightarrow> nat \<Rightarrow> nat option" where
  "unicode_escape_at bytes at =
     (let esc = take 6 (drop at bytes) in
      if length esc < 6 then None
      else if esc ! 0 \<noteq> backslash \<or> esc ! 1 \<noteq> CHR ''u'' then None
      else from_str_radix_16 (drop 2 esc))"

definition is_high :: "nat \<Rightarrow> bool" where
  "is_high u \<longleftrightarrow> 0xD800 \<le> u \<and> u \<le> 0xDBFF"

definition is_low :: "nat \<Rightarrow> bool" where
  "is_low u \<longleftrightarrow> 0xDC00 \<le> u \<and> u \<le> 0xDFFF"

abbreviation replacement_escape :: string where
  "replacement_escape \<equiv> backslash # ''ufffd''"

text \<open>The loop, with the buffer (\<^verbatim>\<open>None\<close> while nothing is rewritten) and the end of what it holds.\<close>

function sanitize_loop :: "string \<Rightarrow> string option \<Rightarrow> nat \<Rightarrow> nat \<Rightarrow> string option \<times> nat" where
  "sanitize_loop json buf copied i =
     (if length json \<le> i then (buf, copied)
      else if json ! i \<noteq> backslash then sanitize_loop json buf copied (i + 1)
      else (case unicode_escape_at json i of
          None \<Rightarrow> sanitize_loop json buf copied (i + 2)
        | Some cp \<Rightarrow>
            if is_high cp \<and> (case unicode_escape_at json (i + 6) of None \<Rightarrow> False | Some lo \<Rightarrow> is_low lo)
            then sanitize_loop json buf copied (i + 12)
            else if is_high cp \<or> is_low cp
            then sanitize_loop json
              (Some ((case buf of None \<Rightarrow> [] | Some b \<Rightarrow> b) @ take (i - copied) (drop copied json) @
                replacement_escape)) (i + 6) (i + 6)
            else sanitize_loop json buf copied (i + 6)))"
  by pat_completeness auto
termination
  by (relation "measure (\<lambda>(json, buf, copied, i). length json - i)") auto

declare sanitize_loop.simps [simp del]

lemma is_ascii_backslash [simp]: "is_ascii backslash"
  by (simp add: is_ascii_def)

text \<open>\<^verbatim>\<open>None\<close> is \<^verbatim>\<open>Cow::Borrowed\<close>, the input itself.\<close>

definition sanitize_lone_surrogates :: "string \<Rightarrow> string option" where
  "sanitize_lone_surrogates json =
     (case sanitize_loop json None 0 0 of
        (None, _) \<Rightarrow> None
      | (Some buf, copied) \<Rightarrow> Some (buf @ drop copied json))"

definition sanitized :: "string \<Rightarrow> string" where
  "sanitized json = (case sanitize_lone_surrogates json of None \<Rightarrow> json | Some s \<Rightarrow> s)"

text \<open>\<^verbatim>\<open>parse_page_json\<close>, with \<^verbatim>\<open>serde_json::from_str\<close> as an argument.\<close>

definition parse_page_json :: "(string \<Rightarrow> 'e + 'a) \<Rightarrow> string \<Rightarrow> 'e + 'a" where
  "parse_page_json from_str json = from_str (sanitized json)"

section \<open>The loop as a function on the rest of the text\<close>

definition lone_at :: "string \<Rightarrow> bool" where
  "lone_at s \<longleftrightarrow> (case unicode_escape_at s 0 of None \<Rightarrow> False
     | Some cp \<Rightarrow> is_low cp \<or> is_high cp \<and> \<not> (case unicode_escape_at s 6 of None \<Rightarrow> False | Some lo \<Rightarrow> is_low lo))"

definition escape_length :: "string \<Rightarrow> nat" where
  "escape_length s =
     (if hd s \<noteq> backslash then 1
      else (case unicode_escape_at s 0 of None \<Rightarrow> 2
        | Some cp \<Rightarrow> if is_high cp \<and> \<not> lone_at s then 12 else 6))"

function rewrite :: "string \<Rightarrow> string" where
  "rewrite s =
     (if s = [] then []
      else (if hd s = backslash \<and> lone_at s then replacement_escape else take (escape_length s) s) @
        rewrite (drop (escape_length s) s))"
  by pat_completeness auto
termination
  by (relation "measure length") (auto simp: escape_length_def split: option.splits)

declare rewrite.simps [simp del]

lemma rewrite_Nil [simp]: "rewrite [] = []"
  by (simp add: rewrite.simps)

lemma unicode_escape_at_drop: "unicode_escape_at json (i + k) = unicode_escape_at (drop i json) k"
  by (simp add: unicode_escape_at_def add.commute)

lemma high_not_low: "is_high u \<Longrightarrow> \<not> is_low u"
  by (simp add: is_high_def is_low_def)

text \<open>What the buffer and the uncopied part say together.\<close>

definition written :: "string \<Rightarrow> string option \<Rightarrow> nat \<Rightarrow> nat \<Rightarrow> string" where
  "written json buf copied i = (case buf of None \<Rightarrow> [] | Some b \<Rightarrow> b) @ take (i - copied) (drop copied json)"

lemma written_advance:
  "copied \<le> i \<Longrightarrow> written json buf copied (i + k) = written json buf copied i @ take k (drop i json)"
proof -
  assume "copied \<le> i"
  then have "i + k - copied = (i - copied) + k" "drop (i - copied) (drop copied json) = drop i json" by simp_all
  then show ?thesis by (simp only: written_def take_add append_assoc)
qed

lemma escape_length_pos: "0 < escape_length s"
  by (simp add: escape_length_def split: option.splits)

lemma lone_escape_length: "hd s = backslash \<Longrightarrow> lone_at s \<Longrightarrow> escape_length s = 6"
  by (auto simp: lone_at_def escape_length_def split: option.splits)

text \<open>One round of the loop, on the rest of the text.\<close>

lemma sanitize_loop_end: "length json \<le> i \<Longrightarrow> sanitize_loop json buf copied i = (buf, copied)"
  by (subst sanitize_loop.simps) simp

lemma sanitize_loop_step:
  assumes "i < length json"
  shows "sanitize_loop json buf copied i =
    (if hd (drop i json) = backslash \<and> lone_at (drop i json)
     then sanitize_loop json (Some (written json buf copied i @ replacement_escape)) (i + 6) (i + 6)
     else sanitize_loop json buf copied (i + escape_length (drop i json)))"
proof -
  have e: "unicode_escape_at json i = unicode_escape_at (drop i json) 0"
    "unicode_escape_at json (i + 6) = unicode_escape_at (drop i json) 6"
    using unicode_escape_at_drop [of json i] by (simp_all flip: unicode_escape_at_drop)
  have h: "hd (drop i json) = json ! i" using assms by (simp add: hd_drop_conv_nth)
  show ?thesis
    by (subst sanitize_loop.simps)
      (use assms high_not_low in \<open>auto simp: e h escape_length_def lone_at_def written_def split: option.splits\<close>)
qed

lemma rewrite_step:
  assumes "i < length json"
  shows "rewrite (drop i json) =
    (if hd (drop i json) = backslash \<and> lone_at (drop i json) then replacement_escape
     else take (escape_length (drop i json)) (drop i json)) @ rewrite (drop (i + escape_length (drop i json)) json)"
  using assms by (subst rewrite.simps) (simp add: add.commute)

lemma sanitize_loop_rewrite:
  assumes "copied \<le> i" "sanitize_loop json buf copied i = (buf', copied')"
  shows "(case buf' of None \<Rightarrow> [] | Some b \<Rightarrow> b) @ drop copied' json =
    written json buf copied i @ rewrite (drop i json)"
  using assms
proof (induction "length json - i" arbitrary: buf copied i rule: less_induct)
  case less
  show ?case
  proof (cases "i < length json")
    case False
    then show ?thesis using less.prems by (simp add: sanitize_loop_end written_def)
  next
    case i: True
    note step = less.prems(2) [unfolded sanitize_loop_step [OF i]]
    show ?thesis
    proof (cases "hd (drop i json) = backslash \<and> lone_at (drop i json)")
      case True
      then have "(case buf' of None \<Rightarrow> [] | Some b \<Rightarrow> b) @ drop copied' json =
          written json (Some (written json buf copied i @ replacement_escape)) (i + 6) (i + 6) @ rewrite (drop (i + 6) json)"
        using step i by (intro less.hyps) auto
      then show ?thesis
        using True rewrite_step [OF i] lone_escape_length [of "drop i json"] by (simp add: written_def)
    next
      case False
      then have "(case buf' of None \<Rightarrow> [] | Some b \<Rightarrow> b) @ drop copied' json =
          written json buf copied (i + escape_length (drop i json)) @ rewrite (drop (i + escape_length (drop i json)) json)"
        using step i less.prems(1) escape_length_pos [of "drop i json"] by (intro less.hyps) auto
      moreover have "rewrite (drop i json) = take (escape_length (drop i json)) (drop i json) @
          rewrite (drop (i + escape_length (drop i json)) json)"
        using False rewrite_step [OF i] by (simp only: if_False)
      ultimately show ?thesis by (simp only: written_advance [OF less.prems(1)] append_assoc)
    qed
  qed
qed

text \<open>While nothing is rewritten, nothing is copied.\<close>

lemma sanitize_loop_None: "sanitize_loop json buf copied i = (None, copied') \<Longrightarrow> buf = None \<and> copied' = copied"
proof (induction "length json - i" arbitrary: buf copied i rule: less_induct)
  case less
  show ?case
  proof (cases "i < length json")
    case False
    then show ?thesis using less.prems by (simp add: sanitize_loop_end)
  next
    case i: True
    note step = less.prems [unfolded sanitize_loop_step [OF i]]
    show ?thesis
    proof (cases "hd (drop i json) = backslash \<and> lone_at (drop i json)")
      case True
      then show ?thesis using step i less.hyps [of "i + 6" "Some _" "i + 6"] by (fastforce split: if_splits)
    next
      case False
      then show ?thesis
        using step i less.hyps [of "i + escape_length (drop i json)" buf copied] escape_length_pos [of "drop i json"]
        by auto
    qed
  qed
qed

lemma sanitized_rewrite: "sanitized json = rewrite json"
proof -
  obtain buf copied where r: "sanitize_loop json None 0 0 = (buf, copied)" by fastforce
  have "copied = 0" if "buf = None" using r that sanitize_loop_None by blast
  then show ?thesis
    using sanitize_loop_rewrite [OF _ r]
    by (cases buf) (simp_all add: sanitized_def sanitize_lone_surrogates_def r written_def)
qed

section \<open>The reference: the code units of a text\<close>

text \<open>
  A JSON text as tokens: a character as it stands, a two-character escape, a \<^verbatim>\<open>\u\<close> escape.  The
  structural characters of JSON are characters like any other here.
\<close>

datatype js_token = Plain nat | Short nat | Unit nat

fun short_escape :: "char \<Rightarrow> nat option" where
  "short_escape c =
     map_of [(quote, 0x22), (backslash, 0x5C), (CHR ''/'', 0x2F), (CHR ''b'', 8), (CHR ''f'', 12),
       (CHR ''n'', 10), (CHR ''r'', 13), (CHR ''t'', 9)] c"

definition is_unit_escape :: "string \<Rightarrow> bool" where
  "is_unit_escape s \<longleftrightarrow> 6 \<le> length s \<and> s ! 0 = backslash \<and> s ! 1 = CHR ''u'' \<and> list_all is_hex (take 4 (drop 2 s))"

function js_tokens :: "string \<Rightarrow> js_token list option" where
  "js_tokens s =
     (if s = [] then Some []
      else if hd s \<noteq> backslash then
        (let n = max 1 (utf8_width s)
         in map_option (Cons (Plain (code_point (take n s)))) (js_tokens (drop n s)))
      else if is_unit_escape s then
        map_option (Cons (Unit (hex_value (take 4 (drop 2 s))))) (js_tokens (drop 6 s))
      else if length s < 2 then None
      else (case short_escape (s ! 1) of
          None \<Rightarrow> None
        | Some u \<Rightarrow> map_option (Cons (Short u)) (js_tokens (drop 2 s))))"
  by pat_completeness auto
termination
  by (relation "measure length") auto

declare js_tokens.simps [simp del]

fun token_units :: "js_token \<Rightarrow> nat list" where
  "token_units (Plain n) = utf16_units n"
| "token_units (Short u) = [u]"
| "token_units (Unit u) = [u]"

definition text_units :: "js_token list \<Rightarrow> nat list" where
  "text_units ts = concat (map token_units ts)"

text \<open>\<^verbatim>\<open>String.prototype.toWellFormed\<close>\<close>

fun to_well_formed :: "nat list \<Rightarrow> nat list" where
  "to_well_formed [] = []"
| "to_well_formed [u] = [if is_high u \<or> is_low u then 0xFFFD else u]"
| "to_well_formed (u # v # us) =
     (if is_high u \<and> is_low v then u # v # to_well_formed us
      else (if is_high u \<or> is_low u then 0xFFFD else u) # to_well_formed (v # us))"

lemma short_escape_ascii: "short_escape c = Some u \<Longrightarrow> is_ascii c"
  by (auto simp: is_ascii_def split: if_splits)

text \<open>The same on tokens.\<close>

fun repair :: "js_token list \<Rightarrow> js_token list" where
  "repair [] = []"
| "repair (Unit u # Unit v # ts) =
     (if is_high u \<and> is_low v then Unit u # Unit v # repair ts
      else Unit (if is_high u \<or> is_low u then 0xFFFD else u) # repair (Unit v # ts))"
| "repair (Unit u # ts) = Unit (if is_high u \<or> is_low u then 0xFFFD else u) # repair ts"
| "repair (t # ts) = t # repair ts"

definition token_kept :: "js_token \<Rightarrow> js_token \<Rightarrow> bool" where
  "token_kept t t' \<longleftrightarrow> t = t' \<or> (\<exists>u. t = Unit u \<and> (is_high u \<or> is_low u) \<and> t' = Unit 0xFFFD)"

lemma repair_keeps: "list_all2 token_kept ts (repair ts)"
  by (induction ts rule: repair.induct) (auto simp: token_kept_def)

subsection \<open>Reading a text\<close>

lemma js_tokens_Nil [simp]: "js_tokens [] = Some []"
  by (simp add: js_tokens.simps)

lemma js_tokens_char:
  "utf8_char ch \<Longrightarrow> hd ch \<noteq> backslash \<Longrightarrow>
   js_tokens (ch @ s) = map_option (Cons (Plain (code_point ch))) (js_tokens s)"
  using utf8_char_neq_Nil [of ch] utf8_char_length [of ch]
  by (subst js_tokens.simps) (auto simp: utf8_width_char Let_def max_def)

lemma js_tokens_ascii:
  "is_ascii c \<Longrightarrow> c \<noteq> backslash \<Longrightarrow> js_tokens (c # s) = map_option (Cons (Plain (of_char c))) (js_tokens s)"
  using js_tokens_char [of "[c]" s] by simp

lemma js_tokens_unit:
  "length h = 4 \<Longrightarrow> list_all is_hex h \<Longrightarrow>
   js_tokens (backslash # CHR ''u'' # h @ s) = map_option (Cons (Unit (hex_value h))) (js_tokens s)"
  by (subst js_tokens.simps) (simp add: is_unit_escape_def)

lemma js_tokens_short:
  "short_escape c = Some u \<Longrightarrow> js_tokens (backslash # c # s) = map_option (Cons (Short u)) (js_tokens s)"
  by (subst js_tokens.simps) (auto simp: is_unit_escape_def split: if_splits)

lemma js_tokens_cases [consumes 2, case_names Nil plain short unit]:
  assumes "valid_utf8 s" "js_tokens s = Some ts"
  obtains "s = []" "ts = []"
  | ch r us where "s = ch @ r" "utf8_char ch" "hd ch \<noteq> backslash" "valid_utf8 r" "js_tokens r = Some us"
      "ts = Plain (code_point ch) # us"
  | c u r us where "s = backslash # c # r" "short_escape c = Some u" "valid_utf8 r" "js_tokens r = Some us"
      "ts = Short u # us"
  | h r us where "s = backslash # CHR ''u'' # h @ r" "length h = 4" "list_all is_hex h" "valid_utf8 r"
      "js_tokens r = Some us" "ts = Unit (hex_value h) # us"
  using assms(1)
proof (cases s rule: valid_utf8_cases)
  case Nil
  then show ?thesis using assms that(1) by simp
next
  case (char ch r)
  show ?thesis
  proof (cases "hd ch = backslash")
    case False
    then show ?thesis using char assms that(2) [of ch r] by (auto simp: js_tokens_char)
  next
    case True
    then have s: "s = backslash # r"
      using char utf8_char_cases [OF char(2)] by (metis append_Cons append_Nil is_ascii_backslash list.sel(1) list.set_sel(1))
    show ?thesis
    proof (cases "is_unit_escape s")
      case True
      then have h: "length (take 4 (tl r)) = 4" "list_all is_hex (take 4 (tl r))" "r = CHR ''u'' # take 4 (tl r) @ drop 4 (tl r)"
        by (cases r; simp add: is_unit_escape_def s)+
      then have "s = backslash # CHR ''u'' # take 4 (tl r) @ drop 4 (tl r)" using s by simp
      moreover have "valid_utf8 (drop 4 (tl r))"
      proof -
        have "\<forall>c \<in> set (CHR ''u'' # take 4 (tl r)). is_ascii c"
          using h(2) by (auto simp: list_all_iff is_hex_ascii) (simp add: is_ascii_def)
        then show ?thesis
          using char(3) h(3) valid_utf8_ascii_prefix [of "CHR ''u'' # take 4 (tl r)" "drop 4 (tl r)"] by simp
      qed
      moreover obtain us where "js_tokens (drop 4 (tl r)) = Some us" "ts = Unit (hex_value (take 4 (tl r))) # us"
        using assms(2) js_tokens_unit [OF h(1,2), of "drop 4 (tl r)"] calculation(1)
        by (simp only: map_option_eq_Some) auto
      ultimately show ?thesis using h(1,2) that(4) [of "take 4 (tl r)" "drop 4 (tl r)"] by blast
    next
      case False
      then obtain c r' u where c: "r = c # r'" "short_escape c = Some u"
        using assms(2) by (subst (asm) js_tokens.simps) (cases r; auto simp: s simp del: short_escape.simps split: if_splits option.splits)
      moreover have "valid_utf8 r'"
        using char(3) c short_escape_ascii [OF c(2)] by simp
      ultimately show ?thesis
        using assms(2) that(3) [of c r' u] js_tokens_short [OF c(2), of r'] s by auto
    qed
  qed
qed

subsection \<open>What the code does on such a text\<close>

lemma unit_escape_code:
  assumes "length h = 4" "list_all is_hex h"
  shows "unicode_escape_at (backslash # CHR ''u'' # h @ r) 0 = Some (hex_value h)"
proof -
  have "\<not> prefix ''+'' h" using assms by (cases h) (auto simp: prefix_def is_hex_def to_digit_16_def)
  then show ?thesis using assms by (cases h) (simp_all add: unicode_escape_at_def from_str_radix_16_def)
qed

lemma escape_is_unit:
  assumes "valid_utf8 s" "js_tokens s = Some ts"
  shows "unicode_escape_at s 0 = (case ts of Unit u # _ \<Rightarrow> Some u | _ \<Rightarrow> None)"
  using assms
proof (cases rule: js_tokens_cases)
  case (plain ch r us)
  then show ?thesis
    using utf8_char_neq_Nil [of ch] by (cases ch) (auto simp: unicode_escape_at_def Let_def)
next
  case (short c u r us)
  then have "c \<noteq> CHR ''u''" by auto
  then show ?thesis using short by (auto simp: unicode_escape_at_def Let_def)
next
  case (unit h r us)
  then show ?thesis using unit_escape_code [of h r] by simp
qed (simp add: unicode_escape_at_def)

lemma escape_follows:
  assumes "valid_utf8 r" "js_tokens r = Some us" "length p = 6"
  shows "unicode_escape_at (p @ r) 6 = (case us of Unit u # _ \<Rightarrow> Some u | _ \<Rightarrow> None)"
  using escape_is_unit [OF assms(1,2)] unicode_escape_at_drop [of "p @ r" 6 0] assms(3) by simp

lemma rewrite_at:
  assumes "s \<noteq> []"
  shows "rewrite s = (if hd s = backslash \<and> lone_at s then replacement_escape
     else take (escape_length s) s) @ rewrite (drop (escape_length s) s)"
  using assms by (subst rewrite.simps) simp

lemma rewrite_not_backslash: "backslash \<notin> set p \<Longrightarrow> rewrite (p @ s) = p @ rewrite s"
  by (induction p) (auto simp: rewrite_at escape_length_def)

lemma rewrite_other:
  "c \<noteq> CHR ''u'' \<Longrightarrow> rewrite (backslash # c # s) = backslash # c # rewrite s"
  by (subst rewrite_at) (simp_all add: escape_length_def lone_at_def unicode_escape_at_def Let_def)

lemma rewrite_unit:
  assumes "length h = 4" "list_all is_hex h"
  shows "rewrite (backslash # CHR ''u'' # h @ r) =
    (let s = backslash # CHR ''u'' # h @ r in
     if lone_at s then replacement_escape @ rewrite r
     else if is_high (hex_value h) then take 12 s @ rewrite (drop 6 r)
     else backslash # CHR ''u'' # h @ rewrite r)"
  using assms unit_escape_code [OF assms, of r] lone_escape_length [of "backslash # CHR ''u'' # h @ r"]
  by (subst rewrite_at) (simp_all add: Let_def escape_length_def)

lemma replacement_value: "list_all is_hex ''fffd'' \<and> hex_value ''fffd'' = 0xFFFD"
  by (simp add: is_hex_def to_digit_16_def hex_value_def)

lemma js_tokens_replacement:
  "js_tokens (replacement_escape @ s) = map_option (Cons (Unit 0xFFFD)) (js_tokens s)"
  using js_tokens_unit [of "''fffd''" s] replacement_value by simp

lemma lone_not_replacement:
  assumes "lone_at s"
  shows "take 6 s \<noteq> replacement_escape"
proof
  assume "take 6 s = replacement_escape"
  then have "s = backslash # CHR ''u'' # ''fffd'' @ drop 6 s" using append_take_drop_id [of 6 s] by simp
  then have "unicode_escape_at s 0 = Some 0xFFFD"
    using unit_escape_code [of "''fffd''" "drop 6 s"] replacement_value by simp
  then show False using assms by (simp add: lone_at_def is_high_def is_low_def)
qed

lemma rewrite_tokens:
  assumes "valid_utf8 s" "js_tokens s = Some ts"
  shows "js_tokens (rewrite s) = Some (repair ts) \<and> (rewrite s = s \<longleftrightarrow> repair ts = ts)"
  using assms
proof (induction s arbitrary: ts rule: measure_induct_rule [of length])
  case (less s)
  from less.prems show ?case
  proof (cases rule: js_tokens_cases)
    case (plain ch r us)
    have "backslash \<notin> set ch" using utf8_char_cases [OF plain(2)] plain(3) by (metis empty_iff is_ascii_backslash list.sel(1) list.set(1) set_ConsD)
    then have "rewrite s = ch @ rewrite r" using plain(1) by (simp add: rewrite_not_backslash)
    then show ?thesis using plain less.IH [of r us] utf8_char_neq_Nil [OF plain(2)] by (auto simp: js_tokens_char)
  next
    case (short c u r us)
    then have "rewrite s = backslash # c # rewrite r" by (auto intro!: rewrite_other)
    then show ?thesis using short less.IH [of r us] js_tokens_short [OF short(2)] by (auto simp del: short_escape.simps)
  next
    case (unit h r us)
    have IH: "js_tokens (rewrite r) = Some (repair us) \<and> (rewrite r = r \<longleftrightarrow> repair us = us)"
      using unit by (intro less.IH) auto
    let ?u = "hex_value h" and ?low = "case us of Unit v # _ \<Rightarrow> is_low v | _ \<Rightarrow> False"
    have follows: "(case unicode_escape_at s 6 of None \<Rightarrow> False | Some lo \<Rightarrow> is_low lo) = ?low"
      using escape_follows [OF unit(4,5), of "backslash # CHR ''u'' # h"] unit(1,2)
      by (simp split: list.splits js_token.splits)
    have first: "unicode_escape_at s 0 = Some ?u" using unit_escape_code [OF unit(2,3)] unit(1) by simp
    have lone_iff: "lone_at s \<longleftrightarrow> is_low ?u \<or> is_high ?u \<and> \<not> ?low"
      by (simp only: lone_at_def follows first option.case)
    consider (lone) "lone_at s" | (pair) v vs where "is_high ?u" "us = Unit v # vs" "is_low v" "\<not> lone_at s"
      | (kept) "\<not> is_high ?u" "\<not> is_low ?u" "\<not> lone_at s"
      using lone_iff by (cases us; cases "hd us") auto
    then show ?thesis
    proof cases
      case l: lone
      then have "rewrite s = replacement_escape @ rewrite r"
        using rewrite_unit [OF unit(2,3), of r] unit(1) by (simp add: Let_def)
      moreover have "repair ts = Unit 0xFFFD # repair us" "?u \<noteq> 0xFFFD"
        using l lone_iff unit(6) high_not_low by (cases us rule: repair.cases; auto simp: is_high_def is_low_def)+
      moreover have "rewrite s \<noteq> s"
        using calculation(1) lone_not_replacement [OF l] by auto
      ultimately show ?thesis
        using IH js_tokens_replacement [of "rewrite r"] unit(6) by auto
    next
      case pair
      obtain h' r' where r: "r = backslash # CHR ''u'' # h' @ r'" "length h' = 4" "list_all is_hex h'"
          "valid_utf8 r'" "js_tokens r' = Some vs" "v = hex_value h'"
        using js_tokens_cases [OF unit(4,5)] pair(2) by blast
      then have "rewrite s = backslash # CHR ''u'' # h @ backslash # CHR ''u'' # h' @ rewrite r'"
        using rewrite_unit [OF unit(2,3), of r] unit(1,2) pair by (simp add: Let_def)
      moreover have "js_tokens (rewrite r') = Some (repair vs) \<and> (rewrite r' = r' \<longleftrightarrow> repair vs = vs)"
        using r unit(1) by (intro less.IH) auto
      ultimately show ?thesis
        using r pair unit(1,2,3,6) js_tokens_unit [OF unit(2,3)] js_tokens_unit [OF r(2,3), of "rewrite r'"] by auto
    next
      case kept
      then have "rewrite s = backslash # CHR ''u'' # h @ rewrite r"
        using rewrite_unit [OF unit(2,3), of r] unit(1) by (simp add: Let_def)
      moreover have "repair ts = Unit ?u # repair us"
        using kept unit(6) by (cases us rule: repair.cases) auto
      ultimately show ?thesis
        using IH unit(1,6) js_tokens_unit [OF unit(2,3), of "rewrite r"] by auto
    qed
  qed simp
qed

subsection \<open>Code units\<close>

definition plain_scalar :: "js_token \<Rightarrow> bool" where
  "plain_scalar t \<longleftrightarrow> (case t of Plain n \<Rightarrow> is_scalar n | Short u \<Rightarrow> u < 0x80 | Unit u \<Rightarrow> True)"

lemma to_well_formed_kept: "\<not> is_high u \<Longrightarrow> \<not> is_low u \<Longrightarrow> to_well_formed (u # us) = u # to_well_formed us"
  by (cases us) auto

lemma to_well_formed_pair: "is_high u \<Longrightarrow> is_low v \<Longrightarrow> to_well_formed (u # v # us) = u # v # to_well_formed us"
  by simp

lemma to_well_formed_char:
  assumes "is_scalar n"
  shows "to_well_formed (utf16_units n @ us) = utf16_units n @ to_well_formed us"
proof (cases "n < 0x10000")
  case True
  then show ?thesis using assms to_well_formed_kept [of n us] by (auto simp: utf16_units_def is_scalar_def is_high_def is_low_def)
next
  case False
  then have "is_high (0xD800 + (n - 0x10000) div 1024)" "is_low (0xDC00 + (n - 0x10000) mod 1024)"
    using assms by (auto simp: is_high_def is_low_def is_scalar_def)
  then show ?thesis using False to_well_formed_pair by (simp add: utf16_units_def)
qed

lemma to_well_formed_lone:
  "is_high u \<or> is_low u \<Longrightarrow> us = [] \<or> \<not> (is_high u \<and> is_low (hd us)) \<Longrightarrow>
   to_well_formed (u # us) = 0xFFFD # to_well_formed us"
  by (cases us) auto

lemma text_units_simps [simp]: "text_units [] = []" "text_units (t # ts) = token_units t @ text_units ts"
  by (simp_all add: text_units_def)

lemma first_unit_low:
  "list_all plain_scalar ts \<Longrightarrow> text_units ts \<noteq> [] \<Longrightarrow> is_low (hd (text_units ts)) \<Longrightarrow>
   \<exists>v us. ts = Unit v # us \<and> is_low v"
  by (cases ts; cases "hd ts")
    (auto simp: text_units_def plain_scalar_def utf16_units_def is_scalar_def is_low_def split: if_splits)

lemma repair_Unit:
  "\<not> (is_high u \<and> (\<exists>v us. ts = Unit v # us \<and> is_low v)) \<Longrightarrow>
   repair (Unit u # ts) = Unit (if is_high u \<or> is_low u then 0xFFFD else u) # repair ts"
  by (cases ts; cases "hd ts") auto

lemma repair_units:
  "list_all plain_scalar ts \<Longrightarrow> text_units (repair ts) = to_well_formed (text_units ts)"
proof (induction ts rule: measure_induct_rule [of length])
  case (less ts)
  show ?case
  proof (cases ts)
    case (Cons t us)
    have IH: "text_units (repair us) = to_well_formed (text_units us)" using less Cons by simp
    show ?thesis
    proof (cases t)
      case (Plain n)
      then show ?thesis using Cons IH less.prems by (simp add: plain_scalar_def to_well_formed_char)
    next
      case (Short u)
      then have "\<not> is_high u" "\<not> is_low u" using Cons less.prems by (auto simp: plain_scalar_def is_high_def is_low_def)
      then show ?thesis using Cons Short IH to_well_formed_kept by simp
    next
      case (Unit u)
      show ?thesis
      proof (cases "is_high u \<and> (\<exists>v vs. us = Unit v # vs \<and> is_low v)")
        case True
        then obtain v vs where "us = Unit v # vs" "is_low v" by blast
        then show ?thesis using True Cons Unit less.IH [of vs] less.prems by simp
      next
        case False
        then have "text_units us = [] \<or> \<not> (is_high u \<and> is_low (hd (text_units us)))"
          using first_unit_low [of us] less.prems Cons by auto
        then show ?thesis
          using repair_Unit [OF False] Cons Unit IH to_well_formed_lone [of u "text_units us"] to_well_formed_kept [of u "text_units us"]
          by (cases "is_high u \<or> is_low u") simp_all
      qed
    qed
  qed simp
qed

lemma js_tokens_scalar:
  "valid_utf8 s \<Longrightarrow> js_tokens s = Some ts \<Longrightarrow> list_all plain_scalar ts"
proof (induction s arbitrary: ts rule: measure_induct_rule [of length])
  case (less s)
  from less.prems show ?case
  proof (cases rule: js_tokens_cases)
    case (plain ch r us)
    then show ?thesis
      using less.IH [of r us] code_point_char [of ch] utf8_char_neq_Nil [of ch] by (simp add: plain_scalar_def)
  next
    case (short c u r us)
    then have "u < 0x80" by (auto split: if_splits)
    then show ?thesis using short less.IH [of r us] by (simp add: plain_scalar_def)
  next
    case (unit h r us)
    then show ?thesis using less.IH [of r us] by (simp add: plain_scalar_def)
  qed simp
qed

section \<open>Correctness\<close>

lemma sanitize_loop_changes:
  "sanitize_loop json None copied i = (Some buf, copied') \<Longrightarrow> rewrite (drop i json) \<noteq> drop i json"
proof (induction "length json - i" arbitrary: copied i rule: less_induct)
  case less
  then have i: "i < length json" by (cases "i < length json") (simp_all add: sanitize_loop_end)
  note step = less.prems [unfolded sanitize_loop_step [OF i]]
  let ?s = "drop i json"
  have split: "?s = take (escape_length ?s) ?s @ drop (i + escape_length ?s) json"
    by (metis add.commute append_take_drop_id drop_drop)
  show ?case
  proof (cases "hd ?s = backslash \<and> lone_at ?s")
    case True
    then have "rewrite ?s = replacement_escape @ rewrite (drop (i + 6) json)" "take 6 (rewrite ?s) = replacement_escape"
      using rewrite_step [OF i] lone_escape_length [of ?s] by simp_all
    then show ?thesis using lone_not_replacement [of ?s] True by metis
  next
    case False
    have "rewrite (drop (i + escape_length ?s) json) \<noteq> drop (i + escape_length ?s) json"
      using step False i escape_length_pos [of ?s] by (intro less.hyps [of _ copied]) auto
    moreover have "rewrite ?s = take (escape_length ?s) ?s @ rewrite (drop (i + escape_length ?s) json)"
      using False rewrite_step [OF i] by (simp only: if_False)
    ultimately show ?thesis using split by (metis append_same_eq same_append_eq)
  qed
qed

lemma borrowed_rewrite: "sanitize_lone_surrogates json = None \<longleftrightarrow> rewrite json = json"
proof -
  obtain buf copied where r: "sanitize_loop json None 0 0 = (buf, copied)" by fastforce
  show ?thesis
  proof (cases buf)
    case None
    then have "sanitize_lone_surrogates json = None" by (simp add: sanitize_lone_surrogates_def r)
    then show ?thesis using sanitized_rewrite [of json] by (simp add: sanitized_def)
  next
    case (Some b)
    then show ?thesis
      using sanitize_loop_changes [of json 0 0 b copied] r by (simp add: sanitize_lone_surrogates_def)
  qed
qed

lemma token_kept_units:
  "list_all2 token_kept ts ts' \<Longrightarrow> text_units ts' = text_units ts \<Longrightarrow> ts' = ts"
proof (induction ts ts' rule: list_all2_induct)
  case (Cons t ts t' ts')
  then have "length (token_units t') = length (token_units t)" by (auto simp: token_kept_def)
  then have "token_units t' = token_units t" "text_units ts' = text_units ts" using Cons.prems by auto
  then show ?case using Cons by (auto simp: token_kept_def)
qed simp

lemma repair_same:
  "list_all plain_scalar ts \<Longrightarrow> repair ts = ts \<longleftrightarrow> to_well_formed (text_units ts) = text_units ts"
  using token_kept_units [OF repair_keeps [of ts]] repair_units [of ts] by auto

text \<open>
  (C28) What the page wrote reaches the Rust side as its JavaScript string made well formed.  A JSON
  text whose escapes are JSON's stays one; only escapes of surrogates change, to the replacement
  character; and the code units it stands for become those of \<^verbatim>\<open>String.prototype.toWellFormed\<close>:
  surrogate pairs survive, lone halves do not.  The input is returned as it is (\<^verbatim>\<open>Cow::Borrowed\<close>)
  exactly when it stands for a well-formed string already.
\<close>

theorem page_json_repaired:
  assumes "valid_utf8 json" "js_tokens json = Some ts"
  shows "(\<exists>ts'. js_tokens (sanitized json) = Some ts' \<and> list_all2 token_kept ts ts' \<and>
      text_units ts' = to_well_formed (text_units ts)) \<and>
    (sanitize_lone_surrogates json = None \<longleftrightarrow> to_well_formed (text_units ts) = text_units ts)"
proof -
  have scalar: "list_all plain_scalar ts" by (rule js_tokens_scalar [OF assms])
  note tokens = rewrite_tokens [OF assms]
  show ?thesis
    using tokens repair_keeps [of ts] repair_units [OF scalar] repair_same [OF scalar]
    by (simp only: sanitized_rewrite borrowed_rewrite option.inject ex_simps simp_thms)
qed

text \<open>A lone half between two characters, then a pair.\<close>

theorem page_json_repaired_witness:
  "\<exists>ts'. js_tokens (sanitized (quote # backslash # ''ud800A'' @ backslash # ''ud83d'' @ backslash # ''ude00'' @ [quote])) = Some ts' \<and>
     text_units ts' = [0x22, 0xFFFD, 0x41, 0xD83D, 0xDE00, 0x22]"
proof -
  let ?json = "quote # backslash # ''ud800A'' @ backslash # ''ud83d'' @ backslash # ''ude00'' @ [quote]"
  let ?ts = "[Plain 0x22, Unit 0xD800, Plain 0x41, Unit 0xD83D, Unit 0xDE00, Plain 0x22]"
  have "valid_utf8 ?json" by (simp add: is_ascii_def)
  moreover have "js_tokens ?json = Some ?ts"
    using js_tokens_unit [of "''d800''"] js_tokens_unit [of "''d83d''"] js_tokens_unit [of "''de00''"]
    by (simp add: js_tokens_ascii is_ascii_def is_hex_def to_digit_16_def hex_value_def)
  ultimately show ?thesis
    using page_json_repaired [of ?json ?ts] by (auto simp: utf16_units_def is_high_def is_low_def)
qed

end
