(* ===== verification/Recorded_Selector.thy ===== *)
theory Recorded_Selector
  imports Unicode
begin

text \<open>
  The selectors of recorded interactions, on both sides: the page bridge writes them
  (\<^verbatim>\<open>bestSelector\<close> and its escaping in \<^verbatim>\<open>crates/victauri-plugin/src/js_bridge.rs\<close>) and the test
  generator takes them apart again (\<^verbatim>\<open>parse_recorded_selector\<close> in
  \<^verbatim>\<open>crates/victauri-core/src/codegen.rs\<close>).  The bridge works on UTF-16 code units (a \<^verbatim>\<open>nat list\<close>), the
  generator on UTF-8 text.
\<close>

section \<open>Decoding CSS in the generator\<close>

text \<open>\<^verbatim>\<open>char::to_digit(16)\<close> and \<^verbatim>\<open>is_ascii_hexdigit\<close> of a character.\<close>

definition char_digit :: "string \<Rightarrow> nat option" where
  "char_digit ch = (case ch of [c] \<Rightarrow> to_digit_16 c | _ \<Rightarrow> None)"

text \<open>At most \<open>k\<close> further hex digits.\<close>

fun more_digits :: "nat \<Rightarrow> nat \<Rightarrow> string list \<Rightarrow> nat \<times> string list" where
  "more_digits (Suc k) code (ch # chs) =
     (case char_digit ch of Some d \<Rightarrow> more_digits k (code * 16 + d) chs | None \<Rightarrow> (code, ch # chs))"
| "more_digits _ code chs = (code, chs)"

definition replacement_character :: nat where
  "replacement_character = 0xFFFD"

text \<open>The decoded character (or none: a line continuation) and the characters after the escape.\<close>

definition css_escape :: "string list \<Rightarrow> (string option \<times> string list) option" where
  "css_escape chs = (case chs of [] \<Rightarrow> None | first # r \<Rightarrow>
     if first = [newline] then Some (None, r)
     else (case char_digit first of
             None \<Rightarrow> Some (Some first, r)
           | Some code \<Rightarrow>
               (let (code, r) = more_digits 5 code r;
                    r = (case r of w # r' \<Rightarrow> if w \<in> {[CHR 0x20], [CHR 0x09], [newline]} then r' else r | [] \<Rightarrow> r)
                in Some (Some (char_bytes (if is_scalar code \<and> code \<noteq> 0 then code else replacement_character)), r))))"

lemma more_digits_shorter: "length (snd (more_digits k code chs)) \<le> length chs"
  by (induction k code chs rule: more_digits.induct) (auto split: option.splits)

lemma css_escape_shorter:
  assumes "css_escape chs = Some (d, r)"
  shows "length r < length chs"
proof (cases chs)
  case (Cons first rest)
  have "length (snd (more_digits 5 code rest)) \<le> length rest" for code by (rule more_digits_shorter)
  moreover have "length (case xs of w # r' \<Rightarrow> if w \<in> {[CHR 0x20], [CHR 0x09], [newline]} then r' else xs | [] \<Rightarrow> xs)
      \<le> length xs" for xs :: "string list" by (cases xs) auto
  ultimately show ?thesis
    using assms Cons
    by (auto simp: css_escape_def Let_def case_prod_beta less_Suc_eq_le split: if_splits option.splits
        intro: order_trans)
qed (use assms in \<open>simp add: css_escape_def\<close>)

definition prepend :: "string \<Rightarrow> (string \<times> 'a) option \<Rightarrow> (string \<times> 'a) option" where
  "prepend w = map_option (map_prod (append w) id)"

lemma prepend_None [simp]: "prepend w None = None"
  by (simp add: prepend_def)

lemma prepend_Some [simp]: "prepend w (Some (v, t)) = Some (w @ v, t)"
  by (simp add: prepend_def)

definition prepend_text :: "string \<Rightarrow> string option \<Rightarrow> string option" where
  "prepend_text w = map_option (append w)"

lemma prepend_text_None [simp]: "prepend_text w None = None"
  by (simp add: prepend_text_def)

lemma prepend_text_Some [simp]: "prepend_text w (Some v) = Some (w @ v)"
  by (simp add: prepend_text_def)

lemma prepend_text_Nil [simp]: "prepend_text [] x = x"
  by (cases x) auto

lemma prepend_text_prepend_text [simp]: "prepend_text w (prepend_text v x) = prepend_text (w @ v) x"
  by (cases x) auto

lemma prepend_Nil [simp]: "prepend [] x = x"
  by (cases x) auto

lemma prepend_prepend [simp]: "prepend w (prepend v x) = prepend (w @ v) x"
  by (cases x) auto

function css_string_loop :: "string list \<Rightarrow> (string \<times> string list) option" where
  "css_string_loop [] = None"
| "css_string_loop (c # chs) =
     (if c = [quote] then Some ([], chs)
      else if c = [backslash] then
        (case css_escape chs of
           None \<Rightarrow> None
         | Some (d, r) \<Rightarrow> prepend (case d of Some ch \<Rightarrow> ch | None \<Rightarrow> []) (css_string_loop r))
      else prepend c (css_string_loop chs))"
  by pat_completeness auto
termination
  by (relation "measure length") (auto dest: css_escape_shorter)

definition css_string :: "string \<Rightarrow> (string \<times> string) option" where
  "css_string s =
     (if prefix [quote] s then map_option (map_prod id concat) (css_string_loop (utf8_chars (tl s))) else None)"

text \<open>\<^verbatim>\<open>is_alphanumeric() || '-' || '_' || !is_ascii()\<close>\<close>

definition css_name_char :: "string \<Rightarrow> bool" where
  "css_name_char c =
     (case c of [a] \<Rightarrow> is_ascii_alphanumeric a \<or> a \<in> {CHR ''-'', CHR ''_''} \<or> \<not> is_ascii a | _ \<Rightarrow> True)"

function css_ident_loop :: "string list \<Rightarrow> string option" where
  "css_ident_loop [] = Some []"
| "css_ident_loop (c # chs) =
     (if c = [backslash] then
        (case css_escape chs of Some (Some ch, r) \<Rightarrow> prepend_text ch (css_ident_loop r) | _ \<Rightarrow> None)
      else if css_name_char c then prepend_text c (css_ident_loop chs)
      else None)"
  by pat_completeness auto
termination
  by (relation "measure length") (auto dest: css_escape_shorter)

definition css_ident :: "string \<Rightarrow> string option" where
  "css_ident s =
     (case css_ident_loop (utf8_chars s) of Some w \<Rightarrow> if w \<noteq> [] then Some w else None | None \<Rightarrow> None)"

declare css_string_loop.simps [simp del] css_ident_loop.simps [simp del]

section \<open>Classifying a recorded selector\<close>

datatype text_scope = In_Role string | In_Tag string

datatype recorded_selector =
    Test_Id string | Element_Id string | Role string | Has_Text text_scope string | Css

definition has_text_suffix :: "string \<Rightarrow> string option" where
  "has_text_suffix s =
     (case strip_prefix '':has-text('' s of
        None \<Rightarrow> None
      | Some r \<Rightarrow> (case css_string r of
                     Some (t, rest) \<Rightarrow> if rest = '')'' then Some t else None
                   | None \<Rightarrow> None))"

definition tag_char :: "char \<Rightarrow> bool" where
  "tag_char c = (is_ascii_alphanumeric c \<or> c = CHR ''-'')"

definition parse_tag_selector :: "string \<Rightarrow> recorded_selector" where
  "parse_tag_selector selector =
     (let tag = takeWhile tag_char selector
      in if tag \<noteq> []
         then (case has_text_suffix (dropWhile tag_char selector) of
                 Some t \<Rightarrow> Has_Text (In_Tag tag) t
               | None \<Rightarrow> Css)
         else Css)"

definition parse_role_selector :: "string \<Rightarrow> recorded_selector" where
  "parse_role_selector selector =
     (case Option.bind (strip_prefix ''[role='' selector) css_string of
        Some (role, rest) \<Rightarrow>
          (case strip_prefix '']'' rest of
             Some rest \<Rightarrow>
               (if rest = [] then Role role
                else (case has_text_suffix rest of Some t \<Rightarrow> Has_Text (In_Role role) t | None \<Rightarrow> Css))
           | None \<Rightarrow> parse_tag_selector selector)
      | None \<Rightarrow> parse_tag_selector selector)"

definition parse_id_selector :: "string \<Rightarrow> recorded_selector" where
  "parse_id_selector selector =
     (case Option.bind (strip_prefix ''#'' selector) css_ident of
        Some i \<Rightarrow> Element_Id i
      | None \<Rightarrow> parse_role_selector selector)"

definition parse_recorded_selector :: "string \<Rightarrow> recorded_selector" where
  "parse_recorded_selector selector =
     (case Option.bind (strip_prefix ''[data-testid='' selector) css_string of
        Some (i, rest) \<Rightarrow> if rest = '']'' then Test_Id i else parse_id_selector selector
      | None \<Rightarrow> parse_id_selector selector)"

subsection \<open>Decoded texts are texts\<close>

lemma more_digits_suffix: "suffix (snd (more_digits k code chs)) chs"
  by (induction k code chs rule: more_digits.induct) (auto split: option.splits intro: suffix_ConsI)

lemma css_escape_text:
  assumes "css_escape chs = Some (d, r)" "list_all utf8_char chs"
  shows "(\<forall>ch. d = Some ch \<longrightarrow> utf8_char ch) \<and> list_all utf8_char r"
proof (cases chs)
  case (Cons first rest)
  have sub: "list_all utf8_char (snd (more_digits 5 code rest))" for code
    using set_mono_suffix [OF more_digits_suffix [of 5 code rest]] assms(2) Cons by (auto simp: list_all_iff)
  have strip: "list_all utf8_char xs \<Longrightarrow>
      list_all utf8_char (case xs of w # r' \<Rightarrow> if w \<in> {[CHR 0x20], [CHR 0x09], [newline]} then r' else xs | [] \<Rightarrow> xs)"
    for xs by (cases xs) auto
  have "is_scalar replacement_character" by (simp add: is_scalar_def replacement_character_def)
  then have bytes: "utf8_char (char_bytes replacement_character)" by (rule utf8_char_bytes)
  show ?thesis
    using assms Cons sub strip bytes utf8_char_bytes
    by (auto simp: css_escape_def Let_def case_prod_beta split: if_splits option.splits)
qed (use assms in \<open>simp add: css_escape_def\<close>)

lemma css_string_loop_text:
  "css_string_loop chs = Some (v, r) \<Longrightarrow> list_all utf8_char chs \<Longrightarrow> valid_utf8 v \<and> list_all utf8_char r"
proof (induction chs arbitrary: v r rule: css_string_loop.induct)
  case (2 c chs)
  consider "c = [quote]" | "c = [backslash]" | "c \<noteq> [quote]" "c \<noteq> [backslash]" by blast
  then show ?case
  proof cases
    case 1
    then show ?thesis using 2 by (simp add: css_string_loop.simps(2))
  next
    case 3
    then obtain u where "css_string_loop chs = Some (u, r)" "v = c @ u"
      using "2.prems"(1) by (cases "css_string_loop chs") (auto simp: css_string_loop.simps(2))
    then show ?thesis using 2 3 by (simp add: valid_utf8_char)
  next
    case esc: 2
    then obtain d t u where t: "css_escape chs = Some (d, t)" "css_string_loop t = Some (u, r)"
        "v = (case d of Some ch \<Rightarrow> ch | None \<Rightarrow> []) @ u"
      using "2.prems"(1)
      by (cases "css_escape chs") (auto simp: css_string_loop.simps(2) prepend_def split: option.splits)
    have "list_all utf8_char t" "\<And>ch. d = Some ch \<Longrightarrow> utf8_char ch"
      using css_escape_text [OF t(1)] "2.prems"(2) by auto
    moreover from "2.IH"(1) [of "(d, t)" d t u r] esc t this(1) have "valid_utf8 u \<and> list_all utf8_char r" by auto
    ultimately show ?thesis using t(3) by (cases d) (auto simp: valid_utf8_char)
  qed
qed (simp add: css_string_loop.simps)

lemma utf8_chars_list_all: "valid_utf8 s \<Longrightarrow> list_all utf8_char (utf8_chars s)"
  using utf8_chars_of_text by (auto simp: list_all_iff)

lemma css_string_text:
  assumes "css_string s = Some (v, r)" "valid_utf8 s"
  shows "valid_utf8 v \<and> valid_utf8 r"
proof -
  obtain chs where "css_string_loop (utf8_chars (tl s)) = Some (v, chs)" "r = concat chs" "s = quote # tl s"
    using assms(1) by (cases s) (auto simp: css_string_def split: if_splits)
  moreover from this(3) have "valid_utf8 (tl s)" using assms(2) by (metis is_ascii_quote valid_utf8_ascii)
  ultimately show ?thesis
    using css_string_loop_text utf8_chars_list_all valid_utf8_concat_chars [of chs "[]"] by fastforce
qed

lemma css_ident_loop_text:
  "css_ident_loop chs = Some v \<Longrightarrow> list_all utf8_char chs \<Longrightarrow> valid_utf8 v"
proof (induction chs arbitrary: v rule: css_ident_loop.induct)
  case (2 c chs)
  show ?case
  proof (cases "c = [backslash]")
    case True
    then obtain ch t u where t: "css_escape chs = Some (Some ch, t)" "css_ident_loop t = Some u" "v = ch @ u"
      using "2.prems"(1) by (auto simp: css_ident_loop.simps(2) prepend_text_def split: option.splits)
    then show ?thesis
      using css_escape_text [OF t(1)] 2 True by (auto simp: valid_utf8_char)
  next
    case False
    then obtain u where "css_name_char c" "css_ident_loop chs = Some u" "v = c @ u"
      using "2.prems"(1) by (auto simp: css_ident_loop.simps(2) prepend_text_def split: if_splits)
    then show ?thesis using 2 False by (simp add: valid_utf8_char)
  qed
qed (simp add: css_ident_loop.simps)

lemma css_ident_text: "css_ident s = Some v \<Longrightarrow> valid_utf8 s \<Longrightarrow> valid_utf8 v"
  using css_ident_loop_text utf8_chars_list_all by (auto simp: css_ident_def split: option.splits if_splits)

lemma strip_ascii_text:
  "strip_prefix w s = Some r \<Longrightarrow> list_all is_ascii w \<Longrightarrow> valid_utf8 s \<Longrightarrow> valid_utf8 r"
  using valid_utf8_ascii_prefix by (auto simp: strip_prefix_def prefix_def list_all_iff split: if_splits)

fun selector_texts :: "recorded_selector \<Rightarrow> string list" where
  "selector_texts (Test_Id i) = [i]"
| "selector_texts (Element_Id i) = [i]"
| "selector_texts (Role r) = [r]"
| "selector_texts (Has_Text (In_Role r) t) = [r, t]"
| "selector_texts (Has_Text (In_Tag g) t) = [g, t]"
| "selector_texts Css = []"

lemma has_text_suffix_text:
  assumes "has_text_suffix s = Some t" "valid_utf8 s"
  shows "valid_utf8 t"
proof -
  obtain r rest where r: "strip_prefix '':has-text('' s = Some r" "css_string r = Some (t, rest)"
    using assms(1) by (auto simp: has_text_suffix_def split: option.splits if_splits)
  have "list_all is_ascii '':has-text(''" by code_simp
  then have "valid_utf8 r" using strip_ascii_text r(1) assms(2) by blast
  then show ?thesis using css_string_text r(2) by blast
qed

lemma tag_char_ascii: "tag_char c \<Longrightarrow> is_ascii c"
  by (auto simp: tag_char_def is_ascii_alphanumeric_def is_ascii_digit_def is_ascii_def Let_def)

lemma ascii_valid_utf8: "list_all is_ascii w \<Longrightarrow> valid_utf8 w"
  using valid_utf8_ascii_prefix [of w "[]"] by (simp add: list_all_iff)

lemma tag_selector_texts:
  assumes "valid_utf8 s"
  shows "list_all valid_utf8 (selector_texts (parse_tag_selector s))"
proof -
  let ?tag = "takeWhile tag_char s"
  have tag: "list_all is_ascii ?tag" using tag_char_ascii by (auto simp: list_all_iff dest: set_takeWhileD)
  have "?tag @ dropWhile tag_char s = s" by simp
  then have "valid_utf8 (dropWhile tag_char s)"
    using assms valid_utf8_ascii_prefix [of ?tag] tag by (metis list_all_iff)
  then show ?thesis
    using has_text_suffix_text tag ascii_valid_utf8
    by (auto simp: parse_tag_selector_def Let_def split: option.splits)
qed

lemma role_selector_texts:
  assumes "valid_utf8 s"
  shows "list_all valid_utf8 (selector_texts (parse_role_selector s))"
proof (cases "Option.bind (strip_prefix ''[role='' s) css_string")
  case None
  then show ?thesis using tag_selector_texts [OF assms] by (simp add: parse_role_selector_def)
next
  case (Some p)
  obtain role rest where p: "p = (role, rest)" by (cases p)
  obtain r where r: "strip_prefix ''[role='' s = Some r" "css_string r = Some (role, rest)"
    using Some p by (auto simp: bind_eq_Some_conv)
  have "list_all is_ascii ''[role=''" "list_all is_ascii '']''" by code_simp+
  then have v: "valid_utf8 role" "valid_utf8 rest" and s: "strip_prefix '']'' rest = Some x \<Longrightarrow> valid_utf8 x" for x
    using css_string_text [OF r(2)] strip_ascii_text [OF r(1)] strip_ascii_text [of "'']''" rest x] assms by auto
  show ?thesis
    using Some p v s has_text_suffix_text tag_selector_texts [OF assms]
    by (auto simp: parse_role_selector_def split: option.splits)
qed

lemma id_selector_texts:
  assumes "valid_utf8 s"
  shows "list_all valid_utf8 (selector_texts (parse_id_selector s))"
proof -
  have "list_all is_ascii ''#''" by code_simp
  then have "Option.bind (strip_prefix ''#'' s) css_ident = Some i \<Longrightarrow> valid_utf8 i" for i
    using css_ident_text strip_ascii_text assms by (auto simp: bind_eq_Some_conv)
  then show ?thesis
    using role_selector_texts [OF assms] by (auto simp: parse_id_selector_def split: option.splits)
qed

lemma recorded_selector_texts:
  assumes "valid_utf8 s"
  shows "list_all valid_utf8 (selector_texts (parse_recorded_selector s))"
proof -
  have "list_all is_ascii ''[data-testid=''" by code_simp
  then have "Option.bind (strip_prefix ''[data-testid='' s) css_string = Some (i, r) \<Longrightarrow> valid_utf8 i" for i r
    using css_string_text strip_ascii_text assms by (auto simp: bind_eq_Some_conv)
  then show ?thesis
    using id_selector_texts [OF assms] by (auto simp: parse_recorded_selector_def split: option.splits)
qed

section \<open>JavaScript strings\<close>

text \<open>An ASCII literal of the bridge as code units.\<close>

definition js :: "string \<Rightarrow> nat list" where
  "js w = map of_char w"

text \<open>
  The code points of a string.  \<^verbatim>\<open>JSON.stringify\<close> sends a string whose surrogates are all paired as the
  UTF-8 of these; a lone surrogate is kept as it is here and makes the string ill-formed.
\<close>

fun utf16_decode :: "nat list \<Rightarrow> nat list" where
  "utf16_decode (u # v # r) =
     (if 0xD800 \<le> u \<and> u \<le> 0xDBFF \<and> 0xDC00 \<le> v \<and> v \<le> 0xDFFF
      then (0x10000 + (u - 0xD800) * 1024 + (v - 0xDC00)) # utf16_decode r
      else u # utf16_decode (v # r))"
| "utf16_decode [u] = [u]"
| "utf16_decode [] = []"

definition well_formed_utf16 :: "nat list \<Rightarrow> bool" where
  "well_formed_utf16 s = (list_all (\<lambda>u. u < 0x10000) s \<and> list_all is_scalar (utf16_decode s))"

definition to_utf8 :: "nat list \<Rightarrow> string" where
  "to_utf8 s = utf8_of (utf16_decode s)"

lemma utf16_decode_char:
  assumes "is_scalar n"
  shows "utf16_decode (utf16_units n @ r) = n # utf16_decode r"
proof (cases "n < 0x10000")
  case True
  then show ?thesis using assms by (cases r) (auto simp: utf16_units_def is_scalar_def)
next
  case False
  define m where "m = n - 0x10000"
  have n: "n = 0x10000 + m" and m: "m < 1024 * 1024"
    using False assms by (auto simp: m_def is_scalar_def)
  have "m div 1024 < 1024" using m by linarith
  moreover have "m mod 1024 < 1024" by simp
  moreover have "m div 1024 * 1024 + m mod 1024 = m" by (rule div_mult_mod_eq)
  ultimately show ?thesis by (simp add: utf16_units_def n)
qed

lemma utf16_decode_of: "list_all is_scalar cps \<Longrightarrow> utf16_decode (utf16_of cps @ r) = cps @ utf16_decode r"
  by (induction cps) (simp_all add: utf16_decode_char)

lemma utf16_decode_of' [simp]: "list_all is_scalar cps \<Longrightarrow> utf16_decode (utf16_of cps) = cps"
  using utf16_decode_of [of cps "[]"] by simp

lemma utf16_units_bound: "is_scalar n \<Longrightarrow> list_all (\<lambda>u. u < 0x10000) (utf16_units n)"
  by (auto simp: utf16_units_def is_scalar_def)

lemma utf16_of_bound: "list_all is_scalar cps \<Longrightarrow> list_all (\<lambda>u. u < 0x10000) (utf16_of cps)"
  using utf16_units_bound by (induction cps) auto

lemma well_formed_of: "list_all is_scalar cps \<Longrightarrow> well_formed_utf16 (utf16_of cps)"
  by (simp add: well_formed_utf16_def utf16_of_bound)

text \<open>Every well-formed string is the encoding of its code points.\<close>

lemma utf16_of_decode: "list_all (\<lambda>u. u < 0x10000) s \<Longrightarrow> utf16_of (utf16_decode s) = s"
proof (induction s rule: utf16_decode.induct)
  case (1 u v r)
  show ?case
  proof (cases "0xD800 \<le> u \<and> u \<le> 0xDBFF \<and> 0xDC00 \<le> v \<and> v \<le> 0xDFFF")
    case True
    define p q where "p = u - 0xD800" "q = v - 0xDC00"
    then have "u = 0xD800 + p" "v = 0xDC00 + q" "p < 1024" "q < 1024" using True by auto
    then show ?thesis using True 1 by (simp add: utf16_units_def)
  next
    case False
    have "utf16_decode (u # v # r) = u # utf16_decode (v # r)"
      by (simp only: utf16_decode.simps False if_False)
    then show ?thesis using 1(2) [OF False] 1(3) by (simp add: utf16_units_def)
  qed
qed (simp_all add: utf16_units_def)

lemma well_formed_cases:
  assumes "well_formed_utf16 s"
  obtains cps where "s = utf16_of cps" "list_all is_scalar cps"
proof
  show "s = utf16_of (utf16_decode s)"
    using assms by (simp add: well_formed_utf16_def utf16_of_decode)
qed (use assms in \<open>simp add: well_formed_utf16_def\<close>)

lemma to_utf8_of: "list_all is_scalar cps \<Longrightarrow> to_utf8 (utf16_of cps @ r) = utf8_of cps @ to_utf8 r"
  by (simp add: to_utf8_def utf16_decode_of)

lemma to_utf8_of' [simp]: "list_all is_scalar cps \<Longrightarrow> to_utf8 (utf16_of cps) = utf8_of cps"
  by (simp add: to_utf8_def)

lemma js_utf16: "list_all is_ascii w \<Longrightarrow> js w = utf16_of (js w)"
  by (induction w) (simp_all add: js_def utf16_units_def is_ascii_def)

lemma js_utf8: "list_all is_ascii w \<Longrightarrow> utf8_of (js w) = w"
  by (induction w) (simp_all add: js_def is_ascii_def)

lemma js_scalar: "list_all is_ascii w \<Longrightarrow> list_all is_scalar (js w)"
  by (induction w) (simp_all add: js_def is_scalar_def is_ascii_def)

lemma to_utf8_js: "list_all is_ascii w \<Longrightarrow> to_utf8 (js w @ r) = w @ to_utf8 r"
  using to_utf8_of [OF js_scalar, of w r] js_utf16 [of w] js_utf8 [of w] by simp

section \<open>The bridge's escaping\<close>

definition hex_escape :: "nat \<Rightarrow> nat list" where
  "hex_escape code = 0x5C # js (hex code) @ [0x20]"

definition js_css_string :: "nat list \<Rightarrow> nat list" where
  "js_css_string s =
     concat (map (\<lambda>c. if c < 0x20 \<or> c = 0x7F \<or> c = 0x2028 \<or> c = 0x2029 then hex_escape c
                     else if c = 0x5C then [0x5C, 0x5C]
                     else if c = 0x22 then [0x5C, 0x22]
                     else [c]) s)"

text \<open>One iteration of \<^verbatim>\<open>cssIdent\<close>, at index \<open>i\<close> of a string of length \<open>len\<close> that starts with \<open>first\<close>.\<close>

definition css_ident_unit :: "nat \<Rightarrow> nat \<Rightarrow> nat \<Rightarrow> nat \<Rightarrow> nat list" where
  "css_ident_unit first len i c =
     (if c = 0 then [0xFFFD]
      else if 1 \<le> c \<and> c \<le> 0x1F \<or> c = 0x7F \<or> i = 0 \<and> 0x30 \<le> c \<and> c \<le> 0x39
           \<or> i = 1 \<and> 0x30 \<le> c \<and> c \<le> 0x39 \<and> first = 0x2D then hex_escape c
      else if i = 0 \<and> c = 0x2D \<and> len = 1 then [0x5C, 0x2D]
      else if 0x80 \<le> c \<or> c = 0x2D \<or> c = 0x5F \<or> 0x30 \<le> c \<and> c \<le> 0x39
           \<or> 0x41 \<le> c \<and> c \<le> 0x5A \<or> 0x61 \<le> c \<and> c \<le> 0x7A then [c]
      else [0x5C, c])"

fun css_ident_from :: "nat \<Rightarrow> nat \<Rightarrow> nat \<Rightarrow> nat list \<Rightarrow> nat list" where
  "css_ident_from first len i [] = []"
| "css_ident_from first len i (c # s) = css_ident_unit first len i c @ css_ident_from first len (i + 1) s"

definition js_css_ident :: "nat list \<Rightarrow> nat list" where
  "js_css_ident s = css_ident_from (hd s) (length s) 0 s"

text \<open>
  What a string is after the round trip: CSS has no way to write U+0000, and both sides put the
  replacement character in its place.
\<close>

definition css_text :: "nat list \<Rightarrow> nat list" where
  "css_text cps = map (\<lambda>n. if n = 0 then replacement_character else n) cps"

section \<open>The round trip of an escaped text\<close>

lemma char_bytes_specials [simp]:
  "char_bytes 0x5C = [backslash]" "char_bytes 0x22 = [quote]" "char_bytes 0x20 = [CHR 0x20]"
  "char_bytes 0x2D = [CHR ''-'']"
  by code_simp+

lemma char_digit_hex: "is_hex c \<Longrightarrow> char_digit [c] = Some (the (to_digit_16 c))"
  by (auto simp: char_digit_def is_hex_def)

lemma more_digits_hex:
  "list_all is_hex w \<Longrightarrow> length w \<le> k \<Longrightarrow>
   more_digits k v (map (\<lambda>c. [c]) w @ [CHR 0x20] # r) =
     (foldl (\<lambda>v c. 16 * v + the (to_digit_16 c)) v w, [CHR 0x20] # r)"
proof (induction w arbitrary: k v)
  case Nil
  then show ?case by (cases k) (simp_all add: char_digit_def to_digit_16_def)
next
  case (Cons c w)
  then obtain j where "k = Suc j" by (cases k) auto
  with Cons show ?case by (simp add: char_digit_hex mult.commute)
qed

lemma css_escape_hex:
  assumes "is_scalar n"
  shows "css_escape (map (\<lambda>c. [c]) (hex n) @ [CHR 0x20] # r) =
         Some (Some (char_bytes (if n = 0 then replacement_character else n)), r)"
proof -
  obtain d w where h: "hex n = d # w" using hex_neq_Nil [of n] by (cases "hex n") auto
  have hx: "is_hex d" "list_all is_hex w"
    using hex_digits [of n] h by (simp_all add: list_all_iff)
  have "n < 16 ^ 6" using assms by (auto simp: is_scalar_def)
  then have len: "length w \<le> 5" using length_hex [of n 6] h by simp
  have v: "foldl (\<lambda>v c. 16 * v + the (to_digit_16 c)) (the (to_digit_16 d)) w = n"
    using hex_value_hex [of n] h by (simp add: hex_value_def)
  have "d \<noteq> newline" using hx(1) by (auto simp: is_hex_def to_digit_16_def)
  then show ?thesis
    using more_digits_hex [OF hx(2) len, of "the (to_digit_16 d)" r] assms hx(1) v h
    by (simp add: css_escape_def char_digit_hex)
qed

lemma map_single_js: "map char_bytes (js w) = map (\<lambda>c. [c]) w" if "list_all is_ascii w"
  using that by (induction w) (simp_all add: js_def is_ascii_def)

lemma hex_ascii: "list_all is_ascii (hex n)"
  using hex_digits is_hex_ascii by (auto simp: list_all_iff)

lemma map_hex_escape:
  "map char_bytes (hex_escape n) = [backslash] # map (\<lambda>c. [c]) (hex n) @ [[CHR 0x20]]"
  by (simp add: hex_escape_def map_single_js [OF hex_ascii])

lemma hex_escape_units: "list_all is_scalar (hex_escape n)" "hex_escape n = utf16_of (hex_escape n)"
proof -
  have "js (hex n) = utf16_of (js (hex n))" by (rule js_utf16 [OF hex_ascii])
  then show "hex_escape n = utf16_of (hex_escape n)" by (simp add: hex_escape_def utf16_units_def)
  show "list_all is_scalar (hex_escape n)"
    using js_scalar [OF hex_ascii] by (simp add: hex_escape_def is_scalar_def)
qed

text \<open>
  \<open>out\<close> writes the code points \<open>cps\<close>: it is what the escaped characters are, and each decoder reads
  it as the text of \<open>cps\<close>, whatever follows.
\<close>

definition string_writes :: "nat list \<Rightarrow> nat list \<Rightarrow> bool" where
  "string_writes out cps =
     (list_all is_scalar out \<and>
      (\<forall>r. css_string_loop (map char_bytes out @ r) =
           prepend (utf8_of (css_text cps)) (css_string_loop r)))"

lemma string_writes_append:
  "string_writes out cps \<Longrightarrow> string_writes out' cps' \<Longrightarrow> string_writes (out @ out') (cps @ cps')"
  by (simp add: string_writes_def css_text_def)

lemma string_writes_Nil: "string_writes [] []"
  by (simp add: string_writes_def css_text_def)

lemma string_writes_plain:
  assumes "is_scalar n" "n \<notin> {0, 0x22, 0x5C}"
  shows "string_writes [n] [n]"
proof -
  have "char_bytes n \<noteq> [quote]" "char_bytes n \<noteq> [backslash]"
    using code_point_bytes [OF assms(1)] assms(2) by auto
  then show ?thesis
    using assms by (simp add: string_writes_def css_text_def css_string_loop.simps(2))
qed

lemma string_writes_hex:
  assumes "is_scalar n"
  shows "string_writes (hex_escape n) [n]"
  unfolding string_writes_def
  using assms
  by (simp add: hex_escape_units(1) map_hex_escape css_string_loop.simps(2) css_escape_hex css_text_def)

lemma string_writes_backslash:
  assumes "n \<in> {0x22, 0x5C}"
  shows "string_writes [0x5C, n] [n]"
  using assms
  by (auto simp: string_writes_def is_scalar_def css_string_loop.simps(2) css_escape_def char_digit_def
      to_digit_16_def css_text_def)

lemma js_css_string_writes:
  "list_all is_scalar cps \<Longrightarrow>
   \<exists>out. js_css_string (utf16_of cps) = utf16_of out \<and> string_writes out cps"
proof (induction cps)
  case Nil
  show ?case by (rule exI [of _ "[]"]) (simp add: js_css_string_def string_writes_Nil)
next
  case (Cons n cps)
  then obtain out where out: "js_css_string (utf16_of cps) = utf16_of out" "string_writes out cps" by auto
  have n: "is_scalar n" using Cons.prems by simp
  consider "n < 0x20 \<or> n = 0x7F \<or> n = 0x2028 \<or> n = 0x2029" | "n \<in> {0x22, 0x5C}"
    | "\<not> (n < 0x20 \<or> n = 0x7F \<or> n = 0x2028 \<or> n = 0x2029)" "n \<notin> {0x22, 0x5C}" by blast
  then obtain w where w: "js_css_string (utf16_units n) = utf16_of w" "string_writes w [n]"
  proof cases
    case 1
    then have "js_css_string (utf16_units n) = hex_escape n" by (auto simp: js_css_string_def utf16_units_def)
    then show thesis using that [of "hex_escape n"] hex_escape_units(2) [of n] string_writes_hex [OF n] by simp
  next
    case 2
    then have "js_css_string (utf16_units n) = utf16_of [0x5C, n]"
      by (auto simp: js_css_string_def utf16_units_def)
    then show thesis using that string_writes_backslash [OF 2] by blast
  next
    case 3
    then have "js_css_string (utf16_units n) = utf16_units n"
      by (auto simp: js_css_string_def utf16_units_def)
    moreover have "string_writes [n] [n]" using 3 n by (intro string_writes_plain) auto
    ultimately show thesis using that [of "[n]"] by simp
  qed
  have "js_css_string (utf16_of (n # cps)) = utf16_of (w @ out)"
    using w(1) out(1) by (simp add: js_css_string_def)
  moreover have "string_writes (w @ out) (n # cps)" using string_writes_append [OF w(2) out(2)] by simp
  ultimately show ?case by blast
qed

definition ident_writes :: "nat list \<Rightarrow> nat list \<Rightarrow> bool" where
  "ident_writes out cps =
     (list_all is_scalar out \<and>
      (\<forall>r. css_ident_loop (map char_bytes out @ r) =
           prepend_text (utf8_of (css_text cps)) (css_ident_loop r)))"

lemma ident_writes_append:
  "ident_writes out cps \<Longrightarrow> ident_writes out' cps' \<Longrightarrow> ident_writes (out @ out') (cps @ cps')"
  by (simp add: ident_writes_def css_text_def)

lemma ident_writes_Nil: "ident_writes [] []"
  by (simp add: ident_writes_def css_text_def)

lemma ident_writes_literal:
  assumes "is_scalar n" "n \<noteq> 0"
    "0x80 \<le> n \<or> n = 0x2D \<or> n = 0x5F \<or> 0x30 \<le> n \<and> n \<le> 0x39 \<or> 0x41 \<le> n \<and> n \<le> 0x5A \<or> 0x61 \<le> n \<and> n \<le> 0x7A"
  shows "ident_writes [n] [n]"
proof -
  have neq: "char_bytes n \<noteq> [backslash]"
    using code_point_bytes [OF assms(1)] assms(3) by auto
  have "css_name_char (char_bytes n)"
  proof (cases "n < 0x80")
    case True
    have "char_of (0x2D :: nat) = CHR ''-''" "char_of (0x5F :: nat) = CHR ''_''" by code_simp+
    then show ?thesis
      using True assms(3)
      by (auto simp: css_name_char_def is_ascii_alphanumeric_def is_ascii_digit_def Let_def)
  next
    case False
    then have "length (char_bytes n) \<noteq> 1" by (auto simp: char_bytes_def)
    then show ?thesis by (auto simp: css_name_char_def split: list.splits)
  qed
  then show ?thesis
    using assms(1,2) neq by (simp add: ident_writes_def css_text_def css_ident_loop.simps(2))
qed

lemma ident_writes_hex:
  assumes "is_scalar n"
  shows "ident_writes (hex_escape n) [n]"
  unfolding ident_writes_def
  using assms
  by (simp add: hex_escape_units(1) map_hex_escape css_ident_loop.simps(2) css_escape_hex css_text_def)

lemma ident_writes_nul: "ident_writes [0xFFFD] [0]"
  using ident_writes_literal [of "0xFFFD"]
  by (simp add: ident_writes_def css_text_def replacement_character_def is_scalar_def)

lemma ident_writes_backslash:
  assumes "n < 0x80" "n \<noteq> 0x0A" "n \<noteq> 0"
    "\<not> (0x30 \<le> n \<and> n \<le> 0x39 \<or> 0x41 \<le> n \<and> n \<le> 0x5A \<or> 0x61 \<le> n \<and> n \<le> 0x7A)"
  shows "ident_writes [0x5C, n] [n]"
proof -
  have "char_of n \<noteq> newline"
  proof
    assume "char_of n = newline"
    then have "of_char (char_of n :: char) = (10 :: nat)" by simp
    then show False using assms(1,2) by simp
  qed
  moreover have "char_digit [char_of n] = None"
    using assms by (auto simp: char_digit_def to_digit_16_def Let_def)
  ultimately show ?thesis
    using assms by (simp add: ident_writes_def is_scalar_def css_ident_loop.simps(2) css_escape_def css_text_def)
qed

lemma css_ident_unit_writes:
  assumes "is_scalar n" "n < 0x10000"
  shows "ident_writes (css_ident_unit first len i n) [n]"
proof -
  let ?hexed = "1 \<le> n \<and> n \<le> 0x1F \<or> n = 0x7F \<or> i = 0 \<and> 0x30 \<le> n \<and> n \<le> 0x39
           \<or> i = 1 \<and> 0x30 \<le> n \<and> n \<le> 0x39 \<and> first = 0x2D"
  let ?name = "0x80 \<le> n \<or> n = 0x2D \<or> n = 0x5F \<or> 0x30 \<le> n \<and> n \<le> 0x39
           \<or> 0x41 \<le> n \<and> n \<le> 0x5A \<or> 0x61 \<le> n \<and> n \<le> 0x7A"
  consider (nul) "n = 0" | (dash) "n = 0x2D" | (hx) "n \<noteq> 0" ?hexed
    | (lit) "n \<noteq> 0" "\<not> ?hexed" "n \<noteq> 0x2D" ?name | (esc) "n \<noteq> 0" "\<not> ?hexed" "n \<noteq> 0x2D" "\<not> ?name"
    by blast
  then show ?thesis
  proof cases
    case nul
    then show ?thesis using ident_writes_nul by (simp add: css_ident_unit_def)
  next
    case dash
    then show ?thesis
      using ident_writes_literal [OF assms(1)] ident_writes_backslash [of n] by (auto simp: css_ident_unit_def)
  next
    case hx
    then have "css_ident_unit first len i n = hex_escape n"
      unfolding css_ident_unit_def by (simp only: if_False if_True)
    then show ?thesis using ident_writes_hex [OF assms(1)] by simp
  next
    case lit
    then have "css_ident_unit first len i n = [n]"
      unfolding css_ident_unit_def by (simp only: if_False if_True simp_thms)
    then show ?thesis using ident_writes_literal [OF assms(1) lit(1) lit(4)] by simp
  next
    case esc
    then have "css_ident_unit first len i n = [0x5C, n]"
      unfolding css_ident_unit_def by (simp only: if_False if_True simp_thms)
    moreover have "n < 0x80" "n \<noteq> 0x0A" using esc by auto
    ultimately show ?thesis using ident_writes_backslash [of n] esc by simp
  qed
qed

lemma css_ident_unit_units: "is_scalar n \<Longrightarrow> n < 0x10000 \<Longrightarrow>
    utf16_of (css_ident_unit first len i n) = css_ident_unit first len i n"
  by (auto simp: css_ident_unit_def utf16_units_def hex_escape_units(2) [symmetric])

lemma css_ident_from_append:
  "css_ident_from first len i (s @ t) = css_ident_from first len i s @ css_ident_from first len (i + length s) t"
  by (induction s arbitrary: i) simp_all

lemma js_css_ident_writes:
  "list_all is_scalar cps \<Longrightarrow>
   \<exists>out. css_ident_from first len i (utf16_of cps) = utf16_of out \<and> ident_writes out cps"
proof (induction cps arbitrary: i)
  case Nil
  show ?case by (rule exI [of _ "[]"]) (simp add: ident_writes_Nil)
next
  case (Cons n cps)
  have n: "is_scalar n" using Cons.prems by simp
  obtain w where w: "css_ident_from first len i (utf16_units n) = utf16_of w" "ident_writes w [n]"
  proof (cases "n < 0x10000")
    case True
    then have "css_ident_from first len i (utf16_units n) = css_ident_unit first len i n"
      by (simp add: utf16_units_def)
    then show thesis
      using that css_ident_unit_units [OF n True] css_ident_unit_writes [OF n True] by metis
  next
    case False
    then have "css_ident_from first len i (utf16_units n) = utf16_units n"
      by (auto simp: utf16_units_def css_ident_unit_def)
    moreover have "ident_writes [n] [n]" using False n by (intro ident_writes_literal) auto
    ultimately show thesis using that [of "[n]"] by simp
  qed
  obtain out where out: "css_ident_from first len (i + length (utf16_units n)) (utf16_of cps) = utf16_of out"
      "ident_writes out cps"
    using Cons by fastforce
  have "css_ident_from first len i (utf16_of (n # cps)) = utf16_of (w @ out)"
    using w(1) out(1) by (simp add: css_ident_from_append)
  moreover have "ident_writes (w @ out) (n # cps)" using ident_writes_append [OF w(2) out(2)] by simp
  ultimately show ?case by blast
qed

section \<open>Bounded text\<close>

text \<open>\<^verbatim>\<open>truncText\<close>: at most \<open>n\<close> code units, never half a surrogate pair.\<close>

definition is_low_surrogate :: "nat \<Rightarrow> bool" where
  "is_low_surrogate u = (0xDC00 \<le> u \<and> u \<le> 0xDFFF)"

definition is_high_surrogate :: "nat \<Rightarrow> bool" where
  "is_high_surrogate u = (0xD800 \<le> u \<and> u \<le> 0xDBFF)"

definition truncText :: "nat list \<Rightarrow> nat \<Rightarrow> nat list" where
  "truncText s n =
     (let start = (if s \<noteq> [] \<and> is_low_surrogate (hd s) then 1 else 0)
      in if length s - start \<le> n then drop start s
         else let fin = start + n;
                  fin = (if 0 < fin \<and> is_high_surrogate (s ! (fin - 1)) then fin - 1 else fin)
              in take (fin - start) (drop start s))"

lemma length_truncText: "length (truncText s n) \<le> n"
  by (auto simp: truncText_def Let_def)

lemma hd_utf16_units: "is_scalar n \<Longrightarrow> \<not> is_low_surrogate (hd (utf16_units n @ r))"
  by (auto simp: utf16_units_def is_low_surrogate_def is_scalar_def)

lemma scalar_no_surrogate: "is_scalar n \<Longrightarrow> \<not> is_high_surrogate n \<and> \<not> is_low_surrogate n"
  by (auto simp: is_scalar_def is_high_surrogate_def is_low_surrogate_def)

text \<open>Where a cut after \<open>m\<close> units falls: after a whole character, or in the middle of a pair.\<close>

lemma utf16_cut:
  "list_all is_scalar cps \<Longrightarrow> m \<le> length (utf16_of cps) \<Longrightarrow>
   (\<exists>k. take m (utf16_of cps) = utf16_of (take k cps) \<and> (0 < m \<longrightarrow> \<not> is_high_surrogate (utf16_of cps ! (m - 1)))) \<or>
   (\<exists>k. 0 < m \<and> take (m - 1) (utf16_of cps) = utf16_of (take k cps) \<and> is_high_surrogate (utf16_of cps ! (m - 1)))"
proof (induction cps arbitrary: m)
  case Nil
  then show ?case by simp
next
  case (Cons n cps)
  have n: "is_scalar n" using Cons.prems by simp
  have len: "length (utf16_units n) = (if n < 0x10000 then 1 else 2)" by (simp add: utf16_units_def)
  consider "m = 0" | "0 < m" "length (utf16_units n) \<le> m" | "m = 1" "length (utf16_units n) = 2"
    using len by (cases "m = 0"; cases "m = 1"; auto split: if_splits)
  then show ?case
  proof cases
    case 1
    then show ?thesis by (intro disjI1 exI [of _ 0]) simp
  next
    case 3
    then have "is_high_surrogate (hd (utf16_units n))"
      using n len by (auto simp: utf16_units_def is_high_surrogate_def is_scalar_def split: if_splits)
    then show ?thesis
      using 3 by (intro disjI2 exI [of _ 0]) (cases "utf16_units n"; simp)
  next
    case 2
    define m' where "m' = m - length (utf16_units n)"
    have m: "m = length (utf16_units n) + m'" "m' \<le> length (utf16_of cps)"
      using 2 Cons.prems by (simp_all add: m'_def)
    show ?thesis
    proof (cases "m' = 0")
      case True
      have "\<not> is_high_surrogate (last (utf16_units n))"
        using n by (auto simp: utf16_units_def is_high_surrogate_def is_scalar_def)
      moreover have "utf16_units n \<noteq> []" by (simp add: utf16_units_def)
      ultimately show ?thesis
        using True m by (intro disjI1 exI [of _ 1]) (simp add: nth_append last_conv_nth)
    next
      case False
      have sub: "m - 1 = length (utf16_units n) + (m' - 1)" using False m(1) by simp
      have nth: "utf16_of (n # cps) ! (m - 1) = utf16_of cps ! (m' - 1)"
        unfolding sub by (simp only: utf16_of_simps nth_append_length_plus)
      have cps: "list_all is_scalar cps" using Cons.prems by simp
      from Cons.IH [OF cps m(2)] show ?thesis
      proof (elim disjE exE conjE)
        fix k assume "take m' (utf16_of cps) = utf16_of (take k cps)"
          "0 < m' \<longrightarrow> \<not> is_high_surrogate (utf16_of cps ! (m' - 1))"
        then show ?thesis using False nth by (intro disjI1 exI [of _ "Suc k"]) (simp add: m(1))
      next
        fix k assume "take (m' - 1) (utf16_of cps) = utf16_of (take k cps)"
          "is_high_surrogate (utf16_of cps ! (m' - 1))"
        then show ?thesis using nth 2(1) sub by (intro disjI2 exI [of _ "Suc k"]) simp
      qed
    qed
  qed
qed

lemma truncText_of:
  assumes "list_all is_scalar cps"
  shows "\<exists>k. truncText (utf16_of cps) n = utf16_of (take k cps)"
proof -
  have start: "\<not> (utf16_of cps \<noteq> [] \<and> is_low_surrogate (hd (utf16_of cps)))"
    using assms hd_utf16_units by (cases cps) auto
  show ?thesis
  proof (cases "length (utf16_of cps) \<le> n")
    case True
    then show ?thesis using start by (intro exI [of _ "length cps"]) (auto simp: truncText_def)
  next
    case False
    then have "truncText (utf16_of cps) n =
        take (if 0 < n \<and> is_high_surrogate (utf16_of cps ! (n - 1)) then n - 1 else n) (utf16_of cps)"
      unfolding truncText_def by (simp only: start if_False Let_def diff_zero drop_0 add_0)
    then show ?thesis using utf16_cut [OF assms, of n] False by auto
  qed
qed

section \<open>The selector of an element\<close>

text \<open>\<^verbatim>\<open>String.prototype.trim\<close> and \<^verbatim>\<open>\\s\<close>: the white space of ECMAScript.\<close>

definition js_space :: "nat \<Rightarrow> bool" where
  "js_space u =
     (0x09 \<le> u \<and> u \<le> 0x0D \<or> 0x2000 \<le> u \<and> u \<le> 0x200A \<or>
      u \<in> {0x20, 0xA0, 0x1680, 0x2028, 0x2029, 0x202F, 0x205F, 0x3000, 0xFEFF})"

definition js_trim :: "nat list \<Rightarrow> nat list" where
  "js_trim s = rev (dropWhile js_space (rev (dropWhile js_space s)))"

text \<open>\<^verbatim>\<open>trim().split(/\\s+/)\<close>, without the one empty piece it gives for a blank text.\<close>

function js_words :: "nat list \<Rightarrow> nat list list" where
  "js_words s =
     (let t = dropWhile js_space s in
      if t = [] then [] else takeWhile (\<lambda>u. \<not> js_space u) t # js_words (dropWhile (\<lambda>u. \<not> js_space u) t))"
  by pat_completeness auto
termination
proof (relation "measure length")
  fix s x assume x: "x = dropWhile js_space s" "x \<noteq> []"
  then have "\<not> js_space (hd x)" using hd_dropWhile by blast
  then have "length (dropWhile (\<lambda>u. \<not> js_space u) x) < length x"
    using x(2) by (cases x) (simp_all add: less_Suc_eq_le length_dropWhile_le)
  also have "length x \<le> length s" using x(1) by (simp add: length_dropWhile_le)
  finally show "(dropWhile (\<lambda>u. \<not> js_space u) x, s) \<in> measure length" by simp
qed simp

declare js_words.simps [simp del]

text \<open>
  What \<^verbatim>\<open>bestSelector\<close> reads of an element; an attribute that is absent (or not a string) and an empty
  one are the same to it.
\<close>

record js_element =
  el_test_id :: "nat list"
  el_id :: "nat list"
  el_role :: "nat list"
  el_text_content :: "nat list"
  el_tag_name :: "nat list"
  el_name :: "nat list"
  el_class_name :: "nat list"

definition text_tags :: "nat list list" where
  "text_tags = map js [''button'', ''a'', ''label'', ''h1'', ''h2'', ''h3'', ''h4'', ''h5'', ''h6'', ''span'']"

text \<open>\<open>lower\<close> is \<^verbatim>\<open>String.prototype.toLowerCase\<close>.\<close>

definition element_tag :: "(nat list \<Rightarrow> nat list) \<Rightarrow> js_element \<Rightarrow> nat list" where
  "element_tag lower el = lower (if el_tag_name el = [] then js ''div'' else el_tag_name el)"

definition element_text :: "js_element \<Rightarrow> nat list" where
  "element_text el = truncText (js_trim (el_text_content el)) 50"

fun join_units :: "nat list \<Rightarrow> nat list list \<Rightarrow> nat list" where
  "join_units sep [] = []"
| "join_units sep [w] = w"
| "join_units sep (w # ws) = w @ sep @ join_units sep ws"

definition bestSelector :: "(nat list \<Rightarrow> nat list) \<Rightarrow> js_element \<Rightarrow> nat list" where
  "bestSelector lower el =
     (if el_test_id el \<noteq> [] then
        js ''[data-testid='' @ js [quote] @ js_css_string (el_test_id el) @ js (quote # '']'')
      else if el_id el \<noteq> [] then js ''#'' @ js_css_ident (el_id el)
      else if el_role el \<noteq> [] then
        (let t = element_text el in
         if t \<noteq> []
         then js ''[role='' @ js [quote] @ js_css_string (el_role el) @ js (quote # '']:has-text('' @ [quote]) @
              js_css_string t @ js (quote # '')'')
         else js ''[role='' @ js [quote] @ js_css_string (el_role el) @ js (quote # '']''))
      else
        (let tag = element_tag lower el; t = element_text el in
         if t \<noteq> [] \<and> tag \<in> set text_tags
         then tag @ js ('':has-text('' @ [quote]) @ js_css_string t @ js (quote # '')'')
         else if el_name el \<noteq> []
         then tag @ js (''[name='' @ [quote]) @ js_css_string (el_name el) @ js (quote # '']'')
         else
           (let classes = take 2 (js_words (el_class_name el)) in
            if classes \<noteq> [] then tag @ js ''.'' @ join_units (js ''.'') (map js_css_ident classes) else tag)))"

section \<open>The generator reads what the bridge wrote\<close>

lemma no_space_pair:
  assumes "is_scalar n" "\<not> n < 0x10000"
  shows "\<not> js_space (0xD800 + (n - 0x10000) div 1024)" "\<not> js_space (0xDC00 + (n - 0x10000) mod 1024)"
proof -
  have "(n - 0x10000) div 1024 < 1024" using assms by (auto simp: is_scalar_def)
  then show "\<not> js_space (0xD800 + (n - 0x10000) div 1024)" by (auto simp: js_space_def)
  have "(n - 0x10000) mod 1024 < 1024" by simp
  then show "\<not> js_space (0xDC00 + (n - 0x10000) mod 1024)" by (auto simp: js_space_def)
qed

lemma drop_space_of:
  "list_all is_scalar cps \<Longrightarrow> \<exists>k. dropWhile js_space (utf16_of cps) = utf16_of (drop k cps)"
proof (induction cps)
  case (Cons n cps)
  then obtain k where k: "dropWhile js_space (utf16_of cps) = utf16_of (drop k cps)" by auto
  show ?case
  proof (cases "n < 0x10000 \<and> js_space n")
    case True
    then show ?thesis using k by (intro exI [of _ "Suc k"]) (simp add: utf16_units_def)
  next
    case False
    then have "\<not> js_space (hd (utf16_units n))" "utf16_units n \<noteq> []"
      using Cons.prems no_space_pair [of n] by (auto simp: utf16_units_def)
    then show ?thesis by (intro exI [of _ 0]) (cases "utf16_units n"; simp)
  qed
qed simp

lemma drop_end_space_of:
  "list_all is_scalar cps \<Longrightarrow> \<exists>k. rev (dropWhile js_space (rev (utf16_of cps))) = utf16_of (take k cps)"
proof (induction cps rule: rev_induct)
  case (snoc n cps)
  then obtain k where k: "rev (dropWhile js_space (rev (utf16_of cps))) = utf16_of (take k cps)" by auto
  show ?case
  proof (cases "n < 0x10000 \<and> js_space n")
    case True
    then show ?thesis using k by (intro exI [of _ "min k (length cps)"]) (auto simp: utf16_units_def min_def)
  next
    case False
    then have "\<not> js_space (hd (rev (utf16_units n)))" "rev (utf16_units n) \<noteq> []"
      using snoc.prems no_space_pair [of n] by (auto simp: utf16_units_def)
    then show ?thesis
      by (intro exI [of _ "Suc (length cps)"]) (cases "rev (utf16_units n)"; simp add: rev_swap)
  qed
qed simp

lemma js_trim_well_formed:
  assumes "well_formed_utf16 s"
  shows "well_formed_utf16 (js_trim s)"
proof -
  obtain cps where cps: "s = utf16_of cps" "list_all is_scalar cps" using well_formed_cases [OF assms] by blast
  obtain k where k: "dropWhile js_space s = utf16_of (drop k cps)" using drop_space_of cps by blast
  have d: "list_all is_scalar (drop k cps)" using cps(2) by (auto simp: list_all_iff dest: in_set_dropD)
  obtain j where "js_trim s = utf16_of (take j (drop k cps))"
    using drop_end_space_of [OF d] k by (auto simp: js_trim_def)
  moreover have "list_all is_scalar (take j (drop k cps))"
    using d by (auto simp: list_all_iff dest: in_set_takeD)
  ultimately show ?thesis by (simp add: well_formed_of)
qed

lemma truncText_well_formed:
  assumes "well_formed_utf16 s"
  shows "well_formed_utf16 (truncText s n)"
proof -
  obtain cps where cps: "s = utf16_of cps" "list_all is_scalar cps" using well_formed_cases [OF assms] by blast
  then obtain k where "truncText s n = utf16_of (take k cps)" using truncText_of by blast
  moreover have "list_all is_scalar (take k cps)" using cps(2) by (auto simp: list_all_iff dest: in_set_takeD)
  ultimately show ?thesis by (simp add: well_formed_of)
qed

text \<open>The text a well-formed string reads as on the other side (U+0000 replaced).\<close>

definition decoded :: "nat list \<Rightarrow> string" where
  "decoded s = utf8_of (css_text (utf16_decode s))"

lemma css_string_bridge:
  assumes "well_formed_utf16 s"
  obtains q where "\<And>r. to_utf8 (js_css_string s @ r) = q @ to_utf8 r" "valid_utf8 q"
    "\<And>r. valid_utf8 r \<Longrightarrow> css_string (quote # q @ quote # r) = Some (decoded s, r)"
proof -
  obtain cps where cps: "s = utf16_of cps" "list_all is_scalar cps" using well_formed_cases [OF assms] by blast
  obtain out where out: "js_css_string s = utf16_of out" "string_writes out cps"
    using js_css_string_writes [OF cps(2)] cps(1) by blast
  have sc: "list_all is_scalar out" using out(2) by (simp add: string_writes_def)
  have "css_string (quote # utf8_of out @ quote # r) = Some (decoded s, r)" if "valid_utf8 r" for r
  proof -
    have "utf8_chars (utf8_of out @ quote # r) = map char_bytes out @ [quote] # utf8_chars r"
      using utf8_chars_append [OF valid_utf8_of [OF sc], of "quote # r"] utf8_chars_of [OF sc]
      by (simp add: is_ascii_def)
    then show ?thesis
      using out(2) cps
      by (simp add: css_string_def string_writes_def css_string_loop.simps(2) concat_utf8_chars decoded_def)
  qed
  moreover have "to_utf8 (js_css_string s @ r) = utf8_of out @ to_utf8 r" for r
    using out(1) to_utf8_of [OF sc] by simp
  ultimately show thesis using that [of "utf8_of out"] valid_utf8_of [OF sc] by blast
qed

lemma css_ident_bridge:
  assumes "well_formed_utf16 s" "s \<noteq> []"
  shows "css_ident (to_utf8 (js_css_ident s)) = Some (decoded s)"
proof -
  obtain cps where cps: "s = utf16_of cps" "list_all is_scalar cps" using well_formed_cases [OF assms(1)] by blast
  obtain out where out: "js_css_ident s = utf16_of out" "ident_writes out cps"
    using js_css_ident_writes [OF cps(2)] cps(1) unfolding js_css_ident_def by blast
  have sc: "list_all is_scalar out" using out(2) by (simp add: ident_writes_def)
  have "css_ident_loop (utf8_chars (utf8_of out)) = Some (decoded s)"
    using out(2) spec [of "\<lambda>r. css_ident_loop (map char_bytes out @ r) =
           prepend_text (utf8_of (css_text cps)) (css_ident_loop r)" "[]"] cps
    by (simp add: ident_writes_def utf8_chars_of [OF sc] css_ident_loop.simps(1) decoded_def)
  moreover have "decoded s \<noteq> []"
  proof -
    obtain n ns where "cps = n # ns" using assms(2) cps(1) by (cases cps) auto
    moreover have "char_bytes m \<noteq> []" for m by (simp add: char_bytes_def)
    moreover have "utf16_decode s = cps" using cps by simp
    ultimately show ?thesis by (simp add: decoded_def css_text_def)
  qed
  ultimately show ?thesis using out(1) sc by (simp add: css_ident_def)
qed

text \<open>What the selector of an element stands for.\<close>

definition selector_meaning :: "(nat list \<Rightarrow> nat list) \<Rightarrow> js_element \<Rightarrow> recorded_selector" where
  "selector_meaning lower el =
     (let tag = element_tag lower el; t = element_text el in
      if el_test_id el \<noteq> [] then Test_Id (decoded (el_test_id el))
      else if el_id el \<noteq> [] then Element_Id (decoded (el_id el))
      else if el_role el \<noteq> [] then
        (if t \<noteq> [] then Has_Text (In_Role (decoded (el_role el))) (decoded t) else Role (decoded (el_role el)))
      else if t \<noteq> [] \<and> tag \<in> set text_tags then Has_Text (In_Tag (to_utf8 tag)) (decoded t)
      else Css)"

text \<open>
  The strings of an element the page may hold: no lone surrogates, and a tag name that is one (it does
  not start with \<^verbatim>\<open>[\<close> or \<^verbatim>\<open>#\<close> and has no parenthesis, as no name of the HTML and XML grammars does).
\<close>

definition element_ok :: "(nat list \<Rightarrow> nat list) \<Rightarrow> js_element \<Rightarrow> bool" where
  "element_ok lower el =
     (list_all well_formed_utf16
        [el_test_id el, el_id el, el_role el, el_text_content el, element_tag lower el] \<and>
      element_tag lower el \<noteq> [] \<and> hd (element_tag lower el) \<notin> {0x5B, 0x23} \<and>
      0x28 \<notin> set (element_tag lower el))"

lemma to_utf8_Nil [simp]: "to_utf8 [] = []"
  by (simp add: to_utf8_def)

lemma to_utf8_js_end: "list_all is_ascii w \<Longrightarrow> to_utf8 (js w) = w"
  using to_utf8_js [of w "[]"] by simp

lemma js_append: "js (v @ w) = js v @ js w"
  by (simp add: js_def)

lemma has_text_bridge:
  assumes "well_formed_utf16 s"
  shows "has_text_suffix ('':has-text('' @ to_utf8 (js [quote] @ js_css_string s @ js (quote # '')''))) = Some (decoded s)"
proof -
  obtain q where q: "\<And>r. to_utf8 (js_css_string s @ r) = q @ to_utf8 r"
    "\<And>r. valid_utf8 r \<Longrightarrow> css_string (quote # q @ quote # r) = Some (decoded s, r)"
    using css_string_bridge [OF assms] by metis
  have "to_utf8 (js [quote] @ js_css_string s @ js (quote # '')'')) = quote # q @ quote # '')''"
    using to_utf8_js [of "[quote]" "js_css_string s @ js (quote # '')'')"] q(1)
      to_utf8_js_end [of "quote # '')''"] by (simp add: is_ascii_def)
  then show ?thesis using q(2) [of "'')''"] by (simp add: has_text_suffix_def strip_prefix_def is_ascii_def)
qed

lemma parse_test_id:
  assumes "well_formed_utf16 s"
  shows "parse_recorded_selector
     (to_utf8 (js ''[data-testid='' @ js [quote] @ js_css_string s @ js (quote # '']''))) = Test_Id (decoded s)"
proof -
  obtain q where q: "\<And>r. to_utf8 (js_css_string s @ r) = q @ to_utf8 r"
    "\<And>r. valid_utf8 r \<Longrightarrow> css_string (quote # q @ quote # r) = Some (decoded s, r)"
    using css_string_bridge [OF assms] by metis
  have "to_utf8 (js ''[data-testid='' @ js [quote] @ js_css_string s @ js (quote # '']'')) =
      ''[data-testid='' @ quote # q @ quote # '']''"
    by (simp add: to_utf8_js to_utf8_js_end q(1) is_ascii_def)
  then show ?thesis
    using q(2) [of "'']''"] unfolding parse_recorded_selector_def
    by (simp only: strip_prefix_append bind.simps) (simp add: is_ascii_def)
qed

lemma parse_id:
  assumes "well_formed_utf16 s" "s \<noteq> []"
  shows "parse_recorded_selector (to_utf8 (js ''#'' @ js_css_ident s)) = Element_Id (decoded s)"
proof -
  have "to_utf8 (js ''#'' @ js_css_ident s) = ''#'' @ to_utf8 (js_css_ident s)"
    by (rule to_utf8_js) (simp add: is_ascii_def)
  then show ?thesis
    using css_ident_bridge [OF assms]
    by (simp add: parse_recorded_selector_def parse_id_selector_def strip_prefix_def)
qed

lemma parse_role_prefix:
  "parse_recorded_selector (''[role='' @ r) = parse_role_selector (''[role='' @ r)"
  by (simp add: parse_recorded_selector_def parse_id_selector_def strip_prefix_def)

lemma parse_role:
  assumes "well_formed_utf16 s"
  shows "parse_recorded_selector
     (to_utf8 (js ''[role='' @ js [quote] @ js_css_string s @ js (quote # '']''))) = Role (decoded s)"
proof -
  obtain q where q: "\<And>r. to_utf8 (js_css_string s @ r) = q @ to_utf8 r"
    "\<And>r. valid_utf8 r \<Longrightarrow> css_string (quote # q @ quote # r) = Some (decoded s, r)"
    using css_string_bridge [OF assms] by metis
  have t: "to_utf8 (js ''[role='' @ js [quote] @ js_css_string s @ js (quote # '']'')) =
      ''[role='' @ quote # q @ quote # '']''"
    by (simp add: to_utf8_js to_utf8_js_end q(1) is_ascii_def)
  show ?thesis
    unfolding t parse_role_prefix parse_role_selector_def
    using q(2) [of "'']''"] by (simp add: is_ascii_def strip_prefix_def)
qed

lemma parse_role_text:
  assumes "well_formed_utf16 s" "well_formed_utf16 t"
  shows "parse_recorded_selector
     (to_utf8 (js ''[role='' @ js [quote] @ js_css_string s @ js (quote # '']:has-text('' @ [quote]) @
               js_css_string t @ js (quote # '')''))) = Has_Text (In_Role (decoded s)) (decoded t)"
proof -
  obtain q where q: "\<And>r. to_utf8 (js_css_string s @ r) = q @ to_utf8 r"
    "\<And>r. valid_utf8 r \<Longrightarrow> css_string (quote # q @ quote # r) = Some (decoded s, r)"
    using css_string_bridge [OF assms(1)] by metis
  obtain p where p: "\<And>r. to_utf8 (js_css_string t @ r) = p @ to_utf8 r" "valid_utf8 p"
    "\<And>r. valid_utf8 r \<Longrightarrow> css_string (quote # p @ quote # r) = Some (decoded t, r)"
    using css_string_bridge [OF assms(2)] by metis
  let ?rest = "'']:has-text('' @ quote # p @ quote # '')''"
  have sel: "to_utf8 (js ''[role='' @ js [quote] @ js_css_string s @ js (quote # '']:has-text('' @ [quote]) @
               js_css_string t @ js (quote # '')'')) = ''[role='' @ quote # q @ quote # ?rest"
    by (simp add: to_utf8_js to_utf8_js_end q(1) p(1) is_ascii_def)
  have "valid_utf8 ?rest" using p(2) by (simp add: is_ascii_def valid_utf8_append)
  then have "css_string (quote # q @ quote # ?rest) = Some (decoded s, ?rest)" by (rule q(2))
  then show ?thesis
    unfolding sel parse_role_prefix parse_role_selector_def strip_prefix_append bind.simps
    using p(3) [of "'')''"] by (simp add: has_text_suffix_def strip_prefix_def is_ascii_def)
qed

lemma parse_tag_start:
  assumes "c \<notin> {CHR ''['', CHR ''#''}"
  shows "parse_recorded_selector (c # r) = parse_tag_selector (c # r)"
proof -
  have "CHR ''['' \<noteq> c" "CHR ''#'' \<noteq> c" using assms by auto
  then show ?thesis
    by (simp add: parse_recorded_selector_def parse_id_selector_def parse_role_selector_def strip_prefix_def)
qed

lemma text_tags_utf8:
  assumes "tag \<in> set text_tags"
  obtains w where "tag = js w" "w \<noteq> []" "list_all is_ascii w" "list_all tag_char w"
proof -
  have "\<forall>w \<in> set [''button'', ''a'', ''label'', ''h1'', ''h2'', ''h3'', ''h4'', ''h5'', ''h6'', ''span''].
      w \<noteq> [] \<and> list_all is_ascii w \<and> list_all tag_char w"
    by code_simp
  then show thesis using that assms unfolding text_tags_def by auto
qed

lemma tag_char_start: "tag_char c \<Longrightarrow> c \<notin> {CHR ''['', CHR ''#''}"
  by (auto simp: tag_char_def is_ascii_alphanumeric_def is_ascii_digit_def)

lemma parse_tag_text:
  assumes "tag \<in> set text_tags" "well_formed_utf16 s"
  shows "parse_recorded_selector
     (to_utf8 (tag @ js ('':has-text('' @ [quote]) @ js_css_string s @ js (quote # '')''))) =
     Has_Text (In_Tag (to_utf8 tag)) (decoded s)"
proof -
  obtain w where w: "tag = js w" "w \<noteq> []" "list_all is_ascii w" "list_all tag_char w"
    using text_tags_utf8 [OF assms(1)] by blast
  let ?rest = "'':has-text('' @ to_utf8 (js [quote] @ js_css_string s @ js (quote # '')''))"
  have "to_utf8 (js ('':has-text('' @ [quote]) @ x) = '':has-text('' @ to_utf8 (js [quote] @ x)" for x
    by (simp add: to_utf8_js is_ascii_def)
  then have sel: "to_utf8 (tag @ js ('':has-text('' @ [quote]) @ js_css_string s @ js (quote # '')'')) = w @ ?rest"
    using to_utf8_js [OF w(3)] w(1) by simp
  obtain c v where cv: "w = c # v" using w(2) by (cases w) auto
  have "\<not> tag_char CHR '':''" by code_simp
  then have "takeWhile tag_char (w @ ?rest) = w" "dropWhile tag_char (w @ ?rest) = ?rest"
    using w(4) by (simp_all add: list_all_iff takeWhile_append dropWhile_append)
  then have "parse_tag_selector (w @ ?rest) = Has_Text (In_Tag w) (decoded s)"
    using w(2) has_text_bridge [OF assms(2)] by (simp add: parse_tag_selector_def)
  moreover have "c \<notin> {CHR ''['', CHR ''#''}" using w(4) cv by (intro tag_char_start) simp
  moreover have "to_utf8 tag = w" using w to_utf8_js_end by simp
  ultimately show ?thesis unfolding sel using parse_tag_start [of c "v @ ?rest"] cv by simp
qed

text \<open>Anything else stays CSS.\<close>

lemma parse_css:
  assumes "w \<noteq> []" "hd w \<notin> {CHR ''['', CHR ''#''}" "CHR ''('' \<notin> set w"
    and r: "r = [] \<or> hd r \<in> {CHR ''['', CHR ''.''}"
  shows "parse_recorded_selector (w @ r) = Css"
proof -
  obtain c v where cv: "w = c # v" using assms(1) by (cases w) auto
  obtain d where d: "dropWhile tag_char (w @ r) = d @ r" "CHR ''('' \<notin> set d"
  proof (cases "\<forall>x \<in> set w. tag_char x")
    case True
    have "\<not> tag_char CHR ''[''" "\<not> tag_char CHR ''.''" by code_simp+
    then have "dropWhile tag_char r = r" using r by (cases r) auto
    then show thesis using that [of "[]"] True by (simp add: dropWhile_append)
  next
    case False
    then have "dropWhile tag_char (w @ r) = dropWhile tag_char w @ r" by (auto simp: dropWhile_append)
    moreover have "CHR ''('' \<notin> set (dropWhile tag_char w)" using assms(3) by (auto dest: set_dropWhileD)
    ultimately show thesis using that by blast
  qed
  have "\<not> prefix '':has-text('' (d @ r)"
  proof
    assume pre: "prefix '':has-text('' (d @ r)"
    show False
    proof (cases "prefix '':has-text('' d")
      case True
      then show False using d(2) set_mono_prefix [OF True] by auto
    next
      case False
      with pre obtain u where u: "'':has-text('' = d @ u" "prefix u r" "u \<noteq> []"
        by (auto simp: prefix_append)
      then have "hd r = hd u" "r \<noteq> []" by (cases u; auto simp: prefix_def)+
      moreover have "hd u \<in> set '':has-text(''" using u by (metis UnCI hd_in_set set_append)
      ultimately show False using r by auto
    qed
  qed
  then have "has_text_suffix (d @ r) = None" by (simp add: has_text_suffix_def strip_prefix_def)
  then have "parse_tag_selector (w @ r) = Css" using d(1) by (simp add: parse_tag_selector_def Let_def)
  then show ?thesis using parse_tag_start [of c "v @ r"] cv assms(2) by simp
qed

lemma to_utf8_units:
  assumes "well_formed_utf16 s"
  shows "to_utf8 (s @ r) = to_utf8 s @ to_utf8 r"
proof -
  obtain cps where "s = utf16_of cps" "list_all is_scalar cps" using well_formed_cases [OF assms] by blast
  then show ?thesis using to_utf8_of [of cps r] by simp
qed

lemma char_bytes_hd:
  assumes "w < 0x80" "is_scalar n" "char_of w \<in> set (char_bytes n)"
  shows "n = w"
  using utf8_char_bytes [OF assms(2)]
proof (cases rule: utf8_char_cases)
  case (ascii a)
  then have "code_point (char_bytes n) = of_char a" by simp
  moreover have "a = char_of w" using assms(3) ascii by simp
  ultimately show ?thesis using assms(1) of_char_byte [of w] code_point_bytes [OF assms(2)] by simp
next
  case multi
  then have "\<not> is_ascii (char_of w)" using assms(3) by blast
  then show ?thesis using assms(1) by (simp add: is_ascii_def)
qed

lemma tag_utf8:
  assumes "well_formed_utf16 s" "s \<noteq> []" "hd s \<notin> {0x5B, 0x23}" "0x28 \<notin> set s"
  shows "to_utf8 s \<noteq> []" "hd (to_utf8 s) \<notin> {CHR ''['', CHR ''#''}" "CHR ''('' \<notin> set (to_utf8 s)"
proof -
  obtain cps where cps: "s = utf16_of cps" "list_all is_scalar cps" using well_formed_cases [OF assms(1)] by blast
  then obtain n ns where n: "cps = n # ns" using assms(2) by (cases cps) auto
  have ne: "char_bytes m \<noteq> []" for m by (simp add: char_bytes_def)
  have chars: "char_of (0x5B :: nat) = CHR ''[''" "char_of (0x23 :: nat) = CHR ''#''" "char_of (0x28 :: nat) = CHR ''(''"
    by code_simp+
  have u: "m \<in> set cps \<Longrightarrow> m < 0x10000 \<Longrightarrow> m \<in> set s" for m
    unfolding cps(1) utf16_of_def by (auto simp: utf16_units_def)
  have t: "to_utf8 s = char_bytes n @ utf8_of ns"
    using to_utf8_of' [OF cps(2)] cps(1) n by simp
  then show "to_utf8 s \<noteq> []" using ne by simp
  have "n < 0x10000 \<Longrightarrow> hd s = n" using cps n by (simp add: utf16_units_def)
  then have "n \<noteq> 0x5B" "n \<noteq> 0x23" using assms(3) by auto
  moreover have "hd (to_utf8 s) \<in> set (char_bytes n)" using t ne [of n] by simp
  ultimately show "hd (to_utf8 s) \<notin> {CHR ''['', CHR ''#''}"
    using char_bytes_hd [of "0x5B" n] char_bytes_hd [of "0x23" n] cps n chars by auto
  have "m \<in> set cps \<Longrightarrow> CHR ''('' \<notin> set (char_bytes m)" for m
    using char_bytes_hd [of "0x28" m] u [of m] cps(2) chars assms(4) by (auto simp: list_all_iff)
  then show "CHR ''('' \<notin> set (to_utf8 s)" using cps by (auto simp: utf8_of_def)
qed

lemma parse_best_selector:
  assumes "element_ok lower el"
  shows "parse_recorded_selector (to_utf8 (bestSelector lower el)) = selector_meaning lower el"
proof -
  let ?tag = "element_tag lower el" and ?t = "element_text el"
  have wf: "well_formed_utf16 (el_test_id el)" "well_formed_utf16 (el_id el)" "well_formed_utf16 (el_role el)"
      "well_formed_utf16 ?tag" "well_formed_utf16 ?t"
    using assms by (simp_all add: element_ok_def element_text_def truncText_well_formed js_trim_well_formed)
  have tag: "to_utf8 ?tag \<noteq> []" "hd (to_utf8 ?tag) \<notin> {CHR ''['', CHR ''#''}" "CHR ''('' \<notin> set (to_utf8 ?tag)"
    using assms tag_utf8 [OF wf(4)] by (auto simp: element_ok_def)
  have css: "parse_recorded_selector (to_utf8 (?tag @ x)) = Css"
    if x: "x = [] \<or> (\<exists>y. x = js ''.'' @ y) \<or> (\<exists>y. x = js (''[name='' @ [quote]) @ y)" for x
  proof -
    have "to_utf8 x = [] \<or> hd (to_utf8 x) \<in> {CHR ''['', CHR ''.''}"
      using x to_utf8_js by (auto simp: is_ascii_def)
    then show ?thesis using parse_css [OF tag] to_utf8_units [OF wf(4)] by simp
  qed
  have plain: "parse_recorded_selector (to_utf8 ?tag) = Css" using css [of "[]"] by simp
  show ?thesis
    using parse_test_id [OF wf(1)] parse_id [OF wf(2)] parse_role [OF wf(3)] parse_role_text [OF wf(3) wf(5)]
      parse_tag_text [OF _ wf(5), of ?tag] css plain
    unfolding bestSelector_def selector_meaning_def Let_def by (auto split: if_splits)
qed

text \<open>
  (C14) The generator reads every selector the bridge records back to what it stood for.  For an element
  whose strings have no lone surrogates, \<^verbatim>\<open>parse_recorded_selector\<close> of \<^verbatim>\<open>bestSelector\<close>'s text is the
  element's test id, its id, its role, its role or tag with (the first 50 code units of) its text -
  or plain CSS - with every character as it was in the page (U+0000 replaced by U+FFFD): quotes,
  backslashes, line ends and selector syntax inside the page's text change nothing.
\<close>

theorem recorded_selector_read_back:
  assumes "element_ok lower el"
  shows "parse_recorded_selector (to_utf8 (bestSelector lower el)) = selector_meaning lower el"
  using assms by (rule parse_best_selector)

definition sample_element :: js_element where
  "sample_element =
     \<lparr> el_test_id = [], el_id = [], el_role = js ''tab'', el_text_content = js ('' ab'' @ [quote, CHR '']'', CHR ''c'', backslash]),
       el_tag_name = js ''div'', el_name = [], el_class_name = [] \<rparr>"

theorem recorded_selector_read_back_witness:
  "parse_recorded_selector (to_utf8 (bestSelector (\<lambda>s. s) sample_element)) =
     Has_Text (In_Role ''tab'') (''ab'' @ [quote, CHR '']'', CHR ''c'', backslash])"
proof -
  have ok: "element_ok (\<lambda>s. s) sample_element"
    by (simp add: element_ok_def sample_element_def well_formed_utf16_def is_scalar_def js_def element_tag_def)
  have "selector_meaning (\<lambda>s. s) sample_element =
     Has_Text (In_Role ''tab'') (''ab'' @ [quote, CHR '']'', CHR ''c'', backslash])"
    by (simp add: selector_meaning_def sample_element_def element_text_def js_trim_def truncText_def js_def js_space_def
        is_low_surrogate_def decoded_def css_text_def Let_def char_of_eq_iff)
  then show ?thesis using recorded_selector_read_back [OF ok] by simp
qed

text \<open>
  \<^verbatim>\<open>truncText\<close> returns at most \<open>n\<close> code units, and of a text without lone surrogates a prefix
  without lone surrogates: it never cuts a character in half.
\<close>

theorem truncText_whole_characters:
  "length (truncText s n) \<le> n \<and>
   (well_formed_utf16 s \<longrightarrow> well_formed_utf16 (truncText s n) \<and> prefix (truncText s n) s)"
proof -
  have "prefix (truncText s n) s" if wf: "well_formed_utf16 s"
  proof -
    obtain cps where cps: "s = utf16_of cps" "list_all is_scalar cps" using well_formed_cases [OF wf] by blast
    then obtain k where "truncText s n = utf16_of (take k cps)" using truncText_of by blast
    moreover have "utf16_of cps = utf16_of (take k cps) @ utf16_of (drop k cps)"
      by (simp flip: utf16_of_simps(3))
    ultimately show ?thesis using cps(1) by (metis prefixI)
  qed
  then show ?thesis using length_truncText truncText_well_formed by blast
qed

theorem truncText_whole_characters_witness:
  "truncText [0x61, 0xD83D, 0xDE00] 2 = [0x61] \<and> well_formed_utf16 (truncText [0x61, 0xD83D, 0xDE00] 2)"
proof -
  have "well_formed_utf16 [0x61, 0xD83D, 0xDE00]" by (simp add: well_formed_utf16_def is_scalar_def)
  moreover have "truncText [0x61, 0xD83D, 0xDE00] 2 = [0x61]"
    by (simp add: truncText_def is_low_surrogate_def is_high_surrogate_def)
  ultimately show ?thesis using truncText_whole_characters [of "[0x61, 0xD83D, 0xDE00]" 2] by simp
qed

end
