(* ===== verification/Rust_Text.thy ===== *)
theory Rust_Text
  imports Unicode
begin

text \<open>
  Text written into generated Rust source (\<^verbatim>\<open>crates/victauri-core/src/codegen.rs\<close>): the escaping of
  string literals and comments, the names of test functions, and a reader of Rust tokens they are
  verified against.  The parameter \<open>printable\<close> stands for the Unicode tables of the standard library
  (\<^verbatim>\<open>is_printable\<close> without \<^verbatim>\<open>is_grapheme_extended\<close>) on characters outside ASCII; nothing is assumed
  about it except where a statement says so.
\<close>

section \<open>Escaping\<close>

definition escape_unicode :: "string \<Rightarrow> string" where
  "escape_unicode ch = backslash # ''u{'' @ hex (code_point ch) @ ''}''"

text \<open>\<^verbatim>\<open>char::escape_debug\<close>\<close>

definition is_plain_char :: "(nat \<Rightarrow> bool) \<Rightarrow> string \<Rightarrow> bool" where
  "is_plain_char printable ch =
     (let n = code_point ch in if n < 128 then 0x20 \<le> n \<and> n \<le> 0x7E else printable n)"

definition escape_debug :: "(nat \<Rightarrow> bool) \<Rightarrow> string \<Rightarrow> string" where
  "escape_debug printable ch =
     (if ch = [CHR 0x00] then [backslash, CHR ''0'']
      else if ch = [CHR 0x09] then [backslash, CHR ''t'']
      else if ch = [CHR 0x0D] then [backslash, CHR ''r'']
      else if ch = [newline] then [backslash, CHR ''n'']
      else if ch \<in> {[backslash], [quote], [CHR 0x27]} then backslash # ch
      else if is_plain_char printable ch then ch else escape_unicode ch)"

definition escape_rust_str :: "(nat \<Rightarrow> bool) \<Rightarrow> string \<Rightarrow> string" where
  "escape_rust_str printable s =
     concat (map (\<lambda>ch. if ch = [CHR 0x27] then ch else escape_debug printable ch) (utf8_chars s))"

definition sanitize_comment :: "(nat \<Rightarrow> bool) \<Rightarrow> string \<Rightarrow> string" where
  "sanitize_comment printable s =
     concat (map (\<lambda>ch. if ch \<in> {[newline], [CHR 0x0D]} then '' ''
                       else if ch \<in> {[quote], [CHR 0x27], [backslash]} then ch
                       else escape_debug printable ch) (utf8_chars s))"

section \<open>Names\<close>

definition RUST_KEYWORDS :: "string list" where
  "RUST_KEYWORDS =
     [''Self'', ''abstract'', ''as'', ''async'', ''await'', ''become'', ''box'', ''break'', ''const'',
      ''continue'', ''crate'', ''do'', ''dyn'', ''else'', ''enum'', ''extern'', ''false'', ''final'',
      ''fn'', ''for'', ''gen'', ''if'', ''impl'', ''in'', ''let'', ''loop'', ''macro'', ''match'',
      ''mod'', ''move'', ''mut'', ''override'', ''priv'', ''pub'', ''ref'', ''return'', ''self'',
      ''static'', ''struct'', ''super'', ''trait'', ''true'', ''try'', ''type'', ''typeof'',
      ''union'', ''unsafe'', ''unsized'', ''use'', ''virtual'', ''where'', ''while'', ''yield'']"

definition ident_start :: "char \<Rightarrow> bool" where
  "ident_start c = (is_ascii_alphanumeric c \<and> \<not> is_ascii_digit c \<or> c = CHR ''_'')"

definition ident_char :: "char \<Rightarrow> bool" where
  "ident_char c = (is_ascii_alphanumeric c \<or> c = CHR ''_'')"

text \<open>What the loop pushes for the character \<open>ch\<close>, at index 0 or later.\<close>

definition identifier_piece :: "bool \<Rightarrow> string \<Rightarrow> string" where
  "identifier_piece at_start ch =
     (let valid = length ch = 1 \<and> (if at_start then ident_start (hd ch) else ident_char (hd ch))
      in if valid then ch
         else (if at_start \<and> length ch = 1 \<and> is_ascii_digit (hd ch) then ''_'' else '''') @ ''_'')"

definition sanitize_rust_identifier :: "string \<Rightarrow> string" where
  "sanitize_rust_identifier s =
     (let identifier = (case utf8_chars s of [] \<Rightarrow> []
                        | ch # chs \<Rightarrow> identifier_piece True ch @ concat (map (identifier_piece False) chs))
      in if identifier = [] \<or> identifier = ''_'' then ''recorded_flow''
         else if identifier \<in> set RUST_KEYWORDS then ''recorded_'' @ identifier
         else identifier)"

text \<open>A Rust identifier that is no keyword.\<close>

definition rust_identifier :: "string \<Rightarrow> bool" where
  "rust_identifier w =
     (w \<noteq> [] \<and> ident_start (hd w) \<and> list_all ident_char w \<and> w \<noteq> ''_'' \<and> w \<notin> set RUST_KEYWORDS)"

lemma ident_start_char: "ident_start c \<Longrightarrow> ident_char c"
  by (auto simp: ident_start_def ident_char_def)

lemma identifier_piece_start: "identifier_piece True ch \<noteq> [] \<and> ident_start (hd (identifier_piece True ch))"
  by (auto simp: identifier_piece_def Let_def ident_start_def)

lemma identifier_piece_chars: "list_all ident_char (identifier_piece at_start ch)"
  by (cases ch) (auto simp: identifier_piece_def Let_def ident_start_char ident_char_def ident_start_def)

lemma concat_identifier_pieces: "list_all ident_char (concat (map (identifier_piece False) chs))"
  using identifier_piece_chars by (induction chs) (auto simp: list_all_append)

lemma sanitized_identifier: "rust_identifier (sanitize_rust_identifier s)"
proof -
  let ?w = "case utf8_chars s of [] \<Rightarrow> []
              | ch # chs \<Rightarrow> identifier_piece True ch @ concat (map (identifier_piece False) chs)"
  have start: "?w \<noteq> [] \<Longrightarrow> ident_start (hd ?w)"
    using identifier_piece_start by (auto split: list.splits)
  have chars: "list_all ident_char ?w"
    using identifier_piece_chars concat_identifier_pieces by (auto simp: list_all_append split: list.splits)
  have kw: "''recorded_'' @ w \<notin> set RUST_KEYWORDS" for w
    by (simp add: RUST_KEYWORDS_def)
  have "rust_identifier ''recorded_flow''" by code_simp
  moreover have "rust_identifier (''recorded_'' @ ?w)"
    using chars kw by (simp add: rust_identifier_def) (code_simp?)
  ultimately show ?thesis
    using start chars unfolding sanitize_rust_identifier_def
    by (auto simp: Let_def rust_identifier_def)
qed

section \<open>Reading Rust back\<close>

text \<open>
  The reference the escaping is judged by: the part of Rust's lexical grammar generated files use.
  Where the grammar has a construct the reader does not know (doc comments, block comments, prefixed
  and raw literals, characters outside ASCII in code) it gives no tokens at all, so nothing is read
  as harmless that is not.
\<close>

definition read_escape :: "string \<Rightarrow> (string \<times> string) option" where
  "read_escape s = (case s of [] \<Rightarrow> None | c # t \<Rightarrow>
     (if c = CHR ''n'' then Some ([newline], t)
      else if c = CHR ''r'' then Some ([CHR 0x0D], t)
      else if c = CHR ''t'' then Some ([CHR 0x09], t)
      else if c = CHR ''0'' then Some ([CHR 0x00], t)
      else if c \<in> {backslash, quote, CHR 0x27} then Some ([c], t)
      else if c = CHR ''u'' \<and> prefix ''{'' t then
        (let h = takeWhile is_hex (tl t); u = dropWhile is_hex (tl t) in
         if h \<noteq> [] \<and> length h \<le> 6 \<and> prefix ''}'' u \<and> is_scalar (hex_value h)
         then Some (char_bytes (hex_value h), tl u) else None)
      else None))"

lemma read_escape_shorter: "read_escape s = Some (w, t) \<Longrightarrow> length t < length s"
  using length_dropWhile_le [of is_hex "tl (tl s)"]
  by (cases s) (auto simp: read_escape_def Let_def split: if_splits)

function string_body :: "string \<Rightarrow> (string \<times> string) option" where
  "string_body [] = None"
| "string_body (c # r) =
     (if c = quote then Some ([], r)
      else if c = CHR 0x0D then None
      else if c = backslash then
        (case read_escape r of None \<Rightarrow> None
         | Some (w, t) \<Rightarrow> map_option (map_prod (append w) id) (string_body t))
      else map_option (map_prod (Cons c) id) (string_body r))"
  by pat_completeness auto
termination
  by (relation "measure length") (auto dest: read_escape_shorter)

lemma string_body_shorter: "string_body s = Some (v, t) \<Longrightarrow> length t < length s"
proof (induction s arbitrary: v t rule: string_body.induct)
  case (2 c r)
  consider "c = quote \<or> c = CHR 0x0D" | "c \<noteq> quote" "c \<noteq> CHR 0x0D" "c = backslash"
    | "c \<noteq> quote" "c \<noteq> CHR 0x0D" "c \<noteq> backslash" by blast
  then show ?case
  proof cases
    case 2
    then obtain w u x where "read_escape r = Some (w, u)" "string_body u = Some (x, t)"
      using "2.prems" by (auto split: option.splits)
    then show ?thesis using "2.IH"(1) [OF 2] read_escape_shorter [of r w u] by fastforce
  next
    case 3
    then show ?thesis using 2 by (auto simp: less_SucI)
  qed (use 2 in auto)
qed simp

datatype token = Ident string | Str string | Number string | Punct char

definition punctuation :: string where
  "punctuation = ''#[]():;.{},&<>=|!+-*''"

function lex_rust :: "string \<Rightarrow> token list option" where
  "lex_rust [] = Some []"
| "lex_rust (c # r) =
     (if c \<in> {CHR 0x20, newline, CHR 0x09, CHR 0x0D} then lex_rust r
      else if c = CHR ''/'' then
        (if prefix ''/'' r \<and> \<not> prefix ''//'' r \<and> \<not> prefix ''/!'' r
         then lex_rust (dropWhile (\<lambda>x. x \<noteq> newline) r) else None)
      else if c = quote then
        (case string_body r of None \<Rightarrow> None | Some (v, t) \<Rightarrow> map_option (Cons (Str v)) (lex_rust t))
      else if ident_start c then
        (let t = dropWhile ident_char r in
         if t \<noteq> [] \<and> hd t \<in> {quote, CHR 0x27} then None
         else map_option (Cons (Ident (c # takeWhile ident_char r))) (lex_rust t))
      else if is_ascii_digit c then
        map_option (Cons (Number (c # takeWhile ident_char r))) (lex_rust (dropWhile ident_char r))
      else if c \<in> set punctuation then map_option (Cons (Punct c)) (lex_rust r)
      else None)"
  by pat_completeness auto
termination
  by (relation "measure length")
     (auto simp: less_Suc_eq_le length_dropWhile_le dest: string_body_shorter)

declare lex_rust.simps [simp del] string_body.simps [simp del]

subsection \<open>Literals\<close>

lemma string_body_quote [simp]: "string_body (quote # r) = Some ([], r)"
  by (simp add: string_body.simps)

lemma string_body_escape:
  "read_escape r = Some (w, t) \<Longrightarrow> string_body (backslash # r) = map_option (map_prod (append w) id) (string_body t)"
  by (simp add: string_body.simps)

lemma string_body_plain:
  "list_all (\<lambda>c. c \<notin> {quote, CHR 0x0D, backslash}) w \<Longrightarrow>
   string_body (w @ r) = map_option (map_prod (append w) id) (string_body r)"
proof (induction w)
  case Nil
  then show ?case by (cases "string_body r") auto
next
  case (Cons c w)
  then show ?case by (cases "string_body r") (auto simp: string_body.simps)
qed

lemma read_escape_unicode:
  assumes "utf8_char ch"
  shows "read_escape (''u{'' @ hex (code_point ch) @ ''}'' @ r) = Some (ch, r)"
proof -
  have sc: "is_scalar (code_point ch)" "char_bytes (code_point ch) = ch"
    using code_point_char [OF assms] by blast+
  have "code_point ch < 16 ^ 6" using sc(1) by (auto simp: is_scalar_def)
  then have len: "length (hex (code_point ch)) \<le> 6" by (rule length_hex) simp
  have "\<not> is_hex (CHR ''}'')" by code_simp
  then have "takeWhile is_hex (hex (code_point ch) @ ''}'' @ r) = hex (code_point ch)"
    "dropWhile is_hex (hex (code_point ch) @ ''}'' @ r) = ''}'' @ r"
    using hex_digits by (simp_all add: takeWhile_append dropWhile_append)
  then show ?thesis using len sc by (simp add: read_escape_def hex_value_hex Let_def)
qed

lemma plain_char_ascii:
  assumes "utf8_char ch" "is_plain_char printable ch" "ch \<notin> {[quote], [backslash]}"
  shows "list_all (\<lambda>c. c \<notin> {quote, CHR 0x0D, backslash}) ch"
  using assms(1)
proof (cases rule: utf8_char_cases)
  case (ascii a)
  then show ?thesis using assms by (auto simp: is_plain_char_def is_ascii_def Let_def)
next
  case multi
  then show ?thesis by (auto simp: list_all_iff is_ascii_def)
qed

lemma string_body_escaped_char:
  assumes "utf8_char ch"
  shows "string_body ((if ch = [CHR 0x27] then ch else escape_debug printable ch) @ r) =
         map_option (map_prod (append ch) id) (string_body r)"
proof -
  consider "ch \<in> {[CHR 0x00], [CHR 0x09], [CHR 0x0D], [newline], [backslash], [quote]}"
    | "ch = [CHR 0x27] \<or> is_plain_char printable ch \<and> ch \<notin> {[CHR 0x0D], [quote], [backslash]}"
    | "ch \<notin> {[CHR 0x00], [CHR 0x09], [CHR 0x0D], [newline], [backslash], [quote], [CHR 0x27]}"
      "\<not> is_plain_char printable ch"
    by blast
  then show ?thesis
  proof cases
    case 1
    then show ?thesis
      by (auto simp: escape_debug_def string_body_escape [of _ "[_]" r] read_escape_def)
  next
    case 2
    then have "(if ch = [CHR 0x27] then ch else escape_debug printable ch) = ch \<or>
        ch \<in> {[CHR 0x00], [CHR 0x09], [newline]}"
      by (auto simp: escape_debug_def)
    moreover have "\<not> is_plain_char printable [CHR 0x00]" "\<not> is_plain_char printable [CHR 0x09]"
      "\<not> is_plain_char printable [newline]" by (simp_all add: is_plain_char_def)
    moreover have "list_all (\<lambda>c. c \<notin> {quote, CHR 0x0D, backslash}) ch"
      using 2 assms plain_char_ascii [of ch printable] by auto
    ultimately show ?thesis using 2 string_body_plain [of ch r] by auto
  next
    case 3
    then have "escape_debug printable ch = escape_unicode ch" by (simp add: escape_debug_def)
    then show ?thesis
      using 3 read_escape_unicode [OF assms, of r] string_body_escape [of _ ch r]
      by (simp add: escape_unicode_def)
  qed
qed

lemma string_body_escaped:
  assumes "valid_utf8 s"
  shows "string_body (escape_rust_str printable s @ quote # r) = Some (s, r)"
  using assms
proof (induction s rule: valid_utf8_induct)
  case Nil
  then show ?case by (simp add: escape_rust_str_def)
next
  case (char ch t)
  then show ?case
    using string_body_escaped_char [OF char(1), of printable "escape_rust_str printable t @ quote # r"]
    by (simp add: escape_rust_str_def utf8_chars_char)
qed

subsection \<open>Tokens\<close>

text \<open>\<open>w\<close> reads as the tokens \<open>ts\<close> whatever follows it.\<close>

definition lexes :: "string \<Rightarrow> token list \<Rightarrow> bool" where
  "lexes w ts = (\<forall>r. lex_rust (w @ r) = map_option (append ts) (lex_rust r))"

lemma lexes_iff:
  "lexes w ts = (\<forall>r. (lex_rust r = None \<longrightarrow> lex_rust (w @ r) = None) \<and>
                     (\<forall>us. lex_rust r = Some us \<longrightarrow> lex_rust (w @ r) = Some (ts @ us)))"
  unfolding lexes_def
proof (intro iff_allI)
  fix r
  show "(lex_rust (w @ r) = map_option (append ts) (lex_rust r)) =
        ((lex_rust r = None \<longrightarrow> lex_rust (w @ r) = None) \<and>
         (\<forall>us. lex_rust r = Some us \<longrightarrow> lex_rust (w @ r) = Some (ts @ us)))"
    by (cases "lex_rust r") auto
qed

lemma lexes_Nil [simp]: "lexes [] []"
  by (simp add: lexes_iff)

lemma lexes_append: "lexes w ts \<Longrightarrow> lexes w' ts' \<Longrightarrow> lexes (w @ w') (ts @ ts')"
  by (simp add: lexes_iff)

lemma lexes_concat: "(\<And>x. x \<in> set xs \<Longrightarrow> lexes (f x) (g x)) \<Longrightarrow> lexes (concat (map f xs)) (concat (map g xs))"
  by (induction xs) (auto intro!: lexes_append)

lemma lexes_all: "lexes w ts \<Longrightarrow> lex_rust w = Some ts"
  using spec [of "\<lambda>r. lex_rust (w @ r) = map_option (append ts) (lex_rust r)" "[]"]
  by (simp add: lexes_def lex_rust.simps(1))

lemma lexes_literal:
  assumes "valid_utf8 s"
  shows "lexes (quote # escape_rust_str printable s @ [quote]) [Str s]"
  using string_body_escaped [OF assms] by (simp add: lexes_iff lex_rust.simps(2))

lemma lexes_comment:
  assumes "newline \<notin> set c" "\<not> prefix ''/'' c" "\<not> prefix ''!'' c"
  shows "lexes (''//'' @ c @ [newline]) []"
proof -
  have d: "dropWhile (\<lambda>x. x \<noteq> newline) (CHR ''/'' # c @ newline # r) = newline # r" for r
    using assms(1) by (auto simp: dropWhile_append)
  have p: "\<not> prefix ''//'' (CHR ''/'' # c @ newline # r)" "\<not> prefix ''/!'' (CHR ''/'' # c @ newline # r)" for r
    using assms(2,3) by (cases c; simp)+
  have "lex_rust (''//'' @ c @ newline # r) = lex_rust (newline # r)" for r
    using p [of r] by (subst append_Cons, subst lex_rust.simps(2)) (simp only: append_Cons append_Nil d [of r], simp)
  then show ?thesis by (simp add: lexes_iff lex_rust.simps(2) [of newline])
qed

lemma lex_identifier:
  assumes "rust_identifier w" "r = [] \<or> \<not> ident_char (hd r) \<and> hd r \<notin> {quote, CHR 0x27}"
  shows "lex_rust (w @ r) = map_option (Cons (Ident w)) (lex_rust r)"
proof -
  obtain c v where w: "w = c # v" "ident_start c" "\<forall>x \<in> set v. ident_char x"
    using assms(1) by (cases w) (auto simp: rust_identifier_def list_all_iff)
  have "takeWhile ident_char (v @ r) = v" "dropWhile ident_char (v @ r) = r"
    using w(3) assms(2) by (cases r; auto simp: takeWhile_append dropWhile_append)+
  moreover have "c \<notin> {CHR 0x20, newline, CHR 0x09, CHR 0x0D}" "c \<noteq> CHR ''/''" "c \<noteq> quote"
    using w(2) by (auto simp: ident_start_def is_ascii_alphanumeric_def is_ascii_digit_def)
  ultimately show ?thesis using w assms(2) by (auto simp: lex_rust.simps(2))
qed

lemmas lex_simps =
  lex_rust.simps ident_start_def ident_char_def is_ascii_alphanumeric_def is_ascii_digit_def punctuation_def

section \<open>Plain text\<close>

text \<open>
  A text whose characters are line ends, ASCII characters that print, and characters the tables call
  printable: no control character, and none of the bidirectional marks rustc rejects.
\<close>

definition source_text :: "(nat \<Rightarrow> bool) \<Rightarrow> string \<Rightarrow> bool" where
  "source_text printable s =
     (valid_utf8 s \<and> list_all (\<lambda>ch. ch = [newline] \<or> is_plain_char printable ch) (utf8_chars s))"

lemma source_text_Nil [simp]: "source_text printable []"
  by (simp add: source_text_def)

lemma source_text_append: "source_text printable s \<Longrightarrow> source_text printable t \<Longrightarrow> source_text printable (s @ t)"
  by (simp add: source_text_def valid_utf8_append utf8_chars_append)

lemma source_text_concat: "(\<And>x. x \<in> set xs \<Longrightarrow> source_text printable (f x)) \<Longrightarrow> source_text printable (concat (map f xs))"
  by (induction xs) (simp_all add: source_text_append)

definition ascii_source :: "string \<Rightarrow> bool" where
  "ascii_source = list_all (\<lambda>c. c = newline \<or> 0x20 \<le> (of_char c :: nat) \<and> (of_char c :: nat) \<le> 0x7E)"

lemma source_text_ascii: "ascii_source s \<Longrightarrow> source_text printable s"
proof (induction s)
  case (Cons c s)
  have c: "c = newline \<or> 0x20 \<le> (of_char c :: nat) \<and> (of_char c :: nat) \<le> 0x7E" and s: "ascii_source s"
    using Cons.prems by (simp_all add: ascii_source_def)
  have a: "is_ascii c"
  proof (cases "c = newline")
    case False
    then have "(of_char c :: nat) < 128" using c by linarith
    then show ?thesis by (simp only: is_ascii_def)
  qed (simp add: is_ascii_def)
  have "[c] = [newline] \<or> is_plain_char printable [c]"
    using c a by (simp only: is_plain_char_def is_ascii_def code_point.simps Let_def if_True) blast
  then show ?case using Cons.IH [OF s] a by (simp add: source_text_def)
qed simp

lemma source_text_plain_char:
  "utf8_char ch \<Longrightarrow> is_plain_char printable ch \<Longrightarrow> source_text printable ch"
  using utf8_chars_char [of ch "[]"] valid_utf8_char [of ch "[]"] by (simp add: source_text_def)

lemma ascii_source_hex: "ascii_source (hex n)"
proof -
  have "is_hex c \<Longrightarrow> 0x20 \<le> (of_char c :: nat) \<and> (of_char c :: nat) \<le> 0x7E" for c
    by (auto simp: is_hex_def to_digit_16_def Let_def split: if_splits)
  then show ?thesis using hex_digits by (auto simp: ascii_source_def list_all_iff)
qed

lemma control_not_plain:
  "ch \<in> {[CHR 0x00], [CHR 0x09], [newline], [CHR 0x0D]} \<Longrightarrow> \<not> is_plain_char printable ch"
  by (auto simp: is_plain_char_def)

lemma source_text_escape_debug:
  assumes "utf8_char ch"
  shows "source_text printable (escape_debug printable ch)"
proof (cases "is_plain_char printable ch \<and> ch \<notin> {[backslash], [quote], [CHR 0x27]}")
  case True
  then have "ch \<notin> {[CHR 0x00], [CHR 0x09], [newline], [CHR 0x0D]}" using control_not_plain by blast
  then have "escape_debug printable ch = ch" using True by (simp add: escape_debug_def)
  then show ?thesis using source_text_plain_char [OF assms] True by simp
next
  case False
  then have "ascii_source (escape_debug printable ch)"
    using ascii_source_hex [of "code_point ch"]
    by (auto simp: escape_debug_def escape_unicode_def ascii_source_def)
  then show ?thesis by (rule source_text_ascii)
qed

lemma source_text_escaped: "valid_utf8 s \<Longrightarrow> source_text printable (escape_rust_str printable s)"
  unfolding escape_rust_str_def
  by (rule source_text_concat)
     (auto simp: source_text_escape_debug ascii_source_def intro: source_text_ascii dest: utf8_chars_of_text)

lemma source_text_comment: "valid_utf8 s \<Longrightarrow> source_text printable (sanitize_comment printable s)"
  unfolding sanitize_comment_def
  by (rule source_text_concat)
     (auto simp: source_text_escape_debug ascii_source_def intro: source_text_ascii dest: utf8_chars_of_text)

lemma newline_escape_debug:
  assumes "utf8_char ch"
  shows "newline \<notin> set (escape_debug printable ch)"
proof -
  have "newline \<notin> set (hex n)" for n
    using hex_digits [of n] by (auto simp: is_hex_def to_digit_16_def)
  moreover have "ch \<noteq> [newline] \<Longrightarrow> newline \<notin> set ch"
    using assms by (cases rule: utf8_char_cases) (auto simp: is_ascii_def)
  ultimately show ?thesis by (auto simp: escape_debug_def escape_unicode_def)
qed

lemma newline_comment: "valid_utf8 s \<Longrightarrow> newline \<notin> set (sanitize_comment printable s)"
  by (auto simp: sanitize_comment_def newline_escape_debug dest: utf8_chars_of_text split: if_splits)

lemma ascii_source_identifier: "rust_identifier w \<Longrightarrow> ascii_source w"
proof -
  have "ident_char c \<Longrightarrow> 0x20 \<le> (of_char c :: nat) \<and> (of_char c :: nat) \<le> 0x7E" for c
    by (auto simp: ident_char_def is_ascii_alphanumeric_def is_ascii_digit_def Let_def)
  then show "rust_identifier w \<Longrightarrow> ascii_source w"
    by (auto simp: ascii_source_def rust_identifier_def list_all_iff)
qed

lemma ascii_source_decimal: "ascii_source (decimal n)"
  using decimal_digits by (fastforce simp: ascii_source_def list_all_iff is_ascii_digit_def)

text \<open>These rules walk along a text of literals and escapes.\<close>

lemma source_text_skip: "source_text printable s \<Longrightarrow> source_text printable (s @ t) = source_text printable t"
proof
  assume s: "source_text printable s" and st: "source_text printable (s @ t)"
  then have "valid_utf8 t"
    using valid_utf8_skip [of s t] by (simp add: source_text_def)
  then show "source_text printable t" using s st by (simp add: source_text_def utf8_chars_append)
qed (rule source_text_append)

lemma source_text_Cons: "ascii_source [c] \<Longrightarrow> source_text printable (c # t) = source_text printable t"
  using source_text_skip [OF source_text_ascii, of "[c]" printable t] by simp

lemmas source_text_walk = source_text_skip source_text_Cons source_text_escaped source_text_comment ascii_source_def

end
