(* ===== verification/Event.thy ===== *)
theory Event
  imports Json
begin

text \<open>
  \<^verbatim>\<open>crates/victauri-core/src/event.rs\<close>: the application events Victauri captures and the
  ring-buffer \<^verbatim>\<open>EventLog\<close> that holds them.  The log's mutex makes every operation atomic
  (poisoning is recovered from), so an operation is a function on the list of events,
  oldest first; operations of several threads are the sequences of these functions.
\<close>

section \<open>Events\<close>

datatype ipc_result = Pending | Ok json | Err string

record ipc_call =
  ic_id :: string
  ic_command :: string
  ic_timestamp :: timestamp
  ic_duration_ms :: "u64 option"
  ic_result :: ipc_result
  ic_arg_size_bytes :: usize
  ic_webview_label :: string
  ic_mocked :: bool
  ic_transport :: "string option"

definition ipc_call_new ::
  "string \<Rightarrow> string \<Rightarrow> timestamp \<Rightarrow> ipc_result \<Rightarrow> u64 option \<Rightarrow> usize \<Rightarrow> string \<Rightarrow> ipc_call" where
  "ipc_call_new id' command timestamp result duration_ms arg_size_bytes webview_label =
     \<lparr> ic_id = id', ic_command = command, ic_timestamp = timestamp,
       ic_duration_ms = duration_ms, ic_result = result, ic_arg_size_bytes = arg_size_bytes,
       ic_webview_label = webview_label, ic_mocked = False, ic_transport = None \<rparr>"

definition with_mocked :: "ipc_call \<Rightarrow> bool \<Rightarrow> ipc_call" where
  "with_mocked c mocked = c\<lparr>ic_mocked := mocked\<rparr>"

definition with_transport :: "ipc_call \<Rightarrow> string option \<Rightarrow> ipc_call" where
  "with_transport c transport = c\<lparr>ic_transport := transport\<rparr>"

definition is_post_message :: "ipc_call \<Rightarrow> bool" where
  "is_post_message c = (ic_transport c = Some ''post_message'')"

fun ipc_result_to_string :: "ipc_result \<Rightarrow> string" where
  "ipc_result_to_string Pending = ''pending''"
| "ipc_result_to_string (Ok _) = ''ok''"
| "ipc_result_to_string (Err msg) = ''error: '' @ msg"

text \<open>The arrow of the format string is U+2192, three bytes of UTF-8.\<close>

definition ipc_call_to_string :: "ipc_call \<Rightarrow> string" where
  "ipc_call_to_string c =
     ic_command c @ '' ['' @ ic_id c @ ''] '' @ [CHR 0xE2, CHR 0x86, CHR 0x92] @ '' '' @
     ipc_result_to_string (ic_result c)"

datatype interaction_kind = Click | DoubleClick | Fill | KeyPress | Select | Navigate | Scroll

fun interaction_kind_to_string :: "interaction_kind \<Rightarrow> string" where
  "interaction_kind_to_string Click = ''click''"
| "interaction_kind_to_string DoubleClick = ''double_click''"
| "interaction_kind_to_string Fill = ''fill''"
| "interaction_kind_to_string KeyPress = ''key_press''"
| "interaction_kind_to_string Select = ''select''"
| "interaction_kind_to_string Navigate = ''navigate''"
| "interaction_kind_to_string Scroll = ''scroll''"

datatype app_event =
    Ipc ipc_call
  | StateChange (sc_key: string) (sc_timestamp: timestamp) (sc_caused_by: "string option")
  | DomMutation (dm_webview_label: string) (dm_timestamp: timestamp) (dm_mutation_count: nat)
  | DomInteraction (di_action: interaction_kind) (di_selector: string) (di_value: "string option")
      (di_timestamp: timestamp) (di_webview_label: string)
  | WindowEvent (we_label: string) (we_event: string) (we_timestamp: timestamp)
  | Console (co_level: string) (co_message: string) (co_timestamp: timestamp)

definition state_change :: "string \<Rightarrow> timestamp \<Rightarrow> string option \<Rightarrow> app_event" where
  "state_change key timestamp caused_by = StateChange key timestamp caused_by"

definition dom_mutation :: "string \<Rightarrow> timestamp \<Rightarrow> nat \<Rightarrow> app_event" where
  "dom_mutation webview_label timestamp mutation_count =
     DomMutation webview_label timestamp mutation_count"

definition dom_interaction ::
  "interaction_kind \<Rightarrow> string \<Rightarrow> string option \<Rightarrow> timestamp \<Rightarrow> string \<Rightarrow> app_event" where
  "dom_interaction action selector value timestamp webview_label =
     DomInteraction action selector value timestamp webview_label"

definition window_event :: "string \<Rightarrow> string \<Rightarrow> timestamp \<Rightarrow> app_event" where
  "window_event label event timestamp = WindowEvent label event timestamp"

definition console :: "string \<Rightarrow> string \<Rightarrow> timestamp \<Rightarrow> app_event" where
  "console level message timestamp = Console level message timestamp"

fun event_timestamp :: "app_event \<Rightarrow> timestamp" where
  "event_timestamp (Ipc c) = ic_timestamp c"
| "event_timestamp (StateChange _ t _) = t"
| "event_timestamp (DomMutation _ t _) = t"
| "event_timestamp (DomInteraction _ _ _ t _) = t"
| "event_timestamp (WindowEvent _ _ t) = t"
| "event_timestamp (Console _ _ t) = t"

fun is_internal :: "app_event \<Rightarrow> bool" where
  "is_internal (Ipc c) = prefix ''plugin:victauri|'' (ic_command c)"
| "is_internal _ = False"

text \<open>The \<^verbatim>\<open>filter_map\<close> closure the log's IPC readers share.\<close>

fun as_ipc :: "app_event \<Rightarrow> ipc_call option" where
  "as_ipc (Ipc c) = Some c"
| "as_ipc _ = None"

section \<open>The event log\<close>

record event_log =
  el_events :: "app_event list"
  el_max_capacity :: usize

definition event_log_new :: "usize \<Rightarrow> event_log" where
  "event_log_new max_capacity = \<lparr> el_events = [], el_max_capacity = max_capacity \<rparr>"

definition el_capacity :: "event_log \<Rightarrow> usize" where
  "el_capacity l = el_max_capacity l"

definition el_push :: "app_event \<Rightarrow> event_log \<Rightarrow> event_log" where
  "el_push event l =
     (let events = el_events l;
          events = (if length events \<ge> el_max_capacity l then tl events else events)
      in l\<lparr>el_events := events @ [event]\<rparr>)"

definition el_snapshot :: "event_log \<Rightarrow> app_event list" where
  "el_snapshot l = el_events l"

definition snapshot_range :: "usize \<Rightarrow> usize \<Rightarrow> event_log \<Rightarrow> app_event list" where
  "snapshot_range offset limit l = take limit (drop offset (el_events l))"

definition el_since :: "timestamp \<Rightarrow> event_log \<Rightarrow> app_event list" where
  "el_since t l = filter (\<lambda>e. event_timestamp e \<ge> t) (el_events l)"

definition ipc_calls :: "event_log \<Rightarrow> ipc_call list" where
  "ipc_calls l = List.map_filter as_ipc (el_events l)"

definition recent_ipc_calls :: "usize \<Rightarrow> event_log \<Rightarrow> ipc_call list" where
  "recent_ipc_calls limit l = rev (take limit (List.map_filter as_ipc (rev (el_events l))))"

text \<open>The \<^verbatim>\<open>BTreeSet\<close> of names as the strictly increasing list of its elements.\<close>

fun ordered_insert :: "'a :: linorder \<Rightarrow> 'a list \<Rightarrow> 'a list" where
  "ordered_insert x [] = [x]"
| "ordered_insert x (y # ys) =
     (if x = y then y # ys else if x < y then x # y # ys else y # ordered_insert x ys)"

definition ipc_command_names :: "event_log \<Rightarrow> string list" where
  "ipc_command_names l =
     fold (\<lambda>e names. case e of
             Ipc c \<Rightarrow> (if ic_command c \<in> set names then names
                       else ordered_insert (ic_command c) names)
           | _ \<Rightarrow> names)
       (el_events l) []"

text \<open>
  \<^verbatim>\<open>for_each_ipc_call\<close> runs a closure with captured mutable state \<open>a\<close> over the calls.
\<close>

definition for_each_ipc_call :: "event_log \<Rightarrow> (ipc_call \<Rightarrow> 'a \<Rightarrow> 'a) \<Rightarrow> 'a \<Rightarrow> 'a" where
  "for_each_ipc_call l f a =
     fold (\<lambda>e a. case e of Ipc c \<Rightarrow> f c a | _ \<Rightarrow> a) (el_events l) a"

definition ipc_calls_since :: "timestamp \<Rightarrow> event_log \<Rightarrow> ipc_call list" where
  "ipc_calls_since t l =
     List.map_filter
       (\<lambda>e. case e of Ipc c \<Rightarrow> (if ic_timestamp c \<ge> t then Some c else None) | _ \<Rightarrow> None)
       (el_events l)"

definition el_len :: "event_log \<Rightarrow> usize" where
  "el_len l = length (el_events l)"

definition el_is_empty :: "event_log \<Rightarrow> bool" where
  "el_is_empty l = (el_events l = [])"

definition el_clear :: "event_log \<Rightarrow> event_log" where
  "el_clear l = l\<lparr>el_events := []\<rparr>"

section \<open>The log keeps the newest events\<close>

lemma el_push_push_evict:
  "el_push e l = l\<lparr>el_events := push_evict (el_max_capacity l) (el_events l) e\<rparr>"
  by (simp add: el_push_def push_evict_def Let_def)

interpretation event_log: bounded_log el_events el_max_capacity el_push
  by unfold_locales (simp_all add: el_push_push_evict)

text \<open>The invariant every operation keeps: at most \<open>max 1 capacity\<close> events.\<close>

definition event_log_inv :: "event_log \<Rightarrow> bool" where
  "event_log_inv l = (length (el_events l) \<le> max 1 (el_max_capacity l))"

lemma event_log_inv_new [simp]: "event_log_inv (event_log_new c)"
  by (simp add: event_log_inv_def event_log_new_def)

lemma event_log_inv_push: "event_log_inv l \<Longrightarrow> event_log_inv (el_push e l)"
  unfolding event_log_inv_def by (rule event_log.bounded_push)

lemma event_log_inv_clear: "event_log_inv (el_clear l)"
  by (simp add: event_log_inv_def el_clear_def)

text \<open>Operations that change the log, and any interleaving of them by the threads sharing it.\<close>

datatype log_op = LPush app_event | LClear

fun log_op_run :: "log_op \<Rightarrow> event_log \<Rightarrow> event_log" where
  "log_op_run (LPush e) = el_push e"
| "log_op_run LClear = el_clear"

text \<open>The abstract log: every event pushed since the last clear.\<close>

fun log_history :: "log_op \<Rightarrow> app_event list \<Rightarrow> app_event list" where
  "log_history (LPush e) h = h @ [e]"
| "log_history LClear h = []"

lemma log_history_refines:
  assumes "el_events l = take_last (max 1 (el_max_capacity l)) h"
  shows "el_events (fold log_op_run ops l) =
           take_last (max 1 (el_max_capacity l)) (fold log_history ops h) \<and>
         el_max_capacity (fold log_op_run ops l) = el_max_capacity l"
  using assms
proof (induction ops arbitrary: l h)
  case Nil
  then show ?case by simp
next
  case (Cons op ops)
  have "el_max_capacity (log_op_run op l) = el_max_capacity l"
    by (cases op) (simp_all add: event_log.cap_push el_clear_def)
  moreover have "el_events (log_op_run op l) =
      take_last (max 1 (el_max_capacity l)) (log_history op h)"
    using Cons.prems
    by (cases op) (simp_all add: event_log.items_push push_evict_take_last_Suc el_clear_def)
  ultimately show ?case
    using Cons.IH [of "log_op_run op l" "log_history op h"] by simp
qed

section \<open>The readers agree\<close>

lemma map_filter_append [simp]:
  "List.map_filter f (xs @ ys) = List.map_filter f xs @ List.map_filter f ys"
  by (simp add: List.map_filter_def)

lemma map_filter_rev: "List.map_filter f (rev xs) = rev (List.map_filter f xs)"
  by (simp add: List.map_filter_def rev_map rev_filter)

lemma map_filter_Nil_Cons [simp]:
  "List.map_filter f [] = []"
  "List.map_filter f (x # xs) = (case f x of None \<Rightarrow> List.map_filter f xs | Some y \<Rightarrow> y # List.map_filter f xs)"
  by (simp_all add: List.map_filter_def split: option.splits)

lemma recent_ipc_calls_eq: "recent_ipc_calls limit l = take_last limit (ipc_calls l)"
  by (simp add: recent_ipc_calls_def ipc_calls_def map_filter_rev rev_take_rev)

lemma ipc_calls_since_eq: "ipc_calls_since t l = filter (\<lambda>c. ic_timestamp c \<ge> t) (ipc_calls l)"
proof -
  have "List.map_filter (\<lambda>e. case e of Ipc c \<Rightarrow> (if ic_timestamp c \<ge> t then Some c else None) | _ \<Rightarrow> None) es
        = filter (\<lambda>c. ic_timestamp c \<ge> t) (List.map_filter as_ipc es)" for es
    by (induction es) (auto split: app_event.splits)
  then show ?thesis by (simp add: ipc_calls_since_def ipc_calls_def)
qed

lemma for_each_ipc_call_eq: "for_each_ipc_call l f a = fold f (ipc_calls l) a"
proof -
  have "fold (\<lambda>e a. case e of Ipc c \<Rightarrow> f c a | _ \<Rightarrow> a) es b = fold f (List.map_filter as_ipc es) b"
    for es b
    by (induction es arbitrary: b) (auto split: app_event.splits)
  then show ?thesis by (simp add: for_each_ipc_call_def ipc_calls_def)
qed

lemma set_ordered_insert [simp]: "set (ordered_insert x xs) = insert x (set xs)"
  by (induction xs) auto

lemma sorted_ordered_insert:
  "sorted_wrt (<) xs \<Longrightarrow> sorted_wrt (<) (ordered_insert x xs)"
  by (induction xs) auto

lemma ipc_command_names_aux:
  "sorted_wrt (<) ns \<Longrightarrow>
   sorted_wrt (<) (fold (\<lambda>e names. case e of
             Ipc c \<Rightarrow> (if ic_command c \<in> set names then names
                       else ordered_insert (ic_command c) names)
           | _ \<Rightarrow> names) es ns) \<and>
   set (fold (\<lambda>e names. case e of
             Ipc c \<Rightarrow> (if ic_command c \<in> set names then names
                       else ordered_insert (ic_command c) names)
           | _ \<Rightarrow> names) es ns) = set ns \<union> ic_command ` set (List.map_filter as_ipc es)"
proof (induction es arbitrary: ns)
  case Nil
  then show ?case by simp
next
  case (Cons e es)
  then show ?case by (cases e) (auto simp: sorted_ordered_insert insert_absorb)
qed

lemma ipc_command_names_sorted: "sorted_wrt (<) (ipc_command_names l)"
  and set_ipc_command_names: "set (ipc_command_names l) = ic_command ` set (ipc_calls l)"
  using ipc_command_names_aux [of "[]" "el_events l"]
  by (simp_all add: ipc_command_names_def ipc_calls_def)


section \<open>Properties\<close>

text \<open>
  The event log is the newest part of its history.  After any sequence of pushes and
  clears (by any threads, in any order the lock admits) the snapshot is the last
  \<open>max 1 capacity\<close> of the events pushed since the last clear, oldest first: nothing newer is
  lost, nothing older is kept, nothing is reordered.  A log created with capacity 0 still
  keeps one event, although \<^verbatim>\<open>capacity()\<close> reports 0.
\<close>

theorem event_log_keeps_newest:
  "el_snapshot (fold log_op_run ops (event_log_new c)) =
     take_last (max 1 c) (fold log_history ops []) \<and>
   el_capacity (fold log_op_run ops (event_log_new c)) = c"
  using log_history_refines [of "event_log_new c" "[]" ops]
  by (simp add: event_log_new_def el_snapshot_def el_capacity_def)

text \<open>
  The log's readers agree with each other.  The bounded reader returns the newest
  \<open>limit\<close> of the IPC calls the unbounded one returns; the time-filtered reader returns those
  calls not older than the given time; the distinct command names are exactly the commands of
  those calls, in strictly increasing order; and the in-place scan visits exactly those calls,
  in order.
\<close>

theorem event_log_readers_agree:
  "recent_ipc_calls limit l = take_last limit (ipc_calls l) \<and>
   ipc_calls_since t l = filter (\<lambda>c. t \<le> ic_timestamp c) (ipc_calls l) \<and>
   set (ipc_command_names l) = ic_command ` set (ipc_calls l) \<and>
   sorted_wrt (<) (ipc_command_names l) \<and>
   for_each_ipc_call l f a = fold f (ipc_calls l) a"
  by (simp add: recent_ipc_calls_eq ipc_calls_since_eq set_ipc_command_names
      ipc_command_names_sorted for_each_ipc_call_eq)

end
