(* ===== verification/Victauri_Error.thy ===== *)
theory Victauri_Error
  imports Victauri_Prelude
begin

text \<open>
  \<^verbatim>\<open>crates/victauri-core/src/error.rs\<close>: the error values of the core crate.  Its
  \<^verbatim>\<open>Result<T>\<close> is the sum \<open>victauri_error + 'a\<close>.  The \<^verbatim>\<open>Serialization\<close> variant carries the
  text of the underlying \<^verbatim>\<open>serde_json\<close> error.
\<close>

datatype victauri_error =
    CapacityExceeded string
  | Serialization string
  | InvalidInput string
  | NoActiveRecording
  | RecordingAlreadyActive
  | CheckpointNotFound string
  | CommandNotFound string
  | InvalidRefHandle string
  | UnknownCondition string

type_synonym 'a result = "victauri_error + 'a"

definition capacity_exceeded :: "string \<Rightarrow> victauri_error" where
  "capacity_exceeded message = CapacityExceeded message"

definition invalid_input :: "string \<Rightarrow> victauri_error" where
  "invalid_input message = InvalidInput message"

text \<open>The \<^verbatim>\<open>Display\<close> text \<^verbatim>\<open>thiserror\<close> derives.\<close>

fun error_to_string :: "victauri_error \<Rightarrow> string" where
  "error_to_string (CapacityExceeded message) = ''capacity limit exceeded: '' @ message"
| "error_to_string (Serialization e) = ''serialization error: '' @ e"
| "error_to_string (InvalidInput message) = ''invalid input: '' @ message"
| "error_to_string NoActiveRecording = ''no active recording session''"
| "error_to_string RecordingAlreadyActive = ''recording session already active''"
| "error_to_string (CheckpointNotFound i) = ''checkpoint not found: '' @ i"
| "error_to_string (CommandNotFound n) = ''command not found: '' @ n"
| "error_to_string (InvalidRefHandle r) = ''invalid ref handle: '' @ r"
| "error_to_string (UnknownCondition c) = ''unknown assertion condition: '' @ c"

end
