(* ===== verification/Recording.thy ===== *)
theory Recording
  imports Event Victauri_Error
begin

text \<open>
  \<^verbatim>\<open>crates/victauri-core/src/recording.rs\<close>: the session recorder.  Each method takes the
  recorder's mutex once, so it is a function on the recorder's state; the exception is
  \<^verbatim>\<open>import\<close>/\<^verbatim>\<open>import_if_idle\<close>, which build the imported recording (and take its
  generation) before they take the lock.  The step relation of the last section keeps those
  two halves apart and interleaves everything.  \<^verbatim>\<open>Utc::now()\<close> is the argument \<open>now\<close>.
\<close>

section \<open>State\<close>

definition DEFAULT_MAX_CHECKPOINTS :: usize where
  "DEFAULT_MAX_CHECKPOINTS = 1000"

definition DEFAULT_MAX_EVENTS :: usize where
  "DEFAULT_MAX_EVENTS = 50000"

record state_checkpoint =
  cp_id :: string
  cp_label :: "string option"
  cp_timestamp :: timestamp
  cp_state :: json
  cp_event_index :: usize

record recorded_event =
  re_index :: usize
  re_timestamp :: timestamp
  re_event :: app_event

record recorded_session =
  rs_id :: string
  rs_started_at :: timestamp
  rs_events :: "recorded_event list"
  rs_checkpoints :: "state_checkpoint list"

record checkpoint_window_rec =
  cw_events :: "recorded_event list"
  cw_dropped :: usize

record active_recording =
  ar_session_id :: string
  ar_generation :: u64
  ar_started_at :: timestamp
  ar_events :: "recorded_event list"
  ar_checkpoints :: "state_checkpoint list"
  ar_event_counter :: usize
  ar_max_events :: usize
  ar_max_checkpoints :: usize

record event_recorder =
  er_recording :: "active_recording option"
  er_last_session :: "recorded_session option"
  er_max_events :: usize
  er_generations :: u64

definition recorded_session_new ::
  "string \<Rightarrow> timestamp \<Rightarrow> recorded_event list \<Rightarrow> state_checkpoint list \<Rightarrow> recorded_session" where
  "recorded_session_new id' started_at events checkpoints =
     \<lparr> rs_id = id', rs_started_at = started_at, rs_events = events, rs_checkpoints = checkpoints \<rparr>"

definition recorded_event_new :: "usize \<Rightarrow> timestamp \<Rightarrow> app_event \<Rightarrow> recorded_event" where
  "recorded_event_new index timestamp event =
     \<lparr> re_index = index, re_timestamp = timestamp, re_event = event \<rparr>"

definition recorder_new :: "usize \<Rightarrow> event_recorder" where
  "recorder_new max_events =
     \<lparr> er_recording = None, er_last_session = None, er_max_events = max_events, er_generations = 0 \<rparr>"

definition recorder_default :: event_recorder where
  "recorder_default = recorder_new DEFAULT_MAX_EVENTS"

section \<open>Starting and stopping\<close>

text \<open>\<^verbatim>\<open>fetch_add\<close> wraps at 64 bits and returns the old value; the new generation is one more.\<close>

definition next_generation :: "event_recorder \<Rightarrow> u64 \<times> event_recorder" where
  "next_generation r =
     (let old = er_generations r
      in (old + 1, r\<lparr>er_generations := (old + 1) mod 2 ^ 64\<rparr>))"

definition start_session :: "string \<Rightarrow> timestamp \<Rightarrow> event_recorder \<Rightarrow> u64 result \<times> event_recorder" where
  "start_session session_id now r =
     (if er_recording r \<noteq> None then (Inl RecordingAlreadyActive, r)
      else let (generation, r) = next_generation r
           in (Inr generation,
               r\<lparr>er_recording := Some
                 \<lparr> ar_session_id = session_id, ar_generation = generation, ar_started_at = now,
                   ar_events = [], ar_checkpoints = [], ar_event_counter = 0,
                   ar_max_events = er_max_events r,
                   ar_max_checkpoints = DEFAULT_MAX_CHECKPOINTS \<rparr>\<rparr>))"

definition start :: "string \<Rightarrow> timestamp \<Rightarrow> event_recorder \<Rightarrow> unit result \<times> event_recorder" where
  "start session_id now r =
     (let (res, r') = start_session session_id now r
      in (case res of Inl e \<Rightarrow> Inl e | Inr _ \<Rightarrow> Inr (), r'))"

definition session_of :: "active_recording \<Rightarrow> recorded_session" where
  "session_of a =
     \<lparr> rs_id = ar_session_id a, rs_started_at = ar_started_at a,
       rs_events = ar_events a, rs_checkpoints = ar_checkpoints a \<rparr>"

definition finish :: "event_recorder \<Rightarrow> recorded_session option \<times> event_recorder" where
  "finish r = (case er_recording r of
       None \<Rightarrow> (None, r)
     | Some a \<Rightarrow> (Some (session_of a), r\<lparr>er_recording := None, er_last_session := Some (session_of a)\<rparr>))"

definition stop :: "event_recorder \<Rightarrow> recorded_session option \<times> event_recorder" where
  "stop r = finish r"

definition stop_if_session :: "string \<Rightarrow> event_recorder \<Rightarrow> recorded_session option \<times> event_recorder" where
  "stop_if_session session_id r =
     (if (case er_recording r of None \<Rightarrow> False | Some a \<Rightarrow> ar_session_id a = session_id)
      then finish r else (None, r))"

definition stop_if_generation :: "u64 \<Rightarrow> event_recorder \<Rightarrow> recorded_session option \<times> event_recorder" where
  "stop_if_generation generation r =
     (if (case er_recording r of None \<Rightarrow> False | Some a \<Rightarrow> ar_generation a = generation)
      then finish r else (None, r))"

definition is_recording :: "event_recorder \<Rightarrow> bool" where
  "is_recording r = (er_recording r \<noteq> None)"

definition generation :: "event_recorder \<Rightarrow> u64 option" where
  "generation r = map_option ar_generation (er_recording r)"

definition active_session_id :: "event_recorder \<Rightarrow> string option" where
  "active_session_id r = map_option ar_session_id (er_recording r)"

definition started_at :: "event_recorder \<Rightarrow> timestamp option" where
  "started_at r = map_option ar_started_at (er_recording r)"

section \<open>Recording\<close>

definition append_event :: "app_event \<Rightarrow> active_recording \<Rightarrow> active_recording" where
  "append_event event a =
     (let timestamp = event_timestamp event;
          index = ar_event_counter a;
          a = a\<lparr>ar_event_counter := sat_add (ar_event_counter a) 1\<rparr>;
          events = (if length (ar_events a) \<ge> ar_max_events a then tl (ar_events a) else ar_events a)
      in a\<lparr>ar_events := events @ [\<lparr> re_index = index, re_timestamp = timestamp, re_event = event \<rparr>]\<rparr>)"

definition record_event :: "app_event \<Rightarrow> event_recorder \<Rightarrow> event_recorder" where
  "record_event event r = (case er_recording r of
       None \<Rightarrow> r
     | Some a \<Rightarrow> r\<lparr>er_recording := Some (append_event event a)\<rparr>)"

definition record_event_if :: "u64 \<Rightarrow> app_event \<Rightarrow> event_recorder \<Rightarrow> bool \<times> event_recorder" where
  "record_event_if gen event r = (case er_recording r of
       Some a \<Rightarrow> (if ar_generation a = gen
                  then (True, r\<lparr>er_recording := Some (append_event event a)\<rparr>) else (False, r))
     | None \<Rightarrow> (False, r))"

definition push_checkpoint :: "state_checkpoint \<Rightarrow> active_recording \<Rightarrow> active_recording" where
  "push_checkpoint c a =
     (let cps = (if length (ar_checkpoints a) \<ge> ar_max_checkpoints a then tl (ar_checkpoints a)
                 else ar_checkpoints a)
      in a\<lparr>ar_checkpoints := cps @ [c]\<rparr>)"

definition checkpoint ::
  "string \<Rightarrow> string option \<Rightarrow> json \<Rightarrow> timestamp \<Rightarrow> event_recorder \<Rightarrow> unit result \<times> event_recorder" where
  "checkpoint cid label st now r = (case er_recording r of
       Some a \<Rightarrow>
         (if \<exists>c \<in> set (ar_checkpoints a). cp_id c = cid
          then (Inl (invalid_input (''checkpoint id '' @ [CHR 39] @ cid @ [CHR 39] @
                  '' already exists in this recording'')), r)
          else (Inr (), r\<lparr>er_recording := Some (push_checkpoint
                 \<lparr> cp_id = cid, cp_label = label, cp_timestamp = now, cp_state = st,
                   cp_event_index = ar_event_counter a \<rparr> a)\<rparr>))
     | None \<Rightarrow> (Inl NoActiveRecording, r))"

section \<open>Reading\<close>

definition latest_event_timestamp :: "event_recorder \<Rightarrow> timestamp option" where
  "latest_event_timestamp r =
     map_option (\<lambda>a. case map re_timestamp (ar_events a) of
                       [] \<Rightarrow> ar_started_at a | t # ts \<Rightarrow> fold max ts t)
       (er_recording r)"

definition event_count :: "event_recorder \<Rightarrow> usize" where
  "event_count r = (case er_recording r of None \<Rightarrow> 0 | Some a \<Rightarrow> length (ar_events a))"

definition checkpoint_count :: "event_recorder \<Rightarrow> usize" where
  "checkpoint_count r = (case er_recording r of None \<Rightarrow> 0 | Some a \<Rightarrow> length (ar_checkpoints a))"

definition events_since :: "usize \<Rightarrow> event_recorder \<Rightarrow> recorded_event list" where
  "events_since index r = (case er_recording r of
       Some a \<Rightarrow> filter (\<lambda>e. re_index e \<ge> index) (ar_events a)
     | None \<Rightarrow> (case er_last_session r of
           None \<Rightarrow> []
         | Some s \<Rightarrow> filter (\<lambda>e. re_index e \<ge> index) (rs_events s)))"

definition events_between :: "timestamp \<Rightarrow> timestamp \<Rightarrow> event_recorder \<Rightarrow> recorded_event list" where
  "events_between from to r = (case er_recording r of
       Some a \<Rightarrow> filter (\<lambda>e. re_timestamp e \<ge> from \<and> re_timestamp e \<le> to) (ar_events a)
     | None \<Rightarrow> (case er_last_session r of
           None \<Rightarrow> []
         | Some s \<Rightarrow> filter (\<lambda>e. re_timestamp e \<ge> from \<and> re_timestamp e \<le> to) (rs_events s)))"

definition get_checkpoints :: "event_recorder \<Rightarrow> state_checkpoint list" where
  "get_checkpoints r = (case er_recording r of
       Some a \<Rightarrow> ar_checkpoints a
     | None \<Rightarrow> (case er_last_session r of None \<Rightarrow> [] | Some s \<Rightarrow> rs_checkpoints s))"

definition checkpoint_window :: "string \<Rightarrow> string \<Rightarrow> event_recorder \<Rightarrow> checkpoint_window_rec result" where
  "checkpoint_window from_id to_id r =
     (case (case er_recording r of
              Some a \<Rightarrow> Inr (ar_checkpoints a, ar_events a)
            | None \<Rightarrow> (case er_last_session r of
                  None \<Rightarrow> Inl NoActiveRecording
                | Some s \<Rightarrow> Inr (rs_checkpoints s, rs_events s))) of
        Inl e \<Rightarrow> Inl e
      | Inr (source_checkpoints, source_events) \<Rightarrow>
          (case List.find (\<lambda>c. cp_id c = from_id) source_checkpoints of
             None \<Rightarrow> Inl (CheckpointNotFound from_id)
           | Some c1 \<Rightarrow>
          (case List.find (\<lambda>c. cp_id c = to_id) source_checkpoints of
             None \<Rightarrow> Inl (CheckpointNotFound to_id)
           | Some c2 \<Rightarrow>
               let from_idx = cp_event_index c1; to_idx = cp_event_index c2;
                   (st, en) = (if from_idx \<le> to_idx then (from_idx, to_idx) else (to_idx, from_idx));
                   events = filter (\<lambda>e. re_index e \<ge> st \<and> re_index e < en) source_events
               in Inr \<lparr> cw_events = events, cw_dropped = sat_sub (en - st) (length events) \<rparr>)))"

definition events_between_checkpoints :: "string \<Rightarrow> string \<Rightarrow> event_recorder \<Rightarrow> recorded_event list result" where
  "events_between_checkpoints from_id to_id r =
     (case checkpoint_window from_id to_id r of Inl e \<Rightarrow> Inl e | Inr w \<Rightarrow> Inr (cw_events w))"

definition export :: "event_recorder \<Rightarrow> recorded_session option" where
  "export r = (case er_recording r of Some a \<Rightarrow> Some (session_of a) | None \<Rightarrow> er_last_session r)"

definition ipc_replay_sequence :: "event_recorder \<Rightarrow> ipc_call list" where
  "ipc_replay_sequence r = (case er_recording r of
       Some a \<Rightarrow> List.map_filter (\<lambda>re. as_ipc (re_event re)) (ar_events a)
     | None \<Rightarrow> (case er_last_session r of
           None \<Rightarrow> []
         | Some s \<Rightarrow> List.map_filter (\<lambda>re. as_ipc (re_event re)) (rs_events s)))"

section \<open>Importing\<close>

text \<open>The \<^verbatim>\<open>while events.len() > max { events.pop_front() }\<close> loops.\<close>

fun clamp_front :: "nat \<Rightarrow> 'a list \<Rightarrow> 'a list" where
  "clamp_front n [] = []"
| "clamp_front n (x # xs) = (if length (x # xs) > n then clamp_front n xs else x # xs)"

definition imported :: "recorded_session \<Rightarrow> event_recorder \<Rightarrow> active_recording \<times> event_recorder" where
  "imported s r =
     (let max_events = er_max_events r;
          max_checkpoints = DEFAULT_MAX_CHECKPOINTS;
          events = clamp_front max_events (rs_events s);
          checkpoints = clamp_front max_checkpoints (rs_checkpoints s);
          event_counter = fold max (map (\<lambda>e. sat_add (re_index e) 1) events @
                                    map cp_event_index checkpoints) 0;
          (gen, r) = next_generation r
      in (\<lparr> ar_session_id = rs_id s, ar_generation = gen, ar_started_at = rs_started_at s,
            ar_events = events, ar_checkpoints = checkpoints, ar_event_counter = event_counter,
            ar_max_events = max_events, ar_max_checkpoints = max_checkpoints \<rparr>, r))"

definition import_session :: "recorded_session \<Rightarrow> event_recorder \<Rightarrow> event_recorder" where
  "import_session s r = (let (a, r) = imported s r in r\<lparr>er_recording := Some a\<rparr>)"

definition import_if_idle :: "recorded_session \<Rightarrow> event_recorder \<Rightarrow> u64 result \<times> event_recorder" where
  "import_if_idle s r =
     (let (a, r) = imported s r;
          gen = ar_generation a
      in if er_recording r \<noteq> None then (Inl RecordingAlreadyActive, r)
         else (Inr gen, r\<lparr>er_recording := Some a\<rparr>))"


section \<open>The buffers keep the newest entries\<close>

lemma append_event_eq:
  "append_event e a =
     a\<lparr>ar_event_counter := sat_add (ar_event_counter a) 1,
       ar_events := push_evict (ar_max_events a) (ar_events a)
         (recorded_event_new (ar_event_counter a) (event_timestamp e) e)\<rparr>"
  by (simp add: append_event_def push_evict_def recorded_event_new_def Let_def)

lemma push_checkpoint_eq:
  "push_checkpoint c a =
     a\<lparr>ar_checkpoints := push_evict (ar_max_checkpoints a) (ar_checkpoints a) c\<rparr>"
  by (simp add: push_checkpoint_def push_evict_def Let_def)

lemmas recording_defs =
  start_session_def next_generation_def finish_def stop_def stop_if_session_def
  stop_if_generation_def record_event_def record_event_if_def checkpoint_def
  generation_def session_of_def

interpretation rec_events: bounded_log "\<lambda>a. map re_event (ar_events a)" ar_max_events append_event
  by unfold_locales (simp_all add: append_event_eq map_push_evict recorded_event_new_def)

interpretation rec_checkpoints: bounded_log ar_checkpoints ar_max_checkpoints push_checkpoint
  by unfold_locales (simp_all add: push_checkpoint_eq)

definition recording_bounded :: "active_recording \<Rightarrow> bool" where
  "recording_bounded a =
     (length (ar_events a) \<le> max 1 (ar_max_events a) \<and>
      length (ar_checkpoints a) \<le> max 1 (ar_max_checkpoints a))"

lemma recording_bounded_append: "recording_bounded a \<Longrightarrow> recording_bounded (append_event e a)"
  using rec_events.bounded_push [of a e]
  by (simp add: recording_bounded_def append_event_eq)

lemma recording_bounded_checkpoint: "recording_bounded a \<Longrightarrow> recording_bounded (push_checkpoint c a)"
  using rec_checkpoints.bounded_push [of a c]
  by (simp add: recording_bounded_def push_checkpoint_eq)

lemma clamp_front_take_last: "clamp_front n xs = take_last n xs"
proof (induction xs)
  case Nil
  then show ?case by simp
next
  case (Cons x xs)
  then show ?case by (auto simp: take_last_def Suc_diff_le not_le)
qed

lemma recording_bounded_imported: "recording_bounded (fst (imported s r))"
  by (auto simp: imported_def next_generation_def recording_bounded_def clamp_front_take_last Let_def)

section \<open>Refinement: the recording is a numbered history\<close>

definition numbered :: "app_event list \<Rightarrow> recorded_event list" where
  "numbered h = map (\<lambda>i. recorded_event_new i (event_timestamp (h ! i)) (h ! i)) [0..<length h]"

definition records :: "app_event list \<Rightarrow> active_recording \<Rightarrow> bool" where
  "records h a =
     (ar_event_counter a = length h \<and>
      ar_events a = take_last (max 1 (ar_max_events a)) (numbered h))"

lemma length_numbered [simp]: "length (numbered h) = length h"
  by (simp add: numbered_def)

lemma numbered_snoc:
  "numbered (h @ [e]) = numbered h @ [recorded_event_new (length h) (event_timestamp e) e]"
  by (simp add: numbered_def nth_append cong: map_cong)

lemma records_append:
  "records h a \<Longrightarrow> length h < u64_max \<Longrightarrow> records (h @ [e]) (append_event e a)"
  by (simp add: records_def append_event_eq numbered_snoc push_evict_take_last_Suc sat_add_exact)

lemma records_push_checkpoint: "records h (push_checkpoint c a) = records h a"
  by (simp add: records_def push_checkpoint_eq)

lemma filter_upt_range:
  "filter (\<lambda>i. a \<le> i \<and> i < b) [k..<n] = [max a k..<min b n]"
proof (induction n)
  case 0
  then show ?case by simp
next
  case (Suc n)
  then show ?case by (auto simp: min_def max_def le_Suc_eq not_less)
qed

lemma take_drop_upt: "b \<le> length h \<Longrightarrow> take (b - a) (drop a h) = map ((!) h) [a..<b]"
  by (rule nth_equalityI) auto

lemma filter_numbered:
  assumes "en \<le> length h"
  shows "filter (\<lambda>e. st \<le> re_index e \<and> re_index e < en) (take_last n (numbered h)) =
           map (\<lambda>i. recorded_event_new i (event_timestamp (h ! i)) (h ! i))
             [max st (length h - n)..<en]"
  using assms
  by (simp add: take_last_def numbered_def drop_map filter_map comp_def recorded_event_new_def
      filter_upt_range min_absorb1)

lemma window_of_history:
  assumes "en \<le> length h" "st \<le> en"
  shows "map re_event (filter (\<lambda>e. st \<le> re_index e \<and> re_index e < en) (take_last n (numbered h))) =
         drop (en - st - length (filter (\<lambda>e. st \<le> re_index e \<and> re_index e < en)
                 (take_last n (numbered h)))) (take (en - st) (drop st h))"
proof -
  have "map ((!) h) [max st (length h - n)..<en] =
        drop (en - st - (en - max st (length h - n))) (map ((!) h) [st..<en])"
  proof (cases "max st (length h - n) \<le> en")
    case True
    then have "st + (en - st - (en - max st (length h - n))) = max st (length h - n)"
      using assms(2) by (simp add: max_def)
    then show ?thesis by (simp add: drop_map)
  next
    case False
    then show ?thesis using assms(2) by auto
  qed
  then show ?thesis
    using assms by (simp add: filter_numbered take_drop_upt comp_def recorded_event_new_def)
qed

text \<open>Recording and checkpointing as one sequence of operations of an active session.\<close>

datatype rec_op = OEvent app_event | OCheckpoint string "string option" json timestamp

fun rec_op_run :: "rec_op \<Rightarrow> event_recorder \<Rightarrow> event_recorder" where
  "rec_op_run (OEvent e) r = record_event e r"
| "rec_op_run (OCheckpoint c l st t) r = snd (checkpoint c l st t r)"

fun op_events :: "rec_op list \<Rightarrow> app_event list" where
  "op_events [] = []"
| "op_events (OEvent e # ops) = e # op_events ops"
| "op_events (OCheckpoint _ _ _ _ # ops) = op_events ops"

text \<open>Each checkpoint id with the number of events recorded before it.\<close>

fun op_marks :: "nat \<Rightarrow> rec_op list \<Rightarrow> (string \<times> nat) list" where
  "op_marks n [] = []"
| "op_marks n (OEvent e # ops) = op_marks (Suc n) ops"
| "op_marks n (OCheckpoint c _ _ _ # ops) = (c, n) # op_marks n ops"

fun op_ids :: "rec_op list \<Rightarrow> string list" where
  "op_ids [] = []"
| "op_ids (OEvent _ # ops) = op_ids ops"
| "op_ids (OCheckpoint c _ _ _ # ops) = c # op_ids ops"

lemma op_events_append [simp]: "op_events (xs @ ys) = op_events xs @ op_events ys"
  by (induction xs rule: op_events.induct) simp_all

lemma op_marks_append [simp]:
  "op_marks n (xs @ ys) = op_marks n xs @ op_marks (n + length (op_events xs)) ys"
  by (induction n xs rule: op_marks.induct) simp_all

lemma op_ids_append [simp]: "op_ids (xs @ ys) = op_ids xs @ op_ids ys"
  by (induction xs rule: op_ids.induct) simp_all

lemma fst_op_marks: "map fst (op_marks n ops) = op_ids ops"
  by (induction n ops rule: op_marks.induct) simp_all

definition marks_of :: "state_checkpoint list \<Rightarrow> (string \<times> nat) list" where
  "marks_of cs = map (\<lambda>c. (cp_id c, cp_event_index c)) cs"

lemma find_checkpoint:
  "map_option cp_event_index (List.find (\<lambda>c. cp_id c = x) cs) = map_of (marks_of cs) x"
  by (induction cs) (simp_all add: marks_of_def)

lemma rec_ops_run:
  assumes "er_recording r = Some a" "records h a"
    and "distinct (map fst (marks_of (ar_checkpoints a)) @ op_ids ops)"
    and "length (ar_checkpoints a) + length (op_ids ops) \<le> ar_max_checkpoints a"
    and "length h + length (op_events ops) \<le> u64_max"
  shows "\<exists>a'. er_recording (fold rec_op_run ops r) = Some a' \<and>
           records (h @ op_events ops) a' \<and> ar_max_events a' = ar_max_events a \<and>
           marks_of (ar_checkpoints a') = marks_of (ar_checkpoints a) @ op_marks (length h) ops"
  using assms
proof (induction ops arbitrary: r a h)
  case Nil
  then show ?case by simp
next
  case (Cons op ops)
  show ?case
  proof (cases op)
    case (OEvent e)
    let ?a = "append_event e a"
    have "records (h @ [e]) ?a"
      using Cons.prems OEvent by (intro records_append) simp_all
    moreover have "ar_checkpoints ?a = ar_checkpoints a" "ar_max_events ?a = ar_max_events a"
      "ar_max_checkpoints ?a = ar_max_checkpoints a"
      by (simp_all add: append_event_eq)
    ultimately show ?thesis
      using Cons.IH [of "record_event e r" ?a "h @ [e]"] Cons.prems OEvent
      by (simp add: record_event_def)
  next
    case (OCheckpoint c l st t)
    let ?c = "\<lparr> cp_id = c, cp_label = l, cp_timestamp = t, cp_state = st,
                cp_event_index = ar_event_counter a \<rparr>"
    let ?a = "push_checkpoint ?c a"
    have new: "c \<notin> cp_id ` set (ar_checkpoints a)"
      using Cons.prems(3) OCheckpoint by (auto simp: marks_of_def)
    have cps: "ar_checkpoints ?a = ar_checkpoints a @ [?c]"
      using Cons.prems(4) OCheckpoint by (simp add: push_checkpoint_eq push_evict_def)
    have run: "er_recording (rec_op_run op r) = Some ?a"
      using Cons.prems(1) new OCheckpoint by (auto simp: checkpoint_def)
    have mx: "ar_max_events ?a = ar_max_events a" "ar_max_checkpoints ?a = ar_max_checkpoints a"
      by (simp_all add: push_checkpoint_eq)
    have cnt: "ar_event_counter a = length h"
      using Cons.prems(2) by (simp add: records_def)
    have mk: "marks_of (ar_checkpoints ?a) = marks_of (ar_checkpoints a) @ [(c, length h)]"
      unfolding cps by (simp add: marks_of_def cnt)
    have "\<exists>a'. er_recording (fold rec_op_run ops (rec_op_run op r)) = Some a' \<and>
           records (h @ op_events ops) a' \<and> ar_max_events a' = ar_max_events ?a \<and>
           marks_of (ar_checkpoints a') = marks_of (ar_checkpoints ?a) @ op_marks (length h) ops"
      using Cons.prems OCheckpoint
      by (intro Cons.IH run) (auto simp: records_push_checkpoint cps mx marks_of_def)
    then show ?thesis
      unfolding mk mx using OCheckpoint by simp
  qed
qed

lemma checkpoint_window_found:
  assumes "er_recording r = Some a"
    and "List.find (\<lambda>c. cp_id c = x) (ar_checkpoints a) = Some c"
    and "List.find (\<lambda>c. cp_id c = y) (ar_checkpoints a) = Some d"
    and "cp_event_index c \<le> cp_event_index d"
  shows "checkpoint_window x y r =
     Inr \<lparr> cw_events = filter (\<lambda>e. cp_event_index c \<le> re_index e \<and> re_index e < cp_event_index d) (ar_events a),
           cw_dropped = cp_event_index d - cp_event_index c -
             length (filter (\<lambda>e. cp_event_index c \<le> re_index e \<and> re_index e < cp_event_index d) (ar_events a)) \<rparr>"
  using assms by (simp add: checkpoint_window_def Let_def)

lemma checkpoint_window_active:
  assumes "er_recording r = Some a" "records h a"
    and "map_of (marks_of (ar_checkpoints a)) x = Some i"
    and "map_of (marks_of (ar_checkpoints a)) y = Some j"
    and "i \<le> j" "j \<le> length h"
  shows "\<exists>w. checkpoint_window x y r = Inr w \<and>
           map re_event (cw_events w) = drop (cw_dropped w) (take (j - i) (drop i h)) \<and>
           cw_dropped w = j - i - (j - max i (length h - max 1 (ar_max_events a)))"
proof -
  obtain c d where c: "List.find (\<lambda>c. cp_id c = x) (ar_checkpoints a) = Some c" "cp_event_index c = i"
    and d: "List.find (\<lambda>c. cp_id c = y) (ar_checkpoints a) = Some d" "cp_event_index d = j"
    using assms(3,4) find_checkpoint [of x "ar_checkpoints a"] find_checkpoint [of y "ar_checkpoints a"]
    by auto
  let ?n = "max 1 (ar_max_events a)"
  let ?es = "filter (\<lambda>e. i \<le> re_index e \<and> re_index e < j) (take_last ?n (numbered h))"
  have es: "ar_events a = take_last ?n (numbered h)"
    using assms(2) by (simp add: records_def)
  let ?w = "\<lparr>cw_events = ?es, cw_dropped = j - i - length ?es\<rparr>"
  have 1: "checkpoint_window x y r = Inr ?w"
    by (rule checkpoint_window_found [OF assms(1) c(1) d(1), unfolded c(2) d(2) es, OF assms(5)])
  have 2: "map re_event (cw_events ?w) = drop (cw_dropped ?w) (take (j - i) (drop i h))"
    unfolding checkpoint_window_rec.select_convs by (rule window_of_history [OF assms(6,5)])
  have 3: "cw_dropped ?w = j - i - (j - max i (length h - ?n))"
    by (simp only: checkpoint_window_rec.select_convs filter_numbered [OF assms(6)] length_map length_upt)
  show ?thesis
    by (rule exI [of _ ?w]) (intro conjI 1 2 3)
qed


section \<open>Export and import\<close>

lemma imported_generations:
  "imported s r = (a, r') \<Longrightarrow>
   ar_generation a = er_generations r + 1 \<and> er_recording r' = er_recording r \<and>
   er_last_session r' = er_last_session r \<and> er_max_events r' = er_max_events r \<and>
   er_generations r' = (er_generations r + 1) mod 2 ^ 64"
  by (auto simp: imported_def next_generation_def Let_def)

lemma session_of_imported:
  "session_of (fst (imported s r)) =
     \<lparr> rs_id = rs_id s, rs_started_at = rs_started_at s,
       rs_events = take_last (er_max_events r) (rs_events s),
       rs_checkpoints = take_last DEFAULT_MAX_CHECKPOINTS (rs_checkpoints s) \<rparr>"
  by (simp add: imported_def next_generation_def session_of_def clamp_front_take_last Let_def)

lemma export_import:
  "export (import_session s r) =
     Some \<lparr> rs_id = rs_id s, rs_started_at = rs_started_at s,
            rs_events = take_last (er_max_events r) (rs_events s),
            rs_checkpoints = take_last DEFAULT_MAX_CHECKPOINTS (rs_checkpoints s) \<rparr>"
  using session_of_imported [of s r]
  by (cases "imported s r") (simp add: export_def import_session_def)

lemma import_counter:
  assumes "imported s r = (a, r')"
  shows "e \<in> set (ar_events a) \<Longrightarrow> sat_add (re_index e) 1 \<le> ar_event_counter a"
    and "c \<in> set (ar_checkpoints a) \<Longrightarrow> cp_event_index c \<le> ar_event_counter a"
proof -
  have cnt: "ar_event_counter a = fold max (map (\<lambda>e. sat_add (re_index e) 1) (ar_events a) @
               map cp_event_index (ar_checkpoints a)) 0"
    using assms by (auto simp: imported_def next_generation_def Let_def)
  show "e \<in> set (ar_events a) \<Longrightarrow> sat_add (re_index e) 1 \<le> ar_event_counter a"
    unfolding cnt by (rule fold_max_ge) auto
  show "c \<in> set (ar_checkpoints a) \<Longrightarrow> cp_event_index c \<le> ar_event_counter a"
    unfolding cnt by (rule fold_max_ge) auto
qed

section \<open>Interleavings and ownership\<close>

text \<open>
  The recorder together with the imports that have built their recording but not yet
  taken the lock.  One rule per critical section of the code.  A recorder hands out fewer
  than \<open>2 ^ 64\<close> generations (the counter's premise in \<open>start\<close> and \<open>prepare\<close>).
\<close>

record rec_sys =
  sy_rec :: event_recorder
  sy_inflight :: "active_recording list"

definition rec_sys_init :: "usize \<Rightarrow> rec_sys" where
  "rec_sys_init max_events = \<lparr> sy_rec = recorder_new max_events, sy_inflight = [] \<rparr>"

inductive rec_step :: "rec_sys \<Rightarrow> rec_sys \<Rightarrow> bool" where
  start: "er_generations r < u64_max \<Longrightarrow>
    rec_step \<lparr>sy_rec = r, sy_inflight = f\<rparr> \<lparr>sy_rec = snd (start_session sid now r), sy_inflight = f\<rparr>"
| stop: "rec_step \<lparr>sy_rec = r, sy_inflight = f\<rparr> \<lparr>sy_rec = snd (stop r), sy_inflight = f\<rparr>"
| stop_session: "rec_step \<lparr>sy_rec = r, sy_inflight = f\<rparr> \<lparr>sy_rec = snd (stop_if_session sid r), sy_inflight = f\<rparr>"
| stop_gen: "rec_step \<lparr>sy_rec = r, sy_inflight = f\<rparr> \<lparr>sy_rec = snd (stop_if_generation g r), sy_inflight = f\<rparr>"
| event: "rec_step \<lparr>sy_rec = r, sy_inflight = f\<rparr> \<lparr>sy_rec = record_event e r, sy_inflight = f\<rparr>"
| event_if: "rec_step \<lparr>sy_rec = r, sy_inflight = f\<rparr> \<lparr>sy_rec = snd (record_event_if g e r), sy_inflight = f\<rparr>"
| checkpoint: "rec_step \<lparr>sy_rec = r, sy_inflight = f\<rparr> \<lparr>sy_rec = snd (checkpoint c l st now r), sy_inflight = f\<rparr>"
| prepare: "er_generations r < u64_max \<Longrightarrow> imported s r = (a, r') \<Longrightarrow>
    rec_step \<lparr>sy_rec = r, sy_inflight = f\<rparr> \<lparr>sy_rec = r', sy_inflight = a # f\<rparr>"
| commit: "a \<in> set f \<Longrightarrow>
    rec_step \<lparr>sy_rec = r, sy_inflight = f\<rparr> \<lparr>sy_rec = r\<lparr>er_recording := Some a\<rparr>, sy_inflight = remove1 a f\<rparr>"
| commit_idle: "a \<in> set f \<Longrightarrow> er_recording r = None \<Longrightarrow>
    rec_step \<lparr>sy_rec = r, sy_inflight = f\<rparr> \<lparr>sy_rec = r\<lparr>er_recording := Some a\<rparr>, sy_inflight = remove1 a f\<rparr>"
| refuse: "a \<in> set f \<Longrightarrow> er_recording r \<noteq> None \<Longrightarrow>
    rec_step \<lparr>sy_rec = r, sy_inflight = f\<rparr> \<lparr>sy_rec = r, sy_inflight = remove1 a f\<rparr>"

inductive_cases rec_stepE: "rec_step s t"

definition rec_current :: "rec_sys \<Rightarrow> u64 option" where
  "rec_current s = generation (sy_rec s)"

definition rec_live :: "rec_sys \<Rightarrow> nat set" where
  "rec_live s = set_option (rec_current s) \<union> ar_generation ` set (sy_inflight s) \<union>
     {g. er_generations (sy_rec s) < g}"

definition rec_inv :: "rec_sys \<Rightarrow> bool" where
  "rec_inv s =
     (er_generations (sy_rec s) \<le> u64_max \<and>
      distinct (map ar_generation (sy_inflight s)) \<and>
      (\<forall>a \<in> set (sy_inflight s). ar_generation a \<le> er_generations (sy_rec s) \<and> recording_bounded a) \<and>
      (\<forall>a. er_recording (sy_rec s) = Some a \<longrightarrow>
         ar_generation a \<le> er_generations (sy_rec s) \<and>
         ar_generation a \<notin> ar_generation ` set (sy_inflight s) \<and> recording_bounded a))"

lemma ar_generation_simps [simp]:
  "ar_generation (append_event e a) = ar_generation a"
  "ar_generation (push_checkpoint c a) = ar_generation a"
  by (simp_all add: append_event_eq push_checkpoint_eq)

lemma distinct_remove1_image:
  "distinct (map f xs) \<Longrightarrow> a \<in> set xs \<Longrightarrow>
   distinct (map f (remove1 a xs)) \<and> f a \<notin> f ` set (remove1 a xs) \<and> set (remove1 a xs) \<subseteq> set xs"
  by (induction xs) (auto intro: rev_image_eqI dest: set_remove1_subset [THEN subsetD])

lemma u64_wrap: "n < u64_max \<Longrightarrow> Suc n mod 18446744073709551616 = Suc n"
  by (simp add: u64_max_def)


lemma rec_inv_init: "rec_inv (rec_sys_init n)"
  by (simp add: rec_inv_def rec_sys_init_def recorder_new_def u64_max_def)

lemma rec_inv_step: "rec_step s t \<Longrightarrow> rec_inv s \<Longrightarrow> rec_inv t"
proof (induction rule: rec_step.induct)
  case (start r f sid now)
  then show ?case
    by (auto simp: rec_inv_def recording_defs u64_wrap recording_bounded_def Let_def)
next
  case (prepare r s a r' f)
  have "recording_bounded a"
    using recording_bounded_imported [of s r] prepare.hyps(2) by simp
  with prepare imported_generations [OF prepare.hyps(2)] show ?case
    by (auto simp: rec_inv_def u64_wrap)
next
  case (commit a f r)
  with distinct_remove1_image [of ar_generation f a] show ?case
    by (auto simp: rec_inv_def)
next
  case (commit_idle a f r)
  with distinct_remove1_image [of ar_generation f a] show ?case
    by (auto simp: rec_inv_def)
next
  case (refuse a f r)
  with distinct_remove1_image [of ar_generation f a] show ?case
    by (auto simp: rec_inv_def)
qed (auto simp: rec_inv_def recording_defs recording_bounded_append recording_bounded_checkpoint
       split: option.splits)

lemma rec_live_step: "rec_step s t \<Longrightarrow> rec_inv s \<Longrightarrow> rec_live t \<subseteq> rec_live s"
proof (induction rule: rec_step.induct)
  case (start r f sid now)
  then show ?case
    by (auto simp: rec_live_def rec_current_def recording_defs u64_wrap Let_def split: if_splits)
next
  case (prepare r s a r' f)
  with imported_generations [OF prepare.hyps(2)] show ?case
    by (auto simp: rec_live_def rec_current_def generation_def u64_wrap)
next
  case (commit a f r)
  then show ?case
    by (auto simp: rec_live_def rec_current_def generation_def dest: set_remove1_subset [THEN subsetD])
next
  case (commit_idle a f r)
  then show ?case
    by (auto simp: rec_live_def rec_current_def generation_def dest: set_remove1_subset [THEN subsetD])
next
  case (refuse a f r)
  then show ?case
    by (auto simp: rec_live_def rec_current_def generation_def dest: set_remove1_subset [THEN subsetD])
qed (auto simp: rec_live_def rec_current_def recording_defs split: option.splits if_splits)

lemma rec_retire:
  "rec_step s t \<Longrightarrow> rec_inv s \<Longrightarrow> rec_current s = Some g \<Longrightarrow> rec_current t \<noteq> Some g \<Longrightarrow> g \<notin> rec_live t"
proof (induction rule: rec_step.induct)
  case (start r f sid now)
  then show ?case
    by (auto simp: rec_current_def recording_defs Let_def)
next
  case (prepare r s a r' f)
  with imported_generations [OF prepare.hyps(2)] show ?case
    by (auto simp: rec_current_def generation_def)
next
  case (commit a f r)
  then show ?case
    by (auto simp: rec_inv_def rec_live_def rec_current_def generation_def dest: set_remove1_subset [THEN subsetD])
next
  case (commit_idle a f r)
  then show ?case
    by (auto simp: rec_current_def generation_def)
next
  case (refuse a f r)
  then show ?case
    by (auto simp: rec_current_def generation_def)
qed (auto simp: rec_inv_def rec_live_def rec_current_def recording_defs split: option.splits if_splits)

interpretation rec_owner: generation_owner rec_inv rec_step rec_current rec_live
proof
  show "rec_inv s \<Longrightarrow> rec_step s t \<Longrightarrow> rec_inv t" for s t by (rule rec_inv_step)
  show "rec_inv s \<Longrightarrow> rec_current s = Some g \<Longrightarrow> g \<in> rec_live s" for s g by (simp add: rec_live_def)
  show "rec_inv s \<Longrightarrow> rec_step s t \<Longrightarrow> rec_live t \<subseteq> rec_live s" for s t by (rule rec_live_step)
  show "rec_inv s \<Longrightarrow> rec_step s t \<Longrightarrow> rec_current s = Some g \<Longrightarrow> rec_current t \<noteq> Some g \<Longrightarrow> g \<notin> rec_live t"
    for s t g by (rule rec_retire)
qed

lemma not_current_refused:
  "generation r \<noteq> Some g \<Longrightarrow>
   record_event_if g e r = (False, r) \<and> stop_if_generation g r = (None, r)"
  by (auto simp: recording_defs split: option.splits)


section \<open>Properties\<close>

lemma started_recording:
  "er_recording r = None \<Longrightarrow>
   \<exists>a. er_recording (snd (start_session sid now r)) = Some a \<and> records [] a \<and>
       ar_max_events a = er_max_events r \<and> ar_checkpoints a = [] \<and>
       ar_max_checkpoints a = DEFAULT_MAX_CHECKPOINTS"
  by (simp add: start_session_def next_generation_def records_def numbered_def Let_def)

lemma map_of_append_fresh: "x \<notin> fst ` set xs \<Longrightarrow> map_of (xs @ ys) x = map_of ys x"
  by (induction xs) auto

text \<open>
  (C6) The window between two checkpoints is what was recorded between them.  Start a session on
  an idle recorder, then record events and take checkpoints in any order, with distinct
  checkpoint ids (at most the 1000 the recorder keeps) and any number of events below
  \<^verbatim>\<open>usize::MAX\<close>.  Asking for the window from checkpoint \<open>a\<close> to a later checkpoint \<open>b\<close> succeeds;
  the events returned are exactly the events recorded between the two checkpoints, in order,
  except for the first \<open>cw_dropped\<close> of them, which the ring buffer has evicted; and nothing is
  missing when the session recorded no more events than the buffer holds.
\<close>

theorem recorded_window:
  assumes "er_recording r = None"
    and "ops = pre @ OCheckpoint a la sa ta # mid @ OCheckpoint b lb sb tb # post"
    and "distinct (op_ids ops)" "length (op_ids ops) \<le> DEFAULT_MAX_CHECKPOINTS"
    and "length (op_events ops) \<le> u64_max"
  shows "\<exists>w. checkpoint_window a b (fold rec_op_run ops (snd (start_session sid now r))) = Inr w \<and>
           map re_event (cw_events w) = drop (cw_dropped w) (op_events mid) \<and>
           (length (op_events ops) \<le> er_max_events r \<longrightarrow> cw_dropped w = 0)"
proof -
  let ?i = "length (op_events pre)" and ?j = "length (op_events pre) + length (op_events mid)"
  let ?r = "fold rec_op_run ops (snd (start_session sid now r))"
  obtain a0 where a0: "er_recording (snd (start_session sid now r)) = Some a0" "records [] a0"
    "ar_max_events a0 = er_max_events r" "ar_checkpoints a0 = []"
    "ar_max_checkpoints a0 = DEFAULT_MAX_CHECKPOINTS"
    using started_recording [OF assms(1)] by blast
  obtain a1 where a1: "er_recording ?r = Some a1" "records (op_events ops) a1"
    "ar_max_events a1 = er_max_events r" "marks_of (ar_checkpoints a1) = op_marks 0 ops"
    using rec_ops_run [OF a0(1,2), of ops] assms(3-5) by (auto simp: a0 marks_of_def)
  have ids: "a \<notin> fst ` set (op_marks 0 pre)" "b \<notin> fst ` set (op_marks 0 pre)"
    "a \<noteq> b" "b \<notin> fst ` set (op_marks ?i mid)"
    using assms(2,3) fst_op_marks [of 0 pre] fst_op_marks [of ?i mid]
    by (auto simp flip: set_map)
  have m: "map_of (marks_of (ar_checkpoints a1)) a = Some ?i"
    "map_of (marks_of (ar_checkpoints a1)) b = Some ?j"
    using ids by (simp_all add: a1 assms(2) map_of_append_fresh del: map_of_append)
  have le: "?i \<le> ?j" "?j \<le> length (op_events ops)"
    by (simp_all add: assms(2))
  obtain w where w: "checkpoint_window a b ?r = Inr w"
    "map re_event (cw_events w) = drop (cw_dropped w) (take (?j - ?i) (drop ?i (op_events ops)))"
    "cw_dropped w = ?j - ?i - (?j - max ?i (length (op_events ops) - max 1 (er_max_events r)))"
    using checkpoint_window_active [OF a1(1,2) m le] unfolding a1(3) by blast
  have "take (?j - ?i) (drop ?i (op_events ops)) = op_events mid"
    by (simp add: assms(2))
  moreover have "length (op_events ops) \<le> er_max_events r \<Longrightarrow> cw_dropped w = 0"
    by (simp add: w(3))
  ultimately show ?thesis using w(1,2) by auto
qed

theorem recorded_window_witness:
  "\<exists>w. checkpoint_window ''a'' ''b''
         (fold rec_op_run
            ([OEvent (Console ''log'' ''x'' 1)] @ OCheckpoint ''a'' None JNull 2 #
             [OEvent (Console ''log'' ''y'' 3)] @ OCheckpoint ''b'' None JNull 4 # [])
            (snd (start_session ''s'' 0 (recorder_new 10)))) = Inr w \<and>
       map re_event (cw_events w) = drop (cw_dropped w) (op_events [OEvent (Console ''log'' ''y'' 3)]) \<and>
       (length (op_events ([OEvent (Console ''log'' ''x'' 1)] @ OCheckpoint ''a'' None JNull 2 #
             [OEvent (Console ''log'' ''y'' 3)] @ OCheckpoint ''b'' None JNull 4 # []))
          \<le> er_max_events (recorder_new 10) \<longrightarrow> cw_dropped w = 0)"
  by (rule recorded_window [OF _ refl])
    (simp_all add: recorder_new_def DEFAULT_MAX_CHECKPOINTS_def u64_max_def)

text \<open>
  Ownership by generation.  In every reachable interleaving of starts, stops, records,
  checkpoints and (two-step) imports: once the recording of generation \<open>g\<close> stops being the
  active one, no later state lets a holder of \<open>g\<close> append an event or stop a recording, even if
  a later session has the same caller-chosen id.
\<close>

theorem stale_generation_refused:
  assumes "rec_step\<^sup>*\<^sup>* (rec_sys_init n) s"
    and "rec_current s = Some g" "rec_step s t" "rec_current t \<noteq> Some g" "rec_step\<^sup>*\<^sup>* t u"
  shows "record_event_if g e (sy_rec u) = (False, sy_rec u) \<and>
         stop_if_generation g (sy_rec u) = (None, sy_rec u)"
proof (rule not_current_refused)
  have "rec_inv s" using assms(1) rec_inv_init by (rule rec_owner.inv_steps)
  then have "rec_current u \<noteq> Some g"
    by (rule rec_owner.never_current_again [OF _ assms(3,2,4,5)])
  then show "generation (sy_rec u) \<noteq> Some g" by (simp add: rec_current_def)
qed

theorem stale_generation_refused_witness:
  "let s = \<lparr>sy_rec = snd (start_session ''x'' 0 (recorder_new 5)), sy_inflight = []\<rparr>;
       t = \<lparr>sy_rec = snd (stop (sy_rec s)), sy_inflight = []\<rparr>;
       u = \<lparr>sy_rec = snd (start_session ''x'' 1 (sy_rec t)), sy_inflight = []\<rparr>
   in rec_current s = Some 1 \<and> generation (sy_rec u) = Some 2 \<and>
      record_event_if 1 (Console ''log'' ''late'' 2) (sy_rec u) = (False, sy_rec u) \<and>
      stop_if_generation 1 (sy_rec u) = (None, sy_rec u)"
proof -
  define r0 where "r0 = recorder_new 5"
  define r1 where "r1 = snd (start_session ''x'' 0 r0)"
  define r2 where "r2 = snd (stop r1)"
  define r3 where "r3 = snd (start_session ''x'' 1 r2)"
  have g: "er_generations r0 < u64_max" "er_generations r2 < u64_max"
    "generation r1 = Some 1" "generation r2 \<noteq> Some 1" "generation r3 = Some 2"
    by (simp_all add: r0_def r1_def r2_def r3_def recorder_new_def recording_defs u64_max_def Let_def)
  have s: "rec_step (rec_sys_init 5) \<lparr>sy_rec = r1, sy_inflight = []\<rparr>"
    unfolding rec_sys_init_def r1_def r0_def [symmetric] by (rule rec_step.start [OF g(1)])
  have t: "rec_step \<lparr>sy_rec = r1, sy_inflight = []\<rparr> \<lparr>sy_rec = r2, sy_inflight = []\<rparr>"
    unfolding r2_def by (rule rec_step.stop)
  have u: "rec_step \<lparr>sy_rec = r2, sy_inflight = []\<rparr> \<lparr>sy_rec = r3, sy_inflight = []\<rparr>"
    unfolding r3_def by (rule rec_step.start [OF g(2)])
  have "record_event_if 1 (Console ''log'' ''late'' 2) r3 = (False, r3) \<and>
        stop_if_generation 1 r3 = (None, r3)"
    using stale_generation_refused [OF r_into_rtranclp [of rec_step, OF s] _ t _ r_into_rtranclp [of rec_step, OF u], of 1]
      g(3,4) by (simp add: rec_current_def)
  then show ?thesis
    using g(3,5) by (simp add: Let_def rec_current_def r0_def r1_def r2_def r3_def)
qed

text \<open>
  Bounded memory.  In every reachable interleaving the active recording holds at most
  \<open>max 1 max_events\<close> events and at most 1000 checkpoints, whatever sessions callers import.
\<close>

theorem recording_memory_bounded:
  assumes "rec_step\<^sup>*\<^sup>* (rec_sys_init n) s" "er_recording (sy_rec s) = Some a"
  shows "length (ar_events a) \<le> max 1 (ar_max_events a) \<and>
         length (ar_checkpoints a) \<le> max 1 (ar_max_checkpoints a)"
proof -
  have "rec_inv s" using assms(1) rec_inv_init by (rule rec_owner.inv_steps)
  with assms(2) show ?thesis by (simp add: rec_inv_def recording_bounded_def)
qed

theorem recording_memory_bounded_witness:
  "length (ar_events (the (er_recording (snd (start_session ''x'' 0 (recorder_new 5)))))) \<le>
     max 1 (ar_max_events (the (er_recording (snd (start_session ''x'' 0 (recorder_new 5))))))"
proof -
  have "rec_step (rec_sys_init 5) \<lparr>sy_rec = snd (start_session ''x'' 0 (recorder_new 5)), sy_inflight = []\<rparr>"
    unfolding rec_sys_init_def by (rule rec_step.start) (simp add: recorder_new_def u64_max_def)
  from recording_memory_bounded [OF r_into_rtranclp [of rec_step, OF this]] show ?thesis
    by (simp add: recorder_new_def recording_defs Let_def)
qed

text \<open>
  Export and import are inverse.  A session that fits the recorder's limits, imported
  into any recorder (replacing whatever was active), is exported again unchanged; the imported
  recording then numbers its next event past every event index it holds (unless that index is
  already \<^verbatim>\<open>usize::MAX\<close>) and not before any checkpoint it holds.
\<close>

theorem import_export_roundtrip:
  assumes "length (rs_events s) \<le> er_max_events r"
    and "length (rs_checkpoints s) \<le> DEFAULT_MAX_CHECKPOINTS"
  shows "export (import_session s r) = Some (recorded_session_new (rs_id s) (rs_started_at s)
           (rs_events s) (rs_checkpoints s)) \<and>
         (\<exists>a. er_recording (import_session s r) = Some a \<and>
            (\<forall>e \<in> set (rs_events s). re_index e < u64_max \<longrightarrow> re_index e < ar_event_counter a) \<and>
            (\<forall>c \<in> set (rs_checkpoints s). cp_event_index c \<le> ar_event_counter a))"
proof -
  obtain a r' where i: "imported s r = (a, r')" by fastforce
  have rec: "er_recording (import_session s r) = Some a"
    by (simp add: import_session_def i)
  have ev: "ar_events a = rs_events s" "ar_checkpoints a = rs_checkpoints s"
    using session_of_imported [of s r] assms i by (simp_all add: session_of_def)
  have "re_index e < ar_event_counter a" if "e \<in> set (rs_events s)" "re_index e < u64_max" for e
    using import_counter(1) [OF i, of e] that by (simp add: ev sat_add_exact)
  moreover have "cp_event_index c \<le> ar_event_counter a" if "c \<in> set (rs_checkpoints s)" for c
    using import_counter(2) [OF i, of c] that by (simp add: ev)
  ultimately show ?thesis
    using rec assms by (auto simp: export_import recorded_session_new_def)
qed

theorem import_export_roundtrip_witness:
  "export (import_session (recorded_session_new ''s'' 0
      [recorded_event_new 7 0 (Console ''log'' ''x'' 0)] []) (recorder_new 5)) =
   Some (recorded_session_new ''s'' 0 [recorded_event_new 7 0 (Console ''log'' ''x'' 0)] [])"
  using import_export_roundtrip [of "recorded_session_new ''s'' 0
      [recorded_event_new 7 0 (Console ''log'' ''x'' 0)] []" "recorder_new 5"]
  by (simp add: recorded_session_new_def recorder_new_def)

end
