(* ===== verification/Codegen.thy ===== *)
theory Codegen
  imports Recorded_Selector Rust_Text Recording
begin

text \<open>
  The test generator (\<^verbatim>\<open>crates/victauri-core/src/codegen.rs\<close>): a recorded session becomes a Rust test
  that replays its interactions.  Each function that appends to \<^verbatim>\<open>out\<close> is modelled by the text it
  appends.  \<^verbatim>\<open>Utc::now()\<close> is the argument \<open>date\<close>; \<open>printable\<close> is as in \<open>Rust_Text\<close>.  The last section
  states what the generated program is, as a list of calls, and shows that its text reads back as
  exactly the tokens of these calls: recorded text, which the page controls, adds no code.
\<close>

section \<open>Options\<close>

datatype codegen_style = Direct | Locator

record codegen_options =
  co_test_name :: string
  co_include_ipc_assertions :: bool
  co_include_state_checks :: bool
  co_include_timing_comments :: bool
  co_emit_ipc_assert_calls :: bool
  co_style :: codegen_style

definition codegen_options_default :: codegen_options where
  "codegen_options_default =
     \<lparr> co_test_name = ''recorded_flow'', co_include_ipc_assertions = True, co_include_state_checks = True,
       co_include_timing_comments = True, co_emit_ipc_assert_calls = False, co_style = Direct \<rparr>"

section \<open>Calls by element\<close>

datatype resolved_selector = By_Id string | By_Text string | Raw string

definition resolve_selector :: "string \<Rightarrow> resolved_selector" where
  "resolve_selector selector =
     (case parse_recorded_selector selector of
        Element_Id i \<Rightarrow> By_Id i
      | Has_Text _ t \<Rightarrow> By_Text t
      | _ \<Rightarrow> Raw selector)"

text \<open>\<^verbatim>\<open>value.map_or_else(String::new, escape_rust_str)\<close>\<close>

definition escaped_value :: "(nat \<Rightarrow> bool) \<Rightarrow> string option \<Rightarrow> string" where
  "escaped_value printable v = (case v of None \<Rightarrow> [] | Some v \<Rightarrow> escape_rust_str printable v)"

definition emit_resolved_call :: "(nat \<Rightarrow> bool) \<Rightarrow> string \<Rightarrow> resolved_selector \<Rightarrow> string option \<Rightarrow> string" where
  "emit_resolved_call printable base_method resolved extra_arg =
     (let suffix = (case extra_arg of None \<Rightarrow> [] | Some v \<Rightarrow> '', '' @ [quote] @ v @ [quote])
      in case resolved of
           By_Id i \<Rightarrow> ''    client.'' @ base_method @ ''_by_id('' @ [quote] @ escape_rust_str printable i @ [quote] @
                      suffix @ '').await.unwrap();'' @ [newline]
         | By_Text t \<Rightarrow> ''    client.'' @ base_method @ ''_by_text('' @ [quote] @ escape_rust_str printable t @ [quote] @
                      suffix @ '').await.unwrap();'' @ [newline]
         | Raw sel \<Rightarrow> ''    client.'' @ base_method @ ''_by_selector('' @ [quote] @ escape_rust_str printable sel @ [quote] @
                      suffix @ '').await.unwrap();'' @ [newline])"

definition emit_resolved_select :: "(nat \<Rightarrow> bool) \<Rightarrow> resolved_selector \<Rightarrow> string \<Rightarrow> string" where
  "emit_resolved_select printable resolved val =
     (case resolved of
        By_Id i \<Rightarrow> ''    client.select_option_by_id('' @ [quote] @ escape_rust_str printable i @ [quote] @
                   '', &['' @ [quote] @ val @ [quote] @ '']).await.unwrap();'' @ [newline]
      | By_Text t \<Rightarrow> ''    client.select_option_by_text('' @ [quote] @ escape_rust_str printable t @ [quote] @
                   '', &['' @ [quote] @ val @ [quote] @ '']).await.unwrap();'' @ [newline]
      | Raw sel \<Rightarrow> ''    client.select_option_by_selector('' @ [quote] @ escape_rust_str printable sel @ [quote] @
                   '', &['' @ [quote] @ val @ [quote] @ '']).await.unwrap();'' @ [newline])"

definition emit_resolved_scroll :: "(nat \<Rightarrow> bool) \<Rightarrow> resolved_selector \<Rightarrow> string" where
  "emit_resolved_scroll printable resolved =
     (let (method, arg) = (case resolved of
          By_Id i \<Rightarrow> (''scroll_to_by_id'', i)
        | By_Text t \<Rightarrow> (''scroll_to_by_text'', t)
        | Raw sel \<Rightarrow> (''scroll_to_by_selector'', sel))
      in ''    client.'' @ method @ ''('' @ [quote] @ escape_rust_str printable arg @ [quote] @
         '').await.unwrap();'' @ [newline])"

fun emit_interaction :: "(nat \<Rightarrow> bool) \<Rightarrow> interaction_kind \<Rightarrow> string \<Rightarrow> string option \<Rightarrow> string" where
  "emit_interaction printable Click selector v =
     emit_resolved_call printable ''click'' (resolve_selector selector) None"
| "emit_interaction printable DoubleClick selector v =
     emit_resolved_call printable ''double_click'' (resolve_selector selector) None"
| "emit_interaction printable Fill selector v =
     emit_resolved_call printable ''fill'' (resolve_selector selector) (Some (escaped_value printable v))"
| "emit_interaction printable KeyPress selector v =
     ''    client.press_key('' @ [quote] @ escaped_value printable v @ [quote] @ '').await.unwrap();'' @ [newline]"
| "emit_interaction printable Select selector v =
     emit_resolved_select printable (resolve_selector selector) (escaped_value printable v)"
| "emit_interaction printable Navigate selector v =
     ''    client.navigate('' @ [quote] @ escaped_value printable v @ [quote] @ '').await.unwrap();'' @ [newline]"
| "emit_interaction printable Scroll selector v =
     emit_resolved_scroll printable (resolve_selector selector)"

section \<open>Calls by locator\<close>

definition selector_to_locator :: "(nat \<Rightarrow> bool) \<Rightarrow> string \<Rightarrow> string" where
  "selector_to_locator printable selector =
     (let factory_call = (\<lambda>factory arg.
            ''Locator::'' @ factory @ ''('' @ [quote] @ escape_rust_str printable arg @ [quote] @ '')'')
      in case parse_recorded_selector selector of
           Test_Id i \<Rightarrow> factory_call ''test_id'' i
         | Role role \<Rightarrow> factory_call ''role'' role
         | Has_Text (In_Role role) t \<Rightarrow>
             ''Locator::role('' @ [quote] @ escape_rust_str printable role @ [quote] @ '').and_text('' @
             [quote] @ escape_rust_str printable t @ [quote] @ '')''
         | Has_Text (In_Tag tag) t \<Rightarrow>
             ''Locator::text('' @ [quote] @ escape_rust_str printable t @ [quote] @ '').and_tag('' @
             [quote] @ escape_rust_str printable tag @ [quote] @ '')''
         | Element_Id _ \<Rightarrow> factory_call ''css'' selector
         | Css \<Rightarrow> factory_call ''css'' selector)"

fun emit_locator_interaction :: "(nat \<Rightarrow> bool) \<Rightarrow> interaction_kind \<Rightarrow> string \<Rightarrow> string option \<Rightarrow> string" where
  "emit_locator_interaction printable Click selector v =
     ''    '' @ selector_to_locator printable selector @ ''.click(&mut client).await.unwrap();'' @ [newline]"
| "emit_locator_interaction printable DoubleClick selector v =
     ''    '' @ selector_to_locator printable selector @ ''.double_click(&mut client).await.unwrap();'' @ [newline]"
| "emit_locator_interaction printable Fill selector v =
     ''    '' @ selector_to_locator printable selector @ ''.fill(&mut client, '' @ [quote] @ escaped_value printable v @ [quote] @
     '').await.unwrap();'' @ [newline]"
| "emit_locator_interaction printable KeyPress selector v =
     ''    '' @ selector_to_locator printable selector @ ''.press_key(&mut client, '' @ [quote] @ escaped_value printable v @ [quote] @
     '').await.unwrap();'' @ [newline]"
| "emit_locator_interaction printable Select selector v =
     ''    '' @ selector_to_locator printable selector @ ''.select_option(&mut client, &['' @ [quote] @ escaped_value printable v @ [quote] @
     '']).await.unwrap();'' @ [newline]"
| "emit_locator_interaction printable Navigate selector v =
     ''    client.navigate('' @ [quote] @ escaped_value printable v @ [quote] @ '').await.unwrap();'' @ [newline]"
| "emit_locator_interaction printable Scroll selector v =
     ''    '' @ selector_to_locator printable selector @ ''.scroll_into_view(&mut client).await.unwrap();'' @ [newline]"

section \<open>The file\<close>

text \<open>\<^verbatim>\<open>signed_duration_since(..).num_milliseconds()\<close>, which cuts towards zero.\<close>

definition num_milliseconds :: "timestamp \<Rightarrow> timestamp \<Rightarrow> int" where
  "num_milliseconds later earlier =
     (let d = later - earlier in if d < 0 then - ((- d) div 1000000) else d div 1000000)"

definition timing_comment :: "timestamp \<Rightarrow> timestamp option \<Rightarrow> timestamp \<Rightarrow> string" where
  "timing_comment session_start prev_ts ts =
     (let elapsed_ms = num_milliseconds ts session_start;
          show_timing = (case prev_ts of None \<Rightarrow> elapsed_ms > 500 | Some p \<Rightarrow> num_milliseconds ts p > 500)
      in if show_timing then [newline] @ ''    // +'' @ decimal_int elapsed_ms @ ''ms'' @ [newline] else [])"

text \<open>What the body of the loop appends for an event after its timing comment.\<close>

fun event_text :: "(nat \<Rightarrow> bool) \<Rightarrow> codegen_options \<Rightarrow> app_event \<Rightarrow> string" where
  "event_text printable options (DomInteraction action selector v _ _) =
     (case co_style options of
        Direct \<Rightarrow> emit_interaction printable action selector v
      | Locator \<Rightarrow> emit_locator_interaction printable action selector v)"
| "event_text printable options (Ipc call) =
     (if co_include_ipc_assertions options \<and> \<not> prefix ''plugin:victauri|'' (ic_command call)
         \<and> (case ic_result call of Ok _ \<Rightarrow> True | _ \<Rightarrow> False)
      then ''    // IPC: '' @ sanitize_comment printable (ic_command call) @ '' completed successfully'' @ [newline]
      else [])"
| "event_text printable options (StateChange key _ caused_by) =
     (if co_include_state_checks options \<and> caused_by \<noteq> None
      then ''    // State changed: '' @ sanitize_comment printable key @ [newline] else [])"
| "event_text printable options _ = []"

text \<open>The command the loop adds to \<^verbatim>\<open>ipc_commands_seen\<close>, if any.\<close>

fun seen_command :: "codegen_options \<Rightarrow> app_event \<Rightarrow> string list" where
  "seen_command options (Ipc call) =
     (if co_include_ipc_assertions options \<and> \<not> prefix ''plugin:victauri|'' (ic_command call)
         \<and> (case ic_result call of Ok _ \<Rightarrow> True | _ \<Rightarrow> False) \<and> co_emit_ipc_assert_calls options
      then [ic_command call] else [])"
| "seen_command options _ = []"

fun events_text :: "(nat \<Rightarrow> bool) \<Rightarrow> codegen_options \<Rightarrow> timestamp \<Rightarrow> timestamp option \<Rightarrow>
    recorded_event list \<Rightarrow> string \<times> string list" where
  "events_text printable options session_start prev_ts [] = ([], [])"
| "events_text printable options session_start prev_ts (recorded # events) =
     (let timing = (if co_include_timing_comments options
                    then timing_comment session_start prev_ts (re_timestamp recorded) else []);
          (rest, seen) = events_text printable options session_start (Some (re_timestamp recorded)) events
      in (timing @ event_text printable options (re_event recorded) @ rest,
          seen_command options (re_event recorded) @ seen))"

text \<open>\<^verbatim>\<open>%Y-%m-%d\<close>\<close>

definition zero_pad :: "nat \<Rightarrow> string \<Rightarrow> string" where
  "zero_pad n s = replicate (n - length s) CHR ''0'' @ s"

definition date_text :: "nat \<times> nat \<times> nat \<Rightarrow> string" where
  "date_text date = (case date of (y, m, d) \<Rightarrow>
     (if y > 9999 then ''+'' else []) @ zero_pad 4 (decimal y) @ ''-'' @ zero_pad 2 (decimal m) @ ''-'' @ zero_pad 2 (decimal d))"

definition assertions_text :: "(nat \<Rightarrow> bool) \<Rightarrow> string list \<Rightarrow> string" where
  "assertions_text printable seen =
     [newline] @ ''    // Verify IPC calls'' @ [newline] @
     ''    let log = client.get_ipc_log(Some(1000)).await.unwrap();'' @ [newline] @
     concat (map (\<lambda>cmd. ''    assert_ipc_called(&log, '' @ [quote] @ escape_rust_str printable cmd @ [quote] @ '');'' @ [newline]) seen)"

definition imports_text :: "codegen_options \<Rightarrow> string" where
  "imports_text options =
     (case co_style options of
        Direct \<Rightarrow> [newline] @ ''use victauri_test::VictauriClient;'' @ [newline] @
          (if co_emit_ipc_assert_calls options then ''use victauri_test::assert_ipc_called;'' @ [newline] else [])
      | Locator \<Rightarrow> [newline] @ ''use victauri_test::prelude::*;'' @ [newline])"

definition generate_test ::
  "(nat \<Rightarrow> bool) \<Rightarrow> nat \<times> nat \<times> nat \<Rightarrow> recorded_session \<Rightarrow> codegen_options \<Rightarrow> string" where
  "generate_test printable date session options =
     (let (body, seen) = events_text printable options (rs_started_at session) None (rs_events session)
      in ''// Generated by victauri record -- '' @ date_text date @ [newline] @
         ''// Session: '' @ sanitize_comment printable (rs_id session) @ [newline] @
         imports_text options @ [newline] @
         ''#[tokio::test]'' @ [newline] @
         ''async fn '' @ sanitize_rust_identifier (co_test_name options) @ ''() {'' @ [newline] @
         ''    let mut client = VictauriClient::discover().await.expect('' @ [quote] @ ''connect to Tauri app'' @ [quote] @
         '');'' @ [newline] @
         body @
         (if co_emit_ipc_assert_calls options \<and> seen \<noteq> [] then assertions_text printable seen else []) @
         ''}'' @ [newline])"

definition generate_test_default :: "(nat \<Rightarrow> bool) \<Rightarrow> nat \<times> nat \<times> nat \<Rightarrow> recorded_session \<Rightarrow> string" where
  "generate_test_default printable date session = generate_test printable date session codegen_options_default"

section \<open>The generated program\<close>

text \<open>The calls of a generated test, with the text their arguments denote.\<close>

datatype arg = Lit string | Lits string

datatype element_locator =
    L_Css string | L_Test_Id string | L_Role string | L_Role_Text string string | L_Text_Tag string string

datatype test_call = Client_Call string "arg list" | Locator_Call element_locator string "arg list"

definition value_text :: "string option \<Rightarrow> string" where
  "value_text v = (case v of None \<Rightarrow> [] | Some v \<Rightarrow> v)"

definition client_by :: "string \<Rightarrow> string \<Rightarrow> arg list \<Rightarrow> test_call" where
  "client_by base_method selector args =
     (case resolve_selector selector of
        By_Id i \<Rightarrow> Client_Call (base_method @ ''_by_id'') (Lit i # args)
      | By_Text t \<Rightarrow> Client_Call (base_method @ ''_by_text'') (Lit t # args)
      | Raw sel \<Rightarrow> Client_Call (base_method @ ''_by_selector'') (Lit sel # args))"

definition locator_of :: "string \<Rightarrow> element_locator" where
  "locator_of selector =
     (case parse_recorded_selector selector of
        Test_Id i \<Rightarrow> L_Test_Id i
      | Role role \<Rightarrow> L_Role role
      | Has_Text (In_Role role) t \<Rightarrow> L_Role_Text role t
      | Has_Text (In_Tag tag) t \<Rightarrow> L_Text_Tag t tag
      | _ \<Rightarrow> L_Css selector)"

fun replayed :: "codegen_style \<Rightarrow> interaction_kind \<Rightarrow> string \<Rightarrow> string option \<Rightarrow> test_call" where
  "replayed _ Navigate selector v = Client_Call ''navigate'' [Lit (value_text v)]"
| "replayed Direct Click selector v = client_by ''click'' selector []"
| "replayed Direct DoubleClick selector v = client_by ''double_click'' selector []"
| "replayed Direct Fill selector v = client_by ''fill'' selector [Lit (value_text v)]"
| "replayed Direct KeyPress selector v = Client_Call ''press_key'' [Lit (value_text v)]"
| "replayed Direct Select selector v = client_by ''select_option'' selector [Lits (value_text v)]"
| "replayed Direct Scroll selector v = client_by ''scroll_to'' selector []"
| "replayed Locator Click selector v = Locator_Call (locator_of selector) ''click'' []"
| "replayed Locator DoubleClick selector v = Locator_Call (locator_of selector) ''double_click'' []"
| "replayed Locator Fill selector v = Locator_Call (locator_of selector) ''fill'' [Lit (value_text v)]"
| "replayed Locator KeyPress selector v = Locator_Call (locator_of selector) ''press_key'' [Lit (value_text v)]"
| "replayed Locator Select selector v = Locator_Call (locator_of selector) ''select_option'' [Lits (value_text v)]"
| "replayed Locator Scroll selector v = Locator_Call (locator_of selector) ''scroll_into_view'' []"

fun replayed_event :: "codegen_options \<Rightarrow> app_event \<Rightarrow> test_call list" where
  "replayed_event options (DomInteraction action selector v _ _) = [replayed (co_style options) action selector v]"
| "replayed_event options _ = []"

definition replayed_calls :: "codegen_options \<Rightarrow> recorded_event list \<Rightarrow> test_call list" where
  "replayed_calls options events = concat (map (replayed_event options \<circ> re_event) events)"

text \<open>The commands a test asserts: the IPC calls that succeeded, Victauri's own left out.\<close>

definition asserted_commands :: "codegen_options \<Rightarrow> recorded_event list \<Rightarrow> string list" where
  "asserted_commands options events =
     (if co_include_ipc_assertions options \<and> co_emit_ipc_assert_calls options
      then map ic_command (filter (\<lambda>c. \<not> prefix ''plugin:victauri|'' (ic_command c) \<and> (case ic_result c of Ok _ \<Rightarrow> True | _ \<Rightarrow> False))
             (List.map_filter (as_ipc \<circ> re_event) events))
      else [])"

text \<open>The tokens of these calls.\<close>

abbreviation "P \<equiv> Punct"

fun arg_tokens :: "arg \<Rightarrow> token list" where
  "arg_tokens (Lit s) = [Str s]"
| "arg_tokens (Lits s) = [P CHR ''&'', P CHR ''[''] @ [Str s] @ [P CHR '']'']"

definition finish_tokens :: "token list" where
  "finish_tokens = [P CHR '')'', P CHR ''.'', Ident ''await'', P CHR ''.'', Ident ''unwrap'', P CHR ''('', P CHR '')'', P CHR '';'']"

definition client_tokens :: "string \<Rightarrow> token list" where
  "client_tokens m = [Ident ''client'', P CHR ''.'', Ident m, P CHR ''('']"

fun more_args :: "arg list \<Rightarrow> token list" where
  "more_args [] = []"
| "more_args (a # as) = [P CHR '',''] @ arg_tokens a @ more_args as"

definition factory_tokens :: "string \<Rightarrow> string \<Rightarrow> token list" where
  "factory_tokens factory s = [Ident ''Locator'', P CHR '':'', P CHR '':'', Ident factory, P CHR ''(''] @ [Str s] @ [P CHR '')'']"

fun locator_tokens :: "element_locator \<Rightarrow> token list" where
  "locator_tokens (L_Css s) = factory_tokens ''css'' s"
| "locator_tokens (L_Test_Id s) = factory_tokens ''test_id'' s"
| "locator_tokens (L_Role s) = factory_tokens ''role'' s"
| "locator_tokens (L_Role_Text r t) =
     factory_tokens ''role'' r @ [P CHR ''.'', Ident ''and_text'', P CHR ''(''] @ [Str t] @ [P CHR '')'']"
| "locator_tokens (L_Text_Tag t g) =
     factory_tokens ''text'' t @ [P CHR ''.'', Ident ''and_tag'', P CHR ''(''] @ [Str g] @ [P CHR '')'']"

fun call_tokens :: "test_call \<Rightarrow> token list" where
  "call_tokens (Client_Call m []) = client_tokens m @ finish_tokens"
| "call_tokens (Client_Call m (a # as)) = client_tokens m @ arg_tokens a @ more_args as @ finish_tokens"
| "call_tokens (Locator_Call l m as) =
     locator_tokens l @ [P CHR ''.'', Ident m, P CHR ''('', P CHR ''&'', Ident ''mut'', Ident ''client''] @
     more_args as @ finish_tokens"

definition import_tokens :: "codegen_options \<Rightarrow> token list" where
  "import_tokens options =
     (case co_style options of
        Direct \<Rightarrow> [Ident ''use'', Ident ''victauri_test'', P CHR '':'', P CHR '':'', Ident ''VictauriClient'', P CHR '';''] @
          (if co_emit_ipc_assert_calls options
           then [Ident ''use'', Ident ''victauri_test'', P CHR '':'', P CHR '':'', Ident ''assert_ipc_called'', P CHR '';'']
           else [])
      | Locator \<Rightarrow> [Ident ''use'', Ident ''victauri_test'', P CHR '':'', P CHR '':'', Ident ''prelude'', P CHR '':'', P CHR '':'',
                    P CHR ''*'', P CHR '';''])"

definition assertion_tokens :: "string list \<Rightarrow> token list" where
  "assertion_tokens cmds =
     (if cmds = [] then [] else
      [Ident ''let'', Ident ''log'', P CHR ''='', Ident ''client'', P CHR ''.'', Ident ''get_ipc_log'', P CHR ''('',
       Ident ''Some'', P CHR ''('', Number ''1000'', P CHR '')''] @ finish_tokens @
      concat (map (\<lambda>cmd. [Ident ''assert_ipc_called'', P CHR ''('', P CHR ''&'', Ident ''log'', P CHR '',''] @ [Str cmd] @ [P CHR '')'', P CHR '';'']) cmds))"

definition test_tokens :: "codegen_options \<Rightarrow> string \<Rightarrow> test_call list \<Rightarrow> string list \<Rightarrow> token list" where
  "test_tokens options name calls cmds =
     import_tokens options @
     [P CHR ''#'', P CHR ''['', Ident ''tokio'', P CHR '':'', P CHR '':'', Ident ''test'', P CHR '']'',
      Ident ''async'', Ident ''fn''] @ [Ident name] @ [P CHR ''('', P CHR '')'', P CHR ''{''] @
     [Ident ''let'', Ident ''mut'', Ident ''client'', P CHR ''='', Ident ''VictauriClient'', P CHR '':'', P CHR '':'',
      Ident ''discover'', P CHR ''('', P CHR '')'', P CHR ''.'', Ident ''await'', P CHR ''.'', Ident ''expect'', P CHR ''(''] @
     [Str ''connect to Tauri app''] @ [P CHR '')'', P CHR '';''] @
     concat (map call_tokens calls) @ assertion_tokens cmds @ [P CHR ''}'']"

subsection \<open>Reading the calls\<close>

lemma lexes_word: "rust_identifier m \<Longrightarrow> lexes (m @ ''('') ([Ident m] @ [P CHR ''(''])"
  by (simp add: lexes_iff lex_identifier ident_char_def is_ascii_alphanumeric_def is_ascii_digit_def)
     (simp add: lex_simps)

lemma lexes_lit: "valid_utf8 t \<Longrightarrow> lexes ([quote] @ escape_rust_str printable t @ [quote]) [Str t]"
  using lexes_literal by simp

lemma lexes_finish: "lexes ('').await.unwrap();'' @ [newline]) finish_tokens"
  by (simp add: lexes_iff lex_simps finish_tokens_def)

lemma lexes_client: "lexes ''    client.'' [Ident ''client'', P CHR ''.'']"
  by (simp add: lexes_iff lex_simps)

lemma lexes_client_call:
  assumes "rust_identifier m" "lexes args ts"
  shows "lexes (''    client.'' @ m @ ''('' @ args @ '').await.unwrap();'' @ [newline])
               (client_tokens m @ ts @ finish_tokens)"
  using lexes_append [OF lexes_client lexes_append [OF lexes_word [OF assms(1)]
          lexes_append [OF assms(2) lexes_finish]]]
  by (simp add: client_tokens_def)

lemma lexes_comma: "lexes '', '' [P CHR '','']"
  by (simp add: lexes_iff lex_simps)

lemma lexes_lits:
  assumes "valid_utf8 t"
  shows "lexes (''&['' @ ([quote] @ escape_rust_str printable t @ [quote]) @ '']'') (arg_tokens (Lits t))"
proof -
  have "lexes ''&['' [P CHR ''&'', P CHR ''['']" "lexes '']'' [P CHR '']'']" by (simp_all add: lexes_iff lex_simps)
  from lexes_append [OF this(1) lexes_append [OF lexes_lit [OF assms] this(2)]] show ?thesis by simp
qed

lemma lexes_two: "lexes a ts \<Longrightarrow> lexes b us \<Longrightarrow> lexes (a @ '', '' @ b) (ts @ [P CHR '',''] @ us)"
  by (intro lexes_append lexes_comma)

lemma method_names:
  "list_all rust_identifier
     [''click_by_id'', ''click_by_text'', ''click_by_selector'', ''double_click_by_id'', ''double_click_by_text'',
      ''double_click_by_selector'', ''fill_by_id'', ''fill_by_text'', ''fill_by_selector'', ''select_option_by_id'',
      ''select_option_by_text'', ''select_option_by_selector'', ''scroll_to_by_id'', ''scroll_to_by_text'',
      ''scroll_to_by_selector'', ''press_key'', ''navigate'', ''click'', ''double_click'', ''fill'', ''select_option'',
      ''scroll_into_view'', ''css'', ''test_id'', ''role'']"
  by code_simp

fun resolved_text :: "resolved_selector \<Rightarrow> string" where
  "resolved_text (By_Id i) = i"
| "resolved_text (By_Text t) = t"
| "resolved_text (Raw sel) = sel"

fun by_suffix :: "resolved_selector \<Rightarrow> string" where
  "by_suffix (By_Id i) = ''_by_id''"
| "by_suffix (By_Text t) = ''_by_text''"
| "by_suffix (Raw sel) = ''_by_selector''"

text \<open>One shape for every line that calls the client.\<close>

definition client_line :: "string \<Rightarrow> string \<Rightarrow> string" where
  "client_line m args = ''    client.'' @ m @ ''('' @ args @ '').await.unwrap();'' @ [newline]"

abbreviation "literal printable t \<equiv> [quote] @ escape_rust_str printable t @ [quote]"

lemma client_by_eq:
  "client_by base_method selector args =
     Client_Call (base_method @ by_suffix (resolve_selector selector)) (Lit (resolved_text (resolve_selector selector)) # args)"
  by (cases "resolve_selector selector") (simp_all add: client_by_def)

lemma emit_call_line:
  "emit_resolved_call printable base_method r None =
     client_line (base_method @ by_suffix r) (literal printable (resolved_text r))"
  "emit_resolved_call printable base_method r (Some v) =
     client_line (base_method @ by_suffix r) (literal printable (resolved_text r) @ '', '' @ [quote] @ v @ [quote])"
  by (cases r; simp add: emit_resolved_call_def client_line_def)+

lemma emit_select_line:
  "emit_resolved_select printable r v =
     client_line (''select_option'' @ by_suffix r)
       (literal printable (resolved_text r) @ '', '' @ ''&['' @ ([quote] @ v @ [quote]) @ '']'')"
  by (cases r; simp add: emit_resolved_select_def client_line_def)

lemma emit_scroll_line:
  "emit_resolved_scroll printable r =
     client_line (''scroll_to'' @ by_suffix r) (literal printable (resolved_text r))"
  by (cases r; simp add: emit_resolved_scroll_def client_line_def)

lemma method_by_suffix:
  "base_method \<in> {''click'', ''double_click'', ''fill'', ''select_option'', ''scroll_to''} \<Longrightarrow>
   rust_identifier (base_method @ by_suffix r)"
  using method_names by (cases r) auto

lemma escaped_value_text: "escaped_value printable v = escape_rust_str printable (value_text v)"
  by (cases v) (simp_all add: escaped_value_def value_text_def escape_rust_str_def)

lemmas lexes_line = lexes_client_call [folded client_line_def]

lemma lexes_emit_interaction:
  assumes "valid_utf8 (resolved_text (resolve_selector selector))" "valid_utf8 (value_text v)"
  shows "lexes (emit_interaction printable action selector v) (call_tokens (replayed Direct action selector v))"
proof -
  let ?r = "resolve_selector selector"
  note l = lexes_lit [OF assms(1), of printable] and lv = lexes_lit [OF assms(2), of printable]
  note ls = lexes_lits [OF assms(2), of printable]
  have press: "rust_identifier ''press_key''" "rust_identifier ''navigate''" using method_names by simp_all
  have line: "emit_interaction printable KeyPress selector v = client_line ''press_key'' (literal printable (value_text v))"
    "emit_interaction printable Navigate selector v = client_line ''navigate'' (literal printable (value_text v))"
    by (simp_all add: client_line_def escaped_value_text)
  have fill: "emit_interaction printable Fill selector v =
      client_line (''fill'' @ by_suffix ?r) (literal printable (resolved_text ?r) @ '', '' @ literal printable (value_text v))"
    by (simp only: emit_interaction.simps emit_call_line escaped_value_text)
  show ?thesis
  proof (cases action)
    case Click
    show ?thesis
      using lexes_line [OF method_by_suffix [of "''click''" ?r] l]
      by (simp add: Click emit_call_line client_by_eq)
  next
    case DoubleClick
    show ?thesis
      using lexes_line [OF method_by_suffix [of "''double_click''" ?r] l]
      by (simp add: DoubleClick emit_call_line client_by_eq)
  next
    case Fill
    show ?thesis
      using lexes_line [OF method_by_suffix [of "''fill''" ?r] lexes_two [OF l lv]] fill
      by (simp add: Fill client_by_eq)
  next
    case KeyPress
    show ?thesis using lexes_line [OF press(1) lv] line(1) by (simp add: KeyPress)
  next
    case Select
    show ?thesis
      using lexes_line [OF method_by_suffix [of "''select_option''" ?r] lexes_two [OF l ls]]
      by (simp add: Select emit_select_line client_by_eq escaped_value_text)
  next
    case Navigate
    show ?thesis using lexes_line [OF press(2) lv] line(2) by (simp add: Navigate)
  next
    case Scroll
    show ?thesis
      using lexes_line [OF method_by_suffix [of "''scroll_to''" ?r] l]
      by (simp add: Scroll emit_scroll_line client_by_eq)
  qed
qed

lemma resolved_text_valid: "valid_utf8 s \<Longrightarrow> valid_utf8 (resolved_text (resolve_selector s))"
  using recorded_selector_texts [of s]
  by (cases "parse_recorded_selector s" rule: selector_texts.cases) (auto simp: resolve_selector_def)

subsection \<open>Reading the locators\<close>

lemma lexes_factory:
  assumes "rust_identifier factory" "valid_utf8 t"
  shows "lexes (''Locator::'' @ factory @ ''('' @ literal printable t @ '')'') (factory_tokens factory t)"
proof -
  have "lexes ''Locator::'' [Ident ''Locator'', P CHR '':'', P CHR '':'']" "lexes '')'' [P CHR '')'']"
    by (simp_all add: lexes_iff lex_simps)
  from lexes_append [OF this(1) lexes_append [OF lexes_word [OF assms(1)]
         lexes_append [OF lexes_lit [OF assms(2), of printable] this(2)]]]
  show ?thesis by (simp add: factory_tokens_def)
qed

lemma lexes_and:
  assumes "w = ''.and_text('' \<and> m = ''and_text'' \<or> w = ''.and_tag('' \<and> m = ''and_tag''" "valid_utf8 t"
  shows "lexes (w @ literal printable t @ '')'') ([P CHR ''.'', Ident m, P CHR ''(''] @ [Str t] @ [P CHR '')''])"
proof -
  have "lexes w [P CHR ''.'', Ident m, P CHR ''('']"
    using assms(1) by (elim disjE) (simp_all add: lexes_iff lex_simps)
  moreover have "lexes '')'' [P CHR '')'']" by (simp add: lexes_iff lex_simps)
  ultimately show ?thesis using lexes_append lexes_lit [OF assms(2), of printable] by blast
qed

lemma lexes_locator:
  assumes "valid_utf8 s"
  shows "lexes (selector_to_locator printable s) (locator_tokens (locator_of s))"
proof -
  have v: "list_all valid_utf8 (selector_texts (parse_recorded_selector s))"
    by (rule recorded_selector_texts [OF assms])
  have names: "rust_identifier ''css''" "rust_identifier ''test_id''" "rust_identifier ''role''" "rust_identifier ''text''"
    by code_simp+
  show ?thesis
  proof (cases "parse_recorded_selector s" rule: selector_texts.cases)
    case (4 r t)
    then show ?thesis
      using lexes_append [OF lexes_factory [OF names(3), of r printable] lexes_and [of "''.and_text(''" "''and_text''" t printable]] v
      by (simp add: selector_to_locator_def locator_of_def)
  next
    case (5 g t)
    then show ?thesis
      using lexes_append [OF lexes_factory [OF names(4), of t printable] lexes_and [of "''.and_tag(''" "''and_tag''" g printable]] v
      by (simp add: selector_to_locator_def locator_of_def)
  next
    case (1 i)
    then show ?thesis using lexes_factory [OF names(2), of i printable] v by (simp add: selector_to_locator_def locator_of_def)
  next
    case (2 i)
    then show ?thesis using lexes_factory [OF names(1) assms, of printable] by (simp add: selector_to_locator_def locator_of_def)
  next
    case (3 r)
    then show ?thesis using lexes_factory [OF names(3), of r printable] v by (simp add: selector_to_locator_def locator_of_def)
  next
    case 6
    then show ?thesis using lexes_factory [OF names(1) assms, of printable] by (simp add: selector_to_locator_def locator_of_def)
  qed
qed

lemma lexes_locator_call:
  assumes "valid_utf8 selector" "rust_identifier m" "lexes rest ts"
  shows "lexes (''    '' @ selector_to_locator printable selector @ ''.'' @ m @ ''('' @ rest)
               (locator_tokens (locator_of selector) @ [P CHR ''.'', Ident m, P CHR ''(''] @ ts)"
proof -
  have c: "lexes ''    '' []" "lexes ''.'' [P CHR ''.'']" by (simp_all add: lexes_iff lex_simps)
  from lexes_append [OF c(1) lexes_append [OF lexes_locator [OF assms(1), of printable]
         lexes_append [OF c(2) lexes_append [OF lexes_word [OF assms(2)] assms(3)]]]]
  show ?thesis by simp
qed

lemma lexes_client_arg:
  "lexes (''&mut client).await.unwrap();'' @ [newline]) ([P CHR ''&'', Ident ''mut'', Ident ''client''] @ finish_tokens)"
  by (simp add: lexes_iff lex_simps finish_tokens_def)

lemma lexes_client_args:
  assumes "lexes a ts"
  shows "lexes (''&mut client, '' @ a @ '').await.unwrap();'' @ [newline])
               ([P CHR ''&'', Ident ''mut'', Ident ''client'', P CHR '',''] @ ts @ finish_tokens)"
proof -
  have "lexes ''&mut client, '' [P CHR ''&'', Ident ''mut'', Ident ''client'', P CHR '','']"
    by (simp add: lexes_iff lex_simps)
  from lexes_append [OF this lexes_append [OF assms lexes_finish]] show ?thesis by simp
qed

lemma lexes_emit_locator_interaction:
  assumes "valid_utf8 selector" "valid_utf8 (value_text v)"
  shows "lexes (emit_locator_interaction printable action selector v) (call_tokens (replayed Locator action selector v))"
proof -
  note lv = lexes_lit [OF assms(2), of printable] and ls = lexes_lits [OF assms(2), of printable]
  note c0 = lexes_locator_call [OF assms(1) _ lexes_client_arg, of _ printable]
  note c1 = lexes_locator_call [OF assms(1) _ lexes_client_args [OF lv], of _ printable]
  note c2 = lexes_locator_call [OF assms(1) _ lexes_client_args [OF ls], of _ printable]
  have names: "rust_identifier ''click''" "rust_identifier ''double_click''" "rust_identifier ''fill''"
    "rust_identifier ''press_key''" "rust_identifier ''select_option''" "rust_identifier ''scroll_into_view''"
    "rust_identifier ''navigate''"
    using method_names by simp_all
  show ?thesis
  proof (cases action)
    case Click
    show ?thesis using c0 [OF names(1)] by (simp add: Click)
  next
    case DoubleClick
    show ?thesis using c0 [OF names(2)] by (simp add: DoubleClick)
  next
    case Fill
    show ?thesis using c1 [OF names(3)] by (simp add: Fill escaped_value_text)
  next
    case KeyPress
    show ?thesis using c1 [OF names(4)] by (simp add: KeyPress escaped_value_text)
  next
    case Select
    show ?thesis using c2 [OF names(5)] by (simp add: Select escaped_value_text)
  next
    case Navigate
    show ?thesis using lexes_line [OF names(7) lv] by (simp add: Navigate escaped_value_text client_line_def)
  next
    case Scroll
    show ?thesis using c0 [OF names(6)] by (simp add: Scroll)
  qed
qed

subsection \<open>Reading the file\<close>

text \<open>The texts of a session are \<^verbatim>\<open>String\<close>s, that is, UTF-8.\<close>

fun event_ok :: "app_event \<Rightarrow> bool" where
  "event_ok (DomInteraction _ selector v _ _) = (valid_utf8 selector \<and> valid_utf8 (value_text v))"
| "event_ok (Ipc call) = valid_utf8 (ic_command call)"
| "event_ok (StateChange key _ _) = valid_utf8 key"
| "event_ok _ = True"

definition session_ok :: "recorded_session \<Rightarrow> bool" where
  "session_ok session = (valid_utf8 (rs_id session) \<and> list_all (event_ok \<circ> re_event) (rs_events session))"

lemma lexes_line_comment:
  assumes "newline \<notin> set c"
  shows "lexes (''// '' @ c @ [newline]) []"
  using lexes_comment [of "CHR '' '' # c"] assms by simp

lemma lexes_indent: "lexes ''    '' []" "lexes [newline] []"
  by (simp_all add: lexes_iff lex_simps)

lemma lexes_comment_line:
  assumes "newline \<notin> set c"
  shows "lexes (''    // '' @ c @ [newline]) []"
  using lexes_append [OF lexes_indent(1) lexes_line_comment [OF assms]] by simp

lemma newline_decimal: "newline \<notin> set (decimal n)"
  using decimal_digits [of newline n] by (auto simp: is_ascii_digit_def)

lemma lexes_timing: "lexes (timing_comment session_start prev_ts ts) []"
proof -
  have "newline \<notin> set (''+'' @ decimal_int i @ ''ms'')" for i
    using newline_decimal by (auto simp: decimal_int_def)
  from lexes_append [OF lexes_indent(2) lexes_comment_line [OF this]]
  show ?thesis by (auto simp: timing_comment_def Let_def)
qed

lemma lexes_event:
  assumes "event_ok e"
  shows "lexes (event_text printable options e) (concat (map call_tokens (replayed_event options e)))"
proof (cases e)
  case (Ipc call)
  then have "newline \<notin> set (''IPC: '' @ sanitize_comment printable (ic_command call) @ '' completed successfully'')"
    using newline_comment assms by auto
  from lexes_comment_line [OF this] show ?thesis using Ipc by simp
next
  case (StateChange key ts caused_by)
  then have "newline \<notin> set (''State changed: '' @ sanitize_comment printable key)"
    using newline_comment assms by auto
  from lexes_comment_line [OF this] show ?thesis using StateChange by simp
next
  case (DomInteraction action selector v ts label)
  then show ?thesis
    using assms lexes_emit_interaction [OF resolved_text_valid] lexes_emit_locator_interaction
    by (cases "co_style options") auto
qed auto

lemma lexes_events:
  "list_all (event_ok \<circ> re_event) events \<Longrightarrow>
   lexes (fst (events_text printable options session_start prev_ts events))
         (concat (map call_tokens (replayed_calls options events)))"
proof (induction events arbitrary: prev_ts)
  case (Cons recorded events)
  have "lexes (if co_include_timing_comments options
               then timing_comment session_start prev_ts (re_timestamp recorded) else []) []"
    using lexes_timing by simp
  from lexes_append [OF this lexes_append [OF lexes_event [of "re_event recorded" printable options]
        Cons.IH [of "Some (re_timestamp recorded)"]]] Cons.prems
  show ?case by (simp add: Let_def case_prod_beta replayed_calls_def)
qed (simp add: replayed_calls_def)

lemma seen_commands: "snd (events_text printable options session_start prev_ts events) = asserted_commands options events"
proof (induction events arbitrary: prev_ts)
  case (Cons recorded events)
  show ?case
    using Cons [of "Some (re_timestamp recorded)"]
    by (cases "re_event recorded")
       (auto simp: Let_def case_prod_beta asserted_commands_def List.map_filter_simps split: ipc_result.splits)
qed (simp add: asserted_commands_def List.map_filter_simps)

lemma lexes_assertions:
  assumes "list_all valid_utf8 cmds" "cmds \<noteq> []"
  shows "lexes (assertions_text printable cmds) (assertion_tokens cmds)"
proof -
  have c: "lexes (''    assert_ipc_called(&log, '') [Ident ''assert_ipc_called'', P CHR ''('', P CHR ''&'', Ident ''log'', P CHR '','']"
    "lexes ('');'' @ [newline]) [P CHR '')'', P CHR '';'']"
    "lexes ''    let log = client.get_ipc_log(Some(1000)''
       [Ident ''let'', Ident ''log'', P CHR ''='', Ident ''client'', P CHR ''.'', Ident ''get_ipc_log'', P CHR ''('',
        Ident ''Some'', P CHR ''('', Number ''1000'', P CHR '')'']"
    by (simp_all add: lexes_iff lex_simps)
  have calls: "lexes (concat (map (\<lambda>cmd. ''    assert_ipc_called(&log, '' @ literal printable cmd @ '');'' @ [newline]) cmds))
      (concat (map (\<lambda>cmd. [Ident ''assert_ipc_called'', P CHR ''('', P CHR ''&'', Ident ''log'', P CHR '',''] @ [Str cmd] @
        [P CHR '')'', P CHR '';'']) cmds))"
    by (intro lexes_concat lexes_append c lexes_lit) (use assms(1) in \<open>auto simp: list_all_iff\<close>)
  have "newline \<notin> set ''Verify IPC calls''" by code_simp
  from lexes_append [OF lexes_indent(2) lexes_append [OF lexes_comment_line [OF this]
         lexes_append [OF c(3) lexes_append [OF lexes_finish calls]]]]
  show ?thesis using assms(2) by (simp add: assertions_text_def assertion_tokens_def)
qed

lemma lexes_imports: "lexes (imports_text options) (import_tokens options)"
  by (cases "co_style options"; cases "co_emit_ipc_assert_calls options")
     (simp_all add: imports_text_def import_tokens_def lexes_iff lex_simps)

lemma newline_date: "newline \<notin> set (date_text date)"
  using newline_decimal by (cases date) (auto simp: date_text_def zero_pad_def)

lemma asserted_texts:
  "list_all (event_ok \<circ> re_event) events \<Longrightarrow> list_all valid_utf8 (asserted_commands options events)"
proof -
  have "as_ipc e = Some c \<Longrightarrow> event_ok e \<Longrightarrow> valid_utf8 (ic_command c)" for e c by (cases e) auto
  then show "list_all (event_ok \<circ> re_event) events \<Longrightarrow> list_all valid_utf8 (asserted_commands options events)"
    by (fastforce simp: asserted_commands_def list_all_iff List.map_filter_def)
qed

definition header_text :: "string \<Rightarrow> string" where
  "header_text name =
     ''#[tokio::test]'' @ [newline] @ ''async fn '' @ name @ ''() {'' @ [newline] @
     ''    let mut client = VictauriClient::discover().await.expect('' @ [quote] @ ''connect to Tauri app'' @ [quote] @
     '');'' @ [newline]"

lemma lexes_header:
  assumes "rust_identifier name"
  shows "lexes (header_text name)
     ([P CHR ''#'', P CHR ''['', Ident ''tokio'', P CHR '':'', P CHR '':'', Ident ''test'', P CHR '']'',
       Ident ''async'', Ident ''fn''] @ [Ident name] @ [P CHR ''('', P CHR '')'', P CHR ''{''] @
      [Ident ''let'', Ident ''mut'', Ident ''client'', P CHR ''='', Ident ''VictauriClient'', P CHR '':'', P CHR '':'',
       Ident ''discover'', P CHR ''('', P CHR '')'', P CHR ''.'', Ident ''await'', P CHR ''.'', Ident ''expect'', P CHR ''(''] @
      [Str ''connect to Tauri app''] @ [P CHR '')'', P CHR '';''])"
proof -
  have c: "lexes (''#[tokio::test]'' @ [newline] @ ''async fn '')
      [P CHR ''#'', P CHR ''['', Ident ''tokio'', P CHR '':'', P CHR '':'', Ident ''test'', P CHR '']'', Ident ''async'', Ident ''fn'']"
    "lexes ('') {'' @ [newline]) [P CHR '')'', P CHR ''{'']"
    "lexes (''    let mut client = VictauriClient::discover().await.expect('')
      [Ident ''let'', Ident ''mut'', Ident ''client'', P CHR ''='', Ident ''VictauriClient'', P CHR '':'', P CHR '':'',
       Ident ''discover'', P CHR ''('', P CHR '')'', P CHR ''.'', Ident ''await'', P CHR ''.'', Ident ''expect'', P CHR ''('']"
    "lexes ('');'' @ [newline]) [P CHR '')'', P CHR '';'']"
    by (simp_all add: lexes_iff lex_simps)
  have lit: "lexes (quote # ''connect to Tauri app'' @ [quote]) [Str ''connect to Tauri app'']"
    by (simp add: lexes_iff lex_rust.simps(2) string_body.simps)
  from lexes_append [OF c(1) lexes_append [OF lexes_word [OF assms] lexes_append [OF c(2)
         lexes_append [OF c(3) lexes_append [OF lit c(4)]]]]]
  show ?thesis by (simp add: header_text_def)
qed

lemma lexes_generated:
  assumes "session_ok session"
  shows "lexes (generate_test printable date session options)
     (test_tokens options (sanitize_rust_identifier (co_test_name options))
        (replayed_calls options (rs_events session)) (asserted_commands options (rs_events session)))"
proof -
  let ?cmds = "asserted_commands options (rs_events session)"
  let ?name = "sanitize_rust_identifier (co_test_name options)"
  let ?body = "fst (events_text printable options (rs_started_at session) None (rs_events session))"
  have ok: "list_all (event_ok \<circ> re_event) (rs_events session)" "valid_utf8 (rs_id session)"
    using assms by (simp_all add: session_ok_def)
  have top_comments: "lexes (''// Generated by victauri record -- '' @ date_text date @ [newline]) []"
    "lexes (''// Session: '' @ sanitize_comment printable (rs_id session) @ [newline]) []"
    using lexes_line_comment [of "''Generated by victauri record -- '' @ date_text date"] newline_date
      lexes_line_comment [of "''Session: '' @ sanitize_comment printable (rs_id session)"] newline_comment [OF ok(2)]
    by simp_all
  have emit: "co_emit_ipc_assert_calls options \<or> ?cmds = []" by (simp add: asserted_commands_def)
  have tail: "lexes (if co_emit_ipc_assert_calls options \<and> ?cmds \<noteq> [] then assertions_text printable ?cmds else [])
      (assertion_tokens ?cmds)"
    using emit lexes_assertions [OF asserted_texts [OF ok(1)]] by (auto simp: assertion_tokens_def)
  have close: "lexes (''}'' @ [newline]) [P CHR ''}'']" by (simp add: lexes_iff lex_simps)
  have whole: "generate_test printable date session options =
      (''// Generated by victauri record -- '' @ date_text date @ [newline]) @
      (''// Session: '' @ sanitize_comment printable (rs_id session) @ [newline]) @
      imports_text options @ [newline] @ header_text ?name @ ?body @
      (if co_emit_ipc_assert_calls options \<and> ?cmds \<noteq> [] then assertions_text printable ?cmds else []) @ ''}'' @ [newline]"
    using seen_commands [of printable options "rs_started_at session" None "rs_events session"]
    by (simp add: generate_test_def case_prod_beta Let_def header_text_def)
  from lexes_append [OF top_comments(1) lexes_append [OF top_comments(2) lexes_append [OF lexes_imports
         lexes_append [OF lexes_indent(2) lexes_append [OF lexes_header [OF sanitized_identifier]
           lexes_append [OF lexes_events [OF ok(1)] lexes_append [OF tail close]]]]]]]
  show ?thesis unfolding whole test_tokens_def by simp
qed

section \<open>The characters of the file\<close>

lemma source_text_interaction:
  assumes "valid_utf8 selector" "valid_utf8 (value_text v)"
  shows "source_text printable (emit_interaction printable action selector v)"
  using assms resolved_text_valid [OF assms(1)]
  by (cases action; cases "resolve_selector selector")
     (simp_all add: emit_call_line emit_select_line emit_scroll_line client_line_def escaped_value_text source_text_walk)

lemma source_text_locator:
  assumes "valid_utf8 selector"
  shows "source_text printable (selector_to_locator printable selector)"
  using assms recorded_selector_texts [OF assms]
  by (cases "parse_recorded_selector selector" rule: selector_texts.cases)
     (simp_all add: selector_to_locator_def source_text_walk)

lemma source_text_locator_interaction:
  assumes "valid_utf8 selector" "valid_utf8 (value_text v)"
  shows "source_text printable (emit_locator_interaction printable action selector v)"
  using assms source_text_locator [OF assms(1)]
  by (cases action) (simp_all add: escaped_value_text source_text_walk)

lemma source_text_decimal [simp]: "source_text printable (decimal n)"
  by (rule source_text_ascii [OF ascii_source_decimal])

lemma source_text_event: "event_ok e \<Longrightarrow> source_text printable (event_text printable options e)"
  using source_text_interaction source_text_locator_interaction
  by (cases e; cases "co_style options") (auto simp: source_text_walk)

lemma source_text_timing: "source_text printable (timing_comment session_start prev_ts ts)"
  by (auto simp: timing_comment_def Let_def decimal_int_def source_text_walk)

lemma source_text_events:
  "list_all (event_ok \<circ> re_event) events \<Longrightarrow>
   source_text printable (fst (events_text printable options session_start prev_ts events))"
proof (induction events arbitrary: prev_ts)
  case (Cons recorded events)
  then have "source_text printable (event_text printable options (re_event recorded))"
    using source_text_event by simp
  then show ?case
    using Cons source_text_timing by (simp add: Let_def case_prod_beta source_text_skip)
qed simp

lemma source_text_date: "source_text printable (date_text date)"
proof -
  have "ascii_source (replicate k CHR ''0'')" for k by (simp add: ascii_source_def list_all_iff)
  then have "source_text printable (replicate k CHR ''0'')" for k by (rule source_text_ascii)
  then show ?thesis by (cases date) (simp add: date_text_def zero_pad_def source_text_walk)
qed

lemma source_text_assertions:
  "list_all valid_utf8 cmds \<Longrightarrow> source_text printable (assertions_text printable cmds)"
proof -
  have "list_all valid_utf8 cmds \<Longrightarrow> source_text printable
      (concat (map (\<lambda>cmd. ''    assert_ipc_called(&log, '' @ [quote] @ escape_rust_str printable cmd @ [quote] @ '');'' @ [newline]) cmds))"
    by (rule source_text_concat) (auto simp: list_all_iff source_text_walk)
  then show "list_all valid_utf8 cmds \<Longrightarrow> source_text printable (assertions_text printable cmds)"
    by (simp add: assertions_text_def source_text_walk)
qed

lemma source_text_generated:
  assumes "session_ok session"
  shows "source_text printable (generate_test printable date session options)"
proof -
  have ok: "list_all (event_ok \<circ> re_event) (rs_events session)" "valid_utf8 (rs_id session)"
    using assms by (simp_all add: session_ok_def)
  have "source_text printable (imports_text options)"
    by (cases "co_style options") (simp_all add: imports_text_def source_text_walk)
  moreover have "source_text printable (sanitize_rust_identifier (co_test_name options))"
    by (intro source_text_ascii ascii_source_identifier sanitized_identifier)
  moreover have "source_text printable (fst (events_text printable options (rs_started_at session) None (rs_events session)))"
    by (rule source_text_events [OF ok(1)])
  moreover have "source_text printable
      (assertions_text printable (snd (events_text printable options (rs_started_at session) None (rs_events session))))"
    unfolding seen_commands by (rule source_text_assertions [OF asserted_texts [OF ok(1)]])
  ultimately show ?thesis
    using ok(2) source_text_date
    by (simp add: generate_test_def case_prod_beta source_text_walk)
qed

section \<open>Properties\<close>

text \<open>
  (C13) A generated test is exactly the recorded interactions.  The text of the file reads back, token by
  token, as one test function with a valid name that makes, in the recorded order, one call per
  interaction - with the decoded selector and the recorded value as its string arguments - and, where
  asked for, one assertion per successful IPC command.  Nothing the recorded page or the session's name
  contains (quotes, line ends, comment openers, escapes) adds, drops or changes a token.
\<close>

theorem generated_program_exact:
  assumes "session_ok session"
  shows "lex_rust (generate_test printable date session options) =
           Some (test_tokens options (sanitize_rust_identifier (co_test_name options))
                   (replayed_calls options (rs_events session)) (asserted_commands options (rs_events session)))
         \<and> rust_identifier (sanitize_rust_identifier (co_test_name options))"
  using lexes_all [OF lexes_generated [OF assms]] sanitized_identifier by blast

definition sample_session :: recorded_session where
  "sample_session =
     \<lparr> rs_id = ''s'', rs_started_at = 0,
       rs_events = [\<lparr> re_index = 0, re_timestamp = 0,
                      re_event = DomInteraction Fill ''#q'' (Some [quote, newline]) 0 ''main'' \<rparr>],
       rs_checkpoints = [] \<rparr>"

theorem generated_program_exact_witness:
  "lex_rust (generate_test (\<lambda>_. True) (2026, 1, 2) sample_session codegen_options_default) =
     Some (test_tokens codegen_options_default ''recorded_flow''
             [Client_Call ''fill_by_id'' [Lit ''q'', Lit [quote, newline]]] [])"
proof -
  have ok: "session_ok sample_session" by code_simp
  have "sanitize_rust_identifier (co_test_name codegen_options_default) = ''recorded_flow''" by code_simp
  moreover have "replayed_calls codegen_options_default (rs_events sample_session) =
      [Client_Call ''fill_by_id'' [Lit ''q'', Lit [quote, newline]]]" by code_simp
  moreover have "asserted_commands codegen_options_default (rs_events sample_session) = []" by code_simp
  ultimately show ?thesis using generated_program_exact [OF ok] by metis
qed

text \<open>
  A generated file has no character rustc or a terminal could choke on: every character is a line
  end, an ASCII character that prints, or one the Unicode tables call printable.  When the tables do not
  call the bidirectional marks printable (they do not), none of these can occur in it, whatever the
  recorded page contained.
\<close>

theorem generated_text_is_plain:
  assumes "session_ok session"
    and bidi: "\<And>n. n \<in> {0x202A..0x202E} \<union> {0x2066..0x2069} \<Longrightarrow> \<not> printable n"
  shows "valid_utf8 (generate_test printable date session options) \<and>
         (\<forall>ch \<in> set (utf8_chars (generate_test printable date session options)).
            (ch = [newline] \<or> is_plain_char printable ch) \<and>
            code_point ch \<notin> {0x202A..0x202E} \<union> {0x2066..0x2069})"
proof -
  have st: "source_text printable (generate_test printable date session options)"
    by (rule source_text_generated [OF assms(1)])
  have "code_point ch \<notin> {0x202A..0x202E} \<union> {0x2066..0x2069}"
    if ch: "ch = [newline] \<or> is_plain_char printable ch" for ch
  proof
    assume b: "code_point ch \<in> {0x202A..0x202E} \<union> {0x2066..0x2069}"
    then have "\<not> code_point ch < 128" by auto
    then have "ch \<noteq> [newline]" "is_plain_char printable ch \<Longrightarrow> printable (code_point ch)"
      by (auto simp: is_plain_char_def Let_def)
    then show False using bidi [OF b] ch by blast
  qed
  then show ?thesis using st by (auto simp: source_text_def list_all_iff)
qed

theorem generated_text_is_plain_witness:
  "list_all (\<lambda>ch. code_point ch \<notin> {0x202A..0x202E} \<union> {0x2066..0x2069})
     (utf8_chars (generate_test (\<lambda>_. False) (2026, 1, 2) sample_session codegen_options_default))"
proof -
  have ok: "session_ok sample_session" by code_simp
  show ?thesis using generated_text_is_plain [OF ok, of "\<lambda>_. False"] unfolding list_all_iff by blast
qed

end
