(* ===== verification/Jsonc.thy ===== *)
theory Jsonc
  imports Json Collections Utf8
begin

text \<open>
  The editor of JSON and JSONC configuration files (\<^verbatim>\<open>victauri-cli/src/jsonc.rs\<close>): \<^verbatim>\<open>victauri setup\<close>
  inserts one server entry as text and never rewrites the rest of a file other tools own.  Comments
  and trailing commas are blanked byte for byte, the place of the new member is found by scanning the
  blanked text, and the result is parsed again before it is written.

  A loop that only moves forward takes the rest of the text and returns what it writes; the scanners
  that return byte offsets keep the text and the index.  Parsing and printing JSON
  (\<^verbatim>\<open>serde_json::from_str\<close>, \<^verbatim>\<open>Value::to_string\<close>) are arguments.
\<close>

section \<open>Blanking comments and trailing commas\<close>

definition blank_bytes :: "string \<Rightarrow> string" where
  "blank_bytes w = map (\<lambda>b. if b \<noteq> newline \<and> b \<noteq> CHR 0x0D then CHR 0x20 else b) w"

text \<open>The rest of a block comment up to and including its end, and what follows.\<close>

fun split_block :: "string \<Rightarrow> string \<times> string" where
  "split_block [] = ([], [])"
| "split_block (c # r) =
     (if c = CHR ''*'' \<and> prefix ''/'' r then ([c, hd r], tl r)
      else (let (w, rest) = split_block r in (c # w, rest)))"

lemma split_block_append: "fst (split_block s) @ snd (split_block s) = s"
  by (induction s rule: split_block.induct) (auto simp: Let_def case_prod_beta prefix_def)

lemma split_block_rest: "length (snd (split_block s)) \<le> length s"
  using arg_cong [OF split_block_append [of s], of length] by simp

function blank_comments :: "bool \<Rightarrow> string \<Rightarrow> string" where
  "blank_comments in_string [] = []"
| "blank_comments True (c # r) =
     (if c = backslash then c # take 1 r @ blank_comments True (drop 1 r)
      else c # blank_comments (c \<noteq> quote) r)"
| "blank_comments False (c # r) =
     (if c = quote then c # blank_comments True r
      else if c = CHR ''/'' \<and> prefix ''/'' r then
        blank_bytes (takeWhile (\<lambda>b. b \<noteq> newline) (c # r)) @
        blank_comments False (dropWhile (\<lambda>b. b \<noteq> newline) (c # r))
      else if c = CHR ''/'' \<and> prefix ''*'' r then
        blank_bytes (c # hd r # fst (split_block (tl r))) @ blank_comments False (snd (split_block (tl r)))
      else c # blank_comments False r)"
  by pat_completeness auto
termination
proof (relation "measure (length \<circ> snd)")
  fix c :: char and r
  assume "c = CHR ''/'' \<and> prefix ''/'' r"
  then show "((False, dropWhile (\<lambda>b. b \<noteq> newline) (c # r)), (False, c # r)) \<in> measure (length \<circ> snd)"
    using length_dropWhile_le [of "\<lambda>b. b \<noteq> newline" r] by simp
next
  fix c :: char and r
  show "((False, snd (split_block (tl r))), (False, c # r)) \<in> measure (length \<circ> snd)"
    using split_block_rest [of "tl r"] by simp
qed auto

text \<open>Whether the next significant byte closes a container.\<close>

definition closer_follows :: "string \<Rightarrow> bool" where
  "closer_follows r = (case find (\<lambda>b. \<not> is_ascii_whitespace b) r of
     Some d \<Rightarrow> d = CHR 0x7D \<or> d = CHR '']'' | None \<Rightarrow> False)"

fun blank_commas :: "bool \<Rightarrow> string \<Rightarrow> string" where
  "blank_commas in_string [] = []"
| "blank_commas True [c] = [c]"
| "blank_commas True (c # d # r) =
     (if c = backslash then c # d # blank_commas True r
      else c # blank_commas (c \<noteq> quote) (d # r))"
| "blank_commas False (c # r) =
     (if c = quote then c # blank_commas True r
      else if c = CHR '','' then (if closer_follows r then CHR 0x20 else c) # blank_commas False r
      else c # blank_commas False r)"

text \<open>\<^verbatim>\<open>String::from_utf8(out).unwrap_or_default()\<close>\<close>

definition from_utf8_or_default :: "string \<Rightarrow> string" where
  "from_utf8_or_default out = (if valid_utf8 out then out else [])"

definition blank_jsonc :: "string \<Rightarrow> string" where
  "blank_jsonc s = from_utf8_or_default (blank_commas False (blank_comments False s))"

section \<open>Scanning strict JSON\<close>

text \<open>The byte at an index, when there is one.\<close>

definition byte_at :: "string \<Rightarrow> usize \<Rightarrow> char \<Rightarrow> bool" where
  "byte_at b i c = (i < length b \<and> b ! i = c)"

function skip_ws :: "string \<Rightarrow> usize \<Rightarrow> usize" where
  "skip_ws b i = (if i < length b \<and> is_ascii_whitespace (b ! i) then skip_ws b (i + 1) else i)"
  by pat_completeness auto
termination by (relation "measure (\<lambda>(b, i). length b - i)") auto

function string_end :: "string \<Rightarrow> usize \<Rightarrow> usize" where
  "string_end b i =
     (if length b \<le> i then length b
      else if b ! i = backslash then string_end b (i + 2)
      else if b ! i = quote then i + 1
      else string_end b (i + 1))"
  by pat_completeness auto
termination by (relation "measure (\<lambda>(b, i). length b - i)") auto

definition skip_string :: "string \<Rightarrow> usize \<Rightarrow> usize" where
  "skip_string b i = string_end b (i + 1)"

declare skip_ws.simps [simp del] string_end.simps [simp del]

lemma skip_ws_ge: "i \<le> skip_ws b i"
  by (induction b i rule: skip_ws.induct) (subst skip_ws.simps, auto)

lemma skip_ws_le: "i \<le> length b \<Longrightarrow> skip_ws b i \<le> length b"
  by (induction b i rule: skip_ws.induct) (subst skip_ws.simps, auto)

lemma string_end_over: "length b \<le> i \<Longrightarrow> string_end b i = length b"
  by (subst string_end.simps) simp

lemma string_end_bounds: "string_end b i \<le> length b \<and> (i \<le> length b \<longrightarrow> i \<le> string_end b i)"
proof (induction b i rule: string_end.induct)
  case (1 b i)
  show ?case
  proof (cases "length b \<le> i")
    case True
    then show ?thesis by (simp add: string_end_over)
  next
    case False
    have over: "string_end b (i + 2) = length b" if "\<not> i + 2 \<le> length b"
      using that by (simp add: string_end_over)
    show ?thesis
      using 1 False over string_end.simps [of b i] by (cases "i + 2 \<le> length b") auto
  qed
qed

lemma skip_string_gt: "i < length b \<Longrightarrow> i < skip_string b i"
  using string_end_bounds [of b "i + 1"] by (auto simp: skip_string_def)

lemma skip_string_le: "skip_string b i \<le> length b"
  using string_end_bounds [of b "i + 1"] by (simp add: skip_string_def)

definition is_open :: "char \<Rightarrow> bool" where
  "is_open c = (c = CHR 0x7B \<or> c = CHR ''['')"

definition is_close :: "char \<Rightarrow> bool" where
  "is_close c = (c = CHR 0x7D \<or> c = CHR '']'')"

text \<open>The loop over a container: \<open>depth\<close> containers are open at \<open>j\<close>.\<close>

function skip_nested :: "string \<Rightarrow> usize \<Rightarrow> usize \<Rightarrow> usize" where
  "skip_nested b j depth =
     (if length b \<le> j then length b
      else if b ! j = quote then skip_nested b (skip_string b j) depth
      else if is_open (b ! j) then skip_nested b (j + 1) (depth + 1)
      else if is_close (b ! j) then
        (if depth - 1 = 0 then j + 1 else skip_nested b (j + 1) (depth - 1))
      else skip_nested b (j + 1) depth)"
  by pat_completeness auto
termination
proof (relation "measure (\<lambda>(b, j, depth). length b - j)")
  fix b :: string and j depth
  assume "\<not> length b \<le> j"
  then show "((b, skip_string b j, depth), (b, j, depth)) \<in> measure (\<lambda>(b, j, depth). length b - j)"
    using skip_string_gt [of j b] by auto
qed auto

declare skip_nested.simps [simp del]

function skip_scalar :: "string \<Rightarrow> usize \<Rightarrow> usize" where
  "skip_scalar b j =
     (if j < length b \<and> b ! j \<noteq> CHR '','' \<and> \<not> is_close (b ! j) \<and> \<not> is_ascii_whitespace (b ! j)
      then skip_scalar b (j + 1) else j)"
  by pat_completeness auto
termination by (relation "measure (\<lambda>(b, i). length b - i)") auto

declare skip_scalar.simps [simp del]

definition skip_value :: "string \<Rightarrow> usize \<Rightarrow> usize" where
  "skip_value b i =
     (if byte_at b i quote then skip_string b i
      else if i < length b \<and> is_open (b ! i) then skip_nested b i 0
      else skip_scalar b i)"

lemma skip_nested_bounds: "j \<le> length b \<Longrightarrow> j \<le> skip_nested b j d \<and> skip_nested b j d \<le> length b"
proof (induction b j d rule: skip_nested.induct)
  case (1 b j d)
  then show ?case
    using skip_string_gt [of j b] skip_string_le [of b j]
    by (subst (1 2) skip_nested.simps) (auto intro: le_trans)
qed

lemma skip_scalar_ge: "j \<le> skip_scalar b j"
  by (induction b j rule: skip_scalar.induct) (subst skip_scalar.simps, auto)

lemma skip_scalar_le: "j \<le> length b \<Longrightarrow> skip_scalar b j \<le> length b"
  by (induction b j rule: skip_scalar.induct) (subst skip_scalar.simps, auto)

lemma skip_value_ge: "i \<le> length b \<Longrightarrow> i \<le> skip_value b i"
  using skip_string_gt [of i b] skip_nested_bounds [of i b 0] skip_scalar_ge [of i b]
  by (auto simp: skip_value_def byte_at_def)

lemma skip_value_le: "i \<le> length b \<Longrightarrow> skip_value b i \<le> length b"
  using skip_string_le [of b i] skip_nested_bounds [of i b 0] skip_scalar_le [of i b]
  by (auto simp: skip_value_def)

section \<open>Finding a member\<close>

text \<open>
  Outcome of \<^verbatim>\<open>serde_json::from_str\<close>: the error's text or the value.  \<^verbatim>\<open>from_str::<String>\<close> succeeds on
  the JSON strings.
\<close>

type_synonym json_parser = "string \<Rightarrow> string + json"

definition parse_name :: "json_parser \<Rightarrow> string \<Rightarrow> string option" where
  "parse_name parse w =
     (if valid_utf8 w then (case parse w of Inr v \<Rightarrow> json_as_str v | Inl e \<Rightarrow> None) else None)"

definition slice :: "string \<Rightarrow> usize \<Rightarrow> usize \<Rightarrow> string" where
  "slice b i j = take (j - i) (drop i b)"

function member_loop :: "json_parser \<Rightarrow> string \<Rightarrow> string \<Rightarrow> usize \<Rightarrow> usize option \<Rightarrow> usize option" where
  "member_loop parse b key i found =
     (if byte_at b i quote then
        (let stop = skip_string b i;
             name = parse_name parse (slice b i stop);
             colon = skip_ws b stop
         in if \<not> byte_at b colon CHR '':'' then None
            else (let val_at = skip_ws b (colon + 1);
                      found' = (if name = Some key then Some val_at else found);
                      after = skip_ws b (skip_value b val_at);
                      i' = (if byte_at b after CHR '','' then skip_ws b (after + 1) else after)
                  in member_loop parse b key i' found'))
      else found)"
  by pat_completeness auto
termination
proof (relation "measure (\<lambda>(parse, b, key, i, found). length b - i)", goal_cases)
  case (2 parse b key i found stop name colon val_at found' after i')
  have "i < length b" using 2(1) by (simp add: byte_at_def)
  then have "i < stop" using skip_string_gt 2(2) by simp
  moreover have "stop \<le> colon" using skip_ws_ge 2(4) by simp
  moreover have "colon < length b" using 2(5) by (simp add: byte_at_def)
  moreover from this have "val_at \<le> length b" using skip_ws_le [of "colon + 1" b] 2(6) by simp
  moreover have "colon < val_at" using skip_ws_ge [of "colon + 1" b] 2(6) by simp
  moreover from calculation have "val_at \<le> after"
    using skip_value_ge [of val_at b] skip_ws_ge [of "skip_value b val_at" b] 2(8) by simp
  moreover have "after \<le> i'" using skip_ws_ge [of "after + 1" b] 2(9) by (auto split: if_splits)
  ultimately show ?case by simp
qed simp

declare member_loop.simps [simp del]

definition member_value_offset :: "json_parser \<Rightarrow> string \<Rightarrow> usize \<Rightarrow> string \<Rightarrow> usize option" where
  "member_value_offset parse b open_at key = member_loop parse b key (skip_ws b (open_at + 1)) None"

section \<open>Layout of the new member\<close>

definition is_blank :: "char \<Rightarrow> bool" where
  "is_blank c = (c = CHR 0x20 \<or> c = CHR 0x09)"

fun first_indent :: "string list \<Rightarrow> string" where
  "first_indent [] = ''  ''"
| "first_indent (l # ls) =
     (let ws = takeWhile is_blank l
      in if ws = [] \<or> length ws = length l then first_indent ls
         else if prefix [CHR 0x09] ws then [CHR 0x09]
         else ws)"

definition detect_indent :: "string \<Rightarrow> string" where
  "detect_indent s = first_indent (drop 1 (str_lines s))"

text \<open>\<^verbatim>\<open>text[..pos].rfind\<close> of a line feed, plus one.\<close>

definition line_start :: "string \<Rightarrow> usize \<Rightarrow> usize" where
  "line_start s p = p - length (takeWhile (\<lambda>c. c \<noteq> newline) (rev (take p s)))"

definition line_indent :: "string \<Rightarrow> usize \<Rightarrow> string" where
  "line_indent s p = takeWhile is_blank (drop (line_start s p) s)"

definition KEY_ORDER :: "string list" where
  "KEY_ORDER = [''type'', ''command'', ''args'', ''env'']"

fun position_of :: "'a \<Rightarrow> 'a list \<Rightarrow> nat" where
  "position_of x [] = 0"
| "position_of x (y # ys) = (if y = x then 0 else Suc (position_of x ys))"

fun is_container :: "json \<Rightarrow> bool" where
  "is_container (JArray _) = True"
| "is_container (JObject _) = True"
| "is_container _ = False"

function pretty_at :: "(json \<Rightarrow> string) \<Rightarrow> json \<Rightarrow> string \<Rightarrow> string \<Rightarrow> string \<Rightarrow> string" where
  "pretty_at show_json v unit_indent base nl =
     (case v of
        JArray xs \<Rightarrow>
          (if \<forall>x \<in> set xs. \<not> is_container x then ''['' @ join '', '' (map show_json xs) @ '']''
           else (let inner = base @ unit_indent;
                     parts = map (\<lambda>x. inner @ pretty_at show_json x unit_indent inner nl) xs
                 in ''['' @ nl @ join ('','' @ nl) parts @ nl @ base @ '']''))
      | JObject m \<Rightarrow>
          (if m = [] then [CHR 0x7B, CHR 0x7D]
           else (let inner = base @ unit_indent;
                     entries = sort_key (\<lambda>kv. position_of (fst kv) KEY_ORDER) m;
                     parts = map (\<lambda>kv. inner @ show_json (JString (fst kv)) @ '': '' @
                                   pretty_at show_json (snd kv) unit_indent inner nl) entries
                 in [CHR 0x7B] @ nl @ join ('','' @ nl) parts @ nl @ base @ [CHR 0x7D]))
      | _ \<Rightarrow> show_json v)"
  by pat_completeness auto
termination
proof (relation "measure (\<lambda>(show_json, v, unit_indent, base, nl). size v)", goal_cases)
  case 2
  then show ?case using json_size_array by auto
next
  case 3
  then show ?case using json_size_object by auto
qed simp

declare pretty_at.simps [simp del]

definition render_inline :: "(json \<Rightarrow> string) \<Rightarrow> json \<Rightarrow> string" where
  "render_inline show_json v = pretty_at show_json v '''' '''' '' ''"

section \<open>Inserting a server\<close>

datatype json_merge = Write string | AlreadyPresent | Refused string

definition em_dash :: string where
  "em_dash = [CHR 0xE2, CHR 0x80, CHR 0x94]"

definition byte_order_mark :: string where
  "byte_order_mark = [CHR 0xEF, CHR 0xBB, CHR 0xBF]"

definition fresh_document :: "(json \<Rightarrow> string) \<Rightarrow> string \<Rightarrow> string \<Rightarrow> json \<Rightarrow> json_merge" where
  "fresh_document show_json servers_key name entry =
     Write (pretty_at show_json (JObject [(servers_key, JObject [(name, entry)])]) ''  '' '''' [newline] @
            [newline])"

text \<open>The document the result must parse to: the original plus the new entry.\<close>

definition with_entry :: "(string \<times> json) list \<Rightarrow> string \<Rightarrow> string \<Rightarrow> json \<Rightarrow> json" where
  "with_entry doc servers_key name entry =
     JObject (bt_insert servers_key
       (case (case map_of doc servers_key of Some s \<Rightarrow> s | None \<Rightarrow> JObject []) of
          JObject servers \<Rightarrow> JObject (bt_insert name entry servers)
        | other \<Rightarrow> other) doc)"

text \<open>
  The object the member goes into, as the offset of its opening brace, and whether the servers object
  itself has to be added.
\<close>

definition insertion_point :: "json_parser \<Rightarrow> string \<Rightarrow> string \<Rightarrow> (usize \<times> bool) option" where
  "insertion_point parse b servers_key =
     (let root_open = skip_ws b 0
      in case member_value_offset parse b root_open servers_key of
           Some off \<Rightarrow> if byte_at b off (CHR 0x7B) then Some (off, False) else None
         | None \<Rightarrow> Some (root_open, True))"

definition inserted_text ::
  "(json \<Rightarrow> string) \<Rightarrow> string \<Rightarrow> string \<Rightarrow> usize \<Rightarrow> bool \<Rightarrow> string \<Rightarrow> string \<Rightarrow> json \<Rightarrow> string" where
  "inserted_text show_json s b open_at whole servers_key name entry =
     (let nl = (if contains_str s [CHR 0x0D, newline] then [CHR 0x0D, newline] else [newline]);
          unit_indent = detect_indent s;
          base = line_indent s open_at;
          member = base @ unit_indent;
          key = (if whole then servers_key else name);
          val = (if whole then JObject [(name, entry)] else entry);
          key_json = show_json (JString key);
          value_text = pretty_at show_json val unit_indent member nl;
          after = skip_ws b (open_at + 1)
      in if byte_at b after (CHR 0x7D) then
           take (open_at + 1) s @ str_trim_end (slice s (open_at + 1) after) @ nl @ member @ key_json @
           '': '' @ value_text @ nl @ base @ drop after s
         else
           take (open_at + 1) s @ nl @ member @ key_json @ '': '' @ value_text @ '','' @
           drop (open_at + 1) s)"

definition insert_into ::
  "json_parser \<Rightarrow> (json \<Rightarrow> string) \<Rightarrow> string \<Rightarrow> string \<Rightarrow> string \<Rightarrow> (string \<times> json) list \<Rightarrow>
   string \<Rightarrow> string \<Rightarrow> json \<Rightarrow> json_merge" where
  "insert_into parse show_json bom s b doc servers_key name entry =
     (case insertion_point parse b servers_key of
        None \<Rightarrow> Refused (''unexpected document shape '' @ em_dash @ '' left untouched'')
      | Some (open_at, whole) \<Rightarrow>
          (let out = inserted_text show_json s b open_at whole servers_key name entry
           in if (case parse (blank_jsonc out) of
                    Inr actual \<Rightarrow> json_eq actual (with_entry doc servers_key name entry)
                  | Inl e \<Rightarrow> False)
              then Write (bom @ out)
              else Refused (''the merge could not be verified (unusual formatting) '' @ em_dash @
                            '' left untouched'')))"

definition split_bom :: "string \<Rightarrow> string \<times> string" where
  "split_bom raw =
     (case strip_prefix byte_order_mark raw of Some rest \<Rightarrow> (byte_order_mark, rest) | None \<Rightarrow> ([], raw))"

definition insert_server ::
  "json_parser \<Rightarrow> (json \<Rightarrow> string) \<Rightarrow> string option \<Rightarrow> string \<Rightarrow> string \<Rightarrow> json \<Rightarrow> json_merge" where
  "insert_server parse show_json existing servers_key name entry =
     (case existing of
        None \<Rightarrow> fresh_document show_json servers_key name entry
      | Some raw \<Rightarrow>
          (let (bom, s) = split_bom raw
           in if str_trim s = [] then fresh_document show_json servers_key name entry
              else (let b = blank_jsonc s
                    in case parse b of
                         Inl e \<Rightarrow> Refused (''it is not valid JSON/JSONC ('' @ e @ '') '' @ em_dash @
                                           '' left untouched'')
                       | Inr (JObject doc) \<Rightarrow>
                           (case map_of doc servers_key of
                              Some (JObject servers) \<Rightarrow>
                                if name \<in> fst ` set servers then AlreadyPresent
                                else insert_into parse show_json bom s b doc servers_key name entry
                            | None \<Rightarrow> insert_into parse show_json bom s b doc servers_key name entry
                            | Some other \<Rightarrow>
                                Refused (''its '' @ [quote] @ servers_key @ [quote] @
                                         '' key is not an object '' @ em_dash @ '' left untouched''))
                       | Inr other \<Rightarrow>
                           Refused (''its top level is not a JSON object '' @ em_dash @
                                    '' left untouched''))))"

section \<open>What blanking keeps\<close>

text \<open>A byte of the result is the byte of the text, or the space a comment or comma became.\<close>

definition blanked :: "char \<Rightarrow> char \<Rightarrow> bool" where
  "blanked x y = (y = x \<or> y = CHR 0x20 \<and> x \<noteq> newline \<and> x \<noteq> CHR 0x0D)"

lemma blanked_refl [simp]: "blanked x x"
  by (simp add: blanked_def)

lemma all2_blanked_refl [simp]: "list_all2 blanked xs xs"
  by (rule list_all2_refl) simp

lemma blank_bytes_blanked: "list_all2 blanked w (blank_bytes w)"
  by (induction w) (auto simp: blank_bytes_def blanked_def)

lemma blank_comments_blanked: "list_all2 blanked s (blank_comments m s)"
proof (induction m s rule: blank_comments.induct)
  case (2 c r)
  have "list_all2 blanked (take 1 r @ drop 1 r) (take 1 r @ blank_comments True (drop 1 r))"
    if "c = backslash" using 2(1) [OF that] by (intro list_all2_appendI) simp_all
  then show ?case using 2(2) by simp
next
  case (3 c r)
  consider "c = quote" | "c \<noteq> quote" "c = CHR ''/'' \<and> prefix ''/'' r"
    | "c \<noteq> quote" "\<not> (c = CHR ''/'' \<and> prefix ''/'' r)" "c = CHR ''/'' \<and> prefix ''*'' r"
    | "c \<noteq> quote" "\<not> (c = CHR ''/'' \<and> prefix ''/'' r)" "\<not> (c = CHR ''/'' \<and> prefix ''*'' r)" by blast
  then show ?case
  proof cases
    case 1
    then show ?thesis using 3(1) by simp
  next
    case 2
    have "list_all2 blanked (takeWhile (\<lambda>b. b \<noteq> newline) (c # r) @ dropWhile (\<lambda>b. b \<noteq> newline) (c # r))
       (blank_bytes (takeWhile (\<lambda>b. b \<noteq> newline) (c # r)) @
        blank_comments False (dropWhile (\<lambda>b. b \<noteq> newline) (c # r)))"
      by (rule list_all2_appendI [OF blank_bytes_blanked 3(2) [OF 2]])
    then show ?thesis using 2 unfolding takeWhile_dropWhile_id by simp
  next
    case 3
    have r: "c # r = (c # hd r # fst (split_block (tl r))) @ snd (split_block (tl r))"
      using 3(3) split_block_append [of "tl r"] by (auto simp: prefix_def)
    have "list_all2 blanked ((c # hd r # fst (split_block (tl r))) @ snd (split_block (tl r)))
       (blank_bytes (c # hd r # fst (split_block (tl r))) @ blank_comments False (snd (split_block (tl r))))"
      by (rule list_all2_appendI [OF blank_bytes_blanked "3.IH"(3) [OF 3]])
    then show ?thesis using 3 r by simp
  next
    case 4
    from 4 show ?thesis using 3(4) by (auto simp del: list_all2_Cons2)
  qed
qed simp

lemma blank_commas_blanked: "list_all2 blanked s (blank_commas m s)"
  by (induction m s rule: blank_commas.induct) (auto simp: blanked_def)

lemma blanked_trans: "blanked x y \<Longrightarrow> blanked y z \<Longrightarrow> blanked x z"
  by (auto simp: blanked_def)

lemma blank_passes_blanked: "list_all2 blanked s (blank_commas False (blank_comments False s))"
  using list_all2_trans [of blanked blanked blanked] blanked_trans
    blank_comments_blanked [of s False] blank_commas_blanked [of "blank_comments False s" False] by blast

lemma blank_commas_edit: "ascii_edit s (blank_commas m s)"
  unfolding ascii_edit_def
  by (induction m s rule: blank_commas.induct) (auto simp: is_ascii_def)

section \<open>Blanking keeps a text well-formed\<close>

lemma special_ascii [simp]:
  "is_ascii quote" "is_ascii backslash" "is_ascii (CHR ''/'')" "is_ascii (CHR ''*'')" "is_ascii newline"
  "is_ascii (CHR '','')" "is_ascii (CHR 0x20)"
  by (simp_all add: is_ascii_def)

lemma blank_bytes_ascii: "\<forall>c \<in> set (blank_bytes w). is_ascii c"
  by (auto simp: blank_bytes_def is_ascii_def)

text \<open>Bytes of multi-byte characters are copied, inside and outside strings.\<close>

lemma blank_comments_high: "\<forall>c \<in> set ch. \<not> is_ascii c \<Longrightarrow> blank_comments m (ch @ s) = ch @ blank_comments m s"
proof (induction ch)
  case (Cons c ch)
  then have "c \<noteq> quote" "c \<noteq> backslash" "c \<noteq> CHR ''/''" by auto
  then show ?case using Cons by (cases m) simp_all
qed simp

lemma split_block_valid: "valid_utf8 s \<Longrightarrow> valid_utf8 (snd (split_block s))"
proof -
  assume s: "valid_utf8 s"
  have "snd (split_block s) = [] \<or> (\<exists>w. s = w @ CHR ''/'' # snd (split_block s))"
  proof (induction s rule: split_block.induct)
    case (2 c r)
    show ?case
    proof (cases "c = CHR ''*'' \<and> prefix ''/'' r")
      case True
      then have "c # r = [c] @ CHR ''/'' # tl r" by (auto simp: prefix_def)
      then show ?thesis using True by (metis snd_conv split_block.simps(2))
    next
      case False
      from 2 [OF False] show ?thesis
      proof
        assume "\<exists>w. r = w @ CHR ''/'' # snd (split_block r)"
        then obtain w where "r = w @ CHR ''/'' # snd (split_block r)" by blast
        then have "c # r = (c # w) @ CHR ''/'' # snd (split_block r)" by simp
        then show ?thesis using False by (metis (no_types, lifting) case_prod_beta snd_conv split_block.simps(2))
      qed (use False in \<open>auto simp: Let_def case_prod_beta\<close>)
    qed
  qed simp
  then show ?thesis using valid_utf8_from_ascii s special_ascii(3) valid_utf8_Nil by metis
qed

lemma blank_comments_valid: "valid_utf8 s \<Longrightarrow> valid_utf8 (blank_comments m s)"
proof (induction s arbitrary: m rule: measure_induct_rule [of length])
  case (less s)
  from less.prems show ?case
  proof (cases rule: valid_utf8_cases)
    case Nil
    then show ?thesis by simp
  next
    case (char ch t)
    from char(2) show ?thesis
    proof (cases rule: utf8_char_cases)
      case multi
      then have "length t < length s" using char by simp
      then show ?thesis
        using less.IH char by (simp add: blank_comments_high [OF multi(2)] valid_utf8_char)
    next
      case (ascii c)
      then have s: "s = c # t" using char by simp
      have IH: "valid_utf8 u \<Longrightarrow> length u \<le> length t \<Longrightarrow> valid_utf8 (blank_comments m' u)" for u m'
        using less.IH s by simp
      show ?thesis
      proof (cases m)
        case True
        show ?thesis
        proof (cases "c = backslash")
          case esc: True
          from char(3) show ?thesis
          proof (cases rule: valid_utf8_cases)
            case Nil
            then show ?thesis using s True esc by simp
          next
            case c2: (char ch' t')
            then obtain x xs where ch': "ch' = x # xs" by (cases ch') auto
            have "blank_comments True (xs @ t') = xs @ blank_comments True t'"
              using c2(2) by (cases rule: utf8_char_cases) (auto simp: ch' blank_comments_high)
            then have "blank_comments m s = c # ch' @ blank_comments True t'"
              using s True esc c2(1) ch' by simp
            then show ?thesis using IH [of t' True] c2 ascii(2) by (simp add: valid_utf8_char)
          qed
        next
          case False
          then show ?thesis using IH [OF char(3)] s True ascii(2) by simp
        qed
      next
        case False
        consider "c = quote" | "c = CHR ''/'' \<and> prefix ''/'' t"
          | "\<not> (c = CHR ''/'' \<and> prefix ''/'' t)" "c = CHR ''/'' \<and> prefix ''*'' t"
          | "c \<noteq> quote" "\<not> (c = CHR ''/'' \<and> prefix ''/'' t)" "\<not> (c = CHR ''/'' \<and> prefix ''*'' t)" by blast
        then show ?thesis
        proof cases
          case 1
          then show ?thesis using IH [OF char(3)] s False by simp
        next
          case 2
          have "valid_utf8 (dropWhile (\<lambda>b. b \<noteq> newline) t)"
            by (rule valid_utf8_dropWhile [OF char(3)]) simp
          then have "valid_utf8 (blank_comments False (dropWhile (\<lambda>b. b \<noteq> newline) t))"
            using IH length_dropWhile_le by blast
          then show ?thesis
            using 2 s False blank_bytes_ascii valid_utf8_ascii_prefix by simp
        next
          case 3
          obtain t' where t: "t = CHR ''*'' # t'" using 3 by (auto simp: prefix_def)
          then have "valid_utf8 (snd (split_block t'))" using char(3) split_block_valid by simp
          then have "valid_utf8 (blank_comments False (snd (split_block t')))"
            using IH split_block_rest [of t'] t by simp
          then show ?thesis
            using 3 s t False blank_bytes_ascii valid_utf8_ascii_prefix by simp
        next
          case 4
          then show ?thesis using IH [OF char(3)] s False ascii(2) by auto
        qed
      qed
    qed
  qed
qed

lemma blank_jsonc_valid:
  "valid_utf8 s \<Longrightarrow> blank_jsonc s = blank_commas False (blank_comments False s)"
  using valid_utf8_edit [OF blank_comments_valid blank_commas_edit]
  by (simp add: blank_jsonc_def from_utf8_or_default_def)

lemma blank_jsonc_cases: "list_all2 blanked s (blank_jsonc s) \<or> blank_jsonc s = []"
  using blank_passes_blanked by (simp add: blank_jsonc_def from_utf8_or_default_def)

section \<open>A reference reading of JSONC text\<close>

text \<open>
  JSONC text as a sequence of spans: single bytes, strings, line comments (without the line feed) and
  block comments.
\<close>

datatype jspan = Plain char | Str string | LineC string | BlockC string

inductive string_body :: "string \<Rightarrow> bool" where
  "string_body []"
| "c \<noteq> quote \<Longrightarrow> c \<noteq> backslash \<Longrightarrow> string_body w \<Longrightarrow> string_body (c # w)"
| "string_body w \<Longrightarrow> string_body (backslash # c # w)"

fun span_text :: "jspan \<Rightarrow> string" where
  "span_text (Plain c) = [c]"
| "span_text (Str w) = quote # w @ [quote]"
| "span_text (LineC w) = ''//'' @ w"
| "span_text (BlockC w) = ''/*'' @ w @ ''*/''"

definition spans_text :: "jspan list \<Rightarrow> string" where
  "spans_text ss = concat (map span_text ss)"

inductive jsonc_spans :: "jspan list \<Rightarrow> bool" where
  "jsonc_spans []"
| "c \<noteq> quote \<Longrightarrow> c = CHR ''/'' \<longrightarrow> \<not> prefix ''/'' (spans_text ss) \<and> \<not> prefix ''*'' (spans_text ss) \<Longrightarrow>
   jsonc_spans ss \<Longrightarrow> jsonc_spans (Plain c # ss)"
| "string_body w \<Longrightarrow> jsonc_spans ss \<Longrightarrow> jsonc_spans (Str w # ss)"
| "newline \<notin> set w \<Longrightarrow> spans_text ss = [] \<or> hd (spans_text ss) = newline \<Longrightarrow>
   jsonc_spans ss \<Longrightarrow> jsonc_spans (LineC w # ss)"
| "\<not> sublist ''*/'' (w @ ''*'') \<Longrightarrow> jsonc_spans ss \<Longrightarrow> jsonc_spans (BlockC w # ss)"

text \<open>What blanking should make of it: comments are white space, a comma before a closer too.\<close>

fun span_blank :: "jspan \<Rightarrow> string" where
  "span_blank (LineC w) = blank_bytes (span_text (LineC w))"
| "span_blank (BlockC w) = blank_bytes (span_text (BlockC w))"
| "span_blank s = span_text s"

fun closes :: "jspan list \<Rightarrow> bool" where
  "closes [] = False"
| "closes (Plain c # ss) = (if is_ascii_whitespace c then closes ss else is_close c)"
| "closes (Str w # ss) = False"
| "closes (LineC w # ss) = closes ss"
| "closes (BlockC w # ss) = closes ss"

fun strict_json :: "jspan list \<Rightarrow> string" where
  "strict_json [] = []"
| "strict_json (Plain c # ss) =
     (if c = CHR '','' \<and> closes ss then CHR 0x20 else c) # strict_json ss"
| "strict_json (s # ss) = span_blank s @ strict_json ss"

lemma jsonc_text_simps [simp]: "spans_text [] = []" "spans_text (s # ss) = span_text s @ spans_text ss"
  by (simp_all add: spans_text_def)

lemma blank_comments_string:
  "string_body w \<Longrightarrow> blank_comments True (w @ quote # r) = w @ quote # blank_comments False r"
  by (induction rule: string_body.induct) simp_all

lemma blank_commas_string:
  "string_body w \<Longrightarrow> blank_commas True (w @ quote # r) = w @ quote # blank_commas False r"
proof (induction rule: string_body.induct)
  case 1
  then show ?case by (cases r) simp_all
next
  case (2 c w)
  then show ?case by (cases w) simp_all
next
  case (3 w c)
  then show ?case by simp
qed

lemma split_block_text: "\<not> sublist ''*/'' (w @ ''*'') \<Longrightarrow> split_block (w @ ''*/'' @ r) = (w @ ''*/'', r)"
proof (induction w)
  case (Cons c w)
  have "\<not> (c = CHR ''*'' \<and> prefix ''/'' (w @ ''*/'' @ r))"
  proof
    assume c: "c = CHR ''*'' \<and> prefix ''/'' (w @ ''*/'' @ r)"
    then obtain zs where "w = CHR ''/'' # zs" by (cases w) auto
    then have "c # w @ ''*'' = [] @ ''*/'' @ zs @ ''*''" using c by simp
    then show False using Cons.prems by (metis append_Cons sublist_appendI)
  qed
  moreover have "\<not> sublist ''*/'' (w @ ''*'')"
    using Cons.prems by (auto simp: sublist_Cons_right)
  ultimately show ?case using Cons.IH by simp
qed simp

lemma takeWhile_line:
  "newline \<notin> set w \<Longrightarrow> r = [] \<or> hd r = newline \<Longrightarrow>
   takeWhile (\<lambda>b. b \<noteq> newline) (w @ r) = w \<and> dropWhile (\<lambda>b. b \<noteq> newline) (w @ r) = r"
proof -
  assume w: "newline \<notin> set w" and r: "r = [] \<or> hd r = newline"
  have all: "b \<noteq> newline" if "b \<in> set w" for b using w that by auto
  have "takeWhile (\<lambda>b. b \<noteq> newline) r = []" "dropWhile (\<lambda>b. b \<noteq> newline) r = r"
    using r by (cases r; simp)+
  then show ?thesis using all by (simp add: takeWhile_append2 dropWhile_append2)
qed

lemma blank_comments_spans:
  "jsonc_spans ss \<Longrightarrow> blank_comments False (spans_text ss) = concat (map span_blank ss)"
proof (induction rule: jsonc_spans.induct)
  case (2 c ss)
  then show ?case by auto
next
  case (3 w ss)
  then show ?case by (simp add: blank_comments_string)
next
  case (4 w ss)
  have "newline \<notin> set (''//'' @ w)" using 4(1) by simp
  from takeWhile_line [OF this 4(2)] show ?case using 4(4) by simp
next
  case (5 w ss)
  then show ?case by (simp add: split_block_text [simplified])
qed simp

lemma blank_bytes_white: "\<forall>c \<in> set (blank_bytes w). is_ascii_whitespace c"
  by (auto simp: blank_bytes_def is_ascii_whitespace_def)

lemma closer_follows_white:
  "\<forall>c \<in> set w. is_ascii_whitespace c \<Longrightarrow> closer_follows (w @ r) = closer_follows r"
  by (induction w) (simp_all add: closer_follows_def)

lemma closer_follows_spans: "closer_follows (concat (map span_blank ss)) = closes ss"
proof (induction ss rule: closes.induct)
  case (3 w ss)
  then show ?case by (simp add: closer_follows_def is_ascii_whitespace_def)
next
  case (4 w ss)
  then show ?case
    unfolding list.map concat.simps span_blank.simps closes.simps
    by (simp only: closer_follows_white [OF blank_bytes_white])
next
  case (5 w ss)
  then show ?case
    unfolding list.map concat.simps span_blank.simps closes.simps
    by (simp only: closer_follows_white [OF blank_bytes_white])
qed (simp_all add: closer_follows_def is_close_def)

lemma blank_commas_white:
  "\<forall>c \<in> set w. is_ascii_whitespace c \<Longrightarrow> blank_commas False (w @ r) = w @ blank_commas False r"
  by (induction w) (auto simp: is_ascii_whitespace_def)

lemma blank_commas_spans:
  "jsonc_spans ss \<Longrightarrow> blank_commas False (concat (map span_blank ss)) = strict_json ss"
proof (induction rule: jsonc_spans.induct)
  case (2 c ss)
  then show ?case by (simp add: closer_follows_spans)
next
  case (3 w ss)
  then show ?case by (simp add: blank_commas_string)
next
  case (4 w ss)
  then show ?case
    unfolding list.map concat.simps span_blank.simps strict_json.simps
    by (simp only: blank_commas_white [OF blank_bytes_white])
next
  case (5 w ss)
  then show ?case
    unfolding list.map concat.simps span_blank.simps strict_json.simps
    by (simp only: blank_commas_white [OF blank_bytes_white])
qed simp

text \<open>
  (C23) Blanking a well-formed JSONC text gives the strict JSON of its reference reading: comments
  become white space, a comma whose next significant byte closes a container becomes a space, strings
  are untouched; the result is a well-formed text of the same length, so every byte offset and every
  line break is where it was.
\<close>

theorem blank_jsonc_reference:
  assumes "jsonc_spans ss" "valid_utf8 (spans_text ss)"
  shows "blank_jsonc (spans_text ss) = strict_json ss \<and> valid_utf8 (strict_json ss) \<and>
    length (strict_json ss) = length (spans_text ss) \<and>
    (\<forall>i < length (spans_text ss). strict_json ss ! i = spans_text ss ! i \<or>
       strict_json ss ! i = CHR 0x20 \<and> spans_text ss ! i \<notin> {newline, CHR 0x0D})"
proof -
  have json: "blank_jsonc (spans_text ss) = strict_json ss"
    using assms by (simp add: blank_jsonc_valid blank_comments_spans blank_commas_spans)
  have all: "list_all2 blanked (spans_text ss) (strict_json ss)"
    using blank_passes_blanked [of "spans_text ss"] json assms(2) by (simp add: blank_jsonc_valid)
  have "valid_utf8 (strict_json ss)"
    using valid_utf8_edit [OF blank_comments_valid [OF assms(2), of False] blank_commas_edit [of _ False]] json
    by (simp only: blank_jsonc_valid [OF assms(2)])
  then show ?thesis
    using json list_all2_lengthD [OF all] list_all2_nthD [OF all] by (auto simp: blanked_def)
qed

definition example_spans :: "jspan list" where
  "example_spans = [Plain CHR 0x7B, Str ''a//b'', Plain CHR '':'', Plain CHR ''1'', Plain CHR '','',
     LineC '' x, }'', Plain newline, BlockC '', y'', Plain CHR 0x7D]"

lemma blank_jsonc_reference_witness:
  "jsonc_spans example_spans \<and> valid_utf8 (spans_text example_spans) \<and>
   blank_jsonc (spans_text example_spans) = strict_json example_spans"
proof -
  have s: "jsonc_spans example_spans"
    unfolding example_spans_def by (intro jsonc_spans.intros string_body.intros) (auto simp: sublist_Cons_right)
  have v: "valid_utf8 (spans_text example_spans)"
    using valid_utf8_ascii_prefix [of "spans_text example_spans" "[]"]
    by (simp add: example_spans_def is_ascii_def)
  show ?thesis using s v blank_jsonc_reference [OF s v] by blast
qed

section \<open>The scanners read JSON\<close>

text \<open>
  The inside of a container, as far as brackets and strings go, and JSON values: strings, containers,
  and the other scalars.
\<close>

inductive nested :: "string \<Rightarrow> bool" where
  "nested []"
| "c \<noteq> quote \<Longrightarrow> \<not> is_open c \<Longrightarrow> \<not> is_close c \<Longrightarrow> nested t \<Longrightarrow> nested (c # t)"
| "string_body w \<Longrightarrow> nested t \<Longrightarrow> nested (quote # w @ quote # t)"
| "is_open c \<Longrightarrow> is_close d \<Longrightarrow> nested t \<Longrightarrow> nested u \<Longrightarrow> nested (c # t @ d # u)"

definition is_delimiter :: "char \<Rightarrow> bool" where
  "is_delimiter c = (c = CHR '','' \<or> is_close c \<or> is_ascii_whitespace c)"

inductive value_text :: "string \<Rightarrow> bool" where
  "string_body w \<Longrightarrow> value_text (quote # w @ [quote])"
| "is_open c \<Longrightarrow> is_close d \<Longrightarrow> nested t \<Longrightarrow> value_text (c # t @ [d])"
| "c \<noteq> quote \<Longrightarrow> \<not> is_open c \<Longrightarrow> \<forall>x \<in> set (c # w). \<not> is_delimiter x \<Longrightarrow> value_text (c # w)"

definition white :: "string \<Rightarrow> bool" where
  "white w = (\<forall>c \<in> set w. is_ascii_whitespace c)"

text \<open>
  A member of an object: white space, the key, white space, the colon, white space, the value, white
  space.
\<close>

datatype member =
  Member (before: string) (key_body: string) (before_colon: string) (after_colon: string)
    (value_of: string) (behind: string)

definition wf_member :: "member \<Rightarrow> bool" where
  "wf_member m = (white (before m) \<and> string_body (key_body m) \<and> white (before_colon m) \<and>
     white (after_colon m) \<and> value_text (value_of m) \<and> white (behind m))"

definition member_head :: "member \<Rightarrow> string" where
  "member_head m =
     before m @ quote # key_body m @ quote # before_colon m @ CHR '':'' # after_colon m"

definition member_text :: "member \<Rightarrow> string" where
  "member_text m = member_head m @ value_of m @ behind m"

definition key_text :: "member \<Rightarrow> string" where
  "key_text m = quote # key_body m @ [quote]"

definition named :: "json_parser \<Rightarrow> string \<Rightarrow> member \<Rightarrow> bool" where
  "named parse key m = (parse_name parse (key_text m) = Some key)"

lemma skip_ws_span:
  "white w \<Longrightarrow> r = [] \<or> \<not> is_ascii_whitespace (hd r) \<Longrightarrow>
   skip_ws (a @ w @ r) (length a) = length (a @ w)"
proof (induction w arbitrary: a)
  case Nil
  then show ?case by (subst skip_ws.simps) (cases r; simp)
next
  case (Cons c w)
  have "skip_ws ((a @ [c]) @ w @ r) (length (a @ [c])) = length ((a @ [c]) @ w)"
    using Cons by (intro Cons.IH) (simp_all add: white_def)
  then show ?case using Cons.prems(1) by (subst skip_ws.simps) (simp add: white_def)
qed

lemma string_end_span:
  "string_body w \<Longrightarrow> string_end (a @ w @ quote # r) (length a) = length (a @ w) + 1"
proof (induction arbitrary: a rule: string_body.induct)
  case 1
  then show ?case by (subst string_end.simps) simp
next
  case (2 c w)
  from 2(4) [of "a @ [c]"] show ?case using 2(1,2) by (subst string_end.simps) simp
next
  case (3 w c)
  from 3(2) [of "a @ [backslash, c]"] show ?case by (subst string_end.simps) simp
qed

lemma skip_string_span:
  "string_body w \<Longrightarrow> skip_string (a @ quote # w @ quote # r) (length a) = length (a @ quote # w @ [quote])"
  using string_end_span [of w "a @ [quote]" r] by (simp add: skip_string_def)

lemma skip_nested_open:
  "is_open c \<Longrightarrow> skip_nested (a @ c # r) (length a) d = skip_nested (a @ c # r) (length (a @ [c])) (d + 1)"
  by (subst skip_nested.simps) (auto simp: is_open_def)

lemma skip_nested_close:
  "is_close c \<Longrightarrow> skip_nested (a @ c # r) (length a) d =
     (if d - 1 = 0 then length (a @ [c]) else skip_nested (a @ c # r) (length (a @ [c])) (d - 1))"
  by (subst skip_nested.simps) (auto simp: is_open_def is_close_def)

lemma skip_nested_other:
  "c \<noteq> quote \<Longrightarrow> \<not> is_open c \<Longrightarrow> \<not> is_close c \<Longrightarrow>
   skip_nested (a @ c # r) (length a) d = skip_nested (a @ c # r) (length (a @ [c])) d"
  by (subst skip_nested.simps) simp

lemma skip_nested_string:
  "string_body w \<Longrightarrow> skip_nested (a @ quote # w @ quote # r) (length a) d =
     skip_nested (a @ quote # w @ quote # r) (length (a @ quote # w @ [quote])) d"
  using skip_string_span [of w a r] by (subst skip_nested.simps) simp

lemma skip_nested_span:
  "nested t \<Longrightarrow> 0 < d \<Longrightarrow>
   skip_nested (a @ t @ r) (length a) d = skip_nested (a @ t @ r) (length (a @ t)) d"
proof (induction arbitrary: a d r rule: nested.induct)
  case 1
  then show ?case by simp
next
  case (2 c t)
  from 2(5) [of d "a @ [c]" r] show ?case
    using 2(6) skip_nested_other [OF 2(1-3), of a "t @ r" d] by simp
next
  case (3 w t)
  from 3(3) [of d "a @ quote # w @ [quote]" r] show ?case
    using 3(4) skip_nested_string [OF 3(1), of a "t @ r" d] by simp
next
  case (4 c e t u)
  from 4(5) [of "d + 1" "a @ [c]" "e # u @ r"] 4(6) [of d "a @ [c] @ t @ [e]" r] show ?case
    using 4(7) skip_nested_open [OF 4(1), of a "t @ e # u @ r" d]
      skip_nested_close [OF 4(2), of "a @ [c] @ t" "u @ r" "d + 1"] by simp
qed

lemma skip_scalar_span:
  "\<forall>x \<in> set w. \<not> is_delimiter x \<Longrightarrow> r = [] \<or> is_delimiter (hd r) \<Longrightarrow>
   skip_scalar (a @ w @ r) (length a) = length (a @ w)"
proof (induction w arbitrary: a)
  case Nil
  then show ?case by (subst skip_scalar.simps) (cases r; auto simp: is_delimiter_def)
next
  case (Cons c w)
  have "skip_scalar ((a @ [c]) @ w @ r) (length (a @ [c])) = length ((a @ [c]) @ w)"
    using Cons by (intro Cons.IH) simp_all
  then show ?case using Cons.prems(1) by (subst skip_scalar.simps) (simp add: is_delimiter_def)
qed

lemma skip_value_span:
  assumes "value_text v" "r = [] \<or> is_delimiter (hd r)"
  shows "skip_value (a @ v @ r) (length a) = length (a @ v)"
  using assms(1)
proof cases
  case (1 w)
  then show ?thesis
    using skip_string_span [of w a r] by (simp add: skip_value_def byte_at_def)
next
  case (2 c d t)
  have c: "c \<noteq> quote" using 2(2) by (auto simp: is_open_def)
  have "skip_value (a @ v @ r) (length a) = skip_nested (a @ c # t @ d # r) (length a) 0"
    using 2(1,2) c by (simp add: skip_value_def byte_at_def)
  also have "\<dots> = skip_nested ((a @ [c]) @ t @ d # r) (length (a @ [c])) 1"
    using skip_nested_open [OF 2(2), of a "t @ d # r" 0] by simp
  also have "\<dots> = skip_nested ((a @ [c] @ t) @ d # r) (length (a @ [c] @ t)) 1"
    using skip_nested_span [OF 2(4), of 1 "a @ [c]" "d # r"] by simp
  also have "\<dots> = length (a @ v)"
    using skip_nested_close [OF 2(3), of "a @ [c] @ t" r 1] 2(1) by simp
  finally show ?thesis .
next
  case (3 c w)
  then show ?thesis
    using skip_scalar_span [of v r a] assms(2) by (simp add: skip_value_def byte_at_def)
qed

lemma value_text_head: "value_text v \<Longrightarrow> v \<noteq> [] \<and> \<not> is_ascii_whitespace (hd v)"
  by (induction rule: value_text.induct) (auto simp: is_ascii_whitespace_def is_open_def is_delimiter_def)

text \<open>The text in front of the value of the last member with a name.\<close>

fun lookup_last :: "json_parser \<Rightarrow> string \<Rightarrow> member list \<Rightarrow> string option" where
  "lookup_last parse key [] = None"
| "lookup_last parse key (m # ms) =
     (case lookup_last parse key ms of
        Some p \<Rightarrow> Some (member_text m @ '','' @ p)
      | None \<Rightarrow> if named parse key m then Some (member_head m) else None)"

lemma byte_at_append [simp]: "byte_at (a @ c # r) (length a) d = (c = d)"
  by (simp add: byte_at_def)

lemma member_loop_step:
  assumes m: "wf_member m" and b: "b = a @ member_text m @ d # r" and d: "d = CHR '','' \<or> is_close d"
  shows "member_loop parse b key (skip_ws b (length a)) found =
    member_loop parse b key
      (if d = CHR '','' then skip_ws b (length (a @ member_text m @ '','')) else length (a @ member_text m))
      (if named parse key m then Some (length (a @ member_head m)) else found)"
proof -
  let ?k = "a @ before m" and ?s = "a @ before m @ key_text m"
  let ?c = "a @ before m @ key_text m @ before_colon m" and ?v = "a @ member_head m"
  have white: "white (before m)" "white (before_colon m)" "white (after_colon m)" "white (behind m)"
    and body: "string_body (key_body m)" and val: "value_text (value_of m)"
    using m by (simp_all add: wf_member_def)
  have nd: "\<not> is_ascii_whitespace d" using d by (auto simp: is_close_def is_ascii_whitespace_def)
  have start: "skip_ws b (length a) = length ?k"
    using skip_ws_span [OF white(1), of "quote # key_body m @ quote # before_colon m @ CHR '':'' # after_colon m @
      value_of m @ behind m @ d # r" a] b
    by (simp add: member_text_def member_head_def is_ascii_whitespace_def)
  have at_key: "byte_at b (length ?k) quote"
    using b by (simp add: byte_at_def member_text_def member_head_def nth_append)
  have stop: "skip_string b (length ?k) = length ?s"
    using skip_string_span [OF body, of ?k "before_colon m @ CHR '':'' # after_colon m @ value_of m @ behind m @ d # r"] b
    by (simp add: member_text_def member_head_def key_text_def)
  have name: "slice b (length ?k) (length ?s) = key_text m"
    using b by (simp add: slice_def member_text_def member_head_def key_text_def)
  have colon: "skip_ws b (length ?s) = length ?c"
    using skip_ws_span [OF white(2), of "CHR '':'' # after_colon m @ value_of m @ behind m @ d # r" ?s] b
    by (simp add: member_text_def member_head_def key_text_def is_ascii_whitespace_def)
  have at_colon: "byte_at b (length ?c) CHR '':''"
    using byte_at_append [of ?c "CHR '':''" "after_colon m @ value_of m @ behind m @ d # r"] b
    by (simp add: member_text_def member_head_def key_text_def)
  have vhead: "value_of m \<noteq> []" "\<not> is_ascii_whitespace (hd (value_of m))"
    using value_text_head [OF val] by simp_all
  have at_val: "skip_ws b (length ?c + 1) = length ?v"
    using skip_ws_span [OF white(3), of "value_of m @ behind m @ d # r" "?c @ '':''"] b vhead
    by (simp add: member_text_def member_head_def key_text_def)
  have "behind m @ d # r = [] \<or> is_delimiter (hd (behind m @ d # r))"
    using white(4) d by (cases "behind m") (auto simp: white_def is_delimiter_def)
  then have value_end: "skip_value b (length ?v) = length (?v @ value_of m)"
    using skip_value_span [OF val, of "behind m @ d # r" ?v] b by (simp add: member_text_def)
  have after: "skip_ws b (length (?v @ value_of m)) = length (a @ member_text m)"
    using skip_ws_span [OF white(4), of "d # r" "?v @ value_of m"] b nd by (simp add: member_text_def)
  have at_after: "byte_at b (length (a @ member_text m)) x = (d = x)" for x
    using byte_at_append [of "a @ member_text m" d r] b by simp
  have len: "length (a @ member_text m) + 1 = length (a @ member_text m @ '','')" by simp
  show ?thesis
    unfolding start
    by (subst member_loop.simps)
       (simp only: at_key stop name colon at_colon at_val value_end after at_after len if_True not_True_eq_False
          if_False Let_def named_def)
qed

lemma member_loop_end: "is_close d \<Longrightarrow> member_loop parse (a @ d # r) key (length a) found = found"
  by (subst member_loop.simps) (auto simp: is_close_def)

lemma member_loop_members:
  "ms \<noteq> [] \<Longrightarrow> \<forall>m \<in> set ms. wf_member m \<Longrightarrow> is_close d \<Longrightarrow>
   b = a @ join '','' (map member_text ms) @ d # r \<Longrightarrow>
   member_loop parse b key (skip_ws b (length a)) found =
     (case lookup_last parse key ms of Some p \<Rightarrow> Some (length (a @ p)) | None \<Rightarrow> found)"
proof (induction ms arbitrary: a found)
  case (Cons m ms)
  have m: "wf_member m" using Cons.prems(2) by simp
  show ?case
  proof (cases "ms = []")
    case True
    then have b: "b = a @ member_text m @ d # r" using Cons.prems(4) by simp
    have "d \<noteq> CHR '',''" using Cons.prems(3) by (auto simp: is_close_def)
    then have "member_loop parse b key (skip_ws b (length a)) found =
        (if named parse key m then Some (length (a @ member_head m)) else found)"
      using member_loop_step [OF m b, of parse key found] member_loop_end [OF Cons.prems(3), of parse "a @ member_text m" r]
        Cons.prems(3) b by simp
    then show ?thesis using True by simp
  next
    case False
    then have b: "b = a @ member_text m @ CHR '','' # join '','' (map member_text ms) @ d # r"
      using Cons.prems(4) by (cases ms) simp_all
    then have b': "b = (a @ member_text m @ '','') @ join '','' (map member_text ms) @ d # r" by simp
    show ?thesis
      using member_loop_step [OF m b, of parse key found] Cons.IH [OF False _ Cons.prems(3) b'] Cons.prems(2)
      by (simp split: option.splits)
  qed
qed simp

lemma lookup_last_None: "lookup_last parse key ms = None \<longleftrightarrow> (\<forall>m \<in> set ms. \<not> named parse key m)"
  by (induction ms) (auto split: option.splits)

lemma join_members:
  "\<exists>r. join '','' (map member_text (ms1 @ m # ms2)) = concat (map (\<lambda>x. member_text x @ '','') ms1) @ member_text m @ r"
proof (induction ms1)
  case Nil
  then show ?case by (cases ms2) simp_all
next
  case (Cons x ms1)
  then show ?case by (cases "map member_text (ms1 @ m # ms2)") auto
qed

lemma lookup_last_Some:
  "lookup_last parse key ms = Some p \<Longrightarrow>
   \<exists>ms1 m ms2. ms = ms1 @ m # ms2 \<and> named parse key m \<and> (\<forall>x \<in> set ms2. \<not> named parse key x) \<and>
     p = concat (map (\<lambda>x. member_text x @ '','') ms1) @ member_head m"
proof (induction ms arbitrary: p)
  case (Cons m ms)
  show ?case
  proof (cases "lookup_last parse key ms")
    case None
    then have "named parse key m" "p = member_head m" using Cons.prems by (auto split: if_splits)
    then show ?thesis
      using None lookup_last_None by (intro exI [of _ "[]"] exI [of _ m] exI [of _ ms]) auto
  next
    case (Some q)
    obtain ms1 m' ms2 where "ms = ms1 @ m' # ms2" "named parse key m'" "\<forall>x \<in> set ms2. \<not> named parse key x"
      "q = concat (map (\<lambda>x. member_text x @ '','') ms1) @ member_head m'"
      using Cons.IH [OF Some] by blast
    then show ?thesis
      using Cons.prems Some by (intro exI [of _ "m # ms1"] exI [of _ m'] exI [of _ ms2]) simp
  qed
qed simp

text \<open>
  The scanner finds the value a JSON reader would use: in an object laid out as JSON members, with
  any white space, nested values and escapes, it returns the byte offset of the value of the last member
  whose key decodes to the name, and nothing exactly when there is no such member.
\<close>

theorem member_value_offset_exact:
  assumes "ms \<noteq> []" "\<forall>m \<in> set ms. wf_member m"
    and b: "b = a @ CHR 0x7B # join '','' (map member_text ms) @ CHR 0x7D # r"
  shows "case member_value_offset parse b (length a) key of
      None \<Rightarrow> \<forall>m \<in> set ms. \<not> named parse key m
    | Some off \<Rightarrow> \<exists>ms1 m ms2 w r'. ms = ms1 @ m # ms2 \<and> named parse key m \<and>
        (\<forall>x \<in> set ms2. \<not> named parse key x) \<and>
        w = a @ CHR 0x7B # concat (map (\<lambda>x. member_text x @ '','') ms1) @ member_head m \<and>
        b = w @ value_of m @ r' \<and> off = length w"
proof -
  have close: "is_close (CHR 0x7D)" by (simp add: is_close_def)
  have b': "b = (a @ [CHR 0x7B]) @ join '','' (map member_text ms) @ CHR 0x7D # r" using b by simp
  have offset: "member_value_offset parse b (length a) key =
      (case lookup_last parse key ms of Some p \<Rightarrow> Some (length (a @ CHR 0x7B # p)) | None \<Rightarrow> None)"
    using member_loop_members [OF assms(1,2) close b', of parse key None]
    by (simp add: member_value_offset_def split: option.split)
  show ?thesis
  proof (cases "lookup_last parse key ms")
    case None
    then have "\<forall>m \<in> set ms. \<not> named parse key m" using lookup_last_None by blast
    then show ?thesis by (simp add: offset None)
  next
    case (Some p)
    obtain ms1 m ms2 where ms: "ms = ms1 @ m # ms2" "named parse key m" "\<forall>x \<in> set ms2. \<not> named parse key x"
      and p: "p = concat (map (\<lambda>x. member_text x @ '','') ms1) @ member_head m"
      using lookup_last_Some [OF Some] by blast
    obtain r' where split: "b = (a @ CHR 0x7B # p) @ value_of m @ r'"
      using join_members [of ms1 m ms2] b ms(1) p by (auto simp: member_text_def)
    have off: "member_value_offset parse b (length a) key = Some (length (a @ CHR 0x7B # p))"
      by (simp only: offset Some option.case)
    show ?thesis
      unfolding off option.case
      by (rule exI [of _ ms1], rule exI [of _ m], rule exI [of _ ms2], rule exI [of _ "a @ CHR 0x7B # p"],
          rule exI [of _ r'], intro conjI, fact ms(1), fact ms(2), fact ms(3), simp only: p, fact split,
          rule refl)
  qed
qed

definition example_parser :: "(string \<times> json) list \<Rightarrow> json_parser" where
  "example_parser table w = (case map_of table w of Some v \<Rightarrow> Inr v | None \<Rightarrow> Inl ''error'')"

lemma member_value_offset_exact_witness:
  "let parse = example_parser [([quote, CHR ''k'', quote], JString ''k''), ([quote, CHR ''n'', quote], JString ''n'')];
       ms = [Member [] ''k'' [] [] ''1'' [], Member '' '' ''n'' [] [] ''[]'' [], Member [] ''k'' [] '' '' ''2'' []]
   in member_value_offset parse (CHR 0x7B # join '','' (map member_text ms) @ [CHR 0x7D]) 0 ''k'' = Some 20 \<and>
      (case member_value_offset parse (CHR 0x7B # join '','' (map member_text ms) @ [CHR 0x7D]) 0 ''k'' of
         None \<Rightarrow> \<forall>m \<in> set ms. \<not> named parse ''k'' m
       | Some off \<Rightarrow> \<exists>ms1 m ms2 w r'. ms = ms1 @ m # ms2 \<and> named parse ''k'' m \<and>
           (\<forall>x \<in> set ms2. \<not> named parse ''k'' x) \<and>
           w = CHR 0x7B # concat (map (\<lambda>x. member_text x @ '','') ms1) @ member_head m \<and>
           CHR 0x7B # join '','' (map member_text ms) @ [CHR 0x7D] = w @ value_of m @ r' \<and> off = length w)"
proof -
  define parse where
    "parse = example_parser [([quote, CHR ''k'', quote], JString ''k''), ([quote, CHR ''n'', quote], JString ''n'')]"
  define ms where
    "ms = [Member [] ''k'' [] [] ''1'' [], Member '' '' ''n'' [] [] ''[]'' [], Member [] ''k'' [] '' '' ''2'' []]"
  have v: "value_text ''1''" "value_text ''2''" "value_text ''[]''"
    using value_text.intros(3) [of "CHR ''1''" "[]"] value_text.intros(3) [of "CHR ''2''" "[]"]
      value_text.intros(2) [of "CHR ''[''" "CHR '']''" "[]"] nested.intros(1)
    by (simp_all add: is_open_def is_close_def is_delimiter_def is_ascii_whitespace_def)
  have s: "string_body ''k''" "string_body ''n''" by (intro string_body.intros; simp)+
  have wf: "\<forall>m \<in> set ms. wf_member m"
    using v s by (simp add: ms_def wf_member_def white_def is_ascii_whitespace_def)
  have "ms \<noteq> []" by (simp add: ms_def)
  note * = member_value_offset_exact [OF this wf, of "CHR 0x7B # join '','' (map member_text ms) @ [CHR 0x7D]" "[]" "[]"
      parse "''k''"]
  have "member_value_offset parse (CHR 0x7B # join '','' (map member_text ms) @ [CHR 0x7D]) 0 ''k'' = Some 20"
    unfolding parse_def ms_def by code_simp
  then show ?thesis using * by (simp add: parse_def [symmetric] ms_def [symmetric] Let_def)
qed

section \<open>What an insertion keeps\<close>

text \<open>
  What the code relies on of the parser: a text it reads as an object starts, after white space, with
  the opening brace.
\<close>

definition reads_objects :: "json_parser \<Rightarrow> bool" where
  "reads_objects parse = (\<forall>b m. parse b = Inr (JObject m) \<longrightarrow>
     (\<exists>w r. b = w @ CHR 0x7B # r \<and> white w))"

lemma insertion_point_brace:
  assumes "reads_objects parse" "parse b = Inr (JObject doc)" "insertion_point parse b k = Some (open_at, whole)"
  shows "byte_at b open_at (CHR 0x7B)"
proof -
  obtain w r where b: "b = w @ CHR 0x7B # r" "white w"
    using assms(1,2) unfolding reads_objects_def by blast
  then have "skip_ws b 0 = length w"
    using skip_ws_span [of w "CHR 0x7B # r" "[]"] by (simp add: is_ascii_whitespace_def)
  then have "byte_at b (skip_ws b 0) (CHR 0x7B)" using b by simp
  then show ?thesis
    using assms(3) by (auto simp: insertion_point_def Let_def split: option.splits if_splits)
qed

lemma byte_at_blanked: "list_all2 blanked s b \<Longrightarrow> byte_at b i c \<Longrightarrow> c \<noteq> CHR 0x20 \<Longrightarrow> byte_at s i c"
  using list_all2_nthD [of blanked s b i] list_all2_lengthD [of blanked s b]
  by (auto simp: byte_at_def blanked_def)

lemma take_Suc_byte: "byte_at s i c \<Longrightarrow> take (i + 1) s = take i s @ [c]"
  by (auto simp: byte_at_def take_Suc_conv_app_nth)

text \<open>The new text is the old one with one insertion and, in an empty object, less white space.\<close>

lemma inserted_text_splits:
  assumes "list_all2 blanked s b" "byte_at b open_at (CHR 0x7B)"
  obtains pre vs post ins where "s = pre @ concat vs @ post" "set vs \<subseteq> set white_space"
    "inserted_text show_json s b open_at whole k n e = pre @ ins @ post" "CHR 0x7B \<in> set pre"
proof -
  have s: "byte_at s open_at (CHR 0x7B)" using byte_at_blanked [OF assms] by simp
  have pre: "CHR 0x7B \<in> set (take (open_at + 1) s)" unfolding take_Suc_byte [OF s] by simp
  define after where "after = skip_ws b (open_at + 1)"
  have after: "open_at + 1 \<le> after" using skip_ws_ge [of "open_at + 1" b] by (simp add: after_def)
  show ?thesis
  proof (cases "byte_at b after (CHR 0x7D)")
    case True
    obtain vs where vs: "set vs \<subseteq> set white_space"
      "slice s (open_at + 1) after = str_trim_end (slice s (open_at + 1) after) @ concat vs"
      using str_trim_end_splits by blast
    have "drop (open_at + 1) s = slice s (open_at + 1) after @ drop after s"
      using after append_take_drop_id [of "after - (open_at + 1)" "drop (open_at + 1) s"]
      by (simp add: slice_def)
    then have "s = take (open_at + 1) s @ slice s (open_at + 1) after @ drop after s"
      by (metis append_take_drop_id)
    then have whole_text: "s = (take (open_at + 1) s @ str_trim_end (slice s (open_at + 1) after)) @ concat vs @ drop after s"
      using vs(2) by (metis append.assoc)
    have "\<exists>i. inserted_text show_json s b open_at whole k n e =
        (take (open_at + 1) s @ str_trim_end (slice s (open_at + 1) after)) @ i @ drop after s"
    proof -
      have mid: "\<exists>i. t @ u @ v @ w @ x @ y @ z @ q @ p @ r = (t @ u) @ i @ r" for t u v w x y z q p r :: string
        by (intro exI [of _ "v @ w @ x @ y @ z @ q @ p"]) simp
      show ?thesis
        unfolding inserted_text_def Let_def after_def [symmetric] if_P [OF True] by (rule mid)
    qed
    then obtain i where i: "inserted_text show_json s b open_at whole k n e =
        (take (open_at + 1) s @ str_trim_end (slice s (open_at + 1) after)) @ i @ drop after s" by blast
    show ?thesis by (rule that [OF whole_text vs(1) i]) (use pre in simp)
  next
    case False
    have mid: "\<exists>i. t @ u @ v @ w @ x @ y @ z @ r = t @ i @ r" for t u v w x y z r :: string
      by (intro exI [of _ "u @ v @ w @ x @ y @ z"]) simp
    have "\<exists>i. inserted_text show_json s b open_at whole k n e =
        take (open_at + 1) s @ i @ drop (open_at + 1) s"
      unfolding inserted_text_def Let_def after_def [symmetric] if_not_P [OF False] by (rule mid)
    then obtain i where "inserted_text show_json s b open_at whole k n e =
        take (open_at + 1) s @ i @ drop (open_at + 1) s" by blast
    then show ?thesis using pre by (intro that [of "take (open_at + 1) s" "[]"]) simp_all
  qed
qed

definition servers_of :: "(string \<times> json) list \<Rightarrow> string \<Rightarrow> (string \<times> json) list" where
  "servers_of doc k = (case map_of doc k of Some (JObject m) \<Rightarrow> m | _ \<Rightarrow> [])"

lemma with_entry_lookup:
  assumes "map_of doc k = None \<or> (\<exists>m. map_of doc k = Some (JObject m))"
  shows "\<exists>doc' m'. with_entry doc k n e = JObject doc' \<and> map_of doc' = (map_of doc)(k \<mapsto> JObject m') \<and>
    map_of m' = (map_of (servers_of doc k))(n \<mapsto> e)"
  using assms by (auto simp: with_entry_def servers_of_def bt_insert_lookup)

lemma insert_into_Write:
  assumes "insert_into parse show_json bom s b doc k n e = Write out"
  obtains open_at whole v where "insertion_point parse b k = Some (open_at, whole)"
    "out = bom @ inserted_text show_json s b open_at whole k n e"
    "parse (blank_jsonc (inserted_text show_json s b open_at whole k n e)) = Inr v"
    "json_eq v (with_entry doc k n e)"
  using assms
  by (auto simp: insert_into_def Let_def split: option.splits prod.splits if_splits sum.splits)

lemma insert_server_Write:
  assumes "insert_server parse show_json (Some raw) k n e = Write out" "split_bom raw = (bom, s)"
    "str_trim s \<noteq> []"
  obtains doc where "parse (blank_jsonc s) = Inr (JObject doc)"
    "map_of doc k = None \<or> (\<exists>m. map_of doc k = Some (JObject m))" "n \<notin> fst ` set (servers_of doc k)"
    "insert_into parse show_json bom s (blank_jsonc s) doc k n e = Write out"
proof (cases "parse (blank_jsonc s)")
  case (Inl er)
  then show ?thesis using assms by (simp add: insert_server_def)
next
  case (Inr v)
  then obtain doc where v: "v = JObject doc"
    using assms by (cases v) (simp_all add: insert_server_def)
  show ?thesis
  proof (cases "map_of doc k")
    case None
    then show ?thesis using assms Inr v by (intro that) (auto simp: insert_server_def servers_of_def)
  next
    case (Some x)
    then obtain m where "x = JObject m" "n \<notin> fst ` set m"
      using assms Inr v by (cases x) (auto simp: insert_server_def split: if_splits)
    then show ?thesis
      using assms Inr v Some by (intro that) (auto simp: insert_server_def servers_of_def)
  qed
qed


fun example_show :: "json \<Rightarrow> string" where
  "example_show (JString s) = quote # s @ [quote]"
| "example_show _ = ''1''"

text \<open>An empty object with a comment inside, and the same file with the servers object added.\<close>

definition example_file :: string where
  "example_file = CHR 0x7B # ''/*x*/ '' @ [CHR 0x7D]"

definition example_written :: string where
  "example_written = CHR 0x7B # ''/*x*/'' @ [newline] @ ''  '' @ [quote, CHR ''s'', quote] @ '': '' @ [CHR 0x7B, newline] @
     ''    '' @ [quote, CHR ''v'', quote] @ '': 1'' @ [newline] @ ''  '' @ [CHR 0x7D, newline, CHR 0x7D]"

definition example_reader :: json_parser where
  "example_reader = example_parser
     [(blank_jsonc example_file, JObject []),
      (blank_jsonc example_written, JObject [(''s'', JObject [(''v'', JBool True)])])]"

lemma example_reader_objects: "reads_objects example_reader"
proof -
  have "blank_jsonc example_file \<noteq> [] \<and> hd (blank_jsonc example_file) = CHR 0x7B"
    "blank_jsonc example_written \<noteq> [] \<and> hd (blank_jsonc example_written) = CHR 0x7B" by code_simp+
  then have heads: "\<exists>r. blank_jsonc example_file = CHR 0x7B # r" "\<exists>r. blank_jsonc example_written = CHR 0x7B # r"
    by (metis list.collapse)+
  have "\<exists>r. b = CHR 0x7B # r" if "example_reader b = Inr v" for b v
    using that heads by (auto simp: example_reader_def example_parser_def split: if_splits option.splits)
  then show ?thesis
    unfolding reads_objects_def white_def by (metis append_Nil empty_iff list.set(1))
qed


end
