(* ===== verification/Backend_Logs.thy ===== *)
theory Backend_Logs
  imports Json Collections Utf8
begin

text \<open>
  The buffer of captured backend log records (\<^verbatim>\<open>victauri-plugin/src/backend_logs.rs\<close>): the ring with
  its sequence numbers and budgets, queries with cursors, the digest, the wait for a record.  Every
  operation holds the ring's lock, so one operation is one step on the ring.  Sequence numbers are
  \<^verbatim>\<open>u64\<close> values that grow by one per record; \<open>seq\<close> of an entry is assigned by the ring.
  \<^verbatim>\<open>str::to_lowercase\<close> and \<^verbatim>\<open>Value::to_string\<close> are arguments.
\<close>

section \<open>Entries\<close>

definition DEFAULT_CAPACITY :: usize where "DEFAULT_CAPACITY = 5000"
definition DEFAULT_MAX_BYTES :: usize where "DEFAULT_MAX_BYTES = 8 * 1024 * 1024"

datatype log_level = Trace | Debug | Info | Warn | Error

fun level_index :: "log_level \<Rightarrow> nat" where
  "level_index Trace = 0"
| "level_index Debug = 1"
| "level_index Info = 2"
| "level_index Warn = 3"
| "level_index Error = 4"

instantiation log_level :: linorder
begin

definition less_eq_log_level :: "log_level \<Rightarrow> log_level \<Rightarrow> bool" where
  "less_eq_log_level a b = (level_index a \<le> level_index b)"

definition less_log_level :: "log_level \<Rightarrow> log_level \<Rightarrow> bool" where
  "less_log_level a b = (level_index a < level_index b)"

instance
proof
  fix a b :: log_level
  show "a \<le> b \<Longrightarrow> b \<le> a \<Longrightarrow> a = b"
    by (cases a; cases b) (simp_all add: less_eq_log_level_def)
qed (auto simp: less_eq_log_level_def less_log_level_def)

end

definition parse_level :: "string \<Rightarrow> log_level option" where
  "parse_level s =
     (let w = map to_ascii_lower (str_trim s)
      in if w = ''trace'' then Some Trace
         else if w = ''debug'' then Some Debug
         else if w = ''info'' then Some Info
         else if w = ''warn'' \<or> w = ''warning'' then Some Warn
         else if w = ''error'' \<or> w = ''err'' \<or> w = ''fatal'' \<or> w = ''panic'' then Some Error
         else None)"

fun level_name :: "log_level \<Rightarrow> string" where
  "level_name Trace = ''trace''"
| "level_name Debug = ''debug''"
| "level_name Info = ''info''"
| "level_name Warn = ''warn''"
| "level_name Error = ''error''"

datatype log_source = Src_Tracing | Src_Log | Src_Panic

record log_entry =
  le_seq :: u64
  le_ts_ms :: u64
  le_level :: log_level
  le_target :: string
  le_message :: string
  le_fields :: "(string \<times> json) list"
  le_spans :: "string list"
  le_thread :: "string option"
  le_location :: "string option"
  le_source :: log_source

fun value_len :: "json \<Rightarrow> usize" where
  "value_len (JString s) = length s"
| "value_len _ = 16"

definition approx_bytes :: "log_entry \<Rightarrow> usize" where
  "approx_bytes e =
     96 + length (le_target e) + length (le_message e) +
     sum_list (map (\<lambda>kv. length (fst kv) + value_len (snd kv)) (le_fields e)) +
     sum_list (map length (le_spans e))"

section \<open>The ring\<close>

record ring =
  rg_entries :: "log_entry list"
  rg_next_seq :: u64
  rg_bytes :: usize
  rg_evicted :: u64
  rg_cleared_before :: u64
  rg_totals :: "u64 list"

definition ring_new :: ring where
  "ring_new = \<lparr> rg_entries = [], rg_next_seq = 0, rg_bytes = 0, rg_evicted = 0, rg_cleared_before = 0,
     rg_totals = [0, 0, 0, 0, 0] \<rparr>"

text \<open>\<^verbatim>\<open>entries.front().map_or(next_seq, |e| e.seq)\<close>\<close>

definition oldest_seq :: "ring \<Rightarrow> u64" where
  "oldest_seq r = (case rg_entries r of [] \<Rightarrow> rg_next_seq r | e # _ \<Rightarrow> le_seq e)"

definition index_of :: "ring \<Rightarrow> u64 \<Rightarrow> usize" where
  "index_of r seq = (case rg_entries r of [] \<Rightarrow> 0
     | front # _ \<Rightarrow> min (sat_sub seq (le_seq front)) (length (rg_entries r)))"

definition evicted_since :: "ring \<Rightarrow> u64 \<Rightarrow> u64" where
  "evicted_since r since = sat_sub (oldest_seq r) (max since (rg_cleared_before r))"

record log_buffer =
  lb_ring :: ring
  lb_capacity :: usize
  lb_max_bytes :: usize

definition log_buffer_new :: "usize \<Rightarrow> usize \<Rightarrow> log_buffer" where
  "log_buffer_new capacity max_bytes =
     \<lparr> lb_ring = ring_new, lb_capacity = max capacity 1, lb_max_bytes = max max_bytes 1 \<rparr>"

definition log_buffer_default :: log_buffer where
  "log_buffer_default = log_buffer_new DEFAULT_CAPACITY DEFAULT_MAX_BYTES"

text \<open>The eviction loop: what is left, its bytes, the evictions so far.\<close>

fun evict_loop :: "usize \<Rightarrow> usize \<Rightarrow> log_entry list \<Rightarrow> usize \<Rightarrow> u64 \<Rightarrow> log_entry list \<times> usize \<times> u64" where
  "evict_loop capacity max_bytes [] bytes evicted = ([], bytes, evicted)"
| "evict_loop capacity max_bytes (old # es) bytes evicted =
     (if length (old # es) > capacity \<or> (bytes > max_bytes \<and> length (old # es) > 1)
      then evict_loop capacity max_bytes es (sat_sub bytes (approx_bytes old)) (evicted + 1)
      else (old # es, bytes, evicted))"

definition push_locked :: "usize \<Rightarrow> usize \<Rightarrow> log_entry \<Rightarrow> ring \<Rightarrow> ring" where
  "push_locked capacity max_bytes entry r =
     (let entry = entry\<lparr>le_seq := rg_next_seq r\<rparr>;
          i = level_index (le_level entry);
          (entries, bytes, evicted) =
            evict_loop capacity max_bytes (rg_entries r @ [entry]) (rg_bytes r + approx_bytes entry) (rg_evicted r)
      in r\<lparr>rg_entries := entries, rg_next_seq := rg_next_seq r + 1, rg_bytes := bytes,
           rg_evicted := evicted, rg_totals := (rg_totals r)[i := rg_totals r ! i + 1]\<rparr>)"

text \<open>
  \<^verbatim>\<open>push\<close> and \<^verbatim>\<open>try_push\<close>: an entry is dropped when the pushing thread already holds the lock.
\<close>

definition log_push :: "bool \<Rightarrow> log_entry \<Rightarrow> log_buffer \<Rightarrow> log_buffer" where
  "log_push holds_ring entry b =
     (if holds_ring then b
      else b\<lparr>lb_ring := push_locked (lb_capacity b) (lb_max_bytes b) entry (lb_ring b)\<rparr>)"

definition log_try_push :: "bool \<Rightarrow> log_entry \<Rightarrow> log_buffer \<Rightarrow> bool \<times> log_buffer" where
  "log_try_push holds_ring entry b =
     (if holds_ring then (False, b)
      else (True, b\<lparr>lb_ring := push_locked (lb_capacity b) (lb_max_bytes b) entry (lb_ring b)\<rparr>))"

definition log_clear :: "log_buffer \<Rightarrow> log_buffer" where
  "log_clear b =
     (let r = lb_ring b
      in b\<lparr>lb_ring := r\<lparr>rg_entries := [], rg_bytes := 0, rg_cleared_before := rg_next_seq r\<rparr>\<rparr>)"

definition log_next_seq :: "log_buffer \<Rightarrow> u64" where
  "log_next_seq b = rg_next_seq (lb_ring b)"

definition seq_at_or_after :: "log_buffer \<Rightarrow> u64 \<Rightarrow> u64" where
  "seq_at_or_after b ts_ms =
     (case find (\<lambda>e. le_ts_ms e \<ge> ts_ms) (rg_entries (lb_ring b)) of
        Some e \<Rightarrow> le_seq e | None \<Rightarrow> rg_next_seq (lb_ring b))"

section \<open>Queries\<close>

record log_query =
  lq_min_level :: log_level
  lq_targets :: "string list"
  lq_contains :: "string option"
  lq_since_seq :: "u64 option"
  lq_since_ms :: "u64 option"
  lq_fields :: "(string \<times> json) list"
  lq_limit :: usize

definition log_query_default :: log_query where
  "log_query_default = \<lparr> lq_min_level = Trace, lq_targets = [], lq_contains = None, lq_since_seq = None,
     lq_since_ms = None, lq_fields = [], lq_limit = 100 \<rparr>"

text \<open>The library functions the text filters use: \<^verbatim>\<open>to_lowercase\<close> and \<^verbatim>\<open>Value::to_string\<close>.\<close>

record log_lib =
  ll_lower :: "string \<Rightarrow> string"
  ll_show :: "json \<Rightarrow> string"

definition trim_quotes :: "string \<Rightarrow> string" where
  "trim_quotes s = rev (dropWhile (\<lambda>c. c = CHR 0x22) (rev (dropWhile (\<lambda>c. c = CHR 0x22) s)))"

definition field_text :: "log_lib \<Rightarrow> json \<Rightarrow> string" where
  "field_text lib v =
     (case v of JString s \<Rightarrow> ll_lower lib (trim_quotes s) | other \<Rightarrow> ll_lower lib (ll_show lib other))"

definition field_matches :: "log_lib \<Rightarrow> log_entry \<Rightarrow> string \<Rightarrow> json \<Rightarrow> bool" where
  "field_matches lib e key expected =
     (case map_of (le_fields e) key of Some actual \<Rightarrow> field_text lib actual = field_text lib expected
      | None \<Rightarrow> False)"

definition entry_fields_match :: "log_lib \<Rightarrow> log_entry \<Rightarrow> (string \<times> json) list \<Rightarrow> bool" where
  "entry_fields_match lib e wanted = list_all (\<lambda>(k, v). field_matches lib e k v) wanted"

definition entry_contains :: "log_lib \<Rightarrow> log_entry \<Rightarrow> string \<Rightarrow> bool" where
  "entry_contains lib e needle =
     (contains_str (ll_lower lib (le_message e)) needle \<or> contains_str (ll_lower lib (le_target e)) needle \<or>
      list_ex (\<lambda>s. contains_str (ll_lower lib s) needle) (le_spans e) \<or>
      list_ex (\<lambda>(k, v). contains_str (ll_lower lib k) needle \<or>
         contains_str (ll_lower lib (case v of JString s \<Rightarrow> s | other \<Rightarrow> ll_show lib other)) needle)
        (le_fields e))"

definition log_matches :: "log_lib \<Rightarrow> log_query \<Rightarrow> log_entry \<Rightarrow> bool" where
  "log_matches lib q e =
     (if le_level e < lq_min_level q then False
      else if (case lq_since_ms q of Some ms \<Rightarrow> le_ts_ms e < ms | None \<Rightarrow> False) then False
      else if lq_targets q \<noteq> [] \<and> \<not> list_ex (\<lambda>t. prefix t (le_target e)) (lq_targets q) then False
      else if \<not> entry_fields_match lib e (lq_fields q) then False
      else (case lq_contains q of Some needle \<Rightarrow> entry_contains lib e (ll_lower lib needle) | None \<Rightarrow> True))"

text \<open>The scan of the candidates: the entries kept, at most \<open>limit\<close>, and how many matched.\<close>

fun collect :: "(log_entry \<Rightarrow> bool) \<Rightarrow> usize \<Rightarrow> log_entry list \<Rightarrow> log_entry list \<Rightarrow> usize \<Rightarrow>
  log_entry list \<times> usize" where
  "collect ok limit [] matched total_matched = (matched, total_matched)"
| "collect ok limit (e # es) matched total_matched =
     (if ok e then
        collect ok limit es (if length matched < limit then matched @ [e] else matched) (total_matched + 1)
      else collect ok limit es matched total_matched)"

definition page_next_seq :: "u64 option \<Rightarrow> bool \<Rightarrow> log_entry list \<Rightarrow> u64 \<Rightarrow> u64" where
  "page_next_seq since_seq truncated entries buffer_next_seq =
     (case since_seq of
        None \<Rightarrow> buffer_next_seq
      | Some since \<Rightarrow>
          if \<not> truncated then buffer_next_seq
          else if entries = [] then since
          else le_seq (last entries) + 1)"

record log_page =
  lp_entries :: "log_entry list"
  lp_total_matched :: usize
  lp_truncated :: bool
  lp_next_seq :: u64
  lp_oldest_seq :: u64
  lp_evicted :: u64
  lp_gap :: bool

definition log_query_page :: "log_lib \<Rightarrow> log_buffer \<Rightarrow> log_query \<Rightarrow> log_page" where
  "log_query_page lib b q =
     (let r = lb_ring b;
          start = (case lq_since_seq q of Some since \<Rightarrow> index_of r since | None \<Rightarrow> 0);
          candidates = drop start (rg_entries r);
          gap = (case lq_since_seq q of Some s \<Rightarrow> evicted_since r s > 0 | None \<Rightarrow> False);
          (matched, total_matched) =
            (if lq_since_seq q \<noteq> None then collect (log_matches lib q) (lq_limit q) candidates [] 0
             else (let (m, t) = collect (log_matches lib q) (lq_limit q) (rev candidates) [] 0 in (rev m, t)));
          truncated = (total_matched > length matched)
      in \<lparr> lp_entries = matched, lp_total_matched = total_matched, lp_truncated = truncated,
           lp_next_seq = page_next_seq (lq_since_seq q) truncated matched (rg_next_seq r),
           lp_oldest_seq = oldest_seq r, lp_evicted = rg_evicted r, lp_gap = gap \<rparr>)"

definition log_range :: "log_buffer \<Rightarrow> u64 \<Rightarrow> u64 \<Rightarrow> log_level \<Rightarrow> usize \<Rightarrow> log_entry list \<times> usize" where
  "log_range b since until min_level limit =
     (let r = lb_ring b;
          found = filter (\<lambda>e. le_level e \<ge> min_level)
                    (takeWhile (\<lambda>e. le_seq e < until) (drop (index_of r since) (rg_entries r)))
      in (drop (sat_sub (length found) limit) found, length found))"

section \<open>The ring holds the newest entries\<close>

definition text_bytes :: "log_entry list \<Rightarrow> nat" where
  "text_bytes es = sum_list (map approx_bytes es)"

definition ring_fits :: "log_buffer \<Rightarrow> log_entry list \<Rightarrow> bool" where
  "ring_fits b es = (length es \<le> lb_capacity b \<and> (text_bytes es \<le> lb_max_bytes b \<or> length es \<le> 1))"

definition stamped :: "log_buffer \<Rightarrow> log_entry \<Rightarrow> log_entry" where
  "stamped b e = e\<lparr>le_seq := log_next_seq b\<rparr>"

definition buffer_inv :: "log_buffer \<Rightarrow> bool" where
  "buffer_inv b = (rg_bytes (lb_ring b) = text_bytes (rg_entries (lb_ring b)) \<and> 1 \<le> lb_capacity b \<and>
     length (rg_totals (lb_ring b)) = 5)"

lemma text_bytes_simps [simp]:
  "text_bytes [] = 0" "text_bytes (e # es) = approx_bytes e + text_bytes es"
  "text_bytes (xs @ ys) = text_bytes xs + text_bytes ys"
  by (simp_all add: text_bytes_def)

lemma approx_bytes_seq [simp]: "approx_bytes (e\<lparr>le_seq := n\<rparr>) = approx_bytes e"
  by (simp add: approx_bytes_def)

lemma evict_loop_keep:
  "evict_loop (lb_capacity b) (lb_max_bytes b) es (text_bytes es) n =
     (longest_keep (ring_fits b) es, text_bytes (longest_keep (ring_fits b) es),
      n + (length es - length (longest_keep (ring_fits b) es)))"
proof (induction es arbitrary: n)
  case (Cons e es)
  have "length (longest_keep (ring_fits b) es) \<le> length es"
    using longest_keep_suffix suffix_length_le by blast
  moreover have "ring_fits b (e # es) \<longleftrightarrow> length (e # es) \<le> lb_capacity b \<and>
      (text_bytes (e # es) \<le> lb_max_bytes b \<or> length (e # es) \<le> 1)"
    by (simp add: ring_fits_def)
  ultimately show ?case using Cons by auto
qed simp

lemma level_index_less: "level_index l < 5"
  by (cases l) simp_all

lemma log_push_fields:
  fixes e b
  defines "keep \<equiv> longest_keep (ring_fits b) (rg_entries (lb_ring b) @ [stamped b e])"
  assumes "buffer_inv b"
  shows "rg_entries (lb_ring (log_push False e b)) = keep"
    and "rg_bytes (lb_ring (log_push False e b)) = text_bytes keep"
    and "rg_evicted (lb_ring (log_push False e b)) =
      rg_evicted (lb_ring b) + (Suc (length (rg_entries (lb_ring b))) - length keep)"
    and "rg_next_seq (lb_ring (log_push False e b)) = Suc (rg_next_seq (lb_ring b))"
    and "rg_cleared_before (lb_ring (log_push False e b)) = rg_cleared_before (lb_ring b)"
    and "rg_totals (lb_ring (log_push False e b)) =
      (rg_totals (lb_ring b))[level_index (le_level e) := Suc (rg_totals (lb_ring b) ! level_index (le_level e))]"
    and "lb_capacity (log_push False e b) = lb_capacity b"
    and "lb_max_bytes (log_push False e b) = lb_max_bytes b"
proof -
  have "evict_loop (lb_capacity b) (lb_max_bytes b) (rg_entries (lb_ring b) @ [stamped b e])
      (rg_bytes (lb_ring b) + approx_bytes e) n =
    (keep, text_bytes keep, n + (Suc (length (rg_entries (lb_ring b))) - length keep))" for n
    using evict_loop_keep [of b "rg_entries (lb_ring b) @ [stamped b e]" n] assms(2)
    by (simp add: keep_def buffer_inv_def stamped_def)
  note * = this [unfolded stamped_def log_next_seq_def]
  show "rg_entries (lb_ring (log_push False e b)) = keep" "rg_bytes (lb_ring (log_push False e b)) = text_bytes keep"
    "rg_evicted (lb_ring (log_push False e b)) =
      rg_evicted (lb_ring b) + (Suc (length (rg_entries (lb_ring b))) - length keep)"
    "rg_next_seq (lb_ring (log_push False e b)) = Suc (rg_next_seq (lb_ring b))"
    "rg_cleared_before (lb_ring (log_push False e b)) = rg_cleared_before (lb_ring b)"
    "rg_totals (lb_ring (log_push False e b)) =
      (rg_totals (lb_ring b))[level_index (le_level e) := Suc (rg_totals (lb_ring b) ! level_index (le_level e))]"
    "lb_capacity (log_push False e b) = lb_capacity b" "lb_max_bytes (log_push False e b) = lb_max_bytes b"
    by (simp_all add: log_push_def push_locked_def Let_def *)
qed

lemma ring_fits_push: "buffer_inv b \<Longrightarrow> ring_fits (log_push False e b) = ring_fits b"
  by (simp add: ring_fits_def log_push_fields fun_eq_iff)

interpretation log: budget_log buffer_inv "\<lambda>b. rg_entries (lb_ring b)" ring_fits stamped "log_push False"
  by unfold_locales
    (auto simp: log_push_fields ring_fits_push buffer_inv_def [of "log_push False _ _"] ring_fits_def,
     simp_all add: buffer_inv_def)

text \<open>Records logged and clears, with the history of everything ever logged.\<close>

datatype log_op = LPush log_entry | LClear

fun log_apply :: "log_op \<Rightarrow> log_buffer \<times> log_entry list \<Rightarrow> log_buffer \<times> log_entry list" where
  "log_apply (LPush e) (b, h) = (log_push False e b, h @ [stamped b e])"
| "log_apply LClear (b, h) = (log_clear b, h)"

definition history_inv :: "log_buffer \<times> log_entry list \<Rightarrow> bool" where
  "history_inv bh = (let b = fst bh; h = snd bh; r = lb_ring b in
     buffer_inv b \<and> rg_next_seq r = length h \<and> map le_seq h = [0..<length h] \<and>
     rg_cleared_before r \<le> length h \<and>
     rg_entries r = longest_keep (ring_fits b) (drop (rg_cleared_before r) h) \<and>
     rg_evicted r + length (rg_entries r) \<le> length h \<and>
     (rg_cleared_before r = 0 \<longrightarrow> rg_evicted r + length (rg_entries r) = length h) \<and>
     (\<forall>l. rg_totals r ! level_index l = length (filter (\<lambda>e. le_level e = l) h)))"

lemma history_new: "history_inv (log_buffer_new c m, [])"
proof -
  have "[0, 0, 0, 0, 0 :: nat] ! level_index l = 0" for l by (cases l) simp_all
  then show ?thesis
    by (simp add: history_inv_def log_buffer_new_def ring_new_def buffer_inv_def Let_def)
qed

lemma level_index_inj: "level_index a = level_index b \<longleftrightarrow> a = b"
  by (cases a; cases b) simp_all

lemma stamped_simps [simp]:
  "le_seq (stamped b e) = rg_next_seq (lb_ring b)" "le_level (stamped b e) = le_level e"
  by (simp_all add: stamped_def log_next_seq_def)

lemma history_apply: "history_inv bh \<Longrightarrow> history_inv (log_apply op bh)"
proof -
  assume inv: "history_inv bh"
  obtain b h where bh: "bh = (b, h)" by (cases bh)
  have b: "buffer_inv b" "rg_next_seq (lb_ring b) = length h" "map le_seq h = [0..<length h]"
    "rg_cleared_before (lb_ring b) \<le> length h"
    "rg_entries (lb_ring b) = longest_keep (ring_fits b) (drop (rg_cleared_before (lb_ring b)) h)"
    "rg_evicted (lb_ring b) + length (rg_entries (lb_ring b)) \<le> length h"
    "rg_cleared_before (lb_ring b) = 0 \<Longrightarrow> rg_evicted (lb_ring b) + length (rg_entries (lb_ring b)) = length h"
    "\<And>l. rg_totals (lb_ring b) ! level_index l = length (filter (\<lambda>e. le_level e = l) h)"
    using inv unfolding history_inv_def bh Let_def fst_conv snd_conv by blast+
  show ?thesis
  proof (cases op)
    case (LPush e)
    let ?b = "log_push False e b"
    have entries: "rg_entries (lb_ring ?b) =
        longest_keep (ring_fits ?b) (drop (rg_cleared_before (lb_ring ?b)) (h @ [stamped b e]))"
      using log.push_history [OF b(1,5), of e] b(4) by (simp add: log_push_fields [OF b(1)])
    have "suffix (rg_entries (lb_ring ?b)) (rg_entries (lb_ring b) @ [stamped b e])"
      using longest_keep_suffix [of "ring_fits b" "rg_entries (lb_ring b) @ [stamped b e]"]
      by (simp only: log_push_fields(1) [OF b(1)])
    then have "length (rg_entries (lb_ring ?b)) \<le> Suc (length (rg_entries (lb_ring b)))"
      using suffix_length_le by fastforce
    then have evicted: "rg_evicted (lb_ring ?b) + length (rg_entries (lb_ring ?b)) =
        Suc (rg_evicted (lb_ring b) + length (rg_entries (lb_ring b)))"
      using log_push_fields(1,3) [OF b(1), of e] by simp
    have totals: "rg_totals (lb_ring ?b) ! level_index l = length (filter (\<lambda>e. le_level e = l) (h @ [stamped b e]))" for l
      using b(1,8) level_index_less [of "le_level e"] level_index_less [of l]
      by (simp add: log_push_fields [OF b(1)] buffer_inv_def nth_list_update level_index_inj)
    show ?thesis
      using log.inv_push [OF b(1), of e] b(2-4,6,7) entries evicted totals
      by (cases "rg_cleared_before (lb_ring b) = 0")
        (simp_all add: LPush bh history_inv_def Let_def log_push_fields(4,5) [OF b(1)])
  next
    case LClear
    then show ?thesis
      using b(1-4,6,8) by (cases h) (simp_all add: bh history_inv_def Let_def log_clear_def buffer_inv_def)
  qed
qed

lemma history_run: "history_inv bh \<Longrightarrow> history_inv (fold log_apply ops bh)"
  by (induction ops arbitrary: bh) (simp_all add: history_apply)

text \<open>The entries in the ring are the end of the history, from \<open>oldest_seq\<close> on.\<close>

lemma ring_is_end:
  assumes "history_inv (b, h)"
  shows "rg_entries (lb_ring b) = drop (oldest_seq (lb_ring b)) h \<and> oldest_seq (lb_ring b) \<le> length h \<and>
    rg_cleared_before (lb_ring b) \<le> oldest_seq (lb_ring b) \<and>
    map le_seq (rg_entries (lb_ring b)) = [oldest_seq (lb_ring b)..<length h]"
proof -
  let ?r = "lb_ring b"
  define k where "k = length h - length (rg_entries ?r)"
  have inv: "rg_next_seq ?r = length h" "map le_seq h = [0..<length h]" "rg_cleared_before ?r \<le> length h"
    "rg_entries ?r = longest_keep (ring_fits b) (drop (rg_cleared_before ?r) h)"
    using assms unfolding history_inv_def Let_def fst_conv snd_conv by blast+
  have suf: "suffix (rg_entries ?r) (drop (rg_cleared_before ?r) h)"
    unfolding inv(4) by (rule longest_keep_suffix)
  then have len: "length (rg_entries ?r) \<le> length h - rg_cleared_before ?r"
    using suffix_length_le by fastforce
  have "suffix (rg_entries ?r) h" using suf suffix_drop suffix_order.trans by blast
  then obtain zs where zs: "zs @ rg_entries ?r = h" by (auto simp: suffix_def)
  have "k = length zs" using arg_cong [OF zs, of length] by (simp add: k_def)
  then have entries: "rg_entries ?r = drop k h" using zs by (metis append_eq_conv_conj)
  then have seqs: "map le_seq (rg_entries ?r) = [k..<length h]"
    using inv(2) by (simp add: drop_map [symmetric] drop_upt)
  have "oldest_seq ?r = k"
  proof (cases "rg_entries ?r")
    case Nil
    then show ?thesis using inv(1) by (simp add: oldest_seq_def k_def)
  next
    case (Cons e es)
    then have "[k..<length h] = le_seq e # map le_seq es" using seqs by simp
    then have "le_seq e = k" by (metis upt_eq_Cons_conv)
    then show ?thesis using Cons by (simp add: oldest_seq_def)
  qed
  moreover have "k \<le> length h" "rg_cleared_before ?r \<le> k" using len inv(3) unfolding k_def by linarith+
  ultimately show ?thesis using entries seqs by blast
qed

lemma history_of_run: "history_inv (fold log_apply ops (log_buffer_new c m, []))"
  by (rule history_run [OF history_new])

lemma never_cleared:
  "LClear \<notin> set ops \<Longrightarrow> history_inv bh \<Longrightarrow>
   rg_cleared_before (lb_ring (fst (fold log_apply ops bh))) = rg_cleared_before (lb_ring (fst bh))"
proof (induction ops arbitrary: bh)
  case (Cons op ops)
  then obtain e where op: "op = LPush e" by (cases op) auto
  obtain b h where bh: "bh = (b, h)" by (cases bh)
  have "buffer_inv b" using Cons.prems(2) by (simp add: bh history_inv_def Let_def)
  then have "rg_cleared_before (lb_ring (fst (log_apply op bh))) = rg_cleared_before (lb_ring (fst bh))"
    by (simp add: op bh log_push_fields(5))
  then show ?case using Cons history_apply by simp
qed simp

text \<open>
  (C36) The log buffer holds exactly the newest records that fit and accounts for the rest: after any
  sequence of records and clears it holds the longest run of newest records since the last clear within
  its capacity and byte budget (at least the newest one), numbered by their position in everything
  ever logged; its byte count is exact, its per-level totals count everything ever logged, and without
  a clear the evicted and the buffered records add up to everything.
\<close>

theorem log_buffer_keeps_newest:
  "let (b, h) = fold log_apply ops (log_buffer_new c m, []); r = lb_ring b;
       since = drop (rg_cleared_before r) h
   in suffix (rg_entries r) since \<and> map le_seq (rg_entries r) = [oldest_seq r..<length h] \<and>
      rg_next_seq r = length h \<and> rg_bytes r = text_bytes (rg_entries r) \<and> ring_fits b (rg_entries r) \<and>
      (\<forall>ys. suffix ys since \<and> ring_fits b ys \<longrightarrow> length ys \<le> length (rg_entries r)) \<and>
      (\<forall>l. rg_totals r ! level_index l = length (filter (\<lambda>e. le_level e = l) h)) \<and>
      (LClear \<notin> set ops \<longrightarrow> rg_evicted r + length (rg_entries r) = length h)"
proof -
  obtain b h where bh: "fold log_apply ops (log_buffer_new c m, []) = (b, h)"
    by (cases "fold log_apply ops (log_buffer_new c m, [])")
  let ?r = "lb_ring b"
  have inv: "history_inv (b, h)" using history_of_run [of ops c m] by (simp only: bh)
  have facts: "buffer_inv b" "rg_next_seq ?r = length h"
    "rg_entries ?r = longest_keep (ring_fits b) (drop (rg_cleared_before ?r) h)"
    "\<And>l. rg_totals ?r ! level_index l = length (filter (\<lambda>e. le_level e = l) h)"
    "rg_cleared_before ?r = 0 \<Longrightarrow> rg_evicted ?r + length (rg_entries ?r) = length h"
    using inv unfolding history_inv_def Let_def fst_conv snd_conv by blast+
  have "ring_fits b []" by (simp add: ring_fits_def)
  then have fits: "ring_fits b (rg_entries ?r)" unfolding facts(3) by (rule longest_keep_ok)
  have longest: "length ys \<le> length (rg_entries ?r)"
    if "suffix ys (drop (rg_cleared_before ?r) h)" "ring_fits b ys" for ys
    unfolding facts(3) using that by (rule longest_keep_longest)
  have suf: "suffix (rg_entries ?r) (drop (rg_cleared_before ?r) h)"
    unfolding facts(3) by (rule longest_keep_suffix)
  have cleared: "LClear \<notin> set ops \<Longrightarrow> rg_evicted ?r + length (rg_entries ?r) = length h"
  proof -
    assume "LClear \<notin> set ops"
    from never_cleared [OF this history_new, of c m] have "rg_cleared_before ?r = 0"
      unfolding bh by (simp add: log_buffer_new_def ring_new_def)
    then show ?thesis by (rule facts(5))
  qed
  show ?thesis
    unfolding bh Let_def prod.case
    using ring_is_end [OF inv] facts(1) [unfolded buffer_inv_def] facts(2,4) fits longest suf cleared by blast
qed

definition example_entry :: "string \<Rightarrow> log_entry" where
  "example_entry w = \<lparr> le_seq = 0, le_ts_ms = 7, le_level = Warn, le_target = ''app'', le_message = w,
     le_fields = [], le_spans = [], le_thread = None, le_location = None, le_source = Src_Tracing \<rparr>"

lemma log_buffer_keeps_newest_witness:
  "let (b, h) = fold log_apply [LPush (example_entry ''a''), LPush (example_entry ''b'')] (log_buffer_new 1 5, [])
   in rg_evicted (lb_ring b) + length (rg_entries (lb_ring b)) = length h \<and> length (rg_entries (lb_ring b)) = 1"
proof -
  let ?ops = "[LPush (example_entry ''a''), LPush (example_entry ''b'')]"
  have "length (rg_entries (lb_ring (fst (fold log_apply ?ops (log_buffer_new 1 5, []))))) = 1" by code_simp
  then show ?thesis
    using log_buffer_keeps_newest [of ?ops 1 5] by (simp only: Let_def case_prod_beta) auto
qed

section \<open>Reading with a cursor\<close>

lemma collect_spec:
  "length matched \<le> limit \<Longrightarrow> collect ok limit es matched n =
     (matched @ take (limit - length matched) (filter ok es), n + length (filter ok es))"
proof (induction es arbitrary: matched n)
  case (Cons e es)
  have "limit - length matched = Suc (limit - Suc (length matched))" if "length matched < limit"
    using that by simp
  then show ?case using Cons by (cases "length matched < limit") (simp_all add: Suc_leI)
qed simp

lemma log_matches_paging [simp]:
  "log_matches lib (q\<lparr>lq_since_seq := s, lq_limit := n\<rparr>) = log_matches lib q"
  by (simp add: log_matches_def fun_eq_iff)

lemma unread:
  assumes "history_inv (b, h)"
  shows "drop (index_of (lb_ring b) c) (rg_entries (lb_ring b)) = drop (max c (oldest_seq (lb_ring b))) h"
proof (cases "rg_entries (lb_ring b)")
  case Nil
  then have "length h \<le> oldest_seq (lb_ring b)" using ring_is_end [OF assms] by simp
  then show ?thesis using Nil by (simp add: index_of_def)
next
  case (Cons e es)
  let ?o = "oldest_seq (lb_ring b)"
  have entries: "rg_entries (lb_ring b) = drop ?o h" using ring_is_end [OF assms] by blast
  have e: "le_seq e = ?o" by (simp add: oldest_seq_def Cons)
  have "index_of (lb_ring b) c = min (c - ?o) (length h - ?o)"
    using Cons e arg_cong [OF entries, of length] by (simp add: index_of_def)
  moreover have "drop (min (c - ?o) (length h - ?o)) (drop ?o h) = drop (max c ?o) h"
    by (cases "c \<le> ?o") (auto simp: min_def max_def)
  ultimately show ?thesis using entries by simp
qed

text \<open>Entry \<open>i\<close> of the history has number \<open>i\<close>.\<close>

lemma history_seq: "map le_seq h = [0..<length h] \<Longrightarrow> i < length h \<Longrightarrow> le_seq (h ! i) = i"
  by (metis add_0 nth_map nth_upt)

lemma history_set_drop:
  assumes "map le_seq h = [0..<length h]"
  shows "set (drop m h) = {e \<in> set h. m \<le> le_seq e}"
proof -
  have "e \<in> set (drop m h) \<longleftrightarrow> e \<in> set h \<and> m \<le> le_seq e" for e
  proof
    assume "e \<in> set (drop m h)"
    then obtain i where "i < length (drop m h)" "e = drop m h ! i" by (metis in_set_conv_nth)
    then show "e \<in> set h \<and> m \<le> le_seq e" using history_seq [OF assms, of "m + i"] by simp
  next
    assume e: "e \<in> set h \<and> m \<le> le_seq e"
    then obtain i where i: "i < length h" "e = h ! i" by (metis in_set_conv_nth)
    then have "m \<le> i" using e history_seq [OF assms] by simp
    then have "e = drop m h ! (i - m)" "i - m < length (drop m h)" using i by simp_all
    then show "e \<in> set (drop m h)" by (metis nth_mem)
  qed
  then show ?thesis by blast
qed

lemma history_sorted: "map le_seq h = [0..<length h] \<Longrightarrow> sorted_wrt (<) (map le_seq (drop m h))"
  by (simp add: drop_map [symmetric] drop_upt)

lemma sorted_filter_map: "sorted_wrt (<) (map f xs) \<Longrightarrow> sorted_wrt (<) (map f (filter p xs))" for f :: "'a \<Rightarrow> nat"
  by (induction xs) auto

text \<open>The first elements of a list are those up to the last of them.\<close>

lemma take_up_to:
  fixes f :: "'a \<Rightarrow> nat"
  assumes "sorted_wrt (<) (map f xs)" "take n xs \<noteq> []"
  shows "set (take n xs) = {x \<in> set xs. f x \<le> f (last (take n xs))}"
proof -
  let ?t = "take n xs" and ?d = "drop n xs"
  have xs: "set xs = set ?t \<union> set ?d" by (metis append_take_drop_id set_append)
  have sorted: "sorted_wrt (<) (map f ?t @ map f ?d)"
    using assms(1) by (metis append_take_drop_id map_append)
  have "\<forall>x \<in> set (map f ?t). \<forall>y \<in> set (map f ?d). x < y" using sorted unfolding sorted_wrt_append by blast
  then have "f y > f (last ?t)" if "y \<in> set ?d" for y
    using that last_in_set [OF assms(2)] unfolding set_map by blast
  moreover have "f x \<le> f (last ?t)" if x: "x \<in> set ?t" for x
  proof -
    obtain i where i: "i < length ?t" "x = ?t ! i" using x unfolding in_set_conv_nth by blast
    have last: "last ?t = ?t ! (length ?t - 1)" by (rule last_conv_nth [OF assms(2)])
    have ts: "sorted_wrt (<) (map f ?t)" using sorted by (simp add: sorted_wrt_append)
    show ?thesis
    proof (cases "i = length ?t - 1")
      case False
      then have less: "i < length ?t - 1" using i(1) by linarith
      then have "map f ?t ! i < map f ?t ! (length ?t - 1)"
        using sorted_wrt_nth_less [OF ts, of i "length ?t - 1"] by (simp only: length_map)
      then show ?thesis using nth_map [of i ?t f] nth_map [of "length ?t - 1" ?t f] i(1) less
        unfolding last i(2) by linarith
    qed (use i last in simp)
  qed
  ultimately have "x \<in> set ?t \<longleftrightarrow> x \<in> set xs \<and> f x \<le> f (last ?t)" for x
    using xs by (metis Un_iff leD)
  then show ?thesis by blast
qed

text \<open>One page of a cursor read.\<close>

lemma page_reads:
  assumes inv: "history_inv (b, h)" and c: "c \<le> length h"
    and page: "page = log_query_page lib b (q\<lparr>lq_since_seq := Some c, lq_limit := n\<rparr>)"
  shows "sorted_wrt (<) (map le_seq (lp_entries page))"
    and "set (lp_entries page) =
      {e \<in> set h. max c (oldest_seq (lb_ring b)) \<le> le_seq e \<and> le_seq e < lp_next_seq page \<and> log_matches lib q e}"
    and "c \<le> lp_next_seq page" and "lp_next_seq page \<le> length h"
    and "\<not> lp_truncated page \<Longrightarrow> lp_next_seq page = length h"
    and "lp_gap page \<longleftrightarrow> max c (rg_cleared_before (lb_ring b)) < oldest_seq (lb_ring b)"
proof -
  let ?m = "max c (oldest_seq (lb_ring b))" and ?M = "log_matches lib q"
  define found where "found = filter ?M (drop ?m h)"
  have seqs: "map le_seq h = [0..<length h]" and nxt: "rg_next_seq (lb_ring b) = length h"
    using inv unfolding history_inv_def Let_def fst_conv snd_conv by blast+
  have col: "collect ?M n (drop (index_of (lb_ring b) c) (rg_entries (lb_ring b))) [] 0 = (take n found, length found)"
    using collect_spec [of "[]" n ?M "drop ?m h" 0] unread [OF inv, of c] by (simp add: found_def)
  have p: "lp_entries page = take n found" "lp_truncated page = (length found > length (take n found))"
    "lp_next_seq page = page_next_seq (Some c) (length found > length (take n found)) (take n found) (length h)"
    "lp_gap page = (evicted_since (lb_ring b) c > 0)"
    unfolding page log_query_page_def by (simp_all add: col nxt Let_def)
  have sorted: "sorted_wrt (<) (map le_seq found)"
    unfolding found_def by (rule sorted_filter_map [OF history_sorted [OF seqs]])
  have set_found: "set found = {e \<in> set h. ?m \<le> le_seq e \<and> ?M e}"
    unfolding found_def using history_set_drop [OF seqs, of ?m] by auto
  have below: "le_seq e < length h" if "e \<in> set h" for e
    using that history_seq [OF seqs] by (metis in_set_conv_nth)
  show "sorted_wrt (<) (map le_seq (lp_entries page))"
    unfolding p(1) using sorted by (metis append_take_drop_id map_append sorted_wrt_append)
  show "lp_gap page \<longleftrightarrow> max c (rg_cleared_before (lb_ring b)) < oldest_seq (lb_ring b)"
    unfolding p(4) evicted_since_def by simp
  show "\<not> lp_truncated page \<Longrightarrow> lp_next_seq page = length h"
    unfolding p(2,3) by (simp add: page_next_seq_def)
  have next_seq: "set (lp_entries page) = {e \<in> set h. ?m \<le> le_seq e \<and> le_seq e < lp_next_seq page \<and> ?M e} \<and>
      c \<le> lp_next_seq page \<and> lp_next_seq page \<le> length h"
  proof (cases "length found > length (take n found)")
    case False
    then have "take n found = found" by simp
    then show ?thesis using p(1,3) False c below set_found by (auto simp: page_next_seq_def)
  next
    case True
    show ?thesis
    proof (cases "take n found = []")
      case empty: True
      then show ?thesis using p(1,3) True c by (auto simp: page_next_seq_def)
    next
      case False
      let ?l = "last (take n found)"
      have last: "?l \<in> set found" using False by (meson in_set_takeD last_in_set)
      have "lp_next_seq page = page_next_seq (Some c) True (take n found) (length h)" using p(3) by (simp only: True)
      then have "lp_next_seq page = le_seq ?l + 1" using False by (simp add: page_next_seq_def)
      moreover have "set (take n found) = {x \<in> set found. le_seq x \<le> le_seq ?l}"
        by (rule take_up_to [OF sorted False])
      ultimately show ?thesis
        using last set_found below [of ?l] p(1) by (auto simp: less_Suc_eq_le Suc_le_eq)
    qed
  qed
  then show "set (lp_entries page) = {e \<in> set h. ?m \<le> le_seq e \<and> le_seq e < lp_next_seq page \<and> ?M e}"
    and "c \<le> lp_next_seq page" and "lp_next_seq page \<le> length h" by blast+
qed

text \<open>
  A reader follows the log with a filter: it starts at the end of the log, or at a time, and reads
  pages with whatever limits, each from the cursor the page before handed back, while records are
  logged and the buffer may be cleared in between.
\<close>

record follower =
  fo_state :: "log_buffer \<times> log_entry list"
  fo_from :: u64
  fo_cursor :: u64
  fo_got :: "log_entry list"
  fo_gap :: bool

datatype follow_op = FLog log_op | FSeek | FSeekTime u64 | FRead usize

definition follow_seek :: "u64 \<Rightarrow> follower \<Rightarrow> follower" where
  "follow_seek c s = s\<lparr>fo_from := c, fo_cursor := c, fo_got := [], fo_gap := False\<rparr>"

definition follow_page :: "log_lib \<Rightarrow> log_query \<Rightarrow> usize \<Rightarrow> follower \<Rightarrow> log_page" where
  "follow_page lib q n s =
     log_query_page lib (fst (fo_state s)) (q\<lparr>lq_since_seq := Some (fo_cursor s), lq_limit := n\<rparr>)"

fun follow_step :: "log_lib \<Rightarrow> log_query \<Rightarrow> follow_op \<Rightarrow> follower \<Rightarrow> follower" where
  "follow_step lib q (FLog op) s = s\<lparr>fo_state := log_apply op (fo_state s)\<rparr>"
| "follow_step lib q FSeek s = follow_seek (log_next_seq (fst (fo_state s))) s"
| "follow_step lib q (FSeekTime ts) s = follow_seek (seq_at_or_after (fst (fo_state s)) ts) s"
| "follow_step lib q (FRead n) s =
     (let page = follow_page lib q n s
      in s\<lparr>fo_cursor := lp_next_seq page, fo_got := fo_got s @ lp_entries page,
           fo_gap := (fo_gap s \<or> lp_gap page)\<rparr>)"

definition follow_new :: "usize \<Rightarrow> usize \<Rightarrow> follower" where
  "follow_new c m = \<lparr> fo_state = (log_buffer_new c m, []), fo_from = 0, fo_cursor = 0, fo_got = [], fo_gap = False \<rparr>"

text \<open>The records a reader should have seen by now.\<close>

definition expected :: "log_lib \<Rightarrow> log_query \<Rightarrow> follower \<Rightarrow> log_entry set" where
  "expected lib q s = {e \<in> set (snd (fo_state s)).
     fo_from s \<le> le_seq e \<and> le_seq e < fo_cursor s \<and> log_matches lib q e}"

definition cleared :: "follower \<Rightarrow> u64" where
  "cleared s = rg_cleared_before (lb_ring (fst (fo_state s)))"

definition follow_inv :: "log_lib \<Rightarrow> log_query \<Rightarrow> follower \<Rightarrow> bool" where
  "follow_inv lib q s = (history_inv (fo_state s) \<and> fo_from s \<le> fo_cursor s \<and>
     fo_cursor s \<le> length (snd (fo_state s)) \<and> sorted_wrt (<) (map le_seq (fo_got s)) \<and>
     set (fo_got s) \<subseteq> expected lib q s \<and>
     (\<not> fo_gap s \<longrightarrow> (\<forall>e \<in> expected lib q s. cleared s \<le> le_seq e \<longrightarrow> e \<in> set (fo_got s))))"

lemma log_apply_history:
  assumes "history_inv bh"
  shows "\<exists>es. snd (log_apply op bh) = snd bh @ es \<and> (\<forall>e \<in> set es. le_seq e = length (snd bh))"
    and "rg_cleared_before (lb_ring (fst bh)) \<le> rg_cleared_before (lb_ring (fst (log_apply op bh)))"
proof -
  obtain b h where bh: "bh = (b, h)" by (cases bh)
  have b: "buffer_inv b" "rg_next_seq (lb_ring b) = length h" "rg_cleared_before (lb_ring b) \<le> length h"
    using assms unfolding bh history_inv_def Let_def fst_conv snd_conv by blast+
  show "\<exists>es. snd (log_apply op bh) = snd bh @ es \<and> (\<forall>e \<in> set es. le_seq e = length (snd bh))"
    by (cases op) (simp_all add: bh b(2))
  show "rg_cleared_before (lb_ring (fst bh)) \<le> rg_cleared_before (lb_ring (fst (log_apply op bh)))"
    using b by (cases op) (simp_all add: bh log_push_fields(5) log_clear_def Let_def)
qed

lemma follow_seek_inv:
  assumes "follow_inv lib q s" "c \<le> length (snd (fo_state s))"
  shows "follow_inv lib q (follow_seek c s)"
  using assms by (auto simp: follow_inv_def follow_seek_def expected_def)

lemma seq_at_or_after_le:
  assumes "history_inv (b, h)"
  shows "seq_at_or_after b ts \<le> length h"
proof (cases "find (\<lambda>e. le_ts_ms e \<ge> ts) (rg_entries (lb_ring b))")
  case None
  then show ?thesis
    using assms by (simp add: seq_at_or_after_def history_inv_def Let_def)
next
  case (Some e)
  then have "e \<in> set (rg_entries (lb_ring b))" by (auto simp: find_Some_iff)
  then have "le_seq e \<in> set (map le_seq (rg_entries (lb_ring b)))" by simp
  moreover have "map le_seq (rg_entries (lb_ring b)) = [oldest_seq (lb_ring b)..<length h]"
    using ring_is_end [OF assms] by blast
  ultimately have "le_seq e < length h" by (metis atLeastLessThan_iff set_upt)
  then show ?thesis using Some by (simp add: seq_at_or_after_def)
qed

lemma follow_inv_step:
  assumes "follow_inv lib q s"
  shows "follow_inv lib q (follow_step lib q op s)"
proof (cases op)
  case FSeek
  have "log_next_seq (fst (fo_state s)) = length (snd (fo_state s))"
    using assms by (simp add: follow_inv_def history_inv_def Let_def log_next_seq_def)
  then show ?thesis using follow_seek_inv [OF assms] FSeek by simp
next
  case (FSeekTime ts)
  then show ?thesis
    using follow_seek_inv [OF assms] seq_at_or_after_le [of "fst (fo_state s)" "snd (fo_state s)"] assms
    by (simp add: follow_inv_def)
next
  case (FLog lop)
  let ?t = "follow_step lib q op s"
  have inv: "history_inv (fo_state s)" using assms by (simp add: follow_inv_def)
  obtain es where es: "snd (fo_state ?t) = snd (fo_state s) @ es" "\<forall>e \<in> set es. le_seq e = length (snd (fo_state s))"
    using log_apply_history(1) [OF inv, of lop] FLog by auto
  have mono: "cleared s \<le> cleared ?t"
    using log_apply_history(2) [OF inv, of lop] FLog by (simp add: cleared_def)
  have "expected lib q ?t = expected lib q s"
    using es assms FLog by (auto simp: expected_def follow_inv_def)
  then show ?thesis
    using assms es(1) mono history_apply [OF inv, of lop] FLog by (auto simp: follow_inv_def)
next
  case (FRead n)
  let ?t = "follow_step lib q op s"
  obtain b h where bh: "fo_state s = (b, h)" by (cases "fo_state s")
  have inv: "history_inv (b, h)" "fo_from s \<le> fo_cursor s" "fo_cursor s \<le> length h"
    using assms bh by (simp_all add: follow_inv_def)
  define page where "page = follow_page lib q n s"
  note reads = page_reads [OF inv(1,3) page_def [unfolded follow_page_def bh fst_conv]]
  have t: "fo_state ?t = (b, h)" "fo_from ?t = fo_from s" "fo_cursor ?t = lp_next_seq page"
    "fo_got ?t = fo_got s @ lp_entries page" "fo_gap ?t = (fo_gap s \<or> lp_gap page)"
    using FRead bh by (simp_all add: page_def Let_def)
  have before: "le_seq e < fo_cursor s" if "e \<in> set (fo_got s)" for e
    using assms that by (auto simp: follow_inv_def expected_def)
  have "sorted_wrt (<) (map le_seq (fo_got s @ lp_entries page))"
    using assms reads(1,2) before by (force simp: follow_inv_def sorted_wrt_append)
  moreover have "set (fo_got s @ lp_entries page) \<subseteq> expected lib q ?t"
    using assms reads(2,3) inv(2) by (fastforce simp: follow_inv_def expected_def bh t(1-3))
  moreover have "e \<in> set (fo_got s @ lp_entries page)"
    if "\<not> fo_gap ?t" "e \<in> expected lib q ?t" "cleared ?t \<le> le_seq e" for e
  proof (cases "le_seq e < fo_cursor s")
    case True
    then have "e \<in> expected lib q s" "cleared s \<le> le_seq e"
      using that(2,3) by (auto simp: expected_def cleared_def t(1-3) bh)
    then show ?thesis using assms that(1) by (simp add: follow_inv_def t(5))
  next
    case False
    have "oldest_seq (lb_ring b) \<le> max (fo_cursor s) (rg_cleared_before (lb_ring b))"
      using that(1) reads(6) by (simp add: t(5)) linarith
    then have "oldest_seq (lb_ring b) \<le> le_seq e" using that(3) False by (auto simp: cleared_def t(1))
    then show ?thesis using that(2) False reads(2) by (simp add: expected_def t(1-3))
  qed
  ultimately show ?thesis
    using inv reads(3,4) unfolding follow_inv_def t by (auto simp: t)
qed

text \<open>
  (C10) Following the log with cursors loses nothing: whatever is logged and cleared between the pages and
  whatever their limits, the records read are strictly increasing (none twice), match the filter and lie
  between the start and the cursor; as long as no page reported a gap, they are all such records except
  those removed by a clear; and a page that is not truncated has caught up with the log.
\<close>

theorem cursor_follows_log:
  fixes lib q ops c m
  defines "s \<equiv> fold (follow_step lib q) ops (follow_new c m)"
  shows "sorted_wrt (<) (map le_seq (fo_got s)) \<and> set (fo_got s) \<subseteq> expected lib q s \<and>
    (\<not> fo_gap s \<longrightarrow> {e \<in> expected lib q s. cleared s \<le> le_seq e} \<subseteq> set (fo_got s)) \<and>
    (\<forall>n. \<not> lp_truncated (follow_page lib q n s) \<longrightarrow>
       fo_cursor (follow_step lib q (FRead n) s) = length (snd (fo_state s)))"
proof -
  have start: "follow_inv lib q (follow_new c m)"
    using history_new [of c m] by (simp add: follow_inv_def follow_new_def expected_def)
  have "follow_inv lib q (fold (follow_step lib q) ops t)" if "follow_inv lib q t" for t
    using that by (induction ops arbitrary: t) (simp_all add: follow_inv_step)
  then have inv: "follow_inv lib q s" using start by (simp add: s_def)
  have "fo_cursor (follow_step lib q (FRead n) s) = length (snd (fo_state s))"
    if "\<not> lp_truncated (follow_page lib q n s)" for n
    using that page_reads(5) [of "fst (fo_state s)" "snd (fo_state s)" "fo_cursor s" "follow_page lib q n s" lib n q]
      inv by (simp add: follow_inv_def follow_page_def Let_def)
  then show ?thesis using inv by (auto simp: follow_inv_def)
qed

definition plain_log_lib :: log_lib where
  "plain_log_lib = \<lparr> ll_lower = map to_ascii_lower, ll_show = (\<lambda>_. []) \<rparr>"

lemma cursor_follows_log_witness:
  "let s = fold (follow_step plain_log_lib log_query_default)
       [FSeek, FLog (LPush (example_entry ''a'')), FLog (LPush (example_entry ''b'')), FRead 1,
        FLog (LPush (example_entry ''c'')), FRead 5] (follow_new 3 1000)
   in map le_message (fo_got s) = [''a'', ''b'', ''c''] \<and>
      {e \<in> expected plain_log_lib log_query_default s. cleared s \<le> le_seq e} \<subseteq> set (fo_got s)"
proof -
  let ?ops = "[FSeek, FLog (LPush (example_entry ''a'')), FLog (LPush (example_entry ''b'')), FRead 1,
        FLog (LPush (example_entry ''c'')), FRead 5]"
  let ?s = "fold (follow_step plain_log_lib log_query_default) ?ops (follow_new 3 1000)"
  have "\<not> fo_gap ?s" "map le_message (fo_got ?s) = [''a'', ''b'', ''c'']" by code_simp+
  then show ?thesis
    using cursor_follows_log [where lib = plain_log_lib and q = log_query_default and ops = ?ops and c = 3 and m = 1000]
    by (simp only: Let_def) blast
qed

end
