(* ===== verification/Log_Wait.thy ===== *)
theory Log_Wait
  imports Backend_Logs
begin

text \<open>
  Waiting for a log record (\<^verbatim>\<open>LogBuffer::wait_for\<close> of \<^verbatim>\<open>victauri-plugin/src/backend_logs.rs\<close>): what
  the waiter checks between two wake-ups, and the protocol of registration, scan and wake-up between
  one waiter and the threads that log.
\<close>

section \<open>The scans\<close>

text \<open>
  The loop, given what was logged or cleared before each of its scans; the deadline passes after the
  last one.  The answer is the record found and the number of records that were evicted unchecked.
\<close>

fun wait_for :: "(log_entry \<Rightarrow> bool) \<Rightarrow> u64 \<Rightarrow> u64 \<Rightarrow> log_op list list \<Rightarrow> log_buffer \<times> log_entry list \<Rightarrow>
  log_entry option \<times> u64" where
  "wait_for pred scanned_to missed [] bh = (None, missed)"
| "wait_for pred scanned_to missed (ops # wakes) bh =
     (let bh' = fold log_apply ops bh;
          r = lb_ring (fst bh');
          missed' = missed + evicted_since r scanned_to;
          fresh = drop (index_of r scanned_to) (rg_entries r)
      in case find pred fresh of
           Some e \<Rightarrow> (Some e, missed')
         | None \<Rightarrow> wait_for pred (max scanned_to (rg_next_seq r)) missed' wakes bh')"

definition clear_mark :: "log_buffer \<times> log_entry list \<Rightarrow> u64" where
  "clear_mark bh = rg_cleared_before (lb_ring (fst bh))"

text \<open>The matching records from \<open>start\<close> up to \<open>limit\<close> that no clear removed.\<close>

definition wanted :: "(log_entry \<Rightarrow> bool) \<Rightarrow> u64 \<Rightarrow> log_buffer \<times> log_entry list \<Rightarrow> u64 \<Rightarrow> log_entry set" where
  "wanted pred start bh limit = {x \<in> set (snd bh). start \<le> le_seq x \<and> le_seq x < limit \<and> pred x \<and> clear_mark bh \<le> le_seq x}"

lemma finite_wanted [simp]: "finite (wanted pred start bh limit)"
  by (simp add: wanted_def)

lemma history_grows:
  "history_inv bh \<Longrightarrow> \<exists>es. snd (fold log_apply ops bh) = snd bh @ es \<and>
     (\<forall>e \<in> set es. length (snd bh) \<le> le_seq e) \<and> clear_mark bh \<le> clear_mark (fold log_apply ops bh)"
proof (induction ops arbitrary: bh)
  case (Cons op ops)
  obtain es where es: "snd (log_apply op bh) = snd bh @ es" "\<forall>e \<in> set es. le_seq e = length (snd bh)"
    using log_apply_history(1) [OF Cons.prems, of op] by blast
  obtain fs where fs: "snd (fold log_apply ops (log_apply op bh)) = snd (log_apply op bh) @ fs"
    "\<forall>e \<in> set fs. length (snd (log_apply op bh)) \<le> le_seq e"
    "clear_mark (log_apply op bh) \<le> clear_mark (fold log_apply ops (log_apply op bh))"
    using Cons.IH [OF history_apply [OF Cons.prems, of op]] by blast
  have "clear_mark bh \<le> clear_mark (log_apply op bh)"
    using log_apply_history(2) [OF Cons.prems, of op] by (simp add: clear_mark_def)
  then show ?case using es fs by (intro exI [of _ "es @ fs"]) auto
qed simp

text \<open>What was wanted stays bounded while the log grows past what was scanned.\<close>

lemma wanted_grows:
  assumes "history_inv bh" "limit \<le> length (snd bh) \<or> limit \<le> start"
  shows "wanted pred start (fold log_apply ops bh) limit \<subseteq> wanted pred start bh limit"
proof -
  obtain es where "snd (fold log_apply ops bh) = snd bh @ es" "\<forall>e \<in> set es. length (snd bh) \<le> le_seq e"
    "clear_mark bh \<le> clear_mark (fold log_apply ops bh)"
    using history_grows [OF assms(1)] by blast
  then show ?thesis using assms(2) by (fastforce simp: wanted_def)
qed

lemma card_seq_range:
  assumes "map le_seq h = [0..<length h]"
  shows "card {x \<in> set h. m \<le> le_seq x \<and> le_seq x < n} \<le> n - m"
proof -
  have inj: "inj_on le_seq (set h)"
    using assms by (metis distinct_map distinct_upt)
  have "card {x \<in> set h. m \<le> le_seq x \<and> le_seq x < n} = card (le_seq ` {x \<in> set h. m \<le> le_seq x \<and> le_seq x < n})"
    by (rule card_image [symmetric]) (rule inj_on_subset [OF inj], blast)
  also have "\<dots> \<le> card {m..<n}" by (rule card_mono) auto
  finally show ?thesis by simp
qed

text \<open>One scan that finds nothing misses at most what was evicted.\<close>

lemma scan_misses:
  assumes inv: "history_inv (b, h)" and missed: "card (wanted pred start (b, h) s) \<le> missed"
  shows "card (wanted pred start (b, h) (max s (oldest_seq (lb_ring b)))) \<le> missed + evicted_since (lb_ring b) s"
proof -
  let ?o = "oldest_seq (lb_ring b)" and ?c = "rg_cleared_before (lb_ring b)"
  have seqs: "map le_seq h = [0..<length h]"
    using inv unfolding history_inv_def Let_def fst_conv snd_conv by blast
  let ?gone = "{x \<in> set h. max s ?c \<le> le_seq x \<and> le_seq x < ?o}"
  have "wanted pred start (b, h) (max s ?o) \<subseteq> wanted pred start (b, h) s \<union> ?gone"
    by (auto simp: wanted_def clear_mark_def)
  then have "card (wanted pred start (b, h) (max s ?o)) \<le> card (wanted pred start (b, h) s) + card ?gone"
    by (intro order.trans [OF card_mono card_Un_le]) simp_all
  moreover have "card ?gone \<le> evicted_since (lb_ring b) s"
    using card_seq_range [OF seqs, of "max s ?c" ?o] by (simp add: evicted_since_def)
  ultimately show ?thesis using missed by linarith
qed

lemma fresh_set:
  assumes "history_inv (b, h)"
  shows "set (drop (index_of (lb_ring b) s) (rg_entries (lb_ring b))) =
    {x \<in> set h. max s (oldest_seq (lb_ring b)) \<le> le_seq x}"
proof -
  have "map le_seq h = [0..<length h]"
    using assms unfolding history_inv_def Let_def fst_conv snd_conv by blast
  then show ?thesis unfolding unread [OF assms] by (rule history_set_drop)
qed

text \<open>What a waiter's answer means, for a waiter that has already checked up to \<open>s\<close>.\<close>

definition wait_ok :: "(log_entry \<Rightarrow> bool) \<Rightarrow> u64 \<Rightarrow> log_buffer \<times> log_entry list \<Rightarrow> log_entry option \<times> u64 \<Rightarrow> bool" where
  "wait_ok pred start bh answer =
     (case answer of
        (Some e, missed) \<Rightarrow> e \<in> set (snd bh) \<and> pred e \<and> start \<le> le_seq e \<and>
          card (wanted pred start bh (le_seq e)) \<le> missed
      | (None, missed) \<Rightarrow> card (wanted pred start bh (length (snd bh))) \<le> missed)"

lemma found_first:
  assumes inv: "history_inv (b, h)" and s: "start \<le> s"
    and missed: "card (wanted pred start (b, h) s) \<le> missed"
    and found: "find pred (drop (index_of (lb_ring b) s) (rg_entries (lb_ring b))) = Some e"
  shows "e \<in> set h \<and> pred e \<and> start \<le> le_seq e \<and>
    card (wanted pred start (b, h) (le_seq e)) \<le> missed + evicted_since (lb_ring b) s"
proof -
  let ?f = "drop (index_of (lb_ring b) s) (rg_entries (lb_ring b))"
  let ?m = "max s (oldest_seq (lb_ring b))"
  have seqs: "map le_seq h = [0..<length h]"
    using inv unfolding history_inv_def Let_def fst_conv snd_conv by blast
  have f: "?f = drop ?m h" by (rule unread [OF inv])
  obtain i where i: "i < length ?f" "e = ?f ! i" "pred e" "\<forall>j < i. \<not> pred (?f ! j)"
    using found by (auto simp: find_Some_iff)
  have at: "?f ! j = h ! (?m + j)" "le_seq (?f ! j) = ?m + j" if j: "j < length ?f" for j
  proof -
    have k: "?m + j < length h" using j unfolding f length_drop by linarith
    then show "?f ! j = h ! (?m + j)" unfolding f by (intro nth_drop) linarith
    then show "le_seq (?f ! j) = ?m + j" using history_seq [OF seqs k] by simp
  qed
  have e: "e \<in> set h" "le_seq e = ?m + i" using i(1,2) at [of i] by (simp_all add: f)
  have "wanted pred start (b, h) (le_seq e) \<subseteq> wanted pred start (b, h) ?m"
  proof
    fix x
    assume x: "x \<in> wanted pred start (b, h) (le_seq e)"
    have "le_seq x < ?m"
    proof (rule ccontr)
      assume "\<not> le_seq x < ?m"
      then obtain j where j: "le_seq x = ?m + j" by (metis le_Suc_ex not_less)
      then have "j < i" using x e(2) by (simp add: wanted_def)
      moreover have "x = ?f ! j"
      proof -
        obtain k where "k < length h" "x = h ! k" using x by (auto simp: wanted_def in_set_conv_nth)
        then show ?thesis using j history_seq [OF seqs, of k] \<open>j < i\<close> i(1) at(1) [of j] by simp
      qed
      ultimately show False using i(4) x by (auto simp: wanted_def)
    qed
    then show "x \<in> wanted pred start (b, h) ?m" using x by (simp add: wanted_def)
  qed
  then have "card (wanted pred start (b, h) (le_seq e)) \<le> card (wanted pred start (b, h) ?m)"
    by (rule card_mono [OF finite_wanted])
  then show ?thesis using scan_misses [OF inv missed] e i(3) s by auto
qed

lemma wait_for_ok:
  assumes "history_inv bh" "start \<le> s" "s \<le> length (snd bh) \<or> s \<le> start"
    and "card (wanted pred start bh s) \<le> missed"
    and "wakes = [] \<Longrightarrow> length (snd bh) \<le> s"
  shows "wait_ok pred start (fold log_apply (concat wakes) bh) (wait_for pred s missed wakes bh)"
  using assms
proof (induction wakes arbitrary: s missed bh)
  case Nil
  have "wanted pred start bh (length (snd bh)) \<subseteq> wanted pred start bh s"
    using Nil.prems(5) by (auto simp: wanted_def)
  then have "card (wanted pred start bh (length (snd bh))) \<le> card (wanted pred start bh s)"
    by (rule card_mono [OF finite_wanted])
  then show ?case using Nil.prems(4) by (simp add: wait_ok_def)
next
  case (Cons ops wakes)
  obtain b h where bh: "fold log_apply ops bh = (b, h)" by (cases "fold log_apply ops bh")
  have inv: "history_inv (b, h)" using history_run [OF Cons.prems(1), of ops] by (simp add: bh)
  have "wanted pred start (b, h) s \<subseteq> wanted pred start bh s"
    using wanted_grows [OF Cons.prems(1,3), of pred ops] by (simp add: bh)
  then have missed: "card (wanted pred start (b, h) s) \<le> missed"
    using Cons.prems(4) card_mono [OF finite_wanted] le_trans by blast
  let ?fresh = "drop (index_of (lb_ring b) s) (rg_entries (lb_ring b))"
  have nxt: "rg_next_seq (lb_ring b) = length h"
    using inv unfolding history_inv_def Let_def fst_conv snd_conv by blast
  have grown: "length (snd bh) \<le> length h"
    using history_grows [OF Cons.prems(1), of ops] by (auto simp: bh)
  let ?fin = "fold log_apply (concat wakes) (b, h)"
  obtain es where es: "snd ?fin = h @ es" "\<forall>e \<in> set es. length h \<le> le_seq e"
    "clear_mark (b, h) \<le> clear_mark ?fin"
    using history_grows [OF inv] by fastforce
  show ?case
  proof (cases "find pred ?fresh")
    case (Some e)
    note first = found_first [OF inv Cons.prems(2) missed Some]
    have "le_seq e \<le> length h"
      using first history_seq [of h] inv unfolding history_inv_def Let_def fst_conv snd_conv
      by (metis in_set_conv_nth less_or_eq_imp_le)
    then have "wanted pred start ?fin (le_seq e) \<subseteq> wanted pred start (b, h) (le_seq e)"
      using wanted_grows [OF inv, of "le_seq e" start pred "concat wakes"] by simp
    then have "card (wanted pred start ?fin (le_seq e)) \<le> missed + evicted_since (lb_ring b) s"
      using first card_mono [OF finite_wanted] le_trans by blast
    then show ?thesis using Some first es(1) by (simp add: bh wait_ok_def)
  next
    case None
    let ?s = "max s (length h)"
    have no: "\<not> pred x" if "x \<in> set ?fresh" for x using None that by (auto simp: find_None_iff)
    have "wanted pred start (b, h) ?s \<subseteq> wanted pred start (b, h) (max s (oldest_seq (lb_ring b)))"
    proof
      fix x
      assume x: "x \<in> wanted pred start (b, h) ?s"
      then have "x \<notin> set ?fresh" using no by (auto simp: wanted_def)
      then have "\<not> max s (oldest_seq (lb_ring b)) \<le> le_seq x"
        using x unfolding fresh_set [OF inv] wanted_def snd_conv by blast
      then have "le_seq x < max s (oldest_seq (lb_ring b))" by (rule not_le_imp_less)
      then show "x \<in> wanted pred start (b, h) (max s (oldest_seq (lb_ring b)))"
        using x by (simp add: wanted_def)
    qed
    then have "card (wanted pred start (b, h) ?s) \<le> missed + evicted_since (lb_ring b) s"
      using scan_misses [OF inv missed] card_mono [OF finite_wanted] le_trans by blast
    then have "wait_ok pred start ?fin (wait_for pred ?s (missed + evicted_since (lb_ring b) s) wakes (b, h))"
      using Cons.prems(2,3) grown by (intro Cons.IH [OF inv]) auto
    then show ?thesis using None by (simp add: bh nxt)
  qed
qed

text \<open>
  (C12) A wait for a log record can be trusted: the record it returns matches and was logged at or after
  the start, and of the matching records in front of it (or, when it times out, of all matching records
  logged up to its last scan) it has overlooked at most as many as the count of missed records it
  reports; records removed by a clear excepted.  With a count of 0 it returns the first match, or there
  is none.
\<close>

theorem wait_for_complete:
  assumes "wakes \<noteq> []"
  shows "let before = fold log_apply ops (log_buffer_new c m, []);
             after = fold log_apply (concat wakes) before
         in case wait_for pred start 0 wakes before of
              (Some e, missed) \<Rightarrow> e \<in> set (snd after) \<and> pred e \<and> start \<le> le_seq e \<and>
                card {x \<in> set (snd after). start \<le> le_seq x \<and> le_seq x < le_seq e \<and> pred x \<and>
                        clear_mark after \<le> le_seq x} \<le> missed
            | (None, missed) \<Rightarrow>
                card {x \<in> set (snd after). start \<le> le_seq x \<and> le_seq x < length (snd after) \<and> pred x \<and>
                        clear_mark after \<le> le_seq x} \<le> missed"
proof -
  let ?before = "fold log_apply ops (log_buffer_new c m, [])"
  have "wanted pred start ?before start = {}" by (auto simp: wanted_def)
  then have "wait_ok pred start (fold log_apply (concat wakes) ?before) (wait_for pred start 0 wakes ?before)"
    using assms by (intro wait_for_ok [OF history_of_run]) simp_all
  then show ?thesis unfolding wait_ok_def wanted_def Let_def .
qed

lemma wait_for_complete_witness:
  "wait_for (\<lambda>e. le_message e = ''b'') 0 0 [[LPush (example_entry ''a'')], [LPush (example_entry ''b'')]]
     (log_buffer_new 5 1000, []) = (Some (example_entry ''b''\<lparr>le_seq := 1\<rparr>), 0) \<and>
   (let after = fold log_apply [LPush (example_entry ''a''), LPush (example_entry ''b'')] (log_buffer_new 5 1000, [])
    in card {x \<in> set (snd after). le_seq x < 1 \<and> le_message x = ''b'' \<and> clear_mark after \<le> le_seq x} = 0)"
proof -
  let ?w = "[[LPush (example_entry ''a'')], [LPush (example_entry ''b'')]]"
  have run: "wait_for (\<lambda>e. le_message e = ''b'') 0 0 ?w (log_buffer_new 5 1000, []) =
      (Some (example_entry ''b''\<lparr>le_seq := 1\<rparr>), 0)" by code_simp
  have all: "concat ?w = [LPush (example_entry ''a''), LPush (example_entry ''b'')]" by simp
  have seq: "le_seq (example_entry ''b''\<lparr>le_seq := 1\<rparr>) = 1" by simp
  have "?w \<noteq> []" by simp
  from wait_for_complete [OF this, where ops = "[]" and c = 5 and m = 1000 and start = 0
      and pred = "\<lambda>e. le_message e = ''b''"]
  have "card {x \<in> set (snd (fold log_apply (concat ?w) (log_buffer_new 5 1000, []))). 0 \<le> le_seq x \<and>
      le_seq x < le_seq (example_entry ''b''\<lparr>le_seq := 1\<rparr>) \<and> le_message x = ''b'' \<and>
      clear_mark (fold log_apply (concat ?w) (log_buffer_new 5 1000, [])) \<le> le_seq x} \<le> 0"
    unfolding Let_def fold_Nil id_apply run prod.case option.case by blast
  then show ?thesis
    using run unfolding all seq Let_def by (simp only: le_zero_eq zero_le simp_thms)
qed

section \<open>No lost wake-up\<close>

text \<open>
  The protocol between the waiter and the threads that log.  A push appends under the ring's lock and
  wakes the waiters after it has released it.  The waiter creates and registers its \<^verbatim>\<open>Notified\<close> before
  it scans under the lock, and sleeps on it afterwards.  \<^verbatim>\<open>tokio\<close>'s \<^verbatim>\<open>notify_waiters\<close> wakes every
  \<^verbatim>\<open>Notified\<close> that is registered at that moment.
\<close>

datatype waiter = W_Unregistered | W_Registered | W_Asleep

record wake_state =
  wk_next_seq :: u64     \<comment> \<open>records logged\<close>
  wk_unsent :: nat       \<comment> \<open>pushes between their unlock and their wake-up\<close>
  wk_waiter :: waiter
  wk_notified :: bool
  wk_scanned :: u64

definition wake_start :: "u64 \<Rightarrow> wake_state" where
  "wake_start n = \<lparr> wk_next_seq = n, wk_unsent = 0, wk_waiter = W_Unregistered, wk_notified = False, wk_scanned = 0 \<rparr>"

inductive wake_step :: "wake_state \<Rightarrow> wake_state \<Rightarrow> bool" where
  push: "wake_step s (s\<lparr>wk_next_seq := wk_next_seq s + 1, wk_unsent := wk_unsent s + 1\<rparr>)"
| wake: "0 < wk_unsent s \<Longrightarrow>
    wake_step s (s\<lparr>wk_unsent := wk_unsent s - 1, wk_notified := (wk_notified s \<or> wk_waiter s \<noteq> W_Unregistered)\<rparr>)"
| register: "wk_waiter s = W_Unregistered \<Longrightarrow>
    wake_step s (s\<lparr>wk_waiter := W_Registered, wk_notified := False\<rparr>)"
| scan: "wk_waiter s = W_Registered \<Longrightarrow>
    wake_step s (s\<lparr>wk_waiter := W_Asleep, wk_scanned := max (wk_scanned s) (wk_next_seq s)\<rparr>)"
| woken: "wk_waiter s = W_Asleep \<Longrightarrow> wk_notified s \<Longrightarrow> wake_step s (s\<lparr>wk_waiter := W_Unregistered\<rparr>)"

definition wake_inv :: "wake_state \<Rightarrow> bool" where
  "wake_inv s = (wk_waiter s = W_Asleep \<longrightarrow> wk_notified s \<or> wk_next_seq s \<le> wk_scanned s + wk_unsent s)"

lemma wake_inv_step: "wake_step s t \<Longrightarrow> wake_inv s \<Longrightarrow> wake_inv t"
  by (induction rule: wake_step.induct) (auto simp: wake_inv_def)



end
