(* ===== verification/Log_Digest.thy ===== *)
theory Log_Digest
  imports Backend_Logs
begin

text \<open>
  The text half of the backend log capture (\<^verbatim>\<open>victauri-plugin/src/backend_logs.rs\<close>): how captured
  messages and values are cut to their limits, the template that groups repeated messages, and the
  digest of the buffer.
\<close>

section \<open>Cutting texts\<close>

definition ellipsis :: string where
  "ellipsis = [CHR 0xE2, CHR 0x80, CHR 0xA6]"

definition MAX_DISCARDED_FORMAT_BYTES :: usize where
  "MAX_DISCARDED_FORMAT_BYTES = 256 * 1024"

text \<open>
  \<^verbatim>\<open>format_bounded\<close>: the writer gets the formatted text in pieces; the first error it returns ends the
  formatting.
\<close>

record bounded =
  bd_out :: string
  bd_cut :: bool
  bd_discarded :: usize

definition write_str :: "usize \<Rightarrow> string \<Rightarrow> bounded \<Rightarrow> bool \<times> bounded" where
  "write_str max_len w b =
     (let room = (if bd_cut b then 0 else sat_sub max_len (length (bd_out b)))
      in if length w \<le> room then (True, b\<lparr>bd_out := bd_out b @ w\<rparr>)
         else (let stop = char_cut w room;
                   discarded = sat_add (bd_discarded b) (length w - stop)
               in (discarded \<le> MAX_DISCARDED_FORMAT_BYTES,
                   b\<lparr>bd_out := bd_out b @ take stop w, bd_cut := True, bd_discarded := discarded\<rparr>)))"

fun write_fmt :: "usize \<Rightarrow> string list \<Rightarrow> bounded \<Rightarrow> bounded" where
  "write_fmt max_len [] b = b"
| "write_fmt max_len (w # ws) b =
     (let (ok, b') = write_str max_len w b in if ok then write_fmt max_len ws b' else b')"

definition format_bounded :: "string list \<Rightarrow> usize \<Rightarrow> string" where
  "format_bounded pieces max_len =
     (let b = write_fmt max_len pieces \<lparr> bd_out = [], bd_cut = False, bd_discarded = 0 \<rparr>
      in if bd_cut b then bd_out b @ ellipsis @ ''[truncated]'' else bd_out b)"

definition truncate_string :: "string \<Rightarrow> usize \<Rightarrow> string" where
  "truncate_string s max_len =
     (if length s > max_len
      then (let cut = char_cut s max_len; extra = length s - cut
            in take cut s @ ellipsis @ ''[+'' @ decimal extra @ '' bytes]'')
      else s)"

section \<open>Message templates\<close>

definition in_token :: "char \<Rightarrow> bool" where
  "in_token c = (is_ascii_alphanumeric c \<or> c \<in> {CHR ''.'', CHR ''-'', CHR ''_'', CHR '':''})"

text \<open>
  The loop of \<^verbatim>\<open>message_template\<close>: the text read so far gives \<open>out\<close>, \<open>mark\<close> says whether it ends
  with a placeholder.  Other characters are copied whole.
\<close>

function template_from :: "bool \<Rightarrow> string \<Rightarrow> string \<Rightarrow> string" where
  "template_from mark out [] = out"
| "template_from mark out (c # r) =
     (let (mark', out', rest) =
        (if is_ascii_digit c then (True, (if mark then out else out @ ''#''), dropWhile in_token r)
         else if c = CHR 0x22 then
           (True, out @ CHR 0x22 # ellipsis @ [CHR 0x22], tl (dropWhile (\<lambda>n. n \<noteq> CHR 0x22) r))
         else (let w = utf8_width (c # r) in (False, out @ c # take (w - 1) r, drop (w - 1) r)))
      in if length out' \<ge> 240 then out' @ ellipsis else template_from mark' out' rest)"
  by pat_completeness auto
termination
proof (relation "measure (\<lambda>(mark, out, s). length s)", goal_cases)
  case (2 mark out c r p mark' q out' rest)
  have "length rest \<le> length r"
    using 2(1-3) length_dropWhile_le [of in_token r] length_dropWhile_le [of "\<lambda>n. n \<noteq> CHR 0x22" r]
    by (auto simp: Let_def split: if_splits)
  then show ?case by simp
qed simp

declare template_from.simps [simp del]

definition message_template :: "string \<Rightarrow> string" where
  "message_template message = template_from False [] message"

section \<open>Lemmas on cutting\<close>

lemma write_str_after_cut:
  "bd_cut b \<Longrightarrow> bd_out (snd (write_str m w b)) = bd_out b \<and> bd_cut (snd (write_str m w b))"
  by (simp add: write_str_def Let_def)

lemma write_fmt_after_cut: "bd_cut b \<Longrightarrow> bd_out (write_fmt m ws b) = bd_out b \<and> bd_cut (write_fmt m ws b)"
proof (induction ws arbitrary: b)
  case (Cons w ws)
  then show ?case using write_str_after_cut [of b m w] by (auto simp: case_prod_beta Let_def)
qed simp

lemma write_fmt_spec:
  assumes "\<forall>w \<in> set ws. valid_utf8 w" "\<not> bd_cut b" "length (bd_out b) \<le> m"
  shows "let all = bd_out b @ concat ws; b' = write_fmt m ws b
    in (length all \<le> m \<longrightarrow> \<not> bd_cut b' \<and> bd_out b' = all) \<and>
       (m < length all \<longrightarrow> bd_cut b' \<and> bd_out b' = take (char_cut all m) all)"
  using assms
proof (induction ws arbitrary: b)
  case (Cons w ws)
  let ?all = "bd_out b @ concat (w # ws)"
  show ?case
  proof (cases "length w \<le> m - length (bd_out b)")
    case True
    then have "write_str m w b = (True, b\<lparr>bd_out := bd_out b @ w\<rparr>)"
      using Cons.prems(2) by (simp add: write_str_def)
    then show ?thesis
      using Cons.IH [of "b\<lparr>bd_out := bd_out b @ w\<rparr>"] Cons.prems True by (simp add: Let_def)
  next
    case False
    let ?k = "char_cut w (m - length (bd_out b))"
    have w: "valid_utf8 w" "w \<noteq> []" "m - length (bd_out b) < length w" using Cons.prems(1) False by auto
    have "?k \<le> m - length (bd_out b)" by (rule char_cut_le)
    have fields: "bd_out (snd (write_str m w b)) = bd_out b @ take ?k w" "bd_cut (snd (write_str m w b))"
      using False Cons.prems(2) by (simp_all add: write_str_def Let_def)
    then have after: "bd_out (write_fmt m (w # ws) b) = bd_out b @ take ?k w \<and> bd_cut (write_fmt m (w # ws) b)"
      using write_fmt_after_cut [of "snd (write_str m w b)" m ws] by (simp add: case_prod_beta Let_def)
    have "char_cut ?all m = length (bd_out b) + ?k"
      using char_cut_append [OF w, of "bd_out b" "concat ws"] Cons.prems(3) by simp
    moreover have "take ?k (w @ concat ws) = take ?k w"
      using \<open>?k \<le> m - length (bd_out b)\<close> w(3) by simp
    ultimately show ?thesis using after w(3) by (simp add: Let_def)
  qed
qed simp

lemma valid_utf8_concat: "\<forall>w \<in> set ws. valid_utf8 w \<Longrightarrow> valid_utf8 (concat ws)"
  by (induction ws) (simp_all add: valid_utf8_append)

lemma ellipsis_valid [simp]: "valid_utf8 (ellipsis @ s) = valid_utf8 s"
  using valid_utf8_char [of ellipsis s] by (simp add: ellipsis_def byte_in_def)

lemma digit_ascii: "is_ascii_digit c \<Longrightarrow> is_ascii c"
  by (simp add: is_ascii_digit_def is_ascii_def)

lemma decimal_valid: "valid_utf8 (decimal n @ s) = valid_utf8 s"
proof (rule valid_utf8_ascii_prefix)
  show "\<forall>c \<in> set (decimal n). is_ascii c"
    using decimal_digits digit_ascii by blast
qed

text \<open>
  Captured text is cut the same way however it is written: when an app's formatter writes its text
  in pieces, the result is the whole text if it fits and otherwise the text up to the last character
  boundary within the limit and a mark, whatever the pieces are (and although formatting stops early on
  a huge value); the result, and a truncated string, are well-formed UTF-8, and the kept text never
  exceeds the limit.
\<close>

theorem format_bounded_exact:
  assumes "\<forall>w \<in> set pieces. valid_utf8 w"
  shows "let all = concat pieces; kept = take (char_cut all limit) all
    in format_bounded pieces limit = (if length all \<le> limit then all else kept @ ellipsis @ ''[truncated]'') \<and>
       length kept \<le> limit \<and> valid_utf8 (format_bounded pieces limit) \<and> valid_utf8 (truncate_string all limit)"
proof -
  let ?all = "concat pieces"
  have all: "valid_utf8 ?all" by (rule valid_utf8_concat [OF assms])
  have kept: "valid_utf8 (take (char_cut ?all limit) ?all)"
    using valid_utf8_cut [OF all char_cut_boundary] by blast
  have exact: "format_bounded pieces limit =
      (if length ?all \<le> limit then ?all else take (char_cut ?all limit) ?all @ ellipsis @ ''[truncated]'')"
    using write_fmt_spec [OF assms, of "\<lparr> bd_out = [], bd_cut = False, bd_discarded = 0 \<rparr>" limit]
    by (auto simp: format_bounded_def Let_def)
  have "valid_utf8 ''[truncated]''" "valid_utf8 '' bytes]''" by (simp_all add: is_ascii_def)
  then have "valid_utf8 (format_bounded pieces limit)" "valid_utf8 (truncate_string ?all limit)"
    using all kept
    by (simp_all add: exact truncate_string_def Let_def valid_utf8_append decimal_valid is_ascii_def)
  then show ?thesis using exact char_cut_le [of ?all limit] by (simp add: Let_def min.coboundedI2)
qed

lemma format_bounded_exact_witness:
  "format_bounded [''ab'', ellipsis, ''cd''] 4 = ''ab'' @ ellipsis @ ''[truncated]'' \<and>
   format_bounded [''ab'', ''cd''] 4 = ''abcd''"
proof -
  have v: "\<forall>w \<in> set [''ab'', ellipsis, ''cd'']. valid_utf8 w" "\<forall>w \<in> set [''ab'', ''cd'']. valid_utf8 w"
    using ellipsis_valid [of "[]"] by (simp_all add: is_ascii_def)
  have "take (char_cut (concat [''ab'', ellipsis, ''cd'']) 4) (concat [''ab'', ellipsis, ''cd'']) = ''ab''"
    by code_simp
  then show ?thesis
    using format_bounded_exact [OF v(1), of 4] format_bounded_exact [OF v(2), of 4]
    by (simp add: Let_def ellipsis_def)
qed

section \<open>Templates\<close>

text \<open>One step of the loop: the mark, the output and the rest after the character.\<close>

definition template_step :: "bool \<Rightarrow> string \<Rightarrow> char \<Rightarrow> string \<Rightarrow> bool \<times> string \<times> string" where
  "template_step mark out c r =
     (if is_ascii_digit c then (True, (if mark then out else out @ ''#''), dropWhile in_token r)
      else if c = CHR 0x22 then
        (True, out @ CHR 0x22 # ellipsis @ [CHR 0x22], tl (dropWhile (\<lambda>n. n \<noteq> CHR 0x22) r))
      else (let w = utf8_width (c # r) in (False, out @ c # take (w - 1) r, drop (w - 1) r)))"

lemma template_from_Cons:
  "template_from mark out (c # r) =
     (case template_step mark out c r of (mark', out', rest) \<Rightarrow>
        if length out' \<ge> 240 then out' @ ellipsis else template_from mark' out' rest)"
  by (subst template_from.simps) (simp add: template_step_def Let_def)

lemma template_from_Nil [simp]: "template_from mark out [] = out"
  by (subst template_from.simps) simp

lemma template_step_rest:
  assumes "template_step mark out c r = (mark', out', rest)"
  shows "length rest \<le> length r"
  using assms length_dropWhile_le [of in_token r] length_dropWhile_le [of "\<lambda>n. n \<noteq> CHR 0x22" r]
  by (auto simp: template_step_def Let_def split: if_splits)

definition no_digit :: "string \<Rightarrow> bool" where
  "no_digit s = (\<forall>c \<in> set s. \<not> is_ascii_digit c)"

lemma ellipsis_no_digit [simp]: "no_digit ellipsis"
  by (simp add: no_digit_def ellipsis_def is_ascii_digit_def)

lemma in_token_ascii: "in_token c \<Longrightarrow> is_ascii c"
  by (auto simp: in_token_def is_ascii_alphanumeric_def is_ascii_def is_ascii_digit_def Let_def)

lemma valid_utf8_dropWhile_ascii:
  "valid_utf8 s \<Longrightarrow> (\<And>c. p c \<Longrightarrow> is_ascii c) \<Longrightarrow> valid_utf8 (dropWhile p s)"
  by (induction s) auto

lemma valid_utf8_after_quote: "valid_utf8 s \<Longrightarrow> valid_utf8 (tl (dropWhile (\<lambda>n. n \<noteq> CHR 0x22) s))"
proof -
  assume s: "valid_utf8 s"
  have d: "valid_utf8 (dropWhile (\<lambda>n. n \<noteq> CHR 0x22) s)"
    by (rule valid_utf8_dropWhile [OF s]) (simp add: is_ascii_def)
  show ?thesis
  proof (cases "dropWhile (\<lambda>n. n \<noteq> CHR 0x22) s")
    case (Cons c t)
    then have "c = CHR 0x22" using hd_dropWhile [of "\<lambda>n. n \<noteq> CHR 0x22" s] by auto
    then show ?thesis using d Cons by (simp add: is_ascii_def)
  next
    case Nil
    then show ?thesis by (simp only: list.sel valid_utf8_Nil)
  qed
qed

text \<open>A step keeps the output and the rest well-formed, adds no digit and at most five bytes.\<close>

lemma template_step_keeps:
  assumes "template_step mark out c r = (mark', out', rest)" "valid_utf8 (c # r)" "valid_utf8 out" "no_digit out"
  shows "valid_utf8 out' \<and> valid_utf8 rest \<and> no_digit out' \<and> length out' \<le> length out + 5"
proof -
  consider "is_ascii_digit c" | "\<not> is_ascii_digit c" "c = CHR 0x22" | "\<not> is_ascii_digit c" "c \<noteq> CHR 0x22" by blast
  then show ?thesis
  proof cases
    case 1
    then have "valid_utf8 r" using assms(2) by (simp add: digit_ascii)
    then have "valid_utf8 (dropWhile in_token r)" by (rule valid_utf8_dropWhile_ascii) (rule in_token_ascii)
    moreover have "valid_utf8 ''#''" by (simp add: is_ascii_def)
    ultimately show ?thesis
      using assms 1
      by (auto simp: template_step_def valid_utf8_append no_digit_def is_ascii_digit_def split: if_splits)
  next
    case 2
    then have "valid_utf8 r" using assms(2) by (simp add: is_ascii_def)
    then have "valid_utf8 rest" using assms(1) 2 valid_utf8_after_quote by (auto simp: template_step_def)
    moreover have "valid_utf8 (CHR 0x22 # ellipsis @ [CHR 0x22])" by (simp add: is_ascii_def)
    ultimately show ?thesis
      using assms 2 ellipsis_no_digit
      by (auto simp: template_step_def valid_utf8_append no_digit_def is_ascii_digit_def ellipsis_def)
  next
    case 3
    obtain ch t where ch: "c # r = ch @ t" "utf8_char ch" "valid_utf8 t"
      using assms(2) by (cases rule: valid_utf8_cases) auto
    have w: "utf8_width (c # r) = length ch" unfolding ch(1) by (rule utf8_width_char [OF ch(2)])
    obtain ch' where ch': "ch = c # ch'" using ch(1) utf8_char_neq_Nil [OF ch(2)] by (cases ch) auto
    then have r: "r = ch' @ t" using ch(1) by simp
    have step: "out' = out @ ch" "rest = t"
      using assms(1) 3 w by (auto simp: template_step_def r ch')
    have "no_digit ch"
      using ch(2)
    proof (cases rule: utf8_char_cases)
      case (ascii a)
      then show ?thesis using 3 ch' by (simp add: no_digit_def)
    next
      case multi
      then show ?thesis using digit_ascii by (auto simp: no_digit_def)
    qed
    moreover have "valid_utf8 ch" using valid_utf8_char [OF ch(2), of "[]"] by simp
    ultimately show ?thesis
      using step assms(3,4) ch(3) utf8_char_length [OF ch(2)] by (auto simp: valid_utf8_append no_digit_def)
  qed
qed

lemma template_from_keeps:
  "valid_utf8 s \<Longrightarrow> valid_utf8 out \<Longrightarrow> no_digit out \<Longrightarrow> length out < 240 \<Longrightarrow>
   valid_utf8 (template_from mark out s) \<and> no_digit (template_from mark out s) \<and>
   length (template_from mark out s) \<le> 247"
proof (induction s arbitrary: mark out rule: measure_induct_rule [of length])
  case (less s)
  show ?case
  proof (cases s)
    case (Cons c r)
    obtain mark' out' rest where step: "template_step mark out c r = (mark', out', rest)"
      by (cases "template_step mark out c r") auto
    note keeps = template_step_keeps [OF step less.prems(1) [unfolded Cons] less.prems(2,3)]
    have shorter: "length rest < length s" using template_step_rest [OF step] Cons by simp
    show ?thesis
    proof (cases "length out' \<ge> 240")
      case True
      then have "template_from mark out s = out' @ ellipsis" using Cons step by (simp add: template_from_Cons)
      then show ?thesis
        using keeps less.prems(4) ellipsis_valid [of "[]"] ellipsis_no_digit
        by (auto simp: valid_utf8_append no_digit_def ellipsis_def)
    next
      case False
      then show ?thesis using less.IH [OF shorter] keeps step Cons by (simp add: template_from_Cons)
    qed
  qed (use less in simp)
qed

text \<open>A number as a log message has it: a digit and whatever is written on without a break.\<close>

definition number_run :: "string \<Rightarrow> bool" where
  "number_run d = (d \<noteq> [] \<and> is_ascii_digit (hd d) \<and> (\<forall>c \<in> set d. in_token c))"

lemma dropWhile_run:
  "\<forall>c \<in> set d. p c \<Longrightarrow> dropWhile p (a @ d @ r) =
     (if \<forall>c \<in> set a. p c then dropWhile p r else dropWhile p a @ d @ r)"
  by (induction a) (auto simp: dropWhile_append2)

lemma tl_after_quote:
  assumes "CHR 0x22 \<in> set a"
  shows "tl (dropWhile (\<lambda>n. n \<noteq> CHR 0x22) a @ s) = tl (dropWhile (\<lambda>n. n \<noteq> CHR 0x22) a) @ s"
proof -
  have "dropWhile (\<lambda>n. n \<noteq> CHR 0x22) a \<noteq> []" using assms by simp
  then show ?thesis by simp
qed

lemma template_step_run:
  assumes "valid_utf8 (c # a)" "number_run d"
  shows "template_step mark out c (a @ d @ r) =
    (let (mark', out', rest) = template_step mark out c a
     in (mark', out',
         if (is_ascii_digit c \<and> (\<forall>x \<in> set a. in_token x)) then dropWhile in_token r
         else if \<not> is_ascii_digit c \<and> c = CHR 0x22 \<and> CHR 0x22 \<notin> set a then tl (dropWhile (\<lambda>n. n \<noteq> CHR 0x22) r)
         else rest @ d @ r))"
proof -
  have tok: "\<forall>x \<in> set d. in_token x" using assms(2) by (simp add: number_run_def)
  have noq: "\<forall>x \<in> set d. x \<noteq> CHR 0x22"
    using tok by (auto simp: in_token_def is_ascii_alphanumeric_def is_ascii_digit_def Let_def)
  consider "is_ascii_digit c" | "\<not> is_ascii_digit c" "c = CHR 0x22" | "\<not> is_ascii_digit c" "c \<noteq> CHR 0x22" by blast
  then show ?thesis
  proof cases
    case 1
    then show ?thesis by (simp add: template_step_def dropWhile_run [OF tok])
  next
    case 2
    have "tl (dropWhile (\<lambda>n. n \<noteq> CHR 0x22) (a @ d @ r)) =
        (if CHR 0x22 \<notin> set a then tl (dropWhile (\<lambda>n. n \<noteq> CHR 0x22) r)
         else tl (dropWhile (\<lambda>n. n \<noteq> CHR 0x22) a) @ d @ r)"
      using dropWhile_run [OF noq, of a r] tl_after_quote [of a "d @ r"] by auto
    then show ?thesis using 2 by (simp add: template_step_def)
  next
    case 3
    obtain ch t where ch: "c # a = ch @ t" "utf8_char ch"
      using assms(1) by (cases rule: valid_utf8_cases) auto
    have w: "utf8_width (c # a) = length ch" "utf8_width (c # a @ d @ r) = length ch"
      using utf8_width_char [OF ch(2), of t] utf8_width_char [OF ch(2), of "t @ d @ r"] ch(1)
      by (simp_all flip: append_Cons append_assoc)
    have "length ch - 1 \<le> length a" using arg_cong [OF ch(1), of length] by simp
    then show ?thesis using 3 w by (simp add: template_step_def Let_def)
  qed
qed

lemma template_from_run:
  assumes "number_run d1" "number_run d2" "r = [] \<or> \<not> in_token (hd r)"
  shows "valid_utf8 a \<Longrightarrow> valid_utf8 out \<Longrightarrow> no_digit out \<Longrightarrow>
    template_from mark out (a @ d1 @ r) = template_from mark out (a @ d2 @ r)"
proof (induction a arbitrary: mark out rule: measure_induct_rule [of length])
  case (less a)
  show ?case
  proof (cases a)
    case Nil
    have "template_from mark out (d @ r) =
        (if length (if mark then out else out @ ''#'') \<ge> 240 then (if mark then out else out @ ''#'') @ ellipsis
         else template_from True (if mark then out else out @ ''#'') r)" if run: "number_run d" for d
    proof -
      obtain x xs where d: "d = x # xs" "is_ascii_digit x" "\<forall>c \<in> set xs. in_token c"
        using run by (cases d) (auto simp: number_run_def)
      have "dropWhile in_token (xs @ r) = r" using d(3) assms(3) by (cases r) (auto simp: dropWhile_append2)
      then show ?thesis using d(1,2) by (simp add: template_from_Cons template_step_def)
    qed
    then show ?thesis using Nil assms(1,2) by simp
  next
    case (Cons c a')
    obtain mark' out' rest where step: "template_step mark out c a' = (mark', out', rest)"
      by (cases "template_step mark out c a'") auto
    note keeps = template_step_keeps [OF step less.prems(1) [unfolded Cons] less.prems(2,3)]
    have shorter: "length rest < length a" using template_step_rest [OF step] Cons by simp
    have IH: "template_from mark' out' (rest @ d1 @ r) = template_from mark' out' (rest @ d2 @ r)"
      using less.IH [OF shorter] keeps by blast
    define x where "x = (if is_ascii_digit c \<and> (\<forall>x \<in> set a'. in_token x) then Some (dropWhile in_token r)
      else if \<not> is_ascii_digit c \<and> c = CHR 0x22 \<and> CHR 0x22 \<notin> set a'
      then Some (tl (dropWhile (\<lambda>n. n \<noteq> CHR 0x22) r)) else None)"
    have run: "template_step mark out c (a' @ d @ r) =
        (mark', out', case x of Some t \<Rightarrow> t | None \<Rightarrow> rest @ d @ r)" if "number_run d" for d
      using template_step_run [OF less.prems(1) [unfolded Cons] that, of mark out r] step
      by (cases "c = CHR 0x22") (simp_all add: x_def is_ascii_digit_def [of "CHR 0x22"])
    show ?thesis using run [OF assms(1)] run [OF assms(2)] IH Cons
      by (cases x) (simp_all add: template_from_Cons)
  qed
qed

text \<open>
  Repeats of one log line share a template: a message template is well-formed UTF-8 of at most 247
  bytes without any digit, and two messages that differ only in a number (any run that starts with a
  digit: a count, a timestamp, an id) have the same template.
\<close>

theorem message_template_groups:
  assumes "valid_utf8 (a @ d @ r)" "valid_utf8 a" "number_run d" "number_run d'" "r = [] \<or> \<not> in_token (hd r)"
  shows "message_template (a @ d @ r) = message_template (a @ d' @ r) \<and>
    valid_utf8 (message_template (a @ d @ r)) \<and> length (message_template (a @ d @ r)) \<le> 247 \<and>
    (\<forall>c \<in> set (message_template (a @ d @ r)). \<not> is_ascii_digit c)"
proof -
  have "no_digit []" by (simp add: no_digit_def)
  then show ?thesis
    using template_from_run [OF assms(3-5,2), of "[]" False] template_from_keeps [OF assms(1), of "[]" False]
    by (simp add: message_template_def no_digit_def)
qed

lemma message_template_groups_witness:
  "message_template ''took 12ms'' = ''took #'' \<and> message_template ''took 7.5s'' = ''took #''"
proof -
  have v: "valid_utf8 (''took '' @ ''12ms'' @ [])" "valid_utf8 ''took ''" by (simp_all add: is_ascii_def)
  have n: "number_run ''12ms''" "number_run ''7.5s''"
    by (simp_all add: number_run_def in_token_def is_ascii_alphanumeric_def is_ascii_digit_def Let_def)
  have "message_template ''took 12ms'' = ''took #''" by code_simp
  then show ?thesis using message_template_groups [OF v n] by simp
qed

section \<open>The digest\<close>

record template_stat =
  ts_count :: u64
  ts_first_ts_ms :: u64
  ts_last_ts_ms :: u64
  ts_last_seq :: u64
  ts_example :: string

record repeated_message =
  rm_level :: log_level
  rm_target :: string
  rm_template :: string
  rm_count :: u64
  rm_first_ts_ms :: u64
  rm_last_ts_ms :: u64
  rm_last_seq :: u64
  rm_example :: string

record digest_report =
  ld_buffered :: usize
  ld_next_seq :: u64
  ld_evicted :: u64
  ld_oldest_ts_ms :: "u64 option"
  ld_newest_ts_ms :: "u64 option"
  ld_lifetime_counts :: "(string \<times> u64) list"
  ld_buffered_counts :: "(string \<times> u64) list"
  ld_top_targets :: "(string \<times> u64) list"
  ld_repeated :: "repeated_message list"
  ld_recent_problems :: "log_entry list"
  ld_panics :: "log_entry list"

definition level_map :: "u64 list \<Rightarrow> (string \<times> u64) list" where
  "level_map counts =
     fold (\<lambda>l m. bt_insert (level_name l) (counts ! level_index l) m) [Trace, Debug, Info, Warn, Error] []"

text \<open>\<^verbatim>\<open>entry(k).or_insert(init)\<close> followed by an update in place.\<close>

definition hm_entry :: "'k \<Rightarrow> 'v \<Rightarrow> ('v \<Rightarrow> 'v) \<Rightarrow> ('k \<times> 'v) list \<Rightarrow> ('k \<times> 'v) list" where
  "hm_entry k init f m = (if map_of m k = None then hm_insert k (f init) m else hm_alter k f m)"

type_synonym template_key = "log_level \<times> string \<times> string"

definition template_key :: "log_entry \<Rightarrow> template_key" where
  "template_key e = (le_level e, le_target e, message_template (le_message e))"

definition count_target :: "log_entry \<Rightarrow> (string \<times> u64) list \<Rightarrow> (string \<times> u64) list" where
  "count_target e m = hm_entry (le_target e) 0 (\<lambda>n. n + 1) m"

definition count_template :: "log_entry \<Rightarrow> (template_key \<times> template_stat) list \<Rightarrow> (template_key \<times> template_stat) list" where
  "count_template e m =
     hm_entry (template_key e)
       \<lparr> ts_count = 0, ts_first_ts_ms = le_ts_ms e, ts_last_ts_ms = le_ts_ms e, ts_last_seq = le_seq e,
         ts_example = le_message e \<rparr>
       (\<lambda>stat. stat\<lparr>ts_count := ts_count stat + 1, ts_last_ts_ms := le_ts_ms e, ts_last_seq := le_seq e\<rparr>) m"

definition push_recent :: "usize \<Rightarrow> log_entry \<Rightarrow> log_entry list \<Rightarrow> log_entry list" where
  "push_recent recent e problems =
     (if le_level e \<ge> Warn
      then (let problems = problems @ [e] in if length problems > recent then tl problems else problems)
      else problems)"

definition busier :: "string \<times> u64 \<Rightarrow> string \<times> u64 \<Rightarrow> bool" where
  "busier a b = (snd b < snd a \<or> (snd a = snd b \<and> fst a \<le> fst b))"

definition worse :: "repeated_message \<Rightarrow> repeated_message \<Rightarrow> bool" where
  "worse a b = (rm_level b < rm_level a \<or> (rm_level a = rm_level b \<and>
     (rm_count b < rm_count a \<or> (rm_count a = rm_count b \<and> rm_template a \<le> rm_template b))))"

definition to_repeated :: "template_key \<times> template_stat \<Rightarrow> repeated_message" where
  "to_repeated ks = (case ks of ((level, target, template), s) \<Rightarrow>
     \<lparr> rm_level = level, rm_target = target, rm_template = template, rm_count = ts_count s,
       rm_first_ts_ms = ts_first_ts_ms s, rm_last_ts_ms = ts_last_ts_ms s, rm_last_seq = ts_last_seq s,
       rm_example = ts_example s \<rparr>)"

text \<open>The iteration orders of the two hash maps are arguments.\<close>

definition log_digest ::
  "((string \<times> u64) list \<Rightarrow> (string \<times> u64) list) \<Rightarrow>
   ((template_key \<times> template_stat) list \<Rightarrow> (template_key \<times> template_stat) list) \<Rightarrow>
   log_buffer \<Rightarrow> usize \<Rightarrow> usize \<Rightarrow> digest_report" where
  "log_digest iter_targets iter_templates b recent most =
     (let r = lb_ring b; es = rg_entries r;
          in_buffer = fold (\<lambda>e c. c[level_index (le_level e) := c ! level_index (le_level e) + 1]) es [0, 0, 0, 0, 0];
          targets = fold count_target es [];
          templates = fold count_template es [];
          problems = fold (push_recent recent) es [];
          panics = fold (\<lambda>e ps. if le_source e = Src_Panic then ps @ [e] else ps) es [];
          top_targets = take most (sort_by busier (iter_targets targets));
          repeated = take most (sort_by worse
            (map to_repeated (filter (\<lambda>(k, s). ts_count s > 1) (iter_templates templates))))
      in \<lparr> ld_buffered = length es, ld_next_seq = rg_next_seq r, ld_evicted = rg_evicted r,
           ld_oldest_ts_ms = (if es = [] then None else Some (le_ts_ms (hd es))),
           ld_newest_ts_ms = (if es = [] then None else Some (le_ts_ms (last es))),
           ld_lifetime_counts = level_map (rg_totals r), ld_buffered_counts = level_map in_buffer,
           ld_top_targets = top_targets, ld_repeated = repeated, ld_recent_problems = problems,
           ld_panics = panics \<rparr>)"

text \<open>Counting with a hash map.\<close>

lemma hm_entry_lookup:
  "map_of (hm_entry k init f m) = (map_of m)(k \<mapsto> f (case map_of m k of None \<Rightarrow> init | Some v \<Rightarrow> v))"
  by (auto simp: hm_entry_def hm_insert_lookup hm_alter_lookup split: option.splits)

lemma hm_entry_distinct: "distinct (map fst m) \<Longrightarrow> distinct (map fst (hm_entry k init f m))"
  by (simp add: hm_entry_def hm_insert_keys distinct_removeAll_snoc distinct_removeAll)

definition occurrences :: "('e \<Rightarrow> 'k) \<Rightarrow> 'e list \<Rightarrow> 'k \<Rightarrow> nat" where
  "occurrences key es k = length (filter (\<lambda>e. key e = k) es)"

lemma occurrences_snoc:
  "occurrences key (es @ [e]) k = (if key e = k then Suc (occurrences key es k) else occurrences key es k)"
  by (simp add: occurrences_def)

lemma occurrences_pos: "occurrences key es k = 0 \<longleftrightarrow> k \<notin> key ` set es"
  by (auto simp: occurrences_def filter_empty_conv)

lemma targets_counted:
  "distinct (map fst (fold count_target es [])) \<and>
   map_of (fold count_target es []) t =
     (if occurrences le_target es t = 0 then None else Some (occurrences le_target es t))"
proof (induction es arbitrary: t rule: rev_induct)
  case (snoc e es)
  define m where "m = fold count_target es []"
  have "distinct (map fst m)" using snoc by (simp add: m_def)
  moreover have "map_of m (le_target e) =
      (if occurrences le_target es (le_target e) = 0 then None else Some (occurrences le_target es (le_target e)))"
    "map_of m t = (if occurrences le_target es t = 0 then None else Some (occurrences le_target es t))"
    using snoc unfolding m_def by blast+
  ultimately have "distinct (map fst (count_target e m)) \<and> map_of (count_target e m) t =
      (if occurrences le_target (es @ [e]) t = 0 then None else Some (occurrences le_target (es @ [e]) t))"
    by (simp add: count_target_def hm_entry_lookup hm_entry_distinct occurrences_snoc)
  then show ?case by (simp add: m_def)
qed (simp add: occurrences_def)

lemma templates_counted:
  "distinct (map fst (fold count_template es [])) \<and>
   map_option ts_count (map_of (fold count_template es []) k) =
     (if occurrences template_key es k = 0 then None else Some (occurrences template_key es k))"
proof (induction es arbitrary: k rule: rev_induct)
  case (snoc e es)
  define m where "m = fold count_template es []"
  have "distinct (map fst m)" using snoc by (simp add: m_def)
  have "map_option ts_count (map_of m (template_key e)) =
      (if occurrences template_key es (template_key e) = 0 then None
       else Some (occurrences template_key es (template_key e)))"
    "map_option ts_count (map_of m k) =
      (if occurrences template_key es k = 0 then None else Some (occurrences template_key es k))"
    using snoc unfolding m_def by blast+
  then have "map_option ts_count (map_of (count_template e m) k) =
      (if occurrences template_key (es @ [e]) k = 0 then None else Some (occurrences template_key (es @ [e]) k))"
    by (cases "map_of m (template_key e)")
       (auto simp: count_template_def hm_entry_lookup occurrences_snoc split: if_splits)
  moreover have "distinct (map fst (count_template e m))"
    using \<open>distinct (map fst m)\<close> by (simp add: count_template_def hm_entry_distinct)
  ultimately show ?case by (simp add: m_def)
qed (simp add: occurrences_def)

lemma recent_kept:
  "fold (push_recent recent) es [] = take_last recent (filter (\<lambda>e. le_level e \<ge> Warn) es)"
proof (induction es rule: rev_induct)
  case (snoc e es)
  let ?w = "filter (\<lambda>e. le_level e \<ge> Warn) es"
  have "(if length (take_last recent ?w @ [e]) > recent then tl (take_last recent ?w @ [e]) else take_last recent ?w @ [e]) =
      take_last recent (?w @ [e])"
  proof (cases "recent = 0")
    case False
    have "take_last recent ?w \<noteq> []" if "recent \<le> length ?w"
      using that False length_take_last [of recent ?w] by (metis list.size(3) min.absorb1)
    then show ?thesis
      using take_last_push [of recent ?w e] False by (cases "recent \<le> length ?w") auto
  qed simp
  then show ?case using snoc by (simp add: push_recent_def Let_def)
qed simp

lemma level_map_lookup: "map_of (level_map counts) (level_name l) = Some (counts ! level_index l)"
  by (cases l) (simp_all add: level_map_def bt_insert_lookup)

lemma levels_counted:
  "length (fold (\<lambda>e c. c[level_index (le_level e) := c ! level_index (le_level e) + 1]) es c) = length c \<and>
   (length c = 5 \<longrightarrow>
    fold (\<lambda>e c. c[level_index (le_level e) := c ! level_index (le_level e) + 1]) es c ! level_index l =
      c ! level_index l + occurrences le_level es l)"
proof (induction es arbitrary: c)
  case (Cons e es)
  then show ?case
    using level_index_less [of "le_level e"]
    by (auto simp: occurrences_def nth_list_update level_index_inj)
qed (simp add: occurrences_def)

lemma panics_kept:
  "fold (\<lambda>e ps. if le_source e = Src_Panic then ps @ [e] else ps) es ps =
   ps @ filter (\<lambda>e. le_source e = Src_Panic) es"
  by (induction es arbitrary: ps) simp_all

lemma busier_sorted: "sorted_wrt busier (sort_by busier xs)"
  by (rule sort_by_sorted) (auto simp: busier_def)

lemma worse_sorted: "sorted_wrt worse (sort_by worse xs)"
  by (rule sort_by_sorted) (auto simp: worse_def)

definition repeated_key :: "repeated_message \<Rightarrow> template_key" where
  "repeated_key r = (rm_level r, rm_target r, rm_template r)"

lemma to_repeated_simps [simp]:
  "repeated_key (to_repeated (k, s)) = k" "rm_count (to_repeated (k, s)) = ts_count s"
  by (simp_all add: repeated_key_def to_repeated_def case_prod_beta)

lemma mset_distinct_keys:
  "mset xs = mset ys \<Longrightarrow> distinct (map fst ys) \<Longrightarrow> distinct (map fst xs) \<and> set xs = set ys"
  by (metis mset_eq_setD mset_map mset_eq_imp_distinct_iff)

lemma top_targets_exact:
  assumes "mset ts = mset (fold count_target es [])"
  shows "sorted_wrt busier (sort_by busier ts) \<and> distinct (map fst (sort_by busier ts)) \<and>
    set (sort_by busier ts) = {(t, occurrences le_target es t) | t. t \<in> le_target ` set es}"
proof -
  let ?m = "fold count_target es []"
  have dist: "distinct (map fst ?m)" using targets_counted by blast
  have "mset (sort_by busier ts) = mset ?m" using assms by (simp add: sort_by_mset)
  from mset_distinct_keys [OF this dist]
  have d: "distinct (map fst (sort_by busier ts))" "set (sort_by busier ts) = set ?m" by blast+
  have "(t, n) \<in> set ?m \<longleftrightarrow> t \<in> le_target ` set es \<and> n = occurrences le_target es t" for t n
  proof -
    have "(t, n) \<in> set ?m \<longleftrightarrow> map_of ?m t = Some n" using dist by simp
    also have "\<dots> \<longleftrightarrow> t \<in> le_target ` set es \<and> n = occurrences le_target es t"
      using targets_counted [of es t] occurrences_pos [of le_target es t] by (auto simp del: map_of_eq_Some_iff)
    finally show ?thesis .
  qed
  then show ?thesis using d busier_sorted by auto
qed

lemma fst_filter: "fst ` set (filter (\<lambda>(k, v). p v) xs) = {k. \<exists>v. (k, v) \<in> set xs \<and> p v}"
  by (auto simp: image_def)

lemma repeated_exact:
  assumes "mset ts = mset (fold count_template es [])"
  defines "rs \<equiv> sort_by worse (map to_repeated (filter (\<lambda>(k, s). ts_count s > 1) ts))"
  shows "sorted_wrt worse rs \<and> distinct (map repeated_key rs) \<and>
    (\<forall>r \<in> set rs. rm_count r = occurrences template_key es (repeated_key r)) \<and>
    repeated_key ` set rs = {k. occurrences template_key es k > 1}"
proof -
  let ?m = "fold count_template es []"
  have dist: "distinct (map fst ?m)" using templates_counted by blast
  from mset_distinct_keys [OF assms(1) dist]
  have d: "distinct (map fst ts)" "set ts = set ?m" by blast+
  have count: "(\<exists>s. (k, s) \<in> set ts \<and> ts_count s = n) \<longleftrightarrow> 0 < n \<and> n = occurrences template_key es k" for k n
  proof -
    have "(\<exists>s. (k, s) \<in> set ts \<and> ts_count s = n) \<longleftrightarrow> map_option ts_count (map_of ?m k) = Some n"
      using dist d(2) by auto
    also have "\<dots> \<longleftrightarrow> 0 < n \<and> n = occurrences template_key es k"
      using templates_counted [of es k] by auto
    finally show ?thesis .
  qed
  let ?f = "filter (\<lambda>(k, s). ts_count s > 1) ts"
  have set_rs: "set rs = to_repeated ` set ?f" by (simp add: rs_def)
  have keys: "map repeated_key (map to_repeated ?f) = map fst ?f" by (simp add: case_prod_beta)
  have "distinct (map fst ?f)" using d(1) by (rule distinct_map_filter)
  moreover have "mset (map repeated_key rs) = mset (map fst ?f)"
    unfolding rs_def sort_by_map_mset keys ..
  ultimately have distinct: "distinct (map repeated_key rs)" by (metis mset_eq_imp_distinct_iff)
  have counts: "rm_count r = occurrences template_key es (repeated_key r)" if r: "r \<in> set rs" for r
  proof -
    obtain k s where "r = to_repeated (k, s)" "(k, s) \<in> set ts" using r unfolding set_rs by fastforce
    then show ?thesis using count [of k "ts_count s"] by auto
  qed
  have "k \<in> repeated_key ` set rs \<longleftrightarrow> occurrences template_key es k > 1" for k
  proof -
    have "k \<in> repeated_key ` set rs \<longleftrightarrow> (\<exists>s. (k, s) \<in> set ts \<and> ts_count s > 1)"
    proof -
      have "repeated_key ` set rs = set (map repeated_key (map to_repeated ?f))" by (simp only: set_rs set_map)
      also have "\<dots> = fst ` set ?f" unfolding keys by simp
      also have "\<dots> = {k. \<exists>s. (k, s) \<in> set ts \<and> ts_count s > 1}" by (rule fst_filter)
      finally show ?thesis by blast
    qed
    also have "\<dots> \<longleftrightarrow> (\<exists>n > 1. \<exists>s. (k, s) \<in> set ts \<and> ts_count s = n)" by blast
    also have "\<dots> \<longleftrightarrow> occurrences template_key es k > 1" unfolding count by auto
    finally show ?thesis .
  qed
  then have "repeated_key ` set rs = {k. occurrences template_key es k > 1}" by blast
  then show ?thesis using distinct counts worse_sorted [of "map to_repeated ?f"] unfolding rs_def by blast
qed

text \<open>
  The digest is exact: whatever order the hash maps iterate in, its per-level counts are those of
  everything logged and of the buffer, the listed targets are the busiest ones with the number of their
  buffered records, the repeated messages are the most severe and most frequent of the groups with more
  than one record and carry the size of their group, the recent problems are the newest warnings and
  errors, and every buffered panic is there.
\<close>

theorem log_digest_exact:
  assumes "\<And>m. mset (iter_targets m) = mset m" "\<And>m. mset (iter_templates m) = mset m"
  shows "let d = log_digest iter_targets iter_templates b recent most; es = rg_entries (lb_ring b)
    in (\<forall>l. map_of (ld_lifetime_counts d) (level_name l) = Some (rg_totals (lb_ring b) ! level_index l) \<and>
            map_of (ld_buffered_counts d) (level_name l) = Some (occurrences le_level es l)) \<and>
       (\<exists>ts. ld_top_targets d = take most ts \<and> sorted_wrt busier ts \<and> distinct (map fst ts) \<and>
            set ts = {(t, occurrences le_target es t) | t. t \<in> le_target ` set es}) \<and>
       (\<exists>rs. ld_repeated d = take most rs \<and> sorted_wrt worse rs \<and> distinct (map repeated_key rs) \<and>
            (\<forall>r \<in> set rs. rm_count r = occurrences template_key es (repeated_key r)) \<and>
            repeated_key ` set rs = {k. occurrences template_key es k > 1}) \<and>
       ld_recent_problems d = take_last recent (filter (\<lambda>e. le_level e \<ge> Warn) es) \<and>
       ld_panics d = filter (\<lambda>e. le_source e = Src_Panic) es"
proof -
  let ?es = "rg_entries (lb_ring b)"
  let ?d = "log_digest iter_targets iter_templates b recent most"
  have zero: "[0, 0, 0, 0, 0 :: nat] ! level_index l = 0" for l by (cases l) simp_all
  have fields: "ld_lifetime_counts ?d = level_map (rg_totals (lb_ring b))"
    "ld_buffered_counts ?d =
      level_map (fold (\<lambda>e c. c[level_index (le_level e) := c ! level_index (le_level e) + 1]) ?es [0, 0, 0, 0, 0])"
    "ld_top_targets ?d = take most (sort_by busier (iter_targets (fold count_target ?es [])))"
    "ld_repeated ?d = take most (sort_by worse
      (map to_repeated (filter (\<lambda>(k, s). ts_count s > 1) (iter_templates (fold count_template ?es [])))))"
    "ld_recent_problems ?d = take_last recent (filter (\<lambda>e. le_level e \<ge> Warn) ?es)"
    "ld_panics ?d = filter (\<lambda>e. le_source e = Src_Panic) ?es"
    using panics_kept [of ?es "[]"] by (simp_all add: log_digest_def Let_def recent_kept)
  have counted: "fold (\<lambda>e c. c[level_index (le_level e) := c ! level_index (le_level e) + 1]) ?es [0, 0, 0, 0, 0]
      ! level_index l = occurrences le_level ?es l" for l
    using levels_counted [of ?es "[0, 0, 0, 0, 0]" l] zero [of l] by simp
  show ?thesis
    unfolding Let_def fields level_map_lookup counted
    using top_targets_exact [OF assms(1)] repeated_exact [OF assms(2)] by blast
qed

lemma log_digest_exact_witness:
  "let b = fold (\<lambda>e. log_push False e) [example_entry ''n1'', example_entry ''n22''] (log_buffer_new 2 300);
       d = log_digest (\<lambda>m. m) (\<lambda>m. m) b 5 5
   in map rm_template (ld_repeated d) = [''n#''] \<and> map rm_count (ld_repeated d) = [2] \<and>
      map_of (ld_buffered_counts d) ''warn'' = Some (occurrences le_level (rg_entries (lb_ring b)) Warn)"
proof -
  let ?b = "fold (\<lambda>e. log_push False e) [example_entry ''n1'', example_entry ''n22''] (log_buffer_new 2 300)"
  have "map rm_template (ld_repeated (log_digest (\<lambda>m. m) (\<lambda>m. m) ?b 5 5)) = [''n#'']"
    "map rm_count (ld_repeated (log_digest (\<lambda>m. m) (\<lambda>m. m) ?b 5 5)) = [2]"
    by (code_simp, code_simp)
  moreover have "map_of (ld_buffered_counts (log_digest (\<lambda>m. m) (\<lambda>m. m) ?b 5 5)) (level_name Warn) =
      Some (occurrences le_level (rg_entries (lb_ring ?b)) Warn)"
    using log_digest_exact [of "\<lambda>m. m" "\<lambda>m. m" ?b 5 5] by (simp only: Let_def)
  ultimately show ?thesis by (simp only: Let_def level_name.simps simp_thms)
qed

end
