(* ===== verification/Screencast.thy ===== *)
theory Screencast
  imports Recording
begin

text \<open>
  \<^verbatim>\<open>crates/victauri-plugin/src/screencast.rs\<close>: the ring buffer of captured frames behind
  the \<^verbatim>\<open>trace\<close> tool, the generation that tells a capture task whether it is still the
  current one, and the drop guard that ends a trace and the recording it owns.  The trace lock
  makes each method atomic with respect to the others.
\<close>

section \<open>State and operations\<close>

definition MAX_TRACE_BYTES :: usize where
  "MAX_TRACE_BYTES = 256 * 1024 * 1024"

definition MAX_INTERVAL_MS :: u64 where
  "MAX_INTERVAL_MS = 60000"

record trace_frame =
  tf_t_ms :: u64
  tf_data_b64 :: string

record trace_state =
  ts_active :: bool
  ts_generation :: u64
  ts_owned_recording :: "u64 option"

record screencast =
  sc_interval_ms :: u64
  sc_max_frames :: usize
  sc_trace :: trace_state
  sc_frames :: "trace_frame list"
  sc_label :: "string option"

definition screencast_default :: screencast where
  "screencast_default =
     \<lparr> sc_interval_ms = 500, sc_max_frames = 60,
       sc_trace = \<lparr> ts_active = False, ts_generation = 0, ts_owned_recording = None \<rparr>,
       sc_frames = [], sc_label = None \<rparr>"

definition clamp :: "nat \<Rightarrow> nat \<Rightarrow> nat \<Rightarrow> nat" where
  "clamp lo hi x = (if x < lo then lo else if x > hi then hi else x)"

definition sc_start ::
  "u64 \<Rightarrow> usize \<Rightarrow> string option \<Rightarrow> screencast \<Rightarrow> (u64 \<times> u64 option) \<times> screencast" where
  "sc_start interval_ms max_frames label s =
     (let t = sc_trace s;
          g = ts_generation t + 1
      in ((g, ts_owned_recording t),
          s\<lparr>sc_interval_ms := clamp 50 MAX_INTERVAL_MS interval_ms,
            sc_max_frames := clamp 1 600 max_frames,
            sc_frames := [], sc_label := label,
            sc_trace := \<lparr> ts_active = True, ts_generation = g, ts_owned_recording = None \<rparr>\<rparr>))"

definition sc_stop :: "screencast \<Rightarrow> (usize \<times> u64 option) \<times> screencast" where
  "sc_stop s =
     (let t = sc_trace s
      in ((length (sc_frames s), ts_owned_recording t),
          s\<lparr>sc_trace := \<lparr> ts_active = False, ts_generation = ts_generation t + 1,
                           ts_owned_recording = None \<rparr>\<rparr>))"

definition sc_is_active :: "screencast \<Rightarrow> bool" where
  "sc_is_active s = ts_active (sc_trace s)"

definition sc_generation :: "screencast \<Rightarrow> u64" where
  "sc_generation s = ts_generation (sc_trace s)"

definition is_current :: "u64 \<Rightarrow> screencast \<Rightarrow> bool" where
  "is_current g s = (ts_active (sc_trace s) \<and> ts_generation (sc_trace s) = g)"

definition frames_bytes :: "trace_frame list \<Rightarrow> nat" where
  "frames_bytes fs = sum_list (map (\<lambda>f. length (tf_data_b64 f)) fs)"

text \<open>The eviction loop: it stops at the byte limit or at the newest frame.\<close>

fun evict_bytes :: "nat \<Rightarrow> nat \<Rightarrow> trace_frame list \<Rightarrow> trace_frame list" where
  "evict_bytes max_bytes tot (f # g # fs) =
     (if tot > max_bytes then evict_bytes max_bytes (tot - length (tf_data_b64 f)) (g # fs)
      else f # g # fs)"
| "evict_bytes max_bytes tot fs = fs"

definition push_frame_capped :: "u64 \<Rightarrow> string \<Rightarrow> usize \<Rightarrow> screencast \<Rightarrow> screencast" where
  "push_frame_capped t_ms data max_bytes s =
     (let mx = sc_max_frames s;
          f = sc_frames s @ [\<lparr> tf_t_ms = t_ms, tf_data_b64 = data \<rparr>];
          f = (if length f > mx then drop (length f - mx) f else f);
          tot = frames_bytes f
      in s\<lparr>sc_frames := evict_bytes max_bytes tot f\<rparr>)"

definition push_frame :: "u64 \<Rightarrow> string \<Rightarrow> screencast \<Rightarrow> screencast" where
  "push_frame t_ms data s = push_frame_capped t_ms data MAX_TRACE_BYTES s"

definition push_frame_if_current :: "u64 \<Rightarrow> u64 \<Rightarrow> string \<Rightarrow> screencast \<Rightarrow> bool \<times> screencast" where
  "push_frame_if_current g t_ms data s =
     (if \<not> (ts_active (sc_trace s) \<and> ts_generation (sc_trace s) = g) then (False, s)
      else (True, push_frame t_ms data s))"

definition set_owned_recording :: "u64 \<Rightarrow> u64 \<Rightarrow> screencast \<Rightarrow> bool \<times> screencast" where
  "set_owned_recording g rg s =
     (let t = sc_trace s
      in if ts_active t \<and> ts_generation t = g
         then (True, s\<lparr>sc_trace := t\<lparr>ts_owned_recording := Some rg\<rparr>\<rparr>) else (False, s))"

definition sc_stop_if_generation :: "u64 \<Rightarrow> screencast \<Rightarrow> u64 option option \<times> screencast" where
  "sc_stop_if_generation g s =
     (let t = sc_trace s
      in if ts_active t \<and> ts_generation t = g
         then (Some (ts_owned_recording t),
               s\<lparr>sc_trace := \<lparr> ts_active = False, ts_generation = ts_generation t + 1,
                                ts_owned_recording = None \<rparr>\<rparr>)
         else (None, s))"

definition frame_count :: "screencast \<Rightarrow> usize" where
  "frame_count s = length (sc_frames s)"

definition sc_frames_limit :: "usize \<Rightarrow> screencast \<Rightarrow> trace_frame list" where
  "sc_frames_limit limit s =
     (let f = sc_frames s
      in if limit = 0 \<or> limit \<ge> length f then f else drop (length f - limit) f)"

definition frame_timestamps :: "screencast \<Rightarrow> u64 list" where
  "frame_timestamps s = map tf_t_ms (sc_frames s)"

text \<open>\<^verbatim>\<open>CaptureTaskGuard::drop\<close>, over the screencast and the recorder it holds.\<close>

definition capture_guard_drop :: "u64 \<Rightarrow> screencast \<times> event_recorder \<Rightarrow> screencast \<times> event_recorder" where
  "capture_guard_drop g sr =
     (case sc_stop_if_generation g (fst sr) of
        (Some (Some owned), s) \<Rightarrow> (s, snd (stop_if_generation owned (snd sr)))
      | (_, s) \<Rightarrow> (s, snd sr))"

section \<open>The frame buffer\<close>

lemma frames_bytes_simps [simp]:
  "frames_bytes [] = 0"
  "frames_bytes (f # fs) = length (tf_data_b64 f) + frames_bytes fs"
  by (simp_all add: frames_bytes_def)

lemma evict_bytes_suffix: "suffix (evict_bytes b t fs) fs"
  by (induction b t fs rule: evict_bytes.induct) (auto simp: suffix_Cons)

lemma evict_bytes_last: "fs \<noteq> [] \<Longrightarrow> evict_bytes b t fs \<noteq> [] \<and> last (evict_bytes b t fs) = last fs"
  by (induction b t fs rule: evict_bytes.induct) auto

lemma evict_bytes_bound:
  "frames_bytes (evict_bytes b (frames_bytes fs) fs) \<le> b \<or> length (evict_bytes b (frames_bytes fs) fs) \<le> 1"
proof (induction b "frames_bytes fs" fs rule: evict_bytes.induct)
  case (1 b f g fs)
  then show ?case by (cases "b < frames_bytes (f # g # fs)") simp_all
qed simp_all

text \<open>Nothing is evicted that would still have fitted.\<close>

lemma evict_bytes_longest:
  "suffix ys fs \<Longrightarrow> frames_bytes ys \<le> b \<Longrightarrow>
   length ys \<le> length (evict_bytes b (frames_bytes fs) fs)"
proof (induction b "frames_bytes fs" fs arbitrary: ys rule: evict_bytes.induct)
  case (1 b f g fs)
  show ?case
  proof (cases "b < frames_bytes (f # g # fs)")
    case True
    with 1 have "ys \<noteq> f # g # fs" by auto
    with "1.prems"(1) have "suffix ys (g # fs)" by (simp add: suffix_Cons)
    with 1 True show ?thesis by simp
  next
    case False
    with suffix_length_le [OF "1.prems"(1)] show ?thesis by simp
  qed
qed (auto dest: suffix_length_le)

lemma push_frame_capped_frames:
  "sc_frames (push_frame_capped t d b s) =
     (let f = take_last (sc_max_frames s) (sc_frames s @ [\<lparr> tf_t_ms = t, tf_data_b64 = d \<rparr>])
      in evict_bytes b (frames_bytes f) f)"
  by (simp add: push_frame_capped_def take_last_def Let_def)

lemma suffix_take_last_iff: "suffix ys (take_last n xs) \<longleftrightarrow> suffix ys xs \<and> length ys \<le> n"
proof
  assume "suffix ys (take_last n xs)"
  then show "suffix ys xs \<and> length ys \<le> n"
    using suffix_length_le [of ys "take_last n xs"] suffix_order.trans [of ys "take_last n xs" xs] by simp
next
  assume a: "suffix ys xs \<and> length ys \<le> n"
  then have "suffix ys xs" "suffix (take_last n xs) xs" "length ys \<le> length (take_last n xs)"
    using suffix_length_le [of ys xs] by simp_all
  then show "suffix ys (take_last n xs)" using suffix_length_suffix by blast
qed

section \<open>Generations\<close>

text \<open>Every method that changes the trace state, with any arguments, by any thread.\<close>

inductive sc_step :: "screencast \<Rightarrow> screencast \<Rightarrow> bool" where
  start: "sc_step s (snd (sc_start i m l s))"
| stop: "sc_step s (snd (sc_stop s))"
| stop_gen: "sc_step s (snd (sc_stop_if_generation g s))"
| push: "sc_step s (snd (push_frame_if_current g t d s))"
| own: "sc_step s (snd (set_owned_recording g rg s))"

lemmas sc_defs = sc_start_def sc_stop_def sc_stop_if_generation_def push_frame_if_current_def
  set_owned_recording_def push_frame_def push_frame_capped_def

definition sc_current :: "screencast \<Rightarrow> u64 option" where
  "sc_current s = (if ts_active (sc_trace s) then Some (ts_generation (sc_trace s)) else None)"

definition sc_live :: "screencast \<Rightarrow> nat set" where
  "sc_live s = set_option (sc_current s) \<union> {g. ts_generation (sc_trace s) < g}"

interpretation sc_owner: generation_owner "\<lambda>_. True" sc_step sc_current sc_live
proof
  show "sc_step s t \<Longrightarrow> sc_live t \<subseteq> sc_live s" for s t
    by (induction rule: sc_step.induct) (auto simp: sc_defs sc_live_def sc_current_def Let_def)
  show "sc_step s t \<Longrightarrow> sc_current s = Some g \<Longrightarrow> sc_current t \<noteq> Some g \<Longrightarrow> g \<notin> sc_live t" for s t g
    by (induction rule: sc_step.induct)
      (auto simp: sc_defs sc_live_def sc_current_def Let_def split: if_splits)
qed (simp_all add: sc_live_def)

lemma not_current_sc_refused:
  assumes "sc_current s \<noteq> Some g"
  shows "push_frame_if_current g t d s = (False, s)"
    and "sc_stop_if_generation g s = (None, s)"
    and "set_owned_recording g rg s = (False, s)"
  using assms by (auto simp: sc_current_def sc_defs split: if_splits)

section \<open>Properties\<close>

text \<open>
  The frame buffer keeps the longest suffix that fits.  After a frame is pushed the buffer
  ends with that frame, is a suffix of the old buffer with the frame appended, holds at most
  \<open>max_frames\<close> frames and at most \<open>max_bytes\<close> bytes of image data (the newest frame is kept
  even if it alone is larger), and no longer suffix would have met both limits.
\<close>

theorem push_frame_longest_suffix:
  assumes "0 < sc_max_frames s"
  shows "let fs = sc_frames (push_frame_capped t d b s);
             all = sc_frames s @ [\<lparr> tf_t_ms = t, tf_data_b64 = d \<rparr>]
         in fs \<noteq> [] \<and> last fs = \<lparr> tf_t_ms = t, tf_data_b64 = d \<rparr> \<and> suffix fs all \<and>
            length fs \<le> sc_max_frames s \<and> (frames_bytes fs \<le> b \<or> length fs = 1) \<and>
            (\<forall>ys. suffix ys all \<and> length ys \<le> sc_max_frames s \<and> frames_bytes ys \<le> b \<longrightarrow>
                  length ys \<le> length fs)"
proof -
  define new where "new = \<lparr> tf_t_ms = t, tf_data_b64 = d \<rparr>"
  define f where "f = take_last (sc_max_frames s) (sc_frames s @ [new])"
  define fs where "fs = evict_bytes b (frames_bytes f) f"
  have eq: "sc_frames (push_frame_capped t d b s) = fs"
    by (simp add: push_frame_capped_frames fs_def f_def new_def Let_def)
  have f: "f \<noteq> []" "last f = new"
    using assms by (simp_all add: f_def take_last_push)
  have suf: "suffix fs f" by (simp add: fs_def evict_bytes_suffix)
  then have "suffix fs (sc_frames s @ [new])" "length fs \<le> sc_max_frames s"
    unfolding f_def suffix_take_last_iff by blast+
  moreover have "fs \<noteq> []" "last fs = new"
    using evict_bytes_last [of f b "frames_bytes f"] f by (simp_all add: fs_def)
  moreover have "frames_bytes fs \<le> b \<or> length fs = 1"
    using evict_bytes_bound [of b f] \<open>fs \<noteq> []\<close> by (cases fs) (auto simp: fs_def)
  moreover have "length ys \<le> length fs"
    if "suffix ys (sc_frames s @ [new])" "length ys \<le> sc_max_frames s" "frames_bytes ys \<le> b" for ys
    using that evict_bytes_longest [of ys f b] by (simp add: fs_def f_def suffix_take_last_iff)
  ultimately show ?thesis
    unfolding eq new_def [symmetric] Let_def by blast
qed

theorem push_frame_longest_suffix_witness:
  "length (sc_frames (push_frame_capped 7 ''abc'' 4 screencast_default)) \<le> 60"
  using push_frame_longest_suffix [of screencast_default 7 "''abc''" 4]
  by (simp add: screencast_default_def Let_def)

text \<open>
  A stale capture task can do nothing.  Once the trace of generation \<open>g\<close> is no longer the
  active one, no sequence of operations lets a holder of \<open>g\<close> insert a frame, stop a trace or
  attach a recording; and dropping its guard leaves both the screencast and the event recorder
  exactly as they were.
\<close>

theorem stale_capture_task_harmless:
  assumes "sc_current s = Some g" "sc_step s t" "sc_current t \<noteq> Some g" "sc_step\<^sup>*\<^sup>* t u"
  shows "push_frame_if_current g ms d u = (False, u) \<and>
         set_owned_recording g rg u = (False, u) \<and>
         sc_stop_if_generation g u = (None, u) \<and>
         capture_guard_drop g (u, r) = (u, r)"
proof -
  have "sc_current u \<noteq> Some g"
    by (rule sc_owner.never_current_again [OF TrueI assms(2,1,3,4)])
  note refused = not_current_sc_refused [OF this]
  show ?thesis by (simp add: refused capture_guard_drop_def)
qed

theorem stale_capture_task_harmless_witness:
  "let s = snd (sc_start 100 5 None screencast_default);
       t = snd (sc_start 100 5 None s)
   in push_frame_if_current 1 0 ''x'' t = (False, t) \<and>
      capture_guard_drop 1 (t, recorder_new 3) = (t, recorder_new 3)"
proof -
  define s where "s = snd (sc_start 100 5 None screencast_default)"
  define t where "t = snd (sc_start 100 5 None s)"
  have c: "sc_current s = Some 1" "sc_current t \<noteq> Some 1"
    by (simp_all add: s_def t_def screencast_default_def sc_start_def sc_current_def Let_def)
  have st: "sc_step s t" unfolding t_def by (rule sc_step.start)
  show ?thesis
    using stale_capture_task_harmless [OF c(1) st c(2) rtranclp.rtrancl_refl]
    by (simp add: Let_def flip: s_def t_def)
qed

text \<open>
  Ending a trace ends exactly the recording it owns.  If the trace of generation \<open>g\<close> is
  current and owns the recording of recorder generation \<open>rg\<close>, its guard stops that recording
  when it is still the active one, keeping it as the last session, and leaves a different
  active recording untouched; the trace ends and owns nothing.
\<close>

theorem capture_guard_stops_owned:
  assumes "is_current g s" "ts_owned_recording (sc_trace s) = Some rg"
  shows "snd (capture_guard_drop g (s, r)) =
           (if generation r = Some rg
            then r\<lparr>er_recording := None, er_last_session := map_option session_of (er_recording r)\<rparr>
            else r) \<and>
         \<not> sc_is_active (fst (capture_guard_drop g (s, r))) \<and>
         ts_owned_recording (sc_trace (fst (capture_guard_drop g (s, r)))) = None"
  using assms
  by (auto simp: capture_guard_drop_def sc_stop_if_generation_def is_current_def sc_is_active_def
      stop_if_generation_def finish_def generation_def Let_def split: option.splits)

theorem capture_guard_stops_owned_witness:
  "let s = snd (set_owned_recording 1 1 (snd (sc_start 100 5 None screencast_default)));
       r = snd (start_session ''x'' 0 (recorder_new 3))
   in \<not> is_recording (snd (capture_guard_drop 1 (s, r)))"
proof -
  let ?s = "snd (set_owned_recording 1 1 (snd (sc_start 100 5 None screencast_default)))"
  let ?r = "snd (start_session ''x'' 0 (recorder_new 3))"
  have "is_current 1 ?s" "ts_owned_recording (sc_trace ?s) = Some 1" "generation ?r = Some 1"
    by (simp_all add: screencast_default_def sc_defs is_current_def recorder_new_def recording_defs Let_def)
  then show ?thesis
    using capture_guard_stops_owned [of 1 ?s 1 ?r] by (simp add: Let_def is_recording_def)
qed

end
