(* ===== verification/Security.thy ===== *)
theory Security
  imports Victauri_Prelude "HOL-Library.Word"
begin

unbundle bit_operations_syntax

text \<open>
  \<^verbatim>\<open>crates/victauri-core/src/security.rs\<close>: constant-time comparison, the token-bucket rate
  limiter and the host and origin checks of the localhost server.  \<^verbatim>\<open>uuid\<close> (token generation)
  and \<^verbatim>\<open>url::Url::parse\<close> are libraries: the parsed URL is an argument of \<open>is_allowed_origin\<close>.

  The rate limiter is lock-free.  It is modelled twice: as sequential functions (one thread, u64
  overflow as \<open>None\<close>: the crate's server only runs in debug builds, where overflow panics), and
  as a step relation of any number of threads, each at one of the atomic accesses of
  \<^verbatim>\<open>try_acquire\<close>.  In the step relation a load may return any value at all, which covers every
  stale value \<^verbatim>\<open>Ordering::Relaxed\<close> admits; a compare-and-exchange acts on the current value and
  may fail spuriously.
\<close>

section \<open>Constant-time comparison\<close>

type_synonym byte = "8 word"

definition constant_time_eq :: "byte list \<Rightarrow> byte list \<Rightarrow> bool" where
  "constant_time_eq a b =
     (if length a \<noteq> length b then False
      else fold (\<lambda>(x, y) acc. acc OR (x XOR y)) (zip a b) 0 = 0)"

definition as_bytes :: "string \<Rightarrow> byte list" where
  "as_bytes s = map of_char s"

lemma or_eq_0_iff: "(a OR b = (0 :: 'a :: len word)) \<longleftrightarrow> a = 0 \<and> b = 0"
  by (auto simp: bit_eq_iff bit_or_iff)

lemma xor_eq_0_iff: "(a XOR b = (0 :: 'a :: len word)) \<longleftrightarrow> a = b"
  by (auto simp: bit_eq_iff bit_xor_iff)

lemma ct_fold_eq_0:
  "length a = length b \<Longrightarrow>
   (fold (\<lambda>(x, y) acc. acc OR (x XOR y)) (zip a b) z = 0) \<longleftrightarrow> z = 0 \<and> a = (b :: byte list)"
  by (induction a b arbitrary: z rule: list_induct2) (auto simp: or_eq_0_iff xor_eq_0_iff)

lemma constant_time_eq_iff: "constant_time_eq a b \<longleftrightarrow> a = b"
  by (auto simp: constant_time_eq_def ct_fold_eq_0)

lemma of_char_byte_inj: "(of_char c :: byte) = of_char d \<longleftrightarrow> c = d"
proof
  assume "(of_char c :: byte) = of_char d"
  then have "unat (word_of_nat (of_char c) :: byte) = unat (word_of_nat (of_char d) :: byte)"
    by (simp add: of_nat_of_char)
  then have "(of_char c :: nat) = of_char d" by (simp add: unat_of_nat)
  then show "c = d" by simp
qed simp

lemma as_bytes_inj [simp]: "as_bytes s = as_bytes t \<longleftrightarrow> s = t"
proof -
  have "inj (of_char :: char \<Rightarrow> byte)" by (rule injI) (simp add: of_char_byte_inj)
  then show ?thesis by (simp add: as_bytes_def inj_map_eq_map)
qed

lemma as_bytes_drop: "drop n (as_bytes s) = as_bytes (drop n s)"
  by (simp add: as_bytes_def drop_map)

section \<open>Rate limiter: sequential behaviour\<close>

record rate_limiter =
  rl_tokens :: u64
  rl_max_tokens :: u64
  rl_last_refill_ms :: u64
  rl_refill_rate_per_sec :: u64

definition DEFAULT_RATE_LIMIT :: u64 where
  "DEFAULT_RATE_LIMIT = 1000"

definition rate_limiter_new :: "u64 \<Rightarrow> rate_limiter" where
  "rate_limiter_new max_requests_per_sec =
     \<lparr> rl_tokens = max_requests_per_sec, rl_max_tokens = max_requests_per_sec,
       rl_last_refill_ms = 0, rl_refill_rate_per_sec = max_requests_per_sec \<rparr>"

definition max_tokens :: "rate_limiter \<Rightarrow> u64" where
  "max_tokens l = rl_max_tokens l"

definition current_tokens :: "rate_limiter \<Rightarrow> u64" where
  "current_tokens l = rl_tokens l"

text \<open>The tokens \<open>refill\<close> would add at time \<open>now\<close> after a refill at \<open>last\<close>.\<close>

definition refill_amount :: "u64 \<Rightarrow> u64 \<Rightarrow> u64 \<Rightarrow> u64" where
  "refill_amount rate lst now = sat_sub now lst * rate div 1000"

text \<open>\<open>None\<close>: the multiplication or the addition overflows 64 bits.\<close>

definition refill :: "u64 \<Rightarrow> rate_limiter \<Rightarrow> rate_limiter option" where
  "refill now l =
     (let lst = rl_last_refill_ms l;
          elapsed_ms = sat_sub now lst
      in if elapsed_ms = 0 then Some l
         else if elapsed_ms * rl_refill_rate_per_sec l > u64_max then None
         else let add = elapsed_ms * rl_refill_rate_per_sec l div 1000
              in if add = 0 then Some l
                 else if rl_tokens l + add > u64_max then None
                 else Some (l\<lparr>rl_last_refill_ms := now,
                              rl_tokens := min (rl_tokens l + add) (rl_max_tokens l)\<rparr>))"

definition try_acquire :: "u64 \<Rightarrow> rate_limiter \<Rightarrow> (bool \<times> rate_limiter) option" where
  "try_acquire now l =
     (case refill now l of
        None \<Rightarrow> None
      | Some l \<Rightarrow> (if rl_tokens l = 0 then Some (False, l)
                   else Some (True, l\<lparr>rl_tokens := rl_tokens l - 1\<rparr>)))"

definition rl_inv :: "rate_limiter \<Rightarrow> bool" where
  "rl_inv l = (rl_tokens l \<le> rl_max_tokens l)"

lemma rl_inv_new [simp]: "rl_inv (rate_limiter_new n)"
  by (simp add: rl_inv_def rate_limiter_new_def)

lemma refill_rate_max:
  "refill now l = Some l' \<Longrightarrow>
   rl_max_tokens l' = rl_max_tokens l \<and> rl_refill_rate_per_sec l' = rl_refill_rate_per_sec l \<and>
   (rl_inv l \<longrightarrow> rl_inv l')"
  by (auto simp: refill_def rl_inv_def Let_def split: if_splits)

lemma try_acquire_inv:
  "try_acquire now l = Some (b, l') \<Longrightarrow> rl_inv l \<Longrightarrow> rl_inv l' \<and> rl_max_tokens l' = rl_max_tokens l"
  using refill_rate_max [of now l]
  by (auto simp: try_acquire_def rl_inv_def split: option.splits if_splits)

section \<open>Rate limiter: any number of threads\<close>

text \<open>Where a thread is inside \<^verbatim>\<open>try_acquire\<close>; values it has loaded are carried along.\<close>

datatype rl_pc =
    RL_Idle
  | RL_Now u64                 \<comment> \<open>clock read, about to load \<open>last_refill_ms\<close>\<close>
  | RL_CasLast u64 u64 u64     \<comment> \<open>loaded \<open>last\<close>, \<open>now\<close>, \<open>add\<close>; about to exchange \<open>last_refill_ms\<close>\<close>
  | RL_AddLoad u64             \<comment> \<open>won the exchange; about to load \<open>tokens\<close>\<close>
  | RL_AddCas u64 u64          \<comment> \<open>\<open>add\<close> and the loaded \<open>tokens\<close>; about to exchange \<open>tokens\<close>\<close>
  | RL_AcqLoad                 \<comment> \<open>refill done; about to load \<open>tokens\<close>\<close>
  | RL_AcqCas u64              \<comment> \<open>loaded non-zero \<open>tokens\<close>; about to exchange\<close>

record rl_sys =
  rs_tokens :: u64
  rs_last :: u64
  rs_clock :: u64
  rs_pcs :: "rl_pc list"
  rs_granted :: nat       \<comment> \<open>how many calls have returned \<open>true\<close>\<close>

definition rl_sys_init :: "u64 \<Rightarrow> nat \<Rightarrow> rl_sys" where
  "rl_sys_init mx n =
     \<lparr> rs_tokens = mx, rs_last = 0, rs_clock = 0, rs_pcs = replicate n RL_Idle, rs_granted = 0 \<rparr>"

inductive rl_step :: "u64 \<Rightarrow> u64 \<Rightarrow> rl_sys \<Rightarrow> rl_sys \<Rightarrow> bool" for mx rate where
  tick: "rs_clock s \<le> c \<Longrightarrow> rl_step mx rate s (s\<lparr>rs_clock := c\<rparr>)"
| call: "i < length (rs_pcs s) \<Longrightarrow> rs_pcs s ! i = RL_Idle \<Longrightarrow> now \<le> rs_clock s \<Longrightarrow>
    rl_step mx rate s (s\<lparr>rs_pcs := (rs_pcs s)[i := RL_Now now]\<rparr>)"
| no_refill: "i < length (rs_pcs s) \<Longrightarrow> rs_pcs s ! i = RL_Now now \<Longrightarrow>
    refill_amount rate lst now = 0 \<Longrightarrow>
    rl_step mx rate s (s\<lparr>rs_pcs := (rs_pcs s)[i := RL_AcqLoad]\<rparr>)"
| load_last: "i < length (rs_pcs s) \<Longrightarrow> rs_pcs s ! i = RL_Now now \<Longrightarrow>
    refill_amount rate lst now = add \<Longrightarrow> add \<noteq> 0 \<Longrightarrow>
    rl_step mx rate s (s\<lparr>rs_pcs := (rs_pcs s)[i := RL_CasLast lst now add]\<rparr>)"
| cas_last_ok: "i < length (rs_pcs s) \<Longrightarrow> rs_pcs s ! i = RL_CasLast lst now add \<Longrightarrow>
    rs_last s = lst \<Longrightarrow>
    rl_step mx rate s (s\<lparr>rs_last := now, rs_pcs := (rs_pcs s)[i := RL_AddLoad add]\<rparr>)"
| cas_last_fail: "i < length (rs_pcs s) \<Longrightarrow> rs_pcs s ! i = RL_CasLast lst now add \<Longrightarrow>
    rs_last s \<noteq> lst \<Longrightarrow>
    rl_step mx rate s (s\<lparr>rs_pcs := (rs_pcs s)[i := RL_AcqLoad]\<rparr>)"
| add_load: "i < length (rs_pcs s) \<Longrightarrow> rs_pcs s ! i = RL_AddLoad add \<Longrightarrow>
    rl_step mx rate s (s\<lparr>rs_pcs := (rs_pcs s)[i := RL_AddCas add current]\<rparr>)"
| add_cas_ok: "i < length (rs_pcs s) \<Longrightarrow> rs_pcs s ! i = RL_AddCas add current \<Longrightarrow>
    rs_tokens s = current \<Longrightarrow>
    rl_step mx rate s (s\<lparr>rs_tokens := min (current + add) mx, rs_pcs := (rs_pcs s)[i := RL_AcqLoad]\<rparr>)"
| add_cas_fail: "i < length (rs_pcs s) \<Longrightarrow> rs_pcs s ! i = RL_AddCas add current \<Longrightarrow>
    rl_step mx rate s (s\<lparr>rs_pcs := (rs_pcs s)[i := RL_AddLoad add]\<rparr>)"
| acq_empty: "i < length (rs_pcs s) \<Longrightarrow> rs_pcs s ! i = RL_AcqLoad \<Longrightarrow>
    rl_step mx rate s (s\<lparr>rs_pcs := (rs_pcs s)[i := RL_Idle]\<rparr>)"
| acq_load: "i < length (rs_pcs s) \<Longrightarrow> rs_pcs s ! i = RL_AcqLoad \<Longrightarrow> current \<noteq> 0 \<Longrightarrow>
    rl_step mx rate s (s\<lparr>rs_pcs := (rs_pcs s)[i := RL_AcqCas current]\<rparr>)"
| acq_cas_ok: "i < length (rs_pcs s) \<Longrightarrow> rs_pcs s ! i = RL_AcqCas current \<Longrightarrow>
    rs_tokens s = current \<Longrightarrow>
    rl_step mx rate s (s\<lparr>rs_tokens := current - 1, rs_granted := rs_granted s + 1,
                         rs_pcs := (rs_pcs s)[i := RL_Idle]\<rparr>)"
| acq_cas_fail: "i < length (rs_pcs s) \<Longrightarrow> rs_pcs s ! i = RL_AcqCas current \<Longrightarrow>
    rl_step mx rate s (s\<lparr>rs_pcs := (rs_pcs s)[i := RL_AcqLoad]\<rparr>)"

text \<open>Tokens a thread has been granted by its exchange of \<open>last_refill_ms\<close> and not yet added.\<close>

fun rl_pending :: "rl_pc \<Rightarrow> nat" where
  "rl_pending (RL_AddLoad add) = add"
| "rl_pending (RL_AddCas add _) = add"
| "rl_pending _ = 0"

fun rl_pc_ok :: "u64 \<Rightarrow> u64 \<Rightarrow> rl_pc \<Rightarrow> bool" where
  "rl_pc_ok rate clock (RL_Now now) = (now \<le> clock)"
| "rl_pc_ok rate clock (RL_CasLast lst now add) =
     (now \<le> clock \<and> lst \<le> now \<and> 1000 * add \<le> (now - lst) * rate)"
| "rl_pc_ok rate clock (RL_AcqCas current) = (current \<noteq> 0)"
| "rl_pc_ok _ _ _ = True"

definition rl_sys_inv :: "u64 \<Rightarrow> u64 \<Rightarrow> rl_sys \<Rightarrow> bool" where
  "rl_sys_inv mx rate s =
     (rs_tokens s \<le> mx \<and> rs_last s \<le> rs_clock s \<and>
      (\<forall>pc \<in> set (rs_pcs s). rl_pc_ok rate (rs_clock s) pc) \<and>
      1000 * (rs_granted s + rs_tokens s + sum_list (map rl_pending (rs_pcs s)))
        \<le> 1000 * mx + rs_last s * rate)"

lemma rl_sys_inv_init: "rl_sys_inv mx rate (rl_sys_init mx n)"
proof -
  have "sum_list (map rl_pending (replicate n RL_Idle)) = 0"
    by (induction n) simp_all
  then show ?thesis by (auto simp: rl_sys_inv_def rl_sys_init_def)
qed

text \<open>Moving thread \<open>i\<close> to \<open>pc\<close> changes the pending sum by the difference.\<close>

lemma sum_list_pending_update:
  assumes "i < length pcs"
  shows "sum_list (map rl_pending (pcs[i := pc])) + rl_pending (pcs ! i) =
           sum_list (map rl_pending pcs) + rl_pending pc"
proof -
  have "rl_pending (pcs ! i) \<le> sum_list (map rl_pending pcs)"
    using assms by (intro member_le_sum_list) auto
  moreover have "sum_list (map rl_pending (pcs[i := pc])) =
      sum_list (map rl_pending pcs) + rl_pending pc - rl_pending (pcs ! i)"
    using assms by (simp add: map_update sum_list_update)
  ultimately show ?thesis by simp
qed

lemma rl_pc_ok_mono: "rl_pc_ok rate c pc \<Longrightarrow> c \<le> d \<Longrightarrow> rl_pc_ok rate d pc"
  by (cases pc) auto

lemma pcs_ok_update:
  "\<forall>pc \<in> set pcs. P pc \<Longrightarrow> P pc' \<Longrightarrow> \<forall>pc \<in> set (pcs[i := pc']). P pc"
  using set_update_subset_insert [of pcs i pc'] by blast

lemma refill_amount_le: "refill_amount rate lst now \<noteq> 0 \<Longrightarrow>
   lst \<le> now \<and> 1000 * refill_amount rate lst now \<le> (now - lst) * rate"
  by (auto simp: refill_amount_def split: if_splits intro: ccontr)

lemma rl_thread_move:
  assumes "rl_sys_inv mx rate s" "i < length (rs_pcs s)"
    "rl_pc_ok rate (rs_clock s) pc'" "rl_pending pc' \<le> rl_pending (rs_pcs s ! i)"
  shows "rl_sys_inv mx rate (s\<lparr>rs_pcs := (rs_pcs s)[i := pc']\<rparr>)"
proof -
  have "\<forall>pc \<in> set ((rs_pcs s)[i := pc']). rl_pc_ok rate (rs_clock s) pc"
    using assms(1,3) by (intro pcs_ok_update) (simp_all add: rl_sys_inv_def)
  moreover have "sum_list (map rl_pending ((rs_pcs s)[i := pc'])) \<le> sum_list (map rl_pending (rs_pcs s))"
    using sum_list_pending_update [OF assms(2), of pc'] assms(4) by linarith
  ultimately show ?thesis using assms(1) by (simp add: rl_sys_inv_def)
qed

lemma rl_thread_ok:
  "rl_sys_inv mx rate s \<Longrightarrow> i < length (rs_pcs s) \<Longrightarrow> rl_pc_ok rate (rs_clock s) (rs_pcs s ! i)"
  by (simp add: rl_sys_inv_def)

lemma rl_step_inv:
  assumes "rl_step mx rate s s'" "rl_sys_inv mx rate s"
  shows "rl_sys_inv mx rate s'"
  using assms
proof (induction rule: rl_step.induct)
  case (tick s c)
  then show ?case by (auto simp: rl_sys_inv_def intro: rl_pc_ok_mono)
next
  case (call i s now)
  then show ?case by (intro rl_thread_move) simp_all
next
  case (no_refill i s now lst)
  then show ?case by (intro rl_thread_move) simp_all
next
  case (load_last i s now lst add)
  moreover have "rl_pc_ok rate (rs_clock s) (RL_Now now)"
    using rl_thread_ok [OF load_last.prems load_last.hyps(1)] load_last.hyps(2) by simp
  ultimately show ?case using refill_amount_le [of rate lst now]
    by (intro rl_thread_move) auto
next
  case (cas_last_ok i s lst now add)
  note ok = rl_thread_ok [OF cas_last_ok.prems cas_last_ok.hyps(1)]
  have b: "now \<le> rs_clock s" "lst \<le> now" "1000 * add \<le> (now - lst) * rate"
    using ok cas_last_ok.hyps(2) by simp_all
  have "now * rate = lst * rate + (now - lst) * rate"
    using b(2) by (simp add: add_mult_distrib [symmetric])
  moreover have "sum_list (map rl_pending ((rs_pcs s)[i := RL_AddLoad add])) =
      sum_list (map rl_pending (rs_pcs s)) + add"
    using sum_list_pending_update [OF cas_last_ok.hyps(1), of "RL_AddLoad add"] cas_last_ok.hyps(2) by simp
  moreover have "\<forall>pc \<in> set ((rs_pcs s)[i := RL_AddLoad add]). rl_pc_ok rate (rs_clock s) pc"
    using cas_last_ok.prems by (intro pcs_ok_update) (simp_all add: rl_sys_inv_def)
  ultimately show ?case using b cas_last_ok.prems cas_last_ok.hyps(3) by (simp add: rl_sys_inv_def)
next
  case (cas_last_fail i s lst now add)
  then show ?case by (intro rl_thread_move) simp_all
next
  case (add_load i s add current)
  then show ?case by (intro rl_thread_move) simp_all
next
  case (add_cas_ok i s add current)
  have "sum_list (map rl_pending ((rs_pcs s)[i := RL_AcqLoad])) + add = sum_list (map rl_pending (rs_pcs s))"
    using sum_list_pending_update [OF add_cas_ok.hyps(1), of RL_AcqLoad] add_cas_ok.hyps(2) by simp
  moreover have "\<forall>pc \<in> set ((rs_pcs s)[i := RL_AcqLoad]). rl_pc_ok rate (rs_clock s) pc"
    using add_cas_ok.prems by (intro pcs_ok_update) (simp_all add: rl_sys_inv_def)
  moreover have "min (current + add) mx \<le> rs_tokens s + add" using add_cas_ok.hyps(3) by simp
  ultimately show ?case using add_cas_ok.prems unfolding rl_sys_inv_def by simp
next
  case (add_cas_fail i s add current)
  then show ?case by (intro rl_thread_move) simp_all
next
  case (acq_empty i s)
  then show ?case by (intro rl_thread_move) simp_all
next
  case (acq_load i s current)
  then show ?case by (intro rl_thread_move) simp_all
next
  case (acq_cas_ok i s current)
  have "rs_tokens s \<noteq> 0"
    using rl_thread_ok [OF acq_cas_ok.prems acq_cas_ok.hyps(1)] acq_cas_ok.hyps(2,3) by simp
  moreover have "sum_list (map rl_pending ((rs_pcs s)[i := RL_Idle])) = sum_list (map rl_pending (rs_pcs s))"
    using sum_list_pending_update [OF acq_cas_ok.hyps(1), of RL_Idle] acq_cas_ok.hyps(2) by simp
  moreover have "\<forall>pc \<in> set ((rs_pcs s)[i := RL_Idle]). rl_pc_ok rate (rs_clock s) pc"
    using acq_cas_ok.prems by (intro pcs_ok_update) (simp_all add: rl_sys_inv_def)
  ultimately show ?case using acq_cas_ok.prems acq_cas_ok.hyps(3) by (auto simp: rl_sys_inv_def)
next
  case (acq_cas_fail i s current)
  then show ?case by (intro rl_thread_move) simp_all
qed

lemma rl_reachable_inv:
  "(rl_step mx rate)\<^sup>*\<^sup>* (rl_sys_init mx n) s \<Longrightarrow> rl_sys_inv mx rate s"
  by (induction rule: rtranclp_induct) (auto intro: rl_sys_inv_init rl_step_inv)

text \<open>One thread alone: the sequential functions are runs of the step relation.\<close>

definition rl_one :: "rate_limiter \<Rightarrow> u64 \<Rightarrow> nat \<Rightarrow> rl_pc \<Rightarrow> rl_sys" where
  "rl_one l c g pc =
     \<lparr> rs_tokens = rl_tokens l, rs_last = rl_last_refill_ms l, rs_clock = c, rs_pcs = [pc], rs_granted = g \<rparr>"

lemma rl_one_simps:
  "rs_pcs (rl_one l c g pc) = [pc]" "rs_tokens (rl_one l c g pc) = rl_tokens l"
  "rs_last (rl_one l c g pc) = rl_last_refill_ms l" "rs_clock (rl_one l c g pc) = c"
  "(rl_one l c g pc)\<lparr>rs_pcs := [pc']\<rparr> = rl_one l c g pc'"
  by (simp_all add: rl_one_def)

lemma refill_run:
  assumes "refill now l = Some l'"
  shows "(rl_step (rl_max_tokens l) (rl_refill_rate_per_sec l))\<^sup>*\<^sup>*
           (rl_one l c g (RL_Now now)) (rl_one l' c g RL_AcqLoad)"
proof -
  let ?R = "rl_step (rl_max_tokens l) (rl_refill_rate_per_sec l)"
  let ?add = "refill_amount (rl_refill_rate_per_sec l) (rl_last_refill_ms l) now"
  show ?thesis
  proof (cases "?add = 0")
    case True
    then have "l' = l" using assms
      by (auto simp: refill_def refill_amount_def Let_def split: if_splits)
    moreover have "?R (rl_one l c g (RL_Now now)) (rl_one l c g RL_AcqLoad)"
      using rl_step.no_refill [of 0 "rl_one l c g (RL_Now now)" now _ _ "rl_max_tokens l", OF _ _ True]
      by (simp add: rl_one_simps)
    ultimately show ?thesis by blast
  next
    case False
    let ?l1 = "l\<lparr>rl_last_refill_ms := now\<rparr>"
    have l': "l' = l\<lparr>rl_last_refill_ms := now,
        rl_tokens := min (rl_tokens l + ?add) (rl_max_tokens l)\<rparr>"
      using assms False by (auto simp: refill_def refill_amount_def Let_def split: if_splits)
    have "?R (rl_one l c g (RL_Now now)) (rl_one l c g (RL_CasLast (rl_last_refill_ms l) now ?add))"
      using rl_step.load_last [of 0 "rl_one l c g (RL_Now now)" now _ _ ?add "rl_max_tokens l",
          OF _ _ refl False] by (simp add: rl_one_simps)
    moreover have "?R (rl_one l c g (RL_CasLast (rl_last_refill_ms l) now ?add)) (rl_one ?l1 c g (RL_AddLoad ?add))"
      using rl_step.cas_last_ok [of 0 "rl_one l c g (RL_CasLast (rl_last_refill_ms l) now ?add)"
          "rl_last_refill_ms l" now ?add "rl_max_tokens l" "rl_refill_rate_per_sec l"]
      by (simp add: rl_one_def)
    moreover have "?R (rl_one ?l1 c g (RL_AddLoad ?add)) (rl_one ?l1 c g (RL_AddCas ?add (rl_tokens l)))"
      using rl_step.add_load [of 0 "rl_one ?l1 c g (RL_AddLoad ?add)" ?add "rl_max_tokens l"
          "rl_refill_rate_per_sec l" "rl_tokens l"] by (simp add: rl_one_simps)
    moreover have "?R (rl_one ?l1 c g (RL_AddCas ?add (rl_tokens l))) (rl_one l' c g RL_AcqLoad)"
      using rl_step.add_cas_ok [of 0 "rl_one ?l1 c g (RL_AddCas ?add (rl_tokens l))" ?add "rl_tokens l"
          "rl_max_tokens l" "rl_refill_rate_per_sec l"] by (simp add: rl_one_def l')
    ultimately show ?thesis by (meson converse_rtranclp_into_rtranclp rtranclp.rtrancl_refl)
  qed
qed

lemma try_acquire_run:
  assumes "try_acquire now l = Some (ok, l')" "now \<le> c"
  shows "(rl_step (rl_max_tokens l) (rl_refill_rate_per_sec l))\<^sup>*\<^sup>*
           (rl_one l c g RL_Idle) (rl_one l' c (g + of_bool ok) RL_Idle)"
proof -
  let ?R = "rl_step (rl_max_tokens l) (rl_refill_rate_per_sec l)"
  obtain l1 where l1: "refill now l = Some l1"
    using assms(1) by (auto simp: try_acquire_def split: option.splits)
  have "?R (rl_one l c g RL_Idle) (rl_one l c g (RL_Now now))"
    using rl_step.call [of 0 "rl_one l c g RL_Idle" now] assms(2) by (simp add: rl_one_simps)
  moreover note refill_run [OF l1, of c g]
  moreover have "?R\<^sup>*\<^sup>* (rl_one l1 c g RL_AcqLoad) (rl_one l' c (g + of_bool ok) RL_Idle)"
  proof (cases "rl_tokens l1 = 0")
    case True
    then have "\<not> ok" "l' = l1" using assms(1) l1 by (simp_all add: try_acquire_def)
    then show ?thesis using rl_step.acq_empty [of 0 "rl_one l1 c g RL_AcqLoad"]
      by (auto simp: rl_one_simps intro: r_into_rtranclp)
  next
    case False
    then have ok: "ok" "l' = l1\<lparr>rl_tokens := rl_tokens l1 - 1\<rparr>"
      using assms(1) l1 by (simp_all add: try_acquire_def)
    have "?R (rl_one l1 c g RL_AcqLoad) (rl_one l1 c g (RL_AcqCas (rl_tokens l1)))"
      using rl_step.acq_load [of 0 "rl_one l1 c g RL_AcqLoad" "rl_tokens l1"] False
      by (simp add: rl_one_simps)
    moreover have "?R (rl_one l1 c g (RL_AcqCas (rl_tokens l1))) (rl_one l' c (g + of_bool ok) RL_Idle)"
      using rl_step.acq_cas_ok [of 0 "rl_one l1 c g (RL_AcqCas (rl_tokens l1))" "rl_tokens l1"] ok
      by (simp add: rl_one_def)
    ultimately show ?thesis by (meson converse_rtranclp_into_rtranclp rtranclp.rtrancl_refl)
  qed
  ultimately show ?thesis by (meson converse_rtranclp_into_rtranclp rtranclp_trans)
qed

section \<open>Host validation (DNS rebinding guard)\<close>

definition valid_port :: "string \<Rightarrow> bool" where
  "valid_port port = (port \<noteq> [] \<and> list_all is_ascii_digit port \<and> digits_value port < 2 ^ 16)"

definition localhost_name :: "string \<Rightarrow> bool" where
  "localhost_name n = (eq_ignore_ascii_case n ''localhost'' \<or> n = ''127.0.0.1'' \<or> n = ''::1'')"

definition is_localhost_host :: "string \<Rightarrow> bool" where
  "is_localhost_host host =
     (let host_name =
        (case strip_prefix ''['' host of
           Some rest \<Rightarrow>
             (case split_once (CHR '']'') rest of
                Some (inner, after) \<Rightarrow>
                  if after = [] then Some inner
                  else (case strip_prefix '':'' after of
                          Some port \<Rightarrow> if valid_port port then Some inner else None
                        | None \<Rightarrow> None)
              | None \<Rightarrow> None)
         | None \<Rightarrow>
             if contains_str host ''::'' then Some host
             else (case split_once (CHR '':'') host of
                     Some (name, port) \<Rightarrow> if valid_port port then Some name else None
                   | None \<Rightarrow> Some host))
      in case host_name of None \<Rightarrow> False | Some n \<Rightarrow> localhost_name n)"

text \<open>A valid \<open>:port\<close> suffix, or none.\<close>

definition port_suffix :: "string \<Rightarrow> bool" where
  "port_suffix s = (s = [] \<or> (\<exists>port. s = CHR '':'' # port \<and> valid_port port))"

lemma digit_not_colon: "is_ascii_digit c \<Longrightarrow> c \<noteq> CHR '':''"
  by (auto simp: is_ascii_digit_def)

lemma valid_port_no_colon: "valid_port p \<Longrightarrow> CHR '':'' \<notin> set p"
  by (auto simp: valid_port_def list_all_iff dest: digit_not_colon)

lemma eq_ignore_ascii_case_member:
  assumes "eq_ignore_ascii_case a b" "c \<in> set a"
  shows "to_ascii_lower c \<in> set (map to_ascii_lower b)"
proof -
  have "set (map to_ascii_lower a) = set (map to_ascii_lower b)"
    using assms(1) unfolding eq_ignore_ascii_case_def by (rule arg_cong)
  then show ?thesis using assms(2) by (auto simp only: list.set_map)
qed

lemma localhost_lower_chars:
  "to_ascii_lower (CHR '':'') \<notin> set (map to_ascii_lower ''localhost'')"
  "to_ascii_lower (CHR ''['') \<notin> set (map to_ascii_lower ''localhost'')"
  "to_ascii_lower (CHR '']'') \<notin> set (map to_ascii_lower ''localhost'')"
  by code_simp+

lemma localhost_name_chars:
  assumes "eq_ignore_ascii_case n ''localhost''"
  shows "CHR '':'' \<notin> set n" "CHR ''['' \<notin> set n" "CHR '']'' \<notin> set n"
  using eq_ignore_ascii_case_member [OF assms] localhost_lower_chars by blast+

lemma localhost_name_facts:
  assumes "localhost_name n"
  shows "CHR ''['' \<notin> set n" "CHR '']'' \<notin> set n" "n \<noteq> ''::1'' \<Longrightarrow> CHR '':'' \<notin> set n"
  using assms localhost_name_chars [of n] by (auto simp: localhost_name_def)

lemma double_colon_once: "contains_str s ''::'' \<Longrightarrow> CHR '':'' \<in> set s"
  by (auto simp: contains_str_def sublist_def)

lemma bracketed_host:
  "is_localhost_host (CHR ''['' # rest) \<longleftrightarrow>
     (\<exists>n suf. rest = n @ CHR '']'' # suf \<and> localhost_name n \<and> port_suffix suf)"
proof (cases "split_once (CHR '']'') rest")
  case None
  then have "CHR '']'' \<notin> set rest" by (simp add: split_once_None)
  then show ?thesis using None by (auto simp: is_localhost_host_def strip_prefix_def)
next
  case (Some p)
  obtain inner after where p: "p = (inner, after)" by (cases p)
  with Some have r: "rest = inner @ CHR '']'' # after" "CHR '']'' \<notin> set inner"
    by (simp_all add: split_once_Some)
  have "is_localhost_host (CHR ''['' # rest) \<longleftrightarrow> localhost_name inner \<and> port_suffix after"
    using Some p by (auto simp: is_localhost_host_def strip_prefix_def port_suffix_def prefix_def
        split: option.splits)
  moreover have "(\<exists>n suf. rest = n @ CHR '']'' # suf \<and> localhost_name n \<and> port_suffix suf)
      \<longleftrightarrow> localhost_name inner \<and> port_suffix after"
  proof
    assume "\<exists>n suf. rest = n @ CHR '']'' # suf \<and> localhost_name n \<and> port_suffix suf"
    then obtain n suf where *: "rest = n @ CHR '']'' # suf" "localhost_name n" "port_suffix suf"
      by blast
    then have "split_once (CHR '']'') rest = Some (n, suf)"
      using localhost_name_facts(2) by (simp add: split_once_Some)
    with Some p * show "localhost_name inner \<and> port_suffix after" by simp
  qed (use r in blast)
  ultimately show ?thesis by simp
qed

lemma plain_host_with_port:
  assumes "CHR '':'' \<notin> set n" "valid_port port"
  shows "\<not> contains_str (n @ CHR '':'' # port) ''::''"
proof
  assume "contains_str (n @ CHR '':'' # port) ''::''"
  then obtain a b where "n @ CHR '':'' # port = a @ CHR '':'' # CHR '':'' # b"
    by (auto simp: contains_str_def sublist_def)
  moreover have "CHR '':'' \<notin> set port" using assms(2) by (rule valid_port_no_colon)
  ultimately have "count_list (a @ CHR '':'' # CHR '':'' # b) (CHR '':'') = 1"
    using assms(1) by (metis add_0 add_0_right count_list.simps(2) count_list_0_iff count_list_append)
  then show False by simp
qed

lemma plain_host:
  assumes "\<not> prefix ''['' h"
  shows "is_localhost_host h \<longleftrightarrow> localhost_name h \<or>
    (\<exists>n port. h = n @ CHR '':'' # port \<and> localhost_name n \<and> n \<noteq> ''::1'' \<and> valid_port port)"
    (is "_ \<longleftrightarrow> _ \<or> ?P")
proof (cases "contains_str h ''::''")
  case True
  have "\<not> ?P" using True plain_host_with_port localhost_name_facts(3) by blast
  moreover have "is_localhost_host h \<longleftrightarrow> localhost_name h"
    using True assms by (simp add: is_localhost_host_def strip_prefix_def)
  ultimately show ?thesis by blast
next
  case False
  have ne: "h \<noteq> ''::1''"
  proof
    assume "h = ''::1''"
    then have "contains_str h ''::''" by (auto simp: contains_str_def sublist_def)
    with False show False by simp
  qed
  show ?thesis
  proof (cases "split_once (CHR '':'') h")
    case None
    then have "CHR '':'' \<notin> set h" by (simp add: split_once_None)
    then have "\<not> ?P" by auto
    moreover have "is_localhost_host h \<longleftrightarrow> localhost_name h"
      using None False assms by (simp add: is_localhost_host_def strip_prefix_def)
    ultimately show ?thesis by blast
  next
    case (Some p)
    obtain n port where p: "p = (n, port)" by (cases p)
    with Some have h: "h = n @ CHR '':'' # port" "CHR '':'' \<notin> set n"
      by (simp_all add: split_once_Some)
    have "is_localhost_host h \<longleftrightarrow> valid_port port \<and> localhost_name n"
      using Some p False assms by (simp add: is_localhost_host_def strip_prefix_def)
    moreover have "n \<noteq> ''::1''" using h(2) by auto
    moreover have "\<not> localhost_name h" using localhost_name_facts(3) [of h] ne h(1) by auto
    moreover have "?P \<Longrightarrow> valid_port port \<and> localhost_name n"
    proof -
      assume ?P
      then obtain m q where m: "h = m @ CHR '':'' # q" "localhost_name m" "m \<noteq> ''::1''" "valid_port q"
        by blast
      then have "split_once (CHR '':'') h = Some (m, q)"
        using localhost_name_facts(3) by (simp add: split_once_Some)
      with Some p m show ?thesis by simp
    qed
    ultimately show ?thesis using h(1) by blast
  qed
qed

section \<open>Origin validation (cross-origin guard)\<close>

text \<open>
  What \<^verbatim>\<open>is_allowed_origin\<close> reads of the parsed URL; \<open>None\<close> for a text \<^verbatim>\<open>Url::parse\<close> refuses.
\<close>

record url =
  url_scheme :: string
  url_username :: string
  url_password :: "string option"
  url_host_str :: "string option"

definition is_allowed_origin :: "(string \<Rightarrow> url option) \<Rightarrow> string \<Rightarrow> bool" where
  "is_allowed_origin url_parse origin =
     (case url_parse origin of
        None \<Rightarrow> False
      | Some parsed \<Rightarrow>
          url_username parsed = [] \<and> url_password parsed = None \<and>
          url_scheme parsed \<in> {''http'', ''https''} \<and>
          url_host_str parsed \<in> {Some ''localhost'', Some ''127.0.0.1'', Some ''[::1]'', Some ''::1''})"

section \<open>Properties\<close>

text \<open>
  Constant-time comparison decides equality: for every two byte strings
  \<^verbatim>\<open>constant_time_eq\<close> is true exactly when they are the same, of the same length and equal at
  every byte; no combination of differences cancels out in the accumulator.
\<close>

theorem constant_time_eq_exact: "constant_time_eq a b \<longleftrightarrow> a = b"
  by (rule constant_time_eq_iff)

text \<open>
  (C5) The token bucket bounds what it admits, in every interleaving of any number of threads
  and with loads that may return stale values: when the clock of the limiter
  shows \<open>c\<close> milliseconds, at most \<open>max_tokens + c * rate / 1000\<close> calls of \<^verbatim>\<open>try_acquire\<close> have returned true
  (a refill window is claimed by one thread only), and the bucket never holds more than
  \<open>max_tokens\<close>.
\<close>

theorem rate_limiter_bounds_grants:
  assumes "(rl_step mx rate)\<^sup>*\<^sup>* (rl_sys_init mx n) s"
  shows "rs_granted s \<le> mx + rs_clock s * rate div 1000 \<and> rs_tokens s \<le> mx"
proof -
  have inv: "rl_sys_inv mx rate s" using assms by (rule rl_reachable_inv)
  then have "1000 * rs_granted s \<le> 1000 * mx + rs_last s * rate"
    by (simp add: rl_sys_inv_def)
  also have "rs_last s * rate \<le> rs_clock s * rate"
    using inv by (simp add: rl_sys_inv_def)
  finally show ?thesis using inv by (simp add: rl_sys_inv_def)
qed

lemma rl_one_grant_run:
  "(rl_step 1 7)\<^sup>*\<^sup>* (rl_sys_init 1 1)
     \<lparr> rs_tokens = 0, rs_last = 0, rs_clock = 0, rs_pcs = [RL_Idle], rs_granted = 1 \<rparr>"
proof -
  let ?s = "\<lambda>pc. \<lparr> rs_tokens = 1, rs_last = 0, rs_clock = 0, rs_pcs = [pc], rs_granted = 0 \<rparr>"
  have "rl_step 1 7 (?s RL_Idle) (?s (RL_Now 0))"
    using rl_step.call [of 0 "?s RL_Idle" 0 1 7] by simp
  moreover have "rl_step 1 7 (?s (RL_Now 0)) (?s RL_AcqLoad)"
    using rl_step.no_refill [of 0 "?s (RL_Now 0)" 0 7 0 1] by (simp add: refill_amount_def)
  moreover have "rl_step 1 7 (?s RL_AcqLoad) (?s (RL_AcqCas 1))"
    using rl_step.acq_load [of 0 "?s RL_AcqLoad" 1 1 7] by simp
  moreover have "rl_step 1 7 (?s (RL_AcqCas 1))
     \<lparr> rs_tokens = 0, rs_last = 0, rs_clock = 0, rs_pcs = [RL_Idle], rs_granted = 1 \<rparr>"
    using rl_step.acq_cas_ok [of 0 "?s (RL_AcqCas 1)" 1 1 7] by simp
  ultimately show ?thesis
    by (auto simp: rl_sys_init_def intro: converse_rtranclp_into_rtranclp)
qed

theorem rate_limiter_bounds_grants_witness:
  "rs_granted \<lparr> rs_tokens = 0, rs_last = 0, rs_clock = 0, rs_pcs = [RL_Idle], rs_granted = 1 \<rparr>
     \<le> 1 + rs_clock \<lparr> rs_tokens = 0, rs_last = 0, rs_clock = 0, rs_pcs = [RL_Idle], rs_granted = 1 \<rparr> * 7 div 1000"
  using rate_limiter_bounds_grants [OF rl_one_grant_run] by simp

text \<open>
  The sequential reading of \<^verbatim>\<open>try_acquire\<close> is one of the runs of the atomic accesses, and it
  does what a token bucket should: a call that completes with no other thread in between takes the
  limiter, through steps of the relation, exactly to the state the sequential function returns,
  counting one grant when it returned true and none otherwise.
\<close>

theorem try_acquire_refines_atomics:
  assumes "try_acquire now l = Some (ok, l')" "now \<le> c"
  shows "(rl_step (rl_max_tokens l) (rl_refill_rate_per_sec l))\<^sup>*\<^sup>*
           (rl_one l c g RL_Idle) (rl_one l' c (g + of_bool ok) RL_Idle)"
  using assms by (rule try_acquire_run)

theorem try_acquire_refines_atomics_witness:
  "(rl_step 5 5)\<^sup>*\<^sup>* (rl_one (rate_limiter_new 5) 1000 0 RL_Idle)
     (rl_one ((rate_limiter_new 5)\<lparr>rl_last_refill_ms := 1000, rl_tokens := 4\<rparr>) 1000 (0 + of_bool True) RL_Idle)"
proof -
  have "try_acquire 1000 (rate_limiter_new 5) =
      Some (True, (rate_limiter_new 5)\<lparr>rl_last_refill_ms := 1000, rl_tokens := 4\<rparr>)"
    by (simp add: try_acquire_def refill_def rate_limiter_new_def sat_sub_def u64_max_def)
  from try_acquire_refines_atomics [OF this, of 1000 0] show ?thesis
    by (simp add: rate_limiter_new_def)
qed

text \<open>
  The DNS-rebinding check accepts exactly the loopback names and nothing that merely contains
  one: a \<^verbatim>\<open>Host\<close> is accepted if and only if it is a loopback name (\<open>localhost\<close> in any ASCII
  case, \<open>127.0.0.1\<close> or \<open>::1\<close>), a loopback name other than a bare \<open>::1\<close> with a
  \<open>:port\<close> of decimal digits below 65536, or a loopback name in brackets with an optional such port.
\<close>

theorem is_localhost_host_exact:
  "is_localhost_host h \<longleftrightarrow>
     localhost_name h \<or>
     (\<exists>n port. h = n @ '':'' @ port \<and> localhost_name n \<and> n \<noteq> ''::1'' \<and> valid_port port) \<or>
     (\<exists>n suf. h = ''['' @ n @ '']'' @ suf \<and> localhost_name n \<and> port_suffix suf)"
proof (cases "prefix ''['' h")
  case True
  then obtain rest where h: "h = CHR ''['' # rest" by (auto simp: prefix_def)
  have "\<not> localhost_name h" using localhost_name_facts(1) [of h] h by auto
  moreover have "\<not> (\<exists>n port. h = n @ '':'' @ port \<and> localhost_name n \<and> n \<noteq> ''::1'' \<and> valid_port port)"
  proof
    assume "\<exists>n port. h = n @ '':'' @ port \<and> localhost_name n \<and> n \<noteq> ''::1'' \<and> valid_port port"
    then obtain n port where n: "CHR ''['' # rest = n @ CHR '':'' # port" "localhost_name n"
      using h by auto
    then have "n = [] \<or> CHR ''['' \<in> set n" by (cases n) auto
    then show False using n localhost_name_facts(1) [of n] by auto
  qed
  moreover have "is_localhost_host h \<longleftrightarrow>
      (\<exists>n suf. h = ''['' @ n @ '']'' @ suf \<and> localhost_name n \<and> port_suffix suf)"
    using bracketed_host [of rest] h by simp
  ultimately show ?thesis by blast
next
  case False
  then have "\<not> (\<exists>n suf. h = ''['' @ n @ '']'' @ suf \<and> localhost_name n \<and> port_suffix suf)"
    by (auto simp: prefix_def)
  then show ?thesis using plain_host [OF False] by (simp only: append_Cons append_Nil) blast
qed

end
