(* ===== verification/Middleware.thy ===== *)
theory Middleware
  imports Security Json
begin

text \<open>
  \<^verbatim>\<open>crates/victauri-core/src/middleware.rs\<close>: the axum middleware around the primitives of
  \<open>Security\<close>.  A service takes the server state and a request and returns the response (\<open>None\<close>:
  the request's task panicked) with the new state; a middleware is a function of the next service.
  Every clock a request reads is read at most once on its way, so both readings are arguments
  (\<open>clocks\<close>).

  Functions of the \<^verbatim>\<open>http\<close>, \<^verbatim>\<open>axum\<close>, \<^verbatim>\<open>url\<close> and \<^verbatim>\<open>serde_json\<close> crates are fields of the record
  \<open>http_lib\<close>, an argument of the definitions that call them.
\<close>

section \<open>Requests, responses and the libraries\<close>

type_synonym headers = "(string \<times> string) list"

datatype 'b body = Incoming 'b | Full string

record 'b request =
  rq_method :: string
  rq_path :: string
  rq_headers :: headers
  rq_body :: "'b body"

datatype resp_body = RB_Empty | RB_Text string | RB_Json json

record response =
  rp_status :: nat
  rp_headers :: headers
  rp_body :: resp_body

text \<open>What reading a body under a limit and a deadline comes to.\<close>

datatype body_read = BR_Bytes string | BR_Error string | BR_Timeout

record 'b http_lib =
  lib_to_str :: "string \<Rightarrow> string option"                \<comment> \<open>\<^verbatim>\<open>HeaderValue::to_str\<close>\<close>
  lib_url_parse :: "string \<Rightarrow> url option"                \<comment> \<open>\<^verbatim>\<open>url::Url::parse\<close>\<close>
  lib_to_bytes :: "'b body \<Rightarrow> nat \<Rightarrow> body_read"           \<comment> \<open>\<^verbatim>\<open>axum::body::to_bytes\<close>\<close>
  lib_json_parse :: "string \<Rightarrow> json option"              \<comment> \<open>\<^verbatim>\<open>serde_json::from_slice\<close>\<close>

abbreviation hdr_get :: "headers \<Rightarrow> string \<Rightarrow> string option" where
  "hdr_get hs k \<equiv> map_of hs k"

text \<open>\<^verbatim>\<open>HeaderMap::insert\<close> replaces every value; \<^verbatim>\<open>entry(..).or_insert\<close> keeps an existing one.\<close>

definition hdr_insert :: "string \<Rightarrow> string \<Rightarrow> headers \<Rightarrow> headers" where
  "hdr_insert k v hs = (k, v) # filter (\<lambda>(k', _). k' \<noteq> k) hs"

definition hdr_or_insert :: "string \<Rightarrow> string \<Rightarrow> headers \<Rightarrow> headers" where
  "hdr_or_insert k v hs = (case hdr_get hs k of Some _ \<Rightarrow> hs | None \<Rightarrow> (k, v) # hs)"

lemma hdr_filter_lookup: "k \<noteq> k' \<Longrightarrow> map_of (filter (\<lambda>(x, _). x \<noteq> k) hs) k' = map_of hs k'"
  by (induction hs) auto

lemma hdr_get_insert: "hdr_get (hdr_insert k v hs) k' = (if k' = k then Some v else hdr_get hs k')"
  by (simp add: hdr_insert_def hdr_filter_lookup)

lemma hdr_get_or_insert:
  "hdr_get (hdr_or_insert k v hs) k' = (if k' = k \<and> hdr_get hs k = None then Some v else hdr_get hs k')"
  by (auto simp: hdr_or_insert_def split: option.splits)

definition status_response :: "nat \<Rightarrow> response" where
  "status_response st = \<lparr> rp_status = st, rp_headers = [], rp_body = RB_Empty \<rparr>"

section \<open>Refusal log\<close>

record refusal_log =
  rf_last_ms :: u64
  rf_suppressed :: u64

definition REFUSAL_LOG_INTERVAL_MS :: u64 where
  "REFUSAL_LOG_INTERVAL_MS = 10000"

definition refusal_log_new :: refusal_log where
  "refusal_log_new = \<lparr> rf_last_ms = 0, rf_suppressed = 0 \<rparr>"

definition refusal_due :: "u64 \<Rightarrow> u64 \<Rightarrow> bool" where
  "refusal_due lst now_ms = (lst = 0 \<or> sat_sub now_ms lst \<ge> REFUSAL_LOG_INTERVAL_MS)"

definition admit :: "u64 \<Rightarrow> refusal_log \<Rightarrow> u64 option \<times> refusal_log" where
  "admit now_ms l =
     (if refusal_due (rf_last_ms l) now_ms
      then (Some (rf_suppressed l), \<lparr> rf_last_ms = max now_ms 1, rf_suppressed = 0 \<rparr>)
      else (None, l\<lparr>rf_suppressed := (rf_suppressed l + 1) mod 2 ^ 64\<rparr>))"

section \<open>Server state\<close>

datatype warning = Warn_Auth u64 | Warn_Host u64 | Warn_Browser u64 | Warn_Origin u64

record 'a server =
  sv_public :: rate_limiter
  sv_authenticated :: rate_limiter
  sv_auth_refusals :: refusal_log
  sv_host_refusals :: refusal_log
  sv_origin_refusals :: refusal_log
  sv_warnings :: "warning list"
  sv_app :: 'a

record clocks =
  ck_limiter_ms :: u64    \<comment> \<open>\<^verbatim>\<open>RateLimiter::elapsed_ms\<close>\<close>
  ck_wall_ms :: u64       \<comment> \<open>\<^verbatim>\<open>SystemTime::now\<close> since the epoch\<close>

type_synonym ('a, 'b) service = "'a server \<Rightarrow> 'b request \<Rightarrow> response option \<times> 'a server"

definition warn :: "(u64 \<Rightarrow> warning) \<Rightarrow> u64 option \<Rightarrow> warning list \<Rightarrow> warning list" where
  "warn mk admitted ws = (case admitted of None \<Rightarrow> ws | Some suppressed \<Rightarrow> ws @ [mk suppressed])"

definition auth_refused :: "clocks \<Rightarrow> 'a server \<Rightarrow> 'a server" where
  "auth_refused ck s =
     (let (admitted, l) = admit (ck_wall_ms ck) (sv_auth_refusals s)
      in s\<lparr>sv_auth_refusals := l, sv_warnings := warn Warn_Auth admitted (sv_warnings s)\<rparr>)"

definition host_refused :: "clocks \<Rightarrow> 'a server \<Rightarrow> 'a server" where
  "host_refused ck s =
     (let (admitted, l) = admit (ck_wall_ms ck) (sv_host_refusals s)
      in s\<lparr>sv_host_refusals := l, sv_warnings := warn Warn_Host admitted (sv_warnings s)\<rparr>)"

definition origin_refused :: "(u64 \<Rightarrow> warning) \<Rightarrow> clocks \<Rightarrow> 'a server \<Rightarrow> 'a server" where
  "origin_refused mk ck s =
     (let (admitted, l) = admit (ck_wall_ms ck) (sv_origin_refusals s)
      in s\<lparr>sv_origin_refusals := l, sv_warnings := warn mk admitted (sv_warnings s)\<rparr>)"

section \<open>Middleware\<close>

definition BEARER_PREFIX_LEN :: nat where
  "BEARER_PREFIX_LEN = 7"

definition bearer_matches :: "'b http_lib \<Rightarrow> headers \<Rightarrow> string \<Rightarrow> bool" where
  "bearer_matches lib headers expected =
     (case Option.bind (hdr_get headers ''authorization'') (lib_to_str lib) of
        None \<Rightarrow> False
      | Some v \<Rightarrow>
          (case str_get_to BEARER_PREFIX_LEN v of
             None \<Rightarrow> False
           | Some scheme \<Rightarrow>
               eq_ignore_ascii_case scheme ''bearer '' \<and>
               constant_time_eq (drop BEARER_PREFIX_LEN (as_bytes v)) (as_bytes expected)))"

definition require_auth ::
  "'b http_lib \<Rightarrow> clocks \<Rightarrow> string option \<Rightarrow> ('a, 'b) service \<Rightarrow> ('a, 'b) service" where
  "require_auth lib ck token next s rq =
     (case token of
        None \<Rightarrow> next s rq
      | Some expected \<Rightarrow>
          if bearer_matches lib (rq_headers rq) expected then next s rq
          else (Some (status_response 401), auth_refused ck s))"

definition default_rate_limiter :: rate_limiter where
  "default_rate_limiter = rate_limiter_new DEFAULT_RATE_LIMIT"

text \<open>The 429 answer of \<^verbatim>\<open>rate_limit\<close> and \<^verbatim>\<open>split_rate_limit\<close>.\<close>

definition too_many_requests :: response where
  "too_many_requests = \<lparr> rp_status = 429, rp_headers = [(''retry-after'', ''1'')], rp_body = RB_Empty \<rparr>"

definition rate_limit :: "clocks \<Rightarrow> ('a, 'b) service \<Rightarrow> ('a, 'b) service" where
  "rate_limit ck next s rq =
     (case try_acquire (ck_limiter_ms ck) (sv_public s) of
        None \<Rightarrow> (None, s)
      | Some (ok, l) \<Rightarrow>
          let s = s\<lparr>sv_public := l\<rparr>
          in if ok then next s rq else (Some too_many_requests, s))"

definition request_host :: "'b http_lib \<Rightarrow> headers \<Rightarrow> string" where
  "request_host lib hs =
     (case Option.bind (hdr_get hs ''host'') (lib_to_str lib) of Some h \<Rightarrow> h | None \<Rightarrow> [])"

definition dns_rebinding_guard :: "'b http_lib \<Rightarrow> clocks \<Rightarrow> ('a, 'b) service \<Rightarrow> ('a, 'b) service" where
  "dns_rebinding_guard lib ck next s rq =
     (if \<not> is_localhost_host (request_host lib (rq_headers rq))
      then (Some (status_response 403), host_refused ck s)
      else next s rq)"

definition origin_guard :: "'b http_lib \<Rightarrow> clocks \<Rightarrow> ('a, 'b) service \<Rightarrow> ('a, 'b) service" where
  "origin_guard lib ck next s rq =
     (let hs = rq_headers rq
      in if (case hdr_get hs ''sec-fetch-site'' of Some site \<Rightarrow> site \<noteq> ''none'' | None \<Rightarrow> False)
         then (Some (status_response 403), origin_refused Warn_Browser ck s)
         else case hdr_get hs ''origin'' of
                None \<Rightarrow> next s rq
              | Some origin \<Rightarrow>
                  (case lib_to_str lib origin of
                     Some text \<Rightarrow>
                       if is_allowed_origin (lib_url_parse lib) text then next s rq
                       else (Some (status_response 403), origin_refused Warn_Origin ck s)
                   | None \<Rightarrow> (Some (status_response 403), origin_refused Warn_Origin ck s)))"

definition add_security_headers :: "response \<Rightarrow> response" where
  "add_security_headers r =
     r\<lparr>rp_headers :=
         hdr_insert ''content-security-policy'' (''default-src '' @ [CHR 0x27] @ ''none'' @ [CHR 0x27])
           (hdr_insert ''x-frame-options'' ''DENY''
             (hdr_insert ''cache-control'' ''no-store''
               (hdr_insert ''x-content-type-options'' ''nosniff'' (rp_headers r))))\<rparr>"

definition security_headers :: "('a, 'b) service \<Rightarrow> ('a, 'b) service" where
  "security_headers next s rq = map_prod (map_option add_security_headers) (\<lambda>s. s) (next s rq)"

lemma bearer_matches_iff:
  "bearer_matches lib hs expected \<longleftrightarrow>
     (\<exists>raw scheme. hdr_get hs ''authorization'' = Some raw \<and> lib_to_str lib raw = Some (scheme @ expected) \<and>
        str_get_to BEARER_PREFIX_LEN (scheme @ expected) = Some scheme \<and>
        eq_ignore_ascii_case scheme ''bearer '')" (is "?L \<longleftrightarrow> ?R")
proof
  assume ?L
  then obtain raw v scheme where v: "hdr_get hs ''authorization'' = Some raw" "lib_to_str lib raw = Some v"
      "str_get_to BEARER_PREFIX_LEN v = Some scheme" "eq_ignore_ascii_case scheme ''bearer ''"
      "drop BEARER_PREFIX_LEN v = expected"
    by (auto simp: bearer_matches_def constant_time_eq_iff as_bytes_drop bind_eq_Some_conv
        split: option.splits)
  have "v = scheme @ expected"
    using v(3,5) by (auto simp: str_get_to_def split: if_splits)
  with v(1-4) show ?R by auto
next
  assume ?R
  then obtain raw scheme where v: "hdr_get hs ''authorization'' = Some raw"
      "lib_to_str lib raw = Some (scheme @ expected)"
      "str_get_to BEARER_PREFIX_LEN (scheme @ expected) = Some scheme"
      "eq_ignore_ascii_case scheme ''bearer ''" by blast
  have "length scheme = BEARER_PREFIX_LEN"
    using arg_cong [OF v(4) [unfolded eq_ignore_ascii_case_def], of length]
    by (simp add: BEARER_PREFIX_LEN_def)
  then show ?L using v
    by (simp add: bearer_matches_def constant_time_eq_iff as_bytes_drop)
qed

section \<open>Refusal log: any number of threads\<close>

text \<open>
  Where a thread is inside \<^verbatim>\<open>RefusalLog::admit\<close>; as in \<open>Security\<close> a load may return any value.
\<close>

datatype rf_pc =
    RF_Idle
  | RF_Cas u64 u64      \<comment> \<open>loaded \<open>last\<close> and \<open>now_ms\<close>, and the line is due\<close>
  | RF_Swap             \<comment> \<open>won the exchange; about to take \<open>suppressed\<close> and log\<close>
  | RF_Count            \<comment> \<open>about to add one to \<open>suppressed\<close>\<close>

record rf_sys =
  fs_last :: u64
  fs_suppressed :: u64
  fs_pcs :: "rf_pc list"
  fs_refusals :: nat     \<comment> \<open>calls begun\<close>
  fs_lines :: nat        \<comment> \<open>lines logged\<close>
  fs_reported :: nat     \<comment> \<open>sum of the counts in those lines\<close>
  fs_first :: u64        \<comment> \<open>time of the first line\<close>
  fs_latest :: u64       \<comment> \<open>latest time any call was given\<close>

definition rf_sys_init :: "nat \<Rightarrow> rf_sys" where
  "rf_sys_init n =
     \<lparr> fs_last = 0, fs_suppressed = 0, fs_pcs = replicate n RF_Idle, fs_refusals = 0, fs_lines = 0,
       fs_reported = 0, fs_first = 0, fs_latest = 0 \<rparr>"

inductive rf_step :: "rf_sys \<Rightarrow> rf_sys \<Rightarrow> bool" where
  call: "i < length (fs_pcs s) \<Longrightarrow> fs_pcs s ! i = RF_Idle \<Longrightarrow>
    rf_step s (s\<lparr>fs_refusals := fs_refusals s + 1, fs_latest := max (fs_latest s) now,
      fs_pcs := (fs_pcs s)[i := if refusal_due lst now then RF_Cas lst now else RF_Count]\<rparr>)"
| cas_ok: "i < length (fs_pcs s) \<Longrightarrow> fs_pcs s ! i = RF_Cas lst now \<Longrightarrow> fs_last s = lst \<Longrightarrow>
    rf_step s (s\<lparr>fs_last := max now 1, fs_first := (if lst = 0 then max now 1 else fs_first s),
      fs_pcs := (fs_pcs s)[i := RF_Swap]\<rparr>)"
| cas_fail: "i < length (fs_pcs s) \<Longrightarrow> fs_pcs s ! i = RF_Cas lst now \<Longrightarrow> fs_last s \<noteq> lst \<Longrightarrow>
    rf_step s (s\<lparr>fs_pcs := (fs_pcs s)[i := RF_Count]\<rparr>)"
| swap: "i < length (fs_pcs s) \<Longrightarrow> fs_pcs s ! i = RF_Swap \<Longrightarrow>
    rf_step s (s\<lparr>fs_suppressed := 0, fs_lines := fs_lines s + 1,
      fs_reported := fs_reported s + fs_suppressed s, fs_pcs := (fs_pcs s)[i := RF_Idle]\<rparr>)"
| count: "i < length (fs_pcs s) \<Longrightarrow> fs_pcs s ! i = RF_Count \<Longrightarrow>
    rf_step s (s\<lparr>fs_suppressed := (fs_suppressed s + 1) mod 2 ^ 64, fs_pcs := (fs_pcs s)[i := RF_Idle]\<rparr>)"

fun rf_pc_ok :: "u64 \<Rightarrow> rf_pc \<Rightarrow> bool" where
  "rf_pc_ok latest (RF_Cas lst now) = (refusal_due lst now \<and> now \<le> latest)"
| "rf_pc_ok latest _ = True"

abbreviation busy :: "rf_pc list \<Rightarrow> nat" where
  "busy pcs \<equiv> length (filter (\<lambda>pc. pc \<noteq> RF_Idle) pcs)"

abbreviation swapping :: "rf_pc list \<Rightarrow> nat" where
  "swapping pcs \<equiv> length (filter (\<lambda>pc. pc = RF_Swap) pcs)"

definition rf_wins :: "rf_sys \<Rightarrow> nat" where
  "rf_wins s = fs_lines s + swapping (fs_pcs s)"

text \<open>Every refusal is in a line, counted in a line, still counted in \<open>suppressed\<close>, or under way.\<close>

definition rf_accounted :: "rf_sys \<Rightarrow> bool" where
  "rf_accounted s \<longleftrightarrow>
     (fs_refusals s < 2 ^ 64 \<longrightarrow>
      fs_refusals s = fs_lines s + fs_reported s + fs_suppressed s + busy (fs_pcs s))"

definition rf_spaced :: "rf_sys \<Rightarrow> bool" where
  "rf_spaced s \<longleftrightarrow>
     (\<forall>pc \<in> set (fs_pcs s). rf_pc_ok (fs_latest s) pc) \<and>
     (fs_last s = 0 \<longrightarrow> rf_wins s = 0) \<and>
     (fs_last s \<noteq> 0 \<longrightarrow>
        fs_first s + REFUSAL_LOG_INTERVAL_MS * rf_wins s \<le> fs_last s + REFUSAL_LOG_INTERVAL_MS \<and>
        fs_last s \<le> max (fs_latest s) 1)"

lemma length_filter_update:
  "i < length xs \<Longrightarrow>
   length (filter P (xs[i := x])) + of_bool (P (xs ! i)) = length (filter P xs) + of_bool (P x)"
proof (induction xs arbitrary: i)
  case Nil
  then show ?case by simp
next
  case (Cons y ys)
  then show ?case by (cases i) auto
qed

lemma rf_accounted_step: "rf_step s s' \<Longrightarrow> rf_accounted s \<Longrightarrow> rf_accounted s'"
proof (induction rule: rf_step.induct)
  case (call i s lst now)
  then show ?case
    using length_filter_update [OF call.hyps(1), of "\<lambda>pc. pc \<noteq> RF_Idle"
        "if refusal_due lst now then RF_Cas lst now else RF_Count"]
    by (auto simp: rf_accounted_def split: if_splits)
next
  case (cas_ok i s lst now)
  then show ?case
    using length_filter_update [OF cas_ok.hyps(1), of "\<lambda>pc. pc \<noteq> RF_Idle" RF_Swap]
    by (auto simp: rf_accounted_def)
next
  case (cas_fail i s lst now)
  then show ?case
    using length_filter_update [OF cas_fail.hyps(1), of "\<lambda>pc. pc \<noteq> RF_Idle" RF_Count]
    by (auto simp: rf_accounted_def)
next
  case (swap i s)
  then show ?case
    using length_filter_update [OF swap.hyps(1), of "\<lambda>pc. pc \<noteq> RF_Idle" RF_Idle]
    by (auto simp: rf_accounted_def)
next
  case (count i s)
  then show ?case
    using length_filter_update [OF count.hyps(1), of "\<lambda>pc. pc \<noteq> RF_Idle" RF_Idle]
    by (auto simp: rf_accounted_def)
qed

lemma swapping_update:
  assumes "i < length pcs" "pcs ! i \<noteq> RF_Swap" "pc \<noteq> RF_Swap"
  shows "swapping (pcs[i := pc]) = swapping pcs"
  using length_filter_update [OF assms(1), of "\<lambda>pc. pc = RF_Swap" pc] assms(2,3) by simp

lemma rf_pc_ok_mono: "rf_pc_ok c pc \<Longrightarrow> c \<le> d \<Longrightarrow> rf_pc_ok d pc"
  by (cases pc) auto

lemma rf_spaced_step: "rf_step s s' \<Longrightarrow> rf_spaced s \<Longrightarrow> rf_spaced s'"
proof (induction rule: rf_step.induct)
  case (call i s lst now)
  have "\<forall>pc \<in> set ((fs_pcs s)[i := if refusal_due lst now then RF_Cas lst now else RF_Count]).
      rf_pc_ok (max (fs_latest s) now) pc"
    using call.prems by (intro pcs_ok_update) (auto simp: rf_spaced_def intro: rf_pc_ok_mono)
  moreover have "swapping ((fs_pcs s)[i := if refusal_due lst now then RF_Cas lst now else RF_Count])
      = swapping (fs_pcs s)"
    using call.hyps by (intro swapping_update) auto
  ultimately show ?case using call.prems by (auto simp: rf_spaced_def rf_wins_def)
next
  case (cas_ok i s lst now)
  have pc: "refusal_due lst now" "now \<le> fs_latest s"
    using cas_ok.prems nth_mem [OF cas_ok.hyps(1)] cas_ok.hyps(2) by (auto simp: rf_spaced_def)
  have "\<forall>pc \<in> set ((fs_pcs s)[i := RF_Swap]). rf_pc_ok (fs_latest s) pc"
    using cas_ok.prems by (intro pcs_ok_update) (auto simp: rf_spaced_def)
  moreover have "swapping ((fs_pcs s)[i := RF_Swap]) = Suc (swapping (fs_pcs s))"
    using length_filter_update [OF cas_ok.hyps(1), of "\<lambda>pc. pc = RF_Swap" RF_Swap] cas_ok.hyps(2) by simp
  moreover have "lst \<noteq> 0 \<Longrightarrow> lst + REFUSAL_LOG_INTERVAL_MS \<le> now"
    using pc(1) by (auto simp: refusal_due_def sat_sub_def REFUSAL_LOG_INTERVAL_MS_def split: if_splits)
  ultimately show ?case using cas_ok.prems cas_ok.hyps(3) pc(2)
    by (auto simp: rf_spaced_def rf_wins_def)
next
  case (cas_fail i s lst now)
  have "\<forall>pc \<in> set ((fs_pcs s)[i := RF_Count]). rf_pc_ok (fs_latest s) pc"
    using cas_fail.prems by (intro pcs_ok_update) (auto simp: rf_spaced_def)
  moreover have "swapping ((fs_pcs s)[i := RF_Count]) = swapping (fs_pcs s)"
    using cas_fail.hyps by (intro swapping_update) auto
  ultimately show ?case using cas_fail.prems by (auto simp: rf_spaced_def rf_wins_def)
next
  case (swap i s)
  have "\<forall>pc \<in> set ((fs_pcs s)[i := RF_Idle]). rf_pc_ok (fs_latest s) pc"
    using swap.prems by (intro pcs_ok_update) (auto simp: rf_spaced_def)
  moreover have "Suc (swapping ((fs_pcs s)[i := RF_Idle])) = swapping (fs_pcs s)"
    using length_filter_update [OF swap.hyps(1), of "\<lambda>pc. pc = RF_Swap" RF_Idle] swap.hyps(2) by simp
  ultimately show ?case using swap.prems
    by (auto simp: rf_spaced_def rf_wins_def REFUSAL_LOG_INTERVAL_MS_def)
next
  case (count i s)
  have "\<forall>pc \<in> set ((fs_pcs s)[i := RF_Idle]). rf_pc_ok (fs_latest s) pc"
    using count.prems by (intro pcs_ok_update) (auto simp: rf_spaced_def)
  moreover have "swapping ((fs_pcs s)[i := RF_Idle]) = swapping (fs_pcs s)"
    using count.hyps by (intro swapping_update) auto
  ultimately show ?case using count.prems by (auto simp: rf_spaced_def rf_wins_def)
qed

lemma rf_reachable:
  "rf_step\<^sup>*\<^sup>* (rf_sys_init n) s \<Longrightarrow> rf_accounted s \<and> rf_spaced s"
proof (induction rule: rtranclp_induct)
  case base
  show ?case by (auto simp: rf_accounted_def rf_spaced_def rf_wins_def rf_sys_init_def filter_replicate)
next
  case (step s t)
  then show ?case by (blast intro: rf_accounted_step rf_spaced_step)
qed

section \<open>Properties\<close>

text \<open>
  Refused requests cannot flood the log and none is forgotten, whatever the interleaving of
  the guards' threads and even when the wall clock jumps: the lines of one kind are at least ten
  seconds apart (with the first at \<open>fs_first\<close> and the latest refusal at \<open>fs_latest\<close>, at
  most \<open>1 + (fs_latest - fs_first) / 10000\<close> of them), and once no call is under way every
  refusal (up to the range of the counter) is a line, counted in one, or still in \<open>suppressed\<close>.
\<close>

theorem refusal_log_bounded_and_complete:
  assumes "rf_step\<^sup>*\<^sup>* (rf_sys_init n) s"
  shows "(fs_lines s \<noteq> 0 \<longrightarrow>
            fs_first s + REFUSAL_LOG_INTERVAL_MS * (fs_lines s - 1) \<le> max (fs_latest s) 1) \<and>
         (fs_refusals s < 2 ^ 64 \<and> set (fs_pcs s) \<subseteq> {RF_Idle} \<longrightarrow>
            fs_refusals s = fs_lines s + fs_reported s + fs_suppressed s)"
proof (intro conjI impI)
  have inv: "rf_accounted s" "rf_spaced s" using rf_reachable [OF assms] by simp_all
  assume l: "fs_lines s \<noteq> 0"
  then obtain k where k: "fs_lines s = Suc k" by (cases "fs_lines s") auto
  have "fs_last s \<noteq> 0" using inv(2) l by (auto simp: rf_spaced_def rf_wins_def)
  then have "fs_first s + REFUSAL_LOG_INTERVAL_MS * rf_wins s \<le> fs_last s + REFUSAL_LOG_INTERVAL_MS"
    "fs_last s \<le> max (fs_latest s) 1"
    using inv(2) by (simp_all add: rf_spaced_def)
  moreover have "REFUSAL_LOG_INTERVAL_MS * Suc k \<le> REFUSAL_LOG_INTERVAL_MS * rf_wins s"
    using k by (intro mult_le_mono2) (simp add: rf_wins_def)
  ultimately show "fs_first s + REFUSAL_LOG_INTERVAL_MS * (fs_lines s - 1) \<le> max (fs_latest s) 1"
    using k by (simp add: REFUSAL_LOG_INTERVAL_MS_def)
next
  assume "fs_refusals s < 2 ^ 64 \<and> set (fs_pcs s) \<subseteq> {RF_Idle}"
  moreover from this have "filter (\<lambda>pc. pc \<noteq> RF_Idle) (fs_pcs s) = []" by (auto simp: filter_empty_conv)
  moreover have "rf_accounted s" using rf_reachable [OF assms] by simp
  ultimately show "fs_refusals s = fs_lines s + fs_reported s + fs_suppressed s"
    by (simp add: rf_accounted_def)
qed

lemma rf_one_line_run:
  "rf_step\<^sup>*\<^sup>* (rf_sys_init 1)
     \<lparr> fs_last = 5000, fs_suppressed = 0, fs_pcs = [RF_Idle], fs_refusals = 1, fs_lines = 1,
       fs_reported = 0, fs_first = 5000, fs_latest = 5000 \<rparr>"
proof -
  let ?s = "\<lambda>l f pc. \<lparr> fs_last = l, fs_suppressed = 0, fs_pcs = [pc], fs_refusals = 1, fs_lines = 0,
       fs_reported = 0, fs_first = f, fs_latest = 5000 \<rparr>"
  have "rf_step (rf_sys_init 1) (?s 0 0 (RF_Cas 0 5000))"
    using rf_step.call [of 0 "rf_sys_init 1" 0 5000] by (simp add: rf_sys_init_def refusal_due_def)
  moreover have "rf_step (?s 0 0 (RF_Cas 0 5000)) (?s 5000 5000 RF_Swap)"
    using rf_step.cas_ok [of 0 "?s 0 0 (RF_Cas 0 5000)" 0 5000] by simp
  moreover have "rf_step (?s 5000 5000 RF_Swap)
     \<lparr> fs_last = 5000, fs_suppressed = 0, fs_pcs = [RF_Idle], fs_refusals = 1, fs_lines = 1,
       fs_reported = 0, fs_first = 5000, fs_latest = 5000 \<rparr>"
    using rf_step.swap [of 0 "?s 5000 5000 RF_Swap"] by simp
  ultimately show ?thesis by (meson converse_rtranclp_into_rtranclp rtranclp.rtrancl_refl)
qed

theorem refusal_log_bounded_and_complete_witness:
  "let s = \<lparr> fs_last = 5000, fs_suppressed = 0, fs_pcs = [RF_Idle], fs_refusals = 1, fs_lines = 1,
             fs_reported = 0, fs_first = 5000, fs_latest = 5000 \<rparr>
   in fs_lines s = 1 \<and> fs_refusals s = fs_lines s + fs_reported s + fs_suppressed s"
  using refusal_log_bounded_and_complete [OF rf_one_line_run] by simp

text \<open>
  The Bearer check accepts exactly the configured token: a request matches if and only if its
  \<^verbatim>\<open>Authorization\<close> header is readable text made of the scheme \<open>Bearer\<close> in any case, one
  space, and the expected token itself with nothing before or after it.
\<close>

theorem bearer_matches_exact:
  "bearer_matches lib hs expected \<longleftrightarrow>
     (\<exists>raw scheme. hdr_get hs ''authorization'' = Some raw \<and> lib_to_str lib raw = Some (scheme @ expected) \<and>
        str_get_to BEARER_PREFIX_LEN (scheme @ expected) = Some scheme \<and>
        eq_ignore_ascii_case scheme ''bearer '')"
  by (rule bearer_matches_iff)

end
