(* ===== verification/Http_Server.thy ===== *)
theory Http_Server
  imports Middleware
begin

text \<open>
  The middleware of the embedded server: \<^verbatim>\<open>crates/victauri-plugin/src/mcp/hardening.rs\<close> (body
  deadline and limit, split rate limit, connection closing) and the router of
  \<^verbatim>\<open>crates/victauri-plugin/src/mcp/server.rs\<close> (\<^verbatim>\<open>build_app_full_inner\<close>), with the layers in the
  order the code adds them.  The MCP transport (\<^verbatim>\<open>rmcp\<close>) and the REST and info routes are
  arguments: any function of the application state and the request.  Content types follow from
  the constructor of the response body.
\<close>

section \<open>Bodies\<close>

definition MAX_REQUEST_BODY_BYTES :: nat where
  "MAX_REQUEST_BODY_BYTES = 2 * 1024 * 1024"

definition MAX_SESSION_JSON_BYTES :: nat where
  "MAX_SESSION_JSON_BYTES = 48 * 1024 * 1024"

definition MAX_RECORDING_BODY_BYTES :: nat where
  "MAX_RECORDING_BODY_BYTES = 64 * 1024 * 1024"

definition body_limit :: "string \<Rightarrow> nat" where
  "body_limit path =
     (if path = ''/api/tools/recording'' then MAX_RECORDING_BODY_BYTES else MAX_REQUEST_BODY_BYTES)"

definition json_error :: "nat \<Rightarrow> string \<Rightarrow> response" where
  "json_error status message =
     \<lparr> rp_status = status, rp_headers = [], rp_body = RB_Json (JObject [(''error'', JString message)]) \<rparr>"

definition buffer_body :: "'b http_lib \<Rightarrow> ('a, 'b) service \<Rightarrow> ('a, 'b) service" where
  "buffer_body lib next s rq =
     (let limit = body_limit (rq_path rq)
      in case lib_to_bytes lib (rq_body rq) limit of
           BR_Bytes bytes \<Rightarrow> next s (rq\<lparr>rq_body := Full bytes\<rparr>)
         | BR_Error e \<Rightarrow>
             (if contains_str e ''length limit''
              then (Some (json_error 413 (''request body exceeds the '' @ decimal (limit div (1024 * 1024))
                                            @ '' MiB limit'')), s)
              else (Some (json_error 400 (''failed to read request body: '' @ e)), s))
         | BR_Timeout \<Rightarrow> (Some (json_error 408 ''request body was not received in time''), s))"

definition read_body_with_deadline :: "'b http_lib \<Rightarrow> ('a, 'b) service \<Rightarrow> ('a, 'b) service" where
  "read_body_with_deadline = buffer_body"

section \<open>Rejections and the split rate limit\<close>

definition close_on_rejection :: "('a, 'b) service \<Rightarrow> ('a, 'b) service" where
  "close_on_rejection next s rq =
     map_prod (map_option (\<lambda>r.
       if rp_status r \<in> {401, 403, 415, 429}
       then r\<lparr>rp_headers := hdr_insert ''connection'' ''close'' (rp_headers r)\<rparr> else r)) (\<lambda>s. s)
       (next s rq)"

definition split_rate_limit ::
  "'b http_lib \<Rightarrow> clocks \<Rightarrow> string option \<Rightarrow> ('a, 'b) service \<Rightarrow> ('a, 'b) service" where
  "split_rate_limit lib ck token next s rq =
     (let authenticated =
            (case token of Some t \<Rightarrow> bearer_matches lib (rq_headers rq) t | None \<Rightarrow> False);
          bucket = (if authenticated then sv_authenticated s else sv_public s)
      in case try_acquire (ck_limiter_ms ck) bucket of
           None \<Rightarrow> (None, s)
         | Some (ok, l) \<Rightarrow>
             let s = (if authenticated then s\<lparr>sv_authenticated := l\<rparr> else s\<lparr>sv_public := l\<rparr>)
             in if ok then next s rq else (Some too_many_requests, s))"

section \<open>Router\<close>

definition normalize_auth_token :: "string option \<Rightarrow> string option" where
  "normalize_auth_token auth_token =
     (case auth_token of
        Some t \<Rightarrow> if str_trim t = [] then None else Some t
      | None \<Rightarrow> None)"

definition backfill_stateless_session_id :: "('a, 'b) service \<Rightarrow> ('a, 'b) service" where
  "backfill_stateless_session_id next s rq =
     map_prod (map_option (\<lambda>r.
       r\<lparr>rp_headers := hdr_or_insert ''mcp-session-id'' ''stateless'' (rp_headers r)\<rparr>)) (\<lambda>s. s)
       (next s rq)"

fun json_kind :: "json \<Rightarrow> string" where
  "json_kind (JString _) = ''a string''"
| "json_kind (JArray _) = ''an array''"
| "json_kind (JNumber _) = ''a number''"
| "json_kind _ = ''a boolean''"

text \<open>What is wrong with a \<^verbatim>\<open>tools/call\<close>, if anything.\<close>

definition tool_call_problem :: "json \<Rightarrow> string option" where
  "tool_call_problem call =
     (let params = json_index call ''params'';
          arguments = json_index params ''arguments''
      in if \<not> (json_is_object params \<or> json_is_null params)
         then Some (''tools/call: `params` must be an object, not '' @ json_kind params)
         else if \<not> (json_is_object arguments \<or> json_is_null arguments)
         then Some (''tools/call: `arguments` must be an object holding the tool's parameters, not ''
                    @ json_kind arguments)
         else None)"

definition invalid_params_response :: "json \<Rightarrow> string \<Rightarrow> response" where
  "invalid_params_response call message =
     \<lparr> rp_status = 200, rp_headers = [],
       rp_body = RB_Json (JObject
         [(''error'', JObject [(''code'', JNumber (NegInt (-32602))), (''message'', JString message)]),
          (''id'', json_index call ''id''),
          (''jsonrpc'', JString ''2.0'')]) \<rparr>"

definition refuse_non_object_tool_arguments ::
  "'b http_lib \<Rightarrow> ('a, 'b) service \<Rightarrow> ('a, 'b) service" where
  "refuse_non_object_tool_arguments lib next s rq =
     (case lib_to_bytes lib (rq_body rq) MAX_REQUEST_BODY_BYTES of
        BR_Bytes bytes \<Rightarrow>
          (let problem =
             (case lib_json_parse lib bytes of
                Some call \<Rightarrow>
                  if json_eq (json_index call ''method'') (JString ''tools/call'')
                  then map_option (invalid_params_response call) (tool_call_problem call)
                  else None
              | None \<Rightarrow> None)
           in case problem of
                Some r \<Rightarrow> (Some r, s)
              | None \<Rightarrow> next s (rq\<lparr>rq_body := Full bytes\<rparr>))
      | _ \<Rightarrow> (Some (status_response 413), s))"

definition require_json_from_browsers :: "'b http_lib \<Rightarrow> ('a, 'b) service \<Rightarrow> ('a, 'b) service" where
  "require_json_from_browsers lib next s rq =
     (let has_body_method = (rq_method rq \<notin> {''GET'', ''HEAD'', ''OPTIONS''});
          is_json =
            (case Option.bind (hdr_get (rq_headers rq) ''content-type'') (lib_to_str lib) of
               None \<Rightarrow> False
             | Some ct \<Rightarrow>
                 eq_ignore_ascii_case (str_trim (hd (split_on (\<lambda>c. c = CHR '';'') ct))) ''application/json'')
      in if has_body_method \<and> hdr_get (rq_headers rq) ''origin'' \<noteq> None \<and> \<not> is_json
         then (Some \<lparr> rp_status = 415, rp_headers = [],
                 rp_body = RB_Text ''browser-originated requests must send Content-Type: application/json'' \<rparr>, s)
         else next s rq)"

text \<open>A route handler: it sees the application state and the request, nothing of the server.\<close>

type_synonym ('a, 'b) handler = "'a \<Rightarrow> 'b request \<Rightarrow> response \<times> 'a"

definition run_handler :: "('a, 'b) handler \<Rightarrow> ('a, 'b) service" where
  "run_handler h s rq = (let (r, a) = h (sv_app s) rq in (Some r, s\<lparr>sv_app := a\<rparr>))"

text \<open>
  The routes: \<open>mcp\<close> is the MCP transport, \<open>rest\<close> the REST and info routes with axum's
  answer for unknown paths, \<open>get_route\<close> axum's method router around the answer of
  \<^verbatim>\<open>/health\<close>.
\<close>

record ('a, 'b) routes =
  rt_mcp :: "('a, 'b) handler"
  rt_rest :: "('a, 'b) handler"
  rt_get_route :: "response \<Rightarrow> string \<Rightarrow> response"

definition health_response :: response where
  "health_response =
     \<lparr> rp_status = 200, rp_headers = [], rp_body = RB_Json (JObject [(''status'', JString ''ok'')]) \<rparr>"

definition api_routes :: "'b http_lib \<Rightarrow> bool \<Rightarrow> ('a, 'b) routes \<Rightarrow> ('a, 'b) service" where
  "api_routes lib stateful rt s rq =
     (if rq_path rq = ''/mcp''
      then (let mcp = refuse_non_object_tool_arguments lib (run_handler (rt_mcp rt))
            in if stateful then mcp s rq else backfill_stateless_session_id mcp s rq)
      else run_handler (rt_rest rt) s rq)"

definition build_app_full_inner ::
  "'b http_lib \<Rightarrow> ('a, 'b) routes \<Rightarrow> string option \<Rightarrow> bool \<Rightarrow> clocks \<Rightarrow> ('a, 'b) service" where
  "build_app_full_inner lib rt auth_token stateful ck =
     (let token = normalize_auth_token auth_token;
          api = read_body_with_deadline lib (api_routes lib stateful rt);
          api = (if token \<noteq> None then require_auth lib ck token api else api);
          router = (\<lambda>s rq. if rq_path rq = ''/health''
                           then (Some (rt_get_route rt health_response (rq_method rq)), s) else api s rq)
      in close_on_rejection
           (dns_rebinding_guard lib ck
             (origin_guard lib ck
               (security_headers
                 (require_json_from_browsers lib
                   (split_rate_limit lib ck token router))))))"

definition build_app_full :: "'b http_lib \<Rightarrow> ('a, 'b) routes \<Rightarrow> string option \<Rightarrow> clocks \<Rightarrow> ('a, 'b) service" where
  "build_app_full lib rt auth_token ck = build_app_full_inner lib rt auth_token False ck"

definition build_app_with_options ::
  "'b http_lib \<Rightarrow> ('a, 'b) routes \<Rightarrow> string option \<Rightarrow> clocks \<Rightarrow> ('a, 'b) service" where
  "build_app_with_options lib rt auth_token ck = build_app_full lib rt auth_token ck"

definition build_app :: "'b http_lib \<Rightarrow> ('a, 'b) routes \<Rightarrow> clocks \<Rightarrow> ('a, 'b) service" where
  "build_app lib rt ck = build_app_with_options lib rt None ck"

definition build_app_stateful ::
  "'b http_lib \<Rightarrow> ('a, 'b) routes \<Rightarrow> string option \<Rightarrow> clocks \<Rightarrow> ('a, 'b) service" where
  "build_app_stateful lib rt auth_token ck = build_app_full_inner lib rt auth_token True ck"

text \<open>The state \<^verbatim>\<open>build_app_full_inner\<close> starts from.\<close>

definition server_new :: "rate_limiter option \<Rightarrow> 'a \<Rightarrow> 'a server" where
  "server_new rate_limiter app =
     (let limiter = (case rate_limiter of Some l \<Rightarrow> l | None \<Rightarrow> default_rate_limiter)
      in \<lparr> sv_public = limiter, sv_authenticated = rate_limiter_new (max_tokens limiter),
           sv_auth_refusals = refusal_log_new, sv_host_refusals = refusal_log_new,
           sv_origin_refusals = refusal_log_new, sv_warnings = [], sv_app = app \<rparr>)"

section \<open>What the guards accept\<close>

definition origin_accepted :: "'b http_lib \<Rightarrow> headers \<Rightarrow> bool" where
  "origin_accepted lib hs \<longleftrightarrow>
     hdr_get hs ''sec-fetch-site'' \<in> {None, Some ''none''} \<and>
     (\<forall>raw. hdr_get hs ''origin'' = Some raw \<longrightarrow>
        (\<exists>text. lib_to_str lib raw = Some text \<and> is_allowed_origin (lib_url_parse lib) text))"

definition json_body_accepted :: "'b http_lib \<Rightarrow> 'b request \<Rightarrow> bool" where
  "json_body_accepted lib rq \<longleftrightarrow>
     rq_method rq \<in> {''GET'', ''HEAD'', ''OPTIONS''} \<or> hdr_get (rq_headers rq) ''origin'' = None \<or>
     (\<exists>raw ct. hdr_get (rq_headers rq) ''content-type'' = Some raw \<and> lib_to_str lib raw = Some ct \<and>
        eq_ignore_ascii_case (str_trim (hd (split_on (\<lambda>c. c = CHR '';'') ct))) ''application/json'')"

definition bearer_ok :: "'b http_lib \<Rightarrow> string option \<Rightarrow> headers \<Rightarrow> bool" where
  "bearer_ok lib token hs = (case token of Some t \<Rightarrow> bearer_matches lib hs t | None \<Rightarrow> False)"

text \<open>Each guard is its test, the next service when it holds and a refusal when it does not.\<close>

lemma refused_keeps:
  "sv_app (auth_refused ck s) = sv_app s" "sv_app (host_refused ck s) = sv_app s"
  "sv_app (origin_refused mk ck s) = sv_app s"
  "sv_public (auth_refused ck s) = sv_public s" "sv_public (host_refused ck s) = sv_public s"
  "sv_public (origin_refused mk ck s) = sv_public s"
  "sv_authenticated (auth_refused ck s) = sv_authenticated s"
  "sv_authenticated (host_refused ck s) = sv_authenticated s"
  "sv_authenticated (origin_refused mk ck s) = sv_authenticated s"
  by (simp_all add: auth_refused_def host_refused_def origin_refused_def split: prod.splits)

lemma origin_guard_pass: "origin_accepted lib (rq_headers rq) \<Longrightarrow> origin_guard lib ck next s rq = next s rq"
  by (auto simp: origin_accepted_def origin_guard_def Let_def split: option.splits)

lemma origin_guard_refuse:
  "\<not> origin_accepted lib (rq_headers rq) \<Longrightarrow>
   \<exists>mk. origin_guard lib ck next s rq = (Some (status_response 403), origin_refused mk ck s)"
  by (auto simp: origin_accepted_def origin_guard_def Let_def split: option.splits)

lemma require_json_pass:
  "json_body_accepted lib rq \<Longrightarrow> require_json_from_browsers lib next s rq = next s rq"
  by (auto simp: json_body_accepted_def require_json_from_browsers_def Let_def bind_eq_None_conv
      split: option.splits)

lemma require_json_refuse:
  "\<not> json_body_accepted lib rq \<Longrightarrow>
   \<exists>r. require_json_from_browsers lib next s rq = (Some r, s) \<and> rp_status r = 415"
  by (auto simp: json_body_accepted_def require_json_from_browsers_def Let_def
      split: option.splits bind_splits)

lemma security_headers_eq:
  "security_headers next s rq =
     (map_option add_security_headers (fst (next s rq)), snd (next s rq))"
  by (simp add: security_headers_def map_prod_def split_beta)

lemma close_on_rejection_snd: "snd (close_on_rejection next s rq) = snd (next s rq)"
  by (simp add: close_on_rejection_def)

lemma close_on_rejection_closes:
  assumes "fst (close_on_rejection next s rq) = Some r" "rp_status r \<in> {401, 403, 415, 429}"
  shows "hdr_get (rp_headers r) ''connection'' = Some ''close''"
proof -
  obtain q where q: "fst (next s rq) = Some q"
      "r = (if rp_status q \<in> {401, 403, 415, 429}
            then q\<lparr>rp_headers := hdr_insert ''connection'' ''close'' (rp_headers q)\<rparr> else q)"
    using assms(1) by (auto simp: close_on_rejection_def)
  then have "r = q\<lparr>rp_headers := hdr_insert ''connection'' ''close'' (rp_headers q)\<rparr>"
    using assms(2) by (auto split: if_splits)
  then show ?thesis by (simp add: hdr_get_insert)
qed

lemma backfill_snd: "snd (backfill_stateless_session_id next s rq) = snd (next s rq)"
  by (simp add: backfill_stateless_session_id_def)

lemma add_security_headers_status [simp]: "rp_status (add_security_headers r) = rp_status r"
  by (simp add: add_security_headers_def)

text \<open>What runs behind the guards.\<close>

definition guarded ::
  "'b http_lib \<Rightarrow> ('a, 'b) routes \<Rightarrow> string option \<Rightarrow> bool \<Rightarrow> clocks \<Rightarrow> ('a, 'b) service" where
  "guarded lib rt token stateful ck =
     (let api = read_body_with_deadline lib (api_routes lib stateful rt);
          api = (if token \<noteq> None then require_auth lib ck token api else api)
      in (\<lambda>s rq. if rq_path rq = ''/health''
                 then (Some (rt_get_route rt health_response (rq_method rq)), s) else api s rq))"

lemma build_app_guarded:
  "build_app_full_inner lib rt tok stateful ck =
     close_on_rejection (dns_rebinding_guard lib ck (origin_guard lib ck (security_headers
       (require_json_from_browsers lib (split_rate_limit lib ck (normalize_auth_token tok)
         (guarded lib rt (normalize_auth_token tok) stateful ck))))))"
  by (simp add: build_app_full_inner_def guarded_def Let_def)

definition guards_accept :: "'b http_lib \<Rightarrow> 'b request \<Rightarrow> bool" where
  "guards_accept lib rq \<longleftrightarrow>
     is_localhost_host (request_host lib (rq_headers rq)) \<and> origin_accepted lib (rq_headers rq) \<and>
     json_body_accepted lib rq"

lemma build_app_accepted:
  assumes "guards_accept lib rq"
  shows "snd (build_app_full_inner lib rt tok stateful ck s rq) =
           snd (split_rate_limit lib ck (normalize_auth_token tok)
                  (guarded lib rt (normalize_auth_token tok) stateful ck) s rq)"
  using assms
  by (simp add: build_app_guarded guards_accept_def close_on_rejection_snd dns_rebinding_guard_def
      origin_guard_pass security_headers_eq require_json_pass)

lemma build_app_refused:
  assumes "\<not> guards_accept lib rq"
  shows "sv_app (snd (build_app_full_inner lib rt tok stateful ck s rq)) = sv_app s \<and>
         sv_public (snd (build_app_full_inner lib rt tok stateful ck s rq)) = sv_public s \<and>
         sv_authenticated (snd (build_app_full_inner lib rt tok stateful ck s rq)) = sv_authenticated s"
proof (cases "is_localhost_host (request_host lib (rq_headers rq))")
  case False
  then show ?thesis
    by (simp add: build_app_guarded close_on_rejection_snd dns_rebinding_guard_def refused_keeps)
next
  case host: True
  show ?thesis
  proof (cases "origin_accepted lib (rq_headers rq)")
    case False
    obtain mk where "origin_guard lib ck (security_headers
        (require_json_from_browsers lib (split_rate_limit lib ck (normalize_auth_token tok)
          (guarded lib rt (normalize_auth_token tok) stateful ck)))) s rq
        = (Some (status_response 403), origin_refused mk ck s)"
      using origin_guard_refuse [OF False] by blast
    then show ?thesis using host
      by (simp add: build_app_guarded close_on_rejection_snd dns_rebinding_guard_def refused_keeps)
  next
    case True
    then have "\<not> json_body_accepted lib rq" using assms host by (simp add: guards_accept_def)
    then obtain r where "require_json_from_browsers lib (split_rate_limit lib ck (normalize_auth_token tok)
          (guarded lib rt (normalize_auth_token tok) stateful ck)) s rq = (Some r, s)"
      using require_json_refuse by blast
    then show ?thesis using host True
      by (simp add: build_app_guarded close_on_rejection_snd dns_rebinding_guard_def origin_guard_pass
          security_headers_eq)
  qed
qed

lemma build_app_refused_status:
  assumes "\<not> guards_accept lib rq"
  shows "\<exists>r. fst (build_app_full_inner lib rt tok stateful ck s rq) = Some r \<and> rp_status r \<in> {403, 415}"
proof (cases "is_localhost_host (request_host lib (rq_headers rq))")
  case False
  then show ?thesis
    by (simp add: build_app_guarded close_on_rejection_def dns_rebinding_guard_def status_response_def)
next
  case host: True
  show ?thesis
  proof (cases "origin_accepted lib (rq_headers rq)")
    case False
    obtain mk where "origin_guard lib ck (security_headers
        (require_json_from_browsers lib (split_rate_limit lib ck (normalize_auth_token tok)
          (guarded lib rt (normalize_auth_token tok) stateful ck)))) s rq
        = (Some (status_response 403), origin_refused mk ck s)"
      using origin_guard_refuse [OF False] by blast
    then show ?thesis using host
      by (simp add: build_app_guarded close_on_rejection_def dns_rebinding_guard_def status_response_def)
  next
    case True
    then have "\<not> json_body_accepted lib rq" using assms host by (simp add: guards_accept_def)
    then obtain r where "require_json_from_browsers lib (split_rate_limit lib ck (normalize_auth_token tok)
          (guarded lib rt (normalize_auth_token tok) stateful ck)) s rq = (Some r, s)" "rp_status r = 415"
      using require_json_refuse by blast
    then show ?thesis using host True
      by (simp add: build_app_guarded close_on_rejection_def dns_rebinding_guard_def origin_guard_pass
          security_headers_eq)
  qed
qed

text \<open>The routes change nothing of the server but the application state.\<close>

lemma run_handler_keeps:
  "sv_public (snd (run_handler h s rq)) = sv_public s"
  "sv_authenticated (snd (run_handler h s rq)) = sv_authenticated s"
  by (simp_all add: run_handler_def split: prod.splits)

lemma refuse_non_object_keeps:
  "sv_public (snd (refuse_non_object_tool_arguments lib (run_handler h) s rq)) = sv_public s"
  "sv_authenticated (snd (refuse_non_object_tool_arguments lib (run_handler h) s rq)) = sv_authenticated s"
  by (auto simp: refuse_non_object_tool_arguments_def run_handler_keeps Let_def
      split: body_read.splits option.splits)

lemma api_routes_keeps:
  "sv_public (snd (api_routes lib st rt s rq)) = sv_public s"
  "sv_authenticated (snd (api_routes lib st rt s rq)) = sv_authenticated s"
  by (simp_all add: api_routes_def run_handler_keeps refuse_non_object_keeps backfill_snd Let_def)

lemma read_body_keeps:
  "sv_public (snd (read_body_with_deadline lib (api_routes lib st rt) s rq)) = sv_public s"
  "sv_authenticated (snd (read_body_with_deadline lib (api_routes lib st rt) s rq)) = sv_authenticated s"
  by (auto simp: read_body_with_deadline_def buffer_body_def api_routes_keeps Let_def split: body_read.splits)

lemma guarded_keeps:
  "sv_public (snd (guarded lib rt token st ck s rq)) = sv_public s"
  "sv_authenticated (snd (guarded lib rt token st ck s rq)) = sv_authenticated s"
  by (auto simp: guarded_def require_auth_def read_body_keeps refused_keeps Let_def split: option.splits)

lemma guarded_without_bearer:
  assumes "token \<noteq> None" "\<not> bearer_ok lib token (rq_headers rq)"
  shows "guarded lib rt token st ck s rq =
           (if rq_path rq = ''/health'' then (Some (rt_get_route rt health_response (rq_method rq)), s)
            else (Some (status_response 401), auth_refused ck s))"
  using assms by (auto simp: guarded_def require_auth_def bearer_ok_def Let_def)

lemma split_rate_limit_eq:
  "split_rate_limit lib ck token next s rq =
     (if bearer_ok lib token (rq_headers rq)
      then (case try_acquire (ck_limiter_ms ck) (sv_authenticated s) of
              None \<Rightarrow> (None, s)
            | Some (ok, l) \<Rightarrow> if ok then next (s\<lparr>sv_authenticated := l\<rparr>) rq
                              else (Some too_many_requests, s\<lparr>sv_authenticated := l\<rparr>))
      else (case try_acquire (ck_limiter_ms ck) (sv_public s) of
              None \<Rightarrow> (None, s)
            | Some (ok, l) \<Rightarrow> if ok then next (s\<lparr>sv_public := l\<rparr>) rq
                              else (Some too_many_requests, s\<lparr>sv_public := l\<rparr>)))"
  by (simp add: split_rate_limit_def bearer_ok_def Let_def split: option.splits)

section \<open>Properties\<close>

text \<open>
  A concrete instance of the library functions, for the witnesses: header text is printable ASCII,
  bodies are the bytes given, no URL parses and no JSON parses.
\<close>

definition plain_lib :: "string http_lib" where
  "plain_lib =
     \<lparr> lib_to_str = (\<lambda>v. if list_all (\<lambda>c. 32 \<le> (of_char c :: nat) \<and> of_char c < (127 :: nat)) v then Some v else None),
       lib_url_parse = (\<lambda>_. None),
       lib_to_bytes = (\<lambda>b n. case b of
          Incoming s \<Rightarrow> (if length s \<le> n then BR_Bytes s else BR_Error ''length limit exceeded'')
        | Full s \<Rightarrow> (if length s \<le> n then BR_Bytes s else BR_Error ''length limit exceeded'')),
       lib_json_parse = (\<lambda>_. None) \<rparr>"

definition counting_routes :: "(nat, string) routes" where
  "counting_routes =
     \<lparr> rt_mcp = (\<lambda>a rq. (status_response 200, a + 1)), rt_rest = (\<lambda>a rq. (status_response 200, a + 1)),
       rt_get_route = (\<lambda>r m. r) \<rparr>"

definition plain_request :: "string \<Rightarrow> headers \<Rightarrow> string request" where
  "plain_request host hs =
     \<lparr> rq_method = ''POST'', rq_path = ''/info'', rq_headers = (''host'', host) # hs, rq_body = Incoming ''x'' \<rparr>"

definition zero_clocks :: clocks where
  "zero_clocks = \<lparr> ck_limiter_ms = 0, ck_wall_ms = 0 \<rparr>"

text \<open>
  (C1) The authentication boundary.  With a token configured, whatever the MCP transport and the
  REST routes do with a request, the application state can only change for a request that names a
  loopback host, that no web page on a foreign origin sent, and that presents the configured
  token as its Bearer credential.  This holds for every route, mode, clock and library behaviour.
\<close>

theorem app_effect_needs_credentials:
  assumes "normalize_auth_token tok = Some t"
    and "sv_app (snd (build_app_full_inner lib rt tok stateful ck s rq)) \<noteq> sv_app s"
  shows "is_localhost_host (request_host lib (rq_headers rq)) \<and> origin_accepted lib (rq_headers rq) \<and>
         bearer_matches lib (rq_headers rq) t"
proof -
  have g: "guards_accept lib rq" using assms(2) build_app_refused by blast
  have "bearer_ok lib (Some t) (rq_headers rq)"
  proof (rule ccontr)
    assume nb: "\<not> bearer_ok lib (Some t) (rq_headers rq)"
    have "sv_app (snd (split_rate_limit lib ck (Some t) (guarded lib rt (Some t) stateful ck) s rq)) = sv_app s"
      using nb by (auto simp: split_rate_limit_eq guarded_without_bearer refused_keeps
          split: option.splits)
    then show False using assms build_app_accepted [OF g, of rt tok stateful ck s] by simp
  qed
  then show ?thesis using g by (simp add: guards_accept_def bearer_ok_def)
qed

theorem app_effect_needs_credentials_witness:
  "bearer_matches plain_lib
     (rq_headers (plain_request ''localhost'' [(''authorization'', ''bearer s3cret'')])) ''s3cret''"
proof -
  have t: "normalize_auth_token (Some ''s3cret'') = Some ''s3cret''" by code_simp
  let ?rq = "plain_request ''localhost'' [(''authorization'', ''bearer s3cret'')]"
  have ok: "is_localhost_host (request_host plain_lib (rq_headers ?rq))"
    "bearer_matches plain_lib (rq_headers ?rq) ''s3cret''" by code_simp+
  have "guards_accept plain_lib ?rq"
    using ok(1) by (simp add: guards_accept_def origin_accepted_def json_body_accepted_def plain_request_def)
  then have "sv_app (snd (build_app_full_inner plain_lib counting_routes (Some ''s3cret'') False zero_clocks
      (server_new None 0) ?rq)) \<noteq> sv_app (server_new None (0 :: nat))"
    using ok(2) t
    by (simp add: build_app_accepted split_rate_limit_eq bearer_ok_def guarded_def require_auth_def
        read_body_with_deadline_def buffer_body_def api_routes_def run_handler_def counting_routes_def
        plain_request_def plain_lib_def server_new_def default_rate_limiter_def DEFAULT_RATE_LIMIT_def
        rate_limiter_new_def max_tokens_def try_acquire_def refill_def zero_clocks_def sat_sub_def
        body_limit_def MAX_REQUEST_BODY_BYTES_def Let_def)
  from app_effect_needs_credentials [OF t this] show ?thesis by simp
qed

text \<open>
  A request the browser guards refuse costs nothing: when the host is not loopback, the origin
  is not allowed or a browser sends a body that is not JSON, the answer is 403 or 415 and neither
  rate-limit bucket nor the application state is touched, so a web page can drain no budget.
\<close>

theorem guard_refusal_spends_no_token:
  assumes "\<not> (is_localhost_host (request_host lib (rq_headers rq)) \<and> origin_accepted lib (rq_headers rq) \<and>
              json_body_accepted lib rq)"
    and "build_app_full_inner lib rt tok stateful ck s rq = (answer, s')"
  shows "(\<exists>r. answer = Some r \<and> rp_status r \<in> {403, 415}) \<and>
         sv_public s' = sv_public s \<and> sv_authenticated s' = sv_authenticated s \<and> sv_app s' = sv_app s"
proof -
  have ng: "\<not> guards_accept lib rq" using assms(1) by (simp add: guards_accept_def)
  show ?thesis
    using build_app_refused [OF ng, of rt tok stateful ck s]
      build_app_refused_status [OF ng, of rt tok stateful ck s] assms(2) by simp
qed

theorem guard_refusal_spends_no_token_witness:
  "sv_public (snd (build_app_full_inner plain_lib counting_routes None False zero_clocks
      (server_new None 0) (plain_request ''localhost.evil.com'' []))) = sv_public (server_new None (0 :: nat))"
proof -
  let ?rq = "plain_request ''localhost.evil.com'' []"
  have "\<not> is_localhost_host (request_host plain_lib (rq_headers ?rq))" by code_simp
  then have "\<not> (is_localhost_host (request_host plain_lib (rq_headers ?rq)) \<and>
      origin_accepted plain_lib (rq_headers ?rq) \<and> json_body_accepted plain_lib ?rq)" by simp
  from guard_refusal_spends_no_token [OF this, of counting_routes None False zero_clocks "server_new None 0"]
  show ?thesis by (metis prod.collapse)
qed

text \<open>
  Callers that cannot authenticate cannot exhaust the agent's budget: a request without the
  configured token leaves the bucket of authenticated callers exactly as it was, whatever its
  path, headers and body.
\<close>

theorem authenticated_bucket_isolated:
  assumes "\<forall>t. normalize_auth_token tok = Some t \<longrightarrow> \<not> bearer_matches lib (rq_headers rq) t"
  shows "sv_authenticated (snd (build_app_full_inner lib rt tok stateful ck s rq)) = sv_authenticated s"
proof (cases "guards_accept lib rq")
  case True
  have nb: "\<not> bearer_ok lib (normalize_auth_token tok) (rq_headers rq)"
    using assms by (auto simp: bearer_ok_def split: option.splits)
  show ?thesis using nb
    by (auto simp: build_app_accepted [OF True] split_rate_limit_eq guarded_keeps split: option.splits)
qed (use build_app_refused in blast)

theorem authenticated_bucket_isolated_witness:
  "sv_authenticated (snd (build_app_full_inner plain_lib counting_routes (Some ''s3cret'') False zero_clocks
      (server_new None 0) (plain_request ''localhost'' [(''authorization'', ''bearer wrong'')])))
   = sv_authenticated (server_new None (0 :: nat))"
proof -
  have "\<not> bearer_matches plain_lib (rq_headers (plain_request ''localhost'' [(''authorization'', ''bearer wrong'')])) ''s3cret''"
    "normalize_auth_token (Some ''s3cret'') = Some ''s3cret''"
    by code_simp+
  then have "\<forall>t. normalize_auth_token (Some ''s3cret'') = Some t \<longrightarrow> \<not> bearer_matches plain_lib
      (rq_headers (plain_request ''localhost'' [(''authorization'', ''bearer wrong'')])) t" by simp
  from authenticated_bucket_isolated [OF this] show ?thesis .
qed

text \<open>
  Every refusal closes its connection: an answer with status 401, 403, 415 or 429, from any
  guard or from a route itself, carries \<^verbatim>\<open>Connection: close\<close>.
\<close>

theorem rejections_close_connection:
  assumes "fst (build_app_full_inner lib rt tok stateful ck s rq) = Some r"
    and "rp_status r \<in> {401, 403, 415, 429}"
  shows "hdr_get (rp_headers r) ''connection'' = Some ''close''"
proof -
  obtain next' where "build_app_full_inner lib rt tok stateful ck = close_on_rejection next'"
    by (simp add: build_app_guarded)
  then show ?thesis using assms close_on_rejection_closes by metis
qed

theorem rejections_close_connection_witness:
  "hdr_get (rp_headers (the (fst (build_app_full_inner plain_lib counting_routes None False zero_clocks
      (server_new None (0 :: nat)) (plain_request ''evil.com'' []))))) ''connection'' = Some ''close''"
proof -
  let ?a = "fst (build_app_full_inner plain_lib counting_routes None False zero_clocks
      (server_new None (0 :: nat)) (plain_request ''evil.com'' []))"
  have "?a \<noteq> None" "rp_status (the ?a) = 403" by code_simp+
  then show ?thesis
    using rejections_close_connection [of plain_lib counting_routes None False zero_clocks
        "server_new None (0 :: nat)" "plain_request ''evil.com'' []" "the ?a"] by simp
qed

text \<open>
  No body is read for a caller that cannot authenticate: with a token configured, the answer
  and the new state of a request without it do not depend on what reading its body would give
  (replacing the reader by any other changes nothing), so such a caller cannot tie up a request
  slot by trickling a body.
\<close>

theorem unauthenticated_body_not_read:
  assumes "normalize_auth_token tok = Some t" "\<not> bearer_matches lib (rq_headers rq) t"
  shows "build_app_full_inner (lib\<lparr>lib_to_bytes := reader\<rparr>) rt tok stateful ck s rq =
         build_app_full_inner lib rt tok stateful ck s rq"
proof -
  let ?lib = "lib\<lparr>lib_to_bytes := reader\<rparr>"
  have bm: "bearer_matches ?lib = bearer_matches lib"
    by (intro ext) (simp add: bearer_matches_def)
  have g: "guarded l rt (Some t) stateful ck s rq =
      (if rq_path rq = ''/health'' then (Some (rt_get_route rt health_response (rq_method rq)), s)
       else (Some (status_response 401), auth_refused ck s))" if "l = lib \<or> l = ?lib" for l s
    using that assms(2) bm by (intro guarded_without_bearer) (auto simp: bearer_ok_def)
  have "split_rate_limit ?lib ck (Some t) (guarded ?lib rt (Some t) stateful ck) s rq =
        split_rate_limit lib ck (Some t) (guarded lib rt (Some t) stateful ck) s rq"
    using assms(2) by (simp add: split_rate_limit_def bm g Let_def split: option.splits)
  then show ?thesis
    by (simp add: build_app_guarded assms(1) close_on_rejection_def dns_rebinding_guard_def origin_guard_def
        security_headers_def require_json_from_browsers_def request_host_def Let_def split: option.splits)
qed

theorem unauthenticated_body_not_read_witness:
  "build_app_full_inner (plain_lib\<lparr>lib_to_bytes := (\<lambda>_ _. BR_Timeout)\<rparr>) counting_routes (Some ''s3cret'') False
      zero_clocks (server_new None 0) (plain_request ''localhost'' []) =
   build_app_full_inner plain_lib counting_routes (Some ''s3cret'') False zero_clocks (server_new None 0)
      (plain_request ''localhost'' [])"
proof -
  have "normalize_auth_token (Some ''s3cret'') = Some ''s3cret''"
    "\<not> bearer_matches plain_lib (rq_headers (plain_request ''localhost'' [])) ''s3cret''"
    by code_simp+
  then show ?thesis by (rule unauthenticated_body_not_read)
qed

text \<open>
  No route ever sees a body above its limit or one still arriving: provided
  \<^verbatim>\<open>axum::body::to_bytes\<close> keeps its documented limit, the server cannot tell two sets of routes
  apart that agree on fully received bodies of at most 2 MiB (64 MiB for
  \<^verbatim>\<open>/api/tools/recording\<close>); what they would do with anything else is never asked.
\<close>

theorem routes_see_bounded_bodies:
  assumes limit: "\<forall>b n bytes. lib_to_bytes lib b n = BR_Bytes bytes \<longrightarrow> length bytes \<le> n"
    and agree: "\<forall>a q bytes. rq_body q = Full bytes \<and> length bytes \<le> body_limit (rq_path q) \<longrightarrow>
                  rt_mcp rt a q = rt_mcp rt' a q \<and> rt_rest rt a q = rt_rest rt' a q"
    and get: "rt_get_route rt = rt_get_route rt'"
  shows "build_app_full_inner lib rt tok stateful ck s rq = build_app_full_inner lib rt' tok stateful ck s rq"
proof -
  have run: "run_handler (rt_rest rt) s q = run_handler (rt_rest rt') s q"
      "run_handler (rt_mcp rt) s q = run_handler (rt_mcp rt') s q"
    if "rq_body q = Full bytes" "length bytes \<le> body_limit (rq_path q)" for s q bytes
    using agree that by (simp_all add: run_handler_def)
  have mcp: "refuse_non_object_tool_arguments lib (run_handler (rt_mcp rt)) s q =
      refuse_non_object_tool_arguments lib (run_handler (rt_mcp rt')) s q"
    if "rq_path q = ''/mcp''" for s q
    using limit that
    by (auto simp: refuse_non_object_tool_arguments_def Let_def body_limit_def
        intro!: run split: body_read.splits option.splits)
  have "api_routes lib stateful rt s q = api_routes lib stateful rt' s q"
    if "rq_body q = Full bytes" "length bytes \<le> body_limit (rq_path q)" for s q bytes
    using that by (auto simp: api_routes_def mcp run backfill_stateless_session_id_def Let_def)
  then have "read_body_with_deadline lib (api_routes lib stateful rt) =
      read_body_with_deadline lib (api_routes lib stateful rt')"
    using limit by (intro ext)
      (auto simp: read_body_with_deadline_def buffer_body_def Let_def split: body_read.splits)
  then show ?thesis unfolding build_app_full_inner_def get by simp
qed

theorem routes_see_bounded_bodies_witness:
  "build_app_full_inner plain_lib counting_routes None False zero_clocks (server_new None 0) (plain_request ''localhost'' [])
   = build_app_full_inner plain_lib
       (counting_routes\<lparr>rt_rest := (\<lambda>a q. case rq_body q of Full _ \<Rightarrow> (status_response 200, a + 1)
                                           | Incoming _ \<Rightarrow> (status_response 500, 0))\<rparr>)
       None False zero_clocks (server_new None 0) (plain_request ''localhost'' [])"
  by (rule routes_see_bounded_bodies)
    (auto simp: plain_lib_def counting_routes_def split: body.splits if_splits)

end
