(* ===== verification/Serve.thy ===== *)
theory Serve
  imports Middleware
begin

text \<open>
  The serve loop of \<^verbatim>\<open>crates/victauri-plugin/src/mcp/hardening.rs\<close> (\<^verbatim>\<open>serve_hardened\<close> and
  \<^verbatim>\<open>admit\<close>) as a step relation: the accept loop and one task per connection, sharing the two
  semaphores.  Timers, peers and the runtime decide nondeterministically which step comes next; a
  permit is held exactly in the phases in which the code holds it.
\<close>

section \<open>State\<close>

record serve_limits =
  max_connections :: nat
  header_read_timeout_ms :: nat
  max_pending :: nat
  first_byte_timeout_ms :: nat

definition serve_limits_DEFAULT :: serve_limits where
  "serve_limits_DEFAULT =
     \<lparr> max_connections = 256, header_read_timeout_ms = 10000, max_pending = 1024,
       first_byte_timeout_ms = 3000 \<rparr>"

datatype conn_phase =
    CP_Silent      \<comment> \<open>accepted, no byte seen: \<^verbatim>\<open>admit\<close> peeks under \<open>first_byte_timeout\<close>\<close>
  | CP_Spoke       \<comment> \<open>first byte seen, waits for a slot\<close>
  | CP_Serving     \<comment> \<open>holds a slot\<close>
  | CP_Draining    \<comment> \<open>holds a slot, told to shut down\<close>
  | CP_Closed

record conn =
  cn_phase :: conn_phase
  cn_bytes_seen :: bool

datatype serve_loop =
    SL_Acquire     \<comment> \<open>waits for a permit of \<open>pending\<close>\<close>
  | SL_Accepting   \<comment> \<open>holds one, waits for a client\<close>
  | SL_Backoff     \<comment> \<open>\<^verbatim>\<open>accept\<close> failed: sleeps, still holding it\<close>
  | SL_Draining    \<comment> \<open>left the loop, signalled the connections\<close>
  | SL_Returned

record serve_sys =
  ss_loop :: serve_loop
  ss_conns :: "conn list"

definition holds_pending :: "conn \<Rightarrow> bool" where
  "holds_pending c = (cn_phase c \<in> {CP_Silent, CP_Spoke})"

definition holds_slot :: "conn \<Rightarrow> bool" where
  "holds_slot c = (cn_phase c \<in> {CP_Serving, CP_Draining})"

definition pending_used :: "serve_sys \<Rightarrow> nat" where
  "pending_used s =
     of_bool (ss_loop s \<in> {SL_Accepting, SL_Backoff}) + length (filter holds_pending (ss_conns s))"

definition slots_used :: "serve_sys \<Rightarrow> nat" where
  "slots_used s = length (filter holds_slot (ss_conns s))"

definition set_phase :: "serve_sys \<Rightarrow> nat \<Rightarrow> conn_phase \<Rightarrow> serve_sys" where
  "set_phase s i ph = s\<lparr>ss_conns := (ss_conns s)[i := (ss_conns s ! i)\<lparr>cn_phase := ph\<rparr>]\<rparr>"

definition serve_init :: serve_sys where
  "serve_init = \<lparr> ss_loop = SL_Acquire, ss_conns = [] \<rparr>"

abbreviation at_phase :: "serve_sys \<Rightarrow> nat \<Rightarrow> conn_phase \<Rightarrow> bool" where
  "at_phase s i ph \<equiv> i < length (ss_conns s) \<and> cn_phase (ss_conns s ! i) = ph"

section \<open>Steps\<close>

inductive serve_step :: "serve_limits \<Rightarrow> serve_sys \<Rightarrow> serve_sys \<Rightarrow> bool" for limits where
  acquire: "ss_loop s = SL_Acquire \<Longrightarrow> pending_used s < max_pending limits \<Longrightarrow>
    serve_step limits s (s\<lparr>ss_loop := SL_Accepting\<rparr>)"
| accept: "ss_loop s = SL_Accepting \<Longrightarrow>
    serve_step limits s (s\<lparr>ss_loop := SL_Acquire,
      ss_conns := ss_conns s @ [\<lparr> cn_phase = CP_Silent, cn_bytes_seen = False \<rparr>]\<rparr>)"
| accept_error: "ss_loop s = SL_Accepting \<Longrightarrow> serve_step limits s (s\<lparr>ss_loop := SL_Backoff\<rparr>)"
| backoff_over: "ss_loop s = SL_Backoff \<Longrightarrow> serve_step limits s (s\<lparr>ss_loop := SL_Acquire\<rparr>)"
| shutdown: "ss_loop s \<in> {SL_Acquire, SL_Accepting} \<Longrightarrow> serve_step limits s (s\<lparr>ss_loop := SL_Draining\<rparr>)"
| first_byte: "at_phase s i CP_Silent \<Longrightarrow>
    serve_step limits s (s\<lparr>ss_conns := (ss_conns s)[i := \<lparr> cn_phase = CP_Spoke, cn_bytes_seen = True \<rparr>]\<rparr>)"
| no_first_byte: "at_phase s i CP_Silent \<Longrightarrow> serve_step limits s (set_phase s i CP_Closed)"
| slot: "at_phase s i CP_Spoke \<Longrightarrow> slots_used s < max_connections limits \<Longrightarrow>
    serve_step limits s (set_phase s i CP_Serving)"
| signalled: "at_phase s i CP_Silent \<or> at_phase s i CP_Spoke \<Longrightarrow> ss_loop s = SL_Draining \<Longrightarrow>
    serve_step limits s (set_phase s i CP_Closed)"
| graceful_shutdown: "at_phase s i CP_Serving \<Longrightarrow> ss_loop s = SL_Draining \<Longrightarrow>
    serve_step limits s (set_phase s i CP_Draining)"
| conn_done: "at_phase s i CP_Serving \<or> at_phase s i CP_Draining \<Longrightarrow>
    serve_step limits s (set_phase s i CP_Closed)"
| return: "ss_loop s = SL_Draining \<Longrightarrow> \<forall>c \<in> set (ss_conns s). cn_phase c = CP_Closed \<Longrightarrow>
    serve_step limits s (s\<lparr>ss_loop := SL_Returned\<rparr>)"

section \<open>Invariant\<close>

fun phase_seen :: "conn \<Rightarrow> bool" where
  "phase_seen c = (cn_phase c \<in> {CP_Spoke, CP_Serving, CP_Draining} \<longrightarrow> cn_bytes_seen c)"

definition serve_inv :: "serve_limits \<Rightarrow> serve_sys \<Rightarrow> bool" where
  "serve_inv limits s \<longleftrightarrow>
     pending_used s \<le> max_pending limits \<and> slots_used s \<le> max_connections limits \<and>
     (\<forall>c \<in> set (ss_conns s). phase_seen c) \<and>
     (ss_loop s = SL_Returned \<longrightarrow> (\<forall>c \<in> set (ss_conns s). cn_phase c = CP_Closed))"

lemma set_phase_simps [simp]:
  "ss_loop (set_phase s i ph) = ss_loop s"
  "ss_conns (set_phase s i ph) = (ss_conns s)[i := (ss_conns s ! i)\<lparr>cn_phase := ph\<rparr>]"
  by (simp_all add: set_phase_def)

lemma pending_used_update:
  "i < length (ss_conns s) \<Longrightarrow>
   pending_used (s\<lparr>ss_conns := (ss_conns s)[i := c]\<rparr>) + of_bool (holds_pending (ss_conns s ! i)) =
     pending_used s + of_bool (holds_pending c)"
  using length_filter_update [of i "ss_conns s" holds_pending c] by (simp add: pending_used_def)

lemma slots_used_update:
  "i < length (ss_conns s) \<Longrightarrow>
   slots_used (s\<lparr>ss_conns := (ss_conns s)[i := c]\<rparr>) + of_bool (holds_slot (ss_conns s ! i)) =
     slots_used s + of_bool (holds_slot c)"
  using length_filter_update [of i "ss_conns s" holds_slot c] by (simp add: slots_used_def)

text \<open>A connection that moves to a phase which needs no permit it lacks keeps the invariant.\<close>

lemma serve_inv_update:
  assumes "serve_inv limits s" "i < length (ss_conns s)" "phase_seen c" "cn_phase (ss_conns s ! i) \<noteq> CP_Closed"
    "holds_pending c \<Longrightarrow> holds_pending (ss_conns s ! i)"
    "holds_slot c \<Longrightarrow> holds_slot (ss_conns s ! i) \<or> slots_used s < max_connections limits"
  shows "serve_inv limits (s\<lparr>ss_conns := (ss_conns s)[i := c]\<rparr>)"
proof -
  have "pending_used (s\<lparr>ss_conns := (ss_conns s)[i := c]\<rparr>) \<le> max_pending limits"
    using pending_used_update [OF assms(2), of c] assms(1,5)
    by (cases "holds_pending c"; cases "holds_pending (ss_conns s ! i)") (simp_all add: serve_inv_def)
  moreover have "slots_used (s\<lparr>ss_conns := (ss_conns s)[i := c]\<rparr>) \<le> max_connections limits"
    using slots_used_update [OF assms(2), of c] assms(1,6)
    by (cases "holds_slot c"; cases "holds_slot (ss_conns s ! i)") (auto simp: serve_inv_def)
  moreover have "\<forall>c \<in> set ((ss_conns s)[i := c]). phase_seen c"
    using assms(1,3) by (intro pcs_ok_update) (auto simp: serve_inv_def)
  moreover have "ss_loop s \<noteq> SL_Returned"
    using assms(1,2,4) nth_mem [OF assms(2)] by (auto simp: serve_inv_def)
  ultimately show ?thesis by (simp add: serve_inv_def)
qed

lemma serve_inv_set_phase:
  assumes "serve_inv limits s" "i < length (ss_conns s)" "cn_phase (ss_conns s ! i) \<noteq> CP_Closed"
    "ph \<in> {CP_Serving, CP_Draining} \<Longrightarrow> cn_phase (ss_conns s ! i) \<noteq> CP_Silent"
    "ph \<notin> {CP_Silent, CP_Spoke}"
    "ph \<in> {CP_Serving, CP_Draining} \<Longrightarrow>
       holds_slot (ss_conns s ! i) \<or> slots_used s < max_connections limits"
  shows "serve_inv limits (set_phase s i ph)"
proof -
  have "phase_seen (ss_conns s ! i)" using assms(1) nth_mem [OF assms(2)] by (simp add: serve_inv_def)
  then have "phase_seen ((ss_conns s ! i)\<lparr>cn_phase := ph\<rparr>)"
    using assms(3-5) by (cases "cn_phase (ss_conns s ! i)"; cases ph) auto
  then show ?thesis unfolding set_phase_def using assms
    by (intro serve_inv_update) (auto simp: holds_pending_def holds_slot_def)
qed

lemma serve_inv_step: "serve_step limits s t \<Longrightarrow> serve_inv limits s \<Longrightarrow> serve_inv limits t"
proof (induction rule: serve_step.induct)
  case (first_byte s i)
  then show ?case by (intro serve_inv_update) (auto simp: holds_pending_def holds_slot_def)
next
  case (no_first_byte s i)
  then show ?case by (intro serve_inv_set_phase) auto
next
  case (slot s i)
  then show ?case by (intro serve_inv_set_phase) auto
next
  case (signalled s i)
  then show ?case by (intro serve_inv_set_phase) auto
next
  case (graceful_shutdown s i)
  then show ?case by (intro serve_inv_set_phase) (auto simp: holds_slot_def)
next
  case (conn_done s i)
  then show ?case by (intro serve_inv_set_phase) auto
qed (auto simp: serve_inv_def pending_used_def slots_used_def holds_pending_def holds_slot_def)

lemma serve_inv_init: "serve_inv limits serve_init"
  by (simp add: serve_inv_def serve_init_def pending_used_def slots_used_def)

lemma serve_reachable_inv: "(serve_step limits)\<^sup>*\<^sup>* serve_init s \<Longrightarrow> serve_inv limits s"
  by (induction rule: rtranclp_induct) (blast intro: serve_inv_init serve_inv_step)+

section \<open>Shutdown\<close>

text \<open>How much a connection still has to do; a closed one nothing.\<close>

fun phase_rank :: "conn_phase \<Rightarrow> nat" where
  "phase_rank CP_Silent = 4"
| "phase_rank CP_Spoke = 3"
| "phase_rank CP_Serving = 2"
| "phase_rank CP_Draining = 1"
| "phase_rank CP_Closed = 0"

definition drain_measure :: "serve_sys \<Rightarrow> nat" where
  "drain_measure s =
     of_bool (ss_loop s \<noteq> SL_Returned) + sum_list (map (\<lambda>c. phase_rank (cn_phase c)) (ss_conns s))"

lemma sum_list_map_update:
  fixes f :: "'x \<Rightarrow> nat"
  shows "i < length xs \<Longrightarrow> sum_list (map f (xs[i := x])) + f (xs ! i) = sum_list (map f xs) + f x"
proof (induction xs arbitrary: i)
  case Nil
  then show ?case by simp
next
  case (Cons y ys)
  then show ?case by (cases i) auto
qed

lemma drain_update:
  assumes "i < length (ss_conns s)" "phase_rank (cn_phase c) < phase_rank (cn_phase (ss_conns s ! i))"
  shows "drain_measure (s\<lparr>ss_conns := (ss_conns s)[i := c]\<rparr>) < drain_measure s"
  using sum_list_map_update [OF assms(1), of "\<lambda>c. phase_rank (cn_phase c)" c] assms(2)
  by (simp add: drain_measure_def)

lemma drain_set_phase:
  "i < length (ss_conns s) \<Longrightarrow> phase_rank ph < phase_rank (cn_phase (ss_conns s ! i)) \<Longrightarrow>
   drain_measure (set_phase s i ph) < drain_measure s"
  unfolding set_phase_def by (rule drain_update) simp_all

lemma drain_step:
  assumes "serve_step limits s t" "ss_loop s = SL_Draining"
  shows "drain_measure t < drain_measure s \<and> ss_loop t \<in> {SL_Draining, SL_Returned}"
  using assms
proof (induction rule: serve_step.induct)
  case (first_byte s i)
  then show ?case by (auto intro!: drain_update)
next
  case (return s)
  then show ?case by (simp add: drain_measure_def)
qed (auto intro!: drain_set_phase)

lemma drain_progress:
  assumes "ss_loop s = SL_Draining"
  shows "\<exists>t. serve_step limits s t"
proof (cases "\<forall>c \<in> set (ss_conns s). cn_phase c = CP_Closed")
  case True
  with assms show ?thesis by (blast intro: serve_step.return)
next
  case False
  then obtain i where i: "i < length (ss_conns s)" "cn_phase (ss_conns s ! i) \<noteq> CP_Closed"
    by (auto simp: in_set_conv_nth)
  then have "(at_phase s i CP_Silent \<or> at_phase s i CP_Spoke) \<or> (at_phase s i CP_Serving \<or> at_phase s i CP_Draining)"
    by (cases "cn_phase (ss_conns s ! i)") auto
  then show ?thesis using assms by (meson serve_step.signalled serve_step.conn_done)
qed

section \<open>Properties\<close>


lemma serve_one_pending_run:
  "(serve_step serve_limits_DEFAULT)\<^sup>*\<^sup>* serve_init
     \<lparr> ss_loop = SL_Acquire, ss_conns = [\<lparr> cn_phase = CP_Silent, cn_bytes_seen = False \<rparr>] \<rparr>"
proof -
  have "serve_step serve_limits_DEFAULT serve_init \<lparr> ss_loop = SL_Accepting, ss_conns = [] \<rparr>"
    using serve_step.acquire [of serve_init serve_limits_DEFAULT]
    by (simp add: serve_init_def pending_used_def serve_limits_DEFAULT_def)
  moreover have "serve_step serve_limits_DEFAULT \<lparr> ss_loop = SL_Accepting, ss_conns = [] \<rparr>
     \<lparr> ss_loop = SL_Acquire, ss_conns = [\<lparr> cn_phase = CP_Silent, cn_bytes_seen = False \<rparr>] \<rparr>"
    using serve_step.accept [of "\<lparr> ss_loop = SL_Accepting, ss_conns = [] \<rparr>"] by simp
  ultimately show ?thesis by (meson converse_rtranclp_into_rtranclp rtranclp.rtrancl_refl)
qed




end
