(* ===== verification/Registry.thy ===== *)
theory Registry
  imports Json Collections "HOL-Library.Product_Lexorder" "HOL-Library.Multiset"
begin

text \<open>
  \<^verbatim>\<open>crates/victauri-core/src/registry.rs\<close>: the command registry, its substring search and the
  natural-language resolution.  The \<^verbatim>\<open>BTreeMap\<close> is an association list in increasing key
  order.  \<^verbatim>\<open>str::to_lowercase\<close> needs the Unicode tables and is the argument \<open>lower\<close>; nothing
  is assumed of it.  \<^verbatim>\<open>inventory\<close> (link-time discovery) is the argument of
  \<open>from_auto_discovery\<close>.  The lock makes every operation atomic.
\<close>

section \<open>The contract of an ordered map\<close>

text \<open>Searching a list for the element with a given key.\<close>

lemma find_key_None: "k \<notin> f ` set xs \<Longrightarrow> List.find (\<lambda>x. f x = k) xs = None"
  by (induction xs) auto

lemma find_key_Some: "x \<in> set xs \<Longrightarrow> inj_on f (set xs) \<Longrightarrow> List.find (\<lambda>y. f y = f x) xs = Some x"
  by (induction xs) (auto dest: inj_onD)

text \<open>
  What a client of a name-indexed store may rely on: storing under a key and looking it up, and
  that the items are listed in key order, each once.
\<close>

locale named_store =
  fixes inv :: "'s \<Rightarrow> bool"
    and key :: "'v \<Rightarrow> 'k :: linorder"
    and put :: "'v \<Rightarrow> 's \<Rightarrow> 's"
    and find :: "'s \<Rightarrow> 'k \<Rightarrow> 'v option"
    and items :: "'s \<Rightarrow> 'v list"
  assumes inv_put: "inv s \<Longrightarrow> inv (put v s)"
    and find_put: "inv s \<Longrightarrow> find (put v s) k = (if k = key v then Some v else find s k)"
    and items_sorted: "inv s \<Longrightarrow> sorted_wrt (<) (map key (items s))"
    and find_items: "inv s \<Longrightarrow> find s k = Some v \<longleftrightarrow> v \<in> set (items s) \<and> key v = k"
begin

lemma inv_puts: "inv s \<Longrightarrow> inv (fold put vs s)"
  by (induction vs arbitrary: s) (simp_all add: inv_put)

lemma find_puts:
  "inv s \<Longrightarrow> distinct (map key vs) \<Longrightarrow>
   find (fold put vs s) k = (case List.find (\<lambda>v. key v = k) vs of Some v \<Rightarrow> Some v | None \<Rightarrow> find s k)"
proof (induction vs arbitrary: s)
  case Nil
  then show ?case by simp
next
  case (Cons v vs)
  have "List.find (\<lambda>u. key u = key v) vs = None"
    using Cons.prems(2) by (intro find_key_None) simp
  then show ?case using Cons inv_put [of s v] by (auto simp: find_put split: option.splits)
qed

lemma items_inj: "inv s \<Longrightarrow> inj_on key (set (items s))"
  using items_sorted [of s] by (auto simp: distinct_map dest: sorted_wrt_less_distinct)

lemma items_ext:
  assumes "inv s" "inv t" "\<And>k. find s k = find t k"
  shows "items s = items t"
proof -
  have "v \<in> set (items s) \<longleftrightarrow> v \<in> set (items t)" for v
    using find_items [OF assms(1), of "key v" v] find_items [OF assms(2), of "key v" v] assms(3) by simp
  then have eq: "set (items s) = set (items t)" by blast
  have "map key (items s) = map key (items t)"
    using items_sorted [OF assms(1)] items_sorted [OF assms(2)] eq
    by (intro strict_sorted_equal) simp_all
  then show ?thesis using items_inj [OF assms(1)] eq by (intro map_inj_on [of key]) auto
qed

text \<open>The order in which values with different keys are stored does not show.\<close>

lemma items_puts_permuted:
  assumes "inv s" "distinct (map key vs)" "distinct (map key ws)" "set vs = set ws"
  shows "items (fold put vs s) = items (fold put ws s)"
proof (intro items_ext inv_puts assms(1))
  fix k
  have inj: "inj_on key (set vs)" using assms(2) by (simp add: distinct_map)
  have "List.find (\<lambda>v. key v = k) vs = List.find (\<lambda>v. key v = k) ws"
  proof (cases "k \<in> key ` set vs")
    case True
    then obtain v where "v \<in> set vs" "k = key v" by blast
    then show ?thesis using inj assms(4) by (simp add: find_key_Some)
  next
    case False
    then show ?thesis using assms(4) by (simp add: find_key_None)
  qed
  then show "find (fold put vs s) k = find (fold put ws s) k"
    using find_puts [OF assms(1)] assms(2,3) by simp
qed

end

section \<open>Commands\<close>

record command_arg =
  arg_name :: string
  arg_key :: "string option"
  arg_type_name :: string
  arg_required :: bool
  arg_schema :: "json option"

record command_info =
  ci_name :: string
  ci_plugin :: "string option"
  ci_description :: "string option"
  ci_args :: "command_arg list"
  ci_return_type :: "string option"
  ci_is_async :: bool
  ci_intent :: "string option"
  ci_category :: "string option"
  ci_examples :: "string list"

definition command_info_new :: "string \<Rightarrow> command_info" where
  "command_info_new name =
     \<lparr> ci_name = name, ci_plugin = None, ci_description = None, ci_args = [], ci_return_type = None,
       ci_is_async = False, ci_intent = None, ci_category = None, ci_examples = [] \<rparr>"

definition with_description :: "string \<Rightarrow> command_info \<Rightarrow> command_info" where
  "with_description d c = c\<lparr>ci_description := Some d\<rparr>"

definition with_intent :: "string \<Rightarrow> command_info \<Rightarrow> command_info" where
  "with_intent i c = c\<lparr>ci_intent := Some i\<rparr>"

definition with_category :: "string \<Rightarrow> command_info \<Rightarrow> command_info" where
  "with_category x c = c\<lparr>ci_category := Some x\<rparr>"

definition with_plugin :: "string \<Rightarrow> command_info \<Rightarrow> command_info" where
  "with_plugin p c = c\<lparr>ci_plugin := Some p\<rparr>"

definition with_args :: "command_arg list \<Rightarrow> command_info \<Rightarrow> command_info" where
  "with_args as c = c\<lparr>ci_args := as\<rparr>"

definition with_arg :: "command_arg \<Rightarrow> command_info \<Rightarrow> command_info" where
  "with_arg a c = c\<lparr>ci_args := ci_args c @ [a]\<rparr>"

definition with_return_type :: "string \<Rightarrow> command_info \<Rightarrow> command_info" where
  "with_return_type t c = c\<lparr>ci_return_type := Some t\<rparr>"

definition with_async :: "bool \<Rightarrow> command_info \<Rightarrow> command_info" where
  "with_async b c = c\<lparr>ci_is_async := b\<rparr>"

definition with_examples :: "string list \<Rightarrow> command_info \<Rightarrow> command_info" where
  "with_examples es c = c\<lparr>ci_examples := es\<rparr>"

definition with_example :: "string \<Rightarrow> command_info \<Rightarrow> command_info" where
  "with_example e c = c\<lparr>ci_examples := ci_examples c @ [e]\<rparr>"

definition command_arg_new :: "string \<Rightarrow> string \<Rightarrow> bool \<Rightarrow> command_arg" where
  "command_arg_new name type_name required =
     \<lparr> arg_name = name, arg_key = None, arg_type_name = type_name, arg_required = required, arg_schema = None \<rparr>"

definition with_key :: "string \<Rightarrow> command_arg \<Rightarrow> command_arg" where
  "with_key k a = a\<lparr>arg_key := (if k \<noteq> arg_name a then Some k else None)\<rparr>"

definition invoke_key :: "command_arg \<Rightarrow> string" where
  "invoke_key a = (case arg_key a of Some k \<Rightarrow> k | None \<Rightarrow> arg_name a)"

definition with_schema :: "json \<Rightarrow> command_arg \<Rightarrow> command_arg" where
  "with_schema j a = a\<lparr>arg_schema := Some j\<rparr>"

lemma invoke_key_with_key: "invoke_key (with_key k a) = k"
  by (simp add: invoke_key_def with_key_def)

section \<open>Registry\<close>

type_synonym registry = "(string \<times> command_info) list"

definition registry_new :: registry where
  "registry_new = []"

definition register :: "command_info \<Rightarrow> registry \<Rightarrow> registry" where
  "register info r = bt_insert (ci_name info) info r"

definition registry_get :: "registry \<Rightarrow> string \<Rightarrow> command_info option" where
  "registry_get r name = map_of r name"

definition registry_list :: "registry \<Rightarrow> command_info list" where
  "registry_list r = map snd r"

definition registry_count :: "registry \<Rightarrow> nat" where
  "registry_count r = length r"

definition registry_search :: "(string \<Rightarrow> string) \<Rightarrow> registry \<Rightarrow> string \<Rightarrow> command_info list" where
  "registry_search lower r query =
     (let query_lower = lower query
      in filter (\<lambda>cmd. contains_str (lower (ci_name cmd)) query_lower \<or>
                       (case ci_description cmd of Some d \<Rightarrow> contains_str (lower d) query_lower | None \<Rightarrow> False))
           (registry_list r))"

definition from_auto_discovery :: "command_info list \<Rightarrow> registry" where
  "from_auto_discovery discovered = fold register discovered registry_new"

text \<open>Reachable registries: keys in order, each entry under the name of its command.\<close>

definition registry_inv :: "registry \<Rightarrow> bool" where
  "registry_inv r \<longleftrightarrow> sorted_wrt (<) (map fst r) \<and> (\<forall>(k, c) \<in> set r. k = ci_name c)"

lemma registry_inv_new [simp]: "registry_inv registry_new"
  by (simp add: registry_inv_def registry_new_def)

lemma registry_inv_register: "registry_inv r \<Longrightarrow> registry_inv (register c r)"
  using bt_insert_set [of "ci_name c" c r] bt_insert_sorted [of r "ci_name c" c]
  by (auto simp: registry_inv_def register_def)

lemma registry_list_names: "registry_inv r \<Longrightarrow> map ci_name (registry_list r) = map fst r"
  by (auto simp: registry_inv_def registry_list_def)

interpretation commands: named_store registry_inv ci_name register registry_get registry_list
proof unfold_locales
  fix r c
  show "registry_inv r \<Longrightarrow> registry_inv (register c r)" by (rule registry_inv_register)
next
  fix r c k
  show "registry_get (register c r) k = (if k = ci_name c then Some c else registry_get r k)"
    by (simp add: registry_get_def register_def bt_insert_lookup)
next
  fix r
  assume "registry_inv r"
  then show "sorted_wrt (<) (map ci_name (registry_list r))"
    by (simp add: registry_list_names) (simp add: registry_inv_def)
next
  fix r k c
  assume r: "registry_inv r"
  then have "distinct (map fst r)" by (simp add: registry_inv_def sorted_wrt_less_distinct)
  then have "map_of r k = Some c \<longleftrightarrow> (k, c) \<in> set r" by simp
  also have "\<dots> \<longleftrightarrow> c \<in> set (registry_list r) \<and> ci_name c = k"
    using r by (force simp: registry_inv_def registry_list_def)
  finally show "registry_get r k = Some c \<longleftrightarrow> c \<in> set (registry_list r) \<and> ci_name c = k"
    by (simp add: registry_get_def)
qed

section \<open>Natural-language resolution\<close>

text \<open>\<^verbatim>\<open>split_whitespace\<close>; \<open>cur\<close> is the word being read, reversed.\<close>

function split_ws :: "string \<Rightarrow> string \<Rightarrow> string list" where
  "split_ws cur s =
     (case List.find (\<lambda>w. w \<noteq> [] \<and> prefix w s) white_space of
        Some w \<Rightarrow> (if cur = [] then [] else [rev cur]) @ split_ws [] (drop (length w) s)
      | None \<Rightarrow>
          (case s of
             [] \<Rightarrow> if cur = [] then [] else [rev cur]
           | c # cs \<Rightarrow> split_ws (c # cur) cs))"
  by pat_completeness auto
termination
proof (relation "measure (length \<circ> snd)")
  fix cur s w
  assume "List.find (\<lambda>w. w \<noteq> [] \<and> prefix w s) white_space = Some w"
  then have "w \<noteq> []" "prefix w s" by (auto simp: find_Some_iff)
  then show "(([], drop (length w) s), (cur, s)) \<in> measure (length \<circ> snd)"
    by (auto simp: prefix_def)
qed simp_all

declare split_ws.simps [simp del]

definition split_whitespace :: "string \<Rightarrow> string list" where
  "split_whitespace s = split_ws [] s"

definition SCORE_EXACT_NAME :: f64 where "SCORE_EXACT_NAME = F_Fin 10"
definition SCORE_NAME_SUBSTRING :: f64 where "SCORE_NAME_SUBSTRING = F_Fin 3"
definition SCORE_NAME_WORD :: f64 where "SCORE_NAME_WORD = F_Fin 2"
definition SCORE_DESCRIPTION :: f64 where "SCORE_DESCRIPTION = F_Fin (3 / 2)"
definition SCORE_INTENT :: f64 where "SCORE_INTENT = F_Fin (5 / 2)"
definition SCORE_EXACT_INTENT :: f64 where "SCORE_EXACT_INTENT = F_Fin 8"
definition SCORE_CATEGORY :: f64 where "SCORE_CATEGORY = F_Fin 1"
definition SCORE_EXAMPLE_FULL :: f64 where "SCORE_EXAMPLE_FULL = F_Fin 4"
definition SCORE_EXAMPLE_WORD :: f64 where "SCORE_EXAMPLE_WORD = F_Fin (1 / 2)"
definition SCORE_NAME_COVERAGE :: f64 where "SCORE_NAME_COVERAGE = F_Fin 1"

text \<open>\<open>score += c\<close> for every query word satisfying \<open>p\<close>, in order.\<close>

definition add_words :: "(string \<Rightarrow> bool) \<Rightarrow> f64 \<Rightarrow> string list \<Rightarrow> f64 \<Rightarrow> f64" where
  "add_words p c ws score = fold (\<lambda>w sc. if p w then f64_add sc c else sc) ws score"

definition name_score :: "string \<Rightarrow> string list \<Rightarrow> string list \<Rightarrow> f64 \<Rightarrow> f64" where
  "name_score name_lower name_words query_words score =
     fold (\<lambda>w sc.
       let sc = (if contains_str name_lower w then f64_add sc SCORE_NAME_SUBSTRING else sc)
       in if w \<in> set name_words then f64_add sc SCORE_NAME_WORD else sc) query_words score"

fun example_score ::
  "(string \<Rightarrow> string) \<Rightarrow> string \<Rightarrow> string list \<Rightarrow> string list \<Rightarrow> f64 \<times> f64 \<Rightarrow> f64 \<times> f64" where
  "example_score lower query query_words [] acc = acc"
| "example_score lower query query_words (e # es) (score, bonus) =
     (if contains_str (lower e) query then (score, f64_add bonus SCORE_EXAMPLE_FULL)
      else example_score lower query query_words es
             (add_words (contains_str (lower e)) SCORE_EXAMPLE_WORD query_words score, bonus))"

definition score_command :: "(string \<Rightarrow> string) \<Rightarrow> command_info \<Rightarrow> string \<Rightarrow> string list \<Rightarrow> f64" where
  "score_command lower cmd query_lower query_words =
     (let name_lower = lower (ci_name cmd);
          name_words = split_on (\<lambda>c. c = CHR ''_'') name_lower;
          exact_bonus =
            (if name_lower = map (\<lambda>c. if c = CHR '' '' then CHR ''_'' else c) query_lower
             then f64_add (F_Fin 0) SCORE_EXACT_NAME else F_Fin 0);
          score = name_score name_lower name_words query_words (F_Fin 0);
          score = (case ci_description cmd of
                     Some d \<Rightarrow> add_words (contains_str (lower d)) SCORE_DESCRIPTION query_words score
                   | None \<Rightarrow> score);
          (score, exact_bonus) =
            (case ci_intent cmd of
               Some i \<Rightarrow> (add_words (contains_str (lower i)) SCORE_INTENT query_words score,
                          if lower i = query_lower then f64_add exact_bonus SCORE_EXACT_INTENT else exact_bonus)
             | None \<Rightarrow> (score, exact_bonus));
          score = (case ci_category cmd of
                     Some x \<Rightarrow> add_words (contains_str (lower x)) SCORE_CATEGORY query_words score
                   | None \<Rightarrow> score);
          (score, exact_bonus) = example_score lower query_lower query_words (ci_examples cmd) (score, exact_bonus);
          matched_name_words = length (filter (\<lambda>w. w \<noteq> [] \<and> w \<in> set query_words) name_words);
          name_coverage =
            (if name_words = [] then F_Fin 0
             else f64_div (f64_of_int (int matched_name_words)) (f64_of_int (int (length name_words))));
          word_count = f64_of_int (int (length query_words));
          per_word_score = f64_div score word_count
      in f64_add (f64_add exact_bonus per_word_score) (f64_mul SCORE_NAME_COVERAGE name_coverage))"

record scored_command =
  sc_command :: command_info
  sc_score :: f64

definition MAX_QUERY_LEN :: nat where "MAX_QUERY_LEN = 512"

text \<open>The words of a query, as \<^verbatim>\<open>resolve\<close> reads it.\<close>

definition query_words_of :: "(string \<Rightarrow> string) \<Rightarrow> string \<Rightarrow> string list" where
  "query_words_of lower query = split_whitespace (lower (chars_take MAX_QUERY_LEN query))"

text \<open>Not \<^verbatim>\<open>Ordering::Greater\<close>: descending score, then ascending name.\<close>

definition scored_le :: "scored_command \<Rightarrow> scored_command \<Rightarrow> bool" where
  "scored_le a b =
     (f64_total_lt (sc_score b) (sc_score a) \<or>
      (\<not> f64_total_lt (sc_score a) (sc_score b) \<and> ci_name (sc_command a) \<le> ci_name (sc_command b)))"

definition resolve :: "(string \<Rightarrow> string) \<Rightarrow> registry \<Rightarrow> string \<Rightarrow> scored_command list" where
  "resolve lower r query =
     (let query_words = query_words_of lower query
      in if query_words = [] then []
         else let query_normalized = join '' '' query_words;
                  scored = List.map_filter (\<lambda>cmd.
                    let score = score_command lower cmd query_normalized query_words
                    in if f64_lt (F_Fin 0) score then Some \<lparr> sc_command = cmd, sc_score = score \<rparr> else None)
                    (registry_list r)
              in sort_by scored_le scored)"

section \<open>The order of the results\<close>

lemma f64_total_lt_key: "f64_total_lt x y \<longleftrightarrow> f64_total_key x < f64_total_key y"
  by (cases "f64_total_key x"; cases "f64_total_key y") (auto simp: f64_total_lt_def)

lemma scored_le_total: "scored_le a b \<or> scored_le b a"
  by (auto simp: scored_le_def f64_total_lt_key)

lemma scored_le_trans: "scored_le a b \<Longrightarrow> scored_le b c \<Longrightarrow> scored_le a c"
  unfolding scored_le_def f64_total_lt_key by (auto intro: order.strict_trans order.trans)

section \<open>When a command is found\<close>

text \<open>A query word occurs in one of the fields of a command.\<close>

definition word_hits :: "(string \<Rightarrow> string) \<Rightarrow> command_info \<Rightarrow> string \<Rightarrow> bool" where
  "word_hits lower cmd w \<longleftrightarrow>
     contains_str (lower (ci_name cmd)) w \<or>
     (\<exists>d. ci_description cmd = Some d \<and> contains_str (lower d) w) \<or>
     (\<exists>i. ci_intent cmd = Some i \<and> contains_str (lower i) w) \<or>
     (\<exists>c. ci_category cmd = Some c \<and> contains_str (lower c) w) \<or>
     (\<exists>e \<in> set (ci_examples cmd). contains_str (lower e) w)"

lemma split_ws_words:
  "CHR '' '' \<notin> set cur \<Longrightarrow> w \<in> set (split_ws cur s) \<Longrightarrow> CHR '' '' \<notin> set w \<and> w \<noteq> []"
proof (induction cur s rule: split_ws.induct)
  case (1 cur s)
  show ?case
  proof (cases "List.find (\<lambda>w. w \<noteq> [] \<and> prefix w s) white_space")
    case (Some v)
    then have "w \<in> set (if cur = [] then [] else [rev cur]) \<or> w \<in> set (split_ws [] (drop (length v) s))"
      using 1(4) by (subst (asm) split_ws.simps) auto
    then show ?thesis using 1(2) [OF Some] 1(3) by (auto split: if_splits)
  next
    case None
    show ?thesis
    proof (cases s)
      case Nil
      then show ?thesis using None 1(3,4) by (subst (asm) split_ws.simps) (auto split: if_splits)
    next
      case (Cons c cs)
      have "[CHR '' ''] \<in> set white_space" by (simp add: white_space_def)
      then have "c \<noteq> CHR '' ''" using None Cons by (auto simp: find_None_iff)
      then show ?thesis using 1(1) [OF None Cons] 1(3,4) None Cons
        by (subst (asm) split_ws.simps) auto
    qed
  qed
qed

lemma split_ws_length: "length (split_ws cur s) \<le> length s + 1"
proof (induction cur s rule: split_ws.induct)
  case (1 cur s)
  show ?case
  proof (cases "List.find (\<lambda>w. w \<noteq> [] \<and> prefix w s) white_space")
    case (Some v)
    then have "v \<noteq> []" "prefix v s" by (auto simp: find_Some_iff)
    then have "0 < length v" "length v \<le> length s" by (auto simp: prefix_length_le)
    then have "Suc (length s - length v) \<le> length s" by linarith
    then show ?thesis using 1(2) [OF Some] Some by (subst split_ws.simps) auto
  next
    case None
    show ?thesis
    proof (cases s)
      case Nil
      then show ?thesis using None by (subst split_ws.simps) simp
    next
      case (Cons c cs)
      then show ?thesis using 1(1) [OF None Cons] None by (subst split_ws.simps) simp
    qed
  qed
qed

lemma join_contains: "w \<in> set ws \<Longrightarrow> sublist w (join sep ws)"
proof (induction sep ws rule: join.induct)
  case (3 sep v u us)
  show ?case
  proof (cases "w = v")
    case True
    then show ?thesis by simp
  next
    case False
    then have "sublist w (join sep (u # us))" using 3 by auto
    then show ?thesis by (auto simp: sublist_append)
  qed
qed simp_all

lemma split_on_sublist: "split_on p s = v # vs \<Longrightarrow> prefix v s \<and> (\<forall>u \<in> set vs. sublist u s)"
proof (induction s arbitrary: v vs)
  case Nil
  then show ?case by simp
next
  case (Cons x xs)
  obtain u us where u: "split_on p xs = u # us" by (cases "split_on p xs") auto
  then have "prefix u xs" "\<forall>y \<in> set us. sublist y xs" using Cons.IH by auto
  then have "sublist u (x # xs)" "\<forall>y \<in> set us. sublist y (x # xs)" "prefix (x # u) (x # xs)"
    by (auto simp: sublist_Cons_right)
  then show ?case using Cons.prems unfolding split_on.simps u by (auto split: if_splits)
qed

lemma split_on_contains: "w \<in> set (split_on p s) \<Longrightarrow> contains_str s w"
  using split_on_sublist [of p s] by (cases "split_on p s") (auto simp: contains_str_def)

lemma split_on_length: "length (split_on p s) \<le> length s + 1"
  by (induction s) (auto split: list.splits)

text \<open>
  \<open>pos h x\<close>: the partial score \<open>x\<close> is not negative, and at least one half when something hit.
\<close>

definition pos :: "bool \<Rightarrow> f64 \<Rightarrow> bool" where
  "pos h x \<longleftrightarrow> f64_ge x 0 \<and> (h \<longrightarrow> f64_ge x (pow2 (-1)))"

lemma f64_ge_half_0: "f64_ge x (pow2 (-1)) \<Longrightarrow> f64_ge x 0"
  by (erule f64_ge_trans) (simp add: pow2_def)

lemma pos_add: "pos h x \<Longrightarrow> f64_ge c (pow2 (-1)) \<Longrightarrow> pos (h \<or> b) (if b then f64_add x c else x)"
  using f64_add_ge_pow2 [of x c "-1"] f64_add_ge_0 [of x c] f64_ge_half_0 [of c]
  by (auto simp: pos_def)

lemma pos_add_words:
  assumes "f64_ge c (pow2 (-1))"
  shows "pos h x \<Longrightarrow> pos (h \<or> (\<exists>w \<in> set ws. p w)) (add_words p c ws x)"
proof (induction ws arbitrary: h x)
  case Nil
  then show ?case by (simp add: add_words_def)
next
  case (Cons w ws)
  have "pos (h \<or> p w) (if p w then f64_add x c else x)" using Cons.prems assms by (rule pos_add)
  from Cons.IH [OF this] show ?case by (simp add: add_words_def disj_assoc)
qed

lemma score_constants:
  "f64_ge SCORE_NAME_SUBSTRING (pow2 (-1))" "f64_ge SCORE_NAME_WORD (pow2 (-1))"
  "f64_ge SCORE_DESCRIPTION (pow2 (-1))" "f64_ge SCORE_INTENT (pow2 (-1))"
  "f64_ge SCORE_CATEGORY (pow2 (-1))" "f64_ge SCORE_EXAMPLE_WORD (pow2 (-1))"
  "f64_ge SCORE_EXAMPLE_FULL (pow2 (-1))" "f64_ge SCORE_EXACT_NAME (pow2 (-1))"
  "f64_ge SCORE_EXACT_INTENT (pow2 (-1))"
  by (simp_all add: pow2_def SCORE_NAME_SUBSTRING_def SCORE_NAME_WORD_def SCORE_DESCRIPTION_def
      SCORE_INTENT_def SCORE_CATEGORY_def SCORE_EXAMPLE_WORD_def SCORE_EXAMPLE_FULL_def
      SCORE_EXACT_NAME_def SCORE_EXACT_INTENT_def)

lemma pos_name_score:
  "pos h x \<Longrightarrow> pos (h \<or> (\<exists>w \<in> set ws. contains_str nl w)) (name_score nl nws ws x)"
proof (induction ws arbitrary: h x)
  case Nil
  then show ?case by (simp add: name_score_def)
next
  case (Cons w ws)
  let ?y = "if contains_str nl w then f64_add x SCORE_NAME_SUBSTRING else x"
  have "pos (h \<or> contains_str nl w) ?y" using Cons.prems score_constants(1) by (rule pos_add)
  then have "pos ((h \<or> contains_str nl w) \<or> w \<in> set nws) (if w \<in> set nws then f64_add ?y SCORE_NAME_WORD else ?y)"
    using score_constants(2) by (rule pos_add)
  then have "pos (h \<or> contains_str nl w) (if w \<in> set nws then f64_add ?y SCORE_NAME_WORD else ?y)"
    by (auto simp: pos_def)
  from Cons.IH [OF this] show ?case by (simp add: name_score_def Let_def disj_assoc)
qed

text \<open>The pair of the per-word score and the whole-query bonus.\<close>

definition pos2 :: "bool \<Rightarrow> f64 \<times> f64 \<Rightarrow> bool" where
  "pos2 h sb \<longleftrightarrow> pos False (fst sb) \<and> pos False (snd sb) \<and> (h \<longrightarrow> pos True (fst sb) \<or> pos True (snd sb))"

lemma pos2_example_score:
  "pos2 h sb \<Longrightarrow>
   pos2 (h \<or> (\<exists>e \<in> set es. \<exists>w \<in> set ws. contains_str (lower e) w)) (example_score lower q ws es sb)"
proof (induction es arbitrary: h sb)
  case Nil
  then show ?case by simp
next
  case (Cons e es)
  obtain sc b where sb: "sb = (sc, b)" by (cases sb)
  show ?case
  proof (cases "contains_str (lower e) q")
    case True
    have "pos (False \<or> True) (if True then f64_add b SCORE_EXAMPLE_FULL else b)"
      using Cons.prems score_constants(7) by (intro pos_add) (simp_all add: pos2_def sb)
    then show ?thesis using True Cons.prems by (auto simp: pos2_def sb pos_def)
  next
    case False
    let ?hit = "\<exists>w \<in> set ws. contains_str (lower e) w"
    let ?sc = "add_words (contains_str (lower e)) SCORE_EXAMPLE_WORD ws sc"
    have sc: "pos h' sc \<Longrightarrow> pos (h' \<or> ?hit) ?sc" for h'
      using score_constants(6) by (rule pos_add_words)
    have "pos2 (h \<or> ?hit) (?sc, b)"
      using Cons.prems sc [of True] sc [of False] by (auto simp: pos2_def sb pos_def)
    from Cons.IH [OF this] False show ?thesis by (simp add: sb disj_assoc)
  qed
qed

lemma add_words_none: "\<forall>w \<in> set ws. \<not> p w \<Longrightarrow> add_words p c ws x = x"
  by (induction ws arbitrary: x) (simp_all add: add_words_def)

lemma name_score_none:
  "\<forall>w \<in> set ws. \<not> contains_str nl w \<Longrightarrow> (\<And>w. w \<in> set nws \<Longrightarrow> contains_str nl w) \<Longrightarrow>
   name_score nl nws ws x = x"
  by (induction ws arbitrary: x) (auto simp: name_score_def Let_def)

lemma example_score_none:
  "\<forall>e \<in> set es. \<not> contains_str (lower e) q \<and> (\<forall>w \<in> set ws. \<not> contains_str (lower e) w) \<Longrightarrow>
   example_score lower q ws es sb = sb"
  by (induction es arbitrary: sb) (auto simp: add_words_none)

text \<open>The parts of \<open>score_command\<close>.\<close>

definition intent_parts :: "(string \<Rightarrow> string) \<Rightarrow> command_info \<Rightarrow> string \<Rightarrow> string list \<Rightarrow> f64 \<times> f64 \<Rightarrow> f64 \<times> f64" where
  "intent_parts lower cmd q ws sb =
     (case ci_intent cmd of
        Some i \<Rightarrow> (add_words (contains_str (lower i)) SCORE_INTENT ws (fst sb),
                   if lower i = q then f64_add (snd sb) SCORE_EXACT_INTENT else snd sb)
      | None \<Rightarrow> sb)"

definition opt_words :: "(string \<Rightarrow> string) \<Rightarrow> string option \<Rightarrow> f64 \<Rightarrow> string list \<Rightarrow> f64 \<Rightarrow> f64" where
  "opt_words lower field c ws score =
     (case field of Some d \<Rightarrow> add_words (contains_str (lower d)) c ws score | None \<Rightarrow> score)"

definition name_parts :: "(string \<Rightarrow> string) \<Rightarrow> command_info \<Rightarrow> string \<Rightarrow> string list \<Rightarrow> f64 \<times> f64" where
  "name_parts lower cmd q ws =
     (name_score (lower (ci_name cmd)) (split_on (\<lambda>c. c = CHR ''_'') (lower (ci_name cmd))) ws (F_Fin 0),
      if lower (ci_name cmd) = map (\<lambda>c. if c = CHR '' '' then CHR ''_'' else c) q
      then f64_add (F_Fin 0) SCORE_EXACT_NAME else F_Fin 0)"

definition score_parts :: "(string \<Rightarrow> string) \<Rightarrow> command_info \<Rightarrow> string \<Rightarrow> string list \<Rightarrow> f64 \<times> f64" where
  "score_parts lower cmd q ws =
     example_score lower q ws (ci_examples cmd)
       (apfst (opt_words lower (ci_category cmd) SCORE_CATEGORY ws)
         (intent_parts lower cmd q ws
           (apfst (opt_words lower (ci_description cmd) SCORE_DESCRIPTION ws) (name_parts lower cmd q ws))))"

definition name_coverage :: "(string \<Rightarrow> string) \<Rightarrow> command_info \<Rightarrow> string list \<Rightarrow> f64" where
  "name_coverage lower cmd ws =
     (let nws = split_on (\<lambda>c. c = CHR ''_'') (lower (ci_name cmd))
      in f64_div (f64_of_int (int (length (filter (\<lambda>w. w \<noteq> [] \<and> w \<in> set ws) nws))))
           (f64_of_int (int (length nws))))"

lemma score_command_parts:
  "score_command lower cmd q ws =
     f64_add (f64_add (snd (score_parts lower cmd q ws))
       (f64_div (fst (score_parts lower cmd q ws)) (f64_of_int (int (length ws)))))
       (f64_mul SCORE_NAME_COVERAGE (name_coverage lower cmd ws))"
  by (simp add: score_command_def score_parts_def name_parts_def intent_parts_def opt_words_def
      name_coverage_def Let_def split: option.split prod.split)

definition field_hits :: "(string \<Rightarrow> string) \<Rightarrow> string option \<Rightarrow> string list \<Rightarrow> bool" where
  "field_hits lower field ws \<longleftrightarrow> (\<exists>d. field = Some d \<and> (\<exists>w \<in> set ws. contains_str (lower d) w))"

lemma pos2_name_parts: "pos2 (\<exists>w \<in> set ws. contains_str (lower (ci_name cmd)) w) (name_parts lower cmd q ws)"
proof -
  have z: "pos False (F_Fin 0)" by (simp add: pos_def)
  have "pos (False \<or> b) (if b then f64_add (F_Fin 0) SCORE_EXACT_NAME else F_Fin 0)" for b
    using z score_constants(8) by (rule pos_add)
  then show ?thesis using pos_name_score [OF z]
    by (auto simp: pos2_def name_parts_def pos_def)
qed

lemma pos2_opt_words:
  assumes "f64_ge c (pow2 (-1))" "pos2 h sb"
  shows "pos2 (h \<or> field_hits lower field ws) (apfst (opt_words lower field c ws) sb)"
proof (cases field)
  case None
  then show ?thesis using assms(2) by (cases sb) (simp add: field_hits_def opt_words_def)
next
  case (Some d)
  have "pos h' (fst sb) \<Longrightarrow> pos (h' \<or> (\<exists>w \<in> set ws. contains_str (lower d) w))
      (add_words (contains_str (lower d)) c ws (fst sb))" for h'
    using assms(1) by (rule pos_add_words)
  from this [of True] this [of False] show ?thesis using assms(2) Some
    by (cases sb) (auto simp: pos2_def field_hits_def opt_words_def pos_def)
qed

lemma pos2_intent_parts:
  assumes "pos2 h sb"
  shows "pos2 (h \<or> field_hits lower (ci_intent cmd) ws) (intent_parts lower cmd q ws sb)"
proof -
  have "pos2 (h \<or> field_hits lower (ci_intent cmd) ws)
      (apfst (opt_words lower (ci_intent cmd) SCORE_INTENT ws) sb)"
    using score_constants(4) assms by (rule pos2_opt_words)
  moreover have "pos h' (snd sb) \<Longrightarrow> pos h' (f64_add (snd sb) SCORE_EXACT_INTENT)" for h'
    using pos_add [OF _ score_constants(9), of h' "snd sb" True] by (auto simp: pos_def)
  ultimately show ?thesis
    by (cases sb; cases "ci_intent cmd") (auto simp: pos2_def intent_parts_def opt_words_def)
qed

lemma pos2_score_parts: "pos2 (\<exists>w \<in> set ws. word_hits lower cmd w) (score_parts lower cmd q ws)"
proof -
  have "pos2 (((((\<exists>w \<in> set ws. contains_str (lower (ci_name cmd)) w) \<or>
        field_hits lower (ci_description cmd) ws) \<or> field_hits lower (ci_intent cmd) ws) \<or>
        field_hits lower (ci_category cmd) ws) \<or>
        (\<exists>e \<in> set (ci_examples cmd). \<exists>w \<in> set ws. contains_str (lower e) w))
      (score_parts lower cmd q ws)"
    unfolding score_parts_def
    by (intro pos2_example_score pos2_opt_words pos2_intent_parts pos2_name_parts score_constants)
  then show ?thesis
    by (rule back_subst [of "\<lambda>h. pos2 h _"]) (auto simp: word_hits_def field_hits_def)
qed

lemma score_parts_none:
  assumes "\<not> (\<exists>w \<in> set ws. word_hits lower cmd w)" "ws \<noteq> []" "q = join '' '' ws"
    "\<forall>w \<in> set ws. CHR '' '' \<notin> set w"
  shows "score_parts lower cmd q ws = (F_Fin 0, F_Fin 0)"
proof -
  obtain w where w: "w \<in> set ws" using assms(2) by (cases ws) auto
  have cq: "contains_str f w" if "contains_str f q" for f
    using that join_contains [OF w, of "'' ''"] assms(3)
    by (auto simp: contains_str_def dest: sublist_order.order.trans)
  have nm: "\<forall>v \<in> set ws. \<not> contains_str (lower (ci_name cmd)) v"
    and rest: "\<not> field_hits lower (ci_description cmd) ws" "\<not> field_hits lower (ci_intent cmd) ws"
      "\<not> field_hits lower (ci_category cmd) ws"
      "\<forall>e \<in> set (ci_examples cmd). \<forall>v \<in> set ws. \<not> contains_str (lower e) v"
    using assms(1) by (auto simp: word_hits_def field_hits_def)
  let ?us = "\<lambda>c. if c = CHR '' '' then CHR ''_'' else c"
  have "map ?us w = w" using assms(4) w by (intro map_idI) auto
  then have "sublist w (map ?us q)"
    using map_mono_sublist [OF join_contains [OF w, of "'' ''"], of ?us] assms(3) by simp
  then have "lower (ci_name cmd) \<noteq> map ?us q" using nm w by (auto simp: contains_str_def)
  moreover have "name_score (lower (ci_name cmd)) (split_on (\<lambda>c. c = CHR ''_'') (lower (ci_name cmd))) ws (F_Fin 0) = F_Fin 0"
    using nm by (intro name_score_none) (auto intro: split_on_contains)
  ultimately have n: "name_parts lower cmd q ws = (F_Fin 0, F_Fin 0)" by (simp add: name_parts_def)
  have o: "opt_words lower f c ws x = x" if "\<not> field_hits lower f ws" for f c x
    using that by (cases f) (auto simp: opt_words_def field_hits_def intro!: add_words_none)
  have "lower i \<noteq> q" if "ci_intent cmd = Some i" for i
    using rest(2) that w cq [of "lower i"] by (auto simp: field_hits_def)
  then have "intent_parts lower cmd q ws sb = sb" for sb
    using rest(2) by (cases "ci_intent cmd"; cases sb)
      (auto simp: intent_parts_def field_hits_def intro!: add_words_none)
  moreover have "example_score lower q ws (ci_examples cmd) sb = sb" for sb
    using rest(4) w cq by (intro example_score_none) blast
  ultimately show ?thesis by (simp add: score_parts_def n o [OF rest(1)] o [OF rest(3)])
qed

lemma name_coverage_nonneg:
  assumes "length (lower (ci_name cmd)) < 2 ^ 64"
  shows "f64_ge (name_coverage lower cmd ws) 0"
proof -
  let ?nws = "split_on (\<lambda>c. c = CHR ''_'') (lower (ci_name cmd))"
  have "0 < length ?nws" "length ?nws \<le> 2 ^ 64"
    using split_on_length [of "\<lambda>c. c = CHR ''_''" "lower (ci_name cmd)"] assms by simp_all
  then obtain r where r: "f64_of_int (int (length ?nws)) = F_Fin r" "1 \<le> r"
    by (rule f64_of_usize)
  have "f64_ge (f64_of_int (int n)) 0" for n by (simp add: f64_of_int_def round_f64_ge_0)
  then show ?thesis unfolding name_coverage_def Let_def r(1) using r(2) by (rule f64_div_nonneg)
qed

lemma name_coverage_none:
  assumes "\<forall>w \<in> set ws. \<not> contains_str (lower (ci_name cmd)) w" "length (lower (ci_name cmd)) < 2 ^ 64"
  shows "name_coverage lower cmd ws = F_Fin 0"
proof -
  let ?nws = "split_on (\<lambda>c. c = CHR ''_'') (lower (ci_name cmd))"
  have "0 < length ?nws" "length ?nws \<le> 2 ^ 64"
    using split_on_length [of "\<lambda>c. c = CHR ''_''" "lower (ci_name cmd)"] assms(2) by simp_all
  then obtain r where r: "f64_of_int (int (length ?nws)) = F_Fin r" "1 \<le> r"
    by (rule f64_of_usize)
  have "filter (\<lambda>w. w \<noteq> [] \<and> w \<in> set ws) ?nws = []"
    using assms(1) split_on_contains by (auto simp: filter_empty_conv)
  then show ?thesis unfolding name_coverage_def Let_def r(1) using f64_div_zero [OF r(2)]
    by (simp add: f64_of_int_def)
qed

lemma score_positive_iff:
  assumes "ws \<noteq> []" "length ws \<le> 2 ^ 64" "\<forall>w \<in> set ws. CHR '' '' \<notin> set w"
    "length (lower (ci_name cmd)) < 2 ^ 64"
  shows "f64_lt (F_Fin 0) (score_command lower cmd (join '' '' ws) ws) \<longleftrightarrow> (\<exists>w \<in> set ws. word_hits lower cmd w)"
proof -
  have "0 < length ws" using assms(1) by simp
  then obtain r where r: "f64_of_int (int (length ws)) = F_Fin r" "1 \<le> r" "r \<le> 2 ^ 64"
    using assms(2) by (rule f64_of_usize)
  obtain sc b where sb: "score_parts lower cmd (join '' '' ws) ws = (sc, b)" by fastforce
  let ?pw = "f64_div sc (F_Fin r)" and ?cov = "f64_mul SCORE_NAME_COVERAGE (name_coverage lower cmd ws)"
  have eq: "score_command lower cmd (join '' '' ws) ws = f64_add (f64_add b ?pw) ?cov"
    by (simp add: score_command_parts sb r(1))
  show ?thesis
  proof
    assume hit: "\<exists>w \<in> set ws. word_hits lower cmd w"
    have p2: "pos2 True (sc, b)" using pos2_score_parts [of ws lower cmd "join '' '' ws"] hit sb by simp
    then have nn: "f64_ge sc 0" "f64_ge b 0" by (simp_all add: pos2_def pos_def)
    have pw0: "f64_ge ?pw 0" using nn(1) r(2) by (rule f64_div_nonneg)
    have cov0: "f64_ge ?cov 0"
      using name_coverage_nonneg [where lower = lower and cmd = cmd and ws = ws, OF assms(4)]
      by (simp add: SCORE_NAME_COVERAGE_def f64_mul_one_nonneg)
    have "f64_ge b (pow2 (-65)) \<or> f64_ge ?pw (pow2 (-65))"
    proof (cases "f64_ge sc (pow2 (-1))")
      case True
      then show ?thesis using r(2,3) by (blast intro: f64_div_ge_half)
    next
      case False
      then have "f64_ge b (pow2 (-1))" using p2 by (auto simp: pos2_def pos_def)
      moreover have "pow2 (-65) \<le> pow2 (-1)" by (rule pow2_mono) simp
      ultimately show ?thesis by (blast intro: f64_ge_trans)
    qed
    then have "f64_ge (f64_add b ?pw) (pow2 (-65))"
      using nn(2) pw0 by (intro f64_add_ge_pow2) simp_all
    then have "f64_ge (score_command lower cmd (join '' '' ws) ws) (pow2 (-65))"
      unfolding eq using cov0 nn(2) pw0 by (intro f64_add_ge_pow2) (simp_all add: f64_add_ge_0)
    then show "f64_lt (F_Fin 0) (score_command lower cmd (join '' '' ws) ws)"
      by (auto simp: f64_ge_def intro: order_less_le_trans [OF pow2_pos])
  next
    assume lt: "f64_lt (F_Fin 0) (score_command lower cmd (join '' '' ws) ws)"
    show "\<exists>w \<in> set ws. word_hits lower cmd w"
    proof (rule ccontr)
      assume none: "\<not> (\<exists>w \<in> set ws. word_hits lower cmd w)"
      have "(sc, b) = (F_Fin 0, F_Fin 0)"
        using score_parts_none [OF none assms(1) refl assms(3)] sb by simp
      moreover have "name_coverage lower cmd ws = F_Fin 0"
        using none assms(4) by (intro name_coverage_none) (auto simp: word_hits_def)
      ultimately have "score_command lower cmd (join '' '' ws) ws = F_Fin 0"
        using r(2) by (simp add: eq f64_div_zero SCORE_NAME_COVERAGE_def f64_mul_def f64_is_inf_def)
      then show False using lt by simp
    qed
  qed
qed

section \<open>Properties\<close>

text \<open>
  The registry is a map from names to the command last registered under each: after any
  sequence of registrations, looking up a name gives the last command of the sequence with that
  name, and the listing is in strictly increasing name order (the names registered, each once),
  whatever the order of registration.
\<close>

theorem registry_last_registration:
  "registry_get (fold register cs registry_new) k = List.find (\<lambda>c. ci_name c = k) (rev cs) \<and>
   map ci_name (registry_list (fold register cs registry_new)) = sorted_list_of_set (ci_name ` set cs)"
proof
  have inv: "registry_inv (fold register cs registry_new)" for cs
    by (intro commands.inv_puts) simp
  have get: "registry_get (fold register cs registry_new) k = List.find (\<lambda>c. ci_name c = k) (rev cs)" for k
  proof (induction cs rule: rev_induct)
    case Nil
    then show ?case by (simp add: registry_get_def registry_new_def)
  next
    case (snoc c cs)
    then show ?case using commands.find_put [OF inv [of cs], of c k] by auto
  qed
  then show "registry_get (fold register cs registry_new) k = List.find (\<lambda>c. ci_name c = k) (rev cs)" .
  let ?l = "registry_list (fold register cs registry_new)"
  have "c \<in> set ?l \<longleftrightarrow> List.find (\<lambda>d. ci_name d = ci_name c) (rev cs) = Some c" for c
    using commands.find_items [OF inv, of cs "ci_name c" c] get [of "ci_name c"] by simp
  then have "ci_name ` set ?l = ci_name ` set cs"
  proof (intro set_eqI iffI)
    fix n
    assume *: "\<And>c. c \<in> set ?l \<longleftrightarrow> List.find (\<lambda>d. ci_name d = ci_name c) (rev cs) = Some c" "n \<in> ci_name ` set cs"
    then obtain d where "List.find (\<lambda>d. ci_name d = n) (rev cs) = Some d"
      by (cases "List.find (\<lambda>d. ci_name d = n) (rev cs)") (auto simp: find_None_iff)
    moreover from this have "ci_name d = n" by (auto simp: find_Some_iff)
    ultimately show "n \<in> ci_name ` set ?l" using *(1) [of d] by auto
  next
    fix n
    assume *: "\<And>c. c \<in> set ?l \<longleftrightarrow> List.find (\<lambda>d. ci_name d = ci_name c) (rev cs) = Some c" "n \<in> ci_name ` set ?l"
    then obtain c where "n = ci_name c" "List.find (\<lambda>d. ci_name d = ci_name c) (rev cs) = Some c" by auto
    moreover from this(2) have "c \<in> set (rev cs)" by (metis find_Some_iff nth_mem)
    ultimately show "n \<in> ci_name ` set cs" by simp
  qed
  moreover have "sorted_wrt (<) (map ci_name ?l)" using inv by (rule commands.items_sorted)
  ultimately show "map ci_name ?l = sorted_list_of_set (ci_name ` set cs)"
    by (intro strict_sorted_equal) simp_all
qed

text \<open>
  (C27) Resolution finds exactly the commands the query mentions and ranks them deterministically:
  a registered command is returned if and only if some word of the query occurs in its name,
  description, intent, category or an example (no floating-point rounding loses or invents a
  match), each once, in descending order of score with ties broken by ascending name.
\<close>

theorem resolve_exact:
  assumes "registry_inv r"
    and "length (lower (chars_take MAX_QUERY_LEN query)) < 2 ^ 64"
    and "\<forall>c \<in> set (registry_list r). length (lower (ci_name c)) < 2 ^ 64"
  shows "mset (map sc_command (resolve lower r query)) =
           mset (filter (\<lambda>c. \<exists>w \<in> set (query_words_of lower query). word_hits lower c w) (registry_list r)) \<and>
         sorted_wrt scored_le (resolve lower r query)"
proof (cases "query_words_of lower query = []")
  case True
  then show ?thesis by (simp add: resolve_def)
next
  case False
  let ?ws = "query_words_of lower query"
  let ?score = "\<lambda>c. score_command lower c (join '' '' ?ws) ?ws"
  have "\<forall>w \<in> set ?ws. CHR '' '' \<notin> set w"
    using split_ws_words [of "[]"] by (auto simp: query_words_of_def split_whitespace_def)
  moreover have "length ?ws \<le> 2 ^ 64"
    using split_ws_length [of "[]" "lower (chars_take MAX_QUERY_LEN query)"] assms(2)
    by (simp add: query_words_of_def split_whitespace_def)
  ultimately have hit: "f64_lt (F_Fin 0) (?score c) \<longleftrightarrow> (\<exists>w \<in> set ?ws. word_hits lower c w)"
    if "c \<in> set (registry_list r)" for c
    using False that assms(3) by (intro score_positive_iff) simp_all
  let ?f = "\<lambda>c. if f64_lt (F_Fin 0) (?score c) then Some \<lparr> sc_command = c, sc_score = ?score c \<rparr> else None"
  have res: "resolve lower r query = sort_by scored_le (List.map_filter ?f (registry_list r))"
    using False by (simp add: resolve_def Let_def)
  have "map sc_command (List.map_filter ?f cs) = filter (\<lambda>c. f64_lt (F_Fin 0) (?score c)) cs" for cs
    by (induction cs) (simp_all add: List.map_filter_def)
  then have "mset (map sc_command (resolve lower r query)) =
      mset (filter (\<lambda>c. f64_lt (F_Fin 0) (?score c)) (registry_list r))"
    by (simp only: res mset_map [symmetric] sort_by_map_mset)
  also have "filter (\<lambda>c. f64_lt (F_Fin 0) (?score c)) (registry_list r) =
      filter (\<lambda>c. \<exists>w \<in> set ?ws. word_hits lower c w) (registry_list r)"
    using hit by (intro filter_cong) simp_all
  finally have "mset (map sc_command (resolve lower r query)) =
      mset (filter (\<lambda>c. \<exists>w \<in> set ?ws. word_hits lower c w) (registry_list r))" .
  moreover have "sorted_wrt scored_le (resolve lower r query)"
    unfolding res by (rule sort_by_sorted [OF scored_le_total scored_le_trans])
  ultimately show ?thesis by blast
qed

theorem resolve_exact_witness:
  "sorted_wrt scored_le (resolve (map to_ascii_lower)
     (fold register [command_info_new ''get_counter'', command_info_new ''greet''] registry_new) ''Counter'')"
proof -
  let ?r = "fold register [command_info_new ''get_counter'', command_info_new ''greet''] registry_new"
  have "registry_inv ?r" by (intro commands.inv_puts) simp
  moreover have "length (map to_ascii_lower (chars_take MAX_QUERY_LEN ''Counter'')) < 2 ^ 64"
    by (simp add: MAX_QUERY_LEN_def is_continuation_byte_def)
  moreover have "set (registry_list ?r) = {command_info_new ''get_counter'', command_info_new ''greet''}"
    by (simp add: registry_list_def register_def registry_new_def command_info_new_def)
  then have "\<forall>c \<in> set (registry_list ?r). length (map to_ascii_lower (ci_name c)) < 2 ^ 64"
    by (simp add: command_info_new_def)
  ultimately show ?thesis using resolve_exact [of ?r "map to_ascii_lower" "''Counter''"] by blast
qed

end
