(* ===== verification/State_Verification.thy ===== *)
theory State_Verification
  imports Event Victauri_Error Registry
begin

text \<open>
  \<^verbatim>\<open>crates/victauri-core/src/verification.rs\<close> and \<^verbatim>\<open>types.rs\<close>: comparison of frontend and
  backend state, detection of ghost commands, IPC integrity and semantic assertions.  Parsing and
  printing a JSON number and printing a value (\<^verbatim>\<open>serde_json\<close>) are the fields of \<open>json_lib\<close>.
\<close>

section \<open>Value types (types.rs)\<close>

record ref_handle =
  rh_id :: string
  rh_selector :: string
  rh_role :: "string option"
  rh_name :: "string option"

record memory_delta =
  md_before_bytes :: int
  md_after_bytes :: int
  md_delta_bytes :: int
  md_command :: string

datatype divergence_severity = Info | Warning | Error

record divergence =
  dv_path :: string
  dv_frontend_value :: json
  dv_backend_value :: json
  dv_severity :: divergence_severity

record verification_result =
  vr_passed :: bool
  vr_frontend_state :: json
  vr_backend_state :: json
  vr_divergences :: "divergence list"

fun severity_to_string :: "divergence_severity \<Rightarrow> string" where
  "severity_to_string Info = ''info''"
| "severity_to_string Warning = ''warning''"
| "severity_to_string Error = ''error''"

definition divergence_to_string :: "(json \<Rightarrow> string) \<Rightarrow> divergence \<Rightarrow> string" where
  "divergence_to_string show_value d =
     dv_path d @ '': '' @ show_value (dv_frontend_value d) @ '' '' @ [CHR 0xE2, CHR 0x89, CHR 0xA0] @ '' '' @
     show_value (dv_backend_value d) @ '' ('' @ severity_to_string (dv_severity d) @ '')''"

definition verification_result_to_string :: "verification_result \<Rightarrow> string" where
  "verification_result_to_string r =
     (if vr_passed r then ''verification passed''
      else ''verification failed: '' @ decimal (length (vr_divergences r)) @ '' divergence(s)'')"

section \<open>Numbers\<close>

definition FLOAT_EPSILON :: f64 where
  "FLOAT_EPSILON = round_f64 (1 / 10 ^ 9)"

definition F64_EPSILON :: f64 where
  "F64_EPSILON = F_Fin (1 / 2 ^ 52)"

definition integer_value :: "number \<Rightarrow> int option" where
  "integer_value n =
     (case number_as_i64 n of Some i \<Rightarrow> Some i | None \<Rightarrow> map_option int (number_as_u64 n))"

text \<open>\<^verbatim>\<open>f.fract() == 0.0 && f.abs() < 2f64.powi(127) && f as i128 == i\<close>.\<close>

fun float_is_int :: "f64 \<Rightarrow> int \<Rightarrow> bool" where
  "float_is_int (F_Fin r) i = (r - of_int (if 0 \<le> r then \<lfloor>r\<rfloor> else \<lceil>r\<rceil>) = 0 \<and> \<bar>r\<bar> < 2 ^ 127 \<and> \<lfloor>r\<rfloor> = i)"
| "float_is_int F_NZero i = (i = 0)"
| "float_is_int _ i = False"

definition numbers_equal :: "number \<Rightarrow> number \<Rightarrow> bool" where
  "numbers_equal a b =
     (case (integer_value a, integer_value b, number_as_f64 a, number_as_f64 b) of
        (Some x, Some y, _, _) \<Rightarrow> x = y
      | (Some i, None, _, Some f) \<Rightarrow> float_is_int f i
      | (None, Some i, Some f, _) \<Rightarrow> float_is_int f i
      | (None, None, Some x, Some y) \<Rightarrow>
          f64_eq x y \<or>
          f64_le (f64_abs (f64_sub x y))
            (f64_mul (f64_mul (F_Fin 4) F64_EPSILON) (f64_max (f64_abs x) (f64_abs y)))
      | _ \<Rightarrow> False)"

section \<open>State comparison\<close>

definition MAX_COMPARE_DEPTH :: usize where
  "MAX_COMPARE_DEPTH = 128"

fun classify_severity :: "json \<Rightarrow> json \<Rightarrow> divergence_severity" where
  "classify_severity JNull _ = Warning"
| "classify_severity _ JNull = Warning"
| "classify_severity (JNumber f) (JNumber b) =
     (case (number_as_f64 f, number_as_f64 b) of
        (Some fv, Some bv) \<Rightarrow> if f64_lt (f64_abs (f64_sub fv bv)) FLOAT_EPSILON then Info else Error
      | _ \<Rightarrow> Error)"
| "classify_severity _ _ = Error"

definition root_path :: "string \<Rightarrow> string" where
  "root_path path = (if path = [] then ''$'' else path)"

definition key_path :: "string \<Rightarrow> string \<Rightarrow> string" where
  "key_path path key = (if path = [] then key else path @ ''.'' @ key)"

definition index_path :: "string \<Rightarrow> nat \<Rightarrow> string" where
  "index_path path i = path @ ''['' @ decimal i @ '']''"

definition numbers_match :: "json \<Rightarrow> json \<Rightarrow> bool" where
  "numbers_match f b = (case (f, b) of (JNumber x, JNumber y) \<Rightarrow> numbers_equal x y | _ \<Rightarrow> False)"

definition missing_in_backend :: "string \<Rightarrow> json \<Rightarrow> divergence" where
  "missing_in_backend path v =
     \<lparr> dv_path = path, dv_frontend_value = v, dv_backend_value = JNull, dv_severity = Warning \<rparr>"

definition missing_in_frontend :: "string \<Rightarrow> json \<Rightarrow> divergence" where
  "missing_in_frontend path v =
     \<lparr> dv_path = path, dv_frontend_value = JNull, dv_backend_value = v, dv_severity = Warning \<rparr>"

text \<open>The divergences \<^verbatim>\<open>compare_values\<close> pushes, in order.\<close>

function compare_values :: "string \<Rightarrow> json \<Rightarrow> json \<Rightarrow> nat \<Rightarrow> divergence list" where
  "compare_values path frontend backend depth =
     (if json_eq frontend backend then []
      else if numbers_match frontend backend then []
      else if depth \<ge> MAX_COMPARE_DEPTH then
        [\<lparr> dv_path = root_path path,
           dv_frontend_value = JString (''<max compare depth '' @ decimal MAX_COMPARE_DEPTH @ '' exceeded>''),
           dv_backend_value = JNull, dv_severity = Warning \<rparr>]
      else case (frontend, backend) of
        (JObject f_map, JObject b_map) \<Rightarrow>
          concat (map (\<lambda>kv.
            case map_of b_map (fst kv) of
              Some b_val \<Rightarrow> compare_values (key_path path (fst kv)) (snd kv) b_val (depth + 1)
            | None \<Rightarrow> [missing_in_backend (key_path path (fst kv)) (snd kv)]) f_map) @
          map (\<lambda>kv. missing_in_frontend (key_path path (fst kv)) (snd kv))
            (filter (\<lambda>kv. fst kv \<notin> fst ` set f_map) b_map)
      | (JArray f_arr, JArray b_arr) \<Rightarrow>
          concat (map (\<lambda>i.
            if i < length f_arr then
              (if i < length b_arr
               then compare_values (index_path path i) (f_arr ! i) (b_arr ! i) (depth + 1)
               else [missing_in_backend (index_path path i) (f_arr ! i)])
            else [missing_in_frontend (index_path path i) (b_arr ! i)])
            [0..<max (length f_arr) (length b_arr)])
      | _ \<Rightarrow>
          [\<lparr> dv_path = root_path path, dv_frontend_value = frontend, dv_backend_value = backend,
             dv_severity = classify_severity frontend backend \<rparr>])"
  by pat_completeness auto
termination
  by (relation "measure (\<lambda>(_, f, _, _). size f)")
    (use json_size_array nth_mem in \<open>auto dest: json_size_object\<close>)

declare compare_values.simps [simp del]

definition verify_state :: "json \<Rightarrow> json \<Rightarrow> verification_result" where
  "verify_state frontend_state backend_state =
     (let divergences = compare_values [] frontend_state backend_state 0
      in \<lparr> vr_passed = (divergences = []), vr_frontend_state = frontend_state,
           vr_backend_state = backend_state, vr_divergences = divergences \<rparr>)"

fun strictly_equal :: "json \<Rightarrow> json \<Rightarrow> bool" where
  "strictly_equal (JNumber x) (JNumber y) = numbers_equal x y"
| "strictly_equal (JArray x) (JArray y) = list_all2 strictly_equal x y"
| "strictly_equal (JObject x) (JObject y) =
     (length x = length y \<and>
      list_all (\<lambda>kv. case map_of y (fst kv) of Some q \<Rightarrow> strictly_equal (snd kv) q | None \<Rightarrow> False) x)"
| "strictly_equal a b = json_eq a b"

section \<open>Ghost commands\<close>

datatype ghost_source = FrontendOnly | RegistryOnly

record ghost_command =
  gc_name :: string
  gc_source :: ghost_source
  gc_description :: "string option"

record ghost_command_report =
  gr_frontend_only :: "ghost_command list"
  gr_registry_only :: "ghost_command list"
  gr_total_frontend_commands :: usize
  gr_total_registry_commands :: usize

fun ghost_source_to_string :: "ghost_source \<Rightarrow> string" where
  "ghost_source_to_string FrontendOnly = ''frontend-only''"
| "ghost_source_to_string RegistryOnly = ''registry-only''"

definition ghost_command_to_string :: "ghost_command \<Rightarrow> string" where
  "ghost_command_to_string g = gc_name g @ '' ('' @ ghost_source_to_string (gc_source g) @ '')''"

definition ghost_report_to_string :: "ghost_command_report \<Rightarrow> string" where
  "ghost_report_to_string r =
     decimal (length (gr_frontend_only r)) @ '' ghost command(s) ('' @
     decimal (gr_total_frontend_commands r) @ '' frontend, '' @
     decimal (gr_total_registry_commands r) @ '' registry)''"

definition FRONTEND_ONLY_NOTE :: string where
  "FRONTEND_ONLY_NOTE =
     ''Invoked from the frontend but absent from Victauri's introspection registry (#[inspectable]/register_command_names). '' @
     ''NOT necessarily a real ghost '' @ [CHR 0xE2, CHR 0x80, CHR 0x94] @
     '' only a missing-handler bug if the registry mirrors the app's full command set.''"

text \<open>
  The hash set's iteration order is \<open>remdups\<close> of the input here; the names in it are distinct, so
  sorting by name makes the order immaterial.
\<close>

definition detect_ghost_commands :: "string list \<Rightarrow> registry \<Rightarrow> ghost_command_report" where
  "detect_ghost_commands frontend_commands r =
     (let cmds = registry_list r;
          registry_names = set (map ci_name cmds);
          frontend_set = remdups frontend_commands;
          frontend_only =
            map (\<lambda>n. \<lparr> gc_name = n, gc_source = FrontendOnly, gc_description = Some FRONTEND_ONLY_NOTE \<rparr>)
              (filter (\<lambda>n. n \<notin> registry_names) frontend_set);
          registry_only =
            map (\<lambda>c. \<lparr> gc_name = ci_name c, gc_source = RegistryOnly, gc_description = ci_description c \<rparr>)
              (filter (\<lambda>c. ci_name c \<notin> set frontend_set) cmds)
      in \<lparr> gr_frontend_only = sort_key gc_name frontend_only,
           gr_registry_only = sort_key gc_name registry_only,
           gr_total_frontend_commands = length frontend_set,
           gr_total_registry_commands = length cmds \<rparr>)"

section \<open>IPC integrity\<close>

record stale_call =
  st_id :: string
  st_command :: string
  st_timestamp :: timestamp
  st_age_ms :: int
  st_webview_label :: string

record error_call =
  ec_id :: string
  ec_command :: string
  ec_timestamp :: timestamp
  ec_error :: string
  ec_webview_label :: string

record ipc_integrity_report =
  ir_total_calls :: usize
  ir_completed :: usize
  ir_pending :: usize
  ir_errored :: usize
  ir_stale_calls :: "stale_call list"
  ir_error_calls :: "error_call list"
  ir_healthy :: bool

definition integrity_report_to_string :: "ipc_integrity_report \<Rightarrow> string" where
  "integrity_report_to_string r =
     (if ir_healthy r
      then ''IPC healthy: '' @ decimal (ir_completed r) @ ''/'' @ decimal (ir_total_calls r) @ '' completed''
      else ''IPC unhealthy: '' @ decimal (length (ir_stale_calls r)) @ '' stale, '' @
           decimal (ir_errored r) @ '' errored of '' @ decimal (ir_total_calls r) @ '' calls'')"

text \<open>\<^verbatim>\<open>TimeDelta::num_milliseconds\<close> of a difference in nanoseconds: towards zero.\<close>

definition num_milliseconds :: "int \<Rightarrow> int" where
  "num_milliseconds d = (if 0 \<le> d then d div 10 ^ 6 else - ((- d) div 10 ^ 6))"

definition stale_of :: "timestamp \<Rightarrow> ipc_call \<Rightarrow> stale_call" where
  "stale_of now c =
     \<lparr> st_id = ic_id c, st_command = ic_command c, st_timestamp = ic_timestamp c,
       st_age_ms = num_milliseconds (now - ic_timestamp c), st_webview_label = ic_webview_label c \<rparr>"

definition error_of :: "ipc_call \<Rightarrow> string \<Rightarrow> error_call" where
  "error_of c e =
     \<lparr> ec_id = ic_id c, ec_command = ic_command c, ec_timestamp = ic_timestamp c, ec_error = e,
       ec_webview_label = ic_webview_label c \<rparr>"

definition integrity_step :: "timestamp \<Rightarrow> int \<Rightarrow> ipc_call \<Rightarrow> ipc_integrity_report \<Rightarrow> ipc_integrity_report" where
  "integrity_step now stale_threshold_ms c r =
     (let r = r\<lparr>ir_total_calls := ir_total_calls r + 1\<rparr>
      in case ic_result c of
           Ok _ \<Rightarrow> r\<lparr>ir_completed := ir_completed r + 1\<rparr>
         | Pending \<Rightarrow>
             (let r = r\<lparr>ir_pending := ir_pending r + 1\<rparr>
              in if num_milliseconds (now - ic_timestamp c) \<ge> stale_threshold_ms
                 then r\<lparr>ir_stale_calls := ir_stale_calls r @ [stale_of now c]\<rparr> else r)
         | Err e \<Rightarrow>
             r\<lparr>ir_errored := ir_errored r + 1, ir_error_calls := ir_error_calls r @ [error_of c e]\<rparr>)"

definition check_ipc_integrity :: "timestamp \<Rightarrow> event_log \<Rightarrow> int \<Rightarrow> ipc_integrity_report" where
  "check_ipc_integrity now elog stale_threshold_ms =
     (let r = for_each_ipc_call elog (integrity_step now stale_threshold_ms)
                \<lparr> ir_total_calls = 0, ir_completed = 0, ir_pending = 0, ir_errored = 0,
                  ir_stale_calls = [], ir_error_calls = [], ir_healthy = True \<rparr>
      in r\<lparr>ir_healthy := (ir_stale_calls r = [] \<and> ir_errored r = 0)\<rparr>)"

section \<open>Assertions\<close>

datatype assertion_condition =
  Equals | NotEquals | Contains | GreaterThan | LessThan | Truthy | Falsy | Exists | TypeIs

definition condition_from_str :: "string \<Rightarrow> assertion_condition result" where
  "condition_from_str s =
     (if s = ''equals'' then Inr Equals
      else if s = ''not_equals'' then Inr NotEquals
      else if s = ''contains'' then Inr Contains
      else if s = ''greater_than'' then Inr GreaterThan
      else if s = ''less_than'' then Inr LessThan
      else if s = ''truthy'' then Inr Truthy
      else if s = ''falsy'' then Inr Falsy
      else if s = ''exists'' then Inr Exists
      else if s = ''type_is'' then Inr TypeIs
      else Inl (UnknownCondition s))"

fun condition_to_string :: "assertion_condition \<Rightarrow> string" where
  "condition_to_string Equals = ''equals''"
| "condition_to_string NotEquals = ''not_equals''"
| "condition_to_string Contains = ''contains''"
| "condition_to_string GreaterThan = ''greater_than''"
| "condition_to_string LessThan = ''less_than''"
| "condition_to_string Truthy = ''truthy''"
| "condition_to_string Falsy = ''falsy''"
| "condition_to_string Exists = ''exists''"
| "condition_to_string TypeIs = ''type_is''"

record semantic_assertion =
  sa_label :: string
  sa_condition :: assertion_condition
  sa_expected :: json

definition semantic_assertion_new :: "string \<Rightarrow> assertion_condition \<Rightarrow> json \<Rightarrow> semantic_assertion" where
  "semantic_assertion_new label condition expected =
     \<lparr> sa_label = label, sa_condition = condition, sa_expected = expected \<rparr>"

record assertion_result =
  as_label :: string
  as_passed :: bool
  as_actual :: json
  as_expected :: json
  as_message :: "string option"

record json_lib =
  jl_parse_number :: "string \<Rightarrow> number option"   \<comment> \<open>\<^verbatim>\<open>serde_json::from_str::<Number>\<close>\<close>
  jl_show_number :: "number \<Rightarrow> string"           \<comment> \<open>\<^verbatim>\<open>Number::to_string\<close>\<close>
  jl_debug_value :: "json \<Rightarrow> string"             \<comment> \<open>\<^verbatim>\<open>{:?}\<close> of a \<^verbatim>\<open>Value\<close>\<close>

text \<open>\<^verbatim>\<open>str::parse::<f64>\<close>: the grammar of the standard library, correctly rounded.\<close>

definition pow10 :: "int \<Rightarrow> rat" where
  "pow10 k = (if 0 \<le> k then 10 ^ nat k else 1 / 10 ^ nat (- k))"

definition parse_sign :: "string \<Rightarrow> bool \<times> string" where
  "parse_sign s = (case s of c # cs \<Rightarrow> if c = CHR ''-'' then (True, cs)
                                       else if c = CHR ''+'' then (False, cs) else (False, s)
                           | [] \<Rightarrow> (False, []))"

definition parse_exponent :: "string \<Rightarrow> int option" where
  "parse_exponent s =
     (case s of
        [] \<Rightarrow> Some 0
      | c # cs \<Rightarrow>
          if c = CHR ''e'' \<or> c = CHR ''E'' then
            (let (neg, ds) = parse_sign cs
             in if ds \<noteq> [] \<and> list_all is_ascii_digit ds
                then Some (if neg then - int (digits_value ds) else int (digits_value ds)) else None)
          else None)"

definition parse_f64 :: "string \<Rightarrow> f64 option" where
  "parse_f64 s =
     (let (neg, t) = parse_sign s
      in if eq_ignore_ascii_case t ''nan'' then Some F_NaN
         else if eq_ignore_ascii_case t ''inf'' \<or> eq_ignore_ascii_case t ''infinity''
         then Some (if neg then F_NInf else F_PInf)
         else let whole = takeWhile is_ascii_digit t;
                  rest = dropWhile is_ascii_digit t;
                  (frac, rest) = (case rest of
                      c # cs \<Rightarrow> if c = CHR ''.'' then (takeWhile is_ascii_digit cs, dropWhile is_ascii_digit cs)
                                else ([], rest)
                    | [] \<Rightarrow> ([], []))
              in if whole = [] \<and> frac = [] then None
                 else case parse_exponent rest of
                        None \<Rightarrow> None
                      | Some e \<Rightarrow>
                          let v = of_nat (digits_value (whole @ frac)) * pow10 (e - int (length frac))
                          in Some (if neg then (if v = 0 then F_NZero else round_f64 (- v)) else round_f64 v))"

definition coerce_f64 :: "json \<Rightarrow> f64 option" where
  "coerce_f64 v =
     (case json_as_f64 v of
        Some x \<Rightarrow> Some x
      | None \<Rightarrow> (case json_as_str v of Some s \<Rightarrow> parse_f64 s | None \<Rightarrow> None))"

definition canonical_number :: "json_lib \<Rightarrow> string \<Rightarrow> number option" where
  "canonical_number lib s =
     (case jl_parse_number lib s of
        Some n \<Rightarrow> if jl_show_number lib n = s then Some n else None
      | None \<Rightarrow> None)"

definition text_is_number :: "json_lib \<Rightarrow> string \<Rightarrow> number \<Rightarrow> bool" where
  "text_is_number lib s n =
     (case canonical_number lib s of Some parsed \<Rightarrow> numbers_equal parsed n | None \<Rightarrow> False)"

definition json_values_equal :: "json_lib \<Rightarrow> json \<Rightarrow> json \<Rightarrow> bool" where
  "json_values_equal lib a b =
     (case (a, b) of
        (JNumber n, JString s) \<Rightarrow> text_is_number lib s n
      | (JString s, JNumber n) \<Rightarrow> text_is_number lib s n
      | _ \<Rightarrow> strictly_equal a b)"

definition number_is_zero :: "number \<Rightarrow> bool" where
  "number_is_zero n = f64_eq (case number_as_f64 n of Some x \<Rightarrow> x | None \<Rightarrow> F_Fin 0) (F_Fin 0)"

fun json_truthy :: "json \<Rightarrow> bool" where
  "json_truthy JNull = False"
| "json_truthy (JBool b) = b"
| "json_truthy (JString s) = (s \<noteq> [])"
| "json_truthy (JNumber n) = (\<not> number_is_zero n)"
| "json_truthy _ = True"

fun json_falsy :: "json \<Rightarrow> bool" where
  "json_falsy JNull = True"
| "json_falsy (JBool b) = (\<not> b)"
| "json_falsy (JString s) = (s = [])"
| "json_falsy (JNumber n) = number_is_zero n"
| "json_falsy _ = False"

definition json_has_type :: "string \<Rightarrow> json \<Rightarrow> bool" where
  "json_has_type type_name v =
     (if type_name = ''string'' then (case v of JString _ \<Rightarrow> True | _ \<Rightarrow> False)
      else if type_name = ''number'' then (case v of JNumber _ \<Rightarrow> True | _ \<Rightarrow> False)
      else if type_name = ''boolean'' then (case v of JBool _ \<Rightarrow> True | _ \<Rightarrow> False)
      else if type_name = ''array'' then (case v of JArray _ \<Rightarrow> True | _ \<Rightarrow> False)
      else if type_name = ''object'' then (case v of JObject _ \<Rightarrow> True | _ \<Rightarrow> False)
      else if type_name = ''null'' then v = JNull
      else False)"

definition assertion_passes :: "json_lib \<Rightarrow> json \<Rightarrow> assertion_condition \<Rightarrow> json \<Rightarrow> bool" where
  "assertion_passes lib actual condition expected =
     (case condition of
        Equals \<Rightarrow> json_values_equal lib actual expected
      | NotEquals \<Rightarrow> \<not> json_values_equal lib actual expected
      | Contains \<Rightarrow>
          (case actual of
             JString a \<Rightarrow> (case expected of JString e \<Rightarrow> contains_str a e | _ \<Rightarrow> False)
           | JArray arr \<Rightarrow> list_ex (\<lambda>item. json_values_equal lib item expected) arr
           | _ \<Rightarrow> False)
      | GreaterThan \<Rightarrow>
          (case (coerce_f64 actual, coerce_f64 expected) of (Some a, Some e) \<Rightarrow> f64_lt e a | _ \<Rightarrow> False)
      | LessThan \<Rightarrow>
          (case (coerce_f64 actual, coerce_f64 expected) of (Some a, Some e) \<Rightarrow> f64_lt a e | _ \<Rightarrow> False)
      | Truthy \<Rightarrow> json_truthy actual
      | Falsy \<Rightarrow> json_falsy actual
      | Exists \<Rightarrow> \<not> json_eq actual JNull
      | TypeIs \<Rightarrow> json_has_type (case json_as_str expected of Some s \<Rightarrow> s | None \<Rightarrow> []) actual)"

definition evaluate_assertion :: "json_lib \<Rightarrow> json \<Rightarrow> semantic_assertion \<Rightarrow> assertion_result" where
  "evaluate_assertion lib actual a =
     (let passed = assertion_passes lib actual (sa_condition a) (sa_expected a)
      in \<lparr> as_label = sa_label a, as_passed = passed, as_actual = actual, as_expected = sa_expected a,
           as_message = (if passed then None
             else Some (''Assertion '' @ [CHR 0x27] @ sa_label a @ [CHR 0x27] @ '' failed: expected '' @
                        condition_to_string (sa_condition a) @ '' '' @ jl_debug_value lib (sa_expected a) @
                        '', got '' @ jl_debug_value lib actual)) \<rparr>)"

section \<open>Equality of values\<close>

lemma integer_value_simps [simp]:
  "integer_value (PosInt n) = Some (int n)" "integer_value (NegInt i) = Some i" "integer_value (Float x) = None"
  by (simp_all add: integer_value_def)

lemma numbers_equal_of_number_eq: "number_eq a b \<Longrightarrow> numbers_equal a b"
  by (cases a; cases b) (auto simp: numbers_equal_def)

lemma f64_abs_sub_commute: "f64_abs (f64_sub x y) = f64_abs (f64_sub y x)"
proof (cases "\<exists>a b. x = F_Fin a \<and> y = F_Fin b")
  case True
  then obtain a b where ab: "x = F_Fin a" "y = F_Fin b" by blast
  have "f64_abs (round_f64 (a - b)) = f64_abs (round_f64 (b - a))"
    using f64_abs_round_minus [of "a - b"] by simp
  then show ?thesis by (auto simp: ab f64_sub_def)
next
  case False
  then show ?thesis by (cases x; cases y) (auto simp: f64_sub_def f64_abs_round_minus)
qed

lemma f64_max_abs_commute: "f64_max (f64_abs x) (f64_abs y) = f64_max (f64_abs y) (f64_abs x)"
  by (cases x; cases y) (auto simp: f64_max_def)

lemma numbers_equal_sym: "numbers_equal a b = numbers_equal b a"
proof (cases a; cases b)
  fix x y
  assume "a = Float x" "b = Float y"
  then show ?thesis
    using f64_eq_sym [of x y] f64_abs_sub_commute [of x y] f64_max_abs_commute [of x y]
    by (simp add: numbers_equal_def)
qed (auto simp: numbers_equal_def)

lemma map_of_nth_distinct:
  "distinct (map fst m) \<Longrightarrow> i < length m \<Longrightarrow> map_of m (fst (m ! i)) = Some (snd (m ! i))"
  by (simp add: map_of_eq_Some_iff)

lemma strictly_equal_of_json_eq: "json_eq a b \<Longrightarrow> wf_json b \<Longrightarrow> strictly_equal a b"
proof (induction a b rule: json_eq.induct)
  case (3 a b)
  then show ?case by (simp add: numbers_equal_of_number_eq)
next
  case (5 xs ys)
  then show ?case by (auto simp: list_all2_conv_all_nth)
next
  case (6 xs ys)
  have "distinct (map fst ys)" using 6(3) by (rule wf_object_distinct)
  moreover have len: "length xs = length ys" using 6(2) by (simp add: list_all2_lengthD)
  moreover have eq: "fst (xs ! i) = fst (ys ! i)" "json_eq (snd (xs ! i)) (snd (ys ! i))" if "i < length xs" for i
    using 6(2) that by (auto simp: list_all2_conv_all_nth)
  moreover have "strictly_equal (snd (xs ! i)) (snd (ys ! i))" if "i < length xs" for i
    using 6(1) [of "xs ! i" "ys ! i"] 6(3) eq [OF that] len that by auto
  ultimately have "\<exists>q. map_of ys (fst (xs ! i)) = Some q \<and> strictly_equal (snd (xs ! i)) q"
    if "i < length xs" for i
    using that map_of_nth_distinct by metis
  then show ?case using len by (fastforce simp: list_all_length)
qed auto

lemma compare_values_passes:
  "json_eq f b \<or> numbers_match f b \<Longrightarrow> compare_values path f b d = []"
  by (auto simp: compare_values.simps [of path f b d])

lemma compare_values_too_deep:
  "\<not> json_eq f b \<Longrightarrow> \<not> numbers_match f b \<Longrightarrow> MAX_COMPARE_DEPTH \<le> d \<Longrightarrow> compare_values path f b d \<noteq> []"
  by (simp add: compare_values.simps [of path f b d])

lemma compare_values_object:
  assumes "\<not> json_eq (JObject f) (JObject b)" "d < MAX_COMPARE_DEPTH"
  shows "compare_values path (JObject f) (JObject b) d = [] \<longleftrightarrow>
    (\<forall>kv \<in> set f. \<exists>v. map_of b (fst kv) = Some v \<and>
       compare_values (key_path path (fst kv)) (snd kv) v (d + 1) = []) \<and>
    fst ` set b \<subseteq> fst ` set f"
proof -
  have "compare_values path (JObject f) (JObject b) d =
      concat (map (\<lambda>kv. case map_of b (fst kv) of
        Some v \<Rightarrow> compare_values (key_path path (fst kv)) (snd kv) v (d + 1)
      | None \<Rightarrow> [missing_in_backend (key_path path (fst kv)) (snd kv)]) f) @
      map (\<lambda>kv. missing_in_frontend (key_path path (fst kv)) (snd kv)) (filter (\<lambda>kv. fst kv \<notin> fst ` set f) b)"
    using assms by (subst compare_values.simps) (simp add: numbers_match_def)
  then show ?thesis by (auto simp: filter_empty_conv split: option.splits)
qed

lemma concat_upt_Nil: "concat (map g [0..<n]) = [] \<longleftrightarrow> (\<forall>i < n. g i = [])"
  by auto

lemma nested_if_Nil: "(if p then (if q then c else [u]) else [v]) = [] \<longleftrightarrow> p \<and> q \<and> c = []"
  by simp

lemma compare_values_array:
  assumes "\<not> json_eq (JArray f) (JArray b)" "d < MAX_COMPARE_DEPTH"
  shows "compare_values path (JArray f) (JArray b) d = [] \<longleftrightarrow>
    length f = length b \<and>
    (\<forall>i < length f. compare_values (index_path path i) (f ! i) (b ! i) (d + 1) = [])"
proof -
  have "compare_values path (JArray f) (JArray b) d =
      concat (map (\<lambda>i.
            if i < length f then
              (if i < length b then compare_values (index_path path i) (f ! i) (b ! i) (d + 1)
               else [missing_in_backend (index_path path i) (f ! i)])
            else [missing_in_frontend (index_path path i) (b ! i)])
            [0..<max (length f) (length b)])"
    using assms by (subst compare_values.simps) (simp add: numbers_match_def)
  then have "compare_values path (JArray f) (JArray b) d = [] \<longleftrightarrow>
      (\<forall>i < max (length f) (length b). i < length f \<and> i < length b \<and>
         compare_values (index_path path i) (f ! i) (b ! i) (d + 1) = [])"
    by (simp only: concat_upt_Nil nested_if_Nil)
  also have "\<dots> \<longleftrightarrow> length f = length b \<and>
      (\<forall>i < length f. compare_values (index_path path i) (f ! i) (b ! i) (d + 1) = [])"
  proof (intro iffI conjI allI impI)
    assume *: "\<forall>i < max (length f) (length b). i < length f \<and> i < length b \<and>
         compare_values (index_path path i) (f ! i) (b ! i) (d + 1) = []"
    show "length f = length b"
    proof (rule ccontr)
      assume "length f \<noteq> length b"
      then have "min (length f) (length b) < max (length f) (length b)" by auto
      then have "min (length f) (length b) < length f" "min (length f) (length b) < length b"
        using * by blast+
      then show False by simp
    qed
    fix i
    assume "i < length f"
    then show "compare_values (index_path path i) (f ! i) (b ! i) (d + 1) = []"
      using * [rule_format, of i] by simp
  next
    fix i
    assume "length f = length b \<and>
        (\<forall>i < length f. compare_values (index_path path i) (f ! i) (b ! i) (d + 1) = [])"
      "i < max (length f) (length b)"
    then show "i < length f" "i < length b" "compare_values (index_path path i) (f ! i) (b ! i) (d + 1) = []"
      by simp_all
  qed
  finally show ?thesis .
qed

lemma compare_values_leaf:
  assumes "\<not> json_eq f b" "\<not> numbers_match f b" "compare_values path f b d = []"
  shows "(\<exists>x y. f = JObject x \<and> b = JObject y) \<or> (\<exists>x y. f = JArray x \<and> b = JArray y)"
  using assms by (subst (asm) compare_values.simps) (auto split: if_splits json.splits)

lemma map_of_keys_subset: "(\<And>kv. kv \<in> set x \<Longrightarrow> \<exists>v. map_of y (fst kv) = Some v) \<Longrightarrow> fst ` set x \<subseteq> fst ` set y"
  by (force dest: map_of_SomeD)

text \<open>Objects with the same keys, each once, have the same length.\<close>

lemma object_lengths:
  assumes "wf_json (JObject f)" "wf_json (JObject b)" "fst ` set f = fst ` set b"
  shows "length f = length b"
  using wf_object_distinct [OF assms(1)] wf_object_distinct [OF assms(2)] assms(3)
  by (metis distinct_card length_map list.set_map)

lemma compare_sound:
  "compare_values path f b d = [] \<Longrightarrow> wf_json f \<Longrightarrow> wf_json b \<Longrightarrow> strictly_equal f b"
proof (induction "size f" arbitrary: path f b d rule: less_induct)
  case less
  consider "json_eq f b" | "numbers_match f b"
    | x y where "f = JObject x" "b = JObject y" "\<not> json_eq f b" "\<not> numbers_match f b"
    | x y where "f = JArray x" "b = JArray y" "\<not> json_eq f b" "\<not> numbers_match f b"
    using compare_values_leaf [OF _ _ less.prems(1)] by blast
  then show ?case
  proof cases
    case 1
    then show ?thesis using less.prems(3) by (rule strictly_equal_of_json_eq)
  next
    case 2
    then show ?thesis by (auto simp: numbers_match_def split: json.splits)
  next
    case (3 x y)
    have d: "d < MAX_COMPARE_DEPTH"
      using compare_values_too_deep [OF 3(3,4)] less.prems(1) by (meson not_le)
    note keys = iffD1 [OF compare_values_object [OF 3(3) [unfolded 3(1,2)] d]
        less.prems(1) [unfolded 3(1,2)]]
    have "fst ` set x \<subseteq> fst ` set y"
      using keys [THEN conjunct1, THEN bspec] by (intro map_of_keys_subset) blast
    then have len: "length x = length y"
      using keys [THEN conjunct2] less.prems(2,3) unfolding 3(1,2) by (intro object_lengths) blast+
    have "case map_of y (fst kv) of Some q \<Rightarrow> strictly_equal (snd kv) q | None \<Rightarrow> False" if kv: "kv \<in> set x" for kv
    proof -
      obtain v where v: "map_of y (fst kv) = Some v"
          "compare_values (key_path path (fst kv)) (snd kv) v (d + 1) = []"
        using keys [THEN conjunct1, THEN bspec, OF kv] by blast
      have "wf_json v" using less.prems(3) v(1) map_of_SomeD by (fastforce simp: 3)
      moreover have "wf_json (snd kv)" using less.prems(2) that by (simp add: 3)
      moreover have "size (snd kv) < size f" using json_size_object [OF that] by (simp add: 3)
      ultimately show ?thesis using less.hyps v by simp
    qed
    then show ?thesis using len by (simp add: 3 list_all_iff)
  next
    case (4 x y)
    have d: "d < MAX_COMPARE_DEPTH"
      using compare_values_too_deep [OF 4(3,4)] less.prems(1) by (meson not_le)
    note els = iffD1 [OF compare_values_array [OF 4(3) [unfolded 4(1,2)] d]
        less.prems(1) [unfolded 4(1,2)]]
    have "strictly_equal (x ! i) (y ! i)" if "i < length x" for i
    proof -
      have "size (x ! i) < size f" using json_size_array [OF nth_mem [OF that]] by (simp add: 4)
      then show ?thesis using less.hyps els that less.prems(2,3) by (auto simp: 4)
    qed
    then show ?thesis using els by (simp add: 4 list_all2_conv_all_nth)
  qed
qed

lemma compare_complete:
  "strictly_equal f b \<Longrightarrow> wf_json f \<Longrightarrow> wf_json b \<Longrightarrow> json_depth f + d \<le> MAX_COMPARE_DEPTH \<Longrightarrow>
   compare_values path f b d = []"
proof (induction "size f" arbitrary: path f b d rule: less_induct)
  case less
  show ?case
  proof (cases "json_eq f b \<or> numbers_match f b")
    case True
    then show ?thesis by (rule compare_values_passes)
  next
    case False
    then consider x y where "f = JObject x" "b = JObject y" | x y where "f = JArray x" "b = JArray y"
      using less.prems(1) by (cases f; cases b) (auto simp: numbers_match_def)
    then show ?thesis
    proof cases
      case (1 x y)
      have len: "length x = length y"
        and each: "\<And>kv. kv \<in> set x \<Longrightarrow> \<exists>q. map_of y (fst kv) = Some q \<and> strictly_equal (snd kv) q"
        using less.prems(1) by (auto simp: 1 list_all_iff split: option.splits)
      have "fst ` set x \<subseteq> fst ` set y"
        using each by (intro map_of_keys_subset) blast
      moreover have "card (fst ` set x) = card (fst ` set y)"
        using wf_object_distinct [of x] wf_object_distinct [of y] less.prems(2,3) len
        by (metis 1 distinct_card length_map list.set_map)
      ultimately have eq: "fst ` set x = fst ` set y" by (intro card_subset_eq) simp_all
      have d: "d < MAX_COMPARE_DEPTH" using less.prems(4) by (simp add: 1)
      have "compare_values (key_path path (fst kv)) (snd kv) v (d + 1) = []"
        if "kv \<in> set x" "map_of y (fst kv) = Some v" "strictly_equal (snd kv) v" for kv v
      proof (rule less.hyps)
        show "size (snd kv) < size f" using json_size_object [OF that(1)] by (simp add: 1)
        show "wf_json v" using less.prems(3) that(2) map_of_SomeD by (fastforce simp: 1)
        show "wf_json (snd kv)" using less.prems(2) that(1) by (simp add: 1)
        show "json_depth (snd kv) + (d + 1) \<le> MAX_COMPARE_DEPTH"
          using json_depth_object [OF that(1)] less.prems(4) by (simp add: 1)
      qed (fact that(3))
      then have "\<forall>kv \<in> set x. \<exists>v. map_of y (fst kv) = Some v \<and>
          compare_values (key_path path (fst kv)) (snd kv) v (d + 1) = []" using each by blast
      moreover have "\<not> json_eq (JObject x) (JObject y)" using False by (simp add: 1)
      ultimately show ?thesis unfolding 1 using eq d
        by (intro iffD2 [OF compare_values_object]) simp_all
    next
      case (2 x y)
      have d: "d < MAX_COMPARE_DEPTH" using less.prems(4) by (simp add: 2)
      have len: "length x = length y" and each: "\<And>i. i < length x \<Longrightarrow> strictly_equal (x ! i) (y ! i)"
        using less.prems(1) by (auto simp: 2 list_all2_conv_all_nth)
      have "compare_values (index_path path i) (x ! i) (y ! i) (d + 1) = []" if "i < length x" for i
      proof (rule less.hyps)
        show "size (x ! i) < size f" using json_size_array [OF nth_mem [OF that]] by (simp add: 2)
        show "wf_json (x ! i)" "wf_json (y ! i)" using less.prems(2,3) that len by (simp_all add: 2)
        show "json_depth (x ! i) + (d + 1) \<le> MAX_COMPARE_DEPTH"
          using json_depth_array [OF nth_mem [OF that]] less.prems(4) by (simp add: 2)
      qed (rule each [OF that])
      then show ?thesis using False d len by (auto simp: 2 compare_values_array)
    qed
  qed
qed

lemma strictly_equal_object_flip:
  assumes "wf_json (JObject x)" "wf_json (JObject y)" "strictly_equal (JObject x) (JObject y)"
    and flip: "\<And>kv q. kv \<in> set x \<Longrightarrow> (fst kv, q) \<in> set y \<Longrightarrow> strictly_equal (snd kv) q \<Longrightarrow> strictly_equal q (snd kv)"
  shows "strictly_equal (JObject y) (JObject x)"
proof -
  have len: "length x = length y"
    and each: "\<And>kv. kv \<in> set x \<Longrightarrow> \<exists>q. map_of y (fst kv) = Some q \<and> strictly_equal (snd kv) q"
    using assms(3) by (auto simp: list_all_iff split: option.splits)
  have "fst ` set x \<subseteq> fst ` set y" using each by (intro map_of_keys_subset) blast
  moreover have "card (fst ` set x) = card (fst ` set y)"
    using wf_object_distinct [OF assms(1)] wf_object_distinct [OF assms(2)] len
    by (metis distinct_card length_map list.set_map)
  ultimately have eq: "fst ` set x = fst ` set y" by (intro card_subset_eq) simp_all
  have "\<exists>p. map_of x (fst kq) = Some p \<and> strictly_equal (snd kq) p" if kq: "kq \<in> set y" for kq
  proof -
    obtain kv where kv: "kv \<in> set x" "fst kv = fst kq" using eq kq by (metis imageE image_eqI)
    have "map_of y (fst kq) = Some (snd kq)"
      using wf_object_distinct [OF assms(2)] kq by (simp add: map_of_eq_Some_iff)
    then have "strictly_equal (snd kv) (snd kq)" using each [OF kv(1)] kv(2) by auto
    then have "strictly_equal (snd kq) (snd kv)" using flip [OF kv(1)] kq kv(2) by (metis prod.collapse)
    moreover have "map_of x (fst kq) = Some (snd kv)"
      using wf_object_distinct [OF assms(1)] kv by (metis map_of_eq_Some_iff prod.collapse)
    ultimately show ?thesis by blast
  qed
  then show ?thesis using len by (fastforce simp: list_all_iff split: option.splits)
qed

lemma json_eq_leaf_sym:
  "(\<And>x. a \<noteq> JArray x) \<Longrightarrow> (\<And>x. a \<noteq> JObject x) \<Longrightarrow> (\<And>x. a \<noteq> JNumber x) \<Longrightarrow>
   strictly_equal a b \<Longrightarrow> strictly_equal b a"
  by (cases a; cases b) auto

lemma strictly_equal_flip: "strictly_equal a b \<Longrightarrow> wf_json a \<Longrightarrow> wf_json b \<Longrightarrow> strictly_equal b a"
proof (induction "size a" arbitrary: a b rule: less_induct)
  case less
  show ?case
  proof (cases a)
    case (JNumber n)
    then show ?thesis using less.prems(1) numbers_equal_sym by (cases b) auto
  next
    case (JArray x)
    then obtain y where y: "b = JArray y" using less.prems(1) by (cases b) auto
    have len: "length x = length y" and each: "\<And>i. i < length x \<Longrightarrow> strictly_equal (x ! i) (y ! i)"
      using less.prems(1) by (auto simp: JArray y list_all2_conv_all_nth)
    have "strictly_equal (y ! i) (x ! i)" if "i < length x" for i
      using less.hyps [of "x ! i" "y ! i"] json_size_array [OF nth_mem [OF that]] each [OF that]
        less.prems(2,3) len that by (simp add: JArray y)
    then show ?thesis using len by (simp add: JArray y list_all2_conv_all_nth)
  next
    case (JObject x)
    then obtain y where y: "b = JObject y" using less.prems(1) by (cases b) auto
    have flip: "strictly_equal q (snd kv)" if "kv \<in> set x" "(fst kv, q) \<in> set y" "strictly_equal (snd kv) q" for kv q
    proof (rule less.hyps)
      show "size (snd kv) < size a" using json_size_object [OF that(1)] by (simp add: JObject)
      show "wf_json (snd kv)" using less.prems(2) that(1) by (simp add: JObject)
      show "wf_json q" using less.prems(3) that(2) by (auto simp: y)
    qed (fact that(3))
    show ?thesis
      unfolding JObject y using less.prems(2,3,1) [unfolded JObject y] flip by (rule strictly_equal_object_flip)
  qed (use json_eq_leaf_sym less.prems(1) in blast)+
qed

section \<open>Properties\<close>

text \<open>
  (C20) State verification is sound, and complete up to its depth bound: for well-formed JSON, if
  \<^verbatim>\<open>verify_state\<close> passes then frontend and backend are equal (same keys, same lengths, numbers
  equal by value at every position), and when the frontend state nests at most 128 deep it passes
  exactly then, so no divergence is invented and none is missed.
\<close>

theorem verify_state_exact:
  assumes "wf_json f" "wf_json b"
  shows "(vr_passed (verify_state f b) \<longrightarrow> strictly_equal f b) \<and>
         (json_depth f \<le> MAX_COMPARE_DEPTH \<longrightarrow> vr_passed (verify_state f b) = strictly_equal f b)"
proof -
  have "strictly_equal f b" if "vr_passed (verify_state f b)"
    using that compare_sound [of "[]" f b 0] assms by (simp add: verify_state_def Let_def)
  moreover have "vr_passed (verify_state f b)" if "strictly_equal f b" "json_depth f \<le> MAX_COMPARE_DEPTH"
    using compare_complete [of f b 0 "[]"] that assms by (simp add: verify_state_def Let_def)
  ultimately show ?thesis by blast
qed

theorem verify_state_exact_witness:
  "vr_passed (verify_state (JObject [(''a'', JNumber (PosInt 5))]) (JObject [(''a'', JNumber (Float (F_Fin 5)))]))"
proof -
  let ?f = "JObject [(''a'', JNumber (PosInt 5))]" and ?b = "JObject [(''a'', JNumber (Float (F_Fin 5)))]"
  have "wf_json ?f" "wf_json ?b" by simp_all
  from verify_state_exact [OF this] show ?thesis
    by (simp add: numbers_equal_def MAX_COMPARE_DEPTH_def)
qed

text \<open>
  Equality of runtime values does not depend on which side is expected:
  \<^verbatim>\<open>json_values_equal\<close> is symmetric on well-formed values, through nested arrays and objects,
  the floating-point tolerance and the number/text coercion.
\<close>

theorem json_values_equal_symmetric:
  assumes "wf_json a" "wf_json b"
  shows "json_values_equal lib a b = json_values_equal lib b a"
proof -
  have "strictly_equal a b = strictly_equal b a" using assms strictly_equal_flip by blast
  then show ?thesis by (cases a; cases b) (simp_all add: json_values_equal_def)
qed

theorem json_values_equal_symmetric_witness:
  "\<exists>lib. json_values_equal lib (JString ''3'') (JNumber (PosInt 3)) = json_values_equal lib (JNumber (PosInt 3)) (JString ''3'')"
  using json_values_equal_symmetric [of "JString ''3''" "JNumber (PosInt 3)"] by simp

text \<open>
  The ghost report is the two set differences: \<open>frontend_only\<close> lists exactly the names
  invoked but not registered, \<open>registry_only\<close> exactly the names registered but not invoked, each
  once and in strictly increasing order, and the totals count distinct names, for every registry
  built by registrations.
\<close>

theorem ghost_report_exact:
  assumes "registry_inv r"
  shows "map gc_name (gr_frontend_only (detect_ghost_commands cmds r)) =
           sorted_list_of_set (set cmds - ci_name ` set (registry_list r)) \<and>
         map gc_name (gr_registry_only (detect_ghost_commands cmds r)) =
           sorted_list_of_set (ci_name ` set (registry_list r) - set cmds) \<and>
         gr_total_frontend_commands (detect_ghost_commands cmds r) = card (set cmds) \<and>
         gr_total_registry_commands (detect_ghost_commands cmds r) = card (ci_name ` set (registry_list r))"
proof -
  have sorted_names: "map gc_name (sort_key gc_name gs) = sorted_list_of_set (set (map gc_name gs))"
    if "distinct (map gc_name gs)" for gs
    using that by (intro sorted_distinct_set_unique) (simp_all add: distinct_map)
  have d: "distinct (map ci_name (registry_list r))"
    using commands.items_sorted [OF assms] by (rule sorted_wrt_less_distinct)
  have fo: "set cmds - ci_name ` set (registry_list r) = {n \<in> set cmds. n \<notin> ci_name ` set (registry_list r)}"
    and ro: "ci_name ` set (registry_list r) - set cmds = ci_name ` {c \<in> set (registry_list r). ci_name c \<notin> set cmds}"
    by auto
  have "map gc_name (gr_frontend_only (detect_ghost_commands cmds r)) =
      sorted_list_of_set (set cmds - ci_name ` set (registry_list r))"
    unfolding detect_ghost_commands_def Let_def fo
    by (simp add: sorted_names comp_def distinct_map)
  moreover have "map gc_name (gr_registry_only (detect_ghost_commands cmds r)) =
      sorted_list_of_set (ci_name ` set (registry_list r) - set cmds)"
    unfolding detect_ghost_commands_def Let_def ro
    using sorted_names [of "map (\<lambda>c. \<lparr> gc_name = ci_name c, gc_source = RegistryOnly,
        gc_description = ci_description c \<rparr>) (filter (\<lambda>c. ci_name c \<notin> set cmds) (registry_list r))"]
      distinct_map_filter [OF d, of "\<lambda>c. ci_name c \<notin> set cmds"]
    by (simp add: comp_def image_image)
  moreover have "card (ci_name ` set (registry_list r)) = length (registry_list r)"
    using d distinct_card by fastforce
  ultimately show ?thesis by (simp add: detect_ghost_commands_def Let_def length_remdups_card_conv)
qed

theorem ghost_report_exact_witness:
  "map gc_name (gr_frontend_only (detect_ghost_commands [''save'', ''delete'']
     (register (command_info_new ''save'') registry_new))) = [''delete'']"
proof -
  have "registry_inv (register (command_info_new ''save'') registry_new)"
    by (intro registry_inv_register) simp
  moreover have "registry_list (register (command_info_new ''save'') registry_new) = [command_info_new ''save'']"
    by (simp add: registry_list_def register_def registry_new_def)
  moreover have "set [''save'', ''delete''] - ci_name ` {command_info_new ''save''} = {''delete''}"
    by (auto simp: command_info_new_def)
  ultimately show ?thesis
    using ghost_report_exact [of "register (command_info_new ''save'') registry_new" "[''save'', ''delete'']"]
    by simp
qed

text \<open>The report as filters of the calls.\<close>

definition is_completed :: "ipc_call \<Rightarrow> bool" where
  "is_completed c = (case ic_result c of Ok _ \<Rightarrow> True | _ \<Rightarrow> False)"

definition is_stale :: "timestamp \<Rightarrow> int \<Rightarrow> ipc_call \<Rightarrow> bool" where
  "is_stale now threshold c =
     (ic_result c = Pending \<and> threshold \<le> num_milliseconds (now - ic_timestamp c))"

definition error_of_call :: "ipc_call \<Rightarrow> error_call option" where
  "error_of_call c = (case ic_result c of Err e \<Rightarrow> Some (error_of c e) | _ \<Rightarrow> None)"

lemma integrity_fold:
  "fold (integrity_step now th) cs r =
     r\<lparr>ir_total_calls := ir_total_calls r + length cs,
       ir_completed := ir_completed r + length (filter is_completed cs),
       ir_pending := ir_pending r + length (filter (\<lambda>c. ic_result c = Pending) cs),
       ir_errored := ir_errored r + length (List.map_filter error_of_call cs),
       ir_stale_calls := ir_stale_calls r @ map (stale_of now) (filter (is_stale now th) cs),
       ir_error_calls := ir_error_calls r @ List.map_filter error_of_call cs\<rparr>"
proof (induction cs arbitrary: r)
  case Nil
  then show ?case by (simp add: List.map_filter_def)
next
  case (Cons c cs)
  then show ?case
    by (cases "ic_result c")
      (simp_all add: integrity_step_def is_completed_def is_stale_def error_of_call_def List.map_filter_def Let_def)
qed

text \<open>
  The IPC integrity report accounts for every call of the log: the total is the number of
  calls and splits exactly into completed, pending and errored ones, the stale list is exactly the
  pending calls at least the threshold old and the error list exactly the failed ones, both in log
  order, and the log is healthy exactly when both lists are empty.
\<close>

theorem ipc_integrity_accounts:
  "let calls = ipc_calls elog; r = check_ipc_integrity now elog threshold
   in ir_total_calls r = length calls \<and>
      ir_total_calls r = ir_completed r + ir_pending r + ir_errored r \<and>
      ir_completed r = length (filter is_completed calls) \<and>
      ir_pending r = length (filter (\<lambda>c. ic_result c = Pending) calls) \<and>
      ir_stale_calls r = map (stale_of now) (filter (is_stale now threshold) calls) \<and>
      ir_error_calls r = List.map_filter error_of_call calls \<and>
      ir_errored r = length (ir_error_calls r) \<and>
      (ir_healthy r \<longleftrightarrow> ir_stale_calls r = [] \<and> ir_error_calls r = [])"
proof -
  have split: "length cs = length (filter is_completed cs) + length (filter (\<lambda>c. ic_result c = Pending) cs) +
      length (List.map_filter error_of_call cs)" for cs
  proof (induction cs)
    case Nil
    then show ?case by (simp add: List.map_filter_def)
  next
    case (Cons c cs)
    then show ?case
      by (cases "ic_result c") (simp_all add: is_completed_def error_of_call_def List.map_filter_def)
  qed
  show ?thesis using split [of "ipc_calls elog"]
    by (simp add: check_ipc_integrity_def for_each_ipc_call_eq integrity_fold Let_def)
qed

text \<open>
  Assertion conditions survive the text form MCP carries them in, and nothing else parses:
  every condition is read back from its own text, any text that parses is the text of the
  condition it parses to, and every other text is reported as an unknown condition, verbatim.
\<close>

theorem assertion_condition_roundtrip:
  "condition_from_str (condition_to_string c) = Inr c \<and>
   (\<forall>s. (case condition_from_str s of
           Inr d \<Rightarrow> s = condition_to_string d
         | Inl e \<Rightarrow> e = UnknownCondition s))"
proof
  show "condition_from_str (condition_to_string c) = Inr c"
    by (cases c) (simp_all add: condition_from_str_def)
  show "\<forall>s. (case condition_from_str s of Inr d \<Rightarrow> s = condition_to_string d | Inl e \<Rightarrow> e = UnknownCondition s)"
  proof
    fix s
    let ?P = "\<lambda>r. case r of Inr d \<Rightarrow> s = condition_to_string d | Inl e \<Rightarrow> e = UnknownCondition s"
    have branch: "(b \<Longrightarrow> ?P x) \<Longrightarrow> ?P y \<Longrightarrow> ?P (if b then x else y)" for b x y by simp
    show "?P (condition_from_str s)"
      unfolding condition_from_str_def by (intro branch) simp_all
  qed
qed

lemma f64_lt_asym: "f64_lt x y \<Longrightarrow> \<not> f64_lt y x"
  by (cases x; cases y) auto

text \<open>
  The assertion conditions are consistent with each other: for every value and expectation
  exactly one of \<open>equals\<close>/\<open>not_equals\<close> and exactly one of \<open>truthy\<close>/\<open>falsy\<close> passes,
  \<open>greater_than\<close> and \<open>less_than\<close> never both pass, and a result carries a failure message
  exactly when it did not pass.
\<close>

theorem assertions_consistent:
  "let passes = (\<lambda>c. as_passed (evaluate_assertion lib actual (semantic_assertion_new l c expected)))
   in passes NotEquals = (\<not> passes Equals) \<and> passes Falsy = (\<not> passes Truthy) \<and>
      \<not> (passes GreaterThan \<and> passes LessThan) \<and>
      (\<forall>a. as_passed (evaluate_assertion lib actual a) = (as_message (evaluate_assertion lib actual a) = None))"
proof -
  have "json_falsy actual = (\<not> json_truthy actual)" by (cases actual) simp_all
  then show ?thesis using f64_lt_asym
    by (auto simp: evaluate_assertion_def assertion_passes_def semantic_assertion_new_def Let_def
        split: option.splits)
qed

end
