(* ===== verification/Authz.thy ===== *)
theory Authz
  imports Json
begin

text \<open>
  \<^verbatim>\<open>crates/victauri-plugin/src/mcp/authz.rs\<close>: which capability a tool call needs.  The tables
  are those of the source, in its order.
\<close>

section \<open>Tables\<close>

definition COMPOUND_TOOLS :: "string list" where
  "COMPOUND_TOOLS =
     [''interact'', ''input'', ''window'', ''storage'', ''navigate'', ''recording'', ''inspect'',
      ''css'', ''route'', ''trace'', ''animation'', ''logs'', ''introspect'', ''fault'',
      ''explain'']"

definition STANDALONE_TOOLS :: "string list" where
  "STANDALONE_TOOLS =
     [''eval_js'', ''dom_snapshot'', ''find_elements'', ''invoke_command'', ''screenshot'',
      ''verify_state'', ''detect_ghost_commands'', ''check_ipc_integrity'', ''wait_for'',
      ''assert_semantic'', ''resolve_command'', ''get_registry'', ''app_state'',
      ''get_memory_stats'', ''get_plugin_info'', ''get_diagnostics'', ''app_info'',
      ''list_app_dir'', ''read_app_file'', ''query_db'']"

definition LEGACY_NAMES :: "string list" where
  "LEGACY_NAMES =
     [''fill'', ''type_text'', ''set_storage'', ''delete_storage'', ''get_storage'',
      ''get_cookies'', ''inject_css'', ''set_dialog_response'', ''get_window_state'',
      ''list_windows'']"

definition COMPOUND_ACTIONS :: "(string \<times> string list) list" where
  "COMPOUND_ACTIONS =
     [(''interact'',
       [''click'', ''double_click'', ''hover'', ''focus'', ''scroll_into_view'', ''select_option'']),
      (''input'',
       [''fill'', ''type_text'', ''press_key'']),
      (''window'',
       [''get_state'', ''list'', ''manage'', ''resize'', ''move_to'', ''set_title'',
        ''introspectability'']),
      (''storage'',
       [''get'', ''set'', ''delete'', ''get_cookies'']),
      (''navigate'',
       [''go_to'', ''go_back'', ''get_history'', ''set_dialog_response'', ''get_dialog_log'']),
      (''recording'',
       [''start'', ''stop'', ''checkpoint'', ''list_checkpoints'', ''get_events'',
        ''events_between'', ''get_replay'', ''export'', ''import'', ''replay'', ''flush'']),
      (''inspect'',
       [''get_styles'', ''get_bounding_boxes'', ''highlight'', ''clear_highlights'',
        ''audit_accessibility'', ''get_performance'']),
      (''css'',
       [''inject'', ''remove'']),
      (''route'',
       [''add'', ''list'', ''clear'', ''clear_all'', ''matches'']),
      (''trace'',
       [''start'', ''stop'', ''status'', ''frames'']),
      (''animation'',
       [''list'', ''scrub'', ''sample'']),
      (''logs'',
       [''console'', ''network'', ''ipc'', ''navigation'', ''dialogs'', ''events'', ''slow_ipc'',
        ''clear'', ''backend'', ''backend_digest'', ''stdout'']),
      (''introspect'',
       [''command_timings'', ''coverage'', ''command_catalog'', ''contract_record'',
        ''contract_check'', ''contract_list'', ''contract_clear'', ''startup_timing'',
        ''capabilities'', ''db_health'', ''plugin_state'', ''processes'', ''plugin_tasks'',
        ''event_bus'', ''event_bus_clear'']),
      (''fault'',
       [''inject'', ''list'', ''clear'', ''clear_all'']),
      (''explain'',
       [''summary'', ''last_action'', ''diff''])]"

definition CAPABILITY_ALIASES :: "(string \<times> string) list" where
  "CAPABILITY_ALIASES =
     [(''inspect.styles'', ''inspect.get_styles''),
      (''inspect.bounds'', ''inspect.get_bounding_boxes''),
      (''inspect.audit_a11y'', ''inspect.audit_accessibility''),
      (''inspect.performance'', ''inspect.get_performance''),
      (''storage.get'', ''get_storage''),
      (''storage.get_cookies'', ''get_cookies''),
      (''window.get_state'', ''get_window_state''),
      (''window.list'', ''list_windows'')]"

section \<open>Operations\<close>

definition capability_alias :: "string \<Rightarrow> string option" where
  "capability_alias name =
     (case List.find (\<lambda>(i, a). name = i \<or> name = a) CAPABILITY_ALIASES of
        Some (i, a) \<Rightarrow> Some (if name = i then a else i)
      | None \<Rightarrow> None)"

definition is_known_name :: "string \<Rightarrow> bool" where
  "is_known_name name =
     (if name \<in> set STANDALONE_TOOLS \<or> name \<in> set COMPOUND_TOOLS \<or> name \<in> set LEGACY_NAMES \<or>
         capability_alias name \<noteq> None then True
      else case split_once (CHR ''.'') name of
             None \<Rightarrow> False
           | Some (tool, action) \<Rightarrow>
               list_ex (\<lambda>(t, actions). t = tool \<and> action \<in> set actions) COMPOUND_ACTIONS)"

definition unknown_names :: "string list \<Rightarrow> string list" where
  "unknown_names names = filter (\<lambda>n. \<not> is_known_name n) names"

definition is_compound_tool :: "string \<Rightarrow> bool" where
  "is_compound_tool tool = (tool \<in> set COMPOUND_TOOLS)"

definition action_capability :: "string \<Rightarrow> string \<Rightarrow> string option" where
  "action_capability tool action =
     (let named = (\<lambda>actions. if action \<in> set actions then Some (tool @ ''.'' @ action) else None);
          mapped = (\<lambda>ids. map_of ids action)
      in if tool = ''interact'' then named
          [''click'', ''double_click'', ''hover'', ''focus'', ''scroll_into_view'',
           ''select_option'']
         else if tool = ''input'' then mapped
          [(''fill'', ''input.fill''), (''type_text'', ''input.type_text''),
           (''press_key'', ''input.press_key'')]
         else if tool = ''window'' then mapped
          [(''get_state'', ''window.get_state''), (''list'', ''window.list''),
           (''manage'', ''window.manage''), (''resize'', ''window.resize''),
           (''move_to'', ''window.move_to''), (''set_title'', ''window.set_title''),
           (''introspectability'', ''window.introspectability'')]
         else if tool = ''storage'' then mapped
          [(''get'', ''storage.get''), (''set'', ''storage.set''),
           (''delete'', ''storage.delete''), (''get_cookies'', ''storage.get_cookies'')]
         else if tool = ''navigate'' then mapped
          [(''go_to'', ''navigate.go_to''), (''go_back'', ''navigate.go_back''),
           (''get_history'', ''navigate.get_history''),
           (''set_dialog_response'', ''navigate.set_dialog_response''),
           (''get_dialog_log'', ''navigate.get_dialog_log'')]
         else if tool = ''recording'' then named
          [''start'', ''stop'', ''checkpoint'', ''list_checkpoints'', ''get_events'',
           ''events_between'', ''get_replay'', ''export'', ''import'', ''replay'', ''flush'']
         else if tool = ''inspect'' then mapped
          [(''get_styles'', ''inspect.styles''), (''get_bounding_boxes'', ''inspect.bounds''),
           (''highlight'', ''inspect.highlight''),
           (''clear_highlights'', ''inspect.clear_highlights''),
           (''audit_accessibility'', ''inspect.audit_a11y''),
           (''get_performance'', ''inspect.performance'')]
         else if tool = ''css'' then mapped
          [(''inject'', ''css.inject''), (''remove'', ''css.remove'')]
         else if tool = ''route'' then named
          [''add'', ''list'', ''clear'', ''clear_all'', ''matches'']
         else if tool = ''trace'' then named
          [''start'', ''stop'', ''status'', ''frames'']
         else if tool = ''animation'' then named
          [''list'', ''scrub'', ''sample'']
         else if tool = ''logs'' then named
          [''console'', ''network'', ''ipc'', ''navigation'', ''dialogs'', ''events'',
           ''slow_ipc'', ''clear'', ''backend'', ''backend_digest'', ''stdout'']
         else if tool = ''introspect'' then named
          [''command_timings'', ''coverage'', ''command_catalog'', ''contract_record'',
           ''contract_check'', ''contract_list'', ''contract_clear'', ''startup_timing'',
           ''capabilities'', ''db_health'', ''plugin_state'', ''processes'', ''plugin_tasks'',
           ''event_bus'', ''event_bus_clear'']
         else if tool = ''fault'' then named
          [''inject'', ''list'', ''clear'', ''clear_all'']
         else if tool = ''explain'' then named
          [''summary'', ''last_action'', ''diff'']
         else None)"

definition resolve_capability :: "string \<Rightarrow> json \<Rightarrow> string + string" where
  "resolve_capability tool args =
     (if \<not> json_is_object args
      then Inl (''arguments for '' @ [CHR 0x27] @ tool @ [CHR 0x27] @ '' must be a JSON object'')
      else if \<not> is_compound_tool tool then Inr tool
      else case json_get args ''action'' of
             Some (JString action) \<Rightarrow>
               Inr (case action_capability tool action of Some c \<Rightarrow> c | None \<Rightarrow> tool)
           | None \<Rightarrow> Inr tool
           | Some _ \<Rightarrow> Inl (''`action` for tool '' @ [CHR 0x27] @ tool @ [CHR 0x27] @ '' must be a string''))"

section \<open>Lemmas\<close>

text \<open>Checks over the tables, by evaluation.\<close>

definition actions_covered :: bool where
  "actions_covered =
     list_all (\<lambda>(tool, actions).
       tool \<in> set COMPOUND_TOOLS \<and>
       list_all (\<lambda>action.
         (case action_capability tool action of
            None \<Rightarrow> False
          | Some c \<Rightarrow> c = tool @ ''.'' @ action \<or> capability_alias c = Some (tool @ ''.'' @ action))) actions)
     COMPOUND_ACTIONS"

lemma actions_covered: actions_covered
  by code_simp

lemma action_has_capability:
  assumes "(tool, actions) \<in> set COMPOUND_ACTIONS" "action \<in> set actions"
  obtains c where "action_capability tool action = Some c" "is_compound_tool tool"
    "c = tool @ ''.'' @ action \<or> capability_alias c = Some (tool @ ''.'' @ action)"
  using actions_covered assms
  by (fastforce simp: actions_covered_def list_all_iff is_compound_tool_def split: option.splits)

definition alias_names :: "string list" where
  "alias_names = map fst CAPABILITY_ALIASES @ map snd CAPABILITY_ALIASES"

lemma alias_involutive_table:
  "list_all (\<lambda>n. case capability_alias n of None \<Rightarrow> False | Some m \<Rightarrow> n \<noteq> m \<and> capability_alias m = Some n) alias_names"
  by code_simp

lemma alias_in_table: "capability_alias n \<noteq> None \<Longrightarrow> n \<in> set alias_names"
  by (auto simp: capability_alias_def alias_names_def find_Some_iff split: option.splits)
    (metis fst_conv image_eqI nth_mem snd_conv)+

lemma capability_alias_sym:
  assumes "capability_alias n = Some m"
  shows "capability_alias m = Some n" "n \<noteq> m"
proof -
  have "n \<in> set alias_names" using assms by (intro alias_in_table) simp
  then show "capability_alias m = Some n" "n \<noteq> m"
    using alias_involutive_table assms by (auto simp: list_all_iff)
qed

end
