(* ===== verification/Privacy.thy ===== *)
theory Privacy
  imports Authz
begin

text \<open>
  \<^verbatim>\<open>crates/victauri-plugin/src/privacy.rs\<close>: the privacy profiles, their permission matrix and
  the dispatch gate.  The redactor is represented by what the configuration uses of it, its
  \<^verbatim>\<open>redact\<close> function.
\<close>

datatype privacy_profile = Observe | Test | FullControl

fun profile_to_string :: "privacy_profile \<Rightarrow> string" where
  "profile_to_string Observe = ''observe''"
| "profile_to_string Test = ''test''"
| "profile_to_string FullControl = ''full_control''"

record privacy_config =
  pc_profile :: privacy_profile
  pc_command_allowlist :: "string set option"
  pc_command_blocklist :: "string set"
  pc_disabled_tools :: "string set"
  pc_storage_key_blocklist :: "string set"
  pc_redact :: "string \<Rightarrow> string"
  pc_redaction_enabled :: bool

section \<open>The permission matrix\<close>

definition TEST_ALLOWED :: "string list" where
  "TEST_ALLOWED =
     [''dom_snapshot'', ''find_elements'', ''get_registry'', ''get_memory_stats'',
      ''get_plugin_info'', ''get_diagnostics'', ''detect_ghost_commands'', ''check_ipc_integrity'',
      ''resolve_command'', ''wait_for'', ''app_state'', ''interact'', ''interact.click'',
      ''interact.double_click'', ''interact.hover'', ''interact.focus'',
      ''interact.scroll_into_view'', ''interact.select_option'', ''fill'', ''input'',
      ''input.fill'', ''type_text'', ''input.type_text'', ''input.press_key'', ''storage'',
      ''set_storage'', ''storage.set'', ''delete_storage'', ''storage.delete'', ''storage.get'',
      ''storage.get_cookies'', ''get_storage'', ''get_cookies'', ''recording'',
      ''recording.start'', ''recording.stop'', ''recording.checkpoint'',
      ''recording.list_checkpoints'', ''recording.get_events'', ''recording.events_between'',
      ''recording.get_replay'', ''recording.export'', ''recording.import'', ''logs'',
      ''logs.console'', ''logs.network'', ''logs.ipc'', ''logs.navigation'', ''logs.dialogs'',
      ''logs.events'', ''logs.slow_ipc'', ''logs.backend'', ''logs.backend_digest'',
      ''logs.stdout'', ''logs.clear'', ''inspect'', ''inspect.styles'', ''inspect.bounds'',
      ''inspect.highlight'', ''inspect.clear_highlights'', ''inspect.audit_a11y'',
      ''inspect.performance'', ''list_windows'', ''window'', ''window.get_state'', ''window.list'',
      ''window.introspectability'', ''get_window_state'', ''navigate'', ''navigate.go_back'',
      ''navigate.get_history'', ''navigate.get_dialog_log'']"

definition OBSERVE_ALLOWED :: "string list" where
  "OBSERVE_ALLOWED =
     [''dom_snapshot'', ''find_elements'', ''get_registry'', ''get_memory_stats'',
      ''get_plugin_info'', ''get_diagnostics'', ''detect_ghost_commands'', ''check_ipc_integrity'',
      ''resolve_command'', ''app_state'', ''logs'', ''logs.console'', ''logs.network'',
      ''logs.ipc'', ''logs.navigation'', ''logs.dialogs'', ''logs.events'', ''logs.slow_ipc'',
      ''logs.backend'', ''logs.backend_digest'', ''logs.stdout'', ''inspect'', ''inspect.styles'',
      ''inspect.bounds'', ''inspect.audit_a11y'', ''inspect.performance'', ''list_windows'',
      ''window'', ''window.get_state'', ''window.list'', ''window.introspectability'',
      ''get_window_state'', ''wait_for'']"

definition is_allowed_by_profile :: "privacy_profile \<Rightarrow> string \<Rightarrow> bool" where
  "is_allowed_by_profile profile tool_or_action =
     (case profile of
        FullControl \<Rightarrow> True
      | Test \<Rightarrow> tool_or_action \<in> set TEST_ALLOWED
      | Observe \<Rightarrow> tool_or_action \<in> set OBSERVE_ALLOWED)"

section \<open>Operations\<close>

definition is_command_allowed :: "privacy_config \<Rightarrow> string \<Rightarrow> bool" where
  "is_command_allowed cfg command =
     (if command \<in> pc_command_blocklist cfg then False
      else case pc_command_allowlist cfg of Some allow \<Rightarrow> command \<in> allow | None \<Rightarrow> True)"

definition is_storage_key_allowed :: "privacy_config \<Rightarrow> string \<Rightarrow> bool" where
  "is_storage_key_allowed cfg key = (key \<notin> pc_storage_key_blocklist cfg)"

definition test_profile_allowlists_commands :: "privacy_config \<Rightarrow> bool" where
  "test_profile_allowlists_commands cfg =
     (pc_profile cfg = Test \<and>
      (case pc_command_allowlist cfg of Some allow \<Rightarrow> allow \<noteq> {} | None \<Rightarrow> False))"

definition is_disabled :: "privacy_config \<Rightarrow> string \<Rightarrow> bool" where
  "is_disabled cfg name =
     (name \<in> pc_disabled_tools cfg \<or>
      (case capability_alias name of Some alias \<Rightarrow> alias \<in> pc_disabled_tools cfg | None \<Rightarrow> False))"

definition is_tool_enabled :: "privacy_config \<Rightarrow> string \<Rightarrow> bool" where
  "is_tool_enabled cfg tool_or_action =
     (if is_disabled cfg tool_or_action then False
      else is_allowed_by_profile (pc_profile cfg) tool_or_action \<or>
           (tool_or_action = ''invoke_command'' \<and> test_profile_allowlists_commands cfg))"

definition is_call_allowed :: "privacy_config \<Rightarrow> string \<Rightarrow> string \<Rightarrow> bool" where
  "is_call_allowed cfg bare_tool capability =
     (if bare_tool \<in> pc_disabled_tools cfg then False else is_tool_enabled cfg capability)"

definition is_invoke_allowed :: "privacy_config \<Rightarrow> string \<Rightarrow> bool" where
  "is_invoke_allowed cfg command =
     (if ''invoke_command'' \<in> pc_disabled_tools cfg then False
      else case pc_profile cfg of
             FullControl \<Rightarrow> True
           | Test \<Rightarrow> (case pc_command_allowlist cfg of Some al \<Rightarrow> command \<in> al | None \<Rightarrow> False)
           | Observe \<Rightarrow> False)"

definition redact_output :: "privacy_config \<Rightarrow> string \<Rightarrow> string" where
  "redact_output cfg output = (if pc_redaction_enabled cfg then pc_redact cfg output else output)"

definition observe_privacy_config :: "(string \<Rightarrow> string) \<Rightarrow> privacy_config" where
  "observe_privacy_config default_redact =
     \<lparr> pc_profile = Observe, pc_command_allowlist = None, pc_command_blocklist = {},
       pc_disabled_tools = {}, pc_storage_key_blocklist = {}, pc_redact = default_redact,
       pc_redaction_enabled = True \<rparr>"

definition test_privacy_config :: "(string \<Rightarrow> string) \<Rightarrow> privacy_config" where
  "test_privacy_config default_redact =
     \<lparr> pc_profile = Test, pc_command_allowlist = None, pc_command_blocklist = {},
       pc_disabled_tools = {}, pc_storage_key_blocklist = {}, pc_redact = default_redact,
       pc_redaction_enabled = True \<rparr>"

definition strict_privacy_config :: "(string \<Rightarrow> string) \<Rightarrow> privacy_config" where
  "strict_privacy_config default_redact = observe_privacy_config default_redact"

section \<open>Lemmas\<close>

lemma observe_subset_test: "set OBSERVE_ALLOWED \<subseteq> set TEST_ALLOWED"
proof -
  have "list_all (\<lambda>n. n \<in> set TEST_ALLOWED) OBSERVE_ALLOWED" by code_simp
  then show ?thesis by (auto simp: list_all_iff)
qed

lemma is_disabled_alias: "capability_alias n = Some m \<Longrightarrow> is_disabled cfg n = is_disabled cfg m"
  by (frule capability_alias_sym(1)) (auto simp: is_disabled_def)

lemma is_call_allowed_iff:
  "is_call_allowed cfg tool c \<longleftrightarrow>
     tool \<notin> pc_disabled_tools cfg \<and> \<not> is_disabled cfg c \<and>
     (is_allowed_by_profile (pc_profile cfg) c \<or> (c = ''invoke_command'' \<and> test_profile_allowlists_commands cfg))"
  by (simp add: is_call_allowed_def is_tool_enabled_def)

text \<open>
  What only \<open>FullControl\<close> may do: running page script, screenshots, reading files and the database,
  navigating, driving windows, intercepting requests, injecting CSS and faults, replaying commands.
\<close>

definition full_control_only :: "string list" where
  "full_control_only =
     [''eval_js'', ''screenshot'', ''verify_state'', ''assert_semantic'', ''query_db'', ''read_app_file'',
      ''list_app_dir'', ''app_info'', ''navigate.go_to'', ''navigate.set_dialog_response'',
      ''recording.replay'', ''recording.flush'', ''window.manage'', ''window.resize'', ''window.move_to'',
      ''window.set_title'', ''css'', ''css.inject'', ''css.remove'', ''route'', ''route.add'', ''route.list'',
      ''route.clear'', ''route.clear_all'', ''route.matches'', ''trace'', ''trace.start'', ''trace.stop'',
      ''trace.frames'', ''animation'', ''animation.scrub'', ''fault'', ''fault.inject'', ''fault.clear'',
      ''introspect'', ''introspect.contract_record'', ''introspect.event_bus'', ''introspect.command_catalog'']"

lemma full_control_only_table: "list_all (\<lambda>n. n \<notin> set TEST_ALLOWED \<and> n \<noteq> ''invoke_command'') full_control_only"
  by code_simp

lemma not_full_control:
  "pc_profile cfg \<noteq> FullControl \<Longrightarrow> is_allowed_by_profile (pc_profile cfg) c \<Longrightarrow> c \<in> set TEST_ALLOWED"
  using observe_subset_test by (cases "pc_profile cfg") (auto simp: is_allowed_by_profile_def)

section \<open>Properties\<close>

text \<open>
  The profiles form the strict hierarchy the documentation promises, for calls and not only in
  the matrix: under configurations that differ only in the profile, every call \<open>Observe\<close> permits is
  permitted by \<open>Test\<close> and every call \<open>Test\<close> permits by \<open>FullControl\<close>, and both inclusions
  are strict.
\<close>

theorem profile_hierarchy:
  "(is_call_allowed (cfg\<lparr>pc_profile := Observe\<rparr>) tool c \<longrightarrow> is_call_allowed (cfg\<lparr>pc_profile := Test\<rparr>) tool c) \<and>
   (is_call_allowed (cfg\<lparr>pc_profile := Test\<rparr>) tool c \<longrightarrow> is_call_allowed (cfg\<lparr>pc_profile := FullControl\<rparr>) tool c) \<and>
   is_allowed_by_profile Test ''logs.clear'' \<and> \<not> is_allowed_by_profile Observe ''logs.clear'' \<and>
   is_allowed_by_profile FullControl ''eval_js'' \<and> \<not> is_allowed_by_profile Test ''eval_js''"
proof -
  have "is_disabled (cfg\<lparr>pc_profile := p\<rparr>) c = is_disabled cfg c" for p
    by (simp add: is_disabled_def split: option.split)
  moreover have "\<not> test_profile_allowlists_commands (cfg\<lparr>pc_profile := Observe\<rparr>)"
    by (simp add: test_profile_allowlists_commands_def)
  moreover have "is_allowed_by_profile Test ''logs.clear''" "\<not> is_allowed_by_profile Observe ''logs.clear''"
    "\<not> is_allowed_by_profile Test ''eval_js''" by code_simp+
  ultimately show ?thesis using observe_subset_test
    by (auto simp: is_call_allowed_iff is_allowed_by_profile_def)
qed

theorem profile_hierarchy_witness:
  "is_call_allowed ((observe_privacy_config (\<lambda>s. s))\<lparr>pc_profile := Test\<rparr>) ''logs'' ''logs.ipc''"
proof -
  have "is_call_allowed ((observe_privacy_config (\<lambda>s. s))\<lparr>pc_profile := Observe\<rparr>) ''logs'' ''logs.ipc''"
    by code_simp
  then show ?thesis using profile_hierarchy by blast
qed

text \<open>
  (C21) An operator can disable an action by any of its names: for every action of every compound
  tool, putting the tool's bare name, the \<open>tool.action\<close> spelling or the capability id (where the two
  differ) into \<open>disabled_tools\<close> makes the gate refuse the call that requests it, in every profile.
\<close>

theorem disabling_any_spelling_blocks:
  assumes "(tool, actions) \<in> set COMPOUND_ACTIONS" "action \<in> set actions"
    and "json_is_object args" "json_get args ''action'' = Some (JString action)"
    and "resolve_capability tool args = Inr c"
    and "tool \<in> pc_disabled_tools cfg \<or> tool @ ''.'' @ action \<in> pc_disabled_tools cfg \<or> c \<in> pc_disabled_tools cfg"
  shows "\<not> is_call_allowed cfg tool c"
proof -
  obtain d where d: "action_capability tool action = Some d" "is_compound_tool tool"
      "d = tool @ ''.'' @ action \<or> capability_alias d = Some (tool @ ''.'' @ action)"
    using assms(1,2) by (rule action_has_capability)
  then have "c = d" using assms(3-5) by (simp add: resolve_capability_def)
  then have "tool @ ''.'' @ action \<in> pc_disabled_tools cfg \<Longrightarrow> is_disabled cfg c"
    using d(3) by (auto simp: is_disabled_def)
  then show ?thesis using assms(6) by (auto simp: is_call_allowed_iff is_disabled_def)
qed

theorem disabling_any_spelling_blocks_witness:
  "\<not> is_call_allowed ((test_privacy_config (\<lambda>s. s))\<lparr>pc_disabled_tools := {''inspect.get_styles''}\<rparr>) ''inspect'' ''inspect.styles''"
proof (rule disabling_any_spelling_blocks)
  show "(''inspect'', [''get_styles'', ''get_bounding_boxes'', ''highlight'', ''clear_highlights'',
        ''audit_accessibility'', ''get_performance'']) \<in> set COMPOUND_ACTIONS"
    by (simp add: COMPOUND_ACTIONS_def)
  show "''get_styles'' \<in> set [''get_styles'', ''get_bounding_boxes'', ''highlight'', ''clear_highlights'',
        ''audit_accessibility'', ''get_performance'']" by simp
  show "json_is_object (JObject [(''action'', JString ''get_styles'')])"
    "json_get (JObject [(''action'', JString ''get_styles'')]) ''action'' = Some (JString ''get_styles'')" by simp_all
  show "resolve_capability ''inspect'' (JObject [(''action'', JString ''get_styles'')]) = Inr ''inspect.styles''"
    by code_simp
qed simp



end
