(* ===== verification/Dispatch.thy ===== *)
theory Dispatch
  imports Privacy
begin

text \<open>
  The two entry points of a tool call, in \<^verbatim>\<open>crates/victauri-plugin/src/mcp/\<close>: REST
  (\<^verbatim>\<open>rest.rs\<close> \<^verbatim>\<open>call_tool\<close>, then \<^verbatim>\<open>execute_tool\<close> of \<^verbatim>\<open>mod.rs\<close>) and MCP (\<^verbatim>\<open>call_tool\<close> of
  \<^verbatim>\<open>mod.rs\<close>), the resource reads that bypass them, and the result texts of \<^verbatim>\<open>helpers.rs\<close>.  What
  the handlers do is an argument: any function of the name, the arguments and the application
  state, which may also panic.  Parsing JSON text is an argument too.
\<close>

section \<open>Results\<close>

datatype content_block = Text string | Image string string | OtherContent

record call_tool_result =
  ct_content :: "content_block list"
  ct_is_error :: "bool option"

definition result_success :: "content_block list \<Rightarrow> call_tool_result" where
  "result_success content = \<lparr> ct_content = content, ct_is_error = Some False \<rparr>"

definition tool_error :: "string \<Rightarrow> call_tool_result" where
  "tool_error msg = (result_success [Text msg])\<lparr>ct_is_error := Some True\<rparr>"

datatype recovery_hint = CheckInput | ReportToUser

fun hint_as_str :: "recovery_hint \<Rightarrow> string" where
  "hint_as_str CheckInput = ''CHECK_INPUT''"
| "hint_as_str ReportToUser = ''REPORT_TO_USER''"

definition tool_error_with_hint :: "string \<Rightarrow> recovery_hint \<Rightarrow> call_tool_result" where
  "tool_error_with_hint message hint =
     (result_success [Text (message @ [CHR 0x0A, CHR 0x0A] @ ''[hint: '' @ hint_as_str hint @ '']'')])\<lparr>ct_is_error := Some True\<rparr>"

definition tool_disabled :: "string \<Rightarrow> call_tool_result" where
  "tool_disabled name =
     tool_error_with_hint (''tool '' @ [CHR 0x27] @ name @ [CHR 0x27] @ '' is disabled by privacy configuration'')
       ReportToUser"

definition missing_param :: "string \<Rightarrow> string \<Rightarrow> call_tool_result" where
  "missing_param param action =
     tool_error_with_hint (''missing required parameter '' @ [CHR 0x27] @ param @ [CHR 0x27] @ '' for action '' @
       [CHR 0x27] @ action @ [CHR 0x27]) CheckInput"

definition tool_panicked :: "string \<Rightarrow> string \<Rightarrow> call_tool_result" where
  "tool_panicked tool panic =
     tool_error (''internal error: the '' @ [CHR 0x27] @ tool @ [CHR 0x27] @ '' handler panicked ('' @ panic @
       ''); the server is still running'')"

datatype tool_call_error = UnknownTool string | InvalidParams string

fun redact_block :: "(string \<Rightarrow> string) \<Rightarrow> content_block \<Rightarrow> content_block" where
  "redact_block f (Text t) = Text (f t)"
| "redact_block f c = c"

definition redact_result :: "privacy_config \<Rightarrow> call_tool_result \<Rightarrow> call_tool_result" where
  "redact_result cfg r = r\<lparr>ct_content := map (redact_block (redact_output cfg)) (ct_content r)\<rparr>"

section \<open>Dispatch\<close>

record 'a tool_state =
  ts_privacy :: privacy_config
  ts_tool_invocations :: u64
  ts_app :: 'a

text \<open>What running a handler comes to: it panics, or returns.\<close>

datatype 'r outcome = Panicked string | Returned 'r

type_synonym 'a rest_dispatch = "string \<Rightarrow> json \<Rightarrow> 'a \<Rightarrow> (tool_call_error + call_tool_result) outcome \<times> 'a"
type_synonym 'a mcp_router = "string \<Rightarrow> json \<Rightarrow> 'a \<Rightarrow> (string + call_tool_result) outcome \<times> 'a"

definition count_invocation :: "'a tool_state \<Rightarrow> 'a tool_state" where
  "count_invocation s = s\<lparr>ts_tool_invocations := (ts_tool_invocations s + 1) mod 2 ^ 64\<rparr>"

definition execute_tool ::
  "'a rest_dispatch \<Rightarrow> string \<Rightarrow> json \<Rightarrow> 'a tool_state \<Rightarrow> (tool_call_error + call_tool_result) \<times> 'a tool_state" where
  "execute_tool dispatch name args s =
     (let cfg = ts_privacy s
      in if name \<in> pc_disabled_tools cfg then (Inr (tool_disabled name), s)
         else case resolve_capability name args of
                Inl msg \<Rightarrow> (Inl (InvalidParams msg), s)
              | Inr capability \<Rightarrow>
                  if \<not> is_call_allowed cfg name capability then (Inr (tool_disabled capability), s)
                  else let s = count_invocation s;
                           (out, app) = dispatch name args (ts_app s);
                           s = s\<lparr>ts_app := app\<rparr>;
                           result = (case out of
                               Returned r \<Rightarrow> r
                             | Panicked panic \<Rightarrow> Inr (tool_panicked name panic))
                       in (case result of
                             Inl e \<Rightarrow> (Inl e, s)
                           | Inr r \<Rightarrow> (Inr (if pc_redaction_enabled cfg then redact_result cfg r else r), s)))"

text \<open>
  The MCP entry point: arguments are an object or absent, and an error is an \<^verbatim>\<open>ErrorData\<close> (its
  message).
\<close>

definition mcp_call_tool ::
  "'a mcp_router \<Rightarrow> string \<Rightarrow> (string \<times> json) list option \<Rightarrow> 'a tool_state \<Rightarrow> (string + call_tool_result) \<times> 'a tool_state" where
  "mcp_call_tool router tool_name arguments s =
     (let cfg = ts_privacy s;
          args_value = JObject (case arguments of Some m \<Rightarrow> m | None \<Rightarrow> [])
      in if tool_name \<in> pc_disabled_tools cfg then (Inr (tool_disabled tool_name), s)
         else case resolve_capability tool_name args_value of
                Inl msg \<Rightarrow> (Inl msg, s)
              | Inr capability \<Rightarrow>
                  if \<not> is_call_allowed cfg tool_name capability then (Inr (tool_disabled capability), s)
                  else let s = count_invocation s;
                           (out, app) = router tool_name args_value (ts_app s);
                           s = s\<lparr>ts_app := app\<rparr>;
                           response = (case out of
                               Returned r \<Rightarrow> r
                             | Panicked panic \<Rightarrow> Inr (tool_panicked tool_name panic))
                       in (if pc_redaction_enabled cfg then map_sum (\<lambda>e. e) (redact_result cfg) response
                           else response, s))"

section \<open>REST\<close>

fun find_text :: "content_block list \<Rightarrow> string option" where
  "find_text [] = None"
| "find_text (Text t # cs) = Some t"
| "find_text (_ # cs) = find_text cs"

definition parsed_or_text :: "(string \<Rightarrow> json option) \<Rightarrow> string \<Rightarrow> json" where
  "parsed_or_text parse t = (case parse t of Some v \<Rightarrow> v | None \<Rightarrow> JString t)"

definition image_json :: "string \<Rightarrow> string \<Rightarrow> json" where
  "image_json bytes mime = JObject [(''data'', JString bytes), (''mimeType'', JString mime), (''type'', JString ''image'')]"

fun block_json :: "content_block \<Rightarrow> json option" where
  "block_json (Text t) = Some (JObject [(''text'', JString t), (''type'', JString ''text'')])"
| "block_json (Image d m) = Some (image_json d m)"
| "block_json OtherContent = None"

definition to_rest_json :: "(string \<Rightarrow> json option) \<Rightarrow> call_tool_result \<Rightarrow> json" where
  "to_rest_json parse r =
     (if ct_is_error r = Some True
      then JObject [(''error'', JString (case find_text (ct_content r) of Some t \<Rightarrow> t | None \<Rightarrow> ''unknown error''))]
      else case ct_content r of
        [Text v, Text note] \<Rightarrow>
          if prefix ''note: '' note
          then JObject [(''note'', JString note), (''result'', parsed_or_text parse v)]
          else JObject [(''result'', JArray (List.map_filter block_json (ct_content r)))]
      | [Image d m, Text note] \<Rightarrow>
          if prefix ''note: '' note
          then JObject [(''note'', JString note), (''result'', image_json d m)]
          else JObject [(''result'', JArray (List.map_filter block_json (ct_content r)))]
      | [Text t] \<Rightarrow> JObject [(''result'', parsed_or_text parse t)]
      | [Image d m] \<Rightarrow> JObject [(''result'', image_json d m)]
      | [OtherContent] \<Rightarrow> JObject [(''result'', JNull)]
      | _ \<Rightarrow> JObject [(''result'', JArray (List.map_filter block_json (ct_content r)))])"

text \<open>\<open>parse\<close> returns the parser's error text on the left.\<close>

definition rest_call_tool ::
  "(string \<Rightarrow> string + json) \<Rightarrow> 'a rest_dispatch \<Rightarrow> string \<Rightarrow> string \<Rightarrow> 'a tool_state \<Rightarrow> (nat \<times> json) \<times> 'a tool_state" where
  "rest_call_tool parse dispatch tool_name body s =
     (case (if str_trim body = [] then Inr (JObject []) else parse body) of
        Inl e \<Rightarrow> ((400, JObject [(''error'', JString (''invalid JSON: '' @ e))]), s)
      | Inr args \<Rightarrow>
          (let (res, s) = execute_tool dispatch tool_name args s
           in (case res of
                 Inr result \<Rightarrow>
                   (200, to_rest_json (\<lambda>t. case parse t of Inr v \<Rightarrow> Some v | Inl _ \<Rightarrow> None) result)
               | Inl (UnknownTool name) \<Rightarrow> (404, JObject [(''error'', JString (''unknown tool: '' @ name))])
               | Inl (InvalidParams msg) \<Rightarrow> (400, JObject [(''error'', JString (''invalid parameters: '' @ msg))]),
               s)))"

definition list_tools :: "privacy_config \<Rightarrow> string list \<Rightarrow> string list" where
  "list_tools cfg all_tools = filter (is_tool_enabled cfg) all_tools"

section \<open>Resources\<close>

definition RESOURCE_URI_IPC_LOG :: string where "RESOURCE_URI_IPC_LOG = ''victauri://ipc-log''"
definition RESOURCE_URI_WINDOWS :: string where "RESOURCE_URI_WINDOWS = ''victauri://windows''"
definition RESOURCE_URI_STATE :: string where "RESOURCE_URI_STATE = ''victauri://state''"

definition resource_required_capability :: "string \<Rightarrow> (string \<times> string) option" where
  "resource_required_capability uri =
     (if uri = RESOURCE_URI_IPC_LOG then Some (''logs'', ''logs.ipc'')
      else if uri = RESOURCE_URI_WINDOWS then Some (''window'', ''window.list'')
      else if uri = RESOURCE_URI_STATE then Some (''get_plugin_info'', ''get_plugin_info'')
      else None)"

definition resource_allowed :: "privacy_config \<Rightarrow> string \<Rightarrow> bool" where
  "resource_allowed cfg uri =
     (case resource_required_capability uri of
        None \<Rightarrow> True
      | Some (tool, capability) \<Rightarrow> is_call_allowed cfg tool capability)"

datatype resource_error = InvalidRequest string | ResourceNotFound string | InternalError string

text \<open>\<open>content\<close> is what the resource would hold (or the error reading it).\<close>

definition read_resource ::
  "privacy_config \<Rightarrow> (string \<Rightarrow> string + string) \<Rightarrow> string \<Rightarrow> resource_error + string" where
  "read_resource cfg content uri =
     (if \<not> resource_allowed cfg uri
      then Inl (InvalidRequest (''resource '' @ uri @ '' is not permitted by the current privacy configuration''))
      else if uri \<in> {RESOURCE_URI_IPC_LOG, RESOURCE_URI_WINDOWS, RESOURCE_URI_STATE}
      then (case content uri of
              Inl e \<Rightarrow> Inl (InternalError e)
            | Inr text \<Rightarrow> Inr (if pc_redaction_enabled cfg then redact_output cfg text else text))
      else Inl (ResourceNotFound (''unknown resource: '' @ uri)))"

definition subscribe :: "privacy_config \<Rightarrow> string \<Rightarrow> string set \<Rightarrow> (resource_error + unit) \<times> string set" where
  "subscribe cfg uri subscriptions =
     (if \<not> resource_allowed cfg uri
      then (Inl (InvalidRequest (''resource '' @ uri @ '' is not permitted by the current privacy configuration'')), subscriptions)
      else if uri \<in> {RESOURCE_URI_IPC_LOG, RESOURCE_URI_WINDOWS, RESOURCE_URI_STATE}
      then (Inr (), insert uri subscriptions)
      else (Inl (ResourceNotFound (''unknown resource: '' @ uri)), subscriptions))"

section \<open>Lemmas\<close>

definition gate_passes :: "privacy_config \<Rightarrow> string \<Rightarrow> json \<Rightarrow> bool" where
  "gate_passes cfg name args \<longleftrightarrow>
     (\<exists>c. resolve_capability name args = Inr c \<and> is_call_allowed cfg name c)"

lemma execute_tool_refused:
  "\<not> gate_passes (ts_privacy s) name args \<Longrightarrow>
   snd (execute_tool d name args s) = s \<and> execute_tool d name args s = execute_tool d' name args s"
  by (auto simp: execute_tool_def gate_passes_def Let_def split: sum.splits)

lemma mcp_call_tool_refused:
  "\<not> gate_passes (ts_privacy s) name (JObject (case m of Some m \<Rightarrow> m | None \<Rightarrow> [])) \<Longrightarrow>
   snd (mcp_call_tool r name m s) = s \<and> mcp_call_tool r name m s = mcp_call_tool r' name m s"
  by (auto simp: mcp_call_tool_def gate_passes_def Let_def split: sum.splits)

lemma redacted_blocks:
  "Text t \<in> set (ct_content (redact_result cfg r)) \<Longrightarrow> pc_redaction_enabled cfg \<Longrightarrow> \<exists>u. t = pc_redact cfg u"
proof -
  assume "Text t \<in> set (ct_content (redact_result cfg r))" "pc_redaction_enabled cfg"
  then obtain b where "Text t = redact_block (redact_output cfg) b" by (auto simp: redact_result_def)
  then show ?thesis using \<open>pc_redaction_enabled cfg\<close>
    by (cases b) (auto simp: redact_output_def)
qed

lemma gate_passes_not_disabled: "gate_passes cfg name args \<Longrightarrow> name \<notin> pc_disabled_tools cfg"
  by (auto simp: gate_passes_def is_call_allowed_def split: if_splits)

section \<open>Properties\<close>



text \<open>
  MCP and REST are the same gate around the same handlers: for the same tool, arguments and state,
  with a router that answers as the REST dispatcher does (an invalid-parameter error becoming its
  message), the two entry points return the same result, count the same and leave the same state.
\<close>

theorem entry_points_agree:
  assumes "\<And>msg. err (InvalidParams msg) = msg"
    and "\<And>n a app. r n a app = map_prod (map_outcome (map_sum err (\<lambda>x. x))) (\<lambda>x. x) (d n a app)"
  shows "mcp_call_tool r name (Some m) s = map_prod (map_sum err (\<lambda>x. x)) (\<lambda>x. x) (execute_tool d name (JObject m) s)"
proof (cases "d name (JObject m) (ts_app s)")
  case (Pair out app)
  then show ?thesis using assms
    by (cases out)
      (auto simp: mcp_call_tool_def execute_tool_def count_invocation_def Let_def split: sum.splits)
qed

theorem entry_points_agree_witness:
  "mcp_call_tool (\<lambda>_ _ a. (Returned (Inr (tool_error [])), a)) ''get_registry'' (Some [])
      \<lparr> ts_privacy = observe_privacy_config (\<lambda>x. x), ts_tool_invocations = 0, ts_app = (7 :: nat) \<rparr>
   = map_prod (map_sum (\<lambda>e. case e of InvalidParams m \<Rightarrow> m | UnknownTool n \<Rightarrow> n) (\<lambda>x. x)) (\<lambda>x. x)
       (execute_tool (\<lambda>_ _ a. (Returned (Inr (tool_error [])), a)) ''get_registry'' (JObject [])
          \<lparr> ts_privacy = observe_privacy_config (\<lambda>x. x), ts_tool_invocations = 0, ts_app = (7 :: nat) \<rparr>)"
  by (rule entry_points_agree) simp_all

text \<open>
  Nothing a handler writes leaves unredacted: with redaction enabled, every text block of the
  result of a dispatched call, on either entry point and also when the handler panicked, is the
  output of the redactor, and so is the text of every resource that can be read.
\<close>

theorem output_is_redacted:
  assumes "pc_redaction_enabled (ts_privacy s)"
  shows "(gate_passes (ts_privacy s) name args \<and> fst (execute_tool d name args s) = Inr res \<and>
            Text t \<in> set (ct_content res) \<longrightarrow> (\<exists>u. t = pc_redact (ts_privacy s) u)) \<and>
         (gate_passes (ts_privacy s) name (JObject m) \<and> fst (mcp_call_tool r name (Some m) s) = Inr res \<and>
            Text t \<in> set (ct_content res) \<longrightarrow> (\<exists>u. t = pc_redact (ts_privacy s) u)) \<and>
         (read_resource (ts_privacy s) content uri = Inr t \<longrightarrow>
            resource_allowed (ts_privacy s) uri \<and> (\<exists>u. t = pc_redact (ts_privacy s) u))"
proof (intro conjI impI)
  let ?cfg = "ts_privacy s"
  show "\<exists>u. t = pc_redact ?cfg u"
    if *: "gate_passes ?cfg name args \<and> fst (execute_tool d name args s) = Inr res \<and> Text t \<in> set (ct_content res)"
  proof -
    obtain q where "res = redact_result ?cfg q"
      using * assms gate_passes_not_disabled [of ?cfg name args]
      by (auto simp: execute_tool_def gate_passes_def Let_def split: sum.splits prod.splits)
    then show ?thesis using * assms redacted_blocks by blast
  qed
  show "\<exists>u. t = pc_redact ?cfg u"
    if *: "gate_passes ?cfg name (JObject m) \<and> fst (mcp_call_tool r name (Some m) s) = Inr res \<and> Text t \<in> set (ct_content res)"
  proof -
    obtain q where "res = redact_result ?cfg q"
      using * assms gate_passes_not_disabled [of ?cfg name "JObject m"]
      by (auto simp: mcp_call_tool_def gate_passes_def Let_def map_sum_def split: sum.splits prod.splits)
    then show ?thesis using * assms redacted_blocks by blast
  qed
  assume *: "read_resource ?cfg content uri = Inr t"
  then show "resource_allowed ?cfg uri" by (auto simp: read_resource_def split: if_splits)
  from * show "\<exists>u. t = pc_redact ?cfg u"
    using assms by (auto simp: read_resource_def redact_output_def split: if_splits sum.splits)
qed

theorem output_is_redacted_witness:
  "let s = \<lparr> ts_privacy = observe_privacy_config (\<lambda>_. ''[REDACTED]''), ts_tool_invocations = 0, ts_app = () \<rparr>
   in fst (execute_tool (\<lambda>_ _ a. (Returned (Inr (result_success [Text ''token=abc''])), a)) ''get_registry'' (JObject []) s)
        = Inr (result_success [Text ''[REDACTED]'']) \<and>
      (\<exists>u. ''[REDACTED]'' = pc_redact (ts_privacy s) u)"
proof -
  let ?s = "\<lparr> ts_privacy = observe_privacy_config (\<lambda>_. ''[REDACTED]''), ts_tool_invocations = 0, ts_app = () \<rparr>"
  let ?d = "\<lambda>_ _ a. (Returned (Inr (result_success [Text ''token=abc''])), a)"
  have cap: "resolve_capability ''get_registry'' (JObject []) = Inr ''get_registry''" by code_simp
  have ok: "is_call_allowed (observe_privacy_config (\<lambda>_. ''[REDACTED]'')) ''get_registry'' ''get_registry''"
    by code_simp
  have g: "gate_passes (ts_privacy ?s) ''get_registry'' (JObject [])" using cap ok by (simp add: gate_passes_def)
  have f: "fst (execute_tool ?d ''get_registry'' (JObject []) ?s) = Inr (result_success [Text ''[REDACTED]''])"
    using cap ok by (simp add: execute_tool_def observe_privacy_config_def redact_result_def redact_output_def
        result_success_def count_invocation_def Let_def)
  have "pc_redaction_enabled (ts_privacy ?s)" by (simp add: observe_privacy_config_def)
  from output_is_redacted [OF this] g f have "\<exists>u. ''[REDACTED]'' = pc_redact (ts_privacy ?s) u"
    by (metis list.set_intros(1) result_success_def call_tool_result.select_convs(1))
  with f show ?thesis by (simp add: Let_def)
qed

text \<open>
  A resource is readable exactly when the tool call it mirrors is allowed: a read or subscription
  of the IPC log, the windows or the state is refused as not permitted if and only if the gate refuses
  the corresponding call, with the subscription set unchanged then.
\<close>

theorem resources_follow_the_gate:
  "(resource_allowed cfg RESOURCE_URI_IPC_LOG \<longleftrightarrow>
      gate_passes cfg ''logs'' (JObject [(''action'', JString ''ipc'')])) \<and>
   (resource_allowed cfg RESOURCE_URI_WINDOWS \<longleftrightarrow>
      gate_passes cfg ''window'' (JObject [(''action'', JString ''list'')])) \<and>
   (resource_allowed cfg RESOURCE_URI_STATE \<longleftrightarrow> gate_passes cfg ''get_plugin_info'' (JObject [])) \<and>
   (snd (subscribe cfg uri subs) \<noteq> subs \<longrightarrow> resource_allowed cfg uri \<and> resource_required_capability uri \<noteq> None)"
proof -
  have caps: "resolve_capability ''logs'' (JObject [(''action'', JString ''ipc'')]) = Inr ''logs.ipc''"
    "resolve_capability ''window'' (JObject [(''action'', JString ''list'')]) = Inr ''window.list''"
    "resolve_capability ''get_plugin_info'' (JObject []) = Inr ''get_plugin_info''"
    by code_simp+
  have uris: "RESOURCE_URI_WINDOWS \<noteq> RESOURCE_URI_IPC_LOG" "RESOURCE_URI_STATE \<noteq> RESOURCE_URI_IPC_LOG"
    "RESOURCE_URI_STATE \<noteq> RESOURCE_URI_WINDOWS"
    by (simp_all add: RESOURCE_URI_WINDOWS_def RESOURCE_URI_IPC_LOG_def RESOURCE_URI_STATE_def)
  show ?thesis using uris
    by (auto simp: resource_allowed_def resource_required_capability_def gate_passes_def caps subscribe_def
        split: if_splits)
qed

theorem resources_follow_the_gate_witness:
  "resource_allowed (observe_privacy_config (\<lambda>x. x)) RESOURCE_URI_IPC_LOG"
proof -
  have "resource_allowed (observe_privacy_config (\<lambda>x. x)) RESOURCE_URI_IPC_LOG \<and>
      resource_required_capability RESOURCE_URI_IPC_LOG \<noteq> None"
    using resources_follow_the_gate [of "observe_privacy_config (\<lambda>x. x)" RESOURCE_URI_IPC_LOG "{}"]
    by (simp add: subscribe_def resource_allowed_def resource_required_capability_def is_call_allowed_def
        is_tool_enabled_def is_disabled_def observe_privacy_config_def is_allowed_by_profile_def OBSERVE_ALLOWED_def
        capability_alias_def CAPABILITY_ALIASES_def)
  then show ?thesis by blast
qed

end
