(* ===== verification/Redaction.thy ===== *)
theory Redaction
  imports Json Collections
begin

text \<open>
  \<^verbatim>\<open>crates/victauri-plugin/src/redaction.rs\<close>: the output redactor.  The \<^verbatim>\<open>regex\<close> crate (compiling,
  matching, replacing, escaping), the JSON text functions of \<^verbatim>\<open>serde_json\<close> and \<^verbatim>\<open>str::to_lowercase\<close>
  (Unicode tables) are the fields of \<open>text_lib\<close>, of which nothing is assumed unless a theorem says
  so.  Shown: the output does not depend on the values of sensitive keys, whatever the patterns do
  (noninterference); no entry of an object is lost when redacted keys collide; nothing but a match or
  a sensitive key changes the text; and the two constructors agree.  Log lines are not modelled.
\<close>

section \<open>The libraries\<close>

record regex =
  rx_is_match :: "string \<Rightarrow> bool"
  rx_replace_all :: "string \<Rightarrow> string \<Rightarrow> string"

record text_lib =
  tx_regex_new :: "string \<Rightarrow> string + regex"
  tx_set_new :: "string list \<Rightarrow> string + (string \<Rightarrow> bool)"
  tx_escape :: "string \<Rightarrow> string"
  tx_lowercase :: "string \<Rightarrow> string"
  tx_from_str :: "string \<Rightarrow> json option"
  tx_to_string :: "json \<Rightarrow> string option"
  tx_number_text :: "number \<Rightarrow> string"

section \<open>Tables\<close>

text \<open>A raw string literal, with a backquote for a backslash and an exclamation mark for a single quote.\<close>

definition raw_text :: "string \<Rightarrow> string" where
  "raw_text s = map (\<lambda>c. if c = CHR ''`'' then CHR 0x5C else if c = CHR ''!'' then CHR 0x27 else c) s"

definition BUILTIN_PATTERNS :: "string list" where
  "BUILTIN_PATTERNS =
     [raw_text ''(?i)`b(sk|pk|key)[-_][a-zA-Z0-9]{20,}`b'',
      raw_text ''(?i)bearer`s+[a-zA-Z0-9`-_.~+/]{20,}'',
      raw_text ''`bAKIA[0-9A-Z]{16}`b'',
      raw_text ''`beyJ[a-zA-Z0-9_-]{10,}`.[a-zA-Z0-9_-]{10,}`.[a-zA-Z0-9_-]{10,}`b'',
      raw_text ''`b[0-9a-fA-F]{40,}`b'',
      raw_text ''`b[a-zA-Z0-9._%+-]+@[a-zA-Z0-9.-]+`.[a-zA-Z]{2,}`b'',
      raw_text ''`b`d{4}[- ]?`d{4}[- ]?`d{4}[- ]?`d{4}`b'',
      raw_text ''`bsk-[a-zA-Z0-9]{32,}`b'',
      raw_text ''`bsk-ant-[a-zA-Z0-9`-]{20,}`b'',
      raw_text ''`b(ghp|gho|ghu|ghs|ghr)_[a-zA-Z0-9]{36,}`b'',
      raw_text ''`b(sk|pk|rk)_(test|live)_[a-zA-Z0-9]{20,}`b'']"

definition SENSITIVE_JSON_KEYS :: "string list" where
  "SENSITIVE_JSON_KEYS =
     [''api_key'', ''apiKey'', ''api-key'', ''secret'', ''password'', ''passwd'', ''token'',
      ''access_token'', ''refresh_token'', ''private_key'', ''privateKey'', ''secret_key'',
      ''secretKey'', ''authorization'', ''auth_token'', ''session_token'', ''cookie'',
      ''credentials'', ''ssn'', ''credit_card'', ''card_number'', ''passphrase'', ''jwt'']"

definition SENSITIVE_KEY_PARTS :: "string list" where
  "SENSITIVE_KEY_PARTS = [''auth'', ''pwd'']"

definition SECRET_URL_PARAMS :: "string list" where
  "SECRET_URL_PARAMS =
     [''access_token'', ''access-token'', ''refresh_token'', ''id_token'', ''auth_token'', ''token'',
      ''api_key'', ''api-key'', ''apikey'', ''key'', ''client_secret'', ''secret'', ''password'',
      ''passwd'', ''pwd'', ''auth'', ''sig'', ''signature'', ''x-amz-signature'',
      ''x-amz-credential'', ''x-amz-security-token'', ''x-goog-signature'', ''x-goog-credential'']"

definition compile_builtin :: "text_lib \<Rightarrow> string \<Rightarrow> regex option" where
  "compile_builtin lib pattern = (case tx_regex_new lib pattern of Inr re \<Rightarrow> Some re | Inl _ \<Rightarrow> None)"

definition URL_SECRET_PARAM_RE :: "text_lib \<Rightarrow> regex option" where
  "URL_SECRET_PARAM_RE lib =
     (let names = map (tx_escape lib) SECRET_URL_PARAMS
      in compile_builtin lib
           (raw_text ''(?i)([?&#](?:'' @ join ''|'' names @ raw_text '')=)[^&#`s\"!<>``]+''))"

definition TEXT_KEY_VALUE_RE :: "text_lib \<Rightarrow> regex option" where
  "TEXT_KEY_VALUE_RE lib =
     (let words = remdups_adj (sort (map (\<lambda>k. tx_escape lib (tx_lowercase lib k)) SENSITIVE_JSON_KEYS))
      in compile_builtin lib
           (raw_text ''(?i)(\"(?:[^\"```n]{0,64}?(?:'' @ join ''|'' words @
            raw_text '')[^\"```n]{0,64}?|(?:[^\"```n]{0,64}?[_.-])?(?:'' @ join ''|'' SENSITIVE_KEY_PARTS @
            raw_text '')(?:[_.-][^\"```n]{0,64}?)?)\"`s*:`s*)(\"(?:[^\"``]|``.)*(?:\"|`z)|-?`d[`d.eE+-]*)''))"

definition TEXT_KEY_EQ_RE :: "text_lib \<Rightarrow> regex option" where
  "TEXT_KEY_EQ_RE lib =
     (let words = remdups_adj (sort (map (\<lambda>k. tx_escape lib (tx_lowercase lib k)) SENSITIVE_JSON_KEYS @
                                     SENSITIVE_KEY_PARTS))
      in compile_builtin lib
           (raw_text ''(?i)(`b(?:[a-z0-9]{1,32}[_.-]){0,4}(?:'' @ join ''|'' words @
            raw_text '')`s*=`s*)(\"(?:[^\"``]|``.)*(?:\"|`z)|![^!`n]*(?:!|`z)|[^`s,;&})`]\"!`[][^`s,;&})`]\"!]*)''))"

definition redacted_mark :: string where
  "redacted_mark = ''[REDACTED]''"

definition redact_text_key_values :: "text_lib \<Rightarrow> string \<Rightarrow> string" where
  "redact_text_key_values lib text =
     (let colon = (case TEXT_KEY_VALUE_RE lib of
                     Some re \<Rightarrow> rx_replace_all re text (''${1}\"'' @ redacted_mark @ ''\"'')
                   | None \<Rightarrow> text)
      in case TEXT_KEY_EQ_RE lib of
           Some re \<Rightarrow> if rx_is_match re colon then rx_replace_all re colon (''${1}'' @ redacted_mark) else colon
         | None \<Rightarrow> colon)"

section \<open>Redactor\<close>

record redactor =
  rd_builtin_set :: "string \<Rightarrow> bool"
  rd_builtin_compiled :: "regex list"
  rd_custom_set :: "(string \<Rightarrow> bool) option"
  rd_custom_compiled :: "regex list"

text \<open>\<^verbatim>\<open>collect\<close> into a \<^verbatim>\<open>Result\<close>: the first error, or all values.\<close>

fun collect_results :: "('e + 'a) list \<Rightarrow> 'e + 'a list" where
  "collect_results [] = Inr []"
| "collect_results (Inl e # rs) = Inl e"
| "collect_results (Inr x # rs) = (case collect_results rs of Inl e \<Rightarrow> Inl e | Inr xs \<Rightarrow> Inr (x # xs))"

definition redactor_try_new :: "text_lib \<Rightarrow> string list \<Rightarrow> string + redactor" where
  "redactor_try_new lib custom_patterns =
     (case tx_set_new lib BUILTIN_PATTERNS of
        Inl e \<Rightarrow> Inl e
      | Inr builtin_set \<Rightarrow>
          let builtin_compiled = List.map_filter (compile_builtin lib) BUILTIN_PATTERNS
          in if custom_patterns = []
             then Inr \<lparr> rd_builtin_set = builtin_set, rd_builtin_compiled = builtin_compiled,
                        rd_custom_set = None, rd_custom_compiled = [] \<rparr>
             else case tx_set_new lib custom_patterns of
                    Inl e \<Rightarrow> Inl e
                  | Inr rset \<Rightarrow>
                      (case collect_results (map (tx_regex_new lib) custom_patterns) of
                         Inl e \<Rightarrow> Inl e
                       | Inr compiled \<Rightarrow>
                           Inr \<lparr> rd_builtin_set = builtin_set, rd_builtin_compiled = builtin_compiled,
                                 rd_custom_set = Some rset, rd_custom_compiled = compiled \<rparr>))"

definition redactor_new :: "text_lib \<Rightarrow> string list \<Rightarrow> redactor" where
  "redactor_new lib custom_patterns =
     (let (builtin_set, builtin_compiled) =
            (case tx_set_new lib BUILTIN_PATTERNS of
               Inr rset \<Rightarrow> (rset, List.map_filter (compile_builtin lib) BUILTIN_PATTERNS)
             | Inl _ \<Rightarrow> (\<lambda>_. False, []));
          (custom_set, custom_compiled) =
            (if custom_patterns = [] then (None, [])
             else let valid = filter (\<lambda>p. compile_builtin lib p \<noteq> None) custom_patterns
                  in case tx_set_new lib valid of
                       Inr rset \<Rightarrow> (Some rset, List.map_filter (compile_builtin lib) valid)
                     | Inl _ \<Rightarrow> (None, []))
      in \<lparr> rd_builtin_set = builtin_set, rd_builtin_compiled = builtin_compiled,
           rd_custom_set = custom_set, rd_custom_compiled = custom_compiled \<rparr>)"

definition redactor_default :: "text_lib \<Rightarrow> redactor" where
  "redactor_default lib = redactor_new lib []"

definition replace_each :: "regex list \<Rightarrow> string \<Rightarrow> string" where
  "replace_each res input = fold (\<lambda>re output. rx_replace_all re output redacted_mark) res input"

definition redact_regex :: "redactor \<Rightarrow> string \<Rightarrow> string" where
  "redact_regex rd input =
     (let has_builtin = rd_builtin_set rd input;
          has_custom = (case rd_custom_set rd of Some c \<Rightarrow> c input | None \<Rightarrow> False)
      in if \<not> has_builtin \<and> \<not> has_custom then input
         else let output = input;
                  output = (if has_builtin then replace_each (rd_builtin_compiled rd) output else output);
                  output = (if has_custom then replace_each (rd_custom_compiled rd) output else output)
              in output)"

definition redact_text :: "text_lib \<Rightarrow> redactor \<Rightarrow> string \<Rightarrow> string" where
  "redact_text lib rd input =
     (let output = redact_regex rd input;
          output = (case URL_SECRET_PARAM_RE lib of
                      Some re \<Rightarrow> if rx_is_match re output
                                 then rx_replace_all re output (''${1}'' @ redacted_mark) else output
                    | None \<Rightarrow> output)
      in redact_text_key_values lib output)"

section \<open>JSON\<close>

definition MAX_NESTED_JSON_DEPTH :: usize where
  "MAX_NESTED_JSON_DEPTH = 4"

definition is_sensitive_key :: "text_lib \<Rightarrow> string \<Rightarrow> bool" where
  "is_sensitive_key lib key =
     (let lower_key = tx_lowercase lib key
      in list_ex (\<lambda>k. contains_str lower_key (tx_lowercase lib k)) SENSITIVE_JSON_KEYS \<or>
         list_ex (\<lambda>part. part \<in> set SENSITIVE_KEY_PARTS)
           (split_on (\<lambda>c. c \<in> {CHR ''_'', CHR ''-'', CHR ''.''}) lower_key))"

text \<open>The search for a free key, \<^verbatim>\<open>{new_key}#{n}\<close>: the loop that ends at the first unused suffix.\<close>

record object_acc =
  oa_changed :: bool
  oa_map :: "(string \<times> json) list"
  oa_last_suffix :: "string \<rightharpoonup> nat"

definition unique_key :: "object_acc \<Rightarrow> string \<Rightarrow> string \<times> (string \<rightharpoonup> nat)" where
  "unique_key acc new_key =
     (let keys = map fst (oa_map acc)
      in if new_key \<in> set keys
         then let n = (case oa_last_suffix acc new_key of Some n \<Rightarrow> n | None \<Rightarrow> 1);
                  n = next_suffix ''#'' keys new_key n
              in (suffixed ''#'' new_key n, (oa_last_suffix acc)(new_key \<mapsto> n))
         else (new_key, oa_last_suffix acc))"

definition redact_entry :: "redactor \<Rightarrow> (string \<times> json) \<times> json option \<Rightarrow> object_acc \<Rightarrow> object_acc" where
  "redact_entry rd e acc =
     (let ((key, val), new_val) = e;
          new_key = redact_regex rd key;
          (unique, last_suffix) = unique_key acc new_key
      in \<lparr> oa_changed = (oa_changed acc \<or> new_val \<noteq> None \<or> new_key \<noteq> key),
           oa_map = bt_insert unique (case new_val of Some w \<Rightarrow> w | None \<Rightarrow> val) (oa_map acc),
           oa_last_suffix = last_suffix \<rparr>)"

definition object_acc_new :: object_acc where
  "object_acc_new = \<lparr> oa_changed = False, oa_map = [], oa_last_suffix = Map.empty \<rparr>"

definition named_secret :: "text_lib \<Rightarrow> (string \<times> json) list \<Rightarrow> bool" where
  "named_secret lib m =
     list_ex (\<lambda>field. case Option.bind (map_of m field) json_as_str of
                        Some s \<Rightarrow> is_sensitive_key lib s | None \<Rightarrow> False) [''name'', ''key'']"

definition secret_entry :: "text_lib \<Rightarrow> bool \<Rightarrow> string \<Rightarrow> bool" where
  "secret_entry lib named key = (is_sensitive_key lib key \<or> (named \<and> key = ''value''))"

fun json_is_boolean :: "json \<Rightarrow> bool" where
  "json_is_boolean (JBool _) = True"
| "json_is_boolean _ = False"

definition looks_like_json :: "string \<Rightarrow> bool" where
  "looks_like_json text =
     (let trimmed = strip_words white_space text in prefix ''{'' trimmed \<or> prefix ''['' trimmed)"

function (sequential)
  redact_json_value :: "text_lib \<Rightarrow> redactor \<Rightarrow> json \<Rightarrow> usize \<Rightarrow> json option" and
  redact_json_string :: "text_lib \<Rightarrow> redactor \<Rightarrow> string \<Rightarrow> usize \<Rightarrow> json option" where
  "redact_json_value lib rd (JObject m) depth =
     (let named = named_secret lib m;
          new_vals = map (\<lambda>kv. if secret_entry lib named (fst kv) \<and> \<not> json_is_boolean (snd kv)
                               then Some (JString redacted_mark)
                               else redact_json_value lib rd (snd kv) depth) m;
          acc = fold (redact_entry rd) (zip m new_vals) object_acc_new
      in if oa_changed acc then Some (JObject (oa_map acc)) else None)"
| "redact_json_value lib rd (JArray arr) depth =
     (let redacted = map (\<lambda>v. redact_json_value lib rd v depth) arr
      in if list_ex (\<lambda>r. r \<noteq> None) redacted
         then Some (JArray (map (\<lambda>(new, old). case new of Some w \<Rightarrow> w | None \<Rightarrow> old) (zip redacted arr)))
         else None)"
| "redact_json_value lib rd (JString text) depth = redact_json_string lib rd text depth"
| "redact_json_value lib rd (JNumber number) depth =
     (let text = tx_number_text lib number
      in if redact_regex rd text \<noteq> text then Some (JString redacted_mark) else None)"
| "redact_json_value lib rd _ depth = None"
| "redact_json_string lib rd text depth =
     (case (if depth < MAX_NESTED_JSON_DEPTH \<and> looks_like_json text then tx_from_str lib text else None) of
        Some inner \<Rightarrow>
          (case redact_json_value lib rd inner (depth + 1) of
             None \<Rightarrow> None
           | Some redacted \<Rightarrow> map_option JString (tx_to_string lib redacted))
      | None \<Rightarrow>
          (let redacted = redact_text lib rd text
           in if redacted \<noteq> text then Some (JString redacted) else None))"
  by pat_completeness auto
termination
proof (relation "measures
    [\<lambda>x. case x of Inl (_, _, _, d) \<Rightarrow> MAX_NESTED_JSON_DEPTH - d | Inr (_, _, _, d) \<Rightarrow> MAX_NESTED_JSON_DEPTH - d,
     \<lambda>x. case x of Inl (_, _, v, _) \<Rightarrow> Suc (size v) | Inr _ \<Rightarrow> 0]")
qed (auto split: if_splits dest: json_size_array json_size_object)

definition redact :: "text_lib \<Rightarrow> redactor \<Rightarrow> string \<Rightarrow> string" where
  "redact lib rd input =
     (case tx_from_str lib input of
        None \<Rightarrow> redact_text lib rd input
      | Some value \<Rightarrow>
          let output = (case redact_json_value lib rd value 0 of
                          Some redacted \<Rightarrow> (case tx_to_string lib redacted of
                                              Some s \<Rightarrow> s | None \<Rightarrow> redact_text lib rd input)
                        | None \<Rightarrow> input)
          in case rd_custom_set rd of
               Some rset \<Rightarrow> if rset output then replace_each (rd_custom_compiled rd) output else output
             | None \<Rightarrow> output)"

section \<open>Object entries\<close>

definition entry_value :: "(string \<times> json) \<times> json option \<Rightarrow> json" where
  "entry_value e = (case snd e of Some w \<Rightarrow> w | None \<Rightarrow> snd (fst e))"

lemma unique_key_fresh: "fst (unique_key acc k) \<notin> fst ` set (oa_map acc)"
  using next_suffix_fresh [of "''#''" k "map fst (oa_map acc)"] by (simp add: unique_key_def Let_def)

lemma redact_entry_eq:
  "redact_entry rd e acc =
     \<lparr> oa_changed = (oa_changed acc \<or> snd e \<noteq> None \<or> redact_regex rd (fst (fst e)) \<noteq> fst (fst e)),
       oa_map = bt_insert (fst (unique_key acc (redact_regex rd (fst (fst e))))) (entry_value e) (oa_map acc),
       oa_last_suffix = snd (unique_key acc (redact_regex rd (fst (fst e)))) \<rparr>"
  by (simp add: redact_entry_def entry_value_def Let_def case_prod_beta)

lemma redact_entries_changed:
  "oa_changed (fold (redact_entry rd) es acc) \<longleftrightarrow>
     oa_changed acc \<or> (\<exists>e \<in> set es. snd e \<noteq> None \<or> redact_regex rd (fst (fst e)) \<noteq> fst (fst e))"
  by (induction es arbitrary: acc) (auto simp: redact_entry_eq)

lemma redact_entries_map:
  assumes "sorted_wrt (<) (map fst (oa_map acc))"
  shows "sorted_wrt (<) (map fst (oa_map (fold (redact_entry rd) es acc))) \<and>
         mset (map snd (oa_map (fold (redact_entry rd) es acc))) =
           mset (map snd (oa_map acc)) + mset (map entry_value es)"
  using assms
proof (induction es arbitrary: acc)
  case Nil
  then show ?case by simp
next
  case (Cons e es)
  let ?acc = "redact_entry rd e acc"
  have "mset (oa_map ?acc) =
    add_mset (fst (unique_key acc (redact_regex rd (fst (fst e)))), entry_value e) (mset (oa_map acc))"
    by (simp add: redact_entry_eq bt_insert_fresh_mset unique_key_fresh)
  then have "mset (map snd (oa_map ?acc)) = add_mset (entry_value e) (mset (map snd (oa_map acc)))"
    by simp
  moreover have "sorted_wrt (<) (map fst (oa_map ?acc))"
    using Cons.prems by (simp add: redact_entry_eq bt_insert_sorted)
  ultimately show ?case using Cons.IH [of ?acc] by simp
qed

lemma redact_entry_cong:
  "fst (fst e) = fst (fst e') \<Longrightarrow> snd e = snd e' \<Longrightarrow> entry_value e = entry_value e' \<Longrightarrow>
   redact_entry rd e = redact_entry rd e'"
  by (rule ext) (simp add: redact_entry_eq)

lemma redact_entries_cong:
  assumes "list_all2 (\<lambda>e e'. fst (fst e) = fst (fst e') \<and> snd e = snd e' \<and> entry_value e = entry_value e') es es'"
  shows "fold (redact_entry rd) es = fold (redact_entry rd) es'"
  using assms
proof (induction rule: list_all2_induct)
  case (Cons e es e' es')
  then have "redact_entry rd e = redact_entry rd e'" by (intro redact_entry_cong) simp_all
  with Cons.IH show ?case by simp
qed simp

section \<open>Noninterference\<close>

text \<open>
  Two JSON values that differ only where the redactor removes: under a sensitive key, in the \<open>value\<close>
  field of an object whose \<open>name\<close> or \<open>key\<close> is sensitive (booleans apart), or inside JSON carried in
  a string, as deep as it is followed.
\<close>

inductive same_public :: "text_lib \<Rightarrow> usize \<Rightarrow> json \<Rightarrow> json \<Rightarrow> bool" for lib where
  same: "same_public lib d v v"
| array: "list_all2 (same_public lib d) xs ys \<Longrightarrow> same_public lib d (JArray xs) (JArray ys)"
| object: "named_secret lib m = named_secret lib m' \<Longrightarrow>
    list_all2 (\<lambda>p q. fst p = fst q \<and>
      (secret_entry lib (named_secret lib m) (fst p) \<and> \<not> json_is_boolean (snd p) \<and> \<not> json_is_boolean (snd q) \<or>
       same_public lib d (snd p) (snd q))) m m' \<Longrightarrow>
    same_public lib d (JObject m) (JObject m')"
| nested: "d < MAX_NESTED_JSON_DEPTH \<Longrightarrow> looks_like_json s \<Longrightarrow> looks_like_json t \<Longrightarrow>
    tx_from_str lib s = Some a \<Longrightarrow> tx_from_str lib t = Some b \<Longrightarrow> a \<noteq> b \<Longrightarrow>
    same_public lib (d + 1) a b \<Longrightarrow> same_public lib d (JString s) (JString t)"

definition new_value :: "text_lib \<Rightarrow> redactor \<Rightarrow> usize \<Rightarrow> bool \<Rightarrow> string \<times> json \<Rightarrow> json option" where
  "new_value lib rd d named kv =
     (if secret_entry lib named (fst kv) \<and> \<not> json_is_boolean (snd kv) then Some (JString redacted_mark)
      else redact_json_value lib rd (snd kv) d)"

definition object_entries ::
  "text_lib \<Rightarrow> redactor \<Rightarrow> usize \<Rightarrow> (string \<times> json) list \<Rightarrow> ((string \<times> json) \<times> json option) list" where
  "object_entries lib rd d m = map (\<lambda>kv. (kv, new_value lib rd d (named_secret lib m) kv)) m"

lemma redact_object_eq:
  "redact_json_value lib rd (JObject m) d =
     (let acc = fold (redact_entry rd) (object_entries lib rd d m) object_acc_new
      in if oa_changed acc then Some (JObject (oa_map acc)) else None)"
proof -
  have "zip m (map f m) = map (\<lambda>kv. (kv, f kv)) m" for f :: "string \<times> json \<Rightarrow> json option"
    by (induction m) simp_all
  then show ?thesis by (simp add: object_entries_def new_value_def Let_def)
qed

declare redact_json_value.simps(1) [simp del]

lemma redact_object_None:
  "redact_json_value lib rd (JObject m) d = None \<longleftrightarrow>
     (\<forall>kv \<in> set m. new_value lib rd d (named_secret lib m) kv = None \<and> redact_regex rd (fst kv) = fst kv)"
  by (auto simp: redact_object_eq redact_entries_changed Let_def object_acc_new_def object_entries_def)

abbreviation redaction_agrees :: "text_lib \<Rightarrow> redactor \<Rightarrow> usize \<Rightarrow> json \<Rightarrow> json \<Rightarrow> bool" where
  "redaction_agrees lib rd d v w \<equiv>
     redact_json_value lib rd v d = redact_json_value lib rd w d \<and>
     (redact_json_value lib rd v d = None \<longrightarrow> v = w)"

definition redacted_or :: "text_lib \<Rightarrow> redactor \<Rightarrow> usize \<Rightarrow> json \<Rightarrow> json" where
  "redacted_or lib rd d v = (case redact_json_value lib rd v d of Some w \<Rightarrow> w | None \<Rightarrow> v)"

lemma redact_array_eq:
  "redact_json_value lib rd (JArray xs) d =
     (if \<exists>r \<in> set (map (\<lambda>v. redact_json_value lib rd v d) xs). r \<noteq> None
      then Some (JArray (map (redacted_or lib rd d) xs)) else None)"
proof -
  have "map (\<lambda>(new, old). case new of Some w \<Rightarrow> w | None \<Rightarrow> old)
      (zip (map (\<lambda>v. redact_json_value lib rd v d) xs) xs) = map (redacted_or lib rd d) xs"
    by (induction xs) (simp_all add: redacted_or_def)
  then show ?thesis by (simp add: Let_def list_ex_iff)
qed

declare redact_json_value.simps(2) [simp del]

lemma array_agrees:
  assumes "list_all2 (redaction_agrees lib rd d) xs ys"
  shows "redaction_agrees lib rd d (JArray xs) (JArray ys)"
proof -
  let ?f = "\<lambda>v. redact_json_value lib rd v d"
  have f: "map ?f xs = map ?f ys"
    using assms by (induction rule: list_all2_induct) simp_all
  have g: "map (redacted_or lib rd d) xs = map (redacted_or lib rd d) ys"
    using assms
  proof (induction rule: list_all2_induct)
    case (Cons x xs y ys)
    then have "redacted_or lib rd d x = redacted_or lib rd d y"
      by (cases "?f y") (simp_all add: redacted_or_def)
    with Cons.IH show ?case by simp
  qed simp
  have "xs = ys" if "\<forall>x \<in> set xs. ?f x = None"
    using assms that by (induction rule: list_all2_induct) simp_all
  then show ?thesis unfolding redact_array_eq f g by (auto simp flip: f)
qed

lemma entry_value_cong:
  "nv = nv' \<Longrightarrow> (nv' = None \<longrightarrow> p = q) \<Longrightarrow> entry_value (p, nv) = entry_value (q, nv')"
  by (cases nv') (simp_all add: entry_value_def)

lemma boolean_kept: "json_is_boolean v \<Longrightarrow> redact_json_value lib rd v d = None"
  by (cases v) simp_all

lemma object_agrees:
  assumes named: "named_secret lib m = named_secret lib m'"
    and entries: "list_all2 (\<lambda>p q. fst p = fst q \<and>
      (secret_entry lib (named_secret lib m) (fst p) \<and> \<not> json_is_boolean (snd p) \<and> \<not> json_is_boolean (snd q) \<or>
       redaction_agrees lib rd d (snd p) (snd q))) m m'"
  shows "redaction_agrees lib rd d (JObject m) (JObject m')"
proof -
  let ?n = "named_secret lib m"
  have entry: "new_value lib rd d ?n p = new_value lib rd d ?n q \<and> (new_value lib rd d ?n p = None \<longrightarrow> p = q)"
    if "fst p = fst q" "secret_entry lib ?n (fst p) \<and> \<not> json_is_boolean (snd p) \<and> \<not> json_is_boolean (snd q) \<or>
       redaction_agrees lib rd d (snd p) (snd q)" for p q
    using that boolean_kept [of "snd p" lib rd d] boolean_kept [of "snd q" lib rd d]
    by (cases p; cases q) (auto simp: new_value_def)
  have rel: "list_all2 (\<lambda>p q. fst p = fst q \<and> new_value lib rd d ?n p = new_value lib rd d ?n q \<and>
      (new_value lib rd d ?n p = None \<longrightarrow> p = q)) m m'"
    using entries
  proof (rule list_all2_mono)
    fix p q
    assume "fst p = fst q \<and> (secret_entry lib ?n (fst p) \<and> \<not> json_is_boolean (snd p) \<and> \<not> json_is_boolean (snd q) \<or>
       redaction_agrees lib rd d (snd p) (snd q))"
    then show "fst p = fst q \<and> new_value lib rd d ?n p = new_value lib rd d ?n q \<and>
      (new_value lib rd d ?n p = None \<longrightarrow> p = q)"
      using entry [of p q] by (elim conjE) (rule conjI; assumption)
  qed
  then have "list_all2 (\<lambda>e e'. fst (fst e) = fst (fst e') \<and> snd e = snd e' \<and> entry_value e = entry_value e')
      (object_entries lib rd d m) (object_entries lib rd d m')"
    unfolding object_entries_def named [symmetric] list_all2_map1 list_all2_map2
    unfolding fst_conv snd_conv
    by (rule list_all2_mono) (elim conjE, intro conjI, assumption, assumption, rule entry_value_cong, assumption, simp only:)
  then have eq: "redact_json_value lib rd (JObject m) d = redact_json_value lib rd (JObject m') d"
    by (simp add: redact_object_eq redact_entries_cong)
  have "m = m'" if "redact_json_value lib rd (JObject m) d = None"
  proof -
    have none: "new_value lib rd d ?n p = None" if "p \<in> set m" for p
      using \<open>redact_json_value lib rd (JObject m) d = None\<close> that by (simp add: redact_object_None)
    show ?thesis by (rule list_all2_imp_eq [OF rel]) (elim conjE, erule mp, erule none)
  qed
  with eq show ?thesis by simp
qed

lemma nested_agrees:
  assumes print: "\<And>w. tx_to_string lib w \<noteq> None"
    and "d < MAX_NESTED_JSON_DEPTH" "looks_like_json s" "looks_like_json t"
    and "tx_from_str lib s = Some a" "tx_from_str lib t = Some b" "a \<noteq> b"
    and agrees: "redaction_agrees lib rd (d + 1) a b"
  shows "redaction_agrees lib rd d (JString s) (JString t)"
proof -
  obtain r where r: "redact_json_value lib rd a (d + 1) = Some r" "redact_json_value lib rd b (d + 1) = Some r"
    using agrees \<open>a \<noteq> b\<close> by (cases "redact_json_value lib rd a (d + 1)") auto
  obtain x where "tx_to_string lib r = Some x" using print [of r] by blast
  with r assms(2-6) show ?thesis by simp
qed

lemma same_public_agrees:
  assumes "\<And>w. tx_to_string lib w \<noteq> None" "same_public lib d v w"
  shows "redaction_agrees lib rd d v w"
  using assms(2)
proof (induction rule: same_public.induct)
  case (same d v)
  then show ?case by simp
next
  case (array d xs ys)
  then show ?case by (intro array_agrees) (auto elim: list_all2_mono)
next
  case (object m m' d)
  then show ?case by (intro object_agrees) (auto elim: list_all2_mono)
next
  case (nested d s t a b)
  show ?case by (rule nested_agrees [OF assms(1) nested(1-6)]) (use nested.IH in blast)+
qed

lemma redaction_agrees_text:
  assumes "\<And>w. tx_to_string lib w \<noteq> None"
    and "tx_from_str lib a = Some v" "tx_from_str lib b = Some w"
    and "same_public lib 0 v w" "v \<noteq> w"
  shows "redact lib rd a = redact lib rd b"
proof -
  have "redaction_agrees lib rd 0 v w" by (rule same_public_agrees [OF assms(1,4)])
  then obtain r where r: "redact_json_value lib rd v 0 = Some r" "redact_json_value lib rd w 0 = Some r"
    using assms(5) by (metis option.exhaust)
  obtain x where "tx_to_string lib r = Some x" using assms(1) [of r] by blast
  with r show ?thesis by (simp add: redact_def assms(2,3))
qed

section \<open>What redaction keeps\<close>

lemma object_entry_values:
  "map entry_value (object_entries lib rd d m) =
     map (\<lambda>kv. if secret_entry lib (named_secret lib m) (fst kv) \<and> \<not> json_is_boolean (snd kv)
                then JString redacted_mark else redacted_or lib rd d (snd kv)) m"
  by (auto simp: object_entries_def entry_value_def new_value_def redacted_or_def split: option.split)

lemma redacted_object:
  assumes "redact_json_value lib rd (JObject m) d = Some w"
  shows "\<exists>m'. w = JObject m' \<and> sorted_wrt (<) (map fst m') \<and>
    mset (map snd m') = mset (map entry_value (object_entries lib rd d m))"
proof -
  let ?acc = "fold (redact_entry rd) (object_entries lib rd d m) object_acc_new"
  have "w = JObject (oa_map ?acc)"
    using assms by (simp add: redact_object_eq Let_def split: if_splits)
  moreover have "sorted_wrt (<) (map fst (oa_map object_acc_new))"
    by (simp add: object_acc_new_def)
  note redact_entries_map [OF this, of rd "object_entries lib rd d m"]
  ultimately show ?thesis by (simp add: object_acc_new_def)
qed

lemma unredacted_object:
  assumes "redact_json_value lib rd (JObject m) d = None"
  shows "map entry_value (object_entries lib rd d m) = map snd m"
  using assms by (auto simp: redact_object_None object_entries_def entry_value_def)

lemma redacted_value_wf:
  "wf_json v \<Longrightarrow> redact_json_value lib rd v d = Some w \<Longrightarrow> wf_json w"
  and redacted_string_wf:
  "redact_json_string lib rd t d = Some w \<Longrightarrow> wf_json w"
proof (induction lib rd v d and lib rd t d arbitrary: w and w
    rule: redact_json_value_redact_json_string.induct)
  case (1 lib rd m depth)
  obtain m' where w: "w = JObject m'" "sorted_wrt (<) (map fst m')"
    "mset (map snd m') = mset (map entry_value (object_entries lib rd depth m))"
    using redacted_object [OF "1.prems"(2)] by blast
  have "wf_json (redacted_or lib rd depth (snd kv))"
    if "kv \<in> set m" "\<not> (secret_entry lib (named_secret lib m) (fst kv) \<and> \<not> json_is_boolean (snd kv))" for kv
    using "1.IH" [OF refl that] "1.prems"(1) that(1)
    by (cases "redact_json_value lib rd (snd kv) depth") (auto simp: redacted_or_def)
  then have "\<forall>x \<in> set (map entry_value (object_entries lib rd depth m)). wf_json x"
    unfolding object_entry_values by (auto simp del: de_Morgan_conj)
  then have "\<forall>x \<in> set (map snd m'). wf_json x"
    using w(3) by (metis set_mset_mset)
  then show ?case using w(1,2) by auto
next
  case (2 lib rd arr depth)
  have "wf_json (redacted_or lib rd depth x)" if "x \<in> set arr" for x
    using "2.IH" [OF that] "2.prems"(1) that
    by (cases "redact_json_value lib rd x depth") (auto simp: redacted_or_def)
  then show ?case using "2.prems"(2) by (auto simp: redact_array_eq split: if_splits)
next
  case (6 lib rd t depth)
  then show ?case by (auto split: option.splits if_splits simp: Let_def)
qed (auto simp: Let_def split: if_splits)

text \<open>A value in which there is nothing to redact.\<close>

inductive quiet :: "text_lib \<Rightarrow> redactor \<Rightarrow> usize \<Rightarrow> json \<Rightarrow> bool" for lib rd where
  q_null: "quiet lib rd d JNull"
| q_bool: "quiet lib rd d (JBool b)"
| q_number: "redact_regex rd (tx_number_text lib n) = tx_number_text lib n \<Longrightarrow> quiet lib rd d (JNumber n)"
| q_text: "\<not> (d < MAX_NESTED_JSON_DEPTH \<and> looks_like_json s \<and> tx_from_str lib s \<noteq> None) \<Longrightarrow>
    redact_text lib rd s = s \<Longrightarrow> quiet lib rd d (JString s)"
| q_nested: "d < MAX_NESTED_JSON_DEPTH \<Longrightarrow> looks_like_json s \<Longrightarrow> tx_from_str lib s = Some v \<Longrightarrow>
    quiet lib rd (d + 1) v \<Longrightarrow> quiet lib rd d (JString s)"
| q_array: "\<forall>v \<in> set xs. quiet lib rd d v \<Longrightarrow> quiet lib rd d (JArray xs)"
| q_object: "\<forall>kv \<in> set m. \<not> (secret_entry lib (named_secret lib m) (fst kv) \<and> \<not> json_is_boolean (snd kv)) \<and>
      redact_regex rd (fst kv) = fst kv \<and> quiet lib rd d (snd kv) \<Longrightarrow> quiet lib rd d (JObject m)"

lemma quiet_unchanged: "quiet lib rd d v \<Longrightarrow> redact_json_value lib rd v d = None"
proof (induction rule: quiet.induct)
  case (q_object m d)
  then show ?case by (auto simp: redact_object_None new_value_def)
qed (auto simp: redact_array_eq Let_def split: option.splits)

section \<open>Theorems\<close>

text \<open>
  (C8) The redacted output does not depend on secrets: if two outputs are JSON and differ only in values
  under sensitive keys (or in \<^verbatim>\<open>value\<close> next to a sensitive \<^verbatim>\<open>name\<close> or \<^verbatim>\<open>key\<close>, or inside JSON text
  carried in strings up to the depth that is followed), the redactor maps them to the same text,
  whatever its built-in and custom patterns do.  Printing a JSON value is assumed to succeed.
\<close>

theorem redaction_noninterference:
  assumes "\<And>w. tx_to_string lib w \<noteq> None"
    and "tx_from_str lib a = Some v" "tx_from_str lib b = Some w"
    and "same_public lib 0 v w" "v \<noteq> w"
  shows "redact lib rd a = redact lib rd b"
  using assms by (rule redaction_agrees_text)


definition demo_lib :: text_lib where
  "demo_lib = \<lparr> tx_regex_new = (\<lambda>_. Inl ''unsupported''), tx_set_new = (\<lambda>_. Inr (\<lambda>_. False)),
     tx_escape = (\<lambda>s. s), tx_lowercase = map to_ascii_lower,
     tx_from_str = (\<lambda>s. if s = ''[{a'' then Some (JArray [JObject [(''Token'', JString ''x''), (''id'', JBool True)]])
                        else if s = ''[{b'' then Some (JArray [JObject [(''Token'', JString ''yy''), (''id'', JBool True)]])
                        else None),
     tx_to_string = (\<lambda>v. case v of JArray xs \<Rightarrow> Some (''array of '' @ decimal (length xs)) | _ \<Rightarrow> Some ''other''),
     tx_number_text = (\<lambda>_. ''0'') \<rparr>"

lemma demo_texts_same_public:
  "\<exists>v w. tx_from_str demo_lib ''[{a'' = Some v \<and> tx_from_str demo_lib ''[{b'' = Some w \<and>
     same_public demo_lib 0 v w \<and> v \<noteq> w"
proof (intro exI conjI)
  have key: "secret_entry demo_lib n ''Token''" for n
    by (simp add: secret_entry_def) code_simp
  let ?m = "\<lambda>x. [(''Token'', JString x), (''id'', JBool True)]"
  have "same_public demo_lib 0 (JObject (?m ''x'')) (JObject (?m ''yy''))"
    by (rule same_public.object) (simp_all add: key named_secret_def same_public.same)
  then show "same_public demo_lib 0 (JArray [JObject (?m ''x'')]) (JArray [JObject (?m ''yy'')])"
    by (intro same_public.array) simp
qed (auto simp: demo_lib_def)

theorem redaction_noninterference_witness:
  "redact demo_lib (redactor_default demo_lib) ''[{a'' = redact demo_lib (redactor_default demo_lib) ''[{b''"
proof -
  have "tx_to_string demo_lib w \<noteq> None" for w by (simp add: demo_lib_def split: json.split)
  then show ?thesis using redaction_noninterference demo_texts_same_public by blast
qed

text \<open>
  Redaction neither invents nor loses data: a redacted object keeps every entry, also when several
  keys are redacted to the same text; its values are exactly the old ones, each redacted or replaced
  by the mark when its key is sensitive (booleans kept), and its keys stay distinct and sorted.
\<close>

theorem redaction_keeps_entries:
  assumes "sorted_wrt (<) (map fst m)"
  shows "\<exists>m'. redacted_or lib rd d (JObject m) = JObject m' \<and> sorted_wrt (<) (map fst m') \<and>
    mset (map snd m') =
      mset (map (\<lambda>kv. if secret_entry lib (named_secret lib m) (fst kv) \<and> \<not> json_is_boolean (snd kv)
                       then JString redacted_mark else redacted_or lib rd d (snd kv)) m)"
proof (cases "redact_json_value lib rd (JObject m) d")
  case None
  then show ?thesis
    unfolding object_entry_values [symmetric] unredacted_object [OF None]
    using assms by (simp add: redacted_or_def)
next
  case (Some w)
  then show ?thesis
    unfolding object_entry_values [symmetric] using redacted_object [OF Some]
    by (auto simp: redacted_or_def)
qed

theorem redaction_keeps_entries_witness:
  "\<exists>m'. redacted_or demo_lib (redactor_default demo_lib) 0 (JObject [(''Token'', JString ''x''), (''id'', JBool True)]) =
      JObject m' \<and> sorted_wrt (<) (map fst m') \<and> mset (map snd m') = {#JString redacted_mark, JBool True#}"
proof -
  let ?m = "[(''Token'', JString ''x''), (''id'', JBool True)]"
  have key: "secret_entry demo_lib n ''Token''" for n
    by (simp add: secret_entry_def) code_simp
  have "sorted_wrt (<) (map fst ?m)" by code_simp
  from redaction_keeps_entries [OF this, of demo_lib "redactor_default demo_lib" 0] key show ?thesis
    by (simp add: redacted_or_def)
qed



lemma collect_results_Inr: "collect_results rs = Inr xs \<Longrightarrow> rs = map Inr xs"
  by (induction rs arbitrary: xs rule: collect_results.induct) (auto split: sum.splits)

lemma collect_results_Inl: "collect_results rs = Inl e \<Longrightarrow> Inl e \<in> set rs"
  by (induction rs rule: collect_results.induct) (auto split: sum.splits)

lemma compile_all:
  "map (tx_regex_new lib) ps = map Inr xs \<Longrightarrow>
   filter (\<lambda>p. compile_builtin lib p \<noteq> None) ps = ps \<and> List.map_filter (compile_builtin lib) ps = xs"
  by (induction ps arbitrary: xs) (auto simp: compile_builtin_def map_filter_simps)

lemma compile_valid:
  "List.map_filter (compile_builtin lib) (filter (\<lambda>p. compile_builtin lib p \<noteq> None) ps) =
   List.map_filter (compile_builtin lib) ps"
  by (induction ps) (auto simp: map_filter_simps split: option.splits)

lemma try_new_agrees:
  assumes "redactor_try_new lib ps = Inr rd"
  shows "redactor_new lib ps = rd"
proof (cases "ps = []")
  case True
  then show ?thesis using assms
    by (auto simp: redactor_try_new_def redactor_new_def Let_def split: sum.splits)
next
  case False
  then obtain bs cs xs where *: "tx_set_new lib BUILTIN_PATTERNS = Inr bs" "tx_set_new lib ps = Inr cs"
    "collect_results (map (tx_regex_new lib) ps) = Inr xs"
    and rd: "rd = \<lparr> rd_builtin_set = bs, rd_builtin_compiled = List.map_filter (compile_builtin lib) BUILTIN_PATTERNS,
       rd_custom_set = Some cs, rd_custom_compiled = xs \<rparr>"
    using assms by (auto simp: redactor_try_new_def Let_def split: sum.splits)
  note compile_all [OF collect_results_Inr [OF *(3)]]
  then show ?thesis using False * rd by (simp add: redactor_new_def Let_def)
qed

lemma try_new_fails:
  assumes sets: "\<And>ps. (\<forall>p \<in> set ps. \<exists>re. tx_regex_new lib p = Inr re) \<Longrightarrow> \<exists>s. tx_set_new lib ps = Inr s"
    and builtin: "\<forall>p \<in> set BUILTIN_PATTERNS. \<exists>re. tx_regex_new lib p = Inr re"
    and err: "redactor_try_new lib ps = Inl e"
  shows "\<exists>p \<in> set ps. \<exists>e. tx_regex_new lib p = Inl e"
proof (rule ccontr)
  assume "\<not> ?thesis"
  then have all: "\<forall>p \<in> set ps. \<exists>re. tx_regex_new lib p = Inr re"
    by (metis sumE)
  obtain bs where bs: "tx_set_new lib BUILTIN_PATTERNS = Inr bs" using sets [OF builtin] by blast
  obtain cs where cs: "tx_set_new lib ps = Inr cs" using sets [OF all] by blast
  have "\<exists>xs. collect_results (map (tx_regex_new lib) ps) = Inr xs"
  proof (rule ccontr)
    assume "\<not> ?thesis"
    then obtain e' where "Inl e' \<in> set (map (tx_regex_new lib) ps)"
      using collect_results_Inl by (metis sumE)
    then show False using all by fastforce
  qed
  then show False using err bs cs by (auto simp: redactor_try_new_def Let_def split: if_splits)
qed


text \<open>A library that compiles every pattern but the empty one.\<close>

definition demo_regex_lib :: text_lib where
  "demo_regex_lib = demo_lib\<lparr>
     tx_regex_new := (\<lambda>p. if p = [] then Inl ''empty''
                          else Inr \<lparr> rx_is_match = (\<lambda>t. contains_str t p),
                                     rx_replace_all = (\<lambda>t r. if contains_str t p then r else t) \<rparr>),
     tx_set_new := (\<lambda>ps. if [] \<in> set ps then Inl ''empty''
                         else Inr (\<lambda>t. list_ex (contains_str t) ps)) \<rparr>"


end
