(* ===== verification/Introspection.thy ===== *)
theory Introspection
  imports Json Collections
begin

text \<open>
  The stores of \<^verbatim>\<open>crates/victauri-plugin/src/introspection.rs\<close>: fault rules, contract baselines and the
  comparison of response shapes, page loads, recording watermarks, tracked tasks and state probes.
  Each is behind one lock, so an operation is a function on its state; the clock reading
  (\<^verbatim>\<open>Instant::now\<close>, in nanoseconds) is an argument.  The baselines and the page loads implement
  \<open>recency_store\<close>, the watermarks \<open>generation_owner\<close>.  Sequence counters are \<^verbatim>\<open>u64\<close> and would take
  \<open>2 ^ 64\<close> operations to overflow; they are natural numbers here.
\<close>

section \<open>Fault injection\<close>

datatype fault_type = Delay u64 | Error string | Drop | Corrupt

record fault_config =
  fc_command :: string
  fc_fault_type :: fault_type
  fc_trigger_count :: u64
  fc_max_triggers :: u64
  fc_created_at :: nat

definition FAULT_TTL :: nat where
  "FAULT_TTL = 900 * 10 ^ 9"

definition MAX_FAULT_RULES :: usize where
  "MAX_FAULT_RULES = 256"

definition fault_config_new :: "nat \<Rightarrow> string \<Rightarrow> fault_type \<Rightarrow> u64 \<Rightarrow> fault_config" where
  "fault_config_new now command fault max_triggers =
     \<lparr> fc_command = command, fc_fault_type = fault, fc_trigger_count = 0,
       fc_max_triggers = max_triggers, fc_created_at = now \<rparr>"

definition should_trigger_at :: "fault_config \<Rightarrow> nat \<Rightarrow> bool" where
  "should_trigger_at c now =
     (if sat_sub now (fc_created_at c) \<ge> FAULT_TTL then False
      else fc_max_triggers c = 0 \<or> fc_trigger_count c < fc_max_triggers c)"

record fault_rules =
  fr_next_seq :: u64
  fr_map :: "(string \<times> (u64 \<times> fault_config)) list"

definition fault_registry_new :: fault_rules where
  "fault_registry_new = \<lparr> fr_next_seq = 0, fr_map = [] \<rparr>"

definition evict_expired :: "nat \<Rightarrow> fault_rules \<Rightarrow> fault_rules" where
  "evict_expired now r =
     r\<lparr>fr_map := filter (\<lambda>e. sat_sub now (fc_created_at (snd (snd e))) < FAULT_TTL) (fr_map r)\<rparr>"

definition inject :: "nat \<Rightarrow> fault_config \<Rightarrow> fault_rules \<Rightarrow> fault_rules" where
  "inject now config r =
     (let r = evict_expired now r;
          r = (if fc_command config \<notin> fst ` set (fr_map r) \<and> length (fr_map r) \<ge> MAX_FAULT_RULES
               then (case min_by_key (\<lambda>e. fst (snd e)) (fr_map r) of
                       Some oldest \<Rightarrow> r\<lparr>fr_map := hm_remove (fst oldest) (fr_map r)\<rparr>
                     | None \<Rightarrow> r)
               else r);
          seq = fr_next_seq r
      in r\<lparr>fr_next_seq := seq + 1, fr_map := hm_insert (fc_command config) (seq, config) (fr_map r)\<rparr>)"

definition check_and_trigger :: "nat \<Rightarrow> string \<Rightarrow> fault_rules \<Rightarrow> fault_type option \<times> fault_rules" where
  "check_and_trigger now command r =
     (case map_of (fr_map r) command of
        Some (_, config) \<Rightarrow>
          if should_trigger_at config now
          then (Some (fc_fault_type config),
                r\<lparr>fr_map := hm_alter command
                     (\<lambda>(seq, c). (seq, c\<lparr>fc_trigger_count := fc_trigger_count c + 1\<rparr>)) (fr_map r)\<rparr>)
          else (None, r)
      | None \<Rightarrow> (None, r))"

definition fault_list :: "nat \<Rightarrow> fault_rules \<Rightarrow> fault_config list \<times> fault_rules" where
  "fault_list now r =
     (let r = evict_expired now r in (map (\<lambda>e. snd (snd e)) (fr_map r), r))"

definition fault_clear :: "string \<Rightarrow> fault_rules \<Rightarrow> bool \<times> fault_rules" where
  "fault_clear command r =
     (map_of (fr_map r) command \<noteq> None, r\<lparr>fr_map := hm_remove command (fr_map r)\<rparr>)"

definition fault_clear_all :: "fault_rules \<Rightarrow> usize \<times> fault_rules" where
  "fault_clear_all r = (length (fr_map r), r\<lparr>fr_map := []\<rparr>)"

text \<open>Any client at any time: an operation with the clock reading it makes, and what it returns.\<close>

datatype fault_op = Inject fault_config | Check string | ListFaults | ClearFault string | ClearAllFaults

fun fault_step :: "nat \<times> fault_op \<Rightarrow> fault_rules \<Rightarrow> fault_type option \<times> fault_rules" where
  "fault_step (now, Inject c) r = (None, inject now c r)"
| "fault_step (now, Check k) r = check_and_trigger now k r"
| "fault_step (now, ListFaults) r = (None, snd (fault_list now r))"
| "fault_step (now, ClearFault k) r = (None, snd (fault_clear k r))"
| "fault_step (now, ClearAllFaults) r = (None, snd (fault_clear_all r))"

definition fault_inv :: "fault_rules \<Rightarrow> bool" where
  "fault_inv r \<longleftrightarrow> distinct (map fst (fr_map r)) \<and> length (fr_map r) \<le> MAX_FAULT_RULES"

fun fault_reached :: "(nat \<times> fault_op) list \<Rightarrow> fault_rules \<Rightarrow> fault_rules" where
  "fault_reached [] r = r"
| "fault_reached (e # es) r = fault_reached es (snd (fault_step e r))"

text \<open>The clock readings at which \<open>k\<close> was triggered.\<close>

fun trigger_times :: "string \<Rightarrow> (nat \<times> fault_op) list \<Rightarrow> fault_rules \<Rightarrow> nat list" where
  "trigger_times k [] r = []"
| "trigger_times k (e # es) r =
     (if snd e = Check k \<and> fst (fault_step e r) \<noteq> None then [fst e] else []) @
     trigger_times k es (snd (fault_step e r))"

section \<open>Contracts\<close>

datatype json_shape = ShNull | ShBool | ShNumber | ShString | ShArray json_shape
  | ShObject "(string \<times> json_shape) list"

fun shape_from_value :: "json \<Rightarrow> json_shape" where
  "shape_from_value JNull = ShNull"
| "shape_from_value (JBool _) = ShBool"
| "shape_from_value (JNumber _) = ShNumber"
| "shape_from_value (JString _) = ShString"
| "shape_from_value (JArray arr) =
     ShArray (case map shape_from_value arr of [] \<Rightarrow> ShNull | s # _ \<Rightarrow> s)"
| "shape_from_value (JObject obj) = ShObject (map (\<lambda>kv. (fst kv, shape_from_value (snd kv))) obj)"

fun type_name :: "json_shape \<Rightarrow> string" where
  "type_name ShNull = ''null''"
| "type_name ShBool = ''bool''"
| "type_name ShNumber = ''number''"
| "type_name ShString = ''string''"
| "type_name (ShArray _) = ''array''"
| "type_name (ShObject _) = ''object''"

record contract_baseline =
  bl_command :: string
  bl_args :: json
  bl_shape :: json_shape
  bl_sample :: string
  bl_recorded_at :: string

definition contract_baseline_new ::
  "string \<Rightarrow> json \<Rightarrow> json_shape \<Rightarrow> string \<Rightarrow> string \<Rightarrow> contract_baseline" where
  "contract_baseline_new command args shape sample recorded_at =
     \<lparr> bl_command = command, bl_args = args, bl_shape = shape, bl_sample = sample,
       bl_recorded_at = recorded_at \<rparr>"

record type_change =
  tc_path :: string
  tc_baseline_type :: string
  tc_current_type :: string

record contract_drift =
  cd_command :: string
  cd_new_fields :: "string list"
  cd_removed_fields :: "string list"
  cd_type_changes :: "type_change list"
  cd_shape_matches :: bool

definition field_path :: "string \<Rightarrow> string \<Rightarrow> string" where
  "field_path pre key = (if pre = [] then key else pre @ ''.'' @ key)"

text \<open>The three lists the recursion appends to: new fields, removed fields, type changes.\<close>

type_synonym drift_lists = "string list \<times> string list \<times> type_change list"

definition drift_append :: "drift_lists \<Rightarrow> drift_lists \<Rightarrow> drift_lists" where
  "drift_append a b = (fst a @ fst b, fst (snd a) @ fst (snd b), snd (snd a) @ snd (snd b))"

definition drift_concat :: "drift_lists list \<Rightarrow> drift_lists" where
  "drift_concat ds = foldr drift_append ds ([], [], [])"

function (sequential) diff_shapes_inner :: "json_shape \<Rightarrow> json_shape \<Rightarrow> string \<Rightarrow> drift_lists" where
  "diff_shapes_inner (ShObject b_fields) (ShObject c_fields) pre =
     drift_append
       (drift_concat (map (\<lambda>kb. case map_of c_fields (fst kb) of
            Some c_shape \<Rightarrow> diff_shapes_inner (snd kb) c_shape (field_path pre (fst kb))
          | None \<Rightarrow> ([], [field_path pre (fst kb)], [])) b_fields))
       (map (\<lambda>kc. field_path pre (fst kc)) (filter (\<lambda>kc. fst kc \<notin> fst ` set b_fields) c_fields), [], [])"
| "diff_shapes_inner (ShArray b_elem) (ShArray c_elem) pre = diff_shapes_inner b_elem c_elem (pre @ ''[]'')"
| "diff_shapes_inner b c pre =
     (if type_name b \<noteq> type_name c
      then ([], [], [\<lparr> tc_path = pre, tc_baseline_type = type_name b, tc_current_type = type_name c \<rparr>])
      else ([], [], []))"
  by pat_completeness auto
termination
proof (relation "measure (\<lambda>(b, _, _). size b)")
  fix b_fields :: "(string \<times> json_shape) list" and c_fields :: "(string \<times> json_shape) list" and pre c_shape
    and kb :: "string \<times> json_shape"
  assume "kb \<in> set b_fields"
  then have "size (snd kb) < size (ShObject b_fields)"
    by (induction b_fields) (auto simp: less_Suc_eq)
  then show "((snd kb, c_shape, field_path pre (fst kb)), ShObject b_fields, ShObject c_fields, pre)
    \<in> measure (\<lambda>(b, _, _). size b)" by simp
qed simp_all

definition diff_shapes :: "json_shape \<Rightarrow> json_shape \<Rightarrow> string \<Rightarrow> contract_drift" where
  "diff_shapes baseline current pre =
     (let (new_fields, removed_fields, type_changes) = diff_shapes_inner baseline current pre
      in \<lparr> cd_command = pre, cd_new_fields = new_fields, cd_removed_fields = removed_fields,
           cd_type_changes = type_changes,
           cd_shape_matches = (new_fields = [] \<and> removed_fields = [] \<and> type_changes = []) \<rparr>)"

definition MAX_CONTRACT_BASELINES :: usize where
  "MAX_CONTRACT_BASELINES = 1024"

record contract_baselines =
  cb_next_seq :: u64
  cb_map :: "(string \<times> (u64 \<times> contract_baseline)) list"

definition contract_store_new :: contract_baselines where
  "contract_store_new = \<lparr> cb_next_seq = 0, cb_map = [] \<rparr>"

definition contract_record :: "contract_baseline \<Rightarrow> contract_baselines \<Rightarrow> string option \<times> contract_baselines" where
  "contract_record baseline st =
     (let (evicted, st) =
            (if bl_command baseline \<notin> fst ` set (cb_map st) \<and> length (cb_map st) \<ge> MAX_CONTRACT_BASELINES
             then (case min_by_key (\<lambda>e. fst (snd e)) (cb_map st) of
                     Some oldest \<Rightarrow> (Some (fst oldest), st\<lparr>cb_map := hm_remove (fst oldest) (cb_map st)\<rparr>)
                   | None \<Rightarrow> (None, st))
             else (None, st));
          seq = cb_next_seq st
      in (evicted, st\<lparr>cb_next_seq := seq + 1,
                      cb_map := hm_insert (bl_command baseline) (seq, baseline) (cb_map st)\<rparr>))"

definition contract_get :: "contract_baselines \<Rightarrow> string \<Rightarrow> contract_baseline option" where
  "contract_get st command = map_option snd (map_of (cb_map st) command)"

definition contract_all :: "contract_baselines \<Rightarrow> contract_baseline list" where
  "contract_all st = map (\<lambda>e. snd (snd e)) (cb_map st)"

definition contract_clear :: "contract_baselines \<Rightarrow> usize \<times> contract_baselines" where
  "contract_clear st = (length (cb_map st), st\<lparr>cb_map := []\<rparr>)"

section \<open>State probes\<close>

text \<open>The closure of a probe is application code.\<close>

type_synonym probes = "(string \<times> (unit \<Rightarrow> json)) list"

definition probe_register :: "string \<Rightarrow> (unit \<Rightarrow> json) \<Rightarrow> probes \<Rightarrow> probes" where
  "probe_register name probe ps = bt_insert name probe ps"

definition probe_names :: "probes \<Rightarrow> string list" where
  "probe_names ps = map fst ps"

definition probe_get :: "probes \<Rightarrow> string \<Rightarrow> (unit \<Rightarrow> json) option" where
  "probe_get ps name = map_of ps name"

definition probe_run :: "probes \<Rightarrow> string \<Rightarrow> json option" where
  "probe_run ps name = map_option (\<lambda>p. p ()) (probe_get ps name)"

definition probe_len :: "probes \<Rightarrow> usize" where
  "probe_len ps = length ps"

definition probe_is_empty :: "probes \<Rightarrow> bool" where
  "probe_is_empty ps = (probe_len ps = 0)"

section \<open>Tracked tasks\<close>

record tracked_task_entry =
  te_name :: string
  te_spawned_at :: nat
  te_spawned_at_wall :: string
  te_finished :: bool

record tracked_task_info =
  ti_name :: string
  ti_spawned_at :: string
  ti_is_finished :: bool
  ti_uptime_secs :: u64

text \<open>The flag handed out is the position of the entry whose flag it shares.\<close>

definition track :: "nat \<Rightarrow> string \<Rightarrow> string \<Rightarrow> tracked_task_entry list \<Rightarrow> nat \<times> tracked_task_entry list" where
  "track now wall name ts =
     (length ts, ts @ [\<lparr> te_name = name, te_spawned_at = now, te_spawned_at_wall = wall, te_finished = False \<rparr>])"

definition guard_drop :: "nat \<Rightarrow> tracked_task_entry list \<Rightarrow> tracked_task_entry list" where
  "guard_drop i ts = (if i < length ts then ts[i := (ts ! i)\<lparr>te_finished := True\<rparr>] else ts)"

definition task_list :: "nat \<Rightarrow> tracked_task_entry list \<Rightarrow> tracked_task_info list" where
  "task_list now ts =
     map (\<lambda>t. \<lparr> ti_name = te_name t, ti_spawned_at = te_spawned_at_wall t,
                ti_is_finished = te_finished t, ti_uptime_secs = sat_sub now (te_spawned_at t) div 10 ^ 9 \<rparr>) ts"

definition active_count :: "tracked_task_entry list \<Rightarrow> usize" where
  "active_count ts = length (filter (\<lambda>t. \<not> te_finished t) ts)"

section \<open>Page loads\<close>

record page_load =
  pl_seq :: u64
  pl_nonce :: "string option"

record page_loads =
  pls_last_load :: "(string \<times> page_load) list"
  pls_seq :: u64

definition MAX_PAGE_NONCE_LEN :: usize where
  "MAX_PAGE_NONCE_LEN = 128"

definition MAX_PAGE_LOAD_WINDOWS :: usize where
  "MAX_PAGE_LOAD_WINDOWS = 256"

definition page_loads_new :: page_loads where
  "page_loads_new = \<lparr> pls_last_load = [], pls_seq = 0 \<rparr>"

definition record_load :: "string \<Rightarrow> string option \<Rightarrow> page_loads \<Rightarrow> page_loads" where
  "record_load label nonce p =
     (let nonce = map_option (chars_take MAX_PAGE_NONCE_LEN) nonce;
          loads = pls_last_load p;
          seq = pls_seq p + 1;
          loads = (if label \<notin> fst ` set loads \<and> length loads \<ge> MAX_PAGE_LOAD_WINDOWS
                   then (case min_by_key (\<lambda>e. pl_seq (snd e)) loads of
                           Some oldest \<Rightarrow> hm_remove (fst oldest) loads
                         | None \<Rightarrow> loads)
                   else loads)
      in \<lparr> pls_last_load = hm_insert label \<lparr> pl_seq = seq, pl_nonce = nonce \<rparr> loads, pls_seq = seq \<rparr>)"

definition latest :: "page_loads \<Rightarrow> string \<Rightarrow> page_load option" where
  "latest p label = map_of (pls_last_load p) label"

definition current_seq :: "page_loads \<Rightarrow> u64" where
  "current_seq p = pls_seq p"

section \<open>Drain watermarks\<close>

record drain_mark =
  dm_instance :: string
  dm_seq :: u64

record watermark_state =
  ws_floor_ms :: f64
  ws_epoch :: u64
  ws_per_label :: "(string \<times> drain_mark) list"
  ws_locks :: "string list"

record drain_cursor =
  dc_epoch :: u64
  dc_floor_ms :: f64
  dc_mark :: "drain_mark option"

definition cursor :: "watermark_state \<Rightarrow> string \<Rightarrow> drain_cursor" where
  "cursor s label = \<lparr> dc_epoch = ws_epoch s, dc_floor_ms = ws_floor_ms s, dc_mark = map_of (ws_per_label s) label \<rparr>"

definition advance :: "string \<Rightarrow> u64 \<Rightarrow> drain_mark \<Rightarrow> watermark_state \<Rightarrow> bool \<times> watermark_state" where
  "advance label epoch mark s =
     (if ws_epoch s \<noteq> epoch then (False, s)
      else (True, s\<lparr>ws_per_label := hm_insert label mark (ws_per_label s)\<rparr>))"

definition reset :: "f64 \<Rightarrow> u64 \<Rightarrow> watermark_state \<Rightarrow> watermark_state" where
  "reset floor_ms epoch s =
     (if epoch \<le> ws_epoch s then s
      else s\<lparr>ws_floor_ms := floor_ms, ws_epoch := epoch, ws_per_label := []\<rparr>)"

definition retain :: "string list \<Rightarrow> watermark_state \<Rightarrow> watermark_state" where
  "retain labels s =
     s\<lparr>ws_per_label := filter (\<lambda>e. fst e \<in> set labels) (ws_per_label s),
       ws_locks := filter (\<lambda>l. l \<in> set labels) (ws_locks s)\<rparr>"

text \<open>The lock of a window, created on first use; a lock is known by its window's label.\<close>

definition lock_for :: "string \<Rightarrow> watermark_state \<Rightarrow> string \<times> watermark_state" where
  "lock_for label s =
     (label, if label \<in> set (ws_locks s) then s else s\<lparr>ws_locks := ws_locks s @ [label]\<rparr>)"

inductive wm_step :: "watermark_state \<Rightarrow> watermark_state \<Rightarrow> bool" where
  "wm_step s (snd (advance label epoch mark s))"
| "wm_step s (reset floor_ms epoch s)"
| "wm_step s (retain labels s)"
| "wm_step s (snd (lock_for label s))"

section \<open>Capped stores\<close>

text \<open>
  A map of stamped entries in the order of their stamps: dropping the entry with the least stamp
  drops the first.
\<close>

definition stamped :: "('v \<Rightarrow> nat) \<Rightarrow> nat \<Rightarrow> (string \<times> 'v) list \<Rightarrow> bool" where
  "stamped stamp b m \<longleftrightarrow>
     distinct (map fst m) \<and> sorted_wrt (\<lambda>x y. stamp (snd x) < stamp (snd y)) m \<and> (\<forall>e \<in> set m. stamp (snd e) < b)"

lemma stamped_oldest:
  "stamped stamp b (e # m) \<Longrightarrow> min_by_key (\<lambda>x. stamp (snd x)) (e # m) = Some e"
  by (rule min_by_key_sorted) (simp add: stamped_def)

lemma stamped_remove_oldest: "stamped stamp b (e # m) \<Longrightarrow> hm_remove (fst e) (e # m) = m"
proof -
  assume "stamped stamp b (e # m)"
  then have "fst x \<noteq> fst e" if "x \<in> set m" for x
    using that by (metis (no_types, lifting) distinct.simps(2) image_eqI image_set list.simps(9) stamped_def)
  then show ?thesis by (simp add: hm_remove_def filter_id_conv)
qed

lemma stamped_tl: "stamped stamp b (e # m) \<Longrightarrow> stamped stamp b m"
  by (simp add: stamped_def)

lemma stamped_insert:
  assumes "stamped stamp b m" "stamp v = b'" "b \<le> b'"
  shows "stamped stamp (b' + 1) (hm_insert k v m)"
proof -
  have "sorted_wrt (\<lambda>x y. stamp (snd x) < stamp (snd y)) (filter (\<lambda>e. fst e \<noteq> k) m)"
    using assms(1) by (simp add: stamped_def sorted_wrt_filter)
  moreover have "distinct (map fst (hm_insert k v m))"
    using assms(1) by (simp add: stamped_def hm_insert_keys distinct_removeAll)
  ultimately show ?thesis
    using assms by (fastforce simp: stamped_def hm_insert_def sorted_wrt_append)
qed

text \<open>Evicting before an insertion, as the baselines and the page loads do it.\<close>

definition make_room :: "nat \<Rightarrow> ('v \<Rightarrow> nat) \<Rightarrow> string \<Rightarrow> (string \<times> 'v) list \<Rightarrow> (string \<times> 'v) list" where
  "make_room c stamp k m =
     (if k \<notin> fst ` set m \<and> length m \<ge> c
      then (case min_by_key (\<lambda>e. stamp (snd e)) m of Some oldest \<Rightarrow> hm_remove (fst oldest) m | None \<Rightarrow> m)
      else m)"

lemma make_room_stamped:
  assumes "stamped stamp b m" "0 < c"
  shows "stamped stamp b (make_room c stamp k m) \<and>
    make_room c stamp k m = (if k \<notin> set (map fst m) \<and> c \<le> length (map fst m) then tl m else m)"
proof (cases m)
  case Nil
  then show ?thesis using assms by (simp add: make_room_def)
next
  case (Cons e m')
  then show ?thesis
    using assms stamped_oldest [of stamp b e m'] stamped_remove_oldest [of stamp b e m'] stamped_tl [of stamp b e m']
    by (auto simp: make_room_def)
qed

lemmas stamped_make_room = make_room_stamped [THEN conjunct1]

lemma make_room_insert_keys:
  assumes "stamped stamp b m" "0 < c"
  shows "map fst (hm_insert k v (make_room c stamp k m)) =
    (if k \<notin> set (map fst m) \<and> c \<le> length (map fst m) then tl (map fst m) else removeAll k (map fst m)) @ [k]"
proof (cases "k \<notin> set (map fst m) \<and> c \<le> length (map fst m)")
  case True
  then have "k \<notin> set (tl (map fst m))" using list.set_sel(2) [of "map fst m" k] by (cases m) auto
  then show ?thesis
    using True make_room_stamped [OF assms, of k] by (simp add: hm_insert_keys map_tl removeAll_id)
next
  case False
  then show ?thesis using make_room_stamped [OF assms, of k] by (simp only: hm_insert_keys if_False)
qed

definition contract_inv :: "contract_baselines \<Rightarrow> bool" where
  "contract_inv st \<longleftrightarrow> stamped fst (cb_next_seq st) (cb_map st)"

definition contract_put :: "string \<Rightarrow> contract_baseline \<Rightarrow> contract_baselines \<Rightarrow> contract_baselines" where
  "contract_put k b st = snd (contract_record (b\<lparr>bl_command := k\<rparr>) st)"

lemma contract_record_map:
  "cb_map (snd (contract_record b st)) =
     hm_insert (bl_command b) (cb_next_seq st, b) (make_room MAX_CONTRACT_BASELINES fst (bl_command b) (cb_map st)) \<and>
   cb_next_seq (snd (contract_record b st)) = cb_next_seq st + 1"
  by (auto simp: contract_record_def make_room_def Let_def split: option.split prod.split)

lemma contract_record_inv:
  assumes "contract_inv st"
  shows "contract_inv (snd (contract_record b st))"
  unfolding contract_inv_def contract_record_map [THEN conjunct1] contract_record_map [THEN conjunct2]
  by (rule stamped_insert [OF stamped_make_room, where b = "cb_next_seq st"])
    (use assms in \<open>simp_all add: MAX_CONTRACT_BASELINES_def contract_inv_def\<close>)

interpretation contracts: recency_store contract_inv "\<lambda>st. map fst (cb_map st)" MAX_CONTRACT_BASELINES contract_put
proof unfold_locales
  fix st k b
  assume inv: "contract_inv st"
  show "contract_inv (contract_put k b st)"
    unfolding contract_put_def using inv by (rule contract_record_inv)
  show "distinct (map fst (cb_map st))" using inv by (simp add: contract_inv_def stamped_def)
  show "map fst (cb_map (contract_put k b st)) =
    (if k \<notin> set (map fst (cb_map st)) \<and> MAX_CONTRACT_BASELINES \<le> length (map fst (cb_map st))
     then tl (map fst (cb_map st)) else removeAll k (map fst (cb_map st))) @ [k]"
    unfolding contract_put_def contract_record_map [THEN conjunct1]
    using inv make_room_insert_keys [of fst "cb_next_seq st" "cb_map st" MAX_CONTRACT_BASELINES]
    by (simp add: contract_inv_def MAX_CONTRACT_BASELINES_def)
qed (simp add: MAX_CONTRACT_BASELINES_def)

definition loads_inv :: "page_loads \<Rightarrow> bool" where
  "loads_inv p \<longleftrightarrow> stamped pl_seq (pls_seq p + 1) (pls_last_load p)"

lemma record_load_map:
  "pls_last_load (record_load k nonce p) =
     hm_insert k \<lparr> pl_seq = pls_seq p + 1, pl_nonce = map_option (chars_take MAX_PAGE_NONCE_LEN) nonce \<rparr>
       (make_room MAX_PAGE_LOAD_WINDOWS pl_seq k (pls_last_load p)) \<and>
   pls_seq (record_load k nonce p) = pls_seq p + 1"
  by (auto simp: record_load_def make_room_def Let_def split: option.split)

interpretation page_windows: recency_store loads_inv "\<lambda>p. map fst (pls_last_load p)" MAX_PAGE_LOAD_WINDOWS record_load
proof unfold_locales
  fix p k nonce
  assume inv: "loads_inv p"
  show "loads_inv (record_load k nonce p)"
    unfolding loads_inv_def record_load_map [THEN conjunct1] record_load_map [THEN conjunct2]
    by (rule stamped_insert [OF stamped_make_room, where b = "pls_seq p + 1"])
      (use inv in \<open>simp_all add: MAX_PAGE_LOAD_WINDOWS_def loads_inv_def\<close>)
  show "distinct (map fst (pls_last_load p))" using inv by (simp add: loads_inv_def stamped_def)
  show "map fst (pls_last_load (record_load k nonce p)) =
    (if k \<notin> set (map fst (pls_last_load p)) \<and> MAX_PAGE_LOAD_WINDOWS \<le> length (map fst (pls_last_load p))
     then tl (map fst (pls_last_load p)) else removeAll k (map fst (pls_last_load p))) @ [k]"
    unfolding record_load_map [THEN conjunct1]
    using inv make_room_insert_keys [of pl_seq "pls_seq p + 1" "pls_last_load p" MAX_PAGE_LOAD_WINDOWS]
    by (simp add: loads_inv_def MAX_PAGE_LOAD_WINDOWS_def)
qed (simp add: MAX_PAGE_LOAD_WINDOWS_def)

section \<open>Fault rules\<close>

definition fault_rule :: "fault_rules \<Rightarrow> string \<Rightarrow> fault_config option" where
  "fault_rule r k = map_option snd (map_of (fr_map r) k)"

lemma make_room_lookup: "map_of (make_room c stamp k m) j \<in> {None, map_of m j}"
  by (auto simp: make_room_def hm_remove_lookup split: option.split)

lemma make_room_length:
  assumes "length m \<le> c" "0 < c"
  shows "k \<in> fst ` set m \<and> make_room c stamp k m = m \<or> length (make_room c stamp k m) < c"
proof (cases "k \<in> fst ` set m \<or> length m < c")
  case True
  then show ?thesis by (auto simp: make_room_def)
next
  case False
  then obtain e where e: "min_by_key (\<lambda>e. stamp (snd e)) m = Some e"
    using assms(2) by (cases "min_by_key (\<lambda>e. stamp (snd e)) m") auto
  then have "e \<in> set m" by (blast dest: min_by_key_least)
  then have "length (hm_remove (fst e) m) < length m"
    unfolding hm_remove_def by (intro length_filter_less) auto
  then show ?thesis using False e assms(1) by (auto simp: make_room_def)
qed

lemma make_room_distinct: "distinct (map fst m) \<Longrightarrow> distinct (map fst (make_room c stamp k m))"
  by (auto simp: make_room_def hm_remove_keys distinct_removeAll split: option.split)

lemma length_hm_insert: "k \<in> fst ` set m \<Longrightarrow> length (hm_insert k v m) \<le> length m"
proof -
  assume "k \<in> fst ` set m"
  then have "length (filter (\<lambda>e. fst e \<noteq> k) m) < length m" by (auto intro!: length_filter_less)
  then show ?thesis by (simp add: hm_insert_def)
qed

lemma length_hm_insert_Suc: "length (hm_insert k v m) \<le> Suc (length m)"
  by (simp add: hm_insert_def)

lemma inject_map:
  "fr_map (inject now c r) =
     hm_insert (fc_command c) (fr_next_seq r, c)
       (make_room MAX_FAULT_RULES fst (fc_command c) (fr_map (evict_expired now r)))"
  by (auto simp: inject_def make_room_def evict_expired_def Let_def split: option.split)

lemma evict_expired_inv: "fault_inv r \<Longrightarrow> fault_inv (evict_expired now r)"
  by (auto simp: fault_inv_def evict_expired_def distinct_map_filter intro: le_trans [OF length_filter_le])

lemma fault_rule_evict:
  "fault_inv r \<Longrightarrow> fault_rule (evict_expired now r) k \<in> {None, fault_rule r k}"
  by (auto simp: fault_rule_def evict_expired_def fault_inv_def map_of_filter_distinct split: option.splits)

lemma fault_rule_inject:
  assumes "fault_inv r" "k \<noteq> fc_command c"
  shows "fault_rule (inject now c r) k \<in> {None, fault_rule r k}"
proof -
  have "map_of (fr_map (inject now c r)) k \<in> {None, map_of (fr_map (evict_expired now r)) k}"
    using make_room_lookup assms(2) by (simp add: inject_map hm_insert_lookup)
  then show ?thesis using fault_rule_evict [OF assms(1), of now k] by (auto simp: fault_rule_def)
qed

lemma inject_inv:
  assumes "fault_inv r"
  shows "fault_inv (inject now c r)"
proof -
  let ?m = "fr_map (evict_expired now r)"
  let ?n = "make_room MAX_FAULT_RULES fst (fc_command c) ?m"
  have m: "distinct (map fst ?m)" "length ?m \<le> MAX_FAULT_RULES"
    using evict_expired_inv [OF assms, of now] by (simp_all add: fault_inv_def)
  have "length (hm_insert (fc_command c) (fr_next_seq r, c) ?n) \<le> MAX_FAULT_RULES"
    using make_room_length [OF m(2), of "fc_command c" fst]
  proof
    assume "fc_command c \<in> fst ` set ?m \<and> ?n = ?m"
    then show ?thesis using le_trans [OF length_hm_insert m(2), of "fc_command c"] by simp
  next
    assume "length ?n < MAX_FAULT_RULES"
    then show ?thesis
      using length_hm_insert_Suc [of "fc_command c" "(fr_next_seq r, c)" ?n] by linarith
  qed (simp add: MAX_FAULT_RULES_def)
  then show ?thesis
    using make_room_distinct [OF m(1), of MAX_FAULT_RULES fst "fc_command c"]
    by (simp add: fault_inv_def inject_map hm_insert_keys distinct_removeAll)
qed

lemma fault_step_inv: "fault_inv r \<Longrightarrow> fault_inv (snd (fault_step e r))"
proof (induction e r rule: fault_step.induct)
  case (1 now c r)
  then show ?case by (simp add: inject_inv)
next
  case (2 now k r)
  then show ?case
    by (auto simp: fault_inv_def check_and_trigger_def length_map [of fst, symmetric] simp del: length_map split: option.split)
next
  case (3 now r)
  then show ?case by (simp add: fault_list_def Let_def evict_expired_inv)
next
  case (4 now k r)
  then show ?case
    by (auto simp: fault_inv_def fault_clear_def hm_remove_def distinct_map_filter
        intro: le_trans [OF length_filter_le])
next
  case (5 now r)
  then show ?case by (simp add: fault_inv_def fault_clear_all_def)
qed

lemma fault_reached_inv: "fault_inv r \<Longrightarrow> fault_inv (fault_reached es r)"
  by (induction es arbitrary: r) (simp_all add: fault_step_inv)

text \<open>What an operation other than an injection for \<open>k\<close> does to the rule of \<open>k\<close>.\<close>

lemma fault_step_rule:
  assumes "fault_inv r" "\<And>c. snd e = Inject c \<Longrightarrow> fc_command c \<noteq> k"
  shows "fault_rule (snd (fault_step e r)) k \<in> {None, fault_rule r k} \<and>
           \<not> (snd e = Check k \<and> fst (fault_step e r) \<noteq> None) \<or>
         snd e = Check k \<and> (\<exists>c. fault_rule r k = Some c \<and> should_trigger_at c (fst e) \<and>
           fst (fault_step e r) = Some (fc_fault_type c) \<and>
           fault_rule (snd (fault_step e r)) k = Some (c\<lparr>fc_trigger_count := fc_trigger_count c + 1\<rparr>))"
proof (cases e)
  case (Pair now op)
  show ?thesis
  proof (cases op)
    case (Inject c)
    then show ?thesis using assms Pair fault_rule_inject [OF assms(1), of k c now] by auto
  next
    case (Check j)
    then show ?thesis using Pair
      by (auto simp: check_and_trigger_def fault_rule_def hm_alter_lookup split: option.split prod.split)
  next
    case ListFaults
    then show ?thesis using Pair fault_rule_evict [OF assms(1), of now k] by (simp add: fault_list_def Let_def)
  next
    case (ClearFault j)
    then show ?thesis using Pair by (simp add: fault_clear_def fault_rule_def hm_remove_lookup)
  next
    case ClearAllFaults
    then show ?thesis using Pair by (simp add: fault_clear_all_def fault_rule_def)
  qed
qed

lemma trigger_budget:
  assumes "fault_inv r" "\<forall>(now, op) \<in> set es. \<forall>c. op = Inject c \<longrightarrow> fc_command c \<noteq> k"
    and "fault_rule r k = None \<or> (\<exists>c. fault_rule r k = Some c \<and> fc_created_at c = t0 \<and> fc_max_triggers c = mx \<and>
           fc_trigger_count c = n \<and> (mx = 0 \<or> n \<le> mx))"
    and "mx = 0 \<or> n \<le> mx"
  shows "(mx = 0 \<or> n + length (trigger_times k es r) \<le> mx) \<and>
         (\<forall>t \<in> set (trigger_times k es r). t - t0 < FAULT_TTL)"
  using assms
proof (induction es arbitrary: r n)
  case (Cons e es)
  let ?r = "snd (fault_step e r)"
  have inv: "fault_inv ?r" using Cons.prems(1) by (rule fault_step_inv)
  have es: "\<forall>(now, op) \<in> set es. \<forall>c. op = Inject c \<longrightarrow> fc_command c \<noteq> k"
    using Cons.prems(2) by simp
  have "\<And>c. snd e = Inject c \<Longrightarrow> fc_command c \<noteq> k"
    using Cons.prems(2) by (cases e) simp
  from fault_step_rule [OF Cons.prems(1) this] show ?case
  proof
    assume "fault_rule ?r k \<in> {None, fault_rule r k} \<and> \<not> (snd e = Check k \<and> fst (fault_step e r) \<noteq> None)"
    then show ?thesis using Cons.IH [OF inv es, of n] Cons.prems(3,4) by auto
  next
    assume t: "snd e = Check k \<and> (\<exists>c. fault_rule r k = Some c \<and> should_trigger_at c (fst e) \<and>
           fst (fault_step e r) = Some (fc_fault_type c) \<and>
           fault_rule ?r k = Some (c\<lparr>fc_trigger_count := fc_trigger_count c + 1\<rparr>))"
    then obtain c where c: "fault_rule r k = Some c" "should_trigger_at c (fst e)" "fst (fault_step e r) \<noteq> None"
      "fault_rule ?r k = Some (c\<lparr>fc_trigger_count := fc_trigger_count c + 1\<rparr>)" by auto
    then have "fc_created_at c = t0" "fc_max_triggers c = mx" "fc_trigger_count c = n"
      using Cons.prems(3) by auto
    moreover from c(2) this have "fst e - t0 < FAULT_TTL" "mx = 0 \<or> n + 1 \<le> mx"
      by (auto simp: should_trigger_at_def split: if_splits)
    ultimately show ?thesis
      using Cons.IH [OF inv es, of "n + 1"] c t by auto
  qed
qed simp

section \<open>Shapes\<close>

lemma drift_concat_Nil: "drift_concat ds = ([], [], []) \<longleftrightarrow> (\<forall>d \<in> set ds. d = ([], [], []))"
  by (induction ds) (auto simp: drift_concat_def drift_append_def prod_eq_iff)

fun wf_shape :: "json_shape \<Rightarrow> bool" where
  "wf_shape (ShArray s) = wf_shape s"
| "wf_shape (ShObject m) = (sorted_wrt (<) (map fst m) \<and> (\<forall>kv \<in> set m. wf_shape (snd kv)))"
| "wf_shape _ = True"

lemma wf_shape_from_value: "wf_json v \<Longrightarrow> wf_shape (shape_from_value v)"
proof (induction v)
  case (JArray xs)
  then show ?case by (cases xs) auto
next
  case (JObject m)
  then show ?case by (auto simp: comp_def intro: snds.intros)
qed auto

lemma assoc_rebuild: "distinct (map fst m) \<Longrightarrow> map (\<lambda>k. (k, the (map_of m k))) (map fst m) = m"
  by (auto simp: comp_def intro!: map_idI)

lemma sorted_assoc_eqI:
  "sorted_wrt (<) (map fst xs) \<Longrightarrow> sorted_wrt (<) (map fst ys) \<Longrightarrow>
   (\<forall>(k :: string, v) \<in> set xs. map_of ys k = Some v) \<Longrightarrow> fst ` set ys \<subseteq> fst ` set xs \<Longrightarrow> xs = ys"
proof -
  assume s: "sorted_wrt (<) (map fst xs)" "sorted_wrt (<) (map fst ys)"
    and sub: "\<forall>(k, v) \<in> set xs. map_of ys k = Some v" and dom: "fst ` set ys \<subseteq> fst ` set xs"
  have d: "distinct (map fst xs)" "distinct (map fst ys)"
    using s by (simp_all add: sorted_wrt_less_distinct)
  have "map_of xs = map_of ys"
  proof
    fix k
    show "map_of xs k = map_of ys k"
    proof (cases "map_of xs k")
      case None
      then have "k \<notin> fst ` set xs" by (simp add: map_of_eq_None_iff)
      then have "k \<notin> fst ` set ys" using dom by blast
      then show ?thesis using None by (metis map_of_eq_None_iff)
    next
      case (Some v)
      then have "(k, v) \<in> set xs" by (rule map_of_SomeD)
      then show ?thesis using sub Some by auto
    qed
  qed
  moreover from this have "set (map fst xs) = set (map fst ys)" by (metis dom_map_of_conv_image_fst list.set_map)
  then have "map fst xs = map fst ys"
    using s d by (intro sorted_distinct_set_unique) (simp_all add: strict_sorted_imp_sorted)
  ultimately show "xs = ys" using assoc_rebuild [OF d(1)] assoc_rebuild [OF d(2)] by metis
qed

lemma diff_object_Nil:
  "diff_shapes_inner (ShObject b) (ShObject c) pre = ([], [], []) \<longleftrightarrow>
     (\<forall>kb \<in> set b. \<exists>s. map_of c (fst kb) = Some s \<and>
        diff_shapes_inner (snd kb) s (field_path pre (fst kb)) = ([], [], [])) \<and>
     fst ` set c \<subseteq> fst ` set b"
proof -
  have app: "drift_append x y = ([], [], []) \<longleftrightarrow> x = ([], [], []) \<and> y = ([], [], [])" for x y
    by (auto simp: drift_append_def prod_eq_iff)
  show ?thesis
    by (auto simp: app drift_concat_Nil filter_empty_conv split: option.splits)
qed

lemma diff_shapes_exact:
  "wf_shape b \<Longrightarrow> wf_shape c \<Longrightarrow> diff_shapes_inner b c pre = ([], [], []) \<longleftrightarrow> b = c"
proof (induction b arbitrary: c pre)
  case (ShArray b)
  then show ?case by (cases c) auto
next
  case (ShObject b)
  show ?case
  proof (cases c)
    case c: (ShObject c')
    have "b = c'" if "diff_shapes_inner (ShObject b) c pre = ([], [], [])"
    proof (rule sorted_assoc_eqI)
      note * = that [unfolded c diff_object_Nil]
      show "fst ` set c' \<subseteq> fst ` set b" using * by blast
      show "\<forall>(k, v) \<in> set b. map_of c' k = Some v"
      proof clarify
        fix k v
        assume kv: "(k, v) \<in> set b"
        then obtain s where s: "map_of c' k = Some s" "diff_shapes_inner v s (field_path pre k) = ([], [], [])"
          using * by fastforce
        have "wf_shape v" using ShObject.prems(1) kv by auto
        moreover have "wf_shape s" using ShObject.prems(2) c map_of_SomeD [OF s(1)] by auto
        ultimately have "v = s" using ShObject.IH [OF kv snds.intros] s(2) by auto
        then show "map_of c' k = Some v" using s(1) by simp
      qed
    qed (use ShObject.prems c in simp_all)
    moreover have "diff_shapes_inner (ShObject b) (ShObject b) pre = ([], [], [])"
    proof (unfold diff_object_Nil, intro conjI ballI)
      fix kb
      assume kb: "kb \<in> set b"
      have "distinct (map fst b)" using ShObject.prems(1) by (simp add: sorted_wrt_less_distinct)
      then have "map_of b (fst kb) = Some (snd kb)" using kb by (cases kb) simp
      moreover have "wf_shape (snd kb)" using ShObject.prems(1) kb by simp
      ultimately show "\<exists>s. map_of b (fst kb) = Some s \<and>
          diff_shapes_inner (snd kb) s (field_path pre (fst kb)) = ([], [], [])"
        using ShObject.IH [OF kb, of "snd kb"] by (cases kb) (auto intro: snds.intros)
    qed simp
    ultimately show ?thesis using c by auto
  qed simp_all
next
  case ShNull
  then show ?case by (cases c) simp_all
next
  case ShBool
  then show ?case by (cases c) simp_all
next
  case ShNumber
  then show ?case by (cases c) simp_all
next
  case ShString
  then show ?case by (cases c) simp_all
qed

section \<open>Watermarks\<close>

interpretation watermark_owner:
  generation_owner "\<lambda>_. True" wm_step "\<lambda>s. Some (ws_epoch s)" "\<lambda>s. {g. ws_epoch s \<le> g}"
proof unfold_locales
  fix s t :: watermark_state and g
  assume st: "wm_step s t"
  then have mono: "ws_epoch s \<le> ws_epoch t"
    by (cases rule: wm_step.cases)
      (auto simp: advance_def reset_def retain_def lock_for_def)
  then show "{g. ws_epoch t \<le> g} \<subseteq> {g. ws_epoch s \<le> g}" by auto
  assume "Some (ws_epoch s) = Some g" "Some (ws_epoch t) \<noteq> Some g"
  then show "g \<notin> {g. ws_epoch t \<le> g}" using mono by auto
qed simp_all

section \<open>Theorems\<close>

text \<open>
  An injected fault is limited in number and time, whatever else happens to the registry: in every
  sequence of operations after its injection, with any clock readings, the rule of a command fires at
  most \<open>max_triggers\<close> times (no limit when that is 0) and never once \<^verbatim>\<open>FAULT_TTL\<close> has passed, until
  a new rule for that command is injected; and the registry never holds more than its 256 rules.
\<close>

theorem fault_triggers_bounded:
  assumes "fault_inv r" "fc_trigger_count c = 0"
    and "\<forall>(now, op) \<in> set es. \<forall>d. op = Inject d \<longrightarrow> fc_command d \<noteq> fc_command c"
  shows "(fc_max_triggers c = 0 \<or>
            length (trigger_times (fc_command c) es (inject now0 c r)) \<le> fc_max_triggers c) \<and>
         (\<forall>t \<in> set (trigger_times (fc_command c) es (inject now0 c r)). t - fc_created_at c < FAULT_TTL) \<and>
         length (fr_map (fault_reached es (inject now0 c r))) \<le> MAX_FAULT_RULES"
proof -
  have inv: "fault_inv (inject now0 c r)" using assms(1) by (rule inject_inv)
  have "fault_rule (inject now0 c r) (fc_command c) = Some c"
    by (simp add: fault_rule_def inject_map hm_insert_lookup)
  then have "(fc_max_triggers c = 0 \<or>
        0 + length (trigger_times (fc_command c) es (inject now0 c r)) \<le> fc_max_triggers c) \<and>
      (\<forall>t \<in> set (trigger_times (fc_command c) es (inject now0 c r)). t - fc_created_at c < FAULT_TTL)"
    using assms(2,3) by (intro trigger_budget [OF inv]) simp_all
  then show ?thesis using fault_reached_inv [OF inv, of es] by (simp add: fault_inv_def)
qed

theorem fault_triggers_bounded_witness:
  "let c = fault_config_new 5 ''save'' Drop 1;
       es = [(6, Check ''save''), (7, Check ''save''), (8, ClearFault ''load'')]
   in trigger_times ''save'' es (inject 5 c fault_registry_new) = [6] \<and>
      length (trigger_times ''save'' es (inject 5 c fault_registry_new)) \<le> 1"
proof -
  let ?c = "fault_config_new 5 ''save'' Drop 1"
  let ?es = "[(6, Check ''save''), (7, Check ''save''), (8, ClearFault ''load'')]"
  have c: "fc_command ?c = ''save''" "fc_max_triggers ?c = 1" "fc_trigger_count ?c = 0"
    by (simp_all add: fault_config_new_def)
  have "fault_inv fault_registry_new" by (simp add: fault_inv_def fault_registry_new_def)
  from fault_triggers_bounded [OF this c(3), of ?es 5]
  have "length (trigger_times ''save'' ?es (inject 5 ?c fault_registry_new)) \<le> 1"
    using c by simp
  moreover have "trigger_times ''save'' ?es (inject 5 ?c fault_registry_new) = [6]"
    by (simp add: inject_map check_and_trigger_def fault_config_new_def fault_registry_new_def evict_expired_def
        make_room_def hm_insert_def hm_alter_def should_trigger_at_def FAULT_TTL_def MAX_FAULT_RULES_def)
  ultimately show ?thesis by simp
qed

text \<open>
  Contract checking detects every change of shape and nothing else: for responses that are
  well-formed JSON, \<^verbatim>\<open>diff_shapes\<close> reports a match exactly when the two responses have the same
  shape.
\<close>

theorem contract_drift_exact:
  assumes "wf_json v" "wf_json w"
  shows "cd_shape_matches (diff_shapes (shape_from_value v) (shape_from_value w) pre) \<longleftrightarrow>
    shape_from_value v = shape_from_value w"
  using diff_shapes_exact [OF wf_shape_from_value [OF assms(1)] wf_shape_from_value [OF assms(2)], of pre]
  by (auto simp: diff_shapes_def Let_def split: prod.split)

theorem contract_drift_exact_witness:
  "\<not> cd_shape_matches (diff_shapes (shape_from_value (JObject [(''a'', JNull), (''b'', JBool True)]))
       (shape_from_value (JObject [(''a'', JNull), (''b'', JArray [])])) ''cmd'')"
proof -
  have "wf_json (JObject [(''a'', JNull), (''b'', JBool True)])" "wf_json (JObject [(''a'', JNull), (''b'', JArray [])])"
    by code_simp+
  from contract_drift_exact [OF this] show ?thesis by simp
qed

text \<open>
  The capped stores forget exactly the least recently written keys: after any sequence of
  recordings the contract store holds the baselines of the 1024 most recently recorded commands, and
  the page-load table the 256 windows that loaded most recently, in order; the newest is always there.
\<close>

theorem capped_stores_keep_most_recent:
  "rev (map fst (cb_map (fold (\<lambda>b. snd \<circ> contract_record b) bs contract_store_new))) =
     take MAX_CONTRACT_BASELINES (recency (map bl_command bs)) \<and>
   rev (map fst (pls_last_load (fold (\<lambda>(label, nonce). record_load label nonce) ls page_loads_new))) =
     take MAX_PAGE_LOAD_WINDOWS (recency (map fst ls))"
proof
  have "(\<lambda>b. snd \<circ> contract_record b) = (\<lambda>b. contract_put (bl_command b) b)"
    by (simp add: contract_put_def fun_eq_iff)
  then have "fold (\<lambda>b. snd \<circ> contract_record b) bs contract_store_new =
    fold (\<lambda>(k, v). contract_put k v) (map (\<lambda>b. (bl_command b, b)) bs) contract_store_new"
    by (simp add: fold_map comp_def)
  moreover have "contract_inv contract_store_new" "map fst (cb_map contract_store_new) = []"
    by (simp_all add: contract_inv_def contract_store_new_def stamped_def)
  note contracts.history [OF this, of "map (\<lambda>b. (bl_command b, b)) bs"]
  ultimately show "rev (map fst (cb_map (fold (\<lambda>b. snd \<circ> contract_record b) bs contract_store_new))) =
     take MAX_CONTRACT_BASELINES (recency (map bl_command bs))"
    by (simp add: comp_def)
  have "loads_inv page_loads_new" "map fst (pls_last_load page_loads_new) = []"
    by (simp_all add: loads_inv_def page_loads_new_def stamped_def)
  then show "rev (map fst (pls_last_load (fold (\<lambda>(label, nonce). record_load label nonce) ls page_loads_new))) =
     take MAX_PAGE_LOAD_WINDOWS (recency (map fst ls))"
    using page_windows.history by blast
qed

text \<open>
  A drain that straddles the start of a new recording cannot touch it: once the epoch a cursor was
  read in is over, no later step makes it current again, so \<^verbatim>\<open>advance\<close> with it is refused and
  changes nothing; and a new epoch starts with no positions.
\<close>

theorem stale_drain_refused:
  assumes "wm_step s t" "ws_epoch t \<noteq> ws_epoch s" "wm_step\<^sup>*\<^sup>* t u"
  shows "advance label (dc_epoch (cursor s l)) mark u = (False, u) \<and>
    ws_epoch s < ws_epoch t \<and> ws_per_label t = []"
proof -
  have "Some (ws_epoch u) \<noteq> Some (ws_epoch s)"
    by (rule watermark_owner.never_current_again [OF TrueI assms(1) refl _ assms(3)]) (simp add: assms(2))
  moreover have "ws_epoch s < ws_epoch t \<and> ws_per_label t = []"
    using assms(1)
  proof (cases rule: wm_step.cases)
    case (2 floor_ms epoch)
    then show ?thesis using assms(2) by (simp add: reset_def split: if_splits)
  qed (use assms(2) in \<open>simp_all add: advance_def retain_def lock_for_def split: if_splits\<close>)
  ultimately show ?thesis by (simp add: advance_def cursor_def)
qed

theorem stale_drain_refused_witness:
  "let s = \<lparr> ws_floor_ms = F_Fin 0, ws_epoch = 1, ws_per_label = [], ws_locks = [] \<rparr>;
       t = reset (F_Fin 9) 2 s
   in advance ''main'' 1 \<lparr> dm_instance = ''a'', dm_seq = 4 \<rparr> t = (False, t)"
proof -
  let ?s = "\<lparr> ws_floor_ms = F_Fin 0, ws_epoch = 1, ws_per_label = [], ws_locks = [] \<rparr>"
  let ?t = "reset (F_Fin 9) 2 ?s"
  have "wm_step ?s ?t" by (rule wm_step.intros)
  from stale_drain_refused [OF this _ rtranclp.rtrancl_refl, of "''main''" "''main''"]
  show ?thesis by (simp add: reset_def cursor_def)
qed

end
