(* ===== verification/Telemetry.thy ===== *)
theory Telemetry
  imports Float64 Collections Utf8
begin

text \<open>
  The measuring half of \<^verbatim>\<open>crates/victauri-plugin/src/introspection.rs\<close>: command timings, the startup
  timeline, the event-bus monitor and the spinning-page heuristic.  A \<^verbatim>\<open>Duration\<close> or \<^verbatim>\<open>Instant\<close> is
  a number of nanoseconds; milliseconds are binary64 values computed as the code computes them.
\<close>

section \<open>Durations\<close>

definition DURATION_MAX :: nat where
  "DURATION_MAX = (2 ^ 64 - 1) * 10 ^ 9 + 999999999"

definition duration_saturating_add :: "nat \<Rightarrow> nat \<Rightarrow> nat" where
  "duration_saturating_add a b = min (a + b) DURATION_MAX"

definition as_secs_f64 :: "nat \<Rightarrow> f64" where
  "as_secs_f64 d = f64_add (f64_of_int (int (d div 10 ^ 9))) (f64_div (f64_of_int (int (d mod 10 ^ 9))) (f64_of_int (10 ^ 9)))"

definition to_ms :: "nat \<Rightarrow> f64" where
  "to_ms d = f64_mul (as_secs_f64 d) (F_Fin 1000)"

definition round2 :: "f64 \<Rightarrow> f64" where
  "round2 v = f64_div (f64_round (f64_mul v (F_Fin 100))) (F_Fin 100)"

section \<open>Command timings\<close>

record command_timing_stats =
  cs_command :: string
  cs_count :: u64
  cs_min_ms :: f64
  cs_max_ms :: f64
  cs_avg_ms :: f64
  cs_p95_ms :: f64
  cs_total_ms :: f64

definition MAX_TIMING_SAMPLES :: usize where
  "MAX_TIMING_SAMPLES = 1024"

record timing_samples =
  tsm_recent :: "nat list"
  tsm_count :: u64
  tsm_total :: nat
  tsm_min :: "nat option"
  tsm_max :: "nat option"

definition timing_samples_default :: timing_samples where
  "timing_samples_default = \<lparr> tsm_recent = [], tsm_count = 0, tsm_total = 0, tsm_min = None, tsm_max = None \<rparr>"

definition samples_record :: "nat \<Rightarrow> timing_samples \<Rightarrow> timing_samples" where
  "samples_record duration s =
     (let recent = (if length (tsm_recent s) = MAX_TIMING_SAMPLES then tl (tsm_recent s) else tsm_recent s)
      in \<lparr> tsm_recent = recent @ [duration],
           tsm_count = tsm_count s + 1,
           tsm_total = duration_saturating_add (tsm_total s) duration,
           tsm_min = Some (case tsm_min s of None \<Rightarrow> duration | Some m \<Rightarrow> min m duration),
           tsm_max = Some (case tsm_max s of None \<Rightarrow> duration | Some m \<Rightarrow> max m duration) \<rparr>)"

text \<open>Not \<^verbatim>\<open>Ordering::Greater\<close> of \<^verbatim>\<open>partial_cmp\<close>, incomparable values being equal.\<close>

definition f64_not_greater :: "f64 \<Rightarrow> f64 \<Rightarrow> bool" where
  "f64_not_greater a b = (\<not> f64_lt b a)"

definition p95_index :: "nat \<Rightarrow> nat" where
  "p95_index n = sat_sub (f64_to_usize (f64_ceil (f64_mul (f64_of_int (int n)) (round_f64 (95 / 100))))) 1"

definition p95_of :: "f64 list \<Rightarrow> f64" where
  "p95_of srt =
     (if srt = [] then F_Fin 0 else srt ! min (p95_index (length srt)) (length srt - 1))"

definition samples_stats :: "timing_samples \<Rightarrow> string \<Rightarrow> command_timing_stats" where
  "samples_stats s command =
     (if tsm_count s = 0
      then \<lparr> cs_command = command, cs_count = 0, cs_min_ms = F_Fin 0, cs_max_ms = F_Fin 0, cs_avg_ms = F_Fin 0,
             cs_p95_ms = F_Fin 0, cs_total_ms = F_Fin 0 \<rparr>
      else let total_ms = to_ms (tsm_total s);
               avg_ms = f64_div total_ms (f64_of_int (int (tsm_count s)));
               min_ms = (case tsm_min s of None \<Rightarrow> F_Fin 0 | Some m \<Rightarrow> to_ms m);
               max_ms = (case tsm_max s of None \<Rightarrow> F_Fin 0 | Some m \<Rightarrow> to_ms m);
               srt = sort_by f64_not_greater (map to_ms (tsm_recent s));
               p95 = p95_of srt
           in \<lparr> cs_command = command, cs_count = tsm_count s, cs_min_ms = round2 min_ms,
                cs_max_ms = round2 max_ms, cs_avg_ms = round2 avg_ms, cs_p95_ms = round2 p95,
                cs_total_ms = round2 total_ms \<rparr>)"

definition MAX_TIMED_COMMANDS :: usize where
  "MAX_TIMED_COMMANDS = 1024"

type_synonym command_timings = "(string \<times> timing_samples) list"

definition timings_record :: "string \<Rightarrow> nat \<Rightarrow> command_timings \<Rightarrow> command_timings" where
  "timings_record command duration m =
     (if command \<in> fst ` set m then hm_alter command (samples_record duration) m
      else if length m < MAX_TIMED_COMMANDS
      then hm_insert command (samples_record duration timing_samples_default) m
      else m)"

definition all_stats :: "command_timings \<Rightarrow> command_timing_stats list" where
  "all_stats m =
     sort_by (\<lambda>a b. f64_not_greater (cs_total_ms b) (cs_total_ms a)) (map (\<lambda>(name, s). samples_stats s name) m)"

definition stats_for :: "command_timings \<Rightarrow> string \<Rightarrow> command_timing_stats option" where
  "stats_for m command = map_option (\<lambda>s. samples_stats s command) (map_of m command)"

definition timings_clear :: "command_timings \<Rightarrow> command_timings" where
  "timings_clear m = []"

section \<open>Startup timeline\<close>

record startup_phase =
  sp_name :: string
  sp_duration_ms :: f64
  sp_cumulative_ms :: f64

record startup_timeline =
  st_start :: nat
  st_phases :: "(string \<times> nat) list"

definition timeline_new :: "nat \<Rightarrow> startup_timeline" where
  "timeline_new now = \<lparr> st_start = now, st_phases = [] \<rparr>"

definition timeline_mark :: "nat \<Rightarrow> string \<Rightarrow> startup_timeline \<Rightarrow> startup_timeline" where
  "timeline_mark now name t = t\<lparr>st_phases := st_phases t @ [(name, now)]\<rparr>"

definition phase_ms :: "nat \<Rightarrow> f64" where
  "phase_ms d = f64_div (f64_round (f64_mul (f64_mul (as_secs_f64 d) (F_Fin 1000)) (F_Fin 100))) (F_Fin 100)"

fun report_from :: "nat \<Rightarrow> nat \<Rightarrow> (string \<times> nat) list \<Rightarrow> startup_phase list" where
  "report_from start prev [] = []"
| "report_from start prev ((name, instant) # ps) =
     \<lparr> sp_name = name, sp_duration_ms = phase_ms (sat_sub instant prev),
       sp_cumulative_ms = phase_ms (sat_sub instant start) \<rparr> # report_from start instant ps"

definition timeline_report :: "startup_timeline \<Rightarrow> startup_phase list" where
  "timeline_report t = report_from (st_start t) (st_start t) (st_phases t)"

definition timeline_total_ms :: "startup_timeline \<Rightarrow> f64" where
  "timeline_total_ms t =
     (if st_phases t = [] then F_Fin 0 else phase_ms (sat_sub (snd (last (st_phases t))) (st_start t)))"

section \<open>Event bus\<close>

record captured_tauri_event =
  ce_name :: string
  ce_payload :: string
  ce_timestamp :: string

definition captured_event_new :: "string \<Rightarrow> string \<Rightarrow> string \<Rightarrow> captured_tauri_event" where
  "captured_event_new name payload ts = \<lparr> ce_name = name, ce_payload = payload, ce_timestamp = ts \<rparr>"

definition DEFAULT_EVENT_BUS_CAPACITY :: usize where "DEFAULT_EVENT_BUS_CAPACITY = 1000"
definition MAX_EVENT_PAYLOAD_BYTES :: usize where "MAX_EVENT_PAYLOAD_BYTES = 64 * 1024"
definition MAX_EVENT_BUS_BYTES :: usize where "MAX_EVENT_BUS_BYTES = 16 * 1024 * 1024"

record event_bus =
  eb_events :: "captured_tauri_event list"
  eb_payload_bytes :: usize
  eb_capacity :: usize

definition event_bus_new :: "usize \<Rightarrow> event_bus" where
  "event_bus_new capacity = \<lparr> eb_events = [], eb_payload_bytes = 0, eb_capacity = capacity \<rparr>"

definition event_bus_default :: event_bus where
  "event_bus_default = event_bus_new DEFAULT_EVENT_BUS_CAPACITY"

definition cut_payload :: "captured_tauri_event \<Rightarrow> captured_tauri_event" where
  "cut_payload event =
     (if length (ce_payload event) > MAX_EVENT_PAYLOAD_BYTES
      then let cut = char_cut (ce_payload event) MAX_EVENT_PAYLOAD_BYTES;
               dropped = length (ce_payload event) - cut
           in event\<lparr>ce_payload := take cut (ce_payload event) @
                [CHR 0xE2, CHR 0x80, CHR 0xA6] @ ''[truncated '' @ decimal dropped @ '' bytes]''\<rparr>
      else event)"

fun bus_evict :: "usize \<Rightarrow> nat \<Rightarrow> captured_tauri_event list \<Rightarrow> captured_tauri_event list \<times> nat" where
  "bus_evict capacity bytes [] = ([], bytes)"
| "bus_evict capacity bytes (e # es) =
     (if length (e # es) > capacity \<or> bytes > MAX_EVENT_BUS_BYTES
      then bus_evict capacity (sat_sub bytes (length (ce_payload e))) es
      else (e # es, bytes))"

definition bus_push :: "captured_tauri_event \<Rightarrow> event_bus \<Rightarrow> event_bus" where
  "bus_push event b =
     (let event = cut_payload event;
          (events, bytes) = bus_evict (eb_capacity b) (eb_payload_bytes b + length (ce_payload event))
                              (eb_events b @ [event])
      in b\<lparr>eb_events := events, eb_payload_bytes := bytes\<rparr>)"

definition bus_len :: "event_bus \<Rightarrow> usize" where
  "bus_len b = length (eb_events b)"

definition bus_is_empty :: "event_bus \<Rightarrow> bool" where
  "bus_is_empty b = (bus_len b = 0)"

definition bus_clear :: "event_bus \<Rightarrow> usize \<times> event_bus" where
  "bus_clear b = (length (eb_events b), b\<lparr>eb_events := [], eb_payload_bytes := 0\<rparr>)"

section \<open>Spinning pages\<close>

definition qualifies :: "f64 \<Rightarrow> (nat \<times> u64 \<times> u64 \<times> u64) list \<Rightarrow> nat \<times> u64 \<times> u64 \<times> u64 \<Rightarrow> bool" where
  "qualifies seconds before a =
     (case List.find (\<lambda>b. fst b = fst a) before of
        None \<Rightarrow> False
      | Some (_, wanted_was, on_cpu_was, slept) \<Rightarrow>
          (case a of (_, wanted, on_cpu, sleeps) \<Rightarrow>
             f64_le (f64_mul (f64_mul seconds (F_Fin 100)) (round_f64 (9 / 10)))
               (f64_of_int (int (sat_sub wanted wanted_was))) \<and>
             (f64_le (f64_of_int (int (sat_sub sleeps slept))) seconds \<or>
              f64_le (f64_mul (f64_mul seconds (F_Fin 100)) (round_f64 (6 / 10)))
                (f64_of_int (int (sat_sub on_cpu on_cpu_was))))))"

definition spinning_web_process ::
  "(nat \<times> u64 \<times> u64 \<times> u64) list \<Rightarrow> (nat \<times> u64 \<times> u64 \<times> u64) list \<Rightarrow> nat \<Rightarrow> nat option" where
  "spinning_web_process before after elapsed =
     (let seconds = as_secs_f64 elapsed
      in case filter (qualifies seconds before) after of
           [a] \<Rightarrow> Some (fst a)
         | _ \<Rightarrow> None)"

section \<open>The 95th percentile\<close>

lemma literal_095: "round_f64 (95 / 100) = F_Fin (4278419646001971 / 4503599627370496)"
proof -
  have e: "rexp (19 / 20) = -1" by code_simp
  have u: "pow2 (max (-1) (-1022) - 52) = 1 / 9007199254740992" by (simp add: pow2_def)
  have "\<lfloor>19 / 20 / (1 / 9007199254740992 :: rat)\<rfloor> = 8556839292003942" by (simp add: floor_eq_iff)
  then have "round_half_even (19 / 20 / (1 / 9007199254740992)) = 8556839292003942"
    by (simp only: round_half_even_def Let_def) simp
  then have "round_mag (19 / 20) = 4278419646001971 / 4503599627370496"
    by (simp only: round_mag_def e u Let_def)
  then show ?thesis using round_f64_small [of "19 / 20" 0] by simp
qed

text \<open>The floating-point index is the exact nearest rank, for every number of samples kept.\<close>

lemma p95_index_exact:
  assumes "0 < n" "n \<le> 1024"
  shows "p95_index n = (19 * n + 19) div 20 - 1"
proof -
  define c :: rat where "c = 4278419646001971 / 4503599627370496"
  define q where "q = of_nat n * c"
  define m where "m = (19 * n + 19) div 20"
  have c: "19 / 20 - 1 / 4503599627370496 \<le> c" "c \<le> 19 / 20" by (simp_all add: c_def)
  have n: "(1 :: rat) \<le> of_nat n" "(of_nat n :: rat) \<le> 1024"
    using assms of_nat_mono [OF assms(2), where 'a = rat] by simp_all
  have up: "q \<le> 19 / 20 * of_nat n" using c(2) n(1) by (simp add: q_def mult.commute mult_left_mono)
  have "of_nat n * (19 / 20 - 1 / 4503599627370496) \<le> q" using c(1) n(1) by (simp add: q_def mult_left_mono)
  then have lo: "19 / 20 * of_nat n - 1024 / 4503599627370496 \<le> q" using n(2) by (simp add: algebra_simps)
  have m: "19 * n \<le> 20 * m" "20 * m \<le> 19 * n + 19" "0 < m"
    using assms(1) by (simp_all add: m_def)
  have mr: "19 * (of_nat n :: rat) \<le> 20 * of_nat m" "20 * (of_nat m :: rat) \<le> 19 * of_nat n + 19"
    using of_nat_mono [OF m(1), where 'a = rat] of_nat_mono [OF m(2), where 'a = rat] by simp_all
  have q: "0 < q" "q \<le> pow2 10"
    using lo up n pow2_of_nat [of 10] by simp_all
  have "of_int (int m) * pow2 0 \<ge> round_mag q"
    by (rule round_mag_grid(2) [OF q]) (use up mr(1) in simp_all)
  then have hi: "round_mag q \<le> of_nat m" by simp
  have "of_int (32 * (int m - 1) + 1) * pow2 (-5) \<le> round_mag q"
    by (rule round_mag_grid(1) [OF q]) (use lo mr(2) in \<open>simp_all add: pow2_def field_simps\<close>)
  then have "of_int (int m - 1) < round_mag q" by (simp add: pow2_def field_simps)
  then have ceil: "\<lceil>round_mag q\<rceil> = int m" using hi by (simp add: ceiling_eq_iff)
  have "f64_mul (f64_of_int (int n)) (round_f64 (95 / 100)) = F_Fin (round_mag q)"
    using round_f64_small [OF q] f64_of_small_nat [of n] assms q(1) literal_095
    by (simp add: f64_mul_def f64_is_inf_def q_def c_def)
  moreover have "m \<le> 1024" using m(2) assms(2) by linarith
  ultimately show ?thesis
    using ceil m(3) by (simp add: p95_index_def m_def [symmetric] u64_max_def)
qed

section \<open>Accumulated timings\<close>

lemma to_ms_nonneg: "f64_ge (to_ms d) 0"
proof -
  have "f64_of_int (10 ^ 9) = F_Fin (of_nat (10 ^ 9))"
    using f64_of_small_nat [of "10 ^ 9"] by simp
  moreover have "f64_ge (f64_of_int (int n)) 0" for n
    by (simp add: f64_of_int_def round_f64_ge_0)
  ultimately have "f64_ge (as_secs_f64 d) 0"
    using f64_add_ge_0 f64_div_nonneg by (simp add: as_secs_f64_def)
  then show ?thesis by (simp add: to_ms_def f64_mul_nonneg)
qed

lemma window_sorted: "sorted_wrt f64_not_greater (sort_by f64_not_greater (map to_ms ds))"
proof (rule sort_by_sorted_on)
  have ge: "f64_ge a 0" if "a \<in> set (map to_ms ds)" for a using that to_ms_nonneg by auto
  show "f64_not_greater a b \<or> f64_not_greater b a" if "a \<in> set (map to_ms ds)" "b \<in> set (map to_ms ds)" for a b
    unfolding f64_not_greater_def by (rule f64_lt_total [OF ge ge]) (rule that)+
  show "f64_not_greater a c"
    if "a \<in> set (map to_ms ds)" "b \<in> set (map to_ms ds)" "c \<in> set (map to_ms ds)"
      "f64_not_greater a b" "f64_not_greater b c" for a b c
    using f64_lt_trans [OF ge [OF that(1)] ge [OF that(2)] ge [OF that(3)]] that(4,5)
    by (simp add: f64_not_greater_def)
qed

lemma recorded_recent:
  "tsm_recent (fold samples_record ds timing_samples_default) = take_last MAX_TIMING_SAMPLES ds"
proof (induction ds rule: rev_induct)
  case (snoc d ds)
  have pos: "0 < MAX_TIMING_SAMPLES" by (simp add: MAX_TIMING_SAMPLES_def)
  have "length (take_last MAX_TIMING_SAMPLES ds) = MAX_TIMING_SAMPLES \<longleftrightarrow> MAX_TIMING_SAMPLES \<le> length ds"
    by (auto simp: min_def)
  then show ?case using snoc take_last_push [OF pos, of ds d] by (auto simp: samples_record_def Let_def)
qed (simp add: timing_samples_default_def)

lemma recorded_totals:
  "tsm_count (fold samples_record ds timing_samples_default) = length ds \<and>
   tsm_total (fold samples_record ds timing_samples_default) = min (sum_list ds) DURATION_MAX"
  by (induction ds rule: rev_induct)
    (simp_all add: samples_record_def timing_samples_default_def duration_saturating_add_def Let_def)

lemma recorded_extremes:
  "tsm_min (fold samples_record ds timing_samples_default) = (if ds = [] then None else Some (Min (set ds))) \<and>
   tsm_max (fold samples_record ds timing_samples_default) = (if ds = [] then None else Some (Max (set ds)))"
proof (induction ds rule: rev_induct)
  case (snoc d ds)
  then show ?case
    by (cases "ds = []") (simp_all add: samples_record_def Let_def min.commute max.commute)
qed (simp add: timing_samples_default_def)

section \<open>The event bus\<close>

definition payload_bytes :: "captured_tauri_event list \<Rightarrow> nat" where
  "payload_bytes es = sum_list (map (\<lambda>e. length (ce_payload e)) es)"

definition bus_fits :: "usize \<Rightarrow> captured_tauri_event list \<Rightarrow> bool" where
  "bus_fits capacity es \<longleftrightarrow> length es \<le> capacity \<and> payload_bytes es \<le> MAX_EVENT_BUS_BYTES"

lemma bus_evict_longest_keep:
  "bus_evict capacity (payload_bytes es) es =
     (longest_keep (bus_fits capacity) es, payload_bytes (longest_keep (bus_fits capacity) es))"
  by (induction es) (auto simp: payload_bytes_def bus_fits_def not_less)

lemma bus_push_events:
  assumes "eb_payload_bytes b = payload_bytes (eb_events b)"
  shows "eb_events (bus_push e b) = longest_keep (bus_fits (eb_capacity b)) (eb_events b @ [cut_payload e]) \<and>
    eb_payload_bytes (bus_push e b) = payload_bytes (eb_events (bus_push e b)) \<and>
    eb_capacity (bus_push e b) = eb_capacity b"
proof -
  have "eb_payload_bytes b + length (ce_payload (cut_payload e)) = payload_bytes (eb_events b @ [cut_payload e])"
    using assms by (simp add: payload_bytes_def)
  then show ?thesis
    using bus_evict_longest_keep [of "eb_capacity b" "eb_events b @ [cut_payload e]"]
    by (simp add: bus_push_def Let_def)
qed

definition bus_inv :: "event_bus \<Rightarrow> bool" where
  "bus_inv b = (eb_payload_bytes b = payload_bytes (eb_events b))"

interpretation bus: budget_log bus_inv eb_events "\<lambda>b. bus_fits (eb_capacity b)" "\<lambda>b. cut_payload" bus_push
  by unfold_locales (auto simp: bus_inv_def bus_push_events bus_fits_def payload_bytes_def)

text \<open>Any sequence of events captured and of clears.\<close>

datatype bus_op = BusPush captured_tauri_event | BusClear

fun bus_apply :: "bus_op \<Rightarrow> event_bus \<Rightarrow> event_bus" where
  "bus_apply (BusPush e) b = bus_push e b"
| "bus_apply BusClear b = snd (bus_clear b)"

fun since_clear :: "bus_op \<Rightarrow> captured_tauri_event list \<Rightarrow> captured_tauri_event list" where
  "since_clear (BusPush e) es = es @ [cut_payload e]"
| "since_clear BusClear es = []"

lemma bus_history:
  "eb_events (fold bus_apply ops (event_bus_new c)) = longest_keep (bus_fits c) (fold since_clear ops []) \<and>
   bus_inv (fold bus_apply ops (event_bus_new c)) \<and> eb_capacity (fold bus_apply ops (event_bus_new c)) = c"
proof (induction ops rule: rev_induct)
  case (snoc op ops)
  show ?case
  proof (cases op)
    case (BusPush e)
    then show ?thesis
      using snoc bus.push_history [of "fold bus_apply ops (event_bus_new c)" "fold since_clear ops []" e]
        bus.inv_push bus_push_events [of "fold bus_apply ops (event_bus_new c)" e]
      by (simp add: bus_inv_def)
  next
    case BusClear
    then show ?thesis using snoc by (simp add: bus_clear_def payload_bytes_def bus_inv_def)
  qed
qed (simp add: event_bus_new_def payload_bytes_def bus_inv_def)

section \<open>Theorems\<close>

text \<open>
  Timing statistics are exact over the full history where they claim to be: after recording any
  non-empty sequence of durations, the count, total (saturating), minimum and maximum are those of
  all of them, and the 95th percentile is the nearest-rank value (rank \<open>\<lceil>0.95 n\<rceil>\<close>, despite the
  floating-point computation of the index) of the sorted window of the newest 1024.
\<close>

theorem timing_stats_exact:
  assumes "ds \<noteq> []"
  shows "let s = samples_stats (fold samples_record ds timing_samples_default) cmd;
             n = min 1024 (length ds);
             window = sort_by f64_not_greater (map to_ms (take_last 1024 ds))
         in cs_count s = length ds \<and>
            cs_total_ms s = round2 (to_ms (min (sum_list ds) DURATION_MAX)) \<and>
            cs_min_ms s = round2 (to_ms (Min (set ds))) \<and> cs_max_ms s = round2 (to_ms (Max (set ds))) \<and>
            sorted_wrt f64_not_greater window \<and> mset window = mset (map to_ms (take_last 1024 ds)) \<and>
            cs_p95_ms s = round2 (window ! ((19 * n + 19) div 20 - 1))"
proof -
  define window where "window = sort_by f64_not_greater (map to_ms (take_last 1024 ds))"
  define n where "n = min 1024 (length ds)"
  have n: "0 < n" "n \<le> 1024" using assms by (auto simp: n_def)
  have len: "length window = n"
    using arg_cong [OF sort_by_mset [of f64_not_greater "map to_ms (take_last 1024 ds)"], of size]
    by (simp add: window_def n_def)
  have "(19 * n + 19) div 20 - 1 \<le> n - 1" using n by simp
  then have "p95_of window = window ! ((19 * n + 19) div 20 - 1)"
    using n len p95_index_exact [OF n] by (auto simp: p95_of_def min_def)
  then have p95: "p95_of (sort_by f64_not_greater (map to_ms (take_last 1024 ds))) = window ! ((19 * n + 19) div 20 - 1)"
    by (simp add: window_def)
  have stats: "samples_stats (fold samples_record ds timing_samples_default) cmd =
    \<lparr> cs_command = cmd, cs_count = length ds, cs_min_ms = round2 (to_ms (Min (set ds))),
      cs_max_ms = round2 (to_ms (Max (set ds))),
      cs_avg_ms = round2 (f64_div (to_ms (min (sum_list ds) DURATION_MAX)) (f64_of_int (int (length ds)))),
      cs_p95_ms = round2 (window ! ((19 * n + 19) div 20 - 1)),
      cs_total_ms = round2 (to_ms (min (sum_list ds) DURATION_MAX)) \<rparr>"
    using assms p95
    by (simp add: samples_stats_def recorded_recent recorded_totals recorded_extremes MAX_TIMING_SAMPLES_def Let_def)
  show ?thesis
    unfolding stats Let_def n_def [symmetric] window_def [symmetric]
    using window_sorted [of "take_last 1024 ds"] sort_by_mset [of f64_not_greater "map to_ms (take_last 1024 ds)"]
    by (simp add: window_def)
qed

theorem timing_stats_exact_witness:
  "cs_count (samples_stats (fold samples_record [3000000, 1000000] timing_samples_default) ''save'') = 2"
  using timing_stats_exact [of "[3000000, 1000000]" "''save''"] by (simp add: Let_def)

text \<open>
  The event-bus monitor holds exactly the newest events that fit: after any sequence of captured
  events and clears, it holds the longest run of newest events since the last clear (each payload cut
  to its limit) within both the capacity and 16 MiB of payload, and its byte counter is exact.
\<close>

theorem event_bus_keeps_newest:
  "let b = fold bus_apply ops (event_bus_new c); all = fold since_clear ops []
   in suffix (eb_events b) all \<and> length (eb_events b) \<le> c \<and>
      eb_payload_bytes b = payload_bytes (eb_events b) \<and> eb_payload_bytes b \<le> MAX_EVENT_BUS_BYTES \<and>
      (\<forall>ys. suffix ys all \<and> length ys \<le> c \<and> payload_bytes ys \<le> MAX_EVENT_BUS_BYTES \<longrightarrow>
            length ys \<le> length (eb_events b))"
proof -
  have "suffix (longest_keep (bus_fits c) all) all \<and> length (longest_keep (bus_fits c) all) \<le> c \<and>
    payload_bytes (longest_keep (bus_fits c) all) \<le> MAX_EVENT_BUS_BYTES \<and>
    (\<forall>ys. suffix ys all \<and> length ys \<le> c \<and> payload_bytes ys \<le> MAX_EVENT_BUS_BYTES \<longrightarrow>
       length ys \<le> length (longest_keep (bus_fits c) all))" for all
    using longest_keep_suffix [of "bus_fits c" all] longest_keep_ok [of "bus_fits c" all] longest_keep_longest [of _ all "bus_fits c"]
    by (auto simp: bus_fits_def payload_bytes_def)
  then show ?thesis using bus_history [of ops c] by (simp add: Let_def bus_inv_def)
qed

theorem event_bus_keeps_newest_witness:
  "length (eb_events (fold bus_apply [BusPush (captured_event_new ''a'' ''xy'' ''t''),
      BusPush (captured_event_new ''b'' ''z'' ''u'')] (event_bus_new 1))) \<ge> 1"
proof -
  let ?e = "captured_event_new ''b'' ''z'' ''u''"
  let ?ops = "[BusPush (captured_event_new ''a'' ''xy'' ''t''), BusPush ?e]"
  have "cut_payload ?e = ?e"
    by (simp add: cut_payload_def captured_event_new_def MAX_EVENT_PAYLOAD_BYTES_def)
  then have "suffix [?e] (fold since_clear ?ops [])" by (simp add: suffix_def)
  moreover have "payload_bytes [?e] \<le> MAX_EVENT_BUS_BYTES"
    by (simp add: payload_bytes_def captured_event_new_def MAX_EVENT_BUS_BYTES_def)
  ultimately show ?thesis using event_bus_keeps_newest [of ?ops 1] unfolding Let_def by fastforce
qed

end
