(* ===== verification/Sql_Scan.thy ===== *)
theory Sql_Scan
  imports Collections
begin

text \<open>
  The statement guard of \<^verbatim>\<open>query_db\<close> (\<^verbatim>\<open>victauri-plugin/src/database.rs\<close>): the quote- and
  comment-aware scan of agent-supplied SQL and the checks that run on its result before a database is
  opened.  The scan is compared with a reference reading of SQL text as a sequence of spans (code,
  comments, parameters, quoted spans).  Text is UTF-8 bytes: an ASCII character is one byte, and
  U+FEFF is the byte sequence EF BB BF.  \<^verbatim>\<open>str::to_lowercase\<close> and \<^verbatim>\<open>char::is_alphanumeric\<close> need the
  Unicode tables and are arguments.
\<close>

section \<open>The scan\<close>

definition is_sqlite_id_char :: "char \<Rightarrow> bool" where
  "is_sqlite_id_char c =
     (is_ascii_alphanumeric c \<or> c = CHR ''_'' \<or> c = CHR ''$'' \<or> of_char c \<ge> (128 :: nat))"

definition is_sqlite_space :: "char \<Rightarrow> bool" where
  "is_sqlite_space c = (c \<in> {CHR 0x20, CHR 0x09, CHR 0x0A, CHR 0x0B, CHR 0x0C, CHR 0x0D})"

fun parameter_name_follows :: "string \<Rightarrow> bool" where
  "parameter_name_follows [] = False"
| "parameter_name_follows (c # rest) =
     (if is_sqlite_id_char c then True
      else if c \<noteq> CHR '':'' then False
      else (case rest of
              [] \<Rightarrow> False
            | d # rest' \<Rightarrow> if d \<noteq> CHR '':'' then False else parameter_name_follows rest'))"

record sql_scan =
  ss_cleaned :: string
  ss_masked :: string

definition emit :: "string \<Rightarrow> string \<Rightarrow> sql_scan \<Rightarrow> sql_scan" where
  "emit c m s = \<lparr> ss_cleaned = c @ ss_cleaned s, ss_masked = m @ ss_masked s \<rparr>"

text \<open>One \<^verbatim>\<open>_\<close> per character: nothing for the continuation bytes of a multi-byte one.\<close>

definition mask_byte :: "char \<Rightarrow> string" where
  "mask_byte n = (if is_continuation_byte n then [] else ''_'')"

text \<open>
  The inner loops, each with the text it consumes and the rest: the name of a parameter (identifier
  characters and \<^verbatim>\<open>::\<close>), its Tcl-style suffix up to \<^verbatim>\<open>)\<close> or a space, the rest of a line comment, of a
  block comment, of a quoted span (what it pushes to both outputs, and the rest).
\<close>

fun parameter_name :: "string \<Rightarrow> string \<times> string" where
  "parameter_name [] = ([], [])"
| "parameter_name (n # rest) =
     (if is_sqlite_id_char n then (let (w, r) = parameter_name rest in (n # w, r))
      else (case rest of
              [] \<Rightarrow> ([], n # rest)
            | d # rest' \<Rightarrow>
                if n = CHR '':'' \<and> d = CHR '':'' then (let (w, r) = parameter_name rest' in (n # n # w, r))
                else ([], n # rest)))"

fun parameter_suffix :: "string \<Rightarrow> string \<times> string" where
  "parameter_suffix [] = ([], [])"
| "parameter_suffix (n # rest) =
     (if is_sqlite_space n then ([], n # rest)
      else if n = CHR '')'' then ([n], rest)
      else (let (w, r) = parameter_suffix rest in (n # w, r)))"

definition mask_suffix :: "string \<Rightarrow> string" where
  "mask_suffix w = concat (map (\<lambda>n. if n = CHR ''('' \<or> n = CHR '')'' then [n] else mask_byte n) w)"

definition skip_line :: "string \<Rightarrow> string" where
  "skip_line s = tl (dropWhile (\<lambda>n. n \<noteq> CHR 0x0A) s)"

fun skip_block :: "char \<Rightarrow> string \<Rightarrow> string" where
  "skip_block prev [] = []"
| "skip_block prev (n # rest) =
     (if prev = CHR ''*'' \<and> n = CHR ''/'' then rest else skip_block n rest)"

fun take_quoted :: "char \<Rightarrow> bool \<Rightarrow> string \<Rightarrow> string \<times> string \<times> string" where
  "take_quoted close doubled [] = ([], [], [])"
| "take_quoted close doubled (n # rest) =
     (if n = close then
        (case rest of
           [] \<Rightarrow> ([n], [n], rest)
         | d # rest' \<Rightarrow>
             if doubled \<and> d = close
             then (let (c, m, r) = take_quoted close doubled rest' in (n # n # c, ''__'' @ m, r))
             else ([n], [n], rest))
      else (let (c, m, r) = take_quoted close doubled rest in (n # c, mask_byte n @ m, r)))"

definition quote_chars :: "char list" where
  "quote_chars = [CHR 0x27, CHR 0x22, CHR 0x60, CHR ''['']"

definition closing :: "char \<Rightarrow> char" where
  "closing c = (if c = CHR ''['' then CHR '']'' else c)"

lemma parameter_name_rest: "length (snd (parameter_name s)) \<le> length s"
  by (induction s rule: parameter_name.induct) (simp_all add: Let_def case_prod_beta le_SucI split: list.split)

lemma parameter_suffix_rest: "length (snd (parameter_suffix s)) \<le> length s"
  by (induction s rule: parameter_suffix.induct) (simp_all add: Let_def case_prod_beta le_SucI)

lemma skip_line_rest: "length (skip_line s) \<le> length s"
  using length_dropWhile_le [of "\<lambda>n. n \<noteq> CHR 0x0A" s] unfolding skip_line_def length_tl by linarith

lemma skip_block_rest: "length (skip_block p s) \<le> length s"
  by (induction p s rule: skip_block.induct) auto

lemma take_quoted_rest: "length (snd (snd (take_quoted q d s))) \<le> length s"
  by (induction q d s rule: take_quoted.induct) (simp_all add: Let_def case_prod_beta le_SucI split: list.split)

lemmas scan_rests = parameter_name_rest parameter_suffix_rest skip_line_rest skip_block_rest take_quoted_rest

text \<open>
  The loop of \<^verbatim>\<open>scan_sql\<close>; the flag is \<^verbatim>\<open>after_word\<close>, whether the character before belongs to a bare
  name or number.
\<close>

function scan_from :: "bool \<Rightarrow> string \<Rightarrow> sql_scan" where
  "scan_from after_word [] = \<lparr> ss_cleaned = [], ss_masked = [] \<rparr>"
| "scan_from after_word (c # rest) =
     (if c = CHR 0xEF \<and> prefix [CHR 0xBB, CHR 0xBF] rest \<and> \<not> after_word then
        emit '' '' '' '' (scan_from False (drop 2 rest))
      else if c \<in> set ''$:@#'' \<and> \<not> (c = CHR ''$'' \<and> after_word) \<and> parameter_name_follows rest then
        (let nr = parameter_name rest;
             sr = (if prefix ''('' (snd nr) then parameter_suffix (snd nr) else ([], snd nr))
         in emit (c # fst nr @ fst sr) (c # fst nr @ mask_suffix (fst sr)) (scan_from False (snd sr)))
      else if c = CHR ''-'' \<and> prefix ''-'' rest then
        emit [CHR 0x20, CHR 0x0A] [CHR 0x20, CHR 0x0A] (scan_from False (skip_line rest))
      else if c = CHR ''/'' \<and> prefix ''*'' rest then
        emit '' '' '' '' (scan_from False (skip_block (CHR 0x00) (tl rest)))
      else if c \<in> set quote_chars then
        (let q = take_quoted (closing c) (c \<noteq> CHR ''['') rest
         in emit (c # fst q) (c # fst (snd q)) (scan_from False (snd (snd q))))
      else emit [c] [c] (scan_from (is_sqlite_id_char c) rest))"
  by pat_completeness auto
termination
proof (relation "measure (length \<circ> snd)", goal_cases)
  case (2 after_word c rest)
  then show ?case by simp
next
  case (3 after_word c rest nr sr)
  have "length (snd sr) \<le> length (snd nr)"
    using 3(4) parameter_suffix_rest [of "snd nr"] by (simp split: if_splits)
  also have "length (snd nr) \<le> length rest" using 3(3) by (simp add: parameter_name_rest)
  finally show ?case by simp
next
  case (5 after_word c rest)
  then show ?case using skip_block_rest [of "CHR 0x00" "tl rest"] by simp
qed (simp_all add: scan_rests le_imp_less_Suc)

definition scan_sql :: "string \<Rightarrow> sql_scan" where
  "scan_sql sql = scan_from False sql"

declare scan_from.simps(2) [simp del]

section \<open>The checks\<close>

text \<open>What the standard library takes from the Unicode tables: lower case, and alphanumeric characters.\<close>

record unicode =
  uc_lowercase :: "string \<Rightarrow> string"
  uc_alphanumeric :: "string \<Rightarrow> bool"

definition trim_start :: "string \<Rightarrow> string" where
  "trim_start s = strip_words white_space s"

definition strip_sql_comments :: "string \<Rightarrow> string" where
  "strip_sql_comments sql = ss_cleaned (scan_sql sql)"

definition statement_count :: "string \<Rightarrow> usize" where
  "statement_count sql =
     length (filter (\<lambda>s. str_trim s \<noteq> []) (split_on (\<lambda>c. c = CHR '';'') (ss_masked (scan_sql sql))))"

definition READ_ONLY_PREFIXES :: "string list" where
  "READ_ONLY_PREFIXES = [''select'', ''pragma'', ''explain'', ''with'']"

definition is_read_only :: "unicode \<Rightarrow> string \<Rightarrow> bool" where
  "is_read_only uc sql =
     (let trimmed = uc_lowercase uc (trim_start (strip_sql_comments sql))
      in if trimmed = [] then False
         else list_ex (\<lambda>p. prefix p trimmed) READ_ONLY_PREFIXES)"

definition is_pragma_write :: "unicode \<Rightarrow> string \<Rightarrow> bool" where
  "is_pragma_write uc sql =
     (let trimmed = trim_start (ss_masked (scan_sql sql))
      in prefix ''pragma'' (uc_lowercase uc trimmed) \<and> CHR ''='' \<in> set trimmed)"

definition SAFE_PRAGMAS :: "string list" where
  "SAFE_PRAGMAS =
     [''table_info'', ''table_xinfo'', ''table_list'', ''index_list'', ''index_info'', ''index_xinfo'',
      ''foreign_key_list'', ''foreign_key_check'', ''collation_list'', ''database_list'', ''compile_options'',
      ''function_list'', ''module_list'', ''pragma_list'', ''journal_mode'', ''journal_size_limit'',
      ''page_count'', ''page_size'', ''max_page_count'', ''schema_version'', ''user_version'',
      ''application_id'', ''data_version'', ''freelist_count'', ''cache_size'', ''encoding'', ''auto_vacuum'',
      ''busy_timeout'', ''wal_autocheckpoint'', ''legacy_file_format'', ''locking_mode'', ''secure_delete'',
      ''synchronous'', ''temp_store'', ''mmap_size'', ''cache_spill'', ''cell_size_check'', ''integrity_check'',
      ''quick_check'', ''stats'']"

text \<open>\<^verbatim>\<open>chars()\<close>: a lead byte with its continuation bytes.\<close>

fun str_chars :: "string \<Rightarrow> string list" where
  "str_chars [] = []"
| "str_chars (c # s) =
     (case str_chars s of
        (d # ds) # rest \<Rightarrow> if is_continuation_byte d then (c # d # ds) # rest else [c] # (d # ds) # rest
      | _ \<Rightarrow> [[c]])"

definition is_name_char :: "unicode \<Rightarrow> string \<Rightarrow> bool" where
  "is_name_char uc c = (uc_alphanumeric uc c \<or> c = ''_'')"

definition pragma_name :: "unicode \<Rightarrow> string \<Rightarrow> string option" where
  "pragma_name uc sql =
     (case strip_prefix ''pragma'' (uc_lowercase uc (trim_start (strip_sql_comments sql))) of
        None \<Rightarrow> None
      | Some r \<Rightarrow>
          (let normalized = filter (\<lambda>c. c \<notin> {CHR 0x22, CHR 0x60, CHR ''['', CHR '']''}) (trim_start r);
               rest = trim_start normalized;
               after_schema = (case split_once (CHR ''.'') rest of
                   Some (maybe_schema, tail) \<Rightarrow>
                     if maybe_schema \<noteq> [] \<and> list_all (is_name_char uc) (str_chars maybe_schema) then tail else rest
                 | None \<Rightarrow> rest);
               name = concat (takeWhile (is_name_char uc) (str_chars (trim_start after_schema)))
           in if name = [] then None else Some name))"

definition is_disallowed_pragma :: "unicode \<Rightarrow> string \<Rightarrow> bool" where
  "is_disallowed_pragma uc sql =
     (if \<not> prefix ''pragma'' (uc_lowercase uc (trim_start (strip_sql_comments sql))) then False
      else (case pragma_name uc sql of
              Some name \<Rightarrow> name \<notin> set SAFE_PRAGMAS
            | None \<Rightarrow> True))"

definition depth_step :: "char \<Rightarrow> usize \<times> usize \<Rightarrow> usize \<times> usize" where
  "depth_step b d =
     (if b = CHR ''('' then (fst d + 1, max (snd d) (fst d + 1))
      else if b = CHR '')'' then (sat_sub (fst d) 1, snd d)
      else d)"

definition sql_nesting :: "string \<Rightarrow> usize \<times> usize" where
  "sql_nesting sql =
     (let masked = map to_ascii_lower (ss_masked (scan_sql sql));
          (depth, deepest) = fold depth_step masked (0, 0);
          selects = length (filter (\<lambda>w. w = ''select'') (split_on (\<lambda>c. \<not> is_sqlite_id_char c) masked))
      in (deepest, selects))"

definition MAX_SQL_NESTING :: usize where
  "MAX_SQL_NESTING = 256"

definition MAX_SQL_SELECTS :: usize where
  "MAX_SQL_SELECTS = 2000"

definition MAX_QUERY_SQL_BYTES :: usize where
  "MAX_QUERY_SQL_BYTES = 1000000"

definition validate_query :: "unicode \<Rightarrow> string \<Rightarrow> string + unit" where
  "validate_query uc sql =
     (if length sql > MAX_QUERY_SQL_BYTES
      then Inl (''query exceeds maximum length ('' @ decimal MAX_QUERY_SQL_BYTES @ '' bytes)'')
      else if \<not> is_read_only uc sql
      then Inl ''only SELECT, PRAGMA, EXPLAIN, and WITH queries are allowed (read-only access)''
      else if is_pragma_write uc sql
      then Inl ''PRAGMA writes (PRAGMA name = value) are not allowed (read-only access)''
      else if is_disallowed_pragma uc sql
      then Inl (''only read-only introspection PRAGMAs are allowed (e.g. table_info, '' @
                ''integrity_check, page_count); side-effecting PRAGMAs such as '' @
                ''wal_checkpoint/optimize/incremental_vacuum are blocked'')
      else (let (nesting, selects) = sql_nesting sql
            in if nesting > MAX_SQL_NESTING
               then Inl (''query nests '' @ decimal nesting @ '' levels deep (the limit is '' @
                         decimal MAX_SQL_NESTING @ '')'')
               else if selects > MAX_SQL_SELECTS
               then Inl (''query nests '' @ decimal selects @ '' SELECTs (the limit is '' @
                         decimal MAX_SQL_SELECTS @ '')'')
               else if statement_count sql > 1
               then Inl ''stacked queries (multiple statements separated by ;) are not allowed''
               else Inr ()))"

text \<open>\<^verbatim>\<open>name.replace('"', "\"\"")\<close> between double quotes.\<close>

definition quote_sqlite_identifier :: "string \<Rightarrow> string" where
  "quote_sqlite_identifier name =
     [CHR 0x22] @ concat (map (\<lambda>c. if c = CHR 0x22 then [CHR 0x22, CHR 0x22] else [c]) name) @ [CHR 0x22]"

section \<open>The reference reading\<close>

text \<open>
  SQL text as SQLite's tokenizer divides it, as far as the guard depends on it: single bytes of code,
  byte-order marks, comments, named parameters (sigil, name, Tcl-style suffix) and quoted spans (the
  content as written, that is with its doubled quotes).  A comment or quoted span at the end of the text
  may be open.
\<close>

datatype span =
    Code char
  | Mark
  | LineComment string bool
  | BlockComment string bool
  | Parameter char string string
  | Quoted char string bool

fun span_text :: "span \<Rightarrow> string" where
  "span_text (Code c) = [c]"
| "span_text Mark = [CHR 0xEF, CHR 0xBB, CHR 0xBF]"
| "span_text (LineComment s closed) = ''--'' @ s @ (if closed then [CHR 0x0A] else [])"
| "span_text (BlockComment s closed) = ''/*'' @ s @ (if closed then ''*/'' else [])"
| "span_text (Parameter c name suf) = c # name @ suf"
| "span_text (Quoted q s closed) = q # s @ (if closed then [closing q] else [])"

text \<open>What the two texts hold of a span.\<close>

fun span_cleaned :: "span \<Rightarrow> string" where
  "span_cleaned Mark = '' ''"
| "span_cleaned (LineComment s closed) = [CHR 0x20, CHR 0x0A]"
| "span_cleaned (BlockComment s closed) = '' ''"
| "span_cleaned s = span_text s"

fun span_masked :: "span \<Rightarrow> string" where
  "span_masked (Parameter c name suf) = c # name @ mask_suffix suf"
| "span_masked (Quoted q s closed) = q # concat (map mask_byte s) @ (if closed then [closing q] else [])"
| "span_masked s = span_cleaned s"

definition spans_text :: "span list \<Rightarrow> string" where
  "spans_text ss = concat (map span_text ss)"

text \<open>
  When a span is what the tokenizer reads, given whether a word ends before it and the text after it.
\<close>

definition names_parameter :: "string \<Rightarrow> bool" where
  "names_parameter rest = (\<exists>n d t. rest = concat (replicate n ''::'') @ d # t \<and> is_sqlite_id_char d)"

definition is_parameter :: "bool \<Rightarrow> char \<Rightarrow> string \<Rightarrow> bool" where
  "is_parameter after_word c rest =
     (c \<in> set ''$:@#'' \<and> \<not> (c = CHR ''$'' \<and> after_word) \<and> names_parameter rest)"

inductive parameter_text :: "string \<Rightarrow> bool" where
  "parameter_text []"
| "is_sqlite_id_char c \<Longrightarrow> parameter_text s \<Longrightarrow> parameter_text (c # s)"
| "parameter_text s \<Longrightarrow> parameter_text (CHR '':'' # CHR '':'' # s)"

definition parameter_goes_on :: "string \<Rightarrow> bool" where
  "parameter_goes_on r = ((r \<noteq> [] \<and> is_sqlite_id_char (hd r)) \<or> prefix ''::'' r)"

definition closes_doubled :: "char \<Rightarrow> string \<Rightarrow> bool" where
  "closes_doubled q s = (if q = CHR ''['' then CHR '']'' \<notin> set s
     else (\<exists>t. s = concat (map (\<lambda>c. if c = q then [q, q] else [c]) t)))"

fun reads_as :: "bool \<Rightarrow> span \<Rightarrow> string \<Rightarrow> bool" where
  "reads_as w (Code c) r \<longleftrightarrow>
     \<not> (c = CHR 0xEF \<and> prefix [CHR 0xBB, CHR 0xBF] r \<and> \<not> w) \<and> \<not> is_parameter w c r \<and>
     \<not> prefix ''--'' (c # r) \<and> \<not> prefix ''/*'' (c # r) \<and> c \<notin> set quote_chars"
| "reads_as w Mark r \<longleftrightarrow> \<not> w"
| "reads_as w (LineComment s closed) r \<longleftrightarrow> CHR 0x0A \<notin> set s \<and> (closed \<or> r = [])"
| "reads_as w (BlockComment s closed) r \<longleftrightarrow> \<not> contains_str s ''*/'' \<and> (closed \<or> r = [])"
| "reads_as w (Parameter c name suf) r \<longleftrightarrow>
     is_parameter w c name \<and> parameter_text name \<and> \<not> parameter_goes_on (suf @ r) \<and>
     (if suf = [] then \<not> prefix ''('' r
      else (\<exists>s. CHR '')'' \<notin> set s \<and> list_all (\<lambda>d. \<not> is_sqlite_space d) s \<and> prefix ''('' s \<and>
             (suf = s @ '')'' \<or> suf = s \<and> (r = [] \<or> is_sqlite_space (hd r)))))"
| "reads_as w (Quoted q s closed) r \<longleftrightarrow>
     q \<in> set quote_chars \<and> closes_doubled q s \<and> (if closed then \<not> (q \<noteq> CHR ''['' \<and> prefix [q] r) else r = [])"

fun word_after :: "span \<Rightarrow> bool" where
  "word_after (Code c) = is_sqlite_id_char c"
| "word_after _ = False"

fun lexes :: "bool \<Rightarrow> span list \<Rightarrow> bool" where
  "lexes w [] = True"
| "lexes w (s # ss) = (reads_as w s (spans_text ss) \<and> lexes (word_after s) ss)"

section \<open>The scan is the reference reading\<close>

lemma ascii_not_id [simp]: "\<not> is_sqlite_id_char (CHR '':'')" "\<not> is_sqlite_id_char (CHR ''('')"
  by code_simp+

lemma parameter_name_follows_iff: "parameter_name_follows s \<longleftrightarrow> names_parameter s"
proof (induction s rule: parameter_name_follows.induct)
  case 1
  then show ?case by (simp add: names_parameter_def)
next
  case (2 c rest)
  have step: "names_parameter (c # rest) \<longleftrightarrow>
      is_sqlite_id_char c \<or> (c = CHR '':'' \<and> (\<exists>r. rest = CHR '':'' # r \<and> names_parameter r))"
  proof
    assume "names_parameter (c # rest)"
    then obtain n d t where s: "c # rest = concat (replicate n ''::'') @ d # t" "is_sqlite_id_char d"
      by (auto simp: names_parameter_def)
    then show "is_sqlite_id_char c \<or> (c = CHR '':'' \<and> (\<exists>r. rest = CHR '':'' # r \<and> names_parameter r))"
      by (cases n) (auto simp: names_parameter_def)
  next
    assume "is_sqlite_id_char c \<or> (c = CHR '':'' \<and> (\<exists>r. rest = CHR '':'' # r \<and> names_parameter r))"
    then show "names_parameter (c # rest)"
    proof
      assume "is_sqlite_id_char c"
      then have "c # rest = concat (replicate 0 ''::'') @ c # rest \<and> is_sqlite_id_char c" by simp
      then show ?thesis unfolding names_parameter_def by blast
    next
      assume "c = CHR '':'' \<and> (\<exists>r. rest = CHR '':'' # r \<and> names_parameter r)"
      then obtain n d t where "c # rest = concat (replicate (Suc n) ''::'') @ d # t" "is_sqlite_id_char d"
        by (auto simp: names_parameter_def)
      then show ?thesis unfolding names_parameter_def by blast
    qed
  qed
  show ?case
  proof (cases rest)
    case Nil
    then show ?thesis using step by simp
  next
    case (Cons d r)
    have "parameter_name_follows r \<longleftrightarrow> names_parameter r" if "\<not> is_sqlite_id_char c" "c = CHR '':''" "d = CHR '':''"
      using 2 [of d r] that Cons by simp
    then show ?thesis using step Cons by auto
  qed
qed

lemma parameter_goes_on_simps [simp]:
  "\<not> parameter_goes_on []"
  "parameter_goes_on (c # r) \<longleftrightarrow> is_sqlite_id_char c \<or> (c = CHR '':'' \<and> prefix '':'' r)"
  by (auto simp: parameter_goes_on_def)

lemma parameter_name_stop: "\<not> parameter_goes_on r \<Longrightarrow> parameter_name r = ([], r)"
  by (cases r rule: parameter_name.cases) (auto split: list.split)

lemma parameter_name_eq: "parameter_text s \<Longrightarrow> \<not> parameter_goes_on r \<Longrightarrow> parameter_name (s @ r) = (s, r)"
  by (induction rule: parameter_text.induct) (simp_all add: parameter_name_stop)

lemma parameter_name_splits:
  "s = fst (parameter_name s) @ snd (parameter_name s) \<and> parameter_text (fst (parameter_name s)) \<and>
   \<not> parameter_goes_on (snd (parameter_name s))"
proof (induction s rule: parameter_name.induct)
  case 1
  then show ?case by (simp add: parameter_text.intros)
next
  case (2 n rest)
  show ?case
  proof (cases "is_sqlite_id_char n")
    case True
    then show ?thesis using 2(1) [OF True] by (simp add: Let_def case_prod_beta parameter_text.intros(2))
  next
    case no_id: False
    show ?thesis
    proof (cases "n = CHR '':'' \<and> prefix '':'' rest")
      case True
      then obtain r where r: "rest = CHR '':'' # r" by (auto simp: prefix_def)
      then show ?thesis using 2(2) [OF no_id r] True
        by (simp add: Let_def case_prod_beta parameter_text.intros(3))
    next
      case False
      then have "parameter_name (n # rest) = ([], n # rest)"
        using no_id by (intro parameter_name_stop) simp
      then show ?thesis using no_id False by (simp add: parameter_text.intros(1))
    qed
  qed
qed

lemma parameter_suffix_splits:
  obtains s where "CHR '')'' \<notin> set s" "list_all (\<lambda>d. \<not> is_sqlite_space d) s"
    "fst (parameter_suffix x) = s @ '')'' \<or>
     fst (parameter_suffix x) = s \<and> (snd (parameter_suffix x) = [] \<or> is_sqlite_space (hd (snd (parameter_suffix x))))"
    "x = fst (parameter_suffix x) @ snd (parameter_suffix x)"
proof (induction x arbitrary: thesis rule: parameter_suffix.induct)
  case 1
  then show ?case by simp
next
  case (2 n rest)
  consider "is_sqlite_space n" | "\<not> is_sqlite_space n" "n = CHR '')''" | "\<not> is_sqlite_space n" "n \<noteq> CHR '')''"
    by blast
  then show ?case
  proof cases
    case 1
    then show ?thesis by (intro 2(2) [of "[]"]) simp_all
  next
    case 2: 2
    then show ?thesis by (intro "2.prems" [of "[]"]) simp_all
  next
    case 3
    obtain s where "CHR '')'' \<notin> set s" "list_all (\<lambda>d. \<not> is_sqlite_space d) s"
      "fst (parameter_suffix rest) = s @ '')'' \<or>
       fst (parameter_suffix rest) = s \<and> (snd (parameter_suffix rest) = [] \<or> is_sqlite_space (hd (snd (parameter_suffix rest))))"
      "rest = fst (parameter_suffix rest) @ snd (parameter_suffix rest)"
      using 2(1) [OF 3] by blast
    then show ?thesis using 3 by (intro "2.prems" [of "n # s"]) (simp_all add: Let_def case_prod_beta)
  qed
qed

lemma parameter_suffix_closed:
  "CHR '')'' \<notin> set s \<Longrightarrow> list_all (\<lambda>d. \<not> is_sqlite_space d) s \<Longrightarrow> parameter_suffix (s @ CHR '')'' # r) = (s @ '')'', r)"
  by (induction s) (auto simp: is_sqlite_space_def)

lemma parameter_suffix_open:
  "CHR '')'' \<notin> set s \<Longrightarrow> list_all (\<lambda>d. \<not> is_sqlite_space d) s \<Longrightarrow> r = [] \<or> is_sqlite_space (hd r) \<Longrightarrow>
   parameter_suffix (s @ r) = (s, r)"
  by (induction s) (cases r; auto)+

lemma skip_line_closed: "CHR 0x0A \<notin> set s \<Longrightarrow> skip_line (s @ CHR 0x0A # r) = r"
  by (induction s) (auto simp: skip_line_def)

lemma skip_line_open: "CHR 0x0A \<notin> set s \<Longrightarrow> skip_line s = []"
proof -
  assume "CHR 0x0A \<notin> set s"
  then have "dropWhile (\<lambda>n. n \<noteq> CHR 0x0A) s = []" by (auto simp: dropWhile_eq_Nil_conv)
  then show ?thesis unfolding skip_line_def by (simp only: list.sel)
qed

lemma contains_close_Cons:
  "contains_str (n # s) ''*/'' \<longleftrightarrow> (n = CHR ''*'' \<and> prefix ''/'' s) \<or> contains_str s ''*/''"
  by (auto simp: contains_str_def sublist_Cons_right)

lemma contains_close_single [simp]: "\<not> contains_str [p] ''*/''"
  by (simp add: contains_str_def sublist_Cons_right)

lemma skip_block_closed:
  "\<not> contains_str (p # s) ''*/'' \<Longrightarrow> skip_block p (s @ CHR ''*'' # CHR ''/'' # r) = r"
proof (induction s arbitrary: p)
  case Nil
  then show ?case by simp
next
  case (Cons n s)
  have "\<not> (p = CHR ''*'' \<and> n = CHR ''/'')" "\<not> contains_str (n # s) ''*/''"
    using Cons.prems unfolding contains_close_Cons [of p] by auto
  then show ?case using Cons.IH by simp
qed

lemma skip_block_open: "\<not> contains_str (p # s) ''*/'' \<Longrightarrow> skip_block p s = []"
proof (induction s arbitrary: p)
  case (Cons n s)
  have "\<not> (p = CHR ''*'' \<and> n = CHR ''/'')" "\<not> contains_str (n # s) ''*/''"
    using Cons.prems unfolding contains_close_Cons [of p] by auto
  then show ?case using Cons.IH by auto
qed simp

lemma block_comment_splits:
  obtains s where "\<not> contains_str (p # s) ''*/''" "x = s @ ''*/'' @ skip_block p x"
  | "\<not> contains_str (p # x) ''*/''" "skip_block p x = []"
  | y where "p = CHR ''*''" "x = CHR ''/'' # y"
proof (induction x arbitrary: p thesis)
  case Nil
  then show ?case by simp
next
  case (Cons n x)
  show ?case
  proof (cases "p = CHR ''*'' \<and> n = CHR ''/''")
    case True
    then show ?thesis using Cons.prems(3) by blast
  next
    case False
    have p: "contains_str (p # n # s) ''*/'' \<longleftrightarrow> contains_str (n # s) ''*/''" for s
      using False by (auto simp: contains_close_Cons [of p])
    have skip: "skip_block p (n # x) = skip_block n x" using False by auto
    show ?thesis
    proof (rule Cons.IH [of n])
      fix s assume "\<not> contains_str (n # s) ''*/''" "x = s @ ''*/'' @ skip_block n x"
      then show ?thesis using Cons.prems(1) [of "n # s"] p skip by simp
    next
      assume "\<not> contains_str (n # x) ''*/''" "skip_block n x = []"
      then show ?thesis using Cons.prems(2) p skip by simp
    next
      fix y assume y: "n = CHR ''*''" "x = CHR ''/'' # y"
      then have "skip_block p (n # x) = y" using skip by simp
      then show ?thesis using Cons.prems(1) [of "[]"] y by simp
    qed
  qed
qed

definition double :: "char \<Rightarrow> string \<Rightarrow> string" where
  "double q t = concat (map (\<lambda>c. if c = q then [q, q] else [c]) t)"

lemma double_simps [simp]:
  "double q [] = []" "double q (c # t) = (if c = q then [q, q] else [c]) @ double q t"
  by (simp_all add: double_def)

lemma double_plain: "q \<notin> set t \<Longrightarrow> double q t = t"
  by (induction t) auto

lemma closes_doubled_double: "q \<noteq> CHR ''['' \<Longrightarrow> closes_doubled q (double q t)"
  by (auto simp: closes_doubled_def double_def)

lemma closes_doubled_plain: "closing q \<notin> set s \<Longrightarrow> closes_doubled q s"
  using closes_doubled_double [of q s] by (cases "q = CHR ''[''") (simp_all add: closes_doubled_def closing_def double_plain)

lemma mask_quote: "q \<in> set quote_chars \<Longrightarrow> mask_byte q = ''_''"
  by (auto simp: quote_chars_def mask_byte_def is_continuation_byte_def)

lemma take_quoted_doubled:
  assumes "q \<in> set quote_chars" "\<not> prefix [q] r"
  shows "take_quoted q True (double q t @ q # r) = (double q t @ [q], concat (map mask_byte (double q t)) @ [q], r)"
  using assms by (induction t) (auto simp: mask_quote prefix_def split: list.split)

lemma take_quoted_doubled_open:
  "q \<in> set quote_chars \<Longrightarrow> take_quoted q True (double q t) = (double q t, concat (map mask_byte (double q t)), [])"
  by (induction t) (auto simp: mask_quote)

lemma take_quoted_plain:
  "q \<notin> set s \<Longrightarrow> take_quoted q False (s @ q # r) = (s @ [q], concat (map mask_byte s) @ [q], r)"
  "q \<notin> set s \<Longrightarrow> take_quoted q False s = (s, concat (map mask_byte s), [])"
  by (induction s) (auto split: list.split)

lemma take_quoted_span:
  assumes "reads_as w (Quoted q s closed) r"
  shows "take_quoted (closing q) (q \<noteq> CHR ''['') (s @ (if closed then [closing q] else []) @ r) =
    (s @ (if closed then [closing q] else []),
     concat (map mask_byte s) @ (if closed then [closing q] else []), r)"
proof (cases "q = CHR ''[''")
  case True
  then show ?thesis using assms by (auto simp: closing_def closes_doubled_def take_quoted_plain)
next
  case False
  then obtain t where t: "s = double q t"
    using assms by (auto simp: closes_doubled_def double_def)
  show ?thesis using assms False t
    by (cases closed) (simp_all add: closing_def take_quoted_doubled take_quoted_doubled_open)
qed

lemma is_parameter_append: "is_parameter w c s \<Longrightarrow> is_parameter w c (s @ r)"
  unfolding is_parameter_def names_parameter_def by (metis append_Cons append_assoc)

lemma scan_parameter:
  assumes "reads_as w (Parameter c name suf) r"
  shows "scan_from w (span_text (Parameter c name suf) @ r) =
    emit (span_cleaned (Parameter c name suf)) (span_masked (Parameter c name suf)) (scan_from False r)"
proof -
  have par: "is_parameter w c (name @ suf @ r)" using assms is_parameter_append by simp
  then have not_mark: "c \<noteq> CHR 0xEF" by (auto simp: is_parameter_def)
  have name: "parameter_name (name @ suf @ r) = (name, suf @ r)"
    using assms by (simp add: parameter_name_eq)
  have suffix: "(if prefix ''('' (suf @ r) then parameter_suffix (suf @ r) else ([], suf @ r)) = (suf, r)"
  proof (cases "suf = []")
    case True
    then show ?thesis using assms by simp
  next
    case False
    then obtain s where s: "CHR '')'' \<notin> set s" "list_all (\<lambda>d. \<not> is_sqlite_space d) s" "prefix ''('' s"
      "suf = s @ '')'' \<or> suf = s \<and> (r = [] \<or> is_sqlite_space (hd r))"
      using assms by auto
    then have "prefix ''('' (suf @ r)" by (auto simp: prefix_def)
    moreover have "parameter_suffix (suf @ r) = (suf, r)"
      using s(4) parameter_suffix_closed [OF s(1,2)] parameter_suffix_open [OF s(1,2), of r] by auto
    ultimately show ?thesis by simp
  qed
  have "c \<in> set ''$:@#'' \<and> \<not> (c = CHR ''$'' \<and> w) \<and> parameter_name_follows (name @ suf @ r)"
    using par by (simp add: is_parameter_def parameter_name_follows_iff)
  then show ?thesis using not_mark
    by (simp only: span_text.simps append_Cons append_assoc scan_from.simps(2) Let_def name fst_conv snd_conv
          suffix if_True if_False simp_thms span_cleaned.simps span_masked.simps)
qed

lemma quote_not_parameter: "q \<in> set quote_chars \<Longrightarrow> q \<notin> set ''$:@#'' \<and> q \<notin> {CHR 0xEF, CHR ''-'', CHR ''/''}"
  by (auto simp: quote_chars_def)

lemma scan_quoted:
  assumes "reads_as w (Quoted q s closed) r"
  shows "scan_from w (span_text (Quoted q s closed) @ r) =
    emit (span_cleaned (Quoted q s closed)) (span_masked (Quoted q s closed)) (scan_from False r)"
proof -
  have "q \<in> set quote_chars" using assms by simp
  then show ?thesis
    using take_quoted_span [OF assms] quote_not_parameter
    by (simp add: scan_from.simps(2) Let_def del: reads_as.simps)
qed

lemma scan_code:
  assumes "reads_as w (Code c) r"
  shows "scan_from w (c # r) = emit [c] [c] (scan_from (is_sqlite_id_char c) r)"
  using assms by (subst scan_from.simps(2)) (auto simp: is_parameter_def parameter_name_follows_iff)

lemma scan_line_comment:
  assumes "reads_as w (LineComment s closed) r"
  shows "scan_from w (span_text (LineComment s closed) @ r) =
    emit [CHR 0x20, CHR 0x0A] [CHR 0x20, CHR 0x0A] (scan_from False r)"
proof -
  have "skip_line (''-'' @ s @ (if closed then [CHR 0x0A] else []) @ r) = r"
    using assms skip_line_closed [of "''-'' @ s" r] skip_line_open [of "''-'' @ s"] by auto
  then show ?thesis by (simp add: scan_from.simps(2))
qed

lemma scan_block_comment:
  assumes "reads_as w (BlockComment s closed) r"
  shows "scan_from w (span_text (BlockComment s closed) @ r) = emit '' '' '' '' (scan_from False r)"
proof -
  have "\<not> contains_str (CHR 0x00 # s) ''*/''"
    using assms by (simp add: contains_close_Cons)
  then have "skip_block (CHR 0x00) (s @ (if closed then ''*/'' else []) @ r) = r"
    using assms skip_block_closed [of "CHR 0x00" s r] skip_block_open [of "CHR 0x00" s] by auto
  then show ?thesis by (simp add: scan_from.simps(2))
qed

text \<open>The scan consumes one span and continues after it.\<close>

lemma scan_span:
  "reads_as w sp r \<Longrightarrow>
   scan_from w (span_text sp @ r) = emit (span_cleaned sp) (span_masked sp) (scan_from (word_after sp) r)"
proof (cases sp)
  case Mark
  moreover assume "reads_as w sp r"
  ultimately show ?thesis by (simp add: scan_from.simps(2))
qed (use scan_code scan_line_comment scan_block_comment scan_parameter scan_quoted in
    \<open>simp_all del: reads_as.simps span_text.simps(3-6)\<close>)

lemma parameter_name_names: "parameter_name_follows s \<Longrightarrow> parameter_name_follows (fst (parameter_name s))"
  by (induction s rule: parameter_name_follows.induct)
    (simp_all add: Let_def case_prod_beta split: if_splits list.splits)

lemma next_parameter:
  assumes "is_parameter w c rest"
  shows "\<exists>sp r. c # rest = span_text sp @ r \<and> reads_as w sp r"
proof -
  obtain name r where nr: "parameter_name rest = (name, r)" by (meson surj_pair)
  then have name: "rest = name @ r" "parameter_text name" "\<not> parameter_goes_on r"
    using parameter_name_splits [of rest] by simp_all
  have "parameter_name_follows name"
    using parameter_name_names [of rest] assms nr by (simp add: is_parameter_def parameter_name_follows_iff)
  then have par: "is_parameter w c name" using assms by (simp add: is_parameter_def parameter_name_follows_iff)
  show ?thesis
  proof (cases "prefix ''('' r")
    case False
    then have "reads_as w (Parameter c name []) r" using par name by simp
    then show ?thesis using name by (intro exI [of _ "Parameter c name []"] exI [of _ r]) simp
  next
    case True
    then obtain t where t: "r = CHR ''('' # t" by (auto simp: prefix_def)
    let ?suf = "fst (parameter_suffix r)" and ?r = "snd (parameter_suffix r)"
    obtain s where s: "CHR '')'' \<notin> set s" "list_all (\<lambda>d. \<not> is_sqlite_space d) s"
      "?suf = s @ '')'' \<or> ?suf = s \<and> (?r = [] \<or> is_sqlite_space (hd ?r))" and r: "r = ?suf @ ?r"
      by (rule parameter_suffix_splits)
    have "\<not> is_sqlite_space (CHR ''('')" by code_simp
    then have suf: "?suf = CHR ''('' # fst (parameter_suffix t)" using t by (simp add: Let_def case_prod_beta)
    then have "prefix ''('' s" using s(3) by (cases s) auto
    then have "reads_as w (Parameter c name ?suf) ?r" using par name s suf r by auto
    moreover have "c # rest = span_text (Parameter c name ?suf) @ ?r" using name(1) r by simp
    ultimately show ?thesis by blast
  qed
qed

lemma next_line_comment: "\<exists>sp r. CHR ''-'' # CHR ''-'' # t = span_text sp @ r \<and> reads_as w sp r"
proof (cases "CHR 0x0A \<in> set t")
  case True
  then obtain s r where "t = s @ CHR 0x0A # r" "CHR 0x0A \<notin> set s" by (meson split_list_first)
  then show ?thesis by (intro exI [of _ "LineComment s True"] exI [of _ r]) simp
next
  case False
  then show ?thesis by (intro exI [of _ "LineComment t False"] exI [of _ "[]"]) simp
qed

lemma next_block_comment: "\<exists>sp r. CHR ''/'' # CHR ''*'' # t = span_text sp @ r \<and> reads_as w sp r"
proof (rule block_comment_splits [of "CHR 0x00" t])
  fix s assume "\<not> contains_str (CHR 0x00 # s) ''*/''" "t = s @ ''*/'' @ skip_block (CHR 0x00) t"
  then show ?thesis
    by (intro exI [of _ "BlockComment s True"] exI [of _ "skip_block (CHR 0x00) t"])
      (simp add: contains_close_Cons)
next
  assume "\<not> contains_str (CHR 0x00 # t) ''*/''"
  then show ?thesis
    by (intro exI [of _ "BlockComment t False"] exI [of _ "[]"]) (simp add: contains_close_Cons)
qed simp

lemma doubled_splits:
  "\<exists>t closed r. s = double q t @ (if closed then [q] else []) @ r \<and> (if closed then \<not> prefix [q] r else r = [])"
proof (induction s rule: length_induct)
  case (1 s)
  note IH = this
  show ?case
  proof (cases s)
    case Nil
    then show ?thesis by (intro exI [of _ "[]"] exI [of _ False]) simp
  next
    case (Cons c u)
    consider v where "c = q" "u = q # v" | "c = q" "\<not> prefix [q] u" | "c \<noteq> q"
      by (cases "prefix [q] u") (auto simp: prefix_def)
    then show ?thesis
    proof cases
      case 1
      then obtain t closed r where "v = double q t @ (if closed then [q] else []) @ r"
        "if closed then \<not> prefix [q] r else r = []"
        using IH [rule_format, of v] Cons by auto
      then show ?thesis using 1 Cons by (intro exI [of _ "q # t"] exI [of _ closed] exI [of _ r]) simp
    next
      case 2
      then show ?thesis using Cons by (intro exI [of _ "[]"] exI [of _ True] exI [of _ u]) simp
    next
      case 3
      then obtain t closed r where "u = double q t @ (if closed then [q] else []) @ r"
        "if closed then \<not> prefix [q] r else r = []"
        using IH [rule_format, of u] Cons by auto
      then show ?thesis using 3 Cons by (intro exI [of _ "c # t"] exI [of _ closed] exI [of _ r]) simp
    qed
  qed
qed

lemma next_quoted:
  assumes "q \<in> set quote_chars"
  shows "\<exists>sp r. q # s = span_text sp @ r \<and> reads_as w sp r"
proof (cases "q = CHR ''[''")
  case True
  show ?thesis
  proof (cases "CHR '']'' \<in> set s")
    case in_s: True
    then obtain t r where "s = t @ CHR '']'' # r" "CHR '']'' \<notin> set t" by (meson split_list_first)
    then show ?thesis using True assms
      by (intro exI [of _ "Quoted q t True"] exI [of _ r]) (simp add: closing_def closes_doubled_def)
  next
    case False
    then show ?thesis using True assms
      by (intro exI [of _ "Quoted q s False"] exI [of _ "[]"]) (simp add: closes_doubled_def)
  qed
next
  case False
  obtain t closed r where "s = double q t @ (if closed then [q] else []) @ r"
    "if closed then \<not> prefix [q] r else r = []"
    using doubled_splits by blast
  then show ?thesis using False assms
    by (intro exI [of _ "Quoted q (double q t) closed"] exI [of _ r])
      (auto simp: closing_def closes_doubled_def double_def)
qed

lemma next_span: "\<exists>sp r. c # rest = span_text sp @ r \<and> reads_as w sp r"
proof -
  consider "c = CHR 0xEF \<and> prefix [CHR 0xBB, CHR 0xBF] rest \<and> \<not> w" | "is_parameter w c rest"
    | "prefix ''--'' (c # rest)" | "prefix ''/*'' (c # rest)" | "c \<in> set quote_chars" | "reads_as w (Code c) rest"
    by auto
  then show ?thesis
  proof cases
    case 1
    then obtain r where "c # rest = span_text Mark @ r" "reads_as w Mark r" by (auto simp: prefix_def)
    then show ?thesis by blast
  next
    case 3
    then show ?thesis using next_line_comment by (auto simp: prefix_def)
  next
    case 4
    then show ?thesis using next_block_comment by (auto simp: prefix_def)
  next
    case 6
    then show ?thesis by (intro exI [of _ "Code c"] exI [of _ rest]) simp
  qed (simp_all add: next_parameter next_quoted)
qed

lemma span_text_neq_Nil: "span_text sp \<noteq> []"
  by (cases sp) simp_all

lemma spans_text_simps [simp]:
  "spans_text [] = []" "spans_text (sp # ss) = span_text sp @ spans_text ss"
  by (simp_all add: spans_text_def)

lemma lexes_exists: "\<exists>ss. lexes w ss \<and> spans_text ss = s"
proof (induction "length s" arbitrary: s w rule: less_induct)
  case less
  show ?case
  proof (cases s)
    case Nil
    then show ?thesis by (intro exI [of _ "[]"]) simp
  next
    case (Cons c rest)
    then obtain sp r where sp: "s = span_text sp @ r" "reads_as w sp r" using next_span by blast
    then have "length r < length s" using span_text_neq_Nil [of sp] by simp
    then obtain ss where "lexes (word_after sp) ss" "spans_text ss = r" using less by blast
    then show ?thesis using sp by (intro exI [of _ "sp # ss"]) simp
  qed
qed

lemma scan_lexed:
  "lexes w ss \<Longrightarrow> scan_from w (spans_text ss) =
     \<lparr> ss_cleaned = concat (map span_cleaned ss), ss_masked = concat (map span_masked ss) \<rparr>"
  by (induction ss arbitrary: w) (simp_all add: scan_span emit_def)

section \<open>What the guard counts does not depend on literals\<close>

fun same_code :: "span \<Rightarrow> span \<Rightarrow> bool" where
  "same_code (LineComment _ _) (LineComment _ _) = True"
| "same_code (BlockComment _ _) (BlockComment _ _) = True"
| "same_code (Quoted q _ closed) (Quoted q' _ closed') = (q = q' \<and> closed = closed')"
| "same_code a b = (a = b)"

inductive alike :: "string \<Rightarrow> string \<Rightarrow> bool" where
  "alike [] []"
| "alike x y \<Longrightarrow> alike (c # x) (c # y)"
| "q \<in> set quote_chars \<Longrightarrow> set us \<subseteq> {CHR ''_''} \<Longrightarrow> set vs \<subseteq> {CHR ''_''} \<Longrightarrow> alike x y \<Longrightarrow>
   alike (q # us @ closing q # x) (q # vs @ closing q # y)"
| "q \<in> set quote_chars \<Longrightarrow> set us \<subseteq> {CHR ''_''} \<Longrightarrow> set vs \<subseteq> {CHR ''_''} \<Longrightarrow> alike (q # us) (q # vs)"

lemma alike_prefix: "alike x y \<Longrightarrow> alike (w @ x) (w @ y)"
  by (induction w) (simp_all add: alike.intros)

lemma masked_underscores: "set (concat (map mask_byte s)) \<subseteq> {CHR ''_''}"
  by (auto simp: mask_byte_def split: if_splits)

lemma alike_span:
  assumes "same_code a b" "reads_as w a r" "alike x y" "r = [] \<Longrightarrow> x = [] \<and> y = []"
  shows "alike (span_masked a @ x) (span_masked b @ y)"
  using assms
proof (induction a b rule: same_code.induct)
  case (3 q s closed q' s' closed')
  show ?case
  proof (cases closed)
    case True
    then show ?thesis using 3 alike.intros(3) [of q _ _ x y] masked_underscores by simp
  next
    case False
    then show ?thesis using 3 alike.intros(4) [of q] masked_underscores by simp
  qed
qed (simp_all add: alike_prefix alike.intros(2))

lemma same_code_refl [simp]: "same_code a a"
  by (cases a) simp_all

lemma alike_spans:
  assumes "list_all2 same_code ss ts" "lexes w ss"
  shows "alike (concat (map span_masked ss)) (concat (map span_masked ts))"
  using assms
proof (induction ss ts arbitrary: w rule: list_all2_induct)
  case Nil
  then show ?case by (simp add: alike.intros)
next
  case (Cons a ss b ts)
  have "ss = [] \<and> ts = []" if "spans_text ss = []"
  proof -
    have "ss = []" using that span_text_neq_Nil by (cases ss) simp_all
    then show ?thesis using Cons(2) by simp
  qed
  moreover have "reads_as w a (spans_text ss)" "lexes (word_after a) ss" using Cons.prems by simp_all
  ultimately show ?case using alike_span [OF Cons(1)] Cons.IH by fastforce
qed

lemma quote_facts:
  assumes "q \<in> set quote_chars"
  shows "\<not> is_sqlite_id_char q" "\<not> is_sqlite_id_char (closing q)" "q \<noteq> CHR '';''" "closing q \<noteq> CHR '';''"
    "to_ascii_lower q = q" "to_ascii_lower (closing q) = closing q"
    "depth_step q d = d" "depth_step (closing q) d = d"
proof -
  have *: "list_all (\<lambda>q. \<not> is_sqlite_id_char q \<and> \<not> is_sqlite_id_char (closing q) \<and> q \<noteq> CHR '';'' \<and>
      closing q \<noteq> CHR '';'' \<and> to_ascii_lower q = q \<and> to_ascii_lower (closing q) = closing q \<and>
      q \<notin> set ''()'' \<and> closing q \<notin> set ''()'') quote_chars"
    by code_simp
  then show "\<not> is_sqlite_id_char q" "\<not> is_sqlite_id_char (closing q)" "q \<noteq> CHR '';''" "closing q \<noteq> CHR '';''"
    "to_ascii_lower q = q" "to_ascii_lower (closing q) = closing q"
    "depth_step q d = d" "depth_step (closing q) d = d"
    using assms by (auto simp: list_all_iff depth_step_def)
qed

lemma underscores_lower: "set us \<subseteq> {CHR ''_''} \<Longrightarrow> map to_ascii_lower us = us"
  by (induction us) (auto simp: to_ascii_lower_def)

lemma alike_lower: "alike x y \<Longrightarrow> alike (map to_ascii_lower x) (map to_ascii_lower y)"
  by (induction rule: alike.induct) (simp_all add: alike.intros quote_facts underscores_lower)

lemma underscores_depth: "set us \<subseteq> {CHR ''_''} \<Longrightarrow> fold depth_step us d = d"
  by (induction us) (auto simp: depth_step_def)

lemma alike_depth: "alike x y \<Longrightarrow> fold depth_step x d = fold depth_step y d"
  by (induction arbitrary: d rule: alike.induct) (simp_all add: quote_facts underscores_depth)

lemma split_on_prefix:
  "(\<And>c. c \<in> set a \<Longrightarrow> \<not> p c) \<Longrightarrow> split_on p (a @ x) = (a @ hd (split_on p x)) # tl (split_on p x)"
  by (induction a) simp_all

lemma split_on_sep: "(\<And>c. c \<in> set a \<Longrightarrow> \<not> p c) \<Longrightarrow> p d \<Longrightarrow> split_on p (a @ d # x) = a # split_on p x"
  by (simp add: split_on_prefix)

lemma split_on_none: "(\<And>c. c \<in> set a \<Longrightarrow> \<not> p c) \<Longrightarrow> split_on p a = [a]"
  using split_on_prefix [of a p "[]"] by simp

text \<open>Words: equal, except the masked content of quoted spans.\<close>

definition alike_word :: "string \<Rightarrow> string \<Rightarrow> bool" where
  "alike_word a b = (a = b \<or> (set a \<subseteq> {CHR ''_''} \<and> set b \<subseteq> {CHR ''_''}))"

lemma alike_word_lists:
  "hd (split_on p x) = hd (split_on p y) \<and> list_all2 alike_word (tl (split_on p x)) (tl (split_on p y)) \<Longrightarrow>
   list_all2 alike_word (split_on p x) (split_on p y)"
  by (cases "split_on p x"; cases "split_on p y") (auto simp: alike_word_def)

lemma underscores_id: "set us \<subseteq> {CHR ''_''} \<Longrightarrow> c \<in> set us \<Longrightarrow> is_sqlite_id_char c"
  by (auto simp: is_sqlite_id_char_def)

lemma alike_words:
  assumes "alike x y"
  defines "words \<equiv> split_on (\<lambda>c. \<not> is_sqlite_id_char c)"
  shows "hd (words x) = hd (words y) \<and> list_all2 alike_word (tl (words x)) (tl (words y))"
  using assms(1) unfolding words_def
proof (induction rule: alike.induct)
  case (2 x y c)
  from alike_word_lists [OF 2(2)] show ?case using 2(2) by (auto split: list.split)
next
  case (3 q us vs x y)
  have "alike_word us vs" using 3 by (simp add: alike_word_def)
  with alike_word_lists [OF 3(5)] show ?case using 3 by (simp add: quote_facts split_on_sep underscores_id)
next
  case (4 q us vs)
  then show ?case by (simp add: quote_facts split_on_none underscores_id alike_word_def)
qed simp

lemma alike_selects:
  assumes "alike x y"
  shows "length (filter (\<lambda>w. w = ''select'') (split_on (\<lambda>c. \<not> is_sqlite_id_char c) x)) =
    length (filter (\<lambda>w. w = ''select'') (split_on (\<lambda>c. \<not> is_sqlite_id_char c) y))"
  using alike_word_lists [OF alike_words [OF assms]]
  by (induction rule: list_all2_induct) (auto simp: alike_word_def)

text \<open>Statements: equal, or both hold a quoted span.\<close>

definition alike_statement :: "string \<Rightarrow> string \<Rightarrow> bool" where
  "alike_statement a b = (a = b \<or> (\<exists>q \<in> set quote_chars. q \<in> set a \<and> q \<in> set b))"

lemma alike_statement_prefix: "alike_statement a b \<Longrightarrow> alike_statement (w @ a) (w @ b)"
  by (auto simp: alike_statement_def)

lemma underscores_no_semicolon: "set us \<subseteq> {CHR ''_''} \<Longrightarrow> c \<in> set us \<Longrightarrow> c \<noteq> CHR '';''"
  by auto

lemma alike_statements:
  assumes "alike x y"
  defines "stmts \<equiv> split_on (\<lambda>c. c = CHR '';'')"
  shows "list_all2 alike_statement (stmts x) (stmts y)"
  using assms(1) unfolding stmts_def
proof (induction rule: alike.induct)
  case 1
  then show ?case by (simp add: alike_statement_def)
next
  case (2 x y c)
  have "alike_statement [] []" by (simp add: alike_statement_def)
  then show ?case using 2(2) alike_statement_prefix [of _ _ "[c]"]
    by (auto simp: list_all2_Cons1 split: list.split)
next
  case (3 q us vs x y)
  let ?s = "split_on (\<lambda>c. c = CHR '';'')"
  have split: "?s (q # ws @ closing q # z) = ((q # ws @ [closing q]) @ hd (?s z)) # tl (?s z)"
    if "set ws \<subseteq> {CHR ''_''}" for ws z
  proof -
    have "c \<noteq> CHR '';''" if "c \<in> set (q # ws @ [closing q])" for c
      using that \<open>set ws \<subseteq> _\<close> quote_facts(3,4) [OF 3(1)] by auto
    then have "?s ((q # ws @ [closing q]) @ z) = ((q # ws @ [closing q]) @ hd (?s z)) # tl (?s z)"
      by (intro split_on_prefix) simp
    then show ?thesis by (simp only: append_Cons append_assoc append_Nil)
  qed
  have "alike_statement ((q # us @ [closing q]) @ hd (?s x)) ((q # vs @ [closing q]) @ hd (?s y))"
    using 3(1) by (auto simp: alike_statement_def)
  moreover have "list_all2 alike_statement (tl (?s x)) (tl (?s y))"
    using 3(5) by (cases "?s x"; cases "?s y") auto
  ultimately show ?case unfolding split [OF 3(2)] split [OF 3(3)] by simp
next
  case (4 q us vs)
  then have "split_on (\<lambda>c. c = CHR '';'') (q # us) = [q # us]" "split_on (\<lambda>c. c = CHR '';'') (q # vs) = [q # vs]"
    using quote_facts(3) [OF 4(1)] by (auto simp del: split_on.simps intro!: split_on_none)
  then show ?case using 4 by (auto simp: alike_statement_def)
qed

lemma quoted_not_blank: "q \<in> set quote_chars \<Longrightarrow> q \<in> set s \<Longrightarrow> str_trim s \<noteq> []"
proof
  have "list_all (\<lambda>q. list_all (\<lambda>w. q \<notin> set w) white_space) quote_chars" by code_simp
  moreover assume "q \<in> set quote_chars" "q \<in> set s" "str_trim s = []"
  ultimately show False using str_trim_Nil [of s q] by (auto simp: list_all_iff)
qed

lemma alike_statement_count:
  assumes "alike x y"
  shows "length (filter (\<lambda>s. str_trim s \<noteq> []) (split_on (\<lambda>c. c = CHR '';'') x)) =
    length (filter (\<lambda>s. str_trim s \<noteq> []) (split_on (\<lambda>c. c = CHR '';'') y))"
  using alike_statements [OF assms]
  by (induction rule: list_all2_induct) (auto simp: alike_statement_def quoted_not_blank)

section \<open>Nesting\<close>

text \<open>How many parentheses a text opens more than it closes.\<close>

definition excess :: "string \<Rightarrow> int" where
  "excess w = int (count_list w (CHR ''('')) - int (count_list w (CHR '')''))"

lemma excess_simps [simp]:
  "excess [] = 0" "excess (a @ b) = excess a + excess b"
  "excess [c] = (if c = CHR ''('' then 1 else if c = CHR '')'' then -1 else 0)"
  by (auto simp: excess_def)

definition depth_of :: "string \<Rightarrow> nat" where
  "depth_of s = nat (Max (excess ` {w. suffix w s}))"

lemma finite_suffix_set [simp]: "finite {w. suffix w s}"
  by (metis Collect_mem_eq finite_set set_suffixes_eq)

lemma suffixes_snoc: "{w. suffix w (s @ [c])} = insert [] ((\<lambda>w. w @ [c]) ` {w. suffix w s})"
  by (auto simp: suffix_snoc)

lemma depth_of_snoc:
  "depth_of (s @ [c]) = (if c = CHR ''('' then depth_of s + 1 else if c = CHR '')'' then depth_of s - 1 else depth_of s)"
proof -
  let ?M = "Max (excess ` {w. suffix w s})"
  have "0 \<in> excess ` {w. suffix w s}" by (rule image_eqI [of _ _ "[]"]) simp_all
  then have M: "0 \<le> ?M" by (intro Max_ge) simp_all
  have "excess ` {w. suffix w (s @ [c])} = insert 0 ((\<lambda>n. n + excess [c]) ` excess ` {w. suffix w s})"
    unfolding suffixes_snoc by (simp add: image_image)
  moreover have "Max ((\<lambda>n. n + excess [c]) ` excess ` {w. suffix w s}) = ?M + excess [c]"
    by (subst mono_Max_commute [symmetric]) (auto simp: mono_def intro: exI [of _ "[]"])
  moreover have "Max (insert 0 ((\<lambda>n. n + excess [c]) ` excess ` {w. suffix w s})) =
      max 0 (Max ((\<lambda>n. n + excess [c]) ` excess ` {w. suffix w s}))"
    by (rule Max_insert) (auto intro: exI [of _ "[]"])
  ultimately have "Max (excess ` {w. suffix w (s @ [c])}) = max 0 (?M + excess [c])" by simp
  then show ?thesis using M by (auto simp: depth_of_def nat_diff_distrib)
qed

lemma depth_step_pair:
  "depth_step b (d, m) = (if b = CHR ''('' then (d + 1, max m (d + 1)) else if b = CHR '')'' then (d - 1, m) else (d, m))"
  by (simp add: depth_step_def)

lemma depth_fold:
  "fst (fold depth_step s (0, 0)) = depth_of s \<and>
   snd (fold depth_step s (0, 0)) = Max (depth_of ` {p. prefix p s})"
proof (induction s rule: rev_induct)
  case Nil
  show ?case by (simp add: depth_of_def)
next
  case (snoc c s)
  have pre: "{p. prefix p (s @ [c])} = insert (s @ [c]) {p. prefix p s}" by auto
  have fin: "finite {p. prefix p s}" by (metis Collect_mem_eq finite_set set_prefixes_eq)
  have ne: "depth_of ` {p. prefix p s} \<noteq> {}" by (auto intro: exI [of _ "[]"])
  have max: "Max (depth_of ` {p. prefix p (s @ [c])}) = max (depth_of (s @ [c])) (Max (depth_of ` {p. prefix p s}))"
    unfolding pre using fin ne by (simp add: Max_insert)
  have "depth_of s \<le> Max (depth_of ` {p. prefix p s})" using fin by (intro Max_ge) auto
  then show ?case unfolding max using snoc.IH
    by (cases "fold depth_step s (0, 0)") (auto simp: depth_of_snoc depth_step_pair max_def)
qed

lemma excess_le_depth: "sublist w s \<Longrightarrow> excess w \<le> int (snd (fold depth_step s (0, 0)))"
proof -
  assume "sublist w s"
  then obtain p where p: "prefix p s" "suffix w p" by (auto simp: sublist_altdef)
  have "excess w \<le> Max (excess ` {w. suffix w p})" using p(2) by (intro Max_ge) auto
  also have "\<dots> \<le> int (depth_of p)" by (simp add: depth_of_def)
  also have "depth_of p \<le> Max (depth_of ` {p. prefix p s})"
    using p(1) by (intro Max_ge) (metis Collect_mem_eq finite_imageI finite_set set_prefixes_eq, simp)
  finally show ?thesis using depth_fold [of s] by simp
qed

lemma excess_attained: "\<exists>w. sublist w s \<and> excess w = int (snd (fold depth_step s (0, 0)))"
proof -
  have fin: "finite {p. prefix p s}" by (metis Collect_mem_eq finite_set set_prefixes_eq)
  have "Max (depth_of ` {p. prefix p s}) \<in> depth_of ` {p. prefix p s}"
    using fin by (intro Max_in) (auto intro: exI [of _ "[]"])
  then obtain p where p: "prefix p s" "depth_of p = snd (fold depth_step s (0, 0))" using depth_fold by auto
  have "Max (excess ` {w. suffix w p}) \<in> excess ` {w. suffix w p}"
    by (intro Max_in) (auto intro: exI [of _ "[]"])
  then obtain w where w: "suffix w p" "excess w = Max (excess ` {w. suffix w p})" by auto
  have "excess [] \<in> excess ` {w. suffix w p}" by (rule imageI) simp
  then have "0 \<le> excess w" unfolding w(2) by (intro Max_ge) simp_all
  then have "excess w = int (depth_of p)" unfolding depth_of_def w(2) [symmetric] by simp
  then show ?thesis using p w(1) by (metis sublist_altdef)
qed

lemma lower_paren:
  assumes "of_char d < (65 :: nat)"
  shows "to_ascii_lower c = d \<longleftrightarrow> c = d"
proof
  assume eq: "to_ascii_lower c = d"
  show "c = d"
  proof (cases "of_char c \<ge> (65 :: nat) \<and> of_char c \<le> (90 :: nat)")
    case True
    then have "of_char d = (of_char c + 32 :: nat)" using eq by (auto simp: to_ascii_lower_def)
    then show ?thesis using True assms by simp
  next
    case False
    then show ?thesis using eq by (auto simp: to_ascii_lower_def split: if_splits)
  qed
next
  assume "c = d"
  then show "to_ascii_lower c = d" using assms by (simp add: to_ascii_lower_def)
qed

lemma lower_excess: "excess (map to_ascii_lower w) = excess w"
proof (induction w)
  case (Cons c w)
  have "excess (d # v) = excess [d] + excess v" for d v using excess_simps(2) [of "[d]" v] by simp
  moreover have "excess [to_ascii_lower c] = excess [c]" by (simp add: lower_paren)
  ultimately show ?case using Cons by (metis list.simps(9))
qed simp

section \<open>Properties\<close>

text \<open>
  (C9) The scan reads SQL as SQLite's tokenizer divides it: every text is a sequence of spans in the
  reference reading (a quote doubled inside its span does not close it, a comment ends at its first
  terminator, a parameter swallows its Tcl-style suffix, unterminated spans run to the end), and for
  that sequence the cleaned text is the text with comments and byte-order marks replaced by blanks, and
  the masked text additionally hides the content of quoted spans and of parameter suffixes; nothing
  else is changed.
\<close>

theorem scan_sql_reference:
  "(\<exists>ss. lexes False ss \<and> spans_text ss = sql) \<and>
   (\<forall>ss. lexes False ss \<longrightarrow> spans_text ss = sql \<longrightarrow>
      ss_cleaned (scan_sql sql) = concat (map span_cleaned ss) \<and>
      ss_masked (scan_sql sql) = concat (map span_masked ss))"
  using lexes_exists scan_lexed by (auto simp: scan_sql_def)

theorem scan_sql_reference_witness:
  "ss_masked (scan_sql (''x='' @ [CHR 0x27] @ ''a;b'' @ [CHR 0x27] @ '';'')) =
     ''x='' @ [CHR 0x27] @ ''___'' @ [CHR 0x27] @ '';''"
proof -
  let ?ss = "[Code (CHR ''x''), Code (CHR ''=''), Quoted (CHR 0x27) ''a;b'' True, Code (CHR '';'')]"
  have "closes_doubled (CHR 0x27) ''a;b''" by (simp add: closes_doubled_plain closing_def)
  then have "lexes False ?ss" by (simp add: is_parameter_def quote_chars_def)
  moreover have "spans_text ?ss = ''x='' @ [CHR 0x27] @ ''a;b'' @ [CHR 0x27] @ '';''"
    by (simp add: closing_def)
  ultimately have "ss_masked (scan_sql (''x='' @ [CHR 0x27] @ ''a;b'' @ [CHR 0x27] @ '';'')) = concat (map span_masked ?ss)"
    using scan_sql_reference by blast
  then show ?thesis by (simp add: closing_def mask_byte_def is_continuation_byte_def)
qed

text \<open>
  Literals cannot change what the guard counts: two queries that read as the same spans up to the
  content of their quoted spans and comments have the same number of statements, the same parenthesis
  nesting and the same number of SELECTs.
\<close>

theorem guard_ignores_literals:
  assumes "lexes False ss" "lexes False ts" "list_all2 same_code ss ts"
  shows "statement_count (spans_text ss) = statement_count (spans_text ts) \<and>
    sql_nesting (spans_text ss) = sql_nesting (spans_text ts)"
proof -
  have alike: "alike (ss_masked (scan_sql (spans_text ss))) (ss_masked (scan_sql (spans_text ts)))"
    using alike_spans [OF assms(3,1)] assms(1,2) by (simp add: scan_sql_def scan_lexed)
  note lower = alike_lower [OF alike]
  show ?thesis
    unfolding statement_count_def sql_nesting_def Let_def alike_depth [OF lower] alike_selects [OF lower]
    using alike_statement_count [OF alike] by simp
qed

theorem guard_ignores_literals_witness:
  "statement_count (''x='' @ [CHR 0x27] @ ''a;b'' @ [CHR 0x27]) = statement_count (''x='' @ [CHR 0x27, CHR 0x27])"
proof -
  let ?s = "\<lambda>t. [Code (CHR ''x''), Code (CHR ''=''), Quoted (CHR 0x27) t True]"
  have "closes_doubled (CHR 0x27) ''a;b''" "closes_doubled (CHR 0x27) []"
    by (simp_all add: closes_doubled_plain closing_def)
  then have "lexes False (?s ''a;b'')" "lexes False (?s [])" by (simp_all add: is_parameter_def quote_chars_def)
  moreover have "list_all2 same_code (?s ''a;b'') (?s [])" by simp
  ultimately have "statement_count (spans_text (?s ''a;b'')) = statement_count (spans_text (?s []))"
    using guard_ignores_literals by blast
  then show ?thesis by (simp add: closing_def)
qed

text \<open>
  What the guard lets through is bounded: an accepted query is at most a million bytes, begins with
  a read-only keyword, holds at most one statement, no part of its code opens 257 parentheses more than
  it closes (the computed depth is the largest such excess), it has at most 2000 SELECTs, and if it is
  a PRAGMA its name is on the allowlist and its code has no assignment.
\<close>

theorem validate_query_accepts:
  assumes "validate_query uc sql = Inr ()"
  shows "length sql \<le> 1000000 \<and> statement_count sql \<le> 1 \<and> snd (sql_nesting sql) \<le> 2000 \<and>
    (\<exists>w. sublist w (map to_ascii_lower (ss_masked (scan_sql sql))) \<and> excess w = int (fst (sql_nesting sql))) \<and>
    (\<forall>w. sublist w (ss_masked (scan_sql sql)) \<longrightarrow> excess w \<le> 256) \<and>
    (let code = uc_lowercase uc (trim_start (strip_sql_comments sql))
     in (\<exists>p \<in> set READ_ONLY_PREFIXES. prefix p code) \<and>
        (prefix ''pragma'' code \<longrightarrow> (\<exists>name \<in> set SAFE_PRAGMAS. pragma_name uc sql = Some name)))"
proof -
  let ?m = "map to_ascii_lower (ss_masked (scan_sql sql))"
  have deepest: "fst (sql_nesting sql) = snd (fold depth_step ?m (0, 0))"
    by (simp add: sql_nesting_def Let_def case_prod_beta)
  have checks: "length sql \<le> 1000000" "is_read_only uc sql" "\<not> is_disallowed_pragma uc sql"
    "fst (sql_nesting sql) \<le> 256" "snd (sql_nesting sql) \<le> 2000" "statement_count sql \<le> 1"
    using assms
    by (simp_all add: validate_query_def Let_def case_prod_beta MAX_QUERY_SQL_BYTES_def MAX_SQL_NESTING_def
        MAX_SQL_SELECTS_def split: if_splits)
  have "excess w \<le> 256" if "sublist w (ss_masked (scan_sql sql))" for w
  proof -
    have "excess (map to_ascii_lower w) \<le> int (snd (fold depth_step ?m (0, 0)))"
      using that by (intro excess_le_depth) (simp add: map_mono_sublist)
    then show ?thesis using checks(4) deepest by (simp add: lower_excess)
  qed
  then show ?thesis
    using checks excess_attained [of ?m]
    by (auto simp: deepest is_read_only_def is_disallowed_pragma_def Let_def list_ex_iff split: if_splits option.splits)
qed

theorem validate_query_accepts_witness:
  "let uc = \<lparr> uc_lowercase = map to_ascii_lower, uc_alphanumeric = (\<lambda>c. list_all is_ascii_alphanumeric c) \<rparr>
   in validate_query uc ''PRAGMA page_count'' = Inr () \<and> statement_count ''PRAGMA page_count'' \<le> 1"
proof -
  let ?uc = "\<lparr> uc_lowercase = map to_ascii_lower, uc_alphanumeric = (\<lambda>c. list_all is_ascii_alphanumeric c) \<rparr>"
  have "is_read_only ?uc ''PRAGMA page_count''" "\<not> is_pragma_write ?uc ''PRAGMA page_count''"
    "\<not> is_disallowed_pragma ?uc ''PRAGMA page_count''" "sql_nesting ''PRAGMA page_count'' = (0, 0)"
    "statement_count ''PRAGMA page_count'' = 1"
    by code_simp+
  then have "validate_query ?uc ''PRAGMA page_count'' = Inr ()"
    by (simp add: validate_query_def MAX_QUERY_SQL_BYTES_def)
  from validate_query_accepts [OF this] this show ?thesis by (simp add: Let_def)
qed

end
