(* ===== verification/Query_Policy.thy ===== *)
theory Query_Policy
  imports Sql_Scan "HOL-Library.Word"
begin

unbundle bit_operations_syntax

text \<open>
  What agent-supplied SQL may do on a connection (\<^verbatim>\<open>victauri-plugin/src/database.rs\<close>): the policy computed
  from the connection and the authorizer SQLite consults for every action it is about to compile.  The
  actions are those of \<^verbatim>\<open>rusqlite::hooks::AuthAction\<close> the source names; all others are one case.  The
  rows of \<^verbatim>\<open>pragma_function_list\<close> and the names of the R-Tree tables are what SQLite answers to the two
  statements of the source, hence arguments.
\<close>

section \<open>The policy\<close>

definition READ_PRAGMAS_WITH_ARG :: "string list" where
  "READ_PRAGMAS_WITH_ARG =
     [''table_info'', ''table_xinfo'', ''table_list'', ''index_list'', ''index_info'', ''index_xinfo'',
      ''foreign_key_list'', ''foreign_key_check'', ''integrity_check'', ''quick_check'']"

definition SQLITE_DETERMINISTIC_FLAG :: "64 word" where
  "SQLITE_DETERMINISTIC_FLAG = 0x800"

definition SQLITE_EXTENSION_FUNCTIONS :: "string list" where
  "SQLITE_EXTENSION_FUNCTIONS =
     [''match'', ''snippet'', ''offsets'', ''matchinfo'', ''bm25'', ''highlight'', ''fts5'',
      ''fts5_source_id'', ''fts5_get_locale'', ''fts5_locale'', ''fts5_insttoken'', ''rtreenode'',
      ''rtreedepth'', ''rtreecheck'', ''geopoly_area'', ''geopoly_bbox'', ''geopoly_blob'',
      ''geopoly_ccw'', ''geopoly_contains_point'', ''geopoly_group_bbox'', ''geopoly_json'',
      ''geopoly_overlap'', ''geopoly_regular'', ''geopoly_svg'', ''geopoly_within'', ''geopoly_xform'']"

definition SQLITE_BUILTIN_FUNCTIONS :: "string list" where
  "SQLITE_BUILTIN_FUNCTIONS =
     [''->'', ''->>'', ''abs'', ''acos'', ''acosh'', ''asin'', ''asinh'', ''atan'', ''atan2'', ''atanh'',
      ''avg'', ''ceil'', ''ceiling'', ''changes'', ''char'', ''coalesce'', ''concat'', ''concat_ws'',
      ''cos'', ''cosh'', ''count'', ''cume_dist'', ''current_date'', ''current_time'',
      ''current_timestamp'', ''date'', ''datetime'', ''degrees'', ''dense_rank'', ''exp'',
      ''first_value'', ''floor'', ''format'', ''glob'', ''group_concat'', ''hex'', ''if'', ''ifnull'',
      ''iif'', ''instr'', ''json'', ''json_array'', ''json_array_insert'', ''json_array_length'',
      ''json_error_position'', ''json_extract'', ''json_group_array'', ''json_group_object'',
      ''json_insert'', ''json_object'', ''json_patch'', ''json_pretty'', ''json_quote'',
      ''json_remove'', ''json_replace'', ''json_set'', ''json_type'', ''json_valid'', ''jsonb'',
      ''jsonb_array'', ''jsonb_array_insert'', ''jsonb_extract'', ''jsonb_group_array'',
      ''jsonb_group_object'', ''jsonb_insert'', ''jsonb_object'', ''jsonb_patch'', ''jsonb_remove'',
      ''jsonb_replace'', ''jsonb_set'', ''julianday'', ''lag'', ''last_insert_rowid'', ''last_value'',
      ''lead'', ''length'', ''like'', ''likelihood'', ''likely'', ''ln'', ''log'', ''log10'', ''log2'',
      ''lower'', ''ltrim'', ''max'', ''median'', ''min'', ''mod'', ''nth_value'', ''ntile'', ''nullif'',
      ''octet_length'', ''percent_rank'', ''percentile'', ''percentile_cont'', ''percentile_disc'',
      ''pi'', ''pow'', ''power'', ''printf'', ''quote'', ''radians'', ''random'', ''randomblob'',
      ''rank'', ''replace'', ''round'', ''row_number'', ''rtrim'', ''sign'', ''sin'', ''sinh'',
      ''soundex'', ''sqlite_compileoption_get'', ''sqlite_compileoption_used'', ''sqlite_log'',
      ''sqlite_offset'', ''sqlite_source_id'', ''sqlite_version'', ''sqrt'', ''strftime'',
      ''string_agg'', ''substr'', ''substring'', ''subtype'', ''sum'', ''tan'', ''tanh'', ''time'',
      ''timediff'', ''total'', ''total_changes'', ''trim'', ''trunc'', ''typeof'', ''unhex'',
      ''unicode'', ''unistr'', ''unistr_quote'', ''unixepoch'', ''unlikely'', ''upper'', ''zeroblob'']"

definition DENIED_FUNCTIONS :: "string list" where
  "DENIED_FUNCTIONS = [''load_extension'']"

record query_policy =
  qp_functions :: "string set"
  qp_rtree_shadow_tables :: "string set"
  qp_refused_function :: "string option"

text \<open>One row of \<^verbatim>\<open>pragma_function_list\<close>: name, \<^verbatim>\<open>builtin\<close> and \<^verbatim>\<open>flags\<close> (either may be NULL).\<close>

type_synonym function_row = "string \<times> 64 word option \<times> 64 word option"

definition row_ok :: "function_row \<Rightarrow> bool" where
  "row_ok row =
     (let name = map to_ascii_lower (fst row);
          builtin = ((case fst (snd row) of Some b \<Rightarrow> b | None \<Rightarrow> 0) = 1);
          flags = (case snd (snd row) of Some f \<Rightarrow> f | None \<Rightarrow> 0)
      in builtin \<or> flags AND SQLITE_DETERMINISTIC_FLAG \<noteq> 0 \<or> name \<in> set SQLITE_EXTENSION_FUNCTIONS)"

text \<open>A name's verdict is the conjunction over its registrations.\<close>

definition add_verdict :: "function_row \<Rightarrow> (string \<rightharpoonup> bool) \<Rightarrow> string \<rightharpoonup> bool" where
  "add_verdict row verdicts =
     (let name = map to_ascii_lower (fst row);
          verdict = (case verdicts name of Some v \<Rightarrow> v | None \<Rightarrow> True)
      in verdicts(name \<mapsto> (verdict \<and> row_ok row)))"

definition listed_functions :: "function_row list \<Rightarrow> string set" where
  "listed_functions rows =
     (let verdicts = fold add_verdict rows Map.empty
      in {name \<in> set (map (\<lambda>r. map to_ascii_lower (fst r)) rows). verdicts name = Some True})"

definition rtree_shadow_tables :: "string list \<Rightarrow> string set" where
  "rtree_shadow_tables names =
     set (concat (map (\<lambda>name. map (\<lambda>suffix. map to_ascii_lower name @ suffix) [''_node'', ''_rowid'', ''_parent''])
       names))"

text \<open>\<open>None\<close> for the rows: the connection cannot report its functions.\<close>

definition for_connection :: "function_row list option \<Rightarrow> string list \<Rightarrow> query_policy" where
  "for_connection rows names =
     (let functions = (case rows of
            Some rs \<Rightarrow> listed_functions rs
          | None \<Rightarrow> set (SQLITE_BUILTIN_FUNCTIONS @ SQLITE_EXTENSION_FUNCTIONS))
      in \<lparr> qp_functions = functions - set DENIED_FUNCTIONS,
           qp_rtree_shadow_tables = rtree_shadow_tables names,
           qp_refused_function = None \<rparr>)"

definition allows_function :: "string \<Rightarrow> query_policy \<Rightarrow> bool \<times> query_policy" where
  "allows_function name p =
     (if map to_ascii_lower name \<in> qp_functions p then (True, p)
      else (False, p\<lparr>qp_refused_function :=
                       (case qp_refused_function p of None \<Rightarrow> Some name | Some f \<Rightarrow> Some f)\<rparr>))"

definition is_rtree_shadow :: "query_policy \<Rightarrow> string option \<Rightarrow> string \<Rightarrow> bool" where
  "is_rtree_shadow p database table =
     ((case database of Some db \<Rightarrow> eq_ignore_ascii_case db ''main'' | None \<Rightarrow> False) \<and>
      map to_ascii_lower table \<in> qp_rtree_shadow_tables p)"

section \<open>The authorizer\<close>

datatype auth_action =
    Select
  | Read string string
  | Recursive
  | Function string
  | Insert string
  | Update string string
  | Delete string
  | Pragma string "string option"
  | OtherAction string

record auth_context =
  ac_action :: auth_action
  ac_database_name :: "string option"

datatype authorization = Allow | Deny

definition allow :: "bool \<Rightarrow> authorization" where
  "allow ok = (if ok then Allow else Deny)"

definition query_authorizer :: "auth_context \<Rightarrow> query_policy \<Rightarrow> authorization \<times> query_policy" where
  "query_authorizer ctx p =
     (case ac_action ctx of
        Select \<Rightarrow> (Allow, p)
      | Read _ _ \<Rightarrow> (Allow, p)
      | Recursive \<Rightarrow> (Allow, p)
      | Function name \<Rightarrow> (let (ok, p) = allows_function name p in (allow ok, p))
      | Insert table \<Rightarrow> (allow (is_rtree_shadow p (ac_database_name ctx) table), p)
      | Update table _ \<Rightarrow> (allow (is_rtree_shadow p (ac_database_name ctx) table), p)
      | Delete table \<Rightarrow> (allow (is_rtree_shadow p (ac_database_name ctx) table), p)
      | Pragma pname pvalue \<Rightarrow>
          (let name = map to_ascii_lower pname
           in (allow (name \<in> set SAFE_PRAGMAS \<and>
                      (pvalue = None \<or> name \<in> set READ_PRAGMAS_WITH_ARG)), p))
      | OtherAction _ \<Rightarrow> (Deny, p))"

text \<open>The actions of one statement, in the order SQLite asks, and what is left of the policy.\<close>

fun authorize :: "auth_context list \<Rightarrow> query_policy \<Rightarrow> authorization list \<times> query_policy" where
  "authorize [] p = ([], p)"
| "authorize (ctx # cs) p =
     (let (a, p) = query_authorizer ctx p; (as, p) = authorize cs p in (a # as, p))"

section \<open>Lemmas\<close>

lemma verdict_fold:
  "fold add_verdict rows v name =
     (if v name = None \<and> name \<notin> (\<lambda>r. map to_ascii_lower (fst r)) ` set rows then None
      else Some ((case v name of Some b \<Rightarrow> b | None \<Rightarrow> True) \<and>
                 (\<forall>r \<in> set rows. map to_ascii_lower (fst r) = name \<longrightarrow> row_ok r)))"
proof (induction rows arbitrary: v)
  case Nil
  then show ?case by (auto split: option.split)
next
  case (Cons r rows)
  show ?case unfolding fold_simps comp_apply Cons.IH
    by (cases "v name") (auto simp: add_verdict_def Let_def)
qed

lemma listed_functions_iff:
  "name \<in> listed_functions rows \<longleftrightarrow>
     (\<exists>r \<in> set rows. map to_ascii_lower (fst r) = name) \<and>
     (\<forall>r \<in> set rows. map to_ascii_lower (fst r) = name \<longrightarrow> row_ok r)"
  by (auto simp: listed_functions_def Let_def verdict_fold split: if_splits)

lemma query_authorizer_policy:
  "qp_functions (snd (query_authorizer ctx p)) = qp_functions p"
  "qp_rtree_shadow_tables (snd (query_authorizer ctx p)) = qp_rtree_shadow_tables p"
  by (auto simp: query_authorizer_def allows_function_def Let_def split: auth_action.split)

lemma authorize_length: "length (fst (authorize cs p)) = length cs"
  by (induction cs arbitrary: p) (simp_all add: Let_def case_prod_beta)

text \<open>What a verdict is does not depend on the actions before it.\<close>

lemma query_authorizer_cong:
  "qp_functions p = qp_functions q \<Longrightarrow> qp_rtree_shadow_tables p = qp_rtree_shadow_tables q \<Longrightarrow>
   fst (query_authorizer ctx p) = fst (query_authorizer ctx q)"
  by (auto simp: query_authorizer_def allows_function_def is_rtree_shadow_def Let_def split: auth_action.split)

lemma authorize_pointwise:
  "fst (authorize cs p) = map (\<lambda>ctx. fst (query_authorizer ctx p)) cs"
proof (induction cs arbitrary: p)
  case (Cons ctx cs)
  have "fst (query_authorizer c (snd (query_authorizer ctx p))) = fst (query_authorizer c p)" for c
    by (rule query_authorizer_cong) (simp_all add: query_authorizer_policy)
  then show ?case using Cons [of "snd (query_authorizer ctx p)"] by (simp add: Let_def case_prod_beta)
qed simp

text \<open>The first function refused is what the error reports.\<close>

lemma refused_first:
  "qp_refused_function (snd (authorize cs p)) =
     (case qp_refused_function p of
        Some f \<Rightarrow> Some f
      | None \<Rightarrow> List.find (\<lambda>name. map to_ascii_lower name \<notin> qp_functions p)
                 (List.map_filter (\<lambda>ctx. case ac_action ctx of Function name \<Rightarrow> Some name | _ \<Rightarrow> None) cs))"
proof (induction cs arbitrary: p)
  case Nil
  then show ?case by (simp split: option.split)
next
  case (Cons ctx cs)
  have "qp_refused_function (snd (authorize (ctx # cs) p)) =
      qp_refused_function (snd (authorize cs (snd (query_authorizer ctx p))))"
    by (simp add: Let_def case_prod_beta)
  then show ?case unfolding Cons.IH query_authorizer_policy
    by (cases "ac_action ctx"; cases "qp_refused_function p")
      (auto simp: query_authorizer_def allows_function_def Let_def List.map_filter_simps)
qed

section \<open>Properties\<close>



end
