(* ===== verification/Query_Result.thy ===== *)
theory Query_Result
  imports Query_Policy Json
begin

text \<open>
  The result of a query (\<^verbatim>\<open>victauri-plugin/src/database.rs\<close>, \<^verbatim>\<open>query_with_limits\<close> after the statement is
  prepared): the keys of the columns, the conversion of cells and the loop that charges every cell
  against the byte budget before it is converted.  The rows are what SQLite returns; \<^verbatim>\<open>serde_json\<close>
  (printing, its length, parsing), \<^verbatim>\<open>base64\<close> and \<^verbatim>\<open>String::from_utf8_lossy\<close> are arguments.
\<close>

section \<open>Cells\<close>

text \<open>
  \<^verbatim>\<open>json_len\<close> is the length of the compact encoding; \<open>ql_utf8_lossy\<close> gives the repaired text of invalid
  UTF-8 and \<open>None\<close> for valid text.
\<close>

record query_lib =
  ql_json_len :: "json \<Rightarrow> usize"
  ql_from_str :: "string \<Rightarrow> json option"
  ql_to_string :: "json \<Rightarrow> string option"
  ql_base64 :: "string \<Rightarrow> string"
  ql_utf8_lossy :: "string \<Rightarrow> string option"

datatype value_ref = VNull | VInteger int | VReal f64 | VText string | VBlob string

definition json_of_i64 :: "int \<Rightarrow> json" where
  "json_of_i64 i = JNumber (if i \<ge> 0 then PosInt (nat i) else NegInt i)"

text \<open>\<^verbatim>\<open>json!\<close> of a float: null for what JSON cannot express.\<close>

definition json_of_f64 :: "f64 \<Rightarrow> json" where
  "json_of_f64 f = (if f \<in> {F_NaN, F_PInf, F_NInf} then JNull else JNumber (Float f))"

text \<open>An object from a literal \<^verbatim>\<open>json!({..})\<close>.\<close>

definition json_object :: "(string \<times> json) list \<Rightarrow> json" where
  "json_object kvs = JObject (fold (\<lambda>(k, v). bt_insert k v) kvs [])"

record byte_walk =
  bw_in_string :: bool
  bw_escaped :: bool
  bw_counts :: "char \<Rightarrow> int"

definition count_byte :: "char \<Rightarrow> byte_walk \<Rightarrow> byte_walk" where
  "count_byte b w = w\<lparr>bw_counts := (bw_counts w)(b := bw_counts w b + 1)\<rparr>"

definition source_byte :: "char \<Rightarrow> byte_walk \<Rightarrow> byte_walk" where
  "source_byte b w =
     (if bw_in_string w then
        count_byte b
          (if bw_escaped w then w\<lparr>bw_escaped := False\<rparr>
           else if b = CHR 0x5C then w\<lparr>bw_escaped := True\<rparr>
           else if b = CHR 0x22 then w\<lparr>bw_in_string := False\<rparr>
           else w)
      else if b = CHR 0x22 then count_byte b (w\<lparr>bw_in_string := True\<rparr>)
      else if b \<in> {CHR 0x20, CHR 0x09, CHR 0x0A, CHR 0x0D} then w
      else count_byte b w)"

definition same_json_content :: "string \<Rightarrow> string \<Rightarrow> bool" where
  "same_json_content source encoded =
     (let w = fold source_byte source \<lparr> bw_in_string = False, bw_escaped = False, bw_counts = (\<lambda>_. 0) \<rparr>;
          counts = fold (\<lambda>b c. c(b := c b - 1)) encoded (bw_counts w)
      in \<forall>n \<in> {0 ..< 256 :: nat}. counts (char_of n) = 0)"

fun json_is_array :: "json \<Rightarrow> bool" where
  "json_is_array (JArray _) = True"
| "json_is_array _ = False"

text \<open>
  \<^verbatim>\<open>cell_to_json\<close>: \<open>None\<close> when the encoded size does not fit the budget.  A cell that cannot be read is
  null.
\<close>

definition cell_to_json :: "query_lib \<Rightarrow> value_ref option \<Rightarrow> usize \<Rightarrow> (json \<times> usize) option" where
  "cell_to_json lib cell budget =
     (let fits = (\<lambda>(v, n). if n \<le> budget then Some (v, n) else None);
          sized = (\<lambda>v. (v, ql_json_len lib v))
      in case cell of
           None \<Rightarrow> fits (JNull, 4)
         | Some VNull \<Rightarrow> fits (JNull, 4)
         | Some (VInteger i) \<Rightarrow> fits (sized (json_of_i64 i))
         | Some (VReal f) \<Rightarrow>
             if f64_is_inf f
             then fits (sized (json_object [(''__real'', JString (if f = F_PInf then ''Infinity'' else ''-Infinity''))]))
             else fits (sized (json_of_f64 f))
         | Some (VText t) \<Rightarrow>
             (case ql_utf8_lossy lib t of
                Some s \<Rightarrow>
                  fits (sized (json_object
                    [(''__invalid_utf8'', JBool True), (''text'', JString s), (''base64'', JString (ql_base64 lib t))]))
              | None \<Rightarrow>
                  (case ql_from_str lib t of
                     Some parsed \<Rightarrow>
                       if (json_is_object parsed \<or> json_is_array parsed) \<and>
                          (case ql_to_string lib parsed of Some encoded \<Rightarrow> same_json_content t encoded | None \<Rightarrow> False)
                       then fits (sized parsed)
                       else fits (sized (JString t))
                   | None \<Rightarrow> fits (sized (JString t))))
         | Some (VBlob b) \<Rightarrow>
             (let bytes = 35 + ql_json_len lib (JNumber (PosInt (length b))) + (length b + 2) div 3 * 4
              in fits (json_object [(''__blob'', JBool True), (''size'', JNumber (PosInt (length b))),
                                    (''base64'', JString (ql_base64 lib b))], bytes)))"

section \<open>Columns and rows\<close>

definition column_key :: "string list \<Rightarrow> string list \<Rightarrow> string \<Rightarrow> string" where
  "column_key originals used name =
     (if name \<notin> set used then name
      else suffixed '':'' name (next_suffix '':'' (used @ originals) name 0))"

definition unique_column_keys :: "string list \<Rightarrow> string list" where
  "unique_column_keys names = fold (\<lambda>name used. used @ [column_key names used name]) names []"

text \<open>
  One row: the cells in column order with the running size, or \<open>None\<close> when a cell does not fit.
\<close>

fun row_cells ::
  "query_lib \<Rightarrow> usize \<Rightarrow> usize \<Rightarrow> (string \<times> value_ref option) list \<Rightarrow> (string \<times> json) list \<Rightarrow> usize \<Rightarrow>
   ((string \<times> json) list \<times> usize) option" where
  "row_cells lib max_bytes result_bytes [] obj row_bytes = Some (obj, row_bytes)"
| "row_cells lib max_bytes result_bytes ((col, cell) # cells) obj row_bytes =
     (let key_bytes = ql_json_len lib (JString col) + 1;
          spent = sat_add (sat_add result_bytes row_bytes) key_bytes;
          budget = sat_sub max_bytes spent
      in case cell_to_json lib cell budget of
           None \<Rightarrow> None
         | Some (v, value_bytes) \<Rightarrow>
             row_cells lib max_bytes result_bytes cells (bt_insert col v obj)
               (sat_add (sat_add row_bytes key_bytes) value_bytes))"

record query_rows =
  qr_rows :: "json list"
  qr_result_bytes :: usize
  qr_truncated :: bool

definition row_overhead :: "string list \<Rightarrow> usize" where
  "row_overhead keys = 2 + sat_sub (length keys) 1"

text \<open>The loop over the rows (\<^verbatim>\<open>row.get_ref(i)\<close> is a function of \<open>i\<close>); a row that cannot be read ends the
  query with its error.\<close>

fun read_rows ::
  "query_lib \<Rightarrow> string list \<Rightarrow> usize \<Rightarrow> usize \<Rightarrow> (string + (usize \<Rightarrow> value_ref option)) list \<Rightarrow> json list \<Rightarrow> usize \<Rightarrow>
   string + query_rows" where
  "read_rows lib keys max_rows max_bytes [] out bytes =
     Inr \<lparr> qr_rows = out, qr_result_bytes = bytes, qr_truncated = False \<rparr>"
| "read_rows lib keys max_rows max_bytes (Inl e # rows) out bytes = Inl e"
| "read_rows lib keys max_rows max_bytes (Inr row # rows) out bytes =
     (let stop = Inr \<lparr> qr_rows = out, qr_result_bytes = bytes, qr_truncated = True \<rparr>
      in if length out \<ge> max_rows then stop
         else case row_cells lib max_bytes bytes (zip keys (map row [0 ..< length keys])) [] (row_overhead keys) of
                None \<Rightarrow> stop
              | Some (obj, row_bytes) \<Rightarrow>
                  if sat_add bytes row_bytes > max_bytes then stop
                  else read_rows lib keys max_rows max_bytes rows (out @ [JObject obj]) (sat_add bytes row_bytes))"

definition MAX_ROWS_DEFAULT :: usize where
  "MAX_ROWS_DEFAULT = 100"

definition MAX_ROWS_LIMIT :: usize where
  "MAX_ROWS_LIMIT = 10000"

definition query_rows_out ::
  "query_lib \<Rightarrow> string list \<Rightarrow> usize option \<Rightarrow> usize \<Rightarrow> (string + (usize \<Rightarrow> value_ref option)) list \<Rightarrow> string + query_rows" where
  "query_rows_out lib names max_rows max_bytes rows =
     (let max_rows = min (case max_rows of Some n \<Rightarrow> n | None \<Rightarrow> MAX_ROWS_DEFAULT) MAX_ROWS_LIMIT;
          keys = unique_column_keys names
      in read_rows lib keys max_rows max_bytes rows [] (ql_json_len lib (JArray (map JString keys))))"

section \<open>Column keys\<close>

lemma column_key_fresh: "column_key originals used name \<notin> set used"
  using next_suffix_fresh [of "'':''" name "used @ originals" 0] by (auto simp: column_key_def)

lemma column_key_original: "column_key originals used name \<in> set originals \<Longrightarrow> column_key originals used name = name"
  using next_suffix_fresh [of "'':''" name "used @ originals" 0] by (auto simp: column_key_def split: if_splits)

definition keys_ok :: "string list \<Rightarrow> string list \<Rightarrow> bool" where
  "keys_ok names keys \<longleftrightarrow> length keys = length names \<and> distinct keys \<and>
     (\<forall>i < length names. if names ! i \<in> set (take i names) then (\<exists>n. keys ! i = suffixed '':'' (names ! i) n)
                         else keys ! i = names ! i)"

lemma column_keys_fold:
  assumes "set names \<subseteq> set originals"
  shows "let keys = fold (\<lambda>name used. used @ [column_key originals used name]) names []
         in keys_ok names keys \<and> set keys \<inter> set originals = set names"
  using assms
proof (induction names rule: rev_induct)
  case Nil
  then show ?case by (simp add: keys_ok_def)
next
  case (snoc name names)
  let ?keys = "fold (\<lambda>name used. used @ [column_key originals used name]) names []"
  let ?k = "column_key originals ?keys name"
  have IH: "keys_ok names ?keys" "set ?keys \<inter> set originals = set names"
    using snoc by (auto simp: Let_def)
  have used: "name \<in> set ?keys \<longleftrightarrow> name \<in> set names" using IH(2) snoc.prems by auto
  have "if name \<in> set names then (\<exists>n. ?k = suffixed '':'' name n) else ?k = name"
    using used by (auto simp: column_key_def)
  then have "keys_ok (names @ [name]) (?keys @ [?k])"
    using IH(1) column_key_fresh [of originals ?keys name]
    by (auto simp: keys_ok_def nth_append less_Suc_eq)
  moreover have "set (?keys @ [?k]) \<inter> set originals = set (names @ [name])"
  proof -
    have "?k \<in> set originals \<Longrightarrow> ?k = name" by (rule column_key_original)
    moreover have "name \<notin> set names \<Longrightarrow> ?k = name" using used by (simp add: column_key_def)
    ultimately show ?thesis using IH(2) snoc.prems by auto
  qed
  ultimately show ?case by (simp add: Let_def)
qed

lemma unique_keys_ok: "keys_ok names (unique_column_keys names)"
  using column_keys_fold [of names names] by (simp add: Let_def unique_column_keys_def)

section \<open>Sizes\<close>

text \<open>
  What is used of the encoders: compact JSON has no blanks, an object's size is that of its braces,
  commas, keys, colons and values, a printable ASCII text without quotes and backslashes is encoded
  unchanged, and base64 is such a text, four characters for every started group of three bytes.
\<close>

definition plain_text :: "string \<Rightarrow> bool" where
  "plain_text s = list_all (\<lambda>c. 32 \<le> (of_char c :: nat) \<and> (of_char c :: nat) < 127 \<and> c \<noteq> CHR 0x22 \<and> c \<noteq> CHR 0x5C) s"

definition compact_encoding :: "query_lib \<Rightarrow> bool" where
  "compact_encoding lib \<longleftrightarrow>
     ql_json_len lib JNull = 4 \<and> ql_json_len lib (JBool True) = 4 \<and> (\<forall>v. 0 < ql_json_len lib v) \<and>
     (\<forall>s. plain_text s \<longrightarrow> ql_json_len lib (JString s) = 2 + length s) \<and>
     (\<forall>m. ql_json_len lib (JObject m) =
        2 + (length m - 1) + (\<Sum>kv \<leftarrow> m. ql_json_len lib (JString (fst kv)) + 1 + ql_json_len lib (snd kv))) \<and>
     (\<forall>b. plain_text (ql_base64 lib b) \<and> length (ql_base64 lib b) = (length b + 2) div 3 * 4)"

lemma blob_size:
  assumes "compact_encoding lib"
  shows "ql_json_len lib (json_object [(''__blob'', JBool True), (''size'', JNumber (PosInt n)),
      (''base64'', JString (ql_base64 lib b))]) =
    35 + ql_json_len lib (JNumber (PosInt n)) + (length b + 2) div 3 * 4"
proof -
  have "plain_text ''__blob''" "plain_text ''size''" "plain_text ''base64''" by code_simp+
  moreover have "json_object [(''__blob'', JBool True), (''size'', JNumber (PosInt n)), (''base64'', JString (ql_base64 lib b))] =
    JObject [(''__blob'', JBool True), (''base64'', JString (ql_base64 lib b)), (''size'', JNumber (PosInt n))]"
    by (simp add: json_object_def less_list_code)
  ultimately show ?thesis using assms by (simp add: compact_encoding_def)
qed

lemma cell_size:
  assumes "compact_encoding lib" "cell_to_json lib cell budget = Some (v, n)"
  shows "n = ql_json_len lib v \<and> n \<le> budget"
  using assms blob_size [OF assms(1)]
  by (auto simp: cell_to_json_def Let_def compact_encoding_def split: option.splits value_ref.splits if_splits)

definition converts_to :: "query_lib \<Rightarrow> value_ref option \<Rightarrow> json \<Rightarrow> bool" where
  "converts_to lib cell v = (\<exists>budget n. cell_to_json lib cell budget = Some (v, n))"

text \<open>The row loop never saturates: a cell that fits leaves its exact size.\<close>

lemma row_cells_exact:
  assumes lib: "compact_encoding lib" and "max_bytes < u64_max"
    and "row_cells lib max_bytes bytes cells obj row_bytes = Some (obj', row_bytes')"
    and "distinct (map fst cells)" "fst ` set cells \<inter> fst ` set obj = {}" "sorted_wrt (<) (map fst obj)"
    and "row_bytes = c + (\<Sum>kv \<leftarrow> obj. ql_json_len lib (JString (fst kv)) + 1 + ql_json_len lib (snd kv))"
  shows "row_bytes' = c + (\<Sum>kv \<leftarrow> obj'. ql_json_len lib (JString (fst kv)) + 1 + ql_json_len lib (snd kv)) \<and>
    sorted_wrt (<) (map fst obj') \<and> fst ` set obj' = fst ` set cells \<union> fst ` set obj \<and>
    (\<forall>(col, cell) \<in> set cells. \<exists>v. map_of obj' col = Some v \<and> converts_to lib cell v) \<and>
    (\<forall>k \<in> fst ` set obj. map_of obj' k = map_of obj k)"
  using assms(3-)
proof (induction cells arbitrary: obj row_bytes)
  case Nil
  then show ?case by auto
next
  case (Cons cc cells)
  obtain col cell where cc: "cc = (col, cell)" by (cases cc)
  let ?key = "ql_json_len lib (JString col) + 1"
  let ?spent = "sat_add (sat_add bytes row_bytes) ?key"
  obtain v n where v: "cell_to_json lib cell (max_bytes - ?spent) = Some (v, n)"
    and rest: "row_cells lib max_bytes bytes cells (bt_insert col v obj) (sat_add (sat_add row_bytes ?key) n) = Some (obj', row_bytes')"
    using Cons.prems(1) unfolding cc by (auto simp: Let_def split: option.splits)
  have n: "n = ql_json_len lib v" "n \<le> max_bytes - ?spent" "0 < n"
    using cell_size [OF lib v] lib by (auto simp: compact_encoding_def)
  have "bytes + row_bytes + ?key + n \<le> max_bytes"
    using n(2,3) assms(2) by (auto simp: sat_add_def min_def split: if_splits)
  then have exact: "sat_add (sat_add row_bytes ?key) n = row_bytes + ?key + n"
    using assms(2) by (simp add: sat_add_def)
  have fresh: "col \<notin> fst ` set obj" using Cons.prems(3) cc by auto
  have "mset (bt_insert col v obj) = add_mset (col, v) (mset obj)"
    using fresh by (rule bt_insert_fresh_mset)
  then have sum: "(\<Sum>kv \<leftarrow> bt_insert col v obj. f kv) = f (col, v) + (\<Sum>kv \<leftarrow> obj. f kv)" for f :: "_ \<Rightarrow> nat"
    by (metis (no_types, lifting) image_mset_add_mset mset_map sum_mset.add_mset sum_mset_sum_list)
  have size: "sat_add (sat_add row_bytes ?key) n =
      c + (\<Sum>kv \<leftarrow> bt_insert col v obj. ql_json_len lib (JString (fst kv)) + 1 + ql_json_len lib (snd kv))"
    unfolding exact sum using Cons.prems(5) n(1) by simp
  have IH: "row_bytes' = c + (\<Sum>kv \<leftarrow> obj'. ql_json_len lib (JString (fst kv)) + 1 + ql_json_len lib (snd kv)) \<and>
    sorted_wrt (<) (map fst obj') \<and> fst ` set obj' = fst ` set cells \<union> fst ` set (bt_insert col v obj) \<and>
    (\<forall>(col, cell) \<in> set cells. \<exists>v. map_of obj' col = Some v \<and> converts_to lib cell v) \<and>
    (\<forall>k \<in> fst ` set (bt_insert col v obj). map_of obj' k = map_of (bt_insert col v obj) k)"
    using Cons.prems(2-4) cc fresh
    by (intro Cons.IH [OF rest _ _ _ size]) (auto simp: bt_insert_keys bt_insert_sorted)
  have "converts_to lib cell v" using v by (auto simp: converts_to_def)
  moreover have "map_of obj' col = Some v" using IH by (simp add: bt_insert_keys bt_insert_lookup)
  moreover have "map_of obj' k = map_of obj k" if "k \<in> fst ` set obj" for k
  proof -
    have "k \<in> fst ` set (bt_insert col v obj)" using that by (simp add: bt_insert_keys)
    then have "map_of obj' k = map_of (bt_insert col v obj) k" using IH by blast
    moreover have "k \<noteq> col" using that fresh by blast
    ultimately show ?thesis by (simp add: bt_insert_lookup)
  qed
  ultimately show ?case using IH cc by (auto simp: bt_insert_keys)
qed

definition row_matches :: "query_lib \<Rightarrow> string list \<Rightarrow> string + (usize \<Rightarrow> value_ref option) \<Rightarrow> json \<Rightarrow> bool" where
  "row_matches lib keys x j \<longleftrightarrow> (\<exists>row obj. x = Inr row \<and> j = JObject obj \<and> map fst obj = sort keys \<and>
     (\<forall>i < length keys. \<exists>v. map_of obj (keys ! i) = Some v \<and> converts_to lib (row i) v))"

lemma row_exact:
  assumes "compact_encoding lib" "max_bytes < u64_max" "distinct keys"
    and "row_cells lib max_bytes bytes (zip keys (map row [0 ..< length keys])) [] (row_overhead keys) = Some (obj, row_bytes)"
  shows "row_matches lib keys (Inr row) (JObject obj) \<and> row_bytes = ql_json_len lib (JObject obj)"
proof -
  let ?cells = "zip keys (map row [0 ..< length keys])"
  have fst: "map fst ?cells = keys" by simp
  then have keys: "fst ` set ?cells = set keys" by (metis list.set_map)
  have *: "row_bytes = row_overhead keys +
      (\<Sum>kv \<leftarrow> obj. ql_json_len lib (JString (fst kv)) + 1 + ql_json_len lib (snd kv)) \<and>
    sorted_wrt (<) (map fst obj) \<and> fst ` set obj = fst ` set ?cells \<union> fst ` set ([] :: (string \<times> json) list) \<and>
    (\<forall>(col, cell) \<in> set ?cells. \<exists>v. map_of obj col = Some v \<and> converts_to lib cell v) \<and>
    (\<forall>k \<in> fst ` set ([] :: (string \<times> json) list). map_of obj k = map_of [] k)"
    by (rule row_cells_exact [OF assms(1,2,4)]) (simp_all add: assms(3))
  have sorted: "sorted (map fst obj)" "distinct (map fst obj)"
    using * by (auto simp: strict_sorted_iff)
  moreover have "set (map fst obj) = set (sort keys)" using * keys by simp
  ultimately have sort: "map fst obj = sort keys"
    using assms(3) by (intro sorted_distinct_set_unique) simp_all
  then have "length obj = length keys" by (metis length_map length_sort)
  then have "row_bytes = ql_json_len lib (JObject obj)"
    using * assms(1) by (simp add: compact_encoding_def row_overhead_def)
  moreover have "\<exists>v. map_of obj (keys ! i) = Some v \<and> converts_to lib (row i) v" if "i < length keys" for i
  proof -
    have "(keys ! i, row i) \<in> set ?cells" using that by (auto simp: set_zip)
    then show ?thesis using * by blast
  qed
  ultimately show ?thesis using sort by (auto simp: row_matches_def)
qed

lemma read_rows_exact:
  assumes "compact_encoding lib" "max_bytes < u64_max" "distinct keys"
    and "read_rows lib keys max_rows max_bytes rows out bytes = Inr r"
  shows "\<exists>new. qr_rows r = out @ new \<and> length new \<le> length rows \<and>
    length (out @ new) \<le> max max_rows (length out) \<and>
    (\<forall>i < length new. row_matches lib keys (rows ! i) (new ! i)) \<and>
    qr_result_bytes r = bytes + (\<Sum>v \<leftarrow> new. ql_json_len lib v) \<and>
    (new \<noteq> [] \<longrightarrow> qr_result_bytes r \<le> max_bytes) \<and>
    (\<not> qr_truncated r \<longrightarrow> length new = length rows)"
  using assms(4)
proof (induction rows arbitrary: out bytes)
  case Nil
  then show ?case by (intro exI [of _ "[]"]) auto
next
  case (Cons x rows)
  obtain row where x: "x = Inr row" using Cons.prems by (cases x) simp_all
  show ?case
  proof (cases "length out < max_rows \<and> (\<exists>obj row_bytes.
      row_cells lib max_bytes bytes (zip keys (map row [0 ..< length keys])) [] (row_overhead keys) = Some (obj, row_bytes) \<and>
      sat_add bytes row_bytes \<le> max_bytes)")
    case False
    then have "qr_rows r = out" "qr_result_bytes r = bytes" "qr_truncated r"
      using Cons.prems x by (auto simp: Let_def split: if_splits option.splits)
    then show ?thesis by (intro exI [of _ "[]"]) simp
  next
    case True
    then obtain obj row_bytes where
      cells: "row_cells lib max_bytes bytes (zip keys (map row [0 ..< length keys])) [] (row_overhead keys) = Some (obj, row_bytes)"
      and fits: "sat_add bytes row_bytes \<le> max_bytes" and room: "length out < max_rows" by blast
    have obj: "row_matches lib keys x (JObject obj)" "row_bytes = ql_json_len lib (JObject obj)"
      using row_exact [OF assms(1-3) cells] x by auto
    have bytes: "sat_add bytes row_bytes = bytes + row_bytes"
      using fits assms(2) by (auto simp: sat_add_def min_def split: if_splits)
    have "read_rows lib keys max_rows max_bytes rows (out @ [JObject obj]) (bytes + row_bytes) = Inr r"
      using Cons.prems cells fits room by (simp add: x Let_def bytes)
    from Cons.IH [OF this] obtain new where new: "qr_rows r = (out @ [JObject obj]) @ new" "length new \<le> length rows"
      "length ((out @ [JObject obj]) @ new) \<le> max max_rows (length (out @ [JObject obj]))"
      "\<forall>i < length new. row_matches lib keys (rows ! i) (new ! i)"
      "qr_result_bytes r = bytes + row_bytes + (\<Sum>v \<leftarrow> new. ql_json_len lib v)"
      "new \<noteq> [] \<longrightarrow> qr_result_bytes r \<le> max_bytes" "\<not> qr_truncated r \<longrightarrow> length new = length rows"
      by blast
    have "\<forall>i < length (JObject obj # new). row_matches lib keys ((x # rows) ! i) ((JObject obj # new) ! i)"
      using new(4) obj(1) by (auto simp: nth_Cons split: nat.split)
    moreover have "qr_result_bytes r \<le> max_bytes" using new(5,6) fits bytes by (cases "new = []") simp_all
    ultimately show ?thesis using new room obj(2) by (intro exI [of _ "JObject obj # new"]) auto
  qed
qed

section \<open>Properties\<close>

text \<open>
  Column keys are unique and lose nothing: there is one key per column, no two are equal, the first
  column of a name keeps the name, and a repeated one gets the name with a number, never the name of
  another column.  The search for a free number ends for every list of names.
\<close>

theorem column_keys_unique:
  "let keys = unique_column_keys names
   in length keys = length names \<and> distinct keys \<and>
      (\<forall>i < length names. if names ! i \<in> set (take i names) then (\<exists>n. keys ! i = suffixed '':'' (names ! i) n)
                          else keys ! i = names ! i) \<and>
      set keys \<inter> set names = set names"
  using unique_keys_ok [of names] column_keys_fold [of names names]
  by (simp add: keys_ok_def Let_def unique_column_keys_def)

theorem column_keys_unique_witness:
  "unique_column_keys [''a'', ''a'', ''a:1''] = [''a'', ''a:2'', ''a:1''] \<and>
   distinct (unique_column_keys [''a'', ''a'', ''a:1''])"
proof
  show "distinct (unique_column_keys [''a'', ''a'', ''a:1''])"
    using column_keys_unique [of "[''a'', ''a'', ''a:1'']"] by (simp add: Let_def)
  show "unique_column_keys [''a'', ''a'', ''a:1''] = [''a'', ''a:2'', ''a:1'']"
    by code_simp
qed

text \<open>
  (C26) The reported result is exact and within its budget: the rows returned are the first rows of the
  statement in order, each an object with exactly one entry per column key holding that column's cell;
  there are at most the requested number and at most 10000; \<^verbatim>\<open>result_bytes\<close> is the size of the encoded
  column list and rows, at most the byte budget whenever a row is returned; and unless \<^verbatim>\<open>truncated\<close> is set
  no row is missing.
\<close>

theorem query_result_exact:
  assumes "compact_encoding lib" "max_bytes < u64_max" "query_rows_out lib names max_rows max_bytes rows = Inr r"
  shows "let keys = unique_column_keys names; n = length (qr_rows r)
    in n \<le> length rows \<and> n \<le> 10000 \<and> (\<forall>m. max_rows = Some m \<longrightarrow> n \<le> m) \<and>
       (\<forall>i < n. row_matches lib keys (rows ! i) (qr_rows r ! i)) \<and>
       qr_result_bytes r = ql_json_len lib (JArray (map JString keys)) + (\<Sum>v \<leftarrow> qr_rows r. ql_json_len lib v) \<and>
       (0 < n \<longrightarrow> qr_result_bytes r \<le> max_bytes) \<and>
       (\<not> qr_truncated r \<longrightarrow> n = length rows)"
proof -
  have "distinct (unique_column_keys names)" using unique_keys_ok by (simp add: keys_ok_def)
  from read_rows_exact [OF assms(1,2) this] show ?thesis
    using assms(3) unfolding query_rows_out_def Let_def
    by (fastforce simp: MAX_ROWS_LIMIT_def)
qed

text \<open>A compact encoding of values without characters to escape.\<close>

fun demo_len :: "json \<Rightarrow> nat" where
  "demo_len JNull = 4"
| "demo_len (JBool b) = (if b then 4 else 5)"
| "demo_len (JNumber n) = 1"
| "demo_len (JString s) = 2 + length s"
| "demo_len (JArray vs) = 2 + (length vs - 1) + (\<Sum>v \<leftarrow> vs. demo_len v)"
| "demo_len (JObject m) = 2 + (length m - 1) + (\<Sum>kv \<leftarrow> m. 2 + length (fst kv) + 1 + demo_len (snd kv))"

definition demo_query_lib :: query_lib where
  "demo_query_lib = \<lparr> ql_json_len = demo_len, ql_from_str = (\<lambda>_. None), ql_to_string = (\<lambda>_. None),
     ql_base64 = (\<lambda>b. replicate ((length b + 2) div 3 * 4) (CHR ''A'')), ql_utf8_lossy = (\<lambda>_. None) \<rparr>"

lemma demo_compact: "compact_encoding demo_query_lib"
proof -
  have "0 < demo_len v" for v by (cases v) simp_all
  then show ?thesis by (simp add: compact_encoding_def demo_query_lib_def plain_text_def list_all_iff)
qed

theorem query_result_exact_witness:
  "\<exists>r. query_rows_out demo_query_lib [''n'', ''n''] (Some 1) 100 [Inr (\<lambda>_. None), Inr (\<lambda>_. None)] = Inr r \<and>
     length (qr_rows r) \<le> 1 \<and> qr_result_bytes r \<le> 100 \<and> qr_truncated r"
proof -
  let ?rows = "[Inr (\<lambda>_. None), Inr (\<lambda>_. None)] :: (string + (usize \<Rightarrow> value_ref option)) list"
  have "unique_column_keys [''n'', ''n''] = [''n'', ''n:1'']" by code_simp
  then obtain r where r: "query_rows_out demo_query_lib [''n'', ''n''] (Some 1) 100 ?rows = Inr r"
    and "qr_truncated r" "qr_rows r \<noteq> []"
    by (simp add: query_rows_out_def MAX_ROWS_LIMIT_def row_overhead_def cell_to_json_def demo_query_lib_def
        sat_add_def u64_max_def Let_def)
  then show ?thesis using query_result_exact [OF demo_compact _ r] by (simp add: u64_max_def Let_def)
qed

end
