(* ===== verification/View_Chain.thy ===== *)
theory View_Chain
  imports Sql_Scan
begin

text \<open>
  The schema check of \<^verbatim>\<open>query_db\<close> (\<^verbatim>\<open>victauri-plugin/src/database.rs\<close>): the tokens of a view's
  definition, the name it defines and the tables it may select from, and the cost of the deepest chain
  of views, computed with Tarjan's strongly connected components on an explicit stack.  Vectors used as
  stacks (open clauses, depth-first stack, group) are lists with the top first; the tables indexed by
  node (\<^verbatim>\<open>order\<close>, \<^verbatim>\<open>low\<close>, \<^verbatim>\<open>open\<close>, \<^verbatim>\<open>chain\<close>) are functions, and every index used is a node.
\<close>

section \<open>Reading a view\<close>

record sql_word =
  sw_text :: string
  sw_quoted :: bool

definition bare :: "string \<Rightarrow> sql_word" where
  "bare t = \<lparr> sw_text = t, sw_quoted = False \<rparr>"

fun quoted_word :: "char \<Rightarrow> string \<Rightarrow> string \<times> string" where
  "quoted_word c [] = ([], [])"
| "quoted_word c (n # rest) =
     (if n \<noteq> closing c then (let (w, r) = quoted_word c rest in (n # w, r))
      else (case rest of
              [] \<Rightarrow> ([], rest)
            | d # rest' \<Rightarrow>
                if c \<noteq> CHR ''['' \<and> d = closing c then (let (w, r) = quoted_word c rest' in (n # w, r))
                else ([], rest)))"

lemma quoted_word_rest: "length (snd (quoted_word c s)) \<le> length s"
  by (induction c s rule: quoted_word.induct) (simp_all add: Let_def case_prod_beta le_SucI split: list.split)

function words_of :: "string \<Rightarrow> sql_word list" where
  "words_of [] = []"
| "words_of (c # rest) =
     (if c \<in> set quote_chars then
        \<lparr> sw_text = map to_ascii_lower (fst (quoted_word c rest)), sw_quoted = True \<rparr> # words_of (snd (quoted_word c rest))
      else if c \<in> set ''.,()'' then bare [c] # words_of rest
      else if is_sqlite_id_char c then
        bare (map to_ascii_lower (c # takeWhile is_sqlite_id_char rest)) # words_of (dropWhile is_sqlite_id_char rest)
      else words_of rest)"
  by pat_completeness auto
termination
  by (relation "measure length") (simp_all add: quoted_word_rest length_dropWhile_le le_imp_less_Suc)

definition sql_words :: "string \<Rightarrow> sql_word list" where
  "sql_words sql = words_of (ss_cleaned (scan_sql sql))"

definition word_at :: "sql_word list \<Rightarrow> usize \<Rightarrow> string option" where
  "word_at words i = (if i < length words then Some (sw_text (words ! i)) else None)"

definition view_definition :: "sql_word list \<Rightarrow> (string \<times> usize) option" where
  "view_definition words =
     (let word = word_at words
      in if word 0 \<noteq> Some ''create'' then None
         else let at = (if word 1 = Some ''temp'' \<or> word 1 = Some ''temporary'' then 2 else 1)
              in if word at \<noteq> Some ''view'' then None
                 else let at = at + 1;
                          at = (if (word at, word (at + 1), word (at + 2)) = (Some ''if'', Some ''not'', Some ''exists'')
                                then at + 3 else at);
                          at = (if word (at + 1) = Some ''.'' then at + 2 else at)
                      in (case word at of None \<Rightarrow> None | Some name \<Rightarrow> Some (name, at + 1)))"

datatype clause = Expressions | Tables | JoinCondition

text \<open>\<^verbatim>\<open>name_at\<close>: the next word, unless it is punctuation.\<close>

fun name_next :: "sql_word list \<Rightarrow> string option" where
  "name_next [] = None"
| "name_next (w # ws) =
     (if sw_quoted w \<or> sw_text w \<notin> {''('', '')'', '','', ''.''} then Some (sw_text w) else None)"

definition in_mentions :: "sql_word list \<Rightarrow> string list" where
  "in_mentions rest =
     (case name_next rest of
        None \<Rightarrow> []
      | Some name \<Rightarrow> name #
          (case drop 1 rest of
             w # rest' \<Rightarrow> if \<not> sw_quoted w \<and> sw_text w = ''.''
                         then (case name_next rest' of Some t \<Rightarrow> [t] | None \<Rightarrow> []) else []
           | [] \<Rightarrow> []))"

fun mentions_from :: "clause list \<Rightarrow> sql_word list \<Rightarrow> string list" where
  "mentions_from clauses [] = []"
| "mentions_from [] ws = []"
| "mentions_from (clause # outer) (w # rest) =
     (let here = (if clause = Tables then [sw_text w] else [])
      in if sw_quoted w then here @ mentions_from (clause # outer) rest
         else if sw_text w = ''('' then
           mentions_from ((if clause = Tables then Tables else Expressions) # clause # outer) rest
         else if sw_text w = '')'' then
           mentions_from (if outer \<noteq> [] then outer else clause # outer) rest
         else if sw_text w = ''.'' then mentions_from (clause # outer) rest
         else if sw_text w = '','' then
           mentions_from ((if clause = JoinCondition then Tables else clause) # outer) rest
         else if sw_text w \<in> {''select'', ''where'', ''group'', ''having'', ''order'', ''limit''} then
           mentions_from (Expressions # outer) rest
         else if sw_text w \<in> {''from'', ''join''} then mentions_from (Tables # outer) rest
         else if sw_text w \<in> {''on'', ''using''} \<and> clause = Tables then
           mentions_from (JoinCondition # outer) rest
         else if sw_text w = ''in'' then in_mentions rest @ mentions_from (clause # outer) rest
         else here @ mentions_from (clause # outer) rest)"

definition table_mentions :: "sql_word list \<Rightarrow> string list" where
  "table_mentions body = mentions_from [Expressions] body"

section \<open>The graph of views\<close>

record view_graph =
  vg_index :: "string \<rightharpoonup> usize"
  vg_own :: "usize list"
  vg_parsed :: "(usize \<times> sql_word list \<times> usize) list"

definition add_view :: "string \<times> usize \<Rightarrow> view_graph \<Rightarrow> view_graph" where
  "add_view view g =
     (let (text, cost) = view; words = sql_words text
      in case view_definition words of
           None \<Rightarrow> g
         | Some (name, body) \<Rightarrow>
             (let (node, g) = (case vg_index g name of
                    Some node \<Rightarrow> (node, g)
                  | None \<Rightarrow> (length (vg_own g),
                            g\<lparr>vg_index := (vg_index g)(name \<mapsto> length (vg_own g)), vg_own := vg_own g @ [0]\<rparr>))
              in g\<lparr>vg_own := (vg_own g)[node := max (vg_own g ! node) cost],
                   vg_parsed := vg_parsed g @ [(node, words, body)]\<rparr>))"

definition build_graph :: "(string \<times> usize) list \<Rightarrow> view_graph" where
  "build_graph views = fold add_view views \<lparr> vg_index = Map.empty, vg_own = [], vg_parsed = [] \<rparr>"

definition graph_deps :: "view_graph \<Rightarrow> usize list list" where
  "graph_deps g =
     fold (\<lambda>(node, words, body) deps.
             deps[node := deps ! node @ List.map_filter (vg_index g) (table_mentions (drop body words))])
       (vg_parsed g) (replicate (length (vg_own g)) [])"

section \<open>The search\<close>

record tarjan =
  tj_order :: "usize \<Rightarrow> usize"
  tj_low :: "usize \<Rightarrow> usize"
  tj_open :: "usize \<Rightarrow> bool"
  tj_group :: "usize list"
  tj_chain :: "usize \<Rightarrow> usize"
  tj_visited :: usize
  tj_deepest :: usize
  tj_stack :: "(usize \<times> usize) list"

definition tarjan_new :: tarjan where
  "tarjan_new = \<lparr> tj_order = (\<lambda>_. 0), tj_low = (\<lambda>_. 0), tj_open = (\<lambda>_. False), tj_group = [],
     tj_chain = (\<lambda>_. 0), tj_visited = 0, tj_deepest = 0, tj_stack = [] \<rparr>"

text \<open>A node seen for the first time (the \<^verbatim>\<open>root\<close> and the \<^verbatim>\<open>dep\<close> case of the source).\<close>

definition visit :: "usize \<Rightarrow> tarjan \<Rightarrow> tarjan" where
  "visit v s =
     (let n = tj_visited s + 1
      in s\<lparr>tj_visited := n, tj_order := (tj_order s)(v := n), tj_low := (tj_low s)(v := n),
           tj_open := (tj_open s)(v := True), tj_group := v # tj_group s, tj_stack := (v, 0) # tj_stack s\<rparr>)"

text \<open>
  Closing the group of a node: \<^verbatim>\<open>rposition\<close> and \<^verbatim>\<open>split_off\<close> take the members from the top down to it.
\<close>

definition close_group :: "usize list \<Rightarrow> usize list list \<Rightarrow> usize \<Rightarrow> tarjan \<Rightarrow> tarjan" where
  "close_group own deps node s =
     (let members = takeWhile (\<lambda>m. m \<noteq> node) (tj_group s) @ (if node \<in> set (tj_group s) then [node] else []);
          rest = drop (length members) (tj_group s);
          cost = fold (\<lambda>m sum. sat_add sum (own ! m)) members 0;
          below = fold max (map (tj_chain s) (concat (map (\<lambda>m. deps ! m) members))) 0;
          total_cost = sat_add cost below
      in s\<lparr>tj_group := rest,
           tj_open := (\<lambda>v. if v \<in> set members then False else tj_open s v),
           tj_chain := (\<lambda>v. if v \<in> set members then total_cost else tj_chain s v),
           tj_deepest := max (tj_deepest s) total_cost\<rparr>)"

text \<open>One round of the inner loop.\<close>

definition tj_step :: "usize list \<Rightarrow> usize list list \<Rightarrow> tarjan \<Rightarrow> tarjan" where
  "tj_step own deps s =
     (case tj_stack s of
        [] \<Rightarrow> s
      | (node, k) # frames \<Rightarrow>
          if k < length (deps ! node) then
            (let dep = deps ! node ! k;
                 s = s\<lparr>tj_stack := (node, Suc k) # frames\<rparr>
             in if tj_order s dep = 0 then visit dep s
                else if tj_open s dep then s\<lparr>tj_low := (tj_low s)(node := min (tj_low s node) (tj_order s dep))\<rparr>
                else s)
          else
            (let s = s\<lparr>tj_stack := frames\<rparr>;
                 s = (case frames of
                        [] \<Rightarrow> s
                      | (parent, _) # _ \<Rightarrow> s\<lparr>tj_low := (tj_low s)(parent := min (tj_low s parent) (tj_low s node))\<rparr>)
             in if tj_low s node \<noteq> tj_order s node then s else close_group own deps node s))"

partial_function (option) tj_loop :: "usize list \<Rightarrow> usize list list \<Rightarrow> tarjan \<Rightarrow> tarjan option" where
  "tj_loop own deps s = (if tj_stack s = [] then Some s else tj_loop own deps (tj_step own deps s))"

fun tj_roots :: "usize list \<Rightarrow> usize list list \<Rightarrow> usize list \<Rightarrow> tarjan \<Rightarrow> tarjan option" where
  "tj_roots own deps [] s = Some s"
| "tj_roots own deps (root # roots) s =
     (if tj_order s root \<noteq> 0 then tj_roots own deps roots s
      else (case tj_loop own deps (visit root s) of
              None \<Rightarrow> None
            | Some s \<Rightarrow> tj_roots own deps roots s))"

definition deepest_view_chain :: "(string \<times> usize) list \<Rightarrow> usize option" where
  "deepest_view_chain views =
     (let g = build_graph views; own = vg_own g
      in map_option tj_deepest (tj_roots own (graph_deps g) [0 ..< length own] tarjan_new))"

section \<open>The invariant of the search\<close>

definition nodes :: "tarjan \<Rightarrow> usize list" where
  "nodes s = map fst (tj_stack s)"

definition closed :: "tarjan \<Rightarrow> usize \<Rightarrow> bool" where
  "closed s v \<longleftrightarrow> tj_order s v \<noteq> 0 \<and> \<not> tj_open s v"

text \<open>Numbers are given once, the group is what is open, newest first, and the stack is part of it.\<close>

definition inv_shape :: "usize list list \<Rightarrow> tarjan \<Rightarrow> bool" where
  "inv_shape deps s \<longleftrightarrow>
     (\<forall>v. tj_order s v \<le> tj_visited s) \<and>
     (\<forall>u v. tj_order s u \<noteq> 0 \<longrightarrow> tj_order s u = tj_order s v \<longrightarrow> u = v) \<and>
     (\<forall>v. tj_order s v \<noteq> 0 \<longrightarrow> v < length deps) \<and>
     (\<forall>v. tj_open s v \<longleftrightarrow> v \<in> set (tj_group s)) \<and>
     (\<forall>v. tj_open s v \<longrightarrow> tj_order s v \<noteq> 0) \<and>
     sorted_wrt (\<lambda>a b. tj_order s b < tj_order s a) (tj_group s) \<and>
     sorted_wrt (\<lambda>a b. tj_order s b < tj_order s a) (nodes s) \<and>
     (\<forall>v \<in> set (nodes s). tj_open s v) \<and>
     (\<forall>v. tj_open s v \<longrightarrow> nodes s \<noteq> [] \<and> tj_order s (last (nodes s)) \<le> tj_order s v)"

text \<open>Finished nodes have seen all they depend on, and what is closed depends on closed nodes only.\<close>

definition inv_edges :: "usize list list \<Rightarrow> tarjan \<Rightarrow> bool" where
  "inv_edges deps s \<longleftrightarrow>
     (\<forall>(v, k) \<in> set (tj_stack s). k \<le> length (deps ! v) \<and> (\<forall>j < k. tj_order s (deps ! v ! j) \<noteq> 0)) \<and>
     (\<forall>v. tj_order s v \<noteq> 0 \<longrightarrow> v \<notin> set (nodes s) \<longrightarrow> (\<forall>d \<in> set (deps ! v). tj_order s d \<noteq> 0)) \<and>
     (\<forall>v. closed s v \<longrightarrow> (\<forall>d \<in> set (deps ! v). closed s d))"

text \<open>
  \<open>u\<close> accounts for \<open>m\<close>: it is the newest node on the stack that is not newer than \<open>m\<close>.
\<close>

definition accounts :: "tarjan \<Rightarrow> usize \<Rightarrow> usize \<Rightarrow> bool" where
  "accounts s u m \<longleftrightarrow> u \<in> set (nodes s) \<and> tj_order s u \<le> tj_order s m \<and>
     (\<forall>w \<in> set (nodes s). tj_order s w \<le> tj_order s m \<longrightarrow> tj_order s w \<le> tj_order s u)"

text \<open>Low links are numbers of open nodes, and bound every open edge they account for.\<close>

definition inv_low :: "usize list list \<Rightarrow> tarjan \<Rightarrow> bool" where
  "inv_low deps s \<longleftrightarrow>
     (\<forall>v. tj_open s v \<longrightarrow> tj_low s v \<le> tj_order s v) \<and>
     (\<forall>v \<in> set (nodes s). \<exists>x. tj_open s x \<and> tj_low s v = tj_order s x) \<and>
     (\<forall>(v, k) \<in> set (tj_stack s). \<forall>j < k. tj_open s (deps ! v ! j) \<longrightarrow> tj_low s v \<le> tj_order s (deps ! v ! j)) \<and>
     (\<forall>m d u. tj_open s m \<longrightarrow> m \<notin> set (nodes s) \<longrightarrow> d \<in> set (deps ! m) \<longrightarrow> tj_open s d \<longrightarrow> accounts s u m \<longrightarrow>
        tj_low s u \<le> tj_order s d)"

definition simple_path :: "usize list list \<Rightarrow> usize list \<Rightarrow> bool" where
  "simple_path deps p \<longleftrightarrow> p \<noteq> [] \<and> distinct p \<and> successively (\<lambda>u v. v \<in> set (deps ! u)) p"

definition path_cost :: "usize list \<Rightarrow> usize list \<Rightarrow> usize" where
  "path_cost own p = (\<Sum>v \<leftarrow> p. own ! v)"

definition inv_chain :: "usize list \<Rightarrow> usize list list \<Rightarrow> tarjan \<Rightarrow> bool" where
  "inv_chain own deps s \<longleftrightarrow>
     (\<forall>v. \<not> closed s v \<longrightarrow> tj_chain s v = 0) \<and>
     (\<forall>p. simple_path deps p \<longrightarrow> closed s (hd p) \<longrightarrow> min (path_cost own p) u64_max \<le> tj_chain s (hd p)) \<and>
     (\<forall>v. tj_chain s v \<le> tj_deepest s)"

definition tj_inv :: "usize list \<Rightarrow> usize list list \<Rightarrow> tarjan \<Rightarrow> bool" where
  "tj_inv own deps s \<longleftrightarrow> inv_shape deps s \<and> inv_edges deps s \<and> inv_low deps s \<and> inv_chain own deps s"

definition valid_deps :: "usize list list \<Rightarrow> bool" where
  "valid_deps deps \<longleftrightarrow> (\<forall>v < length deps. \<forall>d \<in> set (deps ! v). d < length deps)"

lemmas tj_fields = nodes_def closed_def visit_def Let_def

text \<open>The branches of a round.\<close>

lemma tj_step_cases:
  assumes "tj_stack s = (t, k) # frames"
  obtains
    (new) "k < length (deps ! t)" "tj_order s (deps ! t ! k) = 0"
      "tj_step own deps s = visit (deps ! t ! k) (s\<lparr>tj_stack := (t, Suc k) # frames\<rparr>)"
  | (link) "k < length (deps ! t)" "tj_order s (deps ! t ! k) \<noteq> 0" "tj_open s (deps ! t ! k)"
      "tj_step own deps s = s\<lparr>tj_stack := (t, Suc k) # frames,
         tj_low := (tj_low s)(t := min (tj_low s t) (tj_order s (deps ! t ! k)))\<rparr>"
  | (skip) "k < length (deps ! t)" "tj_order s (deps ! t ! k) \<noteq> 0" "\<not> tj_open s (deps ! t ! k)"
      "tj_step own deps s = s\<lparr>tj_stack := (t, Suc k) # frames\<rparr>"
  | (pop) p j fs low where "\<not> k < length (deps ! t)" "frames = (p, j) # fs"
      "low = (tj_low s)(p := min (tj_low s p) (tj_low s t))" "low t \<noteq> tj_order s t"
      "tj_step own deps s = s\<lparr>tj_stack := frames, tj_low := low\<rparr>"
  | (close) low where "\<not> k < length (deps ! t)"
      "low = (case frames of [] \<Rightarrow> tj_low s | (p, _) # _ \<Rightarrow> (tj_low s)(p := min (tj_low s p) (tj_low s t)))"
      "low t = tj_order s t" "tj_step own deps s = close_group own deps t (s\<lparr>tj_stack := frames, tj_low := low\<rparr>)"
  | (stuck) "\<not> k < length (deps ! t)" "frames = []" "tj_low s t \<noteq> tj_order s t"
proof -
  consider "k < length (deps ! t)" "tj_order s (deps ! t ! k) = 0"
    | "k < length (deps ! t)" "tj_order s (deps ! t ! k) \<noteq> 0" "tj_open s (deps ! t ! k)"
    | "k < length (deps ! t)" "tj_order s (deps ! t ! k) \<noteq> 0" "\<not> tj_open s (deps ! t ! k)"
    | "\<not> k < length (deps ! t)" by blast
  then show ?thesis
  proof cases
    case 4
    define low where
      "low = (case frames of [] \<Rightarrow> tj_low s | (p, _) # _ \<Rightarrow> (tj_low s)(p := min (tj_low s p) (tj_low s t)))"
    show ?thesis
    proof (cases "low t = tj_order s t")
      case True
      have "tj_step own deps s = close_group own deps t (s\<lparr>tj_stack := frames, tj_low := low\<rparr>)"
        using 4 True assms by (auto simp: tj_step_def Let_def low_def split: list.splits)
      then show ?thesis using close 4 True low_def by blast
    next
      case False
      show ?thesis
      proof (cases frames)
        case Nil
        then show ?thesis using stuck 4 False by (simp add: low_def)
      next
        case (Cons f fs)
        obtain p j where f: "f = (p, j)" by (cases f)
        have "tj_step own deps s = s\<lparr>tj_stack := frames, tj_low := low\<rparr>"
          using 4 False assms Cons f by (simp add: tj_step_def Let_def low_def)
        then show ?thesis using pop [of p j fs low] 4 False Cons f by (simp add: low_def)
      qed
    qed
  qed (use assms new link skip in \<open>simp_all add: tj_step_def Let_def\<close>)
qed

lemma inv_lowI:
  assumes "\<And>v. tj_open s v \<Longrightarrow> tj_low s v \<le> tj_order s v"
    and "\<And>v. v \<in> set (nodes s) \<Longrightarrow> \<exists>x. tj_open s x \<and> tj_low s v = tj_order s x"
    and "\<And>v i j. (v, i) \<in> set (tj_stack s) \<Longrightarrow> j < i \<Longrightarrow> tj_open s (deps ! v ! j) \<Longrightarrow> tj_low s v \<le> tj_order s (deps ! v ! j)"
    and "\<And>m d u. tj_open s m \<Longrightarrow> m \<notin> set (nodes s) \<Longrightarrow> d \<in> set (deps ! m) \<Longrightarrow> tj_open s d \<Longrightarrow> accounts s u m \<Longrightarrow>
      tj_low s u \<le> tj_order s d"
  shows "inv_low deps s"
  using assms unfolding inv_low_def by blast

lemma inv_lowD:
  assumes "inv_low deps s"
  shows "tj_open s v \<Longrightarrow> tj_low s v \<le> tj_order s v"
    and "v \<in> set (nodes s) \<Longrightarrow> \<exists>x. tj_open s x \<and> tj_low s v = tj_order s x"
    and "(v, i) \<in> set (tj_stack s) \<Longrightarrow> j < i \<Longrightarrow> tj_open s (deps ! v ! j) \<Longrightarrow> tj_low s v \<le> tj_order s (deps ! v ! j)"
    and "tj_open s m \<Longrightarrow> m \<notin> set (nodes s) \<Longrightarrow> d \<in> set (deps ! m) \<Longrightarrow> tj_open s d \<Longrightarrow> accounts s u m \<Longrightarrow>
      tj_low s u \<le> tj_order s d"
  using assms unfolding inv_low_def by blast+

lemma inv_shape_nodes: "nodes s' = nodes s \<Longrightarrow> tj_order s' = tj_order s \<Longrightarrow> tj_visited s' = tj_visited s \<Longrightarrow>
  tj_open s' = tj_open s \<Longrightarrow> tj_group s' = tj_group s \<Longrightarrow> inv_shape deps s' = inv_shape deps s"
  by (simp add: inv_shape_def)

lemma sorted_wrt_cong: "sorted_wrt P xs \<Longrightarrow> (\<And>a b. a \<in> set xs \<Longrightarrow> b \<in> set xs \<Longrightarrow> P a b \<Longrightarrow> Q a b) \<Longrightarrow> sorted_wrt Q xs"
  by (rule sorted_wrt_mono_rel)

lemma visit_fields:
  "tj_order (visit v s) = (tj_order s)(v := tj_visited s + 1)" "tj_low (visit v s) = (tj_low s)(v := tj_visited s + 1)"
  "tj_open (visit v s) = (tj_open s)(v := True)" "tj_group (visit v s) = v # tj_group s"
  "tj_visited (visit v s) = tj_visited s + 1" "tj_stack (visit v s) = (v, 0) # tj_stack s"
  "nodes (visit v s) = v # nodes s" "tj_chain (visit v s) = tj_chain s" "tj_deepest (visit v s) = tj_deepest s"
  by (simp_all add: tj_fields)

lemma visit_shape:
  assumes inv: "inv_shape deps s" and v: "tj_order s v = 0" "v < length deps"
  shows "inv_shape deps (visit v s)"
proof -
  have old: "u \<noteq> v" "tj_order s u \<le> tj_visited s" if "u \<in> set (tj_group s) \<or> u \<in> set (nodes s)" for u
    using that inv v by (auto simp: inv_shape_def)
  have "sorted_wrt (\<lambda>a b. tj_order (visit v s) b < tj_order (visit v s) a) (v # xs)"
    if "sorted_wrt (\<lambda>a b. tj_order s b < tj_order s a) xs" "set xs \<subseteq> set (tj_group s) \<union> set (nodes s)" for xs
    using that old by (auto simp: visit_fields le_imp_less_Suc elim!: sorted_wrt_cong)
  then have "sorted_wrt (\<lambda>a b. tj_order (visit v s) b < tj_order (visit v s) a) (tj_group (visit v s))"
    "sorted_wrt (\<lambda>a b. tj_order (visit v s) b < tj_order (visit v s) a) (nodes (visit v s))"
    using inv unfolding visit_fields(4,7) by (auto simp: inv_shape_def)
  moreover have "nodes (visit v s) \<noteq> [] \<and> tj_order (visit v s) (last (nodes (visit v s))) \<le> tj_order (visit v s) x"
    if "tj_open (visit v s) x" for x
    using that inv old by (auto simp: visit_fields inv_shape_def le_SucI split: if_splits)
  ultimately show ?thesis
    using inv v unfolding inv_shape_def
    by (auto simp: visit_fields le_SucI split: if_splits) (metis le_imp_less_Suc less_irrefl_nat)+
qed

lemma visit_low:
  assumes shape: "inv_shape deps s" and low: "inv_low deps s" and v: "tj_order s v = 0"
    and seen: "\<And>m d. tj_order s m \<noteq> 0 \<Longrightarrow> m \<notin> set (nodes s) \<Longrightarrow> d \<in> set (deps ! m) \<Longrightarrow> tj_order s d \<noteq> 0"
  shows "inv_low deps (visit v s)"
proof -
  have old: "u \<noteq> v" "tj_order s u \<le> tj_visited s" "tj_open s u" if "u \<in> set (nodes s)" for u
    using that shape v by (auto simp: inv_shape_def)
  have no: "\<not> tj_open s v" "v \<notin> set (nodes s)" using shape v by (auto simp: inv_shape_def)
  have stack: "fst f \<in> set (nodes s)" if "f \<in> set (tj_stack s)" for f using that by (simp add: nodes_def)
  have f3: "tj_low (visit v s) w \<le> tj_order (visit v s) (deps ! w ! j)"
    if "(w, k) \<in> set (tj_stack (visit v s))" "j < k" "tj_open (visit v s) (deps ! w ! j)" for w k j
  proof -
    have w: "(w, k) \<in> set (tj_stack s)" using that by (auto simp: visit_fields)
    then have "w \<noteq> v" "tj_low s w \<le> tj_visited s" using old [of w] stack [OF w] low by (auto simp: inv_low_def intro: order_trans)
    then show ?thesis using that w low by (auto simp: visit_fields inv_low_def)
  qed
  have f4: "tj_low (visit v s) u \<le> tj_order (visit v s) d"
    if m: "tj_open (visit v s) m" "m \<notin> set (nodes (visit v s))" and d: "d \<in> set (deps ! m)" "tj_open (visit v s) d"
      and u: "accounts (visit v s) u m" for m d u
  proof -
    have m': "tj_open s m" "m \<notin> set (nodes s)" "m \<noteq> v" using m by (auto simp: visit_fields split: if_splits)
    then have "tj_order s m \<noteq> 0" using shape by (auto simp: inv_shape_def)
    then have "tj_order s d \<noteq> 0" using seen m' d(1) by blast
    then have d': "d \<noteq> v" "tj_open s d" using v d(2) by (auto simp: visit_fields split: if_splits)
    have "tj_order s m \<le> tj_visited s" using shape by (simp add: inv_shape_def)
    then have u': "u \<noteq> v" using u m'(3) by (auto simp: accounts_def visit_fields)
    then have "accounts s u m" using u m'(3) old no by (auto simp: accounts_def visit_fields split: if_splits)
    then show ?thesis using low m' d' d(1) u' by (auto simp: inv_low_def visit_fields)
  qed
  have f2: "\<exists>x. tj_open (visit v s) x \<and> tj_low (visit v s) w = tj_order (visit v s) x" if w: "w \<in> set (nodes (visit v s))" for w
  proof (cases "w = v")
    case True
    then show ?thesis by (auto simp: visit_fields)
  next
    case False
    then obtain x where "tj_open s x" "tj_low s w = tj_order s x" using w low by (auto simp: inv_low_def visit_fields)
    then show ?thesis using False no by (auto simp: visit_fields)
  qed
  have "tj_low (visit v s) w \<le> tj_order (visit v s) w" if "tj_open (visit v s) w" for w
    using that inv_lowD(1) [OF low] by (auto simp: visit_fields split: if_splits)
  then show ?thesis using f2 f3 f4 by (rule inv_lowI)
qed

lemma visit_edges:
  assumes shape: "inv_shape deps s" and v: "tj_order s v = 0"
    and frames: "\<forall>(u, k) \<in> set (tj_stack s). k \<le> length (deps ! u) \<and> (\<forall>j < k. tj_order s (deps ! u ! j) \<noteq> 0 \<or> deps ! u ! j = v)"
    and seen: "\<forall>u. tj_order s u \<noteq> 0 \<longrightarrow> u \<notin> set (nodes s) \<longrightarrow> (\<forall>d \<in> set (deps ! u). tj_order s d \<noteq> 0)"
    and clos: "\<forall>u. closed s u \<longrightarrow> (\<forall>d \<in> set (deps ! u). closed s d)"
  shows "inv_edges deps (visit v s)"
proof -
  have closed: "closed (visit v s) u \<longleftrightarrow> closed s u" for u
    using v by (auto simp: closed_def visit_fields)
  show ?thesis using frames seen clos unfolding inv_edges_def closed
    by (auto simp: visit_fields)
qed

lemma visit_chain:
  assumes "tj_order s v = 0"
  shows "inv_chain own deps (visit v s) = inv_chain own deps s"
proof -
  have "closed (visit v s) u \<longleftrightarrow> closed s u" for u
    using assms by (auto simp: closed_def visit_fields)
  then show ?thesis by (simp add: inv_chain_def visit_fields)
qed

lemma inv_chain_same:
  "tj_order s' = tj_order s \<Longrightarrow> tj_open s' = tj_open s \<Longrightarrow> tj_chain s' = tj_chain s \<Longrightarrow> tj_deepest s' = tj_deepest s \<Longrightarrow>
   inv_chain own deps s' = inv_chain own deps s"
  by (simp add: inv_chain_def closed_def)

lemma step_new:
  assumes inv: "tj_inv own deps s" and stack: "tj_stack s = (t, k) # frames" and valid: "valid_deps deps"
    and k: "k < length (deps ! t)" "tj_order s (deps ! t ! k) = 0"
  shows "tj_inv own deps (visit (deps ! t ! k) (s\<lparr>tj_stack := (t, Suc k) # frames\<rparr>))"
proof -
  let ?s = "s\<lparr>tj_stack := (t, Suc k) # frames\<rparr>" and ?v = "deps ! t ! k"
  have shape: "inv_shape deps s" and edges: "inv_edges deps s" and low: "inv_low deps s" and chain: "inv_chain own deps s"
    using inv by (simp_all add: tj_inv_def)
  have nodes: "nodes ?s = nodes s" using stack by (simp add: nodes_def)
  have "t \<in> set (nodes s)" using stack by (simp add: nodes_def)
  then have "t < length deps" using shape by (auto simp: inv_shape_def)
  then have v: "?v < length deps" "tj_order ?s ?v = 0" using valid k by (auto simp: valid_deps_def)
  have closed: "closed ?s u = closed s u" for u by (simp add: closed_def)
  have shape': "inv_shape deps ?s" using shape nodes by (subst inv_shape_nodes [of _ s]) simp_all
  have L: "inv_low deps (visit ?v s)"
    using edges by (intro visit_low [OF shape low k(2)]) (auto simp: inv_edges_def)
  have same: "tj_order (visit ?v ?s) = tj_order (visit ?v s)" "tj_low (visit ?v ?s) = tj_low (visit ?v s)"
    "tj_open (visit ?v ?s) = tj_open (visit ?v s)" "nodes (visit ?v ?s) = nodes (visit ?v s)"
    using nodes by (simp_all add: visit_fields)
  have t_low: "tj_low s t \<le> tj_visited s" "t \<noteq> ?v"
    using low shape \<open>t \<in> _\<close> k(2) unfolding inv_low_def inv_shape_def by (meson le_trans, metis)
  have "inv_low deps (visit ?v ?s)"
  proof (rule inv_lowI)
    show "tj_low (visit ?v ?s) w \<le> tj_order (visit ?v ?s) (deps ! w ! j)"
      if fr: "(w, i) \<in> set (tj_stack (visit ?v ?s))" "j < i" "tj_open (visit ?v ?s) (deps ! w ! j)" for w i j
    proof -
      consider "w = t" "j = k" | "(w, i) \<in> set (tj_stack (visit ?v s))" | "w = t" "j < k"
        using fr stack by (auto simp: visit_fields less_Suc_eq)
      then show ?thesis
      proof cases
        case 1
        then show ?thesis using t_low by (simp add: visit_fields le_SucI)
      next
        case 2
        then show ?thesis using inv_lowD(3) [OF L, of w i j] fr unfolding same by blast
      next
        case 3
        then show ?thesis using inv_lowD(3) [OF L, of t k j] fr stack unfolding same by (simp add: visit_fields)
      qed
    qed
    show "tj_low (visit ?v ?s) u \<le> tj_order (visit ?v ?s) d"
      if "tj_open (visit ?v ?s) m" "m \<notin> set (nodes (visit ?v ?s))" "d \<in> set (deps ! m)" "tj_open (visit ?v ?s) d"
        "accounts (visit ?v ?s) u m" for m d u
      using that inv_lowD(4) [OF L, of m d u] unfolding accounts_def same by blast
  qed (use inv_lowD(1,2) [OF L] in \<open>simp_all only: same\<close>)
  moreover have "inv_edges deps (visit ?v ?s)"
    using edges stack k by (intro visit_edges [OF shape' v(2)]) (auto simp: inv_edges_def nodes closed less_Suc_eq)
  ultimately show ?thesis
    using visit_shape [OF shape' v(2,1)] chain visit_chain [of ?s ?v own deps] v(2) inv_chain_same [of ?s s own deps]
    by (simp add: tj_inv_def)
qed

lemma step_link:
  assumes inv: "tj_inv own deps s" and stack: "tj_stack s = (t, k) # frames"
    and k: "k < length (deps ! t)" "tj_order s (deps ! t ! k) \<noteq> 0" "tj_open s (deps ! t ! k)"
  shows "tj_inv own deps (s\<lparr>tj_stack := (t, Suc k) # frames,
    tj_low := (tj_low s)(t := min (tj_low s t) (tj_order s (deps ! t ! k)))\<rparr>)" (is "tj_inv own deps ?s")
proof -
  have shape: "inv_shape deps s" and edges: "inv_edges deps s" and low: "inv_low deps s" and chain: "inv_chain own deps s"
    using inv by (simp_all add: tj_inv_def)
  have nodes: "nodes ?s = nodes s" using stack by (simp add: nodes_def)
  have closed: "closed ?s u = closed s u" for u by (simp add: closed_def)
  have acc: "accounts ?s u m = accounts s u m" for u m unfolding accounts_def nodes by simp
  have "inv_low deps ?s"
  proof (rule inv_lowI)
    show "tj_low ?s v \<le> tj_order ?s v" if "tj_open ?s v" for v
      using inv_lowD(1) [OF low, of v] that by (auto simp: min_def)
    show "\<exists>x. tj_open ?s x \<and> tj_low ?s v = tj_order ?s x" if "v \<in> set (nodes ?s)" for v
      using inv_lowD(2) [OF low, of v] that k(3) unfolding nodes by (auto simp: min_def)
    show "tj_low ?s v \<le> tj_order ?s (deps ! v ! j)"
      if fr: "(v, i) \<in> set (tj_stack ?s)" "j < i" "tj_open ?s (deps ! v ! j)" for v i j
    proof -
      consider "v = t" "j = k" | "(v, i) \<in> set (tj_stack s)" | "v = t" "j < k"
        using fr stack by (auto simp: less_Suc_eq)
      then show ?thesis
      proof cases
        case 2
        then have "tj_low s v \<le> tj_order s (deps ! v ! j)" using inv_lowD(3) [OF low] fr(2,3) by simp
        then show ?thesis by (auto simp: min_def)
      next
        case 3
        then have "tj_low s v \<le> tj_order s (deps ! v ! j)" using inv_lowD(3) [OF low, of t k] fr(3) stack by simp
        then show ?thesis by (auto simp: min_def)
      qed simp
    qed
    show "tj_low ?s u \<le> tj_order ?s d"
      if "tj_open ?s m" "m \<notin> set (nodes ?s)" "d \<in> set (deps ! m)" "tj_open ?s d" "accounts ?s u m" for m d u
      using inv_lowD(4) [OF low, of m d u] that unfolding nodes acc by (auto simp: min_def)
  qed
  moreover have "inv_edges deps ?s"
    using edges stack k unfolding inv_edges_def nodes closed by (auto simp: less_Suc_eq)
  ultimately show ?thesis
    using shape chain inv_shape_nodes [OF nodes] inv_chain_same [of ?s s own deps] by (simp add: tj_inv_def)
qed

lemma step_skip:
  assumes inv: "tj_inv own deps s" and stack: "tj_stack s = (t, k) # frames"
    and k: "k < length (deps ! t)" "tj_order s (deps ! t ! k) \<noteq> 0" "\<not> tj_open s (deps ! t ! k)"
  shows "tj_inv own deps (s\<lparr>tj_stack := (t, Suc k) # frames\<rparr>)" (is "tj_inv own deps ?s")
proof -
  have shape: "inv_shape deps s" and edges: "inv_edges deps s" and low: "inv_low deps s" and chain: "inv_chain own deps s"
    using inv by (simp_all add: tj_inv_def)
  have nodes: "nodes ?s = nodes s" using stack by (simp add: nodes_def)
  have closed: "closed ?s u = closed s u" for u by (simp add: closed_def)
  have acc: "accounts ?s u m = accounts s u m" for u m unfolding accounts_def nodes by simp
  have "inv_low deps ?s"
    using low stack k unfolding inv_low_def nodes acc by (auto simp: less_Suc_eq)
  moreover have "inv_edges deps ?s"
    using edges stack k unfolding inv_edges_def nodes closed by (auto simp: less_Suc_eq)
  ultimately show ?thesis
    using shape chain inv_shape_nodes [OF nodes] inv_chain_same [of ?s s own deps] by (simp add: tj_inv_def)
qed

lemma step_pop:
  assumes inv: "tj_inv own deps s" and stack: "tj_stack s = (t, k) # (p, j) # fs"
    and k: "\<not> k < length (deps ! t)"
  shows "tj_inv own deps (s\<lparr>tj_stack := (p, j) # fs, tj_low := (tj_low s)(p := min (tj_low s p) (tj_low s t))\<rparr>)"
    (is "tj_inv own deps ?s")
proof -
  have shape: "inv_shape deps s" and edges: "inv_edges deps s" and low: "inv_low deps s" and chain: "inv_chain own deps s"
    using inv by (simp_all add: tj_inv_def)
  have nodes: "nodes s = t # nodes ?s" "nodes ?s = p # map fst fs" using stack by (simp_all add: nodes_def)
  have closed: "closed ?s u = closed s u" for u by (simp add: closed_def)
  have fields: "tj_order ?s = tj_order s" "tj_open ?s = tj_open s" "tj_group ?s = tj_group s"
    "tj_visited ?s = tj_visited s" "tj_stack ?s = (p, j) # fs" by simp_all
  have le: "tj_low ?s v \<le> tj_low s v" for v by simp
  have sorted: "\<forall>w \<in> set (nodes ?s). tj_order s w < tj_order s t \<and> tj_order s w \<le> tj_order s p"
    using shape unfolding inv_shape_def nodes by auto
  have frame: "(t, k) \<in> set (tj_stack s)" "t \<in> set (nodes s)" "p \<in> set (nodes s)" using stack nodes by simp_all
  then have "k \<le> length (deps ! t)" "\<forall>i < k. tj_order s (deps ! t ! i) \<noteq> 0"
    using edges unfolding inv_edges_def by blast+
  then have all: "k = length (deps ! t)" "\<forall>d \<in> set (deps ! t). tj_order s d \<noteq> 0"
    using k by (auto simp: in_set_conv_nth)
  have processed: "tj_low s t \<le> tj_order s d" if d: "d \<in> set (deps ! t)" "tj_open s d" for d
    using inv_lowD(3) [OF low frame(1)] d all(1) by (auto simp: in_set_conv_nth)
  have inj: "tj_order s u \<noteq> 0 \<Longrightarrow> tj_order s u = tj_order s v \<Longrightarrow> u = v" for u v
    using shape by (auto simp: inv_shape_def)
  have p_open: "tj_order s p \<noteq> 0" using shape frame(3) unfolding inv_shape_def by blast
  have shape': "inv_shape deps ?s"
    using shape nodes unfolding inv_shape_def fields by auto
  have "tj_order s d \<noteq> 0" if "tj_order s v \<noteq> 0" "v \<notin> set (nodes ?s)" "d \<in> set (deps ! v)" for v d
    using that edges all(2) nodes(1) unfolding inv_edges_def by (cases "v = t") auto
  then have seen: "\<forall>v. tj_order s v \<noteq> 0 \<longrightarrow> v \<notin> set (nodes ?s) \<longrightarrow> (\<forall>d \<in> set (deps ! v). tj_order s d \<noteq> 0)" by blast
  have frames: "\<forall>x \<in> set ((p, j) # fs). case x of (v, k) \<Rightarrow> k \<le> length (deps ! v) \<and> (\<forall>j < k. tj_order s (deps ! v ! j) \<noteq> 0)"
    and clos: "\<forall>v. closed s v \<longrightarrow> (\<forall>d \<in> set (deps ! v). closed s d)"
    using edges unfolding inv_edges_def stack by simp_all
  have edges': "inv_edges deps ?s"
    unfolding inv_edges_def closed fields using seen frames clos by blast
  have "inv_low deps ?s"
  proof (rule inv_lowI)
    show "tj_low ?s v \<le> tj_order ?s v" if "tj_open ?s v" for v
      using inv_lowD(1) [OF low, of v] that le [of v] by (auto simp: min_def)
    show "\<exists>x. tj_open ?s x \<and> tj_low ?s v = tj_order ?s x" if v: "v \<in> set (nodes ?s)" for v
    proof -
      have "v \<in> set (nodes s)" using v nodes by simp
      then show ?thesis using inv_lowD(2) [OF low, of v] inv_lowD(2) [OF low, of t] frame(2) by (auto simp: min_def)
    qed
    show "tj_low ?s v \<le> tj_order ?s (deps ! v ! j')"
      if "(v, i) \<in> set (tj_stack ?s)" "j' < i" "tj_open ?s (deps ! v ! j')" for v i j'
    proof -
      have "tj_low s v \<le> tj_order s (deps ! v ! j')" using inv_lowD(3) [OF low, of v i j'] that stack by simp
      then show ?thesis using le [of v] by simp
    qed
    show "tj_low ?s u \<le> tj_order ?s d"
      if m: "tj_open ?s m" "m \<notin> set (nodes ?s)" "d \<in> set (deps ! m)" "tj_open ?s d" "accounts ?s u m" for m d u
    proof -
      have u: "u \<in> set (nodes ?s)" "tj_order s u \<le> tj_order s m"
        "\<forall>w \<in> set (nodes ?s). tj_order s w \<le> tj_order s m \<longrightarrow> tj_order s w \<le> tj_order s u"
        using m(5) unfolding accounts_def fields by blast+
      show ?thesis
      proof (cases "tj_order s t \<le> tj_order s m")
        case True
        have "tj_order s p < tj_order s t" using sorted nodes(2) by simp
        then have "tj_order s p \<le> tj_order s u" using u(3) True nodes(2) by simp
        then have "u = p" using sorted u(1) inj [OF p_open] by (metis le_antisym)
        moreover have "tj_low s t \<le> tj_order s d"
        proof (cases "m = t")
          case False
          have "accounts s t m" using True sorted nodes by (auto simp: accounts_def intro: less_imp_le)
          then show ?thesis using inv_lowD(4) [OF low, of m d t] m False nodes(1) by simp
        qed (use processed m in simp)
        ultimately show ?thesis by simp
      next
        case False
        then have "accounts s u m" "m \<noteq> t" using u nodes(1) by (auto simp: accounts_def)
        then have "tj_low s u \<le> tj_order s d" using inv_lowD(4) [OF low, of m d u] m nodes(1) by simp
        then show ?thesis using le [of u] by simp
      qed
    qed
  qed
  then show ?thesis using shape' edges' chain inv_chain_same [of ?s s own deps] by (simp add: tj_inv_def)
qed

lemma fold_sat_add:
  "a \<le> u64_max \<Longrightarrow> fold (\<lambda>m sum. sat_add sum (f m)) ms a = min (a + (\<Sum>m \<leftarrow> ms. f m)) u64_max"
  by (induction ms arbitrary: a) (auto simp: sat_add_def min_def)

lemma path_cost_append [simp]: "path_cost own (p @ q) = path_cost own p + path_cost own q"
  by (simp add: path_cost_def)

lemma path_cost_subset:
  assumes "distinct p" "distinct q" "set p \<subseteq> set q"
  shows "path_cost own p \<le> path_cost own q"
  using assms unfolding path_cost_def
  by (simp add: sum_list_distinct_conv_sum_set sum_mono2)

lemma simple_path_split:
  assumes "simple_path deps (p @ q)" "p \<noteq> []" "q \<noteq> []"
  shows "simple_path deps q" "hd q \<in> set (deps ! last p)"
  using assms by (auto simp: simple_path_def successively_append_iff)

lemma descending_distinct: "sorted_wrt (\<lambda>a b. f b < (f a :: nat)) xs \<Longrightarrow> distinct xs"
  by (induction xs) auto

lemma capped_sum: "a \<le> m \<Longrightarrow> min b u \<le> w \<Longrightarrow> min (a + b) u \<le> min (min m u + w) (u :: nat)"
  by (auto simp: min_def split: if_splits)

text \<open>
  The bound for a new group: the part of a path inside it costs at most the whole group, the rest starts
  at a node the group depends on.
\<close>

lemma group_bound:
  assumes path: "simple_path deps p" "hd p \<in> set ms" and ms: "distinct ms"
    and out: "\<And>m d. m \<in> set ms \<Longrightarrow> d \<in> set (deps ! m) \<Longrightarrow> d \<notin> set ms \<Longrightarrow> closed s d"
    and old: "\<And>p. simple_path deps p \<Longrightarrow> closed s (hd p) \<Longrightarrow> min (path_cost own p) u64_max \<le> tj_chain s (hd p)"
  shows "min (path_cost own p) u64_max \<le>
    sat_add (fold (\<lambda>m sum. sat_add sum (own ! m)) ms 0)
      (fold max (map (tj_chain s) (concat (map (\<lambda>m. deps ! m) ms))) 0)"
proof -
  let ?below = "fold max (map (tj_chain s) (concat (map (\<lambda>m. deps ! m) ms))) 0"
  obtain a b where p: "p = a @ b" and a: "set a \<subseteq> set ms" and b: "b \<noteq> [] \<Longrightarrow> hd b \<notin> set ms"
  proof
    show "p = takeWhile (\<lambda>v. v \<in> set ms) p @ dropWhile (\<lambda>v. v \<in> set ms) p" by simp
    show "set (takeWhile (\<lambda>v. v \<in> set ms) p) \<subseteq> set ms" by (auto dest: set_takeWhileD)
    show "hd (dropWhile (\<lambda>v. v \<in> set ms) p) \<notin> set ms" if "dropWhile (\<lambda>v. v \<in> set ms) p \<noteq> []"
      using that by (rule hd_dropWhile)
  qed
  have "a \<noteq> []"
  proof
    assume "a = []"
    then show False using path b p by (simp add: simple_path_def)
  qed
  have "path_cost own a \<le> path_cost own ms"
    using path(1) a ms unfolding p by (intro path_cost_subset) (simp_all add: simple_path_def)
  moreover have "min (path_cost own b) u64_max \<le> ?below"
  proof (cases "b = []")
    case True
    then show ?thesis by (simp add: path_cost_def)
  next
    case False
    have rest: "simple_path deps b" "hd b \<in> set (deps ! last a)"
      using simple_path_split [of deps a b] path(1) p \<open>a \<noteq> []\<close> False by auto
    have last: "last a \<in> set ms" using \<open>a \<noteq> []\<close> a by auto
    then have "min (path_cost own b) u64_max \<le> tj_chain s (hd b)" using old rest out b False by blast
    also have "\<dots> \<le> ?below" using rest(2) last by (intro fold_max_ge) auto
    finally show ?thesis .
  qed
  ultimately have "min (path_cost own a + path_cost own b) u64_max \<le> min (min (path_cost own ms) u64_max + ?below) u64_max"
    by (rule capped_sum)
  moreover have "fold (\<lambda>m sum. sat_add sum (own ! m)) ms 0 = min (path_cost own ms) u64_max"
    by (simp add: fold_sat_add path_cost_def)
  ultimately show ?thesis by (simp only: p path_cost_append sat_add_def [of "min (path_cost own ms) u64_max"])
qed

lemma step_close:
  assumes inv: "tj_inv own deps s" and stack: "tj_stack s = (t, k) # frames"
    and k: "\<not> k < length (deps ! t)" and root: "tj_low s t = tj_order s t"
  shows "tj_inv own deps (close_group own deps t (s\<lparr>tj_stack := frames\<rparr>))" (is "tj_inv own deps ?s")
proof -
  have shape: "inv_shape deps s" and edges: "inv_edges deps s" and low: "inv_low deps s" and chain: "inv_chain own deps s"
    using inv by (simp_all add: tj_inv_def)
  have frame: "(t, k) \<in> set (tj_stack s)" "t \<in> set (nodes s)" using stack by (simp_all add: nodes_def)
  then have "tj_open s t" using shape unfolding inv_shape_def by blast
  then obtain new older where g: "tj_group s = new @ t # older" "t \<notin> set new"
    using shape unfolding inv_shape_def by (metis split_list_first)
  let ?ms = "new @ [t]"
  let ?tot = "sat_add (fold (\<lambda>m sum. sat_add sum (own ! m)) ?ms 0)
      (fold max (map (tj_chain s) (concat (map (\<lambda>m. deps ! m) ?ms))) 0)"
  have take: "takeWhile (\<lambda>m. m \<noteq> t) (new @ t # older) = new"
    using g(2) by (subst takeWhile_append2) auto
  have fields: "tj_order ?s = tj_order s" "tj_low ?s = tj_low s" "tj_visited ?s = tj_visited s" "tj_stack ?s = frames"
    "tj_group ?s = older" "tj_open ?s = (\<lambda>v. if v \<in> set ?ms then False else tj_open s v)"
    "tj_chain ?s = (\<lambda>v. if v \<in> set ?ms then ?tot else tj_chain s v)" "tj_deepest ?s = max (tj_deepest s) ?tot"
    by (simp_all add: close_group_def Let_def g(1) take fun_eq_iff)
  have nodes: "nodes s = t # nodes ?s" using stack fields(4) by (simp add: nodes_def)
  have sorted: "\<And>v. v \<in> set older \<Longrightarrow> tj_order s v < tj_order s t" "\<And>v. v \<in> set new \<Longrightarrow> tj_order s t < tj_order s v"
    "\<And>v. v \<in> set (nodes ?s) \<Longrightarrow> tj_order s v < tj_order s t" "sorted_wrt (\<lambda>a b. tj_order s b < tj_order s a) older"
    "sorted_wrt (\<lambda>a b. tj_order s b < tj_order s a) (nodes ?s)"
    using shape unfolding inv_shape_def g nodes by (auto simp: sorted_wrt_append)
  have opn: "tj_open s v \<longleftrightarrow> v \<in> set new \<or> v = t \<or> v \<in> set older" for v
    using shape unfolding inv_shape_def g by auto
  have open': "tj_open ?s v \<longleftrightarrow> v \<in> set older" for v
    unfolding fields using opn sorted(1,2) by (auto dest: less_asym)
  have ms_nodes: "m \<notin> set (nodes ?s)" if "m \<in> set ?ms" for m
    using that sorted(2,3) by (auto dest: less_asym)
  have "k \<le> length (deps ! t)" "\<forall>i < k. tj_order s (deps ! t ! i) \<noteq> 0"
    using edges frame(1) unfolding inv_edges_def by blast+
  then have all: "k = length (deps ! t)" "\<forall>d \<in> set (deps ! t). tj_order s d \<noteq> 0"
    using k by (auto simp: in_set_conv_nth)
  have seen: "tj_order s d \<noteq> 0" if "tj_order s v \<noteq> 0" "v \<notin> set (nodes ?s)" "d \<in> set (deps ! v)" for v d
    using that edges all(2) nodes unfolding inv_edges_def by (cases "v = t") auto
  have opened: "\<forall>v. tj_open s v \<longrightarrow> tj_order s v \<noteq> 0" using shape unfolding inv_shape_def by blast
  have ms_seen: "tj_order s m \<noteq> 0" if "m \<in> set ?ms" for m
    using that opn opened by auto
  have out: "closed s d" if m: "m \<in> set ?ms" "d \<in> set (deps ! m)" "d \<notin> set ?ms" for m d
  proof (rule ccontr)
    assume no: "\<not> closed s d"
    have "tj_order s d \<noteq> 0" using seen ms_seen ms_nodes m by blast
    then have d: "tj_open s d" "d \<in> set older" using no opn m(3) by (auto simp: closed_def)
    have "tj_low s t \<le> tj_order s d"
    proof (cases "m = t")
      case True
      then show ?thesis using inv_lowD(3) [OF low frame(1)] all(1) m(2) d(1) by (auto simp: in_set_conv_nth)
    next
      case False
      then have "accounts s t m" using m(1) sorted(2,3) nodes by (auto simp: accounts_def intro: less_imp_le)
      moreover have "tj_open s m" "m \<notin> set (nodes s)" using m(1) False opn ms_nodes nodes by auto
      ultimately show ?thesis using inv_lowD(4) [OF low] m(2) d(1) by blast
    qed
    then show False using root sorted(1) [OF d(2)] by simp
  qed
  have closed: "closed ?s v \<longleftrightarrow> closed s v \<or> v \<in> set ?ms" for v
    using ms_seen opn by (auto simp: closed_def fields)
  have "inv_shape deps ?s"
  proof -
    have "nodes ?s \<noteq> [] \<and> tj_order s (last (nodes ?s)) \<le> tj_order s v" if "v \<in> set older" for v
    proof -
      have "tj_order s (last (nodes s)) \<le> tj_order s v" using that opn shape unfolding inv_shape_def by blast
      then have "last (nodes s) \<noteq> t" using sorted(1) [OF that] by auto
      then have "nodes ?s \<noteq> []" using nodes by auto
      then show ?thesis using \<open>tj_order s (last (nodes s)) \<le> _\<close> nodes by simp
    qed
    moreover have "v \<in> set older" if "v \<in> set (nodes ?s)" for v
    proof -
      have "tj_open s v" using that nodes shape unfolding inv_shape_def by auto
      then show ?thesis using opn sorted(2,3) that by (auto dest: less_asym)
    qed
    ultimately show ?thesis
      using shape sorted(4,5) opn unfolding inv_shape_def open' fields(1,3,5) by auto
  qed
  moreover have "inv_edges deps ?s"
  proof -
    have "\<forall>x \<in> set frames. case x of (v, k) \<Rightarrow> k \<le> length (deps ! v) \<and> (\<forall>j < k. tj_order s (deps ! v ! j) \<noteq> 0)"
      and "\<forall>v. closed s v \<longrightarrow> (\<forall>d \<in> set (deps ! v). closed s d)"
      using edges unfolding inv_edges_def stack by simp_all
    then show ?thesis unfolding inv_edges_def closed fields(1,4) using seen out by blast
  qed
  moreover have "inv_low deps ?s"
  proof (rule inv_lowI)
    show "tj_low ?s v \<le> tj_order ?s v" if "tj_open ?s v" for v
      using inv_lowD(1) [OF low, of v] that opn unfolding open' fields(1,2) by blast
    show "\<exists>x. tj_open ?s x \<and> tj_low ?s v = tj_order ?s x" if v: "v \<in> set (nodes ?s)" for v
    proof -
      have v': "v \<in> set (nodes s)" "tj_open s v" using v nodes shape unfolding inv_shape_def by auto
      obtain x where x: "tj_open s x" "tj_low s v = tj_order s x" using inv_lowD(2) [OF low v'(1)] by blast
      have "tj_order s x < tj_order s t" using inv_lowD(1) [OF low v'(2)] sorted(3) [OF v] x(2) by simp
      then have "x \<in> set older" using x(1) opn sorted(2) by (auto dest: less_asym)
      then show ?thesis using x(2) unfolding open' fields(1,2) by blast
    qed
    show "tj_low ?s v \<le> tj_order ?s (deps ! v ! j)"
      if "(v, i) \<in> set (tj_stack ?s)" "j < i" "tj_open ?s (deps ! v ! j)" for v i j
      using inv_lowD(3) [OF low, of v i j] that stack opn unfolding open' fields(1,2,4) by simp
    show "tj_low ?s u \<le> tj_order ?s d"
      if m: "tj_open ?s m" "m \<notin> set (nodes ?s)" "d \<in> set (deps ! m)" "tj_open ?s d" "accounts ?s u m" for m d u
    proof -
      have m': "m \<in> set older" "d \<in> set older" using m(1,4) unfolding open' by simp_all
      then have "m \<notin> set (nodes s)" using m(2) nodes sorted(1) by auto
      moreover have "accounts s u m"
        using m(5) nodes sorted(1) [OF m'(1)] unfolding accounts_def fields(1) by auto
      ultimately show ?thesis using inv_lowD(4) [OF low] m(3) m' opn unfolding fields(1,2) by blast
    qed
  qed
  moreover have "inv_chain own deps ?s"
  proof -
    have old: "min (path_cost own p) u64_max \<le> tj_chain s (hd p)" if "simple_path deps p" "closed s (hd p)" for p
      using chain that unfolding inv_chain_def by blast
    have "sorted_wrt (\<lambda>a b. tj_order s b < tj_order s a) (?ms @ older)"
      using shape g unfolding inv_shape_def by simp
    then have "distinct ?ms" by (metis descending_distinct distinct_append)
    then have "min (path_cost own p) u64_max \<le> ?tot" if "simple_path deps p" "hd p \<in> set ?ms" for p
      using group_bound [OF that, of s own] out old by blast
    then show ?thesis using chain old unfolding inv_chain_def closed fields(7,8)
      by (auto simp: le_max_iff_disj)
  qed
  ultimately show ?thesis by (simp add: tj_inv_def)
qed

section \<open>The search ends and bounds every path\<close>

lemma step_inv:
  assumes inv: "tj_inv own deps s" and valid: "valid_deps deps" and "tj_stack s \<noteq> []"
  shows "tj_inv own deps (tj_step own deps s)"
proof -
  obtain t k frames where stack: "tj_stack s = (t, k) # frames" using assms(3) by (cases "tj_stack s") auto
  have shape: "inv_shape deps s" and low: "inv_low deps s" using inv by (simp_all add: tj_inv_def)
  have t: "t \<in> set (nodes s)" "tj_open s t" using stack shape by (auto simp: nodes_def inv_shape_def)
  have below: "tj_order s p < tj_order s t" if "frames = (p, j) # fs" for p j fs
    using shape that stack by (auto simp: inv_shape_def nodes_def)
  from stack show ?thesis
  proof (cases rule: tj_step_cases [where own = own and deps = deps])
    case (pop p j fs low)
    then show ?thesis using step_pop [OF inv] stack by simp
  next
    case (close lw)
    have "lw = tj_low s"
    proof (cases frames)
      case (Cons f fs)
      obtain p j where f: "f = (p, j)" by (cases f)
      have p: "tj_order s p < tj_order s t" "tj_low s p \<le> tj_order s p"
        using below Cons f inv_lowD(1) [OF low, of p] shape stack by (auto simp: inv_shape_def nodes_def)
      then have "p \<noteq> t" by auto
      then show ?thesis using close(2,3) Cons f p by (auto simp: min_def)
    qed (use close in simp)
    then have "tj_low s t = tj_order s t" "s\<lparr>tj_stack := frames, tj_low := lw\<rparr> = s\<lparr>tj_stack := frames\<rparr>"
      using close(3) by simp_all
    then show ?thesis using step_close [OF inv stack close(1)] close(4) by simp
  next
    case stuck
    then have "\<forall>x. tj_open s x \<longrightarrow> tj_order s t \<le> tj_order s x"
      using shape stack by (auto simp: inv_shape_def nodes_def)
    then show ?thesis using inv_lowD(1,2) [OF low, of t] t stuck by fastforce
  qed (use step_new [OF inv stack valid] step_link [OF inv stack] step_skip [OF inv stack] in simp_all)
qed

text \<open>Every round uses up an edge or a stack frame; a new node brings its own.\<close>

definition work :: "usize list list \<Rightarrow> tarjan \<Rightarrow> nat" where
  "work deps s = (\<Sum>v | v < length deps \<and> tj_order s v = 0. length (deps ! v) + 2) +
     (\<Sum>f \<leftarrow> tj_stack s. length (deps ! fst f) - snd f + 1)"

lemma close_group_fields [simp]:
  "tj_order (close_group own deps t s) = tj_order s" "tj_stack (close_group own deps t s) = tj_stack s"
  by (simp_all add: close_group_def Let_def)

lemma step_work:
  assumes inv: "tj_inv own deps s" and valid: "valid_deps deps" and "tj_stack s \<noteq> []"
  shows "work deps (tj_step own deps s) < work deps s"
proof -
  obtain t k frames where stack: "tj_stack s = (t, k) # frames" using assms(3) by (cases "tj_stack s") auto
  from stack show ?thesis
  proof (cases rule: tj_step_cases [where own = own and deps = deps])
    case new
    let ?v = "deps ! t ! k"
    have "t < length deps" using inv stack by (auto simp: tj_inv_def inv_shape_def nodes_def)
    then have "?v < length deps" using valid new(1) by (auto simp: valid_deps_def)
    then have unseen: "{v. v < length deps \<and> tj_order s v = 0} =
        insert ?v {v. v < length deps \<and> tj_order (tj_step own deps s) v = 0}"
      using new by (auto simp: visit_fields)
    have "(\<Sum>v | v < length deps \<and> tj_order s v = 0. length (deps ! v) + 2) =
        length (deps ! ?v) + 2 + (\<Sum>v | v < length deps \<and> tj_order (tj_step own deps s) v = 0. length (deps ! v) + 2)"
      unfolding unseen using new(3) by (subst sum.insert) (auto simp: visit_fields)
    then show ?thesis using new stack by (simp add: work_def visit_fields)
  next
    case stuck
    then show ?thesis using assms(3) stack by (simp add: work_def tj_step_def)
  qed (use stack in \<open>simp_all add: work_def\<close>)
qed

lemma step_order: "tj_order s v \<noteq> 0 \<Longrightarrow> tj_order (tj_step own deps s) v \<noteq> 0"
  by (auto simp: tj_step_def Let_def visit_fields split: list.split)

lemma loop_returns:
  assumes "tj_inv own deps s" "valid_deps deps"
  shows "\<exists>s'. tj_loop own deps s = Some s' \<and> tj_inv own deps s' \<and> tj_stack s' = [] \<and>
    (\<forall>v. tj_order s v \<noteq> 0 \<longrightarrow> tj_order s' v \<noteq> 0)"
  using assms
proof (induction "work deps s" arbitrary: s rule: less_induct)
  case less
  show ?case
  proof (cases "tj_stack s = []")
    case True
    then show ?thesis using less(2) by (simp add: tj_loop.simps)
  next
    case False
    then have "tj_loop own deps s = tj_loop own deps (tj_step own deps s)" by (subst tj_loop.simps) simp
    then show ?thesis
      using less(1) [OF step_work [OF less(2,3) False] step_inv [OF less(2,3) False] less(3)] step_order by metis
  qed
qed

lemma visit_root:
  assumes inv: "tj_inv own deps s" and stack: "tj_stack s = []" and v: "tj_order s v = 0" "v < length deps"
  shows "tj_inv own deps (visit v s)"
proof -
  have shape: "inv_shape deps s" and edges: "inv_edges deps s" and low: "inv_low deps s" and chain: "inv_chain own deps s"
    using inv by (simp_all add: tj_inv_def)
  have "inv_low deps (visit v s)"
    by (rule visit_low [OF shape low v(1)]) (use edges in \<open>auto simp: inv_edges_def\<close>)
  moreover have "inv_edges deps (visit v s)"
    using edges stack by (intro visit_edges [OF shape v(1)]) (auto simp: inv_edges_def)
  ultimately show ?thesis
    using visit_shape [OF shape v] visit_chain [OF v(1), of own deps] chain by (simp add: tj_inv_def)
qed

lemma roots_return:
  assumes "tj_inv own deps s" "valid_deps deps" "tj_stack s = []" "set roots \<subseteq> {..< length deps}"
  shows "\<exists>s'. tj_roots own deps roots s = Some s' \<and> tj_inv own deps s' \<and> tj_stack s' = [] \<and>
    (\<forall>v. tj_order s v \<noteq> 0 \<or> v \<in> set roots \<longrightarrow> tj_order s' v \<noteq> 0)"
  using assms
proof (induction roots arbitrary: s)
  case (Cons root roots)
  show ?case
  proof (cases "tj_order s root = 0")
    case True
    then have "tj_inv own deps (visit root s)" using Cons.prems by (intro visit_root) auto
    then obtain s1 where s1: "tj_loop own deps (visit root s) = Some s1" "tj_inv own deps s1" "tj_stack s1 = []"
      "\<forall>v. tj_order (visit root s) v \<noteq> 0 \<longrightarrow> tj_order s1 v \<noteq> 0"
      using loop_returns Cons.prems(2) by blast
    then obtain s2 where s2: "tj_roots own deps roots s1 = Some s2" "tj_inv own deps s2" "tj_stack s2 = []"
      "\<forall>v. tj_order s1 v \<noteq> 0 \<or> v \<in> set roots \<longrightarrow> tj_order s2 v \<noteq> 0"
      using Cons.IH Cons.prems(2,4) by (metis insert_subset list.set(2))
    have "tj_order s1 v \<noteq> 0" if "tj_order s v \<noteq> 0 \<or> v = root" for v
      using s1(4) that by (auto simp: visit_fields)
    then show ?thesis using True s1(1) s2 by (intro exI [of _ s2]) auto
  next
    case False
    then obtain s2 where "tj_roots own deps roots s = Some s2" "tj_inv own deps s2" "tj_stack s2 = []"
      "\<forall>v. tj_order s v \<noteq> 0 \<or> v \<in> set roots \<longrightarrow> tj_order s2 v \<noteq> 0"
      using Cons.IH [OF Cons.prems(1-3)] Cons.prems(4) by (metis insert_subset list.set(2))
    then show ?thesis using False by (intro exI [of _ s2]) auto
  qed
qed simp

lemma new_inv: "tj_inv own deps tarjan_new"
  by (simp add: tj_inv_def inv_shape_def inv_edges_def inv_low_def inv_chain_def tarjan_new_def nodes_def closed_def)

lemma search_bounds_paths:
  assumes "valid_deps deps"
  shows "\<exists>s. tj_roots own deps [0 ..< length deps] tarjan_new = Some s \<and>
    (\<forall>p. simple_path deps p \<longrightarrow> hd p < length deps \<longrightarrow> min (path_cost own p) u64_max \<le> tj_deepest s)"
proof -
  obtain s where s: "tj_roots own deps [0 ..< length deps] tarjan_new = Some s" "tj_inv own deps s" "tj_stack s = []"
    "\<forall>v. v < length deps \<longrightarrow> tj_order s v \<noteq> 0"
  proof -
    have "tj_stack tarjan_new = []" "set [0 ..< length deps] \<subseteq> {..< length deps}" by (auto simp: tarjan_new_def)
    from that roots_return [OF new_inv assms this, of own] show ?thesis by auto
  qed
  have "closed s v" if "v < length deps" for v
    using s that by (auto simp: closed_def tj_inv_def inv_shape_def nodes_def)
  then show ?thesis using s unfolding tj_inv_def inv_chain_def by (meson le_trans)
qed

section \<open>Chains of views\<close>

definition view_name :: "string \<times> usize \<Rightarrow> string option" where
  "view_name v = map_option fst (view_definition (sql_words (fst v)))"

text \<open>The first view's body mentions the second one's name where a table can stand.\<close>

definition view_link :: "string \<times> usize \<Rightarrow> string \<times> usize \<Rightarrow> bool" where
  "view_link a b \<longleftrightarrow> (\<exists>name body m. view_definition (sql_words (fst a)) = Some (name, body) \<and> view_name b = Some m \<and>
     m \<in> set (table_mentions (drop body (sql_words (fst a)))))"

definition view_chain :: "(string \<times> usize) list \<Rightarrow> (string \<times> usize) list \<Rightarrow> bool" where
  "view_chain views c \<longleftrightarrow> c \<noteq> [] \<and> set c \<subseteq> set views \<and> (\<forall>v \<in> set c. view_name v \<noteq> None) \<and>
     distinct (map view_name c) \<and> successively view_link c"

text \<open>A view's name has a node that costs at least as much, and its body is kept.\<close>

definition knows :: "view_graph \<Rightarrow> string \<times> usize \<Rightarrow> bool" where
  "knows g v \<longleftrightarrow> (\<forall>name body. view_definition (sql_words (fst v)) = Some (name, body) \<longrightarrow>
     (\<exists>i. vg_index g name = Some i \<and> snd v \<le> vg_own g ! i \<and> (i, sql_words (fst v), body) \<in> set (vg_parsed g)))"

definition graph_inv :: "(string \<times> usize) list \<Rightarrow> view_graph \<Rightarrow> bool" where
  "graph_inv views g \<longleftrightarrow>
     (\<forall>n i. vg_index g n = Some i \<longrightarrow> i < length (vg_own g)) \<and>
     (\<forall>m n i. vg_index g m = Some i \<longrightarrow> vg_index g n = Some i \<longrightarrow> m = n) \<and>
     (\<forall>(i, _) \<in> set (vg_parsed g). i < length (vg_own g)) \<and>
     (\<forall>v \<in> set views. knows g v)"

lemma graph_invI:
  assumes "\<And>n i. vg_index g n = Some i \<Longrightarrow> i < length (vg_own g)"
    and "\<And>m n i. vg_index g m = Some i \<Longrightarrow> vg_index g n = Some i \<Longrightarrow> m = n"
    and "\<And>x. x \<in> set (vg_parsed g) \<Longrightarrow> fst x < length (vg_own g)" "\<And>u. u \<in> set views \<Longrightarrow> knows g u"
  shows "graph_inv views g"
  using assms unfolding graph_inv_def by (auto simp: case_prod_beta)

lemma graph_inv_step:
  assumes inv: "graph_inv views g"
  shows "graph_inv (views @ [v]) (add_view v g)"
proof (cases "view_definition (sql_words (fst v))")
  case None
  then have "knows g v" by (simp add: knows_def)
  then show ?thesis using inv None by (simp add: graph_inv_def add_view_def Let_def case_prod_beta)
next
  case def_v: (Some nb)
  obtain name body where nb: "nb = (name, body)" by (cases nb)
  have bounds: "\<And>n i. vg_index g n = Some i \<Longrightarrow> i < length (vg_own g)"
    and inj: "\<And>m n i. vg_index g m = Some i \<Longrightarrow> vg_index g n = Some i \<Longrightarrow> m = n"
    and parsed: "\<And>x. x \<in> set (vg_parsed g) \<Longrightarrow> fst x < length (vg_own g)"
    and old: "\<And>u. u \<in> set views \<Longrightarrow> knows g u"
    using inv unfolding graph_inv_def by auto
  show ?thesis
  proof (cases "vg_index g name")
    case None
    let ?g = "g\<lparr>vg_index := (vg_index g)(name \<mapsto> length (vg_own g)), vg_own := vg_own g @ [snd v],
        vg_parsed := vg_parsed g @ [(length (vg_own g), sql_words (fst v), body)]\<rparr>"
    have g: "add_view v g = ?g"
      using def_v nb None by (simp add: add_view_def Let_def case_prod_beta)
    have keeps: "knows ?g u" if u: "knows g u" for u
      unfolding knows_def
    proof (intro allI impI)
      fix n b assume "view_definition (sql_words (fst u)) = Some (n, b)"
      then obtain i where i: "vg_index g n = Some i" "snd u \<le> vg_own g ! i" "(i, sql_words (fst u), b) \<in> set (vg_parsed g)"
        using u unfolding knows_def by blast
      then have "n \<noteq> name" "i < length (vg_own g)" using None bounds by auto
      then show "\<exists>i. vg_index ?g n = Some i \<and> snd u \<le> vg_own ?g ! i \<and> (i, sql_words (fst u), b) \<in> set (vg_parsed ?g)"
        using i by (auto simp: nth_append)
    qed
    have new: "knows ?g v" using def_v nb by (simp add: knows_def)
    have fresh: "vg_index g k \<noteq> Some (length (vg_own g))" for k using bounds by blast
    show ?thesis unfolding g
    proof (rule graph_invI)
      show "i < length (vg_own ?g)" if "vg_index ?g n = Some i" for n i
        using that bounds [of n i] by (simp split: if_splits)
      show "m = n" if "vg_index ?g m = Some i" "vg_index ?g n = Some i" for m n i
        using that inj [of m i n] fresh by (auto split: if_splits)
      show "fst x < length (vg_own ?g)" if "x \<in> set (vg_parsed ?g)" for x
        using that parsed [of x] by auto
      show "knows ?g u" if "u \<in> set (views @ [v])" for u
      proof -
        have "u \<in> set views \<or> u = v" using that by auto
        then show ?thesis using keeps old new by blast
      qed
    qed
  next
    case (Some i)
    let ?g = "g\<lparr>vg_own := (vg_own g)[i := max (vg_own g ! i) (snd v)],
        vg_parsed := vg_parsed g @ [(i, sql_words (fst v), body)]\<rparr>"
    have g: "add_view v g = ?g"
      using def_v nb Some by (simp add: add_view_def Let_def case_prod_beta)
    have i: "i < length (vg_own g)" using bounds Some by simp
    have le: "vg_own g ! k \<le> vg_own ?g ! k" if "k < length (vg_own g)" for k
      using that i by (cases "k = i") simp_all
    have keeps: "knows ?g u" if u: "knows g u" for u
      unfolding knows_def
    proof (intro allI impI)
      fix n b assume "view_definition (sql_words (fst u)) = Some (n, b)"
      then obtain j where j: "vg_index g n = Some j" "snd u \<le> vg_own g ! j" "(j, sql_words (fst u), b) \<in> set (vg_parsed g)"
        using u unfolding knows_def by blast
      have "snd u \<le> vg_own ?g ! j" using j(2) le [OF bounds [OF j(1)]] by (rule le_trans)
      then show "\<exists>i. vg_index ?g n = Some i \<and> snd u \<le> vg_own ?g ! i \<and> (i, sql_words (fst u), b) \<in> set (vg_parsed ?g)"
        using j(1,3) by (intro exI [of _ j]) simp
    qed
    have new: "knows ?g v" using def_v nb Some i by (simp add: knows_def)
    show ?thesis unfolding g
    proof (rule graph_invI)
      show "fst x < length (vg_own ?g)" if "x \<in> set (vg_parsed ?g)" for x
        using that parsed [of x] i by auto
      show "knows ?g u" if "u \<in> set (views @ [v])" for u
      proof -
        have "u \<in> set views \<or> u = v" using that by auto
        then show ?thesis using keeps old new by blast
      qed
    qed (use bounds inj in simp_all)
  qed
qed

lemma graph_inv_build: "graph_inv views (build_graph views)"
proof -
  have "graph_inv views (fold add_view views \<lparr> vg_index = Map.empty, vg_own = [], vg_parsed = [] \<rparr>)"
  proof (induction views rule: rev_induct)
    case Nil
    show ?case by (simp add: graph_inv_def)
  next
    case (snoc v views)
    then show ?case using graph_inv_step by simp
  qed
  then show ?thesis by (simp add: build_graph_def)
qed

lemma set_map_filter: "set (List.map_filter f xs) = {y. \<exists>x \<in> set xs. f x = Some y}"
  by (induction xs) (auto simp: List.map_filter_simps split: option.splits)

lemma graph_deps_fold:
  fixes g :: view_graph
  defines "add \<equiv> \<lambda>(node, words, body) deps.
    deps[node := deps ! node @ List.map_filter (vg_index g) (table_mentions (drop body words))]"
  assumes "\<forall>(i, _) \<in> set parsed. i < length deps"
  shows "length (fold add parsed deps) = length deps \<and>
    (\<forall>v < length deps. set (fold add parsed deps ! v) = set (deps ! v) \<union>
       {j. \<exists>words body m. (v, words, body) \<in> set parsed \<and> m \<in> set (table_mentions (drop body words)) \<and> vg_index g m = Some j})"
  using assms(2)
proof (induction parsed arbitrary: deps)
  case Nil
  then show ?case by simp
next
  case (Cons x parsed)
  obtain i words body where x: "x = (i, words, body)" by (cases x)
  have i: "i < length deps" using Cons.prems x by simp
  have "length (add x deps) = length deps" by (simp add: add_def x)
  moreover have "set (add x deps ! v) = set (deps ! v) \<union>
      {j. v = i \<and> (\<exists>m \<in> set (table_mentions (drop body words)). vg_index g m = Some j)}" if "v < length deps" for v
    using that i by (auto simp: add_def x nth_list_update set_map_filter)
  ultimately show ?case using Cons.IH [of "add x deps"] Cons.prems x by auto
qed

lemma graph_deps_facts:
  assumes "graph_inv views g"
  shows "length (graph_deps g) = length (vg_own g)" "valid_deps (graph_deps g)"
    "(v, words, body) \<in> set (vg_parsed g) \<Longrightarrow> m \<in> set (table_mentions (drop body words)) \<Longrightarrow> vg_index g m = Some j \<Longrightarrow>
     j \<in> set (graph_deps g ! v)"
proof -
  have *: "length (graph_deps g) = length (vg_own g) \<and> (\<forall>v < length (vg_own g). set (graph_deps g ! v) =
       {j. \<exists>words body m. (v, words, body) \<in> set (vg_parsed g) \<and> m \<in> set (table_mentions (drop body words)) \<and> vg_index g m = Some j})"
    using graph_deps_fold [of "vg_parsed g" "replicate (length (vg_own g)) []" g] assms
    by (simp add: graph_deps_def graph_inv_def)
  then show "length (graph_deps g) = length (vg_own g)" by simp
  show "valid_deps (graph_deps g)" using * assms unfolding valid_deps_def graph_inv_def by auto
  show "j \<in> set (graph_deps g ! v)"
    if "(v, words, body) \<in> set (vg_parsed g)" "m \<in> set (table_mentions (drop body words))" "vg_index g m = Some j"
    using * that assms unfolding graph_inv_def by blast
qed

lemma chain_path:
  assumes inv: "graph_inv views g" and chain: "view_chain views c"
  defines "node \<equiv> \<lambda>v. the (vg_index g (the (view_name v)))"
  shows "simple_path (graph_deps g) (map node c) \<and> hd (map node c) < length (vg_own g) \<and>
    (\<Sum>v \<leftarrow> c. snd v) \<le> path_cost (vg_own g) (map node c)"
proof -
  have known: "\<exists>name body. view_definition (sql_words (fst v)) = Some (name, body) \<and> view_name v = Some name \<and>
      vg_index g name = Some (node v) \<and> snd v \<le> vg_own g ! node v \<and>
      (node v, sql_words (fst v), body) \<in> set (vg_parsed g)" if v: "v \<in> set c" for v
  proof -
    obtain name body where d: "view_definition (sql_words (fst v)) = Some (name, body)"
      using chain v by (auto simp: view_chain_def view_name_def)
    moreover have "v \<in> set views" using chain v by (auto simp: view_chain_def)
    ultimately obtain i where "vg_index g name = Some i" "snd v \<le> vg_own g ! i"
      "(i, sql_words (fst v), body) \<in> set (vg_parsed g)"
      using inv d unfolding graph_inv_def knows_def by blast
    then show ?thesis using d by (auto simp: node_def view_name_def)
  qed
  have inj: "inj_on node (set c)"
  proof (rule inj_onI)
    fix a b assume ab: "a \<in> set c" "b \<in> set c" "node a = node b"
    then have "view_name a = view_name b"
      using known [OF ab(1)] known [OF ab(2)] inv unfolding graph_inv_def by (metis ab(3))
    then show "a = b" using chain ab by (auto simp: view_chain_def distinct_map dest: inj_onD)
  qed
  have "distinct (map node c)" using inj chain by (auto simp: distinct_map view_chain_def)
  moreover have "successively (\<lambda>u v. v \<in> set (graph_deps g ! u)) (map node c)"
  proof -
    have "node b \<in> set (graph_deps g ! node a)" if ab: "a \<in> set c" "b \<in> set c" "view_link a b" for a b
    proof -
      obtain name body m where link: "view_definition (sql_words (fst a)) = Some (name, body)" "view_name b = Some m"
        "m \<in> set (table_mentions (drop body (sql_words (fst a))))"
        using ab(3) unfolding view_link_def by blast
      have "(node a, sql_words (fst a), body) \<in> set (vg_parsed g)" using known [OF ab(1)] link(1) by auto
      moreover have "vg_index g m = Some (node b)" using known [OF ab(2)] link(2) by auto
      ultimately show ?thesis by (rule graph_deps_facts(3) [OF inv _ link(3)])
    qed
    then show ?thesis unfolding successively_map
    proof (rule successively_mono [rotated])
      show "successively view_link c" using chain by (simp add: view_chain_def)
    qed
  qed
  moreover have "hd c \<in> set c" using chain by (simp add: view_chain_def)
  then have "node (hd c) < length (vg_own g)" using known inv unfolding graph_inv_def by blast
  moreover have "(\<Sum>v \<leftarrow> c. snd v) \<le> (\<Sum>v \<leftarrow> c. vg_own g ! node v)"
    using known by (intro sum_list_mono) blast
  ultimately show ?thesis using chain
    by (simp add: simple_path_def view_chain_def path_cost_def hd_map comp_def)
qed

lemma deepest_chain:
  "\<exists>d. deepest_view_chain views = Some d \<and>
    (\<forall>c. view_chain views c \<longrightarrow> min (\<Sum>v \<leftarrow> c. snd v) u64_max \<le> d)"
proof -
  let ?g = "build_graph views"
  note inv = graph_inv_build [of views]
  obtain s where s: "tj_roots (vg_own ?g) (graph_deps ?g) [0 ..< length (vg_own ?g)] tarjan_new = Some s"
    "\<And>p. simple_path (graph_deps ?g) p \<Longrightarrow> hd p < length (vg_own ?g) \<Longrightarrow> min (path_cost (vg_own ?g) p) u64_max \<le> tj_deepest s"
    using search_bounds_paths [OF graph_deps_facts(2) [OF inv], of "vg_own ?g"] graph_deps_facts(1) [OF inv] by auto
  have "min (\<Sum>v \<leftarrow> c. snd v) u64_max \<le> tj_deepest s" if "view_chain views c" for c
    using chain_path [OF inv that] s(2) by (meson le_trans min.mono order_refl)
  then show ?thesis using s(1) by (simp add: deepest_view_chain_def Let_def)
qed

text \<open>
  (C25) The search for the deepest chain of views always returns, whatever the definitions say (cycles,
  repeated names, dangling mentions), and its answer bounds every chain: for views with distinct names
  each of which mentions the next where a table can stand, the sum of their costs (saturated) is at most
  the computed depth.
\<close>

theorem deepest_view_chain_bounds:
  "\<exists>d. deepest_view_chain views = Some d \<and>
    (\<forall>c. view_chain views c \<longrightarrow> min (\<Sum>v \<leftarrow> c. snd v) u64_max \<le> d)"
  by (rule deepest_chain)

theorem deepest_view_chain_bounds_witness:
  "let a = (''create view a as select x from b'', 3); b = (''create view b as select 1'', 4)
   in \<exists>d. deepest_view_chain [a, b] = Some d \<and> 7 \<le> d"
proof -
  let ?a = "(''create view a as select x from b'', 3 :: nat)" and ?b = "(''create view b as select 1'', 4 :: nat)"
  have a: "view_definition (sql_words (fst ?a)) = Some (''a'', 3)" "view_name ?a = Some ''a''" "view_name ?b = Some ''b''"
    "table_mentions (drop 3 (sql_words (fst ?a))) = [''b'']"
    by code_simp+
  then have "view_link ?a ?b" unfolding view_link_def by (intro exI [of _ "''a''"] exI [of _ 3] exI [of _ "''b''"]) simp
  then have chain: "view_chain [?a, ?b] [?a, ?b]" using a by (simp add: view_chain_def)
  obtain d where d: "deepest_view_chain [?a, ?b] = Some d"
    "\<And>c. view_chain [?a, ?b] c \<Longrightarrow> min (\<Sum>v \<leftarrow> c. snd v) u64_max \<le> d"
    using deepest_view_chain_bounds [of "[?a, ?b]"] by blast
  have "7 \<le> d" using d(2) [OF chain] by (simp add: u64_max_def)
  then show ?thesis using d(1) by (simp add: Let_def)
qed

end
