(* ===== verification/Schema_Check.thy ===== *)
theory Schema_Check
  imports View_Chain Query_Result
begin

text \<open>
  The check of a database's schema before it is opened for a query (\<^verbatim>\<open>check_schema_nesting_within\<close> in
  \<^verbatim>\<open>victauri-plugin/src/database.rs\<close>): every entry's nesting and number of SELECTs, and the deepest
  chain of its views.  The rows of \<^verbatim>\<open>sqlite_master\<close> and whether the time budget is used up are what
  SQLite and the clock answer, hence arguments.
\<close>

section \<open>The check\<close>

datatype error_code = OperationInterrupted | TooBig | OtherCode

text \<open>An error of \<^verbatim>\<open>rusqlite\<close>: its code and its text.\<close>

type_synonym sqlite_error = "error_code \<times> string"

definition MAX_QUERY_CELL_BYTES :: usize where
  "MAX_QUERY_CELL_BYTES = 1048576"

definition sqlite_query_error :: "string \<Rightarrow> sqlite_error \<Rightarrow> nat \<Rightarrow> string" where
  "sqlite_query_error context error timeout_ms =
     (if fst error = OperationInterrupted then
        context @ '': query timed out after '' @ decimal timeout_ms @ '' ms''
      else if fst error = TooBig then
        context @ '': a value is larger than the '' @ decimal MAX_QUERY_CELL_BYTES @ '' byte limit per cell '' @
        ''(the whole query fails, including substr() of that value). Leave the column out, or '' @
        ''select length(column) or typeof(column) to look at it''
      else context @ '': '' @ snd error)"

definition MAX_SCHEMA_VIEW_NESTING :: usize where
  "MAX_SCHEMA_VIEW_NESTING = 2000"

definition MAX_SCHEMA_VIEW_TEXT_BYTES :: usize where
  "MAX_SCHEMA_VIEW_TEXT_BYTES = 16 * 1024 * 1024"

text \<open>A C string ends at its first NUL.\<close>

definition schema_entry_text :: "query_lib \<Rightarrow> value_ref \<Rightarrow> string" where
  "schema_entry_text lib v =
     (case v of
        VText t \<Rightarrow>
          (let c = takeWhile (\<lambda>b. b \<noteq> CHR 0x00) t
           in case ql_utf8_lossy lib c of Some repaired \<Rightarrow> repaired | None \<Rightarrow> c)
      | _ \<Rightarrow> [])"

definition refusing :: "string \<Rightarrow> string" where
  "refusing reason = ''refusing to open this database: '' @ reason"

text \<open>An entry: its name, when it reads as text, and its definition, when the column can be read.\<close>

type_synonym schema_entry = "string option \<times> value_ref option"

definition entry_name :: "schema_entry \<Rightarrow> string" where
  "entry_name e = (case fst e of Some name \<Rightarrow> name | None \<Rightarrow> ''<unnamed>'')"

definition entry_cost :: "string \<Rightarrow> usize" where
  "entry_cost t = max (fst (sql_nesting t)) (snd (sql_nesting t)) + 1"

fun check_entries ::
  "query_lib \<Rightarrow> nat \<Rightarrow> (sqlite_error + schema_entry) list \<Rightarrow> (string \<times> usize) list \<Rightarrow> usize \<Rightarrow>
   string + (string \<times> usize) list" where
  "check_entries lib budget_ms [] views view_bytes = Inr views"
| "check_entries lib budget_ms (Inl e # rows) views view_bytes =
     (if fst e = TooBig
      then Inl (refusing (''a schema entry is too long (over '' @ decimal MAX_QUERY_SQL_BYTES @
                          '' bytes), which SQLite would have to parse in full''))
      else Inl (sqlite_query_error ''failed to load database schema'' e budget_ms))"
| "check_entries lib budget_ms (Inr entry # rows) views view_bytes =
     (case snd entry of
        None \<Rightarrow> check_entries lib budget_ms rows views view_bytes
      | Some v \<Rightarrow>
          (let t = schema_entry_text lib v; (nesting, selects) = sql_nesting t
           in if nesting > MAX_SQL_NESTING then
                Inl (refusing (''schema entry `'' @ entry_name entry @ ''` nests '' @ decimal nesting @
                  '' levels deep (the limit is '' @ decimal MAX_SQL_NESTING @
                  ''); parsing it could overflow the stack and end the app''))
              else if selects > MAX_SQL_SELECTS then
                Inl (refusing (''schema entry `'' @ entry_name entry @ ''` nests '' @ decimal selects @
                  '' SELECTs (the limit is '' @ decimal MAX_SQL_SELECTS @ '')''))
              else if view_definition (sql_words t) \<noteq> None then
                (let view_bytes = sat_add view_bytes (length t)
                 in if view_bytes > MAX_SCHEMA_VIEW_TEXT_BYTES then
                      Inl (refusing (''its views'' @ [CHR 0x27] @ '' definitions exceed '' @
                        decimal MAX_SCHEMA_VIEW_TEXT_BYTES @
                        '' bytes, more than the check of how they chain will hold''))
                    else check_entries lib budget_ms rows (views @ [(t, max nesting selects + 1)]) view_bytes)
              else check_entries lib budget_ms rows views view_bytes))"

text \<open>\<open>None\<close> would be a search for the deepest chain that does not end.\<close>

definition check_schema_nesting ::
  "query_lib \<Rightarrow> nat \<Rightarrow> (sqlite_error + schema_entry) list \<Rightarrow> bool \<Rightarrow> (string + unit) option" where
  "check_schema_nesting lib budget_ms rows out_of_time =
     (case check_entries lib budget_ms rows [] 0 of
        Inl e \<Rightarrow> Some (Inl e)
      | Inr views \<Rightarrow>
          map_option (\<lambda>view_nesting.
            if view_nesting > MAX_SCHEMA_VIEW_NESTING then
              Inl (refusing (''its views nest up to '' @ decimal view_nesting @ '' levels when chained (the limit is '' @
                decimal MAX_SCHEMA_VIEW_NESTING @ ''); expanding them could overflow the stack and end the app''))
            else if out_of_time then
              Inl (refusing (''checking its schema timed out after '' @ decimal budget_ms @ '' ms''))
            else Inr ()) (deepest_view_chain views))"

section \<open>What it promises\<close>

text \<open>The views of a schema with their costs.\<close>

definition schema_views :: "query_lib \<Rightarrow> (sqlite_error + schema_entry) list \<Rightarrow> (string \<times> usize) list" where
  "schema_views lib rows =
     List.map_filter (\<lambda>r. case r of
         Inr (_, Some v) \<Rightarrow>
           (let t = schema_entry_text lib v
            in if view_definition (sql_words t) \<noteq> None then Some (t, entry_cost t) else None)
       | _ \<Rightarrow> None) rows"

definition entry_ok :: "query_lib \<Rightarrow> sqlite_error + schema_entry \<Rightarrow> bool" where
  "entry_ok lib r = (case r of
       Inl _ \<Rightarrow> False
     | Inr (_, None) \<Rightarrow> True
     | Inr (_, Some v) \<Rightarrow>
         fst (sql_nesting (schema_entry_text lib v)) \<le> 256 \<and> snd (sql_nesting (schema_entry_text lib v)) \<le> 2000)"

lemma check_entries_passes:
  "check_entries lib ms rows views bytes = Inr out \<Longrightarrow>
   out = views @ schema_views lib rows \<and> (\<forall>r \<in> set rows. entry_ok lib r)"
proof (induction rows arbitrary: views bytes)
  case Nil
  then show ?case by (simp add: schema_views_def List.map_filter_simps)
next
  case (Cons r rows)
  note limits_def = MAX_SQL_NESTING_def MAX_SQL_SELECTS_def
  show ?case
  proof (cases r)
    case (Inl e)
    then show ?thesis using Cons.prems by (simp split: if_splits)
  next
    case r: (Inr entry)
    obtain name cell where entry: "entry = (name, cell)" by (cases entry)
    show ?thesis
    proof (cases cell)
      case None
      then show ?thesis using Cons.prems Cons.IH [of views bytes] r entry
        by (simp add: entry_ok_def schema_views_def List.map_filter_simps)
    next
      case (Some v)
      define t where "t = schema_entry_text lib v"
      obtain n k where nk: "sql_nesting t = (n, k)" by (cases "sql_nesting t")
      have limits: "n \<le> 256" "k \<le> 2000"
        using Cons.prems r entry Some nk
        by (auto simp: Let_def t_def [symmetric] limits_def split: if_splits)
      have ok: "entry_ok lib r" using r entry Some nk limits by (simp add: entry_ok_def t_def [symmetric])
      show ?thesis
      proof (cases "view_definition (sql_words t)")
        case None
        then have "check_entries lib ms rows views bytes = Inr out"
          using Cons.prems r entry Some nk limits by (simp add: Let_def t_def [symmetric] limits_def)
        then show ?thesis using Cons.IH [of views bytes] r entry Some None ok
          by (simp add: schema_views_def List.map_filter_simps Let_def t_def [symmetric])
      next
        case def_v: (Some d)
        then have "check_entries lib ms rows (views @ [(t, max n k + 1)]) (sat_add bytes (length t)) = Inr out"
          using Cons.prems r entry Some nk limits
          by (auto simp: Let_def t_def [symmetric] limits_def split: if_splits)
        then show ?thesis using Cons.IH r entry Some def_v ok nk
          by (fastforce simp: schema_views_def List.map_filter_simps Let_def t_def [symmetric] entry_cost_def)
      qed
    qed
  qed
qed

text \<open>
  (C7) A schema that passes cannot nest too deep: the check always returns, and if it returns without an
  error then every row was read, every entry's code nests at most 256 parentheses and holds at most
  2000 SELECTs, no chain of distinct views that select from each other adds up to a cost above 2000,
  and the budget was not used up.
\<close>

theorem schema_check_sound:
  shows "check_schema_nesting lib ms rows late \<noteq> None \<and>
    (check_schema_nesting lib ms rows late = Some (Inr ()) \<longrightarrow>
       \<not> late \<and> (\<forall>r \<in> set rows. entry_ok lib r) \<and>
       (\<forall>c. view_chain (schema_views lib rows) c \<longrightarrow> (\<Sum>v \<leftarrow> c. snd v) \<le> 2000))"
proof (cases "check_entries lib ms rows [] 0")
  case (Inl e)
  then show ?thesis by (simp add: check_schema_nesting_def)
next
  case (Inr views)
  then have views: "views = schema_views lib rows" "\<forall>r \<in> set rows. entry_ok lib r"
    using check_entries_passes by fastforce+
  obtain d where d: "deepest_view_chain views = Some d"
    "\<And>c. view_chain views c \<Longrightarrow> min (\<Sum>v \<leftarrow> c. snd v) u64_max \<le> d"
    using deepest_chain by blast
  have "(\<Sum>v \<leftarrow> c. snd v) \<le> 2000" if "view_chain views c" "d \<le> 2000" for c
    using d(2) [OF that(1)] that(2) by (auto simp: min_def u64_max_def split: if_splits)
  then show ?thesis using Inr d(1) views
    by (auto simp: check_schema_nesting_def MAX_SCHEMA_VIEW_NESTING_def split: if_splits)
qed

theorem schema_check_sound_witness:
  "check_schema_nesting demo_query_lib 3000 [Inr (Some ''t'', Some (VText ''create table t(x)''))] False = Some (Inr ()) \<and>
   entry_ok demo_query_lib (Inr (Some ''t'', Some (VText ''create table t(x)'')))"
proof -
  let ?rows = "[Inr (Some ''t'', Some (VText ''create table t(x)''))]"
  have "sql_nesting ''create table t(x)'' = (1, 0)" "view_definition (sql_words ''create table t(x)'') = None"
    "schema_entry_text demo_query_lib (VText ''create table t(x)'') = ''create table t(x)''"
    by code_simp+
  moreover have "deepest_view_chain [] = Some 0"
    by (simp add: deepest_view_chain_def build_graph_def tarjan_new_def)
  ultimately have "check_schema_nesting demo_query_lib 3000 ?rows False = Some (Inr ())"
    by (simp add: check_schema_nesting_def MAX_SQL_NESTING_def MAX_SQL_SELECTS_def MAX_SCHEMA_VIEW_NESTING_def)
  then show ?thesis using schema_check_sound [of demo_query_lib 3000 ?rows False] by simp
qed

end
