(* ===== verification/Spec2Isabelle.thy ===== *)
theory Spec2Isabelle
  imports Bridge_Loop Dom_Snapshot Verify_Checks Visual_Diff Filmstrip Page_Json Codegen Jsonc Log_Wait Log_Digest Event Victauri_Error Recording Screencast Security Middleware Http_Server Serve Registry
    State_Verification Authz Privacy Dispatch Redaction Introspection Telemetry Query_Policy Query_Result Schema_Check
begin

text \<open>
  A verification library for Victauri.

  Victauri embeds an MCP and REST server into a Tauri application, so that an agent can inspect and
  drive it: the webview, the IPC between frontend and backend, the Rust side.  The library follows the
  crates under \<^verbatim>\<open>src/crates/\<close>: \<^verbatim>\<open>victauri-core\<close> (pure logic), \<^verbatim>\<open>victauri-plugin\<close> (the server), and of
  \<^verbatim>\<open>victauri-cli\<close>, \<^verbatim>\<open>victauri-test\<close> and \<^verbatim>\<open>victauri-watchdog\<close> the parts with logic of their own.

  \<^bold>\<open>How a request travels.\<close>  A connection is accepted by the serve loop (\<open>Serve\<close>), its request
  passes the guards and limits of the router (\<open>Middleware\<close>, \<open>Http_Server\<close>, with the primitives of
  \<open>Security\<close>), then the REST or MCP entry point (\<open>Dispatch\<close>), which resolves the capability the
  call needs (\<open>Authz\<close>) and asks the privacy configuration (\<open>Privacy\<close>) before a tool handler runs.
  The handlers read and write the event log (\<open>Event\<close>), the recorder (\<open>Recording\<close>), the trace buffer
  (\<open>Screencast\<close>), the command registry (\<open>Registry\<close>) and the verification functions
  (\<open>State_Verification\<close>).

  \<^bold>\<open>Theories.\<close>
  \<^item> \<open>Victauri_Prelude\<close>: names for Rust's types, list and string operations, the interfaces
    \<open>bounded_log\<close> (a log that evicts its oldest entry) and \<open>generation_owner\<close> (ownership by a
    generation number).  \<open>Float64\<close>: IEEE binary64 arithmetic over rationals, executable.  \<open>Json\<close>:
    the \<^verbatim>\<open>serde_json\<close> data model.  \<open>Collections\<close>: ordered and hashed maps, the stable sort and the
    interfaces \<open>recency_store\<close> (a keyed store that evicts its least recently written key) and
    \<open>budget_log\<close> (a log that evicts its oldest entries until the rest is within a budget).  \<open>Utf8\<close>:
    well-formed UTF-8, character boundaries and cuts.
  \<^item> \<open>Event\<close> (\<^verbatim>\<open>victauri-core/src/event.rs\<close>): the log is a list with a capacity; \<open>el_push\<close> is
    \<^verbatim>\<open>EventLog::push\<close>.  It interprets \<open>bounded_log\<close>; every history of pushes and clears leaves the
    newest events (\<open>event_log_keeps_newest\<close>).
  \<^item> \<open>Victauri_Error\<close> (\<^verbatim>\<open>error.rs\<close>): error values; fallible operations return \<open>victauri_error + 'a\<close>.
  \<^item> \<open>Recording\<close> (\<^verbatim>\<open>recording.rs\<close>): the recorder state, every operation, and the interleaving of
    operations of any number of clients (\<open>rec_step\<close>).  It interprets \<open>bounded_log\<close> twice and
    \<open>generation_owner\<close>.  Shown: checkpoint windows, generations, memory bounds, import/export.
  \<^item> \<open>Screencast\<close> (\<^verbatim>\<open>victauri-plugin/src/screencast.rs\<close>): the trace buffer with its frame and byte
    caps, generations (\<open>generation_owner\<close> again) and the capture task's guard.
  \<^item> \<open>Security\<close> (\<^verbatim>\<open>security.rs\<close>): constant-time comparison on 8-bit words, the rate limiter as
    sequential functions and as a step relation of its atomic accesses, host and origin checks.
  \<^item> \<open>Middleware\<close> (\<^verbatim>\<open>middleware.rs\<close>): services as functions of state and request, middleware as
    functions of the next service; the refusal log, again also as atomic steps.
  \<^item> \<open>Http_Server\<close> (\<^verbatim>\<open>mcp/hardening.rs\<close>, \<^verbatim>\<open>mcp/server.rs\<close>): body limits, split rate limit and
    \<^verbatim>\<open>build_app_full_inner\<close>, the layers in the order of the code.  The routes behind them are
    arbitrary functions.
  \<^item> \<open>Serve\<close> (\<^verbatim>\<open>mcp/hardening.rs\<close>): the accept loop and the connection tasks as a step relation.
  \<^item> \<open>Registry\<close> (\<^verbatim>\<open>registry.rs\<close>): commands, the ordered map (interface \<open>named_store\<close>,
    interpreted on it) and resolution with binary64 scores.
  \<^item> \<open>State_Verification\<close> (\<^verbatim>\<open>verification.rs\<close>, \<^verbatim>\<open>types.rs\<close>): state comparison, ghost commands, IPC
    integrity, assertions.
  \<^item> \<open>Authz\<close>, \<open>Privacy\<close>, \<open>Dispatch\<close> (\<^verbatim>\<open>mcp/authz.rs\<close>, \<^verbatim>\<open>privacy.rs\<close>, \<^verbatim>\<open>mcp/mod.rs\<close>,
    \<^verbatim>\<open>mcp/rest.rs\<close>, \<^verbatim>\<open>mcp/helpers.rs\<close>): the tables, the gate and the two entry points around
    arbitrary handlers.
  \<^item> \<open>Redaction\<close> (\<^verbatim>\<open>redaction.rs\<close>): the redactor with the \<^verbatim>\<open>regex\<close> crate as an argument; secrets do
    not influence its output, entries are kept, values stay well-formed.  The last section of this
    theory composes it with the entry points of \<open>Dispatch\<close> (\<open>secrets_do_not_leave\<close>).
  \<^item> \<open>Introspection\<close>, \<open>Telemetry\<close> (\<^verbatim>\<open>introspection.rs\<close>): fault rules, contract baselines, probes, task
    tracker, page loads (two interpretations of \<open>recency_store\<close>), drain watermarks
    (\<open>generation_owner\<close>), then timings with their percentile in binary64, the startup timeline and
    the event-bus monitor.
  \<^item> \<open>Sql_Scan\<close>, \<open>Query_Policy\<close>, \<open>Query_Result\<close>, \<open>View_Chain\<close>, \<open>Schema_Check\<close>
    (\<^verbatim>\<open>database.rs\<close>): what agent SQL may be (the scanner, compared with a reference reading of SQL as
    spans, and the checks on its output), what it may do (policy and authorizer), what it returns
    (column keys, cells, row and byte limits) and which databases are refused (nesting of schema
    entries; Tarjan's algorithm over the views, a step function on an explicit stack whose invariant
    gives the bound and whose measure gives termination).
  \<^item> \<open>Backend_Logs\<close>, \<open>Log_Wait\<close>, \<open>Log_Digest\<close> (\<^verbatim>\<open>victauri-plugin/src/backend_logs.rs\<close>): the ring of
    captured records (\<open>budget_log\<close>, as is the event bus), queries and cursors, shown to lose nothing
    against the history of everything logged; the wait for a record, its scans and its wake-up protocol;
    templates, cutting of texts and the digest.
  \<^item> \<open>Jsonc\<close> (\<^verbatim>\<open>victauri-cli/src/jsonc.rs\<close>): the editor of other tools' configuration files: blanking
    compared with a reference reading of JSONC as spans, the scanners compared with the JSON grammar,
    the insertion shown to keep the user's text.
  \<^item> \<open>Unicode\<close>: scalar values, UTF-8 and UTF-16 encodings (shown inverse to each other), hexadecimal
    numbers.  \<open>Recorded_Selector\<close> (\<^verbatim>\<open>js_bridge.rs\<close>, \<^verbatim>\<open>victauri-core/src/codegen.rs\<close>): the selectors the
    page bridge records, on UTF-16 code units, and their decoder on UTF-8 text, shown to agree.
    \<open>Rust_Text\<close>, \<open>Codegen\<close> (\<^verbatim>\<open>codegen.rs\<close>): escaping, names and the test generator, compared with a
    reader of Rust tokens: the generated file is the recorded calls and nothing else.
  \<^item> \<open>Watchdog\<close> (\<^verbatim>\<open>victauri-watchdog/src/main.rs\<close>): configuration, discovery of the app, the pin on its
    identity and the polling loop, with the files and the health answers it reads as arguments.
  \<^item> \<open>Bridge_Discovery\<close>, \<open>Stdio_Bridge\<close>, \<open>Bridge_Loop\<close> (\<^verbatim>\<open>victauri-cli/src/bridge.rs\<close>): the bridge between an
    MCP client on stdio and the app's server: which app a scan selects, a forward with its session and
    retries in a world given by functions of its own state, and the stdin loop with its tasks, forwarder
    and poller as a step relation.  \<open>Json_Codec\<close> is a concrete printer and reader of JSON, an instance of
    what these theories assume of \<^verbatim>\<open>serde_json\<close>.
  \<^item> \<open>Terminal\<close> (\<^verbatim>\<open>victauri-test/src/terminal.rs\<close>): untrusted text made fit for terminals and CI logs.
    \<open>Page_Json\<close> (\<^verbatim>\<open>mcp/page_json.rs\<close>): JSON of the page with lone surrogates, compared with JavaScript's
    \<^verbatim>\<open>toWellFormed\<close>.  \<open>Filmstrip\<close> (\<^verbatim>\<open>filmstrip.rs\<close>): the contact sheet, compared with its definition by
    coordinates.  \<open>Visual_Diff\<close> (\<^verbatim>\<open>victauri-test/src/visual.rs\<close>): screenshots compared with baseline
    files, the verdict in binary64; a strict check is exact (\<open>compare_images_strict\<close>).
    \<open>Junit_Report\<close> (\<^verbatim>\<open>victauri-test/src/reporting.rs\<close>, with Rust's decimals in \<open>Float_Text\<close>): reports as XML,
    read back by a reader written from the XML grammar (\<open>report_read\<close>).
  \<^item> \<open>Dom_Snapshot\<close> (\<^verbatim>\<open>victauri-core/src/snapshot.rs\<close>): windows, and the element tree rendered as text; the
    text is a function of the visible part (\<open>snapshot_text_shows_only\<close>).
  \<^item> \<open>Test_Client\<close>, \<open>Coverage_Report\<close>, \<open>Verify_Checks\<close> (\<^verbatim>\<open>victauri-test\<close>: \<^verbatim>\<open>error.rs\<close>, \<^verbatim>\<open>client.rs\<close>,
    \<^verbatim>\<open>coverage.rs\<close>, \<^verbatim>\<open>assertions.rs\<close>): errors and a few calls of the test client, as actions on a world;
    the coverage report; every check of a \<^verbatim>\<open>verify()\<close> run.  Shown: the coverage is exact, and a negative
    check passes only on a complete log (\<open>not_full_complete\<close>).

  \<^bold>\<open>Reading of the code.\<close>  A lock makes an operation atomic, so locked components are functions on
  their state and concurrency is the order of their operations; lock-free code (rate limiter, refusal
  log) is a relation between single atomic accesses in which a load may return any value.  Strings are
  lists of UTF-8 bytes; operations on characters are written on bytes.  \<^verbatim>\<open>u64\<close> and \<^verbatim>\<open>usize\<close> are natural
  numbers; where an operation saturates, wraps or would overflow this is written out.  No fuel is
  needed: loops are structural or come with a measure; the depth-first search of \<open>View_Chain\<close> is a
  partial function proved to return (\<open>deepest_view_chain_bounds\<close>); the retry loops of lock-free code are
  steps of the relations.  Third-party code (\<^verbatim>\<open>http\<close>, \<^verbatim>\<open>axum\<close>, \<^verbatim>\<open>url\<close>,
  \<^verbatim>\<open>serde_json\<close>, \<^verbatim>\<open>rmcp\<close>), Unicode case mapping and its table of printable characters are arguments of the definitions that use them.

  \<^bold>\<open>Not modelled.\<close>  Tool handlers (they drive the webview through JavaScript), the JavaScript bridge apart from its selectors,
  window and process access, SQLite, the rest of the CLI, the test client apart from these calls, the files and processes of the watchdog
  and the procedural macros: I/O around third-party libraries.
\<close>

section \<open>Secrets and tool results\<close>

text \<open>
  Two results of a handler that differ only in secrets: the same blocks, or texts that are JSON and
  differ only where the redactor removes.
\<close>

definition block_same_public :: "text_lib \<Rightarrow> content_block \<Rightarrow> content_block \<Rightarrow> bool" where
  "block_same_public lib c d \<longleftrightarrow> c = d \<or>
     (\<exists>a b v w. c = Text a \<and> d = Text b \<and> tx_from_str lib a = Some v \<and> tx_from_str lib b = Some w \<and>
        same_public lib 0 v w \<and> v \<noteq> w)"

inductive outcome_same_public ::
  "text_lib \<Rightarrow> ('e + call_tool_result) outcome \<Rightarrow> ('e + call_tool_result) outcome \<Rightarrow> bool" for lib where
  "outcome_same_public lib out out"
| "list_all2 (block_same_public lib) (ct_content r) (ct_content q) \<Longrightarrow> ct_is_error r = ct_is_error q \<Longrightarrow>
   outcome_same_public lib (Returned (Inr r)) (Returned (Inr q))"

lemma redact_result_same_public:
  assumes "\<And>w. tx_to_string lib w \<noteq> None"
    and "pc_redaction_enabled cfg" "pc_redact cfg = redact lib rd"
    and "list_all2 (block_same_public lib) (ct_content r) (ct_content q)" "ct_is_error r = ct_is_error q"
  shows "redact_result cfg r = redact_result cfg (q :: call_tool_result)"
proof -
  have "redact_block (redact_output cfg) c = redact_block (redact_output cfg) d"
    if "block_same_public lib c d" for c d
    using that assms(2,3) redaction_agrees_text [OF assms(1)]
    by (auto simp: block_same_public_def redact_output_def)
  then have "list_all2 (\<lambda>c d. redact_block (redact_output cfg) c = redact_block (redact_output cfg) d)
      (ct_content r) (ct_content q)"
    using assms(4) by (rule list_all2_mono [rotated])
  then have "map (redact_block (redact_output cfg)) (ct_content r) = map (redact_block (redact_output cfg)) (ct_content q)"
    by (induction rule: list_all2_induct) simp_all
  then show ?thesis using assms(5) by (simp add: redact_result_def)
qed

lemma outcome_cases:
  assumes "outcome_same_public lib (fst x) (fst y) \<and> snd x = snd y"
  obtains "x = y"
  | r q a where "x = (Returned (Inr r), a)" "y = (Returned (Inr q), a)"
      "list_all2 (block_same_public lib) (ct_content r) (ct_content q)" "ct_is_error r = ct_is_error q"
  using assms by (cases x; cases y) (auto elim: outcome_same_public.cases)

text \<open>
  (C3) Secrets do not leave through a tool call: with redaction enabled, replacing a handler by one that
  differs only in the secrets of its JSON results changes nothing a REST or an MCP caller can see, nor
  the state; this composes the gate, the handler and the redactor.
\<close>

theorem secrets_do_not_leave:
  assumes "\<And>w. tx_to_string lib w \<noteq> None"
    and "pc_redaction_enabled (ts_privacy s)" "pc_redact (ts_privacy s) = redact lib rd"
    and "\<And>name args app. outcome_same_public lib (fst (d1 name args app)) (fst (d2 name args app)) \<and>
      snd (d1 name args app) = snd (d2 name args app)"
    and "\<And>name args app. outcome_same_public lib (fst (m1 name args app)) (fst (m2 name args app)) \<and>
      snd (m1 name args app) = snd (m2 name args app)"
  shows "execute_tool d1 name args s = execute_tool d2 name args s \<and>
    mcp_call_tool m1 name margs s = mcp_call_tool m2 name margs s"
proof
  note redacted = redact_result_same_public [OF assms(1-3)]

  show "execute_tool d1 name args s = execute_tool d2 name args s"
  proof (rule outcome_cases [OF assms(4) [of name args "ts_app (count_invocation s)"]])
    assume "d1 name args (ts_app (count_invocation s)) = d2 name args (ts_app (count_invocation s))"
    then show ?thesis by (simp only: execute_tool_def Let_def)
  next
    fix r q a
    assume *: "d1 name args (ts_app (count_invocation s)) = (Returned (Inr r), a)"
      "d2 name args (ts_app (count_invocation s)) = (Returned (Inr q), a)"
      "list_all2 (block_same_public lib) (ct_content r) (ct_content q)" "ct_is_error r = ct_is_error q"
    show ?thesis unfolding execute_tool_def Let_def *(1,2)
      using redacted [OF *(3,4)] assms(2) by (simp split: sum.split)
  qed
  let ?v = "JObject (case margs of Some m \<Rightarrow> m | None \<Rightarrow> [])"
  show "mcp_call_tool m1 name margs s = mcp_call_tool m2 name margs s"
  proof (rule outcome_cases [OF assms(5) [of name ?v "ts_app (count_invocation s)"]])
    assume "m1 name ?v (ts_app (count_invocation s)) = m2 name ?v (ts_app (count_invocation s))"
    then show ?thesis by (simp only: mcp_call_tool_def Let_def)
  next
    fix r q a
    assume *: "m1 name ?v (ts_app (count_invocation s)) = (Returned (Inr r), a)"
      "m2 name ?v (ts_app (count_invocation s)) = (Returned (Inr q), a)"
      "list_all2 (block_same_public lib) (ct_content r) (ct_content q)" "ct_is_error r = ct_is_error q"
    show ?thesis unfolding mcp_call_tool_def Let_def *(1,2)
      using redacted [OF *(3,4)] assms(2) by (simp split: sum.split)
  qed
qed

text \<open>A handler that returns one of the two texts of \<open>demo_lib\<close>, under the Observe profile.\<close>

definition demo_handler :: "string \<Rightarrow> string \<Rightarrow> json \<Rightarrow> unit \<Rightarrow> ('e + call_tool_result) outcome \<times> unit" where
  "demo_handler out name args app = (Returned (Inr (result_success [Text out])), app)"

theorem secrets_do_not_leave_witness:
  "let cfg = observe_privacy_config (redact demo_lib (redactor_default demo_lib));
       s = \<lparr> ts_privacy = cfg, ts_tool_invocations = 0, ts_app = () \<rparr>
   in execute_tool (demo_handler ''[{a'') ''get_registry'' (JObject []) s =
      execute_tool (demo_handler ''[{b'') ''get_registry'' (JObject []) s"
proof -
  let ?cfg = "observe_privacy_config (redact demo_lib (redactor_default demo_lib))"
  let ?s = "\<lparr> ts_privacy = ?cfg, ts_tool_invocations = 0, ts_app = () \<rparr>"
  have "block_same_public demo_lib (Text ''[{a'') (Text ''[{b'')"
    unfolding block_same_public_def using demo_texts_same_public by blast
  then have same: "outcome_same_public demo_lib (fst (demo_handler ''[{a'' name args app)) (fst (demo_handler ''[{b'' name args app)) \<and>
      snd (demo_handler ''[{a'' name args app) = snd (demo_handler ''[{b'' name args app)" for name args app
    by (auto simp: demo_handler_def result_success_def intro!: outcome_same_public.intros(2))
  have print: "tx_to_string demo_lib w \<noteq> None" for w by (simp add: demo_lib_def split: json.split)
  have cfg: "pc_redaction_enabled (ts_privacy ?s)" "pc_redact (ts_privacy ?s) = redact demo_lib (redactor_default demo_lib)"
    by (simp_all add: observe_privacy_config_def)
  have "execute_tool (demo_handler ''[{a'') ''get_registry'' (JObject []) ?s =
      execute_tool (demo_handler ''[{b'') ''get_registry'' (JObject []) ?s \<and>
    mcp_call_tool (demo_handler ''[{a'') ''get_registry'' None ?s = mcp_call_tool (demo_handler ''[{b'') ''get_registry'' None ?s"
    by (rule secrets_do_not_leave [OF print cfg]) (rule same)+
  then show ?thesis by (simp add: Let_def)
qed

end
